(* ===== verification/Prelude.thy ===== *)
theory Prelude
  imports Main "HOL-Library.Word" "HOL-Library.Monad_Syntax"
begin

text \<open>
  Shared vocabulary of the development: machine types, raw memory, C-style conversions and
  the generic list and word lemmas that several components use.

  Bytes are \<open>8 word\<close>; a \<open>std::string\<close> or a \<open>char\<close> buffer is a list of bytes. A
  \<open>size_t\<close> is a \<open>nat\<close> kept below \<open>2 ^ 64\<close>: where the code adds or multiplies sizes
  that a caller controls, \<open>sz\<close> writes the wrap-around out. A raw memory access is
  \<open>option\<close>-valued: \<open>None\<close> is an access outside the block, that is, undefined behaviour
  in the C++ program, so that a theorem with result \<open>Some\<close> contains memory safety.
\<close>

unbundle bit_operations_syntax

section \<open>Machine types\<close>

type_synonym byte = "8 word"
type_synonym u16 = "16 word"
type_synonym u32 = "32 word"
type_synonym u64 = "64 word"
type_synonym bytes = "byte list"

text \<open>\<open>size_t\<close> arithmetic: reduction modulo \<open>2 ^ 64\<close>.\<close>

definition sz :: "nat \<Rightarrow> nat" where
  "sz n = n mod 2 ^ 64"

lemma sz_small [simp]: "n < 2 ^ 64 \<Longrightarrow> sz n = n"
  by (simp add: sz_def)

lemma sz_less [simp]: "sz n < 2 ^ 64"
  by (simp add: sz_def)

text \<open>Conversion of a pointer difference to the \<open>int\<close> the code returns.\<close>

definition to_int32 :: "nat \<Rightarrow> int" where
  "to_int32 n = sint (of_nat n :: 32 word)"

lemma to_int32_small: "n < 2 ^ 31 \<Longrightarrow> to_int32 n = int n"
  by (simp add: to_int32_def signed_of_nat signed_take_bit_int_eq_self)

text \<open>The bytes of a C string literal.\<close>

definition str :: "string \<Rightarrow> bytes" where
  "str s = map of_char s"

section \<open>Raw memory\<close>

definition mem_read :: "'a list \<Rightarrow> nat \<Rightarrow> nat \<Rightarrow> 'a list option" where
  "mem_read m pos n = (if pos + n \<le> length m then Some (take n (drop pos m)) else None)"

definition mem_write :: "'a list \<Rightarrow> nat \<Rightarrow> 'a list \<Rightarrow> 'a list option" where
  "mem_write m pos bs =
     (if pos + length bs \<le> length m
      then Some (take pos m @ bs @ drop (pos + length bs) m) else None)"

named_theorems mem_intro \<open>in-range memory accesses\<close>

lemma mem_read_in [mem_intro]: "pos + n \<le> length m \<Longrightarrow> mem_read m pos n = Some (take n (drop pos m))"
  by (simp add: mem_read_def)

lemma mem_write_in [mem_intro]:
  "pos + length bs \<le> length m \<Longrightarrow>
     mem_write m pos bs = Some (take pos m @ bs @ drop (pos + length bs) m)"
  by (simp add: mem_write_def)

lemma mem_write_length: "mem_write m pos bs = Some m' \<Longrightarrow> length m' = length m"
  by (auto simp: mem_write_def split: if_splits)

end
