(* ===== verification/DynamicBuffer.thy ===== *)
theory DynamicBuffer
  imports Prelude
begin

text \<open>
  Model of \<open>src/brickred/dynamic_buffer.{h,cc}\<close>: a growable byte buffer with a read and a
  write index. The record has the fields of the class; every operation is one definition.
  Operations that touch the memory block return an \<open>option\<close>, \<open>None\<close> being an access
  outside \<open>db_buffer\<close>. The contents are abstracted to the byte list \<open>db_data\<close>; the locale
  \<open>byte_stream\<close> is the contract the protocols and the TCP service rely on, and its
  interpretation \<open>db\<close> discharges it for this class.
\<close>

section \<open>State and constructor\<close>

record dynamic_buffer =
  db_buffer :: bytes
  db_expand_size :: nat
  db_read_index :: nat
  db_write_index :: nat

definition db_new :: "nat \<Rightarrow> nat \<Rightarrow> dynamic_buffer" where
  "db_new init_size expand_size =
     (let expand = (if expand_size = 0 then 1 else expand_size);
          buf = replicate init_size 0;
          buf = (if buf = [] then replicate expand 0 else buf)
      in \<lparr>db_buffer = buf, db_expand_size = expand, db_read_index = 0, db_write_index = 0\<rparr>)"

definition db_swap :: "dynamic_buffer \<Rightarrow> dynamic_buffer \<Rightarrow> dynamic_buffer \<times> dynamic_buffer" where
  "db_swap a b =
     (a\<lparr>db_buffer := db_buffer b, db_expand_size := db_expand_size b,
        db_read_index := db_read_index b, db_write_index := db_write_index b\<rparr>,
      b\<lparr>db_buffer := db_buffer a, db_expand_size := db_expand_size a,
        db_read_index := db_read_index a, db_write_index := db_write_index a\<rparr>)"

section \<open>Sizes and indices\<close>

definition db_capacity :: "dynamic_buffer \<Rightarrow> nat" where
  "db_capacity b = length (db_buffer b)"

definition db_discardableBytes :: "dynamic_buffer \<Rightarrow> nat" where
  "db_discardableBytes b = db_read_index b"

definition db_readableBytes :: "dynamic_buffer \<Rightarrow> nat" where
  "db_readableBytes b = db_write_index b - db_read_index b"

definition db_writableBytes :: "dynamic_buffer \<Rightarrow> nat" where
  "db_writableBytes b = length (db_buffer b) - db_write_index b"

definition db_clear :: "dynamic_buffer \<Rightarrow> dynamic_buffer" where
  "db_clear b = b\<lparr>db_read_index := 0, db_write_index := 0\<rparr>"

definition db_read :: "dynamic_buffer \<Rightarrow> nat \<Rightarrow> dynamic_buffer" where
  "db_read b n =
     (let b = b\<lparr>db_read_index := db_read_index b + min n (db_readableBytes b)\<rparr>
      in if db_read_index b = db_write_index b then db_clear b else b)"

definition db_write :: "dynamic_buffer \<Rightarrow> nat \<Rightarrow> dynamic_buffer" where
  "db_write b n = b\<lparr>db_write_index := db_write_index b + min n (db_writableBytes b)\<rparr>"

text \<open>
  Reads and writes through the pointers \<open>readBegin()\<close> and \<open>writeBegin()\<close>, at an offset.
\<close>

definition db_readBegin :: "dynamic_buffer \<Rightarrow> nat \<Rightarrow> nat \<Rightarrow> bytes option" where
  "db_readBegin b off n = mem_read (db_buffer b) (db_read_index b + off) n"

definition db_writeBegin :: "dynamic_buffer \<Rightarrow> nat \<Rightarrow> bytes \<Rightarrow> dynamic_buffer option" where
  "db_writeBegin b off bs = do {
     buf \<leftarrow> mem_write (db_buffer b) (db_write_index b + off) bs;
     Some (b\<lparr>db_buffer := buf\<rparr>) }"

definition db_reserveWritableBytes :: "dynamic_buffer \<Rightarrow> nat \<Rightarrow> dynamic_buffer option" where
  "db_reserveWritableBytes b n =
     (if db_writableBytes b \<ge> n then Some b
      else
        let free_bytes = db_discardableBytes b + db_writableBytes b;
            readable_bytes = db_readableBytes b
        in if free_bytes \<ge> n then do {
             moved \<leftarrow> db_readBegin b 0 readable_bytes;
             buf \<leftarrow> mem_write (db_buffer b) 0 moved;
             Some (b\<lparr>db_buffer := buf, db_read_index := 0, db_write_index := readable_bytes\<rparr>) }
           else do {
             let new_size = sz (length (db_buffer b) +
               sz (db_expand_size b * ((n - free_bytes) div db_expand_size b + 1)));
             copied \<leftarrow> db_readBegin b 0 readable_bytes;
             new_buffer \<leftarrow> mem_write (replicate new_size 0) 0 copied;
             Some (b\<lparr>db_buffer := new_buffer, db_read_index := 0, db_write_index := readable_bytes\<rparr>) })"

section \<open>Peeking integers\<close>

text \<open>
  A peek returns \<open>Some None\<close> for the code's \<open>false\<close> and \<open>Some (Some v)\<close> for \<open>true\<close>
  with the out-parameter set to \<open>v\<close>. The overloads with a wider out-parameter call the
  narrow one and assign, which zero-extends (\<open>ucast\<close>).
\<close>

definition db_peekInt8 :: "dynamic_buffer \<Rightarrow> nat \<Rightarrow> byte option option" where
  "db_peekInt8 b offset =
     (if db_readableBytes b < sz (offset + 1) then Some None
      else do {
        p \<leftarrow> db_readBegin b offset 1;
        Some (Some (p ! 0)) })"

definition db_peekInt8_wide :: "dynamic_buffer \<Rightarrow> nat \<Rightarrow> 'a::len word option option" where
  "db_peekInt8_wide b offset = map_option (map_option ucast) (db_peekInt8 b offset)"

definition db_peekInt16 :: "dynamic_buffer \<Rightarrow> nat \<Rightarrow> bool \<Rightarrow> u16 option option" where
  "db_peekInt16 b offset littleEndian =
     (if db_readableBytes b < sz (offset + 2) then Some None
      else do {
        p \<leftarrow> db_readBegin b offset 2;
        Some (Some (
          if littleEndian
          then ucast (p ! 0) OR push_bit 8 (ucast (p ! 1))
          else ucast (p ! 1) OR push_bit 8 (ucast (p ! 0)))) })"

definition db_peekInt16_wide :: "dynamic_buffer \<Rightarrow> nat \<Rightarrow> bool \<Rightarrow> 'a::len word option option" where
  "db_peekInt16_wide b offset littleEndian =
     map_option (map_option ucast) (db_peekInt16 b offset littleEndian)"

definition db_peekInt32 :: "dynamic_buffer \<Rightarrow> nat \<Rightarrow> bool \<Rightarrow> u32 option option" where
  "db_peekInt32 b offset littleEndian =
     (if db_readableBytes b < sz (offset + 4) then Some None
      else do {
        p \<leftarrow> db_readBegin b offset 4;
        Some (Some (
          if littleEndian
          then ucast (p ! 0) OR push_bit 8 (ucast (p ! 1)) OR
               push_bit 16 (ucast (p ! 2)) OR push_bit 24 (ucast (p ! 3))
          else ucast (p ! 3) OR push_bit 8 (ucast (p ! 2)) OR
               push_bit 16 (ucast (p ! 1)) OR push_bit 24 (ucast (p ! 0)))) })"

definition db_peekInt32_wide :: "dynamic_buffer \<Rightarrow> nat \<Rightarrow> bool \<Rightarrow> 'a::len word option option" where
  "db_peekInt32_wide b offset littleEndian =
     map_option (map_option ucast) (db_peekInt32 b offset littleEndian)"

definition db_peekInt64 :: "dynamic_buffer \<Rightarrow> nat \<Rightarrow> bool \<Rightarrow> u64 option option" where
  "db_peekInt64 b offset littleEndian =
     (if db_readableBytes b < sz (offset + 8) then Some None
      else do {
        p \<leftarrow> db_readBegin b offset 8;
        Some (Some (
          if littleEndian
          then ucast (p ! 0) OR push_bit 8 (ucast (p ! 1)) OR
               push_bit 16 (ucast (p ! 2)) OR push_bit 24 (ucast (p ! 3)) OR
               push_bit 32 (ucast (p ! 4)) OR push_bit 40 (ucast (p ! 5)) OR
               push_bit 48 (ucast (p ! 6)) OR push_bit 56 (ucast (p ! 7))
          else ucast (p ! 7) OR push_bit 8 (ucast (p ! 6)) OR
               push_bit 16 (ucast (p ! 5)) OR push_bit 24 (ucast (p ! 4)) OR
               push_bit 32 (ucast (p ! 3)) OR push_bit 40 (ucast (p ! 2)) OR
               push_bit 48 (ucast (p ! 1)) OR push_bit 56 (ucast (p ! 0)))) })"

section \<open>Reading integers\<close>

text \<open>
  \<open>read_after\<close> is the common tail of the \<open>readIntN\<close> members: on \<open>false\<close> nothing
  changes, otherwise the bytes are consumed.
\<close>

definition read_after ::
    "dynamic_buffer \<Rightarrow> nat \<Rightarrow> 'v option option \<Rightarrow> (dynamic_buffer \<times> 'v option) option" where
  "read_after b n peeked =
     (case peeked of
        None \<Rightarrow> None
      | Some None \<Rightarrow> Some (b, None)
      | Some (Some v) \<Rightarrow> Some (db_read b n, Some v))"

definition db_readInt8 :: "dynamic_buffer \<Rightarrow> (dynamic_buffer \<times> byte option) option" where
  "db_readInt8 b = read_after b 1 (db_peekInt8 b 0)"

definition db_readInt8_wide :: "dynamic_buffer \<Rightarrow> (dynamic_buffer \<times> 'a::len word option) option" where
  "db_readInt8_wide b = read_after b 1 (db_peekInt8_wide b 0)"

definition db_readInt16 :: "dynamic_buffer \<Rightarrow> bool \<Rightarrow> (dynamic_buffer \<times> u16 option) option" where
  "db_readInt16 b littleEndian = read_after b 2 (db_peekInt16 b 0 littleEndian)"

definition db_readInt16_wide ::
    "dynamic_buffer \<Rightarrow> bool \<Rightarrow> (dynamic_buffer \<times> 'a::len word option) option" where
  "db_readInt16_wide b littleEndian = read_after b 2 (db_peekInt16_wide b 0 littleEndian)"

definition db_readInt32 :: "dynamic_buffer \<Rightarrow> bool \<Rightarrow> (dynamic_buffer \<times> u32 option) option" where
  "db_readInt32 b littleEndian = read_after b 4 (db_peekInt32 b 0 littleEndian)"

definition db_readInt32_wide ::
    "dynamic_buffer \<Rightarrow> bool \<Rightarrow> (dynamic_buffer \<times> 'a::len word option) option" where
  "db_readInt32_wide b littleEndian = read_after b 4 (db_peekInt32_wide b 0 littleEndian)"

definition db_readInt64 :: "dynamic_buffer \<Rightarrow> bool \<Rightarrow> (dynamic_buffer \<times> u64 option) option" where
  "db_readInt64 b littleEndian = read_after b 8 (db_peekInt64 b 0 littleEndian)"

section \<open>Writing integers and byte blocks\<close>

definition db_writeInt8 :: "dynamic_buffer \<Rightarrow> byte \<Rightarrow> dynamic_buffer option" where
  "db_writeInt8 b v = do {
     b \<leftarrow> db_reserveWritableBytes b 1;
     b \<leftarrow> db_writeBegin b 0 [v];
     Some (db_write b 1) }"

definition db_writeInt16 :: "dynamic_buffer \<Rightarrow> u16 \<Rightarrow> bool \<Rightarrow> dynamic_buffer option" where
  "db_writeInt16 b v littleEndian = do {
     b \<leftarrow> db_reserveWritableBytes b 2;
     b \<leftarrow> db_writeBegin b 0
       (if littleEndian then [ucast v, ucast (drop_bit 8 v)]
        else [ucast (drop_bit 8 v), ucast v]);
     Some (db_write b 2) }"

definition db_writeInt32 :: "dynamic_buffer \<Rightarrow> u32 \<Rightarrow> bool \<Rightarrow> dynamic_buffer option" where
  "db_writeInt32 b v littleEndian = do {
     b \<leftarrow> db_reserveWritableBytes b 4;
     b \<leftarrow> db_writeBegin b 0
       (if littleEndian
        then [ucast v, ucast (drop_bit 8 v), ucast (drop_bit 16 v), ucast (drop_bit 24 v)]
        else [ucast (drop_bit 24 v), ucast (drop_bit 16 v), ucast (drop_bit 8 v), ucast v]);
     Some (db_write b 4) }"

definition db_writeInt64 :: "dynamic_buffer \<Rightarrow> u64 \<Rightarrow> bool \<Rightarrow> dynamic_buffer option" where
  "db_writeInt64 b v littleEndian = do {
     b \<leftarrow> db_reserveWritableBytes b 8;
     b \<leftarrow> db_writeBegin b 0
       (if littleEndian
        then [ucast v, ucast (drop_bit 8 v), ucast (drop_bit 16 v), ucast (drop_bit 24 v),
              ucast (drop_bit 32 v), ucast (drop_bit 40 v), ucast (drop_bit 48 v), ucast (drop_bit 56 v)]
        else [ucast (drop_bit 56 v), ucast (drop_bit 48 v), ucast (drop_bit 40 v), ucast (drop_bit 32 v),
              ucast (drop_bit 24 v), ucast (drop_bit 16 v), ucast (drop_bit 8 v), ucast v]);
     Some (db_write b 8) }"

definition db_readBytes :: "dynamic_buffer \<Rightarrow> nat \<Rightarrow> (dynamic_buffer \<times> bytes) option" where
  "db_readBytes b count = do {
     let real_count = min count (db_readableBytes b);
     out \<leftarrow> db_readBegin b 0 real_count;
     let b = b\<lparr>db_read_index := db_read_index b + real_count\<rparr>;
     Some (if db_read_index b = db_write_index b then db_clear b else b, out) }"

definition db_writeBytes :: "dynamic_buffer \<Rightarrow> bytes \<Rightarrow> dynamic_buffer option" where
  "db_writeBytes b bs = do {
     b \<leftarrow> db_reserveWritableBytes b (length bs);
     b \<leftarrow> db_writeBegin b 0 bs;
     Some (b\<lparr>db_write_index := db_write_index b + length bs\<rparr>) }"

text \<open>
  The idiom of the callers (\<open>http_protocol.cc\<close>, \<open>web_socket_protocol.cc\<close>,
  \<open>tcp_service.cc\<close>, \<open>log_async_sink.cc\<close>): reserve, copy through \<open>writeBegin()\<close>, \<open>write\<close>.
\<close>

definition db_append :: "dynamic_buffer \<Rightarrow> bytes \<Rightarrow> dynamic_buffer option" where
  "db_append b bs = do {
     b \<leftarrow> db_reserveWritableBytes b (length bs);
     b \<leftarrow> db_writeBegin b 0 bs;
     Some (db_write b (length bs)) }"

section \<open>Abstraction and invariant\<close>

definition db_data :: "dynamic_buffer \<Rightarrow> bytes" where
  "db_data b = take (db_write_index b - db_read_index b) (drop (db_read_index b) (db_buffer b))"

definition db_wf :: "dynamic_buffer \<Rightarrow> bool" where
  "db_wf b \<longleftrightarrow> db_read_index b \<le> db_write_index b \<and> db_write_index b \<le> length (db_buffer b) \<and>
     0 < db_expand_size b \<and> 0 < length (db_buffer b)"

text \<open>
  Enough address space: appending up to \<open>n\<close> more bytes, in one or several steps, wraps
  no size computation around.
\<close>

definition db_room :: "dynamic_buffer \<Rightarrow> nat \<Rightarrow> bool" where
  "db_room b n \<longleftrightarrow>
     max (length (db_buffer b)) (db_readableBytes b + n + db_expand_size b) + n + db_expand_size b < 2 ^ 64"

named_theorems db_defs \<open>definitions of the size observers\<close>

lemmas db_size_defs [db_defs] =
  db_readableBytes_def db_writableBytes_def db_discardableBytes_def db_capacity_def

lemma length_db_data: "db_wf b \<Longrightarrow> length (db_data b) = db_readableBytes b"
  by (auto simp: db_wf_def db_data_def db_defs)

lemma db_wf_new: "db_wf (db_new i e)"
  by (auto simp: db_wf_def db_new_def Let_def)

lemma db_data_new: "db_data (db_new i e) = []"
  by (simp add: db_data_def db_new_def Let_def)

lemma db_readBegin_data:
  "db_wf b \<Longrightarrow> off + n \<le> db_readableBytes b \<Longrightarrow>
     db_readBegin b off n = Some (take n (drop off (db_data b)))"
  by (auto simp: db_readBegin_def mem_read_def db_wf_def db_data_def db_defs drop_take
      min_def ac_simps intro!: arg_cong2 [where f = take])

lemma db_read_spec:
  assumes "db_wf b"
  shows "db_wf (db_read b n)" "db_data (db_read b n) = drop n (db_data b)"
    "db_room b m \<Longrightarrow> db_room (db_read b n) m"
  using assms by (auto simp: db_wf_def db_read_def db_clear_def db_data_def db_room_def db_defs Let_def
      drop_take min_def ac_simps)

lemma expand_size_bound:
  fixes e :: nat
  assumes "0 < e"
  shows "d < e * (d div e + 1)" "e * (d div e + 1) \<le> d + e"
proof -
  have "e * (d div e) + d mod e = d" "d mod e < e" using assms by simp_all
  then show "d < e * (d div e + 1)" "e * (d div e + 1) \<le> d + e"
    unfolding distrib_left mult_1_right by linarith+
qed

lemma db_reserve_spec:
  assumes wf: "db_wf b" and room: "db_room b n"
  obtains b' where "db_reserveWritableBytes b n = Some b'" "db_wf b'" "db_data b' = db_data b"
    "n \<le> db_writableBytes b'" "db_expand_size b' = db_expand_size b"
    "length (db_buffer b') \<le> max (length (db_buffer b)) (db_readableBytes b + n + db_expand_size b)"
proof -
  consider (enough) "n \<le> db_writableBytes b"
    | (compact) "db_writableBytes b < n" "n \<le> db_discardableBytes b + db_writableBytes b"
    | (expand) "db_writableBytes b < n" "db_discardableBytes b + db_writableBytes b < n"
    by linarith
  then show thesis
  proof cases
    case enough
    with wf show thesis by (intro that [of b]) (simp_all add: db_reserveWritableBytes_def)
  next
    case compact
    let ?r = "db_readableBytes b"
    let ?b = "b\<lparr>db_buffer := db_data b @ drop ?r (db_buffer b), db_read_index := 0, db_write_index := ?r\<rparr>"
    have len: "length (db_data b) = ?r" using wf by (rule length_db_data)
    have "db_readBegin b 0 ?r = Some (db_data b)"
      using db_readBegin_data [OF wf, of 0 ?r] len by simp
    moreover have "?r \<le> length (db_buffer b)" using wf by (auto simp: db_wf_def db_defs)
    ultimately have "db_reserveWritableBytes b n = Some ?b"
      using compact len by (simp add: db_reserveWritableBytes_def Let_def mem_write_def)
    moreover have "db_wf ?b" using wf len by (auto simp: db_wf_def db_defs)
    moreover have "db_data ?b = db_data b" using len by (simp add: db_data_def [of ?b])
    moreover have "n \<le> db_writableBytes ?b"
      using wf compact len by (auto simp: db_wf_def db_defs)
    ultimately show thesis using wf len by (intro that [of ?b]) (auto simp: db_wf_def db_defs)
  next
    case expand
    let ?r = "db_readableBytes b" and ?e = "db_expand_size b" and ?l = "length (db_buffer b)"
    define d where "d = n - (db_discardableBytes b + db_writableBytes b)"
    define new where "new = ?l + ?e * (d div ?e + 1)"
    let ?b = "b\<lparr>db_buffer := db_data b @ replicate (new - ?r) 0, db_read_index := 0, db_write_index := ?r\<rparr>"
    have len: "length (db_data b) = ?r" using wf by (rule length_db_data)
    have l: "?l = ?r + (db_discardableBytes b + db_writableBytes b)"
      using wf by (auto simp: db_wf_def db_defs)
    have "d < ?e * (d div ?e + 1)" "?e * (d div ?e + 1) \<le> d + ?e"
      using expand_size_bound [of ?e d] wf by (simp_all add: db_wf_def)
    then have bound: "new \<le> ?r + n + ?e" "?r + n \<le> new" "?l \<le> new"
      using l expand unfolding new_def d_def by linarith+
    with room have small: "new < 2 ^ 64" by (simp add: db_room_def)
    then have "sz (?l + sz (?e * (d div ?e + 1))) = new" by (simp add: new_def)
    moreover have "db_readBegin b 0 ?r = Some (db_data b)"
      using db_readBegin_data [OF wf, of 0 ?r] len by simp
    ultimately have "db_reserveWritableBytes b n = Some ?b"
      using expand len bound
      by (simp add: db_reserveWritableBytes_def Let_def mem_write_def d_def [symmetric] del: sz_small)
    moreover have "db_wf ?b" using wf len l bound by (auto simp: db_wf_def)
    moreover have "db_data ?b = db_data b" using len by (simp add: db_data_def [of ?b])
    moreover have "n \<le> db_writableBytes ?b"
      using bound len by (simp add: db_writableBytes_def)
    moreover have "length (db_buffer ?b) \<le> max ?l (?r + n + ?e)" using len bound by simp
    ultimately show thesis by (intro that [of ?b]) auto
  qed
qed

lemma db_append_spec:
  assumes wf: "db_wf b" and room: "db_room b (length bs + m)"
  obtains b' where "db_append b bs = Some b'" "db_wf b'" "db_data b' = db_data b @ bs" "db_room b' m"
    "db_expand_size b' = db_expand_size b"
proof -
  from room have "db_room b (length bs)" by (auto simp: db_room_def)
  then obtain b1 where b1: "db_reserveWritableBytes b (length bs) = Some b1" "db_wf b1"
      "db_data b1 = db_data b" "length bs \<le> db_writableBytes b1" "db_expand_size b1 = db_expand_size b"
      "length (db_buffer b1) \<le>
         max (length (db_buffer b)) (db_readableBytes b + length bs + db_expand_size b)"
    using db_reserve_spec [OF wf] by metis
  let ?buf = "take (db_write_index b1) (db_buffer b1) @ bs @ drop (db_write_index b1 + length bs) (db_buffer b1)"
  let ?b = "b1\<lparr>db_buffer := ?buf, db_write_index := db_write_index b1 + length bs\<rparr>"
  have i: "db_read_index b1 \<le> db_write_index b1" "db_write_index b1 + length bs \<le> length (db_buffer b1)"
    "length ?buf = length (db_buffer b1)"
    using b1(2,4) by (auto simp: db_wf_def db_defs)
  then have "db_append b bs = Some ?b"
    using b1(1) by (simp add: db_append_def db_writeBegin_def mem_write_def db_write_def db_defs)
  moreover have "db_wf ?b" using b1(2) i by (auto simp: db_wf_def)
  moreover have dat: "db_data ?b = db_data b @ bs"
    using i by (simp only: b1(3) [symmetric]) (simp add: db_data_def drop_take)
  moreover have "db_room ?b m"
  proof -
    have "db_readableBytes ?b = db_readableBytes b + length bs"
      using length_db_data [OF \<open>db_wf ?b\<close>] length_db_data [OF wf] dat by simp
    then show ?thesis using room b1(5,6) i unfolding db_room_def by auto
  qed
  ultimately show thesis using b1(5) by (intro that [of ?b]) auto
qed

lemma db_append_length:
  assumes "db_wf b" "db_room b (length bs)" "db_append b bs = Some b'"
  shows "length (db_buffer b') \<le> max (length (db_buffer b)) (db_readableBytes b + length bs + db_expand_size b)"
    and "db_expand_size b' = db_expand_size b"
proof -
  obtain b1 where b1: "db_reserveWritableBytes b (length bs) = Some b1" "db_expand_size b1 = db_expand_size b"
      "length (db_buffer b1) \<le> max (length (db_buffer b)) (db_readableBytes b + length bs + db_expand_size b)"
    using db_reserve_spec [OF assms(1,2)] by metis
  have "length (db_buffer b') = length (db_buffer b1)" "db_expand_size b' = db_expand_size b1"
    using assms(3) b1(1) mem_write_length
    by (auto simp: db_append_def db_writeBegin_def db_write_def bind_eq_Some_conv)
  with b1 show "length (db_buffer b') \<le> max (length (db_buffer b)) (db_readableBytes b + length bs + db_expand_size b)"
    "db_expand_size b' = db_expand_size b" by simp_all
qed

lemma db_room_mono: "db_room b n \<Longrightarrow> m \<le> n \<Longrightarrow> db_room b m"
  by (auto simp: db_room_def)

lemma db_writeBytes_append:
  assumes "db_wf b" "db_room b (length bs)"
  shows "db_writeBytes b bs = db_append b bs"
proof -
  obtain b1 where "db_reserveWritableBytes b (length bs) = Some b1" "length bs \<le> db_writableBytes b1"
    using db_reserve_spec [OF assms] by metis
  moreover have "db_write_index b2 = db_write_index b1 \<and> length (db_buffer b2) = length (db_buffer b1)"
    if "db_writeBegin b1 0 bs = Some b2" for b2
    using that by (auto simp: db_writeBegin_def bind_eq_Some_conv dest: mem_write_length)
  ultimately show ?thesis
    by (cases "db_writeBegin b1 0 bs")
       (auto simp: db_writeBytes_def db_append_def db_write_def db_writableBytes_def min_def)
qed

lemma db_readBytes_spec:
  assumes "db_wf b"
  shows "db_readBytes b n = Some (db_read b n, take n (db_data b))"
  using assms db_readBegin_data [OF assms, of 0 "min n (db_readableBytes b)"]
    length_db_data [OF assms]
  by (simp add: db_readBytes_def db_read_def Let_def min_def)

section \<open>The contract of the buffer\<close>

text \<open>
  What the clients of the buffer rely on: contents that grow at the end and are consumed at
  the front, with enough room for what is still to be appended.
\<close>

fun append_chunks :: "('b \<Rightarrow> bytes \<Rightarrow> 'b option) \<Rightarrow> 'b \<Rightarrow> bytes list \<Rightarrow> 'b option" where
  "append_chunks app b [] = Some b"
| "append_chunks app b (bs # bss) = do { b \<leftarrow> app b bs; append_chunks app b bss }"

locale byte_stream =
  fixes data :: "'b \<Rightarrow> bytes"
    and inv :: "'b \<Rightarrow> bool"
    and room :: "'b \<Rightarrow> nat \<Rightarrow> bool"
    and append :: "'b \<Rightarrow> bytes \<Rightarrow> 'b option"
    and consume :: "'b \<Rightarrow> nat \<Rightarrow> 'b"
  assumes append_law: "inv b \<Longrightarrow> room b (length bs + m) \<Longrightarrow>
      \<exists>b'. append b bs = Some b' \<and> inv b' \<and> data b' = data b @ bs \<and> room b' m"
    and consume_inv: "inv b \<Longrightarrow> inv (consume b n)"
    and consume_data: "inv b \<Longrightarrow> data (consume b n) = drop n (data b)"
    and consume_room: "inv b \<Longrightarrow> room b m \<Longrightarrow> room (consume b n) m"
begin

lemma append_chunks_data:
  "inv b \<Longrightarrow> room b (length (concat bss) + m) \<Longrightarrow>
     \<exists>b'. append_chunks append b bss = Some b' \<and> inv b' \<and> data b' = data b @ concat bss \<and> room b' m"
proof (induction bss arbitrary: b)
  case Nil
  then show ?case by simp
next
  case (Cons bs bss)
  from Cons.prems append_law [of b bs "length (concat bss) + m"]
  obtain b1 where b1: "append b bs = Some b1" "inv b1" "data b1 = data b @ bs"
      "room b1 (length (concat bss) + m)"
    by (auto simp: add.assoc)
  from Cons.IH [OF b1(2,4)] b1 show ?case by auto
qed

lemma append_then_consume:
  assumes "inv b" "room b (length bs + m)"
  obtains b' where "append b bs = Some b'" "inv (consume b' n)"
    "data (consume b' n) = drop n (data b @ bs)" "room (consume b' n) m"
  using append_law [OF assms] consume_inv consume_data consume_room by metis

lemma consume_consume: "inv b \<Longrightarrow> data (consume (consume b n) k) = data (consume b (n + k))"
  by (simp add: consume_inv consume_data add.commute)

end

interpretation db: byte_stream db_data db_wf db_room db_append db_read
proof
  fix b :: dynamic_buffer and bs m n
  show "db_wf b \<Longrightarrow> db_room b (length bs + m) \<Longrightarrow>
    \<exists>b'. db_append b bs = Some b' \<and> db_wf b' \<and> db_data b' = db_data b @ bs \<and> db_room b' m"
    by (metis db_append_spec)
qed (simp_all add: db_read_spec)

section \<open>Integers on the wire\<close>

definition int16_bytes :: "u16 \<Rightarrow> bool \<Rightarrow> bytes" where
  "int16_bytes v le = (if le then id else rev) [ucast v, ucast (drop_bit 8 v)]"

definition int32_bytes :: "u32 \<Rightarrow> bool \<Rightarrow> bytes" where
  "int32_bytes v le = (if le then id else rev) (map (\<lambda>k. ucast (drop_bit (8 * k) v)) [0..<4])"

definition int64_bytes :: "u64 \<Rightarrow> bool \<Rightarrow> bytes" where
  "int64_bytes v le = (if le then id else rev) (map (\<lambda>k. ucast (drop_bit (8 * k) v)) [0..<8])"

lemma length_int_bytes [simp]:
  "length (int16_bytes v le) = 2" "length (int32_bytes w le) = 4" "length (int64_bytes x le) = 8"
  by (simp_all add: int16_bytes_def int32_bytes_def int64_bytes_def)

lemma db_writeInt_append:
  "db_writeInt8 b c = db_append b [c]"
  "db_writeInt16 b v le = db_append b (int16_bytes v le)"
  "db_writeInt32 b w le = db_append b (int32_bytes w le)"
  "db_writeInt64 b x le = db_append b (int64_bytes x le)"
  unfolding db_append_def length_int_bytes
  by (simp_all add: db_writeInt8_def db_writeInt16_def db_writeInt32_def db_writeInt64_def
      int16_bytes_def int32_bytes_def int64_bytes_def upt_rec)

lemma bit_byte_slice:
  "bit (push_bit k (ucast (ucast (drop_bit k v) :: byte)) :: 'a::len word) n \<longleftrightarrow> k \<le> n \<and> n < k + 8 \<and> bit (v :: 'a word) n"
  by (auto simp: bit_simps dest: bit_imp_le_length)

lemma bit_low_byte:
  "bit (ucast (ucast v :: byte) :: 'a::len word) n \<longleftrightarrow> n < 8 \<and> bit (v :: 'a word) n"
  by (auto simp: bit_simps dest: bit_imp_le_length)

lemma int16_join:
  "(ucast (ucast (v :: u16) :: byte) :: u16) OR push_bit 8 (ucast (ucast (drop_bit 8 v) :: byte)) = v"
  by (rule bit_word_eqI) (auto simp: bit_or_iff bit_byte_slice bit_low_byte)

lemma int32_join:
  "(ucast (ucast (v :: u32) :: byte) :: u32) OR push_bit 8 (ucast (ucast (drop_bit 8 v) :: byte)) OR
   push_bit 16 (ucast (ucast (drop_bit 16 v) :: byte)) OR push_bit 24 (ucast (ucast (drop_bit 24 v) :: byte)) = v"
  by (rule bit_word_eqI) (auto simp: bit_or_iff bit_byte_slice bit_low_byte)

lemma int64_join:
  "(ucast (ucast (v :: u64) :: byte) :: u64) OR push_bit 8 (ucast (ucast (drop_bit 8 v) :: byte)) OR
   push_bit 16 (ucast (ucast (drop_bit 16 v) :: byte)) OR push_bit 24 (ucast (ucast (drop_bit 24 v) :: byte)) OR
   push_bit 32 (ucast (ucast (drop_bit 32 v) :: byte)) OR push_bit 40 (ucast (ucast (drop_bit 40 v) :: byte)) OR
   push_bit 48 (ucast (ucast (drop_bit 48 v) :: byte)) OR push_bit 56 (ucast (ucast (drop_bit 56 v) :: byte)) = v"
  by (rule bit_word_eqI) (auto simp: bit_or_iff bit_byte_slice bit_low_byte)

text \<open>A peek whose bytes are all readable decodes them; otherwise it reports \<open>false\<close>.\<close>

lemma db_peek_in:
  assumes "db_wf b" "off + 8 < 2 ^ 64"
  shows "off + 1 \<le> db_readableBytes b \<Longrightarrow> db_peekInt8 b off = Some (Some (db_data b ! off))"
    and "off + 2 \<le> db_readableBytes b \<Longrightarrow> take 2 (drop off (db_data b)) = int16_bytes v le \<Longrightarrow>
           db_peekInt16 b off le = Some (Some v)"
    and "off + 4 \<le> db_readableBytes b \<Longrightarrow> take 4 (drop off (db_data b)) = int32_bytes w le \<Longrightarrow>
           db_peekInt32 b off le = Some (Some w)"
    and "off + 8 \<le> db_readableBytes b \<Longrightarrow> take 8 (drop off (db_data b)) = int64_bytes x le \<Longrightarrow>
           db_peekInt64 b off le = Some (Some x)"
  using assms length_db_data [OF assms(1)]
  by (simp_all add: db_peekInt8_def db_peekInt16_def db_peekInt32_def db_peekInt64_def db_readBegin_data
      int16_bytes_def int32_bytes_def int64_bytes_def upt_rec int16_join int32_join int64_join)

lemma db_peek_out:
  assumes "off + 8 < 2 ^ 64"
  shows "db_readableBytes b < off + 1 \<Longrightarrow> db_peekInt8 b off = Some None"
    and "db_readableBytes b < off + 2 \<Longrightarrow> db_peekInt16 b off le = Some None"
    and "db_readableBytes b < off + 4 \<Longrightarrow> db_peekInt32 b off le = Some None"
    and "db_readableBytes b < off + 8 \<Longrightarrow> db_peekInt64 b off le = Some None"
  using assms
  by (simp_all add: db_peekInt8_def db_peekInt16_def db_peekInt32_def db_peekInt64_def)

lemma db_room_new:
  assumes "i < 2 ^ 32" "e < 2 ^ 32" "n < 2 ^ 32"
  shows "db_room (db_new i e) n"
  using assms by (auto simp: db_room_def db_new_def db_readableBytes_def Let_def)

lemma db_drained_indices:
  assumes "db_wf b" "db_data (db_read b n) = []"
  shows "db_read_index (db_read b n) = 0 \<and> db_write_index (db_read b n) = 0"
proof -
  from assms have "db_readableBytes (db_read b n) = 0"
    using length_db_data [OF db.consume_inv [OF assms(1), of n]] by simp
  with db.consume_inv [OF assms(1), of n]
  have "db_read_index (db_read b n) = db_write_index (db_read b n)"
    by (simp add: db_readableBytes_def db_wf_def)
  then show ?thesis
    by (simp add: db_read_def db_clear_def Let_def split: if_splits)
qed

section \<open>Properties\<close>

text \<open>
  C8 (refinement): on a well-formed buffer with room for the bytes, \<open>writeBytes\<close> and the
  callers' reserve-copy-write idiom stay inside the memory block, agree, keep the
  representation invariant and append exactly the given bytes to the contents, whatever mix
  of in-place write, compaction and reallocation they take.
\<close>

theorem db_write_refines_append:
  assumes "db_wf b" "db_room b (length bs)"
  shows "\<exists>b'. db_writeBytes b bs = Some b' \<and> db_append b bs = Some b' \<and> db_wf b' \<and>
           db_data b' = db_data b @ bs"
  using db.append_law [of b bs 0] assms by (auto simp: db_writeBytes_append)

theorem db_write_refines_append_witness:
  "\<exists>b'. db_writeBytes (db_new 2 2) [1, 2, 3] = Some b' \<and> db_append (db_new 2 2) [1, 2, 3] = Some b' \<and>
     db_wf b' \<and> db_data b' = [1, 2, 3]"
  using db_write_refines_append [OF db_wf_new db_room_new, of 2 2 "[1, 2, 3]"] by (simp add: db_data_new)

text \<open>
  C9 (safety): \<open>reserveWritableBytes\<close> never touches memory out of range, keeps the contents,
  leaves at least the requested space, and grows the block to at most what the contents, the
  request and one expansion step need.
\<close>

theorem db_reserve_safe:
  assumes "db_wf b" "db_room b n"
  shows "\<exists>b'. db_reserveWritableBytes b n = Some b' \<and> db_wf b' \<and> db_data b' = db_data b \<and>
           n \<le> db_writableBytes b' \<and>
           db_capacity b' \<le> max (db_capacity b) (db_readableBytes b + n + db_expand_size b)"
  using db_reserve_spec [OF assms] unfolding db_capacity_def by metis

theorem db_reserve_safe_witness:
  "\<exists>b'. db_reserveWritableBytes (db_new 4 3) 9 = Some b' \<and> db_wf b' \<and> db_data b' = [] \<and>
     9 \<le> db_writableBytes b' \<and> db_capacity b' \<le> 12"
  using db_reserve_safe [OF db_wf_new db_room_new, of 4 3 9]
  by (simp add: db_data_new) (simp add: db_new_def db_readableBytes_def db_capacity_def)

text \<open>
  \<open>readBytes\<close> copies out the first \<open>min count readable\<close> bytes of the
  contents, keeps the rest, and leaves the buffer exactly as \<open>read\<close> would; a drained buffer
  has its indices reset.
\<close>

lemma db_readBytes_splits:
  assumes "db_wf b"
  shows "\<exists>b' out. db_readBytes b n = Some (b', out) \<and> b' = db_read b n \<and> db_wf b' \<and>
           db_data b = out @ db_data b' \<and> length out = min n (db_readableBytes b) \<and>
           (db_data b' = [] \<longrightarrow> db_read_index b' = 0 \<and> db_write_index b' = 0)"
  using assms length_db_data [OF assms] db_drained_indices [OF assms, of n]
  by (simp add: db_readBytes_spec db.consume_inv db.consume_data min.commute)

text \<open>
  An integer of any width written at the end of a buffer, in either byte
  order, is read back by the peek of the same width at the offset where it was written, and
  by the widening peek as the same number; the earlier contents are untouched.
\<close>

lemma db_int_roundtrip:
  assumes "db_wf b" "db_room b 8" "n = length (db_data b)"
  shows "(\<exists>b'. db_writeInt16 b v le = Some b' \<and> take n (db_data b') = db_data b \<and>
             db_peekInt16 b' n le = Some (Some v) \<and>
             db_peekInt16_wide b' n le = Some (Some (ucast v :: u64))) \<and>
         (\<exists>b'. db_writeInt32 b w le = Some b' \<and> take n (db_data b') = db_data b \<and>
             db_peekInt32 b' n le = Some (Some w) \<and>
             db_peekInt32_wide b' n le = Some (Some (ucast w :: u64))) \<and>
         (\<exists>b'. db_writeInt64 b x le = Some b' \<and> take n (db_data b') = db_data b \<and>
             db_peekInt64 b' n le = Some (Some x))"
proof -
  have n: "n + 8 < 2 ^ 64"
    using assms by (simp add: length_db_data db_room_def)
  have app: "\<exists>b'. db_append b bs = Some b' \<and> db_wf b' \<and> db_data b' = db_data b @ bs \<and>
      db_readableBytes b' = n + length bs" if le8: "length bs \<le> 8" for bs
  proof -
    obtain b' where "db_append b bs = Some b'" "db_wf b'" "db_data b' = db_data b @ bs"
      using db.append_law [OF assms(1), of bs "8 - length bs"] assms(2) le8 by auto
    then show ?thesis using length_db_data [of b'] assms(3) by auto
  qed
  show ?thesis
    using app [of "int16_bytes v le"] app [of "int32_bytes w le"] app [of "int64_bytes x le"]
      db_peek_in(2) [OF _ n, of _ v le] db_peek_in(3) [OF _ n, of _ w le] db_peek_in(4) [OF _ n, of _ x le]
    by (auto simp: db_writeInt_append db_peekInt16_wide_def db_peekInt32_wide_def assms(3))
qed

text \<open>
  The range check of the peeks computes \<open>offset + k\<close> in \<open>size_t\<close>. For an
  offset within \<open>k\<close> of \<open>2 ^ 64\<close> the sum wraps to a small number, the check passes and
  the read leaves the block: the model's result is the undefined-behaviour value \<open>None\<close>.
\<close>

lemma db_peek_offset_wraps:
  assumes "db_wf b" "length (db_buffer b) < 2 ^ 64 - 2"
  shows "db_peekInt16 b (2 ^ 64 - 2) le = None"
  using assms
  by (simp add: db_peekInt16_def sz_def db_readBegin_def mem_read_def)

end
