(* ===== verification/StringUtil.thy ===== *)
theory StringUtil
  imports Prelude
begin

text \<open>
  Model of \<open>src/brickred/string_util.{h,cc}\<close>. A \<open>std::string\<close> is its list of bytes; a
  C string is the part of a byte list before the first NUL (\<open>cstr\<close>). \<open>tolower\<close> and
  \<open>toupper\<close> are those of the C locale. \<open>std::search\<close> and \<open>strstr\<close> are \<open>search\<close>: the
  position of the first occurrence.
\<close>

section \<open>Library functions the code calls\<close>

definition cstr :: "bytes \<Rightarrow> bytes" where
  "cstr s = takeWhile (\<lambda>c. c \<noteq> 0) s"

fun search :: "'a list \<Rightarrow> 'a list \<Rightarrow> nat option" where
  "search [] sep = (if sep = [] then Some 0 else None)"
| "search (x # xs) sep =
     (if take (length sep) (x # xs) = sep then Some 0 else map_option Suc (search xs sep))"

definition tolower :: "byte \<Rightarrow> byte" where
  "tolower c = (if 65 \<le> c \<and> c \<le> 90 then c + 32 else c)"

definition toupper :: "byte \<Rightarrow> byte" where
  "toupper c = (if 97 \<le> c \<and> c \<le> 122 then c - 32 else c)"

text \<open>Decimal rendering, as \<open>snprintf\<close> does for \<open>%u\<close>, \<open>%d\<close> and their long forms.\<close>

fun dec_nat :: "nat \<Rightarrow> bytes" where
  "dec_nat n = (if n < 10 then [of_nat (48 + n)] else dec_nat (n div 10) @ [of_nat (48 + n mod 10)])"

declare dec_nat.simps [simp del]

definition dec_int :: "int \<Rightarrow> bytes" where
  "dec_int i = (if i < 0 then 45 # dec_nat (nat (- i)) else dec_nat (nat i))"

text \<open>
  \<open>snprintf\<close> into a block of \<open>n\<close> bytes stores at most \<open>n - 1\<close> characters and a NUL;
  \<open>std::string(buffer)\<close> then reads up to the NUL.
\<close>

definition snprintf_string :: "nat \<Rightarrow> bytes \<Rightarrow> bytes" where
  "snprintf_string n s = cstr (take (n - 1) s)"

lemma search_Some:
  "search s sep = Some n \<Longrightarrow> n + length sep \<le> length s \<and> take (length sep) (drop n s) = sep"
proof (induction s sep arbitrary: n rule: search.induct)
  case (2 x xs sep)
  show ?case
  proof (cases "take (length sep) (x # xs) = sep")
    case True
    then have "length sep \<le> length (x # xs)" by (metis length_take min.cobounded1)
    with True "2.prems" show ?thesis by simp
  next
    case False
    with "2.prems" obtain m where "search xs sep = Some m" "n = Suc m" by auto
    with "2.IH" [OF False] show ?thesis by simp
  qed
qed (simp split: if_splits)

lemma search_split: "search s sep = Some n \<Longrightarrow> s = take n s @ sep @ drop (n + length sep) s"
  by (metis append_take_drop_id drop_drop add.commute search_Some)

lemma search_progress:
  assumes "search s sep = Some n" "sep \<noteq> []"
  shows "length s - (n + length sep) < length s"
    and "n < length s" "0 < length sep"
  using search_Some [OF assms(1)] assms(2) by (cases sep; cases s; simp)+

section \<open>Splitting\<close>

text \<open>
  Both overloads append their parts to \<open>result\<close>; the model returns the appended parts. The
  test for an empty separator, which the code makes once before the loop, is repeated in the
  loop equation so that the function is total.
\<close>

function split_loop :: "bytes \<Rightarrow> int \<Rightarrow> int \<Rightarrow> bytes \<Rightarrow> bytes list" where
  "split_loop sep max_split count lst =
     (if sep = [] then [lst]
      else if max_split > 0 \<and> count + 1 \<ge> max_split then [lst]
      else case search lst sep of
             None \<Rightarrow> [lst]
           | Some nxt \<Rightarrow> take nxt lst #
               split_loop sep max_split (if max_split > 0 then count + 1 else count)
                 (drop (nxt + length sep) lst))"
  by pat_completeness auto
termination
  by (relation "measure (\<lambda>(sep, m, c, lst). length lst)") (auto dest: search_progress)

declare split_loop.simps [simp del]

definition split_bytes :: "bytes \<Rightarrow> bytes \<Rightarrow> int \<Rightarrow> bytes list" where
  "split_bytes s sep max_split = (if sep = [] then [s] else split_loop sep max_split 0 s)"

text \<open>The separator is a C string, so it ends at its first NUL.\<close>

definition split_mem :: "bytes \<Rightarrow> bytes \<Rightarrow> int \<Rightarrow> bytes list" where
  "split_mem s sep max_split = split_bytes s (cstr sep) max_split"

definition split_cstr :: "bytes \<Rightarrow> bytes \<Rightarrow> int \<Rightarrow> bytes list" where
  "split_cstr s sep max_split = split_bytes (cstr s) (cstr sep) max_split"

lemma cstr_no_nul: "0 \<notin> set s \<Longrightarrow> cstr s = s"
  by (auto simp: cstr_def takeWhile_eq_all_conv)

lemma split_mem_no_nul: "0 \<notin> set sep \<Longrightarrow> split_mem s sep m = split_bytes s sep m"
  by (simp add: split_mem_def cstr_no_nul)

section \<open>Trimming and case\<close>

definition find_first_not_of :: "bytes \<Rightarrow> bytes \<Rightarrow> nat option" where
  "find_first_not_of s ws =
     (let n = length (takeWhile (\<lambda>c. c \<in> set ws) s) in if n = length s then None else Some n)"

definition find_last_not_of :: "bytes \<Rightarrow> bytes \<Rightarrow> nat option" where
  "find_last_not_of s ws =
     (let n = length (takeWhile (\<lambda>c. c \<in> set ws) (rev s))
      in if n = length s then None else Some (length s - 1 - n))"

definition ltrim :: "bytes \<Rightarrow> bytes \<Rightarrow> bytes" where
  "ltrim s ws = (case find_first_not_of s ws of None \<Rightarrow> [] | Some start \<Rightarrow> drop start s)"

definition rtrim :: "bytes \<Rightarrow> bytes \<Rightarrow> bytes" where
  "rtrim s ws = (case find_last_not_of s ws of None \<Rightarrow> [] | Some e \<Rightarrow> take (e + 1) s)"

definition trim :: "bytes \<Rightarrow> bytes \<Rightarrow> bytes" where
  "trim s ws = rtrim (ltrim s ws) ws"

text \<open>The default argument of the trimming functions: blank and tab.\<close>

definition default_ws :: bytes where
  "default_ws = [32, 9]"

definition toUpper :: "bytes \<Rightarrow> bytes" where
  "toUpper s = List.map toupper s"

definition toLower :: "bytes \<Rightarrow> bytes" where
  "toLower s = List.map tolower s"

section \<open>Replacing\<close>

function replace_loop :: "bytes \<Rightarrow> bytes \<Rightarrow> int \<Rightarrow> bytes \<Rightarrow> nat \<Rightarrow> int \<Rightarrow> bytes" where
  "replace_loop srch repl max_replace ret pos count =
     (if srch = [] then ret
      else case search (drop pos ret) srch of
        None \<Rightarrow> ret
      | Some k \<Rightarrow>
          (let pos = pos + k;
               ret = take pos ret @ repl @ drop (pos + length srch) ret;
               pos = pos + length repl
           in if max_replace > 0 \<and> count + 1 \<ge> max_replace then ret
              else replace_loop srch repl max_replace ret pos
                     (if max_replace > 0 then count + 1 else count)))"
  by pat_completeness auto
termination
  by (relation "measure (\<lambda>(srch, repl, m, ret, pos, c). length ret - pos)") (auto dest: search_Some search_progress simp: less_diff_conv)

declare replace_loop.simps [simp del]

definition replace_str :: "bytes \<Rightarrow> bytes \<Rightarrow> bytes \<Rightarrow> int \<Rightarrow> bytes" where
  "replace_str s srch repl max_replace =
     (if srch = [] then s
      else if max_replace = 0 then s
      else replace_loop srch repl max_replace s 0 0)"

section \<open>Numbers to strings\<close>

definition toString_int :: "u32 \<Rightarrow> bytes" where
  "toString_int i = snprintf_string 32 (dec_int (sint i))"

definition toString_long :: "u64 \<Rightarrow> bytes" where
  "toString_long l = snprintf_string 64 (dec_int (sint l))"

definition toString_unsigned :: "u32 \<Rightarrow> bytes" where
  "toString_unsigned ui = snprintf_string 32 (dec_nat (unat ui))"

definition toString_ulong :: "u64 \<Rightarrow> bytes" where
  "toString_ulong ul = snprintf_string 64 (dec_nat (unat ul))"

section \<open>Searching, comparing, hashing\<close>

definition find_str :: "bytes \<Rightarrow> bytes \<Rightarrow> nat option" where
  "find_str s keyword =
     (if cstr keyword = [] then None
      else case search s (cstr keyword) of
             None \<Rightarrow> None
           | Some pos \<Rightarrow> if pos = length s then None else Some pos)"

definition caseInsensitiveEqual :: "bytes \<Rightarrow> bytes \<Rightarrow> bool" where
  "caseInsensitiveEqual lhs rhs =
     (if length lhs \<noteq> length rhs then False
      else list_all (\<lambda>i. tolower (lhs ! i) = tolower (rhs ! i)) [0..<length lhs])"

definition hash_str :: "bytes \<Rightarrow> u64" where
  "hash_str s = foldl (\<lambda>h c. push_bit 5 h + h + ucast c) 5381 s"

fun ci_less_loop :: "nat list \<Rightarrow> bytes \<Rightarrow> bytes \<Rightarrow> bool" where
  "ci_less_loop [] lhs rhs \<longleftrightarrow> length lhs < length rhs"
| "ci_less_loop (i # js) lhs rhs \<longleftrightarrow>
     (let c1 = tolower (lhs ! i); c2 = tolower (rhs ! i)
      in if c1 \<noteq> c2 then c1 < c2 else ci_less_loop js lhs rhs)"

definition ci_less :: "bytes \<Rightarrow> bytes \<Rightarrow> bool" where
  "ci_less lhs rhs = ci_less_loop [0..<min (length lhs) (length rhs)] lhs rhs"

section \<open>Facts about searching\<close>

lemma search_first: "search s sep = Some n \<Longrightarrow> k < n \<Longrightarrow> take (length sep) (drop k s) \<noteq> sep"
proof (induction s sep arbitrary: n k rule: search.induct)
  case (2 x xs sep)
  then show ?case by (cases k) (auto split: if_splits)
qed (simp split: if_splits)

lemma search_None_iff: "search s sep = None \<longleftrightarrow> (\<forall>k \<le> length s. take (length sep) (drop k s) \<noteq> sep)"
proof (induction s sep rule: search.induct)
  case (2 x xs sep)
  show ?case
  proof (cases "take (length sep) (x # xs) = sep")
    case True
    then show ?thesis by (auto intro!: exI [of _ 0])
  next
    case False
    with 2 have "search (x # xs) sep = None \<longleftrightarrow> (\<forall>k \<le> length xs. take (length sep) (drop k xs) \<noteq> sep)"
      by simp
    also have "\<dots> \<longleftrightarrow> (\<forall>k \<le> length (x # xs). take (length sep) (drop k (x # xs)) \<noteq> sep)"
      using False by (auto simp: All_less_Suc2 less_Suc_eq_le [symmetric])
    finally show ?thesis .
  qed
qed auto

lemma take_len_bound: "take (length sep) (drop k s) = sep \<Longrightarrow> sep \<noteq> [] \<Longrightarrow> k + length sep \<le> length s"
  by (metis append_take_drop_id diff_is_0_eq drop_all le_add_diff_inverse length_drop length_take
      min.cobounded1 nat_add_left_cancel_le nle_le take_Nil)

lemma search_take_None:
  assumes "search s sep = Some n" "sep \<noteq> []"
  shows "search (take n s) sep = None"
  unfolding search_None_iff
proof (intro allI impI notI)
  fix k assume eq: "take (length sep) (drop k (take n s)) = sep"
  then have "k + length sep \<le> length (take n s)"
    using assms(2) by (rule take_len_bound)
  then have len: "k + length sep \<le> n" by simp
  then have "k < n" using assms(2) by (cases sep) auto
  have "take (length sep) (drop k s) = take (length sep) (take (n - k) (drop k s))"
    using len by (simp add: min_def)
  with eq have "take (length sep) (drop k s) = sep"
    by (simp add: drop_take)
  with search_first [OF assms(1) \<open>k < n\<close>] show False by blast
qed

lemma search_append_here: "search (sep @ t) sep = Some 0"
proof (cases "sep @ t")
  case (Cons x xs)
  have "take (length sep) (x # xs) = sep" by (simp add: Cons [symmetric])
  with Cons show ?thesis by simp
qed simp

lemma search_Some_iff:
  "search s sep = Some n \<longleftrightarrow>
     n \<le> length s \<and> take (length sep) (drop n s) = sep \<and> (\<forall>k<n. take (length sep) (drop k s) \<noteq> sep)"
proof
  assume "search s sep = Some n"
  then show "n \<le> length s \<and> take (length sep) (drop n s) = sep \<and> (\<forall>k<n. take (length sep) (drop k s) \<noteq> sep)"
    using search_Some search_first by (metis add_leD1)
next
  assume n: "n \<le> length s \<and> take (length sep) (drop n s) = sep \<and> (\<forall>k<n. take (length sep) (drop k s) \<noteq> sep)"
  then obtain m where m: "search s sep = Some m"
    using search_None_iff by (metis option.exhaust)
  have "take (length sep) (drop m s) = sep" using search_Some [OF m] by simp
  with n search_first [OF m] m show "search s sep = Some n" by (metis nat_neq_iff)
qed

section \<open>Splitting and joining\<close>

fun join :: "'a list \<Rightarrow> 'a list list \<Rightarrow> 'a list" where
  "join sep [] = []"
| "join sep [x] = x"
| "join sep (x # y # xs) = x @ sep @ join sep (y # xs)"

lemma split_loop_not_Nil [simp]: "split_loop sep m c s \<noteq> []"
  by (subst split_loop.simps) (auto split: option.splits)

lemma join_Cons: "xs \<noteq> [] \<Longrightarrow> join sep (x # xs) = x @ sep @ join sep xs"
  by (cases xs) auto

lemma join_split_loop: "join sep (split_loop sep m c s) = s"
proof (induction sep m c s rule: split_loop.induct)
  case (1 sep m c s)
  then show ?case
    by (subst split_loop.simps)
       (auto simp: join_Cons split: option.splits dest: search_split [symmetric])
qed

lemma butlast_Cons_ne: "xs \<noteq> [] \<Longrightarrow> set (butlast (x # xs)) = insert x (set (butlast xs))"
  by simp

lemma split_loop_parts:
  "sep \<noteq> [] \<Longrightarrow> x \<in> set (butlast (split_loop sep m c s)) \<Longrightarrow> search x sep = None"
proof (induction sep m c s rule: split_loop.induct)
  case (1 sep m c s)
  show ?case
  proof (cases "m > 0 \<and> c + 1 \<ge> m")
    case True
    with "1.prems" show ?thesis by (simp add: split_loop.simps [of sep m c s])
  next
    case False
    show ?thesis
    proof (cases "search s sep")
      case None
      with "1.prems" False show ?thesis by (simp add: split_loop.simps [of sep m c s] split: if_splits)
    next
      case (Some n)
      let ?rest = "split_loop sep m (if m > 0 then c + 1 else c) (drop (n + length sep) s)"
      have "split_loop sep m c s = take n s # ?rest"
        using "1.prems"(1) False Some by (subst split_loop.simps) (simp only: if_False option.case)
      with "1.prems"(2) have "x = take n s \<or> x \<in> set (butlast ?rest)" by simp
      with "1.IH" [OF \<open>sep \<noteq> []\<close> False Some \<open>sep \<noteq> []\<close>] search_take_None [OF Some \<open>sep \<noteq> []\<close>]
      show ?thesis by blast
    qed
  qed
qed

lemma split_loop_last:
  "sep \<noteq> [] \<Longrightarrow> m \<le> 0 \<Longrightarrow> search (last (split_loop sep m c s)) sep = None"
proof (induction sep m c s rule: split_loop.induct)
  case (1 sep m c s)
  then show ?case
    by (subst split_loop.simps) (auto split: option.splits)
qed

lemma split_loop_length:
  "0 < m \<Longrightarrow> c < m \<Longrightarrow> int (length (split_loop sep m c s)) \<le> m - c"
proof (induction sep m c s rule: split_loop.induct)
  case (1 sep m c s)
  then show ?case
    by (subst split_loop.simps) (auto split: option.splits)
qed

text \<open>
  Joining the parts of a split with the separator gives the input back; with
  a positive limit there are at most that many parts; no part but the last contains the
  separator, and without a limit neither does the last.
\<close>

lemma split_bytes_join:
  assumes "sep \<noteq> []"
  shows "join sep (split_bytes s sep m) = s \<and>
         (0 < m \<longrightarrow> int (length (split_bytes s sep m)) \<le> m) \<and>
         (\<forall>x \<in> set (butlast (split_bytes s sep m)). search x sep = None) \<and>
         (m \<le> 0 \<longrightarrow> (\<forall>x \<in> set (split_bytes s sep m). search x sep = None))"
proof -
  let ?p = "split_loop sep m 0 s"
  have "set ?p = insert (last ?p) (set (butlast ?p))"
    using append_butlast_last_id [OF split_loop_not_Nil] by (metis set_append Un_insert_right list.simps(15) list.set(1) sup_bot_right)
  then show ?thesis
    using assms split_loop_length [of m 0 sep s]
    by (auto simp: split_bytes_def join_split_loop split_loop_parts split_loop_last)
qed

section \<open>Replacing is splitting and joining\<close>

lemma replace_loop_split:
  assumes "srch \<noteq> []" "pos \<le> length ret" "m \<noteq> 0" "0 < m \<longrightarrow> c < m"
  shows "replace_loop srch repl m ret pos c =
     take pos ret @ join repl (split_loop srch (if 0 < m then m + 1 else m) c (drop pos ret))"
  using assms
proof (induction srch repl m ret pos c rule: replace_loop.induct)
  case (1 srch repl m ret pos c)
  let ?m = "if 0 < m then m + 1 else m"
  show ?case
  proof (cases "search (drop pos ret) srch")
    case None
    with 1 show ?thesis by (simp add: replace_loop.simps [of srch] split_loop.simps [of srch])
  next
    case (Some k)
    define q where "q = pos + k"
    define ret' where "ret' = take q ret @ repl @ drop (q + length srch) ret"
    have k: "q + length srch \<le> length ret" "q \<le> length ret"
      using search_Some [OF Some] 1(3) by (auto simp: q_def)
    then have rest: "drop (q + length repl) ret' = drop (k + length srch) (drop pos ret)"
      "take (q + length repl) ret' = take pos ret @ take k (drop pos ret) @ repl"
      by (simp_all add: ret'_def q_def take_add [symmetric] ac_simps)
    have split: "split_loop srch ?m c (drop pos ret) = take k (drop pos ret) #
        split_loop srch ?m (if 0 < m then c + 1 else c) (drop (k + length srch) (drop pos ret))"
      using 1(2,5) Some by (subst split_loop.simps) auto
    show ?thesis
    proof (cases "0 < m \<and> c + 1 \<ge> m")
      case True
      have "split_loop srch ?m (c + 1) t = [t]" for t
        using True by (subst split_loop.simps) simp
      moreover have "replace_loop srch repl m ret pos c = ret'"
        using Some True 1(2) by (subst replace_loop.simps) (simp add: Let_def q_def ret'_def)
      ultimately show ?thesis
        using True split rest append_take_drop_id [of "q + length repl" ret'] by (simp add: join_Cons)
    next
      case False
      have "replace_loop srch repl m ret pos c =
          replace_loop srch repl m ret' (q + length repl) (if 0 < m then c + 1 else c)"
        using Some False 1(2) by (subst replace_loop.simps) (auto simp: Let_def q_def ret'_def)
      also have "\<dots> = take (q + length repl) ret' @
          join repl (split_loop srch ?m (if 0 < m then c + 1 else c) (drop (q + length repl) ret'))"
      proof (rule "1.IH" [OF 1(2) Some refl refl refl, folded q_def, folded ret'_def])
        show "q + length repl \<le> length ret'" using k by (simp add: ret'_def)
      qed (use False 1(2,4,5) in auto)
      finally show ?thesis by (simp add: rest split join_Cons)
    qed
  qed
qed

text \<open>
  C10 (equivalence): \<open>replace\<close>, which edits the string in place and searches on after each
  insertion, equals splitting at the search string (one more part than replacements when a
  limit is given) and joining with the replacement. The splitting is that of \<open>split\<close>, unless the search string contains
  a NUL, which \<open>replace\<close> can search for and \<open>split\<close>, whose separator is a C string, cannot.
\<close>

theorem replace_is_join_split:
  assumes "srch \<noteq> []" "max_replace \<noteq> 0"
  shows "replace_str s srch repl max_replace =
     join repl (split_bytes s srch (if 0 < max_replace then max_replace + 1 else max_replace)) \<and>
     (0 \<notin> set srch \<longrightarrow> split_bytes s srch m = split_mem s srch m)"
  using replace_loop_split [OF assms(1) _ assms(2), of 0 s 0 repl] assms
  by (simp add: replace_str_def split_bytes_def split_mem_no_nul)

theorem replace_is_join_split_witness:
  "replace_str [97, 98, 97, 98, 97] [97] [97, 97] 2 =
     join [97, 97] (split_mem [97, 98, 97, 98, 97] [97] 3)"
  using replace_is_join_split [of "[97]" 2 "[97, 98, 97, 98, 97]" "[97, 97]" 3] by simp

section \<open>Case-insensitive comparison\<close>

lemma caseInsensitiveEqual_iff: "caseInsensitiveEqual a b \<longleftrightarrow> toLower a = toLower b"
proof (cases "length a = length b")
  case True
  then show ?thesis
    unfolding caseInsensitiveEqual_def toLower_def list_all_iff list_eq_iff_nth_eq [of "map tolower a"]
    by (simp add: Ball_def)
next
  case False
  then show ?thesis
    using map_eq_imp_length_eq [of tolower a tolower b] by (auto simp: caseInsensitiveEqual_def toLower_def)
qed

lemma ci_less_loop_lexordp:
  "i \<le> min (length a) (length b) \<Longrightarrow> take i (toLower a) = take i (toLower b) \<Longrightarrow>
   ci_less_loop [i..<min (length a) (length b)] a b \<longleftrightarrow>
     ord_class.lexordp (drop i (toLower a)) (drop i (toLower b))"
proof (induction "min (length a) (length b) - i" arbitrary: i)
  case 0
  then have i: "i = min (length a) (length b)" by simp
  then have "drop i (toLower a) = [] \<or> drop i (toLower b) = []"
    by (auto simp: toLower_def min_def)
  moreover have "ci_less_loop [i..<min (length a) (length b)] a b \<longleftrightarrow> length a < length b"
    using i by simp
  ultimately show ?case
    using i by (auto simp: toLower_def min_def split: if_splits elim: ord_class.lexordp.cases)
next
  case (Suc n)
  then have i: "i < length a" "i < length b" "i < min (length a) (length b)" by auto
  have da: "drop i (toLower a) = tolower (a ! i) # drop (Suc i) (toLower a)"
    and db: "drop i (toLower b) = tolower (b ! i) # drop (Suc i) (toLower b)"
    using i by (simp_all add: toLower_def Cons_nth_drop_Suc [symmetric])
  have up: "[i..<min (length a) (length b)] = i # [Suc i..<min (length a) (length b)]"
    using i by (simp add: upt_rec)
  show ?case
  proof (cases "tolower (a ! i) = tolower (b ! i)")
    case True
    have "take (Suc i) (toLower a) = take (Suc i) (toLower b)"
      using Suc.prems(2) True i by (simp add: take_Suc_conv_app_nth toLower_def)
    then have "ci_less_loop [Suc i..<min (length a) (length b)] a b \<longleftrightarrow>
        ord_class.lexordp (drop (Suc i) (toLower a)) (drop (Suc i) (toLower b))"
      using Suc i by (intro Suc.hyps(1)) auto
    then show ?thesis using True by (simp add: up da db Let_def)
  next
    case False
    then show ?thesis by (auto simp: up da db Let_def)
  qed
qed

lemma ci_less_lexordp: "ci_less a b \<longleftrightarrow> ord_class.lexordp (toLower a) (toLower b)"
  using ci_less_loop_lexordp [of 0 a b] by (simp add: ci_less_def)

text \<open>
  \<open>CaseInsensitiveLess\<close> is a strict weak order, as \<open>std::map\<close> requires:
  irreflexive, transitive, and two keys are equivalent for it exactly when
  \<open>caseInsensitiveEqual\<close> holds, which is equality after \<open>toLower\<close>.
\<close>

lemma ci_less_strict_weak:
  "\<not> ci_less a a \<and> (ci_less a b \<longrightarrow> ci_less b c \<longrightarrow> ci_less a c) \<and>
   (\<not> ci_less a b \<and> \<not> ci_less b a \<longleftrightarrow> caseInsensitiveEqual a b) \<and>
   (caseInsensitiveEqual a b \<longleftrightarrow> toLower a = toLower b)"
  using lexordp_trans [of "toLower a" "toLower b" "toLower c"] lexordp_linear [of "toLower a" "toLower b"]
    lexordp_irreflexive' [of "toLower a"]
  by (auto simp: ci_less_lexordp caseInsensitiveEqual_iff lexordp_antisym)

section \<open>Trimming\<close>

lemma drop_takeWhile: "drop (length (takeWhile P s)) s = dropWhile P s"
  by (metis append_eq_conv_conj takeWhile_dropWhile_id)

lemma ltrim_dropWhile: "ltrim s ws = dropWhile (\<lambda>c. c \<in> set ws) s"
  using drop_takeWhile [of "\<lambda>c. c \<in> set ws" s]
  by (auto simp: ltrim_def find_first_not_of_def Let_def)

lemma rtrim_dropWhile: "rtrim s ws = rev (dropWhile (\<lambda>c. c \<in> set ws) (rev s))"
proof -
  let ?n = "length (takeWhile (\<lambda>c. c \<in> set ws) (rev s))"
  have d: "drop ?n (rev s) = dropWhile (\<lambda>c. c \<in> set ws) (rev s)" by (rule drop_takeWhile)
  have "?n \<le> length s" using length_takeWhile_le [of _ "rev s"] by simp
  moreover have "rev (drop ?n (rev s)) = take (length s - ?n) s" by (simp add: rev_drop)
  ultimately show ?thesis
    unfolding rtrim_def find_last_not_of_def Let_def d [symmetric]
    by (cases "?n = length s") (auto simp: rev_drop Suc_diff_Suc le_neq_implies_less)
qed

text \<open>
  \<open>trim\<close> removes a prefix and a suffix of white space and nothing else: what
  it returns neither starts nor ends with a white-space character.
\<close>

lemma trim_strips:
  "\<exists>l r. s = l @ trim s ws @ r \<and> set l \<subseteq> set ws \<and> set r \<subseteq> set ws \<and>
     (trim s ws \<noteq> [] \<longrightarrow> hd (trim s ws) \<notin> set ws \<and> last (trim s ws) \<notin> set ws)"
proof -
  let ?P = "\<lambda>c. c \<in> set ws"
  define t where "t = dropWhile ?P s"
  have t: "s = takeWhile ?P s @ t" by (simp add: t_def)
  have u: "t = trim s ws @ rev (takeWhile ?P (rev t))"
    by (metis (no_types) ltrim_dropWhile rtrim_dropWhile trim_def t_def rev_append rev_rev_ident takeWhile_dropWhile_id)
  have "s = takeWhile ?P s @ trim s ws @ rev (takeWhile ?P (rev t))"
    using t u by simp
  moreover have "hd (trim s ws) \<notin> set ws" if "trim s ws \<noteq> []"
    using that u hd_dropWhile [of ?P s] by (metis append_is_Nil_conv hd_append2 t_def)
  moreover have "last (trim s ws) \<notin> set ws" if "trim s ws \<noteq> []"
    using that hd_dropWhile [of ?P "rev t"]
    by (simp add: trim_def ltrim_dropWhile rtrim_dropWhile t_def last_rev)
  ultimately show ?thesis
    by (intro exI [of _ "takeWhile ?P s"] exI [of _ "rev (takeWhile ?P (rev t))"])
       (auto dest: set_takeWhileD)
qed

section \<open>Decimal numbers\<close>

definition dec_value :: "bytes \<Rightarrow> nat" where
  "dec_value s = foldl (\<lambda>a c. a * 10 + (unat c - 48)) 0 s"

definition is_digit :: "byte \<Rightarrow> bool" where
  "is_digit c \<longleftrightarrow> 48 \<le> c \<and> c \<le> 57"

lemma digit_byte: "d < 10 \<Longrightarrow> unat (of_nat (48 + d) :: byte) = 48 + d"
  by (simp add: unsigned_of_nat take_bit_nat_eq_self del: of_nat_add)

lemma is_digit_of_nat: "d < 10 \<Longrightarrow> is_digit (of_nat (48 + d))"
  by (simp add: is_digit_def word_le_nat_alt digit_byte del: of_nat_add)

lemma dec_nat_spec:
  "dec_nat n \<noteq> [] \<and> (\<forall>c \<in> set (dec_nat n). is_digit c) \<and> dec_value (dec_nat n) = n"
proof (induction n rule: dec_nat.induct)
  case (1 n)
  show ?case
  proof (cases "n < 10")
    case True
    then show ?thesis
      by (simp add: dec_nat.simps [of n] dec_value_def is_digit_of_nat digit_byte del: of_nat_add)
  next
    case False
    with 1 show ?thesis
      by (auto simp: dec_nat.simps [of n] dec_value_def is_digit_of_nat digit_byte simp del: of_nat_add)
  qed
qed

lemma length_dec_nat: "n < 10 ^ k \<Longrightarrow> 0 < k \<Longrightarrow> length (dec_nat n) \<le> k"
proof (induction n arbitrary: k rule: dec_nat.induct)
  case (1 n)
  show ?case
  proof (cases "n < 10")
    case True
    with 1 show ?thesis by (simp add: dec_nat.simps [of n])
  next
    case False
    then have "k \<noteq> 1" using "1.prems" by auto
    then obtain j where k: "k = Suc j" "0 < j" using "1.prems"(2) by (cases k) auto
    then have "n div 10 < 10 ^ j" using "1.prems"(1) by (simp add: less_mult_imp_div_less mult.commute)
    with "1.IH" [OF False] k False show ?thesis by (simp add: dec_nat.simps [of n])
  qed
qed

lemma snprintf_string_digits:
  assumes "length s < n" "0 \<notin> set s"
  shows "snprintf_string n s = s"
proof -
  have "takeWhile (\<lambda>c. c \<noteq> 0) s = s" using assms(2) by (auto simp: takeWhile_eq_all_conv)
  with assms(1) show ?thesis by (simp add: snprintf_string_def cstr_def)
qed

lemma dec_nat_no_nul: "0 \<notin> set (dec_nat n)"
  using dec_nat_spec [of n] by (auto simp: is_digit_def)

lemma toString_ulong_dec: "toString_ulong v = dec_nat (unat v)"
proof -
  have "unat v < 10 ^ 20" by (rule less_trans [OF unsigned_less]) simp
  then have "length (dec_nat (unat v)) \<le> 20" by (rule length_dec_nat) simp
  then show ?thesis by (simp add: toString_ulong_def snprintf_string_digits dec_nat_no_nul)
qed

lemma toString_unsigned_dec: "toString_unsigned v = dec_nat (unat v)"
proof -
  have "unat v < 10 ^ 10" by (rule less_trans [OF unsigned_less]) simp
  then have "length (dec_nat (unat v)) \<le> 10" by (rule length_dec_nat) simp
  then show ?thesis by (simp add: toString_unsigned_def snprintf_string_digits dec_nat_no_nul)
qed

text \<open>
  The unsigned \<open>toString\<close> overloads never truncate in their fixed buffers:
  they give a non-empty string of decimal digits whose value is the number.
\<close>

lemma toString_value:
  "dec_value (toString_unsigned v) = unat v \<and> dec_value (toString_ulong w) = unat w \<and>
   toString_ulong w \<noteq> [] \<and> (\<forall>c. c \<in> set (toString_ulong w) \<longrightarrow> is_digit c)"
  using dec_nat_spec by (simp add: toString_ulong_dec toString_unsigned_dec)

section \<open>C number parsing\<close>

text \<open>
  \<open>atoi\<close> and \<open>sscanf("%x")\<close> as the C library on the supported platform (Linux, 64-bit
  \<open>long\<close>) computes them: \<open>atoi\<close> is \<open>(int)strtol(s, NULL, 10)\<close>, and a \<open>%x\<close> conversion
  stores the low 32 bits of \<open>strtoul(s, NULL, 16)\<close>. Both saturate at the range of \<open>long\<close>
  and then drop the high bits.
\<close>

definition is_space :: "byte \<Rightarrow> bool" where
  "is_space c \<longleftrightarrow> c = 32 \<or> (9 \<le> c \<and> c \<le> 13)"

definition hex_digit :: "byte \<Rightarrow> nat option" where
  "hex_digit c =
     (if 48 \<le> c \<and> c \<le> 57 then Some (unat c - 48)
      else if 97 \<le> c \<and> c \<le> 102 then Some (unat c - 87)
      else if 65 \<le> c \<and> c \<le> 70 then Some (unat c - 55)
      else None)"

definition hex_value :: "bytes \<Rightarrow> nat" where
  "hex_value s = foldl (\<lambda>a c. a * 16 + the (hex_digit c)) 0 s"

definition take_sign :: "bytes \<Rightarrow> bool \<times> bytes" where
  "take_sign s =
     (case s of
        [] \<Rightarrow> (False, s)
      | c # cs \<Rightarrow> if c = 45 then (True, cs) else if c = 43 then (False, cs) else (False, s))"

definition strtol10 :: "bytes \<Rightarrow> int" where
  "strtol10 s =
     (let (neg, t) = take_sign (dropWhile is_space (cstr s));
          v = int (dec_value (takeWhile is_digit t))
      in if neg then max (- (2 ^ 63)) (- v) else min (2 ^ 63 - 1) v)"

definition atoi :: "bytes \<Rightarrow> int" where
  "atoi s = sint (word_of_int (strtol10 s) :: u32)"

definition sscanf_x :: "bytes \<Rightarrow> u32 option" where
  "sscanf_x s =
     (let (neg, t) = take_sign (dropWhile is_space (cstr s));
          is_hex = (\<lambda>c. hex_digit c \<noteq> None);
          prefixed = (take 2 t = [48, 120] \<or> take 2 t = [48, 88]);
          ds = takeWhile is_hex (if prefixed then drop 2 t else t);
          v = hex_value ds
      in if ds = [] \<and> \<not> prefixed then None
         else if v \<ge> 2 ^ 64 then Some (- 1)
         else Some (if neg then - of_nat v else of_nat v))"

lemma atoi_dec:
  assumes "n < 2 ^ 31"
  shows "atoi (dec_nat n) = int n"
proof -
  obtain c cs where d: "dec_nat n = c # cs" "is_digit c"
    using dec_nat_spec [of n] by (cases "dec_nat n") auto
  have "cstr (dec_nat n) = dec_nat n"
    using dec_nat_no_nul [of n] by (auto simp: cstr_def takeWhile_eq_all_conv)
  moreover have "\<not> is_space c" "c \<noteq> 45" "c \<noteq> 43"
    using d(2) by (auto simp: is_space_def is_digit_def word_le_nat_alt)
  moreover have tw: "takeWhile is_digit cs = cs"
    using dec_nat_spec [of n] by (simp add: takeWhile_eq_all_conv d(1))
  ultimately have "strtol10 (dec_nat n) = min (2 ^ 63 - 1) (int n)"
    using dec_nat_spec [of n] by (simp add: strtol10_def take_sign_def d tw)
  also have "\<dots> = int n" using assms by simp
  finally show ?thesis
    using assms to_int32_small [of n] by (simp add: atoi_def to_int32_def)
qed

section \<open>Occurrences of a separator\<close>

lemma search_after:
  assumes "c \<notin> set l"
  shows "search (l @ (c # cs) @ rest) (c # cs) = Some (length l)"
  using assms
proof (induction l)
  case Nil
  then show ?case using search_append_here [of "c # cs" rest] by simp
next
  case (Cons x l)
  then show ?case by auto
qed

lemma search_absent: "c \<notin> set l \<Longrightarrow> search l (c # cs) = None"
  by (induction l) auto

lemma split_mem_lines:
  assumes "ls \<noteq> []" "\<forall>l \<in> set ls. c \<notin> set l" "0 \<notin> set (c # cs)"
  shows "split_mem (join (c # cs) ls) (c # cs) (- 1) = ls"
proof -
  have "split_loop (c # cs) (- 1) 0 (join (c # cs) ls) = ls"
    using assms(1,2)
  proof (induction "c # cs" ls rule: join.induct)
    case (2 x)
    then show ?case by (subst split_loop.simps) (simp add: search_absent)
  next
    case (3 x y xs)
    then have "search (x @ (c # cs) @ join (c # cs) (y # xs)) (c # cs) = Some (length x)"
      by (intro search_after) simp
    with 3 show ?case by (subst split_loop.simps) simp
  qed simp
  then show ?thesis using assms(3) by (simp add: split_mem_no_nul split_bytes_def del: set_simps)
qed

text \<open>
  A block of non-empty lines without carriage return, separated by CR LF and closed by an
  empty line: the first CR LF CR LF is the one that closes it.
\<close>

definition crlf :: bytes where
  "crlf = [13, 10]"

lemma search_crlf2_later:
  assumes "13 \<notin> set l" "l \<noteq> []" "13 \<notin> set m" "m \<noteq> []"
    and "search (m @ t) [13, 10, 13, 10] = Some n"
  shows "search (l @ [13, 10] @ m @ t) [13, 10, 13, 10] = Some (length l + 2 + n)"
proof -
  have "search ([13, 10] @ m @ t) [13, 10, 13, 10] = Some (2 + n)"
    using assms(3-5) by (cases m) auto
  with assms(1) show ?thesis by (induction l) auto
qed

lemma search_crlf2:
  assumes "ls \<noteq> []" "\<forall>l \<in> set ls. 13 \<notin> set l \<and> l \<noteq> []"
  shows "search (join crlf ls @ crlf @ crlf @ rest) (crlf @ crlf) = Some (length (join crlf ls))"
  using assms
proof (induction crlf ls rule: join.induct)
  case (2 x)
  then show ?case using search_after [of 13 x "[10, 13, 10]" rest] by (simp add: crlf_def)
next
  case (3 x y xs)
  define t where "t = drop (length y) (join crlf (y # xs)) @ crlf @ crlf @ rest"
  have j: "join crlf (y # xs) @ crlf @ crlf @ rest = y @ t"
    by (cases xs) (simp_all add: t_def)
  have "search (y @ t) [13, 10, 13, 10] = Some (length (join crlf (y # xs)))"
    using 3 j by (simp add: crlf_def)
  then show ?case
    using search_crlf2_later [of x y t] 3(2,3) j by (simp add: crlf_def)
qed simp

end
