(* ===== verification/OrderedMap.thy ===== *)
theory OrderedMap
  imports StringUtil
begin

text \<open>
  \<open>std::map\<close> with a user-supplied comparison, as the code uses it (\<open>HttpMessage::HeaderMap\<close>,
  the handshake headers of \<open>WebSocketProtocol\<close>, the option tables of \<open>CommandLineOption\<close>): a
  list of entries in iteration order. The locale \<open>strict_weak\<close> is the requirement the
  standard puts on the comparison; its lemmas are the map laws the protocols use. It is
  interpreted for \<open>CaseInsensitiveLess\<close> (\<open>ci\<close>) and for \<open>std::less<std::string>\<close> (\<open>sl\<close>).
\<close>

section \<open>Operations\<close>

fun om_find :: "('k \<Rightarrow> 'k \<Rightarrow> bool) \<Rightarrow> 'k \<Rightarrow> ('k \<times> 'v) list \<Rightarrow> 'v option" where
  "om_find lt k [] = None"
| "om_find lt k ((k', v) # m) = (if \<not> lt k k' \<and> \<not> lt k' k then Some v else om_find lt k m)"

text \<open>\<open>m[k] = v\<close>: a key that is present keeps its spelling, only its value changes.\<close>

fun om_set :: "('k \<Rightarrow> 'k \<Rightarrow> bool) \<Rightarrow> 'k \<Rightarrow> 'v \<Rightarrow> ('k \<times> 'v) list \<Rightarrow> ('k \<times> 'v) list" where
  "om_set lt k v [] = [(k, v)]"
| "om_set lt k v ((k', v') # m) =
     (if lt k k' then (k, v) # (k', v') # m
      else if lt k' k then (k', v') # om_set lt k v m
      else (k', v) # m)"

text \<open>\<open>m.insert(make_pair(k, v))\<close>: no effect when the key is present.\<close>

fun om_insert :: "('k \<Rightarrow> 'k \<Rightarrow> bool) \<Rightarrow> 'k \<Rightarrow> 'v \<Rightarrow> ('k \<times> 'v) list \<Rightarrow> ('k \<times> 'v) list" where
  "om_insert lt k v [] = [(k, v)]"
| "om_insert lt k v ((k', v') # m) =
     (if lt k k' then (k, v) # (k', v') # m
      else if lt k' k then (k', v') # om_insert lt k v m
      else (k', v') # m)"

definition om_erase :: "('k \<Rightarrow> 'k \<Rightarrow> bool) \<Rightarrow> 'k \<Rightarrow> ('k \<times> 'v) list \<Rightarrow> ('k \<times> 'v) list" where
  "om_erase lt k m = filter (\<lambda>(k', v). lt k k' \<or> lt k' k) m"

definition om_sorted :: "('k \<Rightarrow> 'k \<Rightarrow> bool) \<Rightarrow> ('k \<times> 'v) list \<Rightarrow> bool" where
  "om_sorted lt m \<longleftrightarrow> sorted_wrt lt (List.map fst m)"

definition string_less :: "bytes \<Rightarrow> bytes \<Rightarrow> bool" where
  "string_less a b = ord_class.lexordp a b"

section \<open>The laws of a map over a strict weak order\<close>

locale strict_weak =
  fixes lt :: "'k \<Rightarrow> 'k \<Rightarrow> bool"
  assumes irrefl: "\<not> lt a a"
    and trans: "lt a b \<Longrightarrow> lt b c \<Longrightarrow> lt a c"
    and incomp_trans: "\<not> lt a b \<Longrightarrow> \<not> lt b a \<Longrightarrow> \<not> lt b c \<Longrightarrow> \<not> lt c b \<Longrightarrow> \<not> lt a c"
begin

lemma asym: "lt a b \<Longrightarrow> \<not> lt b a"
  using irrefl trans by blast

lemma incomp_less: "\<not> lt a b \<Longrightarrow> \<not> lt b a \<Longrightarrow> lt b c \<Longrightarrow> lt a c"
  by (metis incomp_trans trans)

lemma less_incomp: "lt a b \<Longrightarrow> \<not> lt b c \<Longrightarrow> \<not> lt c b \<Longrightarrow> lt a c"
  by (metis incomp_trans trans)

lemma find_set_same: "\<not> lt j k \<Longrightarrow> \<not> lt k j \<Longrightarrow> om_find lt j (om_set lt k v m) = Some v"
proof (induction m)
  case (Cons e m)
  obtain k' v' where e: "e = (k', v')" by (cases e)
  show ?case
    using Cons incomp_less [of j k k'] less_incomp [of k' k j] incomp_trans [of j k k']
      incomp_trans [of k' k j]
    by (auto simp: e)
qed simp

lemma find_set_other: "lt j k \<or> lt k j \<Longrightarrow> om_find lt j (om_set lt k v m) = om_find lt j m"
proof (induction m)
  case (Cons e m)
  obtain k' v' where e: "e = (k', v')" by (cases e)
  show ?case
    using Cons incomp_trans [of j k' k] incomp_trans [of k k' j]
    by (auto simp: e)
qed auto

lemma find_set:
  "om_find lt j (om_set lt k v m) = (if \<not> lt j k \<and> \<not> lt k j then Some v else om_find lt j m)"
  by (simp add: find_set_same find_set_other)

lemma find_None: "\<forall>x \<in> set m. lt j (fst x) \<Longrightarrow> om_find lt j m = None"
  by (induction m) auto

lemma find_insert_same:
  "\<not> lt j k \<Longrightarrow> \<not> lt k j \<Longrightarrow> om_sorted lt m \<Longrightarrow>
     om_find lt j (om_insert lt k v m) = (case om_find lt j m of None \<Rightarrow> Some v | Some u \<Rightarrow> Some u)"
proof (induction m)
  case (Cons e m)
  obtain k' v' where e: "e = (k', v')" by (cases e)
  consider "lt k k'" | "lt k' k" "\<not> lt k k'" | "\<not> lt k k'" "\<not> lt k' k" by blast
  then show ?case
  proof cases
    case 1
    then have "lt j k'" using Cons.prems incomp_less by blast
    then have "\<forall>x \<in> set (e # m). lt j (fst x)"
      using Cons.prems(3) trans [of j k'] by (auto simp: e om_sorted_def)
    then have "om_find lt j (e # m) = None" by (rule find_None)
    with 1 Cons.prems show ?thesis by (simp add: e)
  next
    case 2
    then have "lt k' j" using Cons.prems less_incomp by blast
    moreover have "om_sorted lt m" using Cons.prems(3) by (simp add: om_sorted_def)
    ultimately show ?thesis using 2 Cons by (simp add: e)
  next
    case 3
    then have "\<not> lt j k'" "\<not> lt k' j" using Cons.prems incomp_trans by blast+
    with 3 show ?thesis by (simp add: e)
  qed
qed simp

lemma find_insert_other: "lt j k \<or> lt k j \<Longrightarrow> om_find lt j (om_insert lt k v m) = om_find lt j m"
proof (induction m)
  case (Cons e m)
  obtain k' v' where e: "e = (k', v')" by (cases e)
  show ?case
    using Cons incomp_trans [of j k' k] incomp_trans [of k k' j]
    by (auto simp: e)
qed auto

lemma find_erase_same: "\<not> lt j k \<Longrightarrow> \<not> lt k j \<Longrightarrow> om_find lt j (om_erase lt k m) = None"
proof (induction m)
  case (Cons e m)
  then show ?case
    using incomp_less [of j k "fst e"] less_incomp [of "fst e" k j]
    by (cases e) (auto simp: om_erase_def)
qed (simp add: om_erase_def)

lemma find_erase_other: "lt j k \<or> lt k j \<Longrightarrow> om_find lt j (om_erase lt k m) = om_find lt j m"
proof (induction m)
  case (Cons e m)
  then show ?case
    using incomp_trans [of j "fst e" k] incomp_trans [of k "fst e" j]
    by (cases e) (auto simp: om_erase_def)
qed (simp add: om_erase_def)

lemma find_erase:
  "om_find lt j (om_erase lt k m) = (if \<not> lt j k \<and> \<not> lt k j then None else om_find lt j m)"
  by (simp add: find_erase_same find_erase_other)

lemma set_keys: "x \<in> set (om_set lt k v m) \<Longrightarrow> fst x = k \<or> (\<exists>y \<in> set m. fst x = fst y)"
  by (induction m) (auto split: if_splits)

lemma insert_keys: "x \<in> set (om_insert lt k v m) \<Longrightarrow> fst x = k \<or> (\<exists>y \<in> set m. fst x = fst y)"
  by (induction m) (auto split: if_splits)

lemma sorted_set: "om_sorted lt m \<Longrightarrow> om_sorted lt (om_set lt k v m)"
proof (induction m)
  case (Cons e m)
  then show ?case
    using trans by (cases e) (fastforce simp: om_sorted_def dest: set_keys)
qed (simp add: om_sorted_def)

lemma sorted_insert: "om_sorted lt m \<Longrightarrow> om_sorted lt (om_insert lt k v m)"
proof (induction m)
  case (Cons e m)
  then show ?case
    using trans by (cases e) (fastforce simp: om_sorted_def dest: insert_keys)
qed (simp add: om_sorted_def)

lemma sorted_erase: "om_sorted lt m \<Longrightarrow> om_sorted lt (om_erase lt k m)"
  by (induction m) (auto simp: om_sorted_def om_erase_def)

end

interpretation ci: strict_weak ci_less
proof
  fix a b c
  show "\<not> ci_less a a" by (simp add: ci_less_lexordp lexordp_irreflexive')
  show "ci_less a b \<Longrightarrow> ci_less b c \<Longrightarrow> ci_less a c" by (auto simp: ci_less_lexordp intro: lexordp_trans)
  show "\<not> ci_less a b \<Longrightarrow> \<not> ci_less b a \<Longrightarrow> \<not> ci_less b c \<Longrightarrow> \<not> ci_less c b \<Longrightarrow> \<not> ci_less a c"
    using lexordp_linear by (metis ci_less_lexordp lexordp_irreflexive')
qed

interpretation sl: strict_weak string_less
proof
  fix a b c
  show "\<not> string_less a a" by (simp add: string_less_def lexordp_irreflexive')
  show "string_less a b \<Longrightarrow> string_less b c \<Longrightarrow> string_less a c" by (auto simp: string_less_def intro: lexordp_trans)
  show "\<not> string_less a b \<Longrightarrow> \<not> string_less b a \<Longrightarrow> \<not> string_less b c \<Longrightarrow> \<not> string_less c b \<Longrightarrow> \<not> string_less a c"
    using lexordp_linear by (metis string_less_def lexordp_irreflexive')
qed

lemma string_incomp: "\<not> string_less a b \<Longrightarrow> \<not> string_less b a \<Longrightarrow> a = b"
  using lexordp_linear by (metis string_less_def)

end
