(* ===== verification/HttpMessage.thy ===== *)
theory HttpMessage
  imports OrderedMap
begin

text \<open>
  Model of \<open>src/brickred/protocol/http_message.{h,cc}\<close>, \<open>http_request.{h,cc}\<close> and
  \<open>http_response.{h,cc}\<close>. The base class is a record, the two subclasses extend it; member
  functions of the base class are polymorphic in the extension. The header map is a
  \<open>std::map\<close> ordered by \<open>CaseInsensitiveLess\<close> (theory \<open>OrderedMap\<close>).
\<close>

section \<open>Messages\<close>

datatype version = V_UNKNOWN | HTTP_1_0 | HTTP_1_1

datatype message_type = T_UNKNOWN | T_REQUEST | T_RESPONSE

datatype http_method = M_UNKNOWN | M_GET | M_POST

type_synonym header_map = "(bytes \<times> bytes) list"

record http_message =
  hm_type :: message_type
  hm_version :: version
  hm_headers :: header_map
  hm_body :: bytes

record http_request = http_message +
  hq_method :: http_method
  hq_uri :: bytes

record http_response = http_message +
  hs_status_code :: int
  hs_reason :: bytes

definition http_message_new :: http_message where
  "http_message_new = \<lparr>hm_type = T_UNKNOWN, hm_version = V_UNKNOWN, hm_headers = [], hm_body = []\<rparr>"

definition http_request_new :: http_request where
  "http_request_new = \<lparr>hm_type = T_REQUEST, hm_version = V_UNKNOWN, hm_headers = [], hm_body = [],
     hq_method = M_UNKNOWN, hq_uri = []\<rparr>"

definition http_response_new :: http_response where
  "http_response_new = \<lparr>hm_type = T_RESPONSE, hm_version = V_UNKNOWN, hm_headers = [], hm_body = [],
     hs_status_code = 0, hs_reason = []\<rparr>"

section \<open>Headers\<close>

definition getHeader :: "'a http_message_scheme \<Rightarrow> bytes \<Rightarrow> bytes" where
  "getHeader m key = (case om_find ci_less key (hm_headers m) of None \<Rightarrow> [] | Some v \<Rightarrow> v)"

definition hasHeader :: "'a http_message_scheme \<Rightarrow> bytes \<Rightarrow> bool" where
  "hasHeader m key \<longleftrightarrow> om_find ci_less key (hm_headers m) \<noteq> None"

definition headerEqual :: "'a http_message_scheme \<Rightarrow> bytes \<Rightarrow> bytes \<Rightarrow> bool" where
  "headerEqual m key value = caseInsensitiveEqual (getHeader m key) value"

definition headerContain :: "'a http_message_scheme \<Rightarrow> bytes \<Rightarrow> bytes \<Rightarrow> bool" where
  "headerContain m key value \<longleftrightarrow> search (toLower (getHeader m key)) (toLower value) \<noteq> None"

definition setVersion :: "'a http_message_scheme \<Rightarrow> version \<Rightarrow> 'a http_message_scheme" where
  "setVersion m v = m\<lparr>hm_version := v\<rparr>"

definition setHeader :: "'a http_message_scheme \<Rightarrow> bytes \<Rightarrow> bytes \<Rightarrow> 'a http_message_scheme" where
  "setHeader m key value = m\<lparr>hm_headers := om_set ci_less key value (hm_headers m)\<rparr>"

definition removeHeader :: "'a http_message_scheme \<Rightarrow> bytes \<Rightarrow> 'a http_message_scheme" where
  "removeHeader m key = m\<lparr>hm_headers := om_erase ci_less key (hm_headers m)\<rparr>"

definition setBody :: "'a http_message_scheme \<Rightarrow> bytes \<Rightarrow> 'a http_message_scheme" where
  "setBody m body = m\<lparr>hm_body := body\<rparr>"

definition isConnectionKeepAlive :: "'a http_message_scheme \<Rightarrow> bool" where
  "isConnectionKeepAlive m = headerEqual m (str ''Connection'') (str ''Keep-Alive'')"

definition setConnectionKeepAlive :: "'a http_message_scheme \<Rightarrow> 'a http_message_scheme" where
  "setConnectionKeepAlive m = setHeader m (str ''Connection'') (str ''Keep-Alive'')"

definition setConnectionClose :: "'a http_message_scheme \<Rightarrow> 'a http_message_scheme" where
  "setConnectionClose m = setHeader m (str ''Connection'') (str ''Close'')"

text \<open>
  \<open>setDate\<close> takes the clock (\<open>Timestamp::setNow\<close> and \<open>getSecond\<close>) and the formatting of a
  second count (\<open>localtime_r\<close> and \<open>strftime\<close> into a buffer of 256 bytes) as parameters.
\<close>

definition setDate ::
    "int \<Rightarrow> (bytes \<Rightarrow> int \<Rightarrow> bytes) \<Rightarrow> 'a http_message_scheme \<Rightarrow> int \<Rightarrow> 'a http_message_scheme" where
  "setDate clock format m now =
     (let now = (if now = 0 then clock else now)
      in setHeader m (str ''Date'') (cstr (format (str ''%a, %d %b %Y %H:%M:%S %Z'') now)))"

section \<open>Names of versions and methods\<close>

definition VersionStrToEnum :: "bytes \<Rightarrow> version" where
  "VersionStrToEnum s =
     (if s = str ''HTTP/1.1'' then HTTP_1_1
      else if s = str ''HTTP/1.0'' then HTTP_1_0
      else V_UNKNOWN)"

definition VersionEnumToStr :: "version \<Rightarrow> bytes" where
  "VersionEnumToStr v =
     (if v = HTTP_1_1 then str ''HTTP/1.1''
      else if v = HTTP_1_0 then str ''HTTP/1.0''
      else str ''UNKNOWN'')"

definition MethodStrToEnum :: "bytes \<Rightarrow> http_method" where
  "MethodStrToEnum s =
     (if s = str ''GET'' then M_GET
      else if s = str ''POST'' then M_POST
      else M_UNKNOWN)"

definition MethodEnumToStr :: "http_method \<Rightarrow> bytes" where
  "MethodEnumToStr v =
     (if v = M_GET then str ''GET''
      else if v = M_POST then str ''POST''
      else str ''UNKNOWN'')"

definition setMethod :: "http_request \<Rightarrow> http_method \<Rightarrow> http_request" where
  "setMethod r v = r\<lparr>hq_method := v\<rparr>"

definition setRequestUri :: "http_request \<Rightarrow> bytes \<Rightarrow> http_request" where
  "setRequestUri r uri = r\<lparr>hq_uri := uri\<rparr>"

definition setStatusCode :: "http_response \<Rightarrow> int \<Rightarrow> http_response" where
  "setStatusCode r code = r\<lparr>hs_status_code := code\<rparr>"

definition setReasonPhrase :: "http_response \<Rightarrow> bytes \<Rightarrow> http_response" where
  "setReasonPhrase r reason = r\<lparr>hs_reason := reason\<rparr>"

text \<open>\<open>swap\<close> exchanges every member of the base class and of the subclass.\<close>

definition http_request_swap :: "http_request \<Rightarrow> http_request \<Rightarrow> http_request \<times> http_request" where
  "http_request_swap a b =
     (a\<lparr>hm_type := hm_type b, hm_version := hm_version b, hm_headers := hm_headers b,
        hm_body := hm_body b, hq_method := hq_method b, hq_uri := hq_uri b\<rparr>,
      b\<lparr>hm_type := hm_type a, hm_version := hm_version a, hm_headers := hm_headers a,
        hm_body := hm_body a, hq_method := hq_method a, hq_uri := hq_uri a\<rparr>)"

definition http_response_swap :: "http_response \<Rightarrow> http_response \<Rightarrow> http_response \<times> http_response" where
  "http_response_swap a b =
     (a\<lparr>hm_type := hm_type b, hm_version := hm_version b, hm_headers := hm_headers b,
        hm_body := hm_body b, hs_status_code := hs_status_code b, hs_reason := hs_reason b\<rparr>,
      b\<lparr>hm_type := hm_type a, hm_version := hm_version a, hm_headers := hm_headers a,
        hm_body := hm_body a, hs_status_code := hs_status_code a, hs_reason := hs_reason a\<rparr>)"

section \<open>Facts\<close>

named_theorems http_names \<open>the strings of versions and methods\<close>

lemma version_names [http_names]:
  "VersionStrToEnum (VersionEnumToStr v) = v"
  by (cases v) (simp_all add: VersionStrToEnum_def VersionEnumToStr_def str_def)

lemma method_names [http_names]:
  "MethodStrToEnum (MethodEnumToStr v) = v"
  by (cases v) (simp_all add: MethodStrToEnum_def MethodEnumToStr_def str_def)

lemma swap_exchanges [simp]:
  "http_request_swap q q' = (q', q)" "http_response_swap r r' = (r', r)"
  by (simp_all add: http_request_swap_def http_response_swap_def)

text \<open>
  The header operations are those of a map whose keys are compared without
  regard to case: a header just set is found under any spelling of its name, one that was
  removed is gone, and other headers are not affected.
\<close>

lemma header_map_laws:
  "getHeader (setHeader m k v) k' = (if caseInsensitiveEqual k' k then v else getHeader m k') \<and>
   hasHeader (setHeader m k v) k' = (caseInsensitiveEqual k' k \<or> hasHeader m k') \<and>
   hasHeader (removeHeader m k) k' = (\<not> caseInsensitiveEqual k' k \<and> hasHeader m k') \<and>
   getHeader (removeHeader m k) k' = (if caseInsensitiveEqual k' k then [] else getHeader m k') \<and>
   isConnectionKeepAlive (setConnectionKeepAlive m) \<and> \<not> isConnectionKeepAlive (setConnectionClose m)"
proof -
  have eq: "caseInsensitiveEqual a b \<longleftrightarrow> \<not> ci_less a b \<and> \<not> ci_less b a" for a b
    using lexordp_linear [of "toLower a" "toLower b"]
    by (auto simp: ci_less_lexordp caseInsensitiveEqual_iff lexordp_irreflexive')
  have "caseInsensitiveEqual (str ''Keep-Alive'') (str ''Keep-Alive'')"
    "\<not> caseInsensitiveEqual (str ''Close'') (str ''Keep-Alive'')"
    by (simp_all add: caseInsensitiveEqual_def str_def list_all_iff)
  then show ?thesis
    by (simp add: getHeader_def hasHeader_def setHeader_def removeHeader_def ci.find_set ci.find_erase eq
        isConnectionKeepAlive_def headerEqual_def setConnectionKeepAlive_def setConnectionClose_def ci.irrefl)
qed

end
