(* ===== verification/HttpProtocol.thy ===== *)
theory HttpProtocol
  imports HttpMessage DynamicBuffer
begin

text \<open>
  Model of \<open>src/brickred/protocol/http_protocol.{h,cc}\<close>: the incremental HTTP/1.x parser and
  the message writer. The parser is the state machine of \<open>HttpProtocol::Status\<close>; each
  status handler is one definition that takes the parser and the input buffer and returns its
  code (\<open>-1\<close> error, \<open>0\<close> wait, \<open>1\<close> go on) with both of them updated. \<open>None\<close> is undefined
  behaviour: an access outside a buffer or through the null \<open>message_\<close> pointer.

  \<open>output_cb_\<close> is external code: the model keeps whether it is set and returns the blocks it
  is called with.
\<close>

section \<open>State\<close>

datatype http_status =
  READING_START_LINE | READING_HEADER | READING_BODY | READING_TRAILER_HEADER | FINISHED | PENDING_ERROR

datatype http_ret = RET_ERROR | RET_WAITING_MORE_DATA | RET_MESSAGE_READY

datatype any_message = Request http_request | Response http_response

record http_protocol =
  hp_status :: http_status
  hp_output_cb :: bool
  hp_message :: "any_message option"
  hp_chunk_buffer :: "dynamic_buffer option"
  hp_start_line_max_size :: nat
  hp_header_max_size :: nat
  hp_body_max_size :: nat

definition hp_reset :: "http_protocol \<Rightarrow> http_protocol" where
  "hp_reset p = p\<lparr>hp_message := None, hp_chunk_buffer := None, hp_status := READING_START_LINE\<rparr>"

definition hp_setOutputCallback :: "http_protocol \<Rightarrow> bool \<Rightarrow> http_protocol" where
  "hp_setOutputCallback p output_cb = p\<lparr>hp_output_cb := output_cb\<rparr>"

definition hp_setStartLineMaxSize :: "http_protocol \<Rightarrow> nat \<Rightarrow> http_protocol" where
  "hp_setStartLineMaxSize p n = (if n < 2 then p else p\<lparr>hp_start_line_max_size := n\<rparr>)"

definition hp_setHeaderMaxSize :: "http_protocol \<Rightarrow> nat \<Rightarrow> http_protocol" where
  "hp_setHeaderMaxSize p n = (if n < 4 then p else p\<lparr>hp_header_max_size := n\<rparr>)"

definition hp_setBodyMaxSize :: "http_protocol \<Rightarrow> nat \<Rightarrow> http_protocol" where
  "hp_setBodyMaxSize p n = (if n = 0 then p else p\<lparr>hp_body_max_size := n\<rparr>)"

definition hp_impl_new :: http_protocol where
  "hp_impl_new = \<lparr>hp_status = READING_START_LINE, hp_output_cb = False, hp_message = None,
     hp_chunk_buffer = None, hp_start_line_max_size = 0, hp_header_max_size = 0, hp_body_max_size = 0\<rparr>"

definition hp_new :: http_protocol where
  "hp_new = hp_setBodyMaxSize (hp_setHeaderMaxSize (hp_setStartLineMaxSize hp_impl_new (8 * 1024))
     (32 * 1024)) (1024 * 1024)"

text \<open>Access to the base class through the \<open>HttpMessage *\<close>.\<close>

fun any_setHeader :: "any_message \<Rightarrow> bytes \<Rightarrow> bytes \<Rightarrow> any_message" where
  "any_setHeader (Request r) k v = Request (setHeader r k v)"
| "any_setHeader (Response r) k v = Response (setHeader r k v)"

fun any_removeHeader :: "any_message \<Rightarrow> bytes \<Rightarrow> any_message" where
  "any_removeHeader (Request r) k = Request (removeHeader r k)"
| "any_removeHeader (Response r) k = Response (removeHeader r k)"

fun any_setBody :: "any_message \<Rightarrow> bytes \<Rightarrow> any_message" where
  "any_setBody (Request r) b = Request (setBody r b)"
| "any_setBody (Response r) b = Response (setBody r b)"

fun any_hasHeader :: "any_message \<Rightarrow> bytes \<Rightarrow> bool" where
  "any_hasHeader (Request r) k = hasHeader r k"
| "any_hasHeader (Response r) k = hasHeader r k"

fun any_getHeader :: "any_message \<Rightarrow> bytes \<Rightarrow> bytes" where
  "any_getHeader (Request r) k = getHeader r k"
| "any_getHeader (Response r) k = getHeader r k"

fun any_headerContain :: "any_message \<Rightarrow> bytes \<Rightarrow> bytes \<Rightarrow> bool" where
  "any_headerContain (Request r) k v = headerContain r k v"
| "any_headerContain (Response r) k v = headerContain r k v"

section \<open>Status handlers\<close>

text \<open>\<open>size_t\<close> subtraction: \<open>start_line_max_size_ - 2\<close> and \<open>header_max_size_ - 4\<close>.\<close>

definition sz_sub :: "nat \<Rightarrow> nat \<Rightarrow> nat" where
  "sz_sub a b = (a + 2 ^ 64 - b) mod 2 ^ 64"

type_synonym handler_result = "(int \<times> http_protocol \<times> dynamic_buffer) option"

text \<open>
  The message built from the parts of the start line; \<open>None\<close> where the code returns \<open>-1\<close>.
\<close>

definition start_line_message :: "bytes list \<Rightarrow> any_message option" where
  "start_line_message parts =
     (if length parts \<noteq> 3 then None
      else if length (parts ! 0) \<ge> 4 \<and> take 4 (parts ! 0) = str ''HTTP'' then
        let vsn = VersionStrToEnum (parts ! 0)
        in if vsn = V_UNKNOWN then None
        else let status_code = atoi (parts ! 1)
        in if status_code \<le> 0 then None
        else Some (Response
               (setReasonPhrase (setStatusCode (setVersion http_response_new vsn) status_code) (parts ! 2)))
      else
        let mth = MethodStrToEnum (parts ! 0)
        in if mth = M_UNKNOWN then None
        else let vsn = VersionStrToEnum (parts ! 2)
        in if vsn = V_UNKNOWN then None
        else Some (Request
               (setVersion (setRequestUri (setMethod http_request_new mth) (parts ! 1)) vsn)))"

definition readStartLine :: "http_protocol \<Rightarrow> dynamic_buffer \<Rightarrow> handler_result" where
  "readStartLine p b =
     (case db_readBegin b 0 (db_readableBytes b) of
        None \<Rightarrow> None
      | Some d \<Rightarrow>
      (case find_str d crlf of
        None \<Rightarrow> if db_readableBytes b > hp_start_line_max_size p then Some (-1, p, b) else Some (0, p, b)
      | Some line_length \<Rightarrow>
          if line_length > sz_sub (hp_start_line_max_size p) 2 then Some (-1, p, b)
          else case start_line_message (split_mem (take line_length d) (str '' '') 3) of
            None \<Rightarrow> Some (-1, p, b)
          | Some msg \<Rightarrow>
              Some (1, p\<lparr>hp_message := Some msg, hp_status := READING_HEADER\<rparr>,
                db_read b (line_length + 2))))"

text \<open>
  The loop over the header lines. The code works on the C string of a line, so a NUL ends
  the value.
\<close>

fun header_lines :: "bytes list \<Rightarrow> any_message \<Rightarrow> bool \<times> any_message" where
  "header_lines [] msg = (True, msg)"
| "header_lines (h # hs) msg =
     (case find_str h (str '':'') of
        None \<Rightarrow> (False, msg)
      | Some colon \<Rightarrow>
          header_lines hs (any_setHeader msg
            (trim (take colon h) default_ws) (trim (cstr (drop (colon + 1) h)) default_ws)))"

definition readHeader :: "http_protocol \<Rightarrow> dynamic_buffer \<Rightarrow> handler_result" where
  "readHeader p b =
     (if db_readableBytes b < 2 then Some (0, p, b)
      else case db_readBegin b 0 (db_readableBytes b) of
        None \<Rightarrow> None
      | Some d \<Rightarrow>
        if take 2 d = crlf then Some (1, p\<lparr>hp_status := FINISHED\<rparr>, db_read b 2)
        else case find_str d (crlf @ crlf) of
          None \<Rightarrow> if db_readableBytes b > hp_header_max_size p then Some (-1, p, b) else Some (0, p, b)
        | Some header_length \<Rightarrow>
            if header_length > sz_sub (hp_header_max_size p) 4 then Some (-1, p, b)
            else case hp_message p of
              None \<Rightarrow> None
            | Some msg \<Rightarrow>
                let hs = header_lines (split_mem (take header_length d) crlf (-1)) msg
                in if \<not> fst hs then Some (-1, p\<lparr>hp_message := Some (snd hs)\<rparr>, b)
                else Some (1, p\<lparr>hp_message := Some (snd hs),
                       hp_status := (if hp_status p = READING_TRAILER_HEADER then FINISHED else READING_BODY)\<rparr>,
                     db_read b (header_length + 4)))"

lemma db_readableBytes_read: "db_readableBytes (db_read b n) = db_readableBytes b - n"
  by (auto simp: db_readableBytes_def db_read_def db_clear_def Let_def min_def)

text \<open>
  The chunk loop: returns the code, the input buffer and the collected chunks; code \<open>1\<close>
  means the final chunk of size 0 was consumed.
\<close>

function chunk_loop ::
    "nat \<Rightarrow> dynamic_buffer \<Rightarrow> dynamic_buffer \<Rightarrow> (int \<times> dynamic_buffer \<times> dynamic_buffer) option" where
  "chunk_loop body_max b chunk =
     (let buffer_size = db_readableBytes b
      in case db_readBegin b 0 buffer_size of
        None \<Rightarrow> None
      | Some d \<Rightarrow>
      (case find_str d crlf of
        None \<Rightarrow> Some (0, b, chunk)
      | Some pos \<Rightarrow>
          let chunk_head_line = take pos d
          in case sscanf_x chunk_head_line of
            None \<Rightarrow> Some (-1, b, chunk)
          | Some cs \<Rightarrow>
          let chunk_size = unat cs
          in if chunk_size > body_max then Some (-1, b, chunk)
          else let total_chunk_size =
                 (if chunk_size = 0 then length chunk_head_line + 2
                  else length chunk_head_line + 2 + chunk_size + 2)
          in if buffer_size < total_chunk_size then Some (0, b, chunk)
          else if chunk_size > 0 then
            if take 2 (drop (pos + 2 + chunk_size) d) \<noteq> crlf then Some (-1, b, chunk)
            else case db_append chunk (take chunk_size (drop (pos + 2) d)) of
              None \<Rightarrow> None
            | Some chunk \<Rightarrow> chunk_loop body_max (db_read b total_chunk_size) chunk
          else Some (1, db_read b total_chunk_size, chunk)))"
  by pat_completeness auto
termination
  by (relation "measure (\<lambda>(m, b, c). db_readableBytes b)") (auto simp: db_readableBytes_read)

declare chunk_loop.simps [simp del]

definition readBody_length :: "http_protocol \<Rightarrow> any_message \<Rightarrow> dynamic_buffer \<Rightarrow> handler_result" where
  "readBody_length p msg b =
     (let content_length = atoi (any_getHeader msg (str ''Content-Length''))
      in if content_length > 0 then
           if nat content_length > hp_body_max_size p then Some (-1, p, b)
           else if db_readableBytes b < nat content_length then Some (0, p, b)
           else case db_readBegin b 0 (nat content_length) of
             None \<Rightarrow> None
           | Some d \<Rightarrow>
               Some (1, p\<lparr>hp_message := Some (any_setBody msg d), hp_status := FINISHED\<rparr>,
                 db_read b (nat content_length))
         else if content_length = 0 then Some (1, p\<lparr>hp_status := FINISHED\<rparr>, b)
         else Some (-1, p, b))"

text \<open>The message after the last chunk: body set, headers rewritten.\<close>

definition chunked_message :: "any_message \<Rightarrow> bytes \<Rightarrow> any_message" where
  "chunked_message msg body =
     any_removeHeader
       (any_setHeader (any_setBody msg body) (str ''Content-Length'')
         (toString_ulong (of_nat (length body))))
       (str ''Transfer-Encoding'')"

definition readBody_chunked :: "http_protocol \<Rightarrow> any_message \<Rightarrow> dynamic_buffer \<Rightarrow> handler_result" where
  "readBody_chunked p msg b =
     (let chunk = (case hp_chunk_buffer p of None \<Rightarrow> db_new 1024 1024 | Some c \<Rightarrow> c)
      in if db_readableBytes chunk + db_readableBytes b > hp_body_max_size p
         then Some (-1, p\<lparr>hp_chunk_buffer := Some chunk\<rparr>, b)
         else case chunk_loop (hp_body_max_size p) b chunk of
           None \<Rightarrow> None
         | Some (ret, b, chunk) \<Rightarrow>
             if ret = 1 then
               case db_readBegin chunk 0 (db_readableBytes chunk) of
                 None \<Rightarrow> None
               | Some body \<Rightarrow>
                   Some (1, p\<lparr>hp_chunk_buffer := Some chunk, hp_message := Some (chunked_message msg body),
                     hp_status := READING_TRAILER_HEADER\<rparr>, b)
             else Some (ret, p\<lparr>hp_chunk_buffer := Some chunk\<rparr>, b))"

definition readBody :: "http_protocol \<Rightarrow> dynamic_buffer \<Rightarrow> handler_result" where
  "readBody p b =
     (case hp_message p of
        None \<Rightarrow> None
      | Some msg \<Rightarrow>
          if any_hasHeader msg (str ''Content-Length'') then readBody_length p msg b
          else if any_headerContain msg (str ''Transfer-Encoding'') (str ''chunked'')
          then readBody_chunked p msg b
          else Some (-1, p, b))"

section \<open>The dispatcher\<close>

fun status_handler :: "http_status \<Rightarrow> (http_protocol \<Rightarrow> dynamic_buffer \<Rightarrow> handler_result) option" where
  "status_handler READING_START_LINE = Some readStartLine"
| "status_handler READING_HEADER = Some readHeader"
| "status_handler READING_BODY = Some readBody"
| "status_handler READING_TRAILER_HEADER = Some readHeader"
| "status_handler FINISHED = None"
| "status_handler PENDING_ERROR = None"

text \<open>How far a status is from the end; every handler that returns 1 moves on.\<close>

fun status_rank :: "http_status \<Rightarrow> nat" where
  "status_rank READING_START_LINE = 4"
| "status_rank READING_HEADER = 3"
| "status_rank READING_BODY = 2"
| "status_rank READING_TRAILER_HEADER = 1"
| "status_rank FINISHED = 0"
| "status_rank PENDING_ERROR = 0"

named_theorems handler_splits \<open>case splits of the handler definitions, for assumptions\<close>

lemmas handler_case_splits [handler_splits] =
  option.split_asm if_split_asm prod.split_asm

lemma readStartLine_progress:
  "readStartLine p b = Some (1, p', b') \<Longrightarrow> hp_status p' = READING_HEADER"
  by (auto simp: readStartLine_def split: handler_splits)

lemma readHeader_progress:
  "readHeader p b = Some (1, p', b') \<Longrightarrow>
     hp_status p' = FINISHED \<or> hp_status p \<noteq> READING_TRAILER_HEADER \<and> hp_status p' = READING_BODY"
  by (auto simp: readHeader_def Let_def split: handler_splits)

lemma readBody_progress:
  "readBody p b = Some (1, p', b') \<Longrightarrow> hp_status p' = FINISHED \<or> hp_status p' = READING_TRAILER_HEADER"
  by (auto simp: readBody_def readBody_length_def readBody_chunked_def Let_def split: handler_splits)

lemma handler_progress:
  "status_handler (hp_status p) = Some f \<Longrightarrow> f p b = Some (1, p', b') \<Longrightarrow>
     status_rank (hp_status p') < status_rank (hp_status p)"
  by (cases "hp_status p")
     (auto dest: readStartLine_progress readHeader_progress readBody_progress)

function hp_recvMessage ::
    "http_protocol \<Rightarrow> dynamic_buffer \<Rightarrow> (http_ret \<times> http_protocol \<times> dynamic_buffer) option" where
  "hp_recvMessage p b =
     (case status_handler (hp_status p) of
        None \<Rightarrow> Some (RET_ERROR, p, b)
      | Some func \<Rightarrow>
      (case func p b of
        None \<Rightarrow> None
      | Some (ret, p', b') \<Rightarrow>
          if ret = 0 then Some (RET_WAITING_MORE_DATA, p', b')
          else if ret = -1 then Some (RET_ERROR, p'\<lparr>hp_status := PENDING_ERROR\<rparr>, b')
          else if hp_status p' = FINISHED then Some (RET_MESSAGE_READY, p', b')
          else if ret = 1 then hp_recvMessage p' b' else None))"
  by pat_completeness auto
termination
  by (relation "measure (\<lambda>(p, b). status_rank (hp_status p))") (auto dest: handler_progress)

declare hp_recvMessage.simps [simp del]

section \<open>Retrieving the message\<close>

text \<open>
  \<open>request->swap(*message_)\<close> hands the message to the caller; what the caller's object held
  is destroyed by \<open>reset\<close>. The first component of the result is the returned \<open>bool\<close>.
\<close>

definition retrieveRequest ::
    "http_protocol \<Rightarrow> http_request \<Rightarrow> bool \<times> http_protocol \<times> http_request" where
  "retrieveRequest p request =
     (if hp_status p \<noteq> FINISHED then (False, p, request)
      else case hp_message p of
        Some (Request msg) \<Rightarrow>
          let (request', msg') = http_request_swap request msg
          in (True, hp_reset (p\<lparr>hp_message := Some (Request msg')\<rparr>), request')
      | _ \<Rightarrow> (False, p, request))"

definition retrieveResponse ::
    "http_protocol \<Rightarrow> http_response \<Rightarrow> bool \<times> http_protocol \<times> http_response" where
  "retrieveResponse p response =
     (if hp_status p \<noteq> FINISHED then (False, p, response)
      else case hp_message p of
        Some (Response msg) \<Rightarrow>
          let (response', msg') = http_response_swap response msg
          in (True, hp_reset (p\<lparr>hp_message := Some (Response msg')\<rparr>), response')
      | _ \<Rightarrow> (False, p, response))"

section \<open>Writing a message\<close>

text \<open>
  \<open>count = snprintf(writeBegin(), writableBytes(), ...)\<close> followed by
  \<open>if (count > 0) write(count)\<close>, where \<open>out\<close> is the complete formatted text: what fits is
  stored with a closing NUL, the count is that of the complete text, and it is negative when
  it does not fit an \<open>int\<close>.
\<close>

definition snprintf_count :: "bytes \<Rightarrow> int" where
  "snprintf_count out = (if length out < 2 ^ 31 then int (length out) else -1)"

definition snprintf_store :: "dynamic_buffer \<Rightarrow> bytes \<Rightarrow> dynamic_buffer option" where
  "snprintf_store b out =
     (let n = db_writableBytes b
      in if n = 0 then Some b else db_writeBegin b 0 (take (n - 1) out @ [0]))"

definition snprintf_write :: "dynamic_buffer \<Rightarrow> bytes \<Rightarrow> dynamic_buffer option" where
  "snprintf_write b out = do {
     b \<leftarrow> snprintf_store b out;
     Some (if snprintf_count out > 0 then db_write b (nat (snprintf_count out)) else b) }"

text \<open>The format strings; each \<open>%s\<close> argument is a \<open>c_str()\<close>.\<close>

definition request_line :: "http_request \<Rightarrow> bytes" where
  "request_line r = cstr (MethodEnumToStr (hq_method r)) @ str '' '' @ cstr (hq_uri r) @ str '' '' @
     cstr (VersionEnumToStr (hm_version r)) @ crlf"

definition status_line :: "http_response \<Rightarrow> bytes" where
  "status_line r = cstr (VersionEnumToStr (hm_version r)) @ str '' '' @ dec_int (hs_status_code r) @
     str '' '' @ cstr (hs_reason r) @ crlf"

definition header_line :: "bytes \<times> bytes \<Rightarrow> bytes" where
  "header_line kv = cstr (fst kv) @ str '': '' @ cstr (snd kv) @ crlf"

fun writeStartLine :: "any_message \<Rightarrow> dynamic_buffer \<Rightarrow> dynamic_buffer option" where
  "writeStartLine (Request r) b = do {
     b \<leftarrow> db_reserveWritableBytes b (64 + length (hq_uri r));
     snprintf_write b (request_line r) }"
| "writeStartLine (Response r) b = do {
     b \<leftarrow> db_reserveWritableBytes b (64 + length (hs_reason r));
     snprintf_write b (status_line r) }"

fun writeHeaders :: "header_map \<Rightarrow> dynamic_buffer \<Rightarrow> dynamic_buffer option" where
  "writeHeaders [] b = Some b"
| "writeHeaders (kv # kvs) b = do {
     b \<leftarrow> db_reserveWritableBytes b (32 + length (fst kv) + length (snd kv));
     b \<leftarrow> snprintf_write b (header_line kv);
     writeHeaders kvs b }"

fun any_headers :: "any_message \<Rightarrow> header_map" where
  "any_headers (Request r) = hm_headers r"
| "any_headers (Response r) = hm_headers r"

fun any_body :: "any_message \<Rightarrow> bytes" where
  "any_body (Request r) = hm_body r"
| "any_body (Response r) = hm_body r"

definition writeMessage :: "any_message \<Rightarrow> dynamic_buffer \<Rightarrow> dynamic_buffer option" where
  "writeMessage m b = do {
     b \<leftarrow> writeStartLine m b;
     b \<leftarrow> writeHeaders (any_headers m) b;
     b \<leftarrow> db_reserveWritableBytes b 2;
     b \<leftarrow> snprintf_store b crlf;
     let b = db_write b 2;
     b \<leftarrow> db_reserveWritableBytes b (length (any_body m));
     b \<leftarrow> db_writeBegin b 0 (any_body m);
     Some (db_write b (length (any_body m))) }"

text \<open>The blocks handed to \<open>output_cb_\<close>: one when it is set, none otherwise.\<close>

definition hp_sendMessage :: "http_protocol \<Rightarrow> any_message \<Rightarrow> bytes list option" where
  "hp_sendMessage p m =
     (if hp_output_cb p then do {
        b \<leftarrow> writeMessage m (db_new 1024 1024);
        out \<leftarrow> db_readBegin b 0 (db_readableBytes b);
        Some [out] }
      else Some [])"

lemma snprintf_write_spec:
  assumes wf: "db_wf b" and fits: "length out < db_writableBytes b" and small: "length out < 2 ^ 31"
  obtains b' where "snprintf_write b out = Some b'" "db_wf b'" "db_data b' = db_data b @ out"
    "length (db_buffer b') = length (db_buffer b)" "db_expand_size b' = db_expand_size b"
    "db_writableBytes b' = db_writableBytes b - length out"
proof -
  let ?w = "db_write_index b" and ?m = "db_buffer b"
  let ?buf = "take ?w ?m @ (take (db_writableBytes b - 1) out @ [0]) @ drop (?w + (length out + 1)) ?m"
  let ?b = "b\<lparr>db_buffer := ?buf, db_write_index := ?w + length out\<rparr>"
  have t: "take (db_writableBytes b - 1) out = out" using fits by simp
  have i: "db_read_index b \<le> ?w" "?w + (length out + 1) \<le> length ?m" "length ?buf = length ?m"
    using wf fits by (auto simp: db_wf_def db_defs)
  have "db_writeBegin b 0 (take (db_writableBytes b - 1) out @ [0]) = Some (b\<lparr>db_buffer := ?buf\<rparr>)"
    using i t by (simp add: db_writeBegin_def mem_write_def)
  then have "snprintf_store b out = Some (b\<lparr>db_buffer := ?buf\<rparr>)"
    using fits by (simp add: snprintf_store_def Let_def)
  moreover have "db_write (b\<lparr>db_buffer := ?buf\<rparr>) (length out) = ?b"
    using i by (simp add: db_write_def db_defs)
  ultimately have "snprintf_write b out = Some ?b"
    using small by (cases "out = []") (simp_all add: snprintf_write_def snprintf_count_def del: append_assoc)
  moreover have "db_wf ?b" using wf i by (auto simp: db_wf_def)
  moreover have "db_data ?b = db_data b @ out"
    using i t by (simp add: db_data_def drop_take)
  moreover have "db_writableBytes ?b = db_writableBytes b - length out"
    using i by (simp add: db_defs)
  ultimately show thesis using i by (intro that [of ?b]) auto
qed

lemma reserve_snprintf_spec:
  assumes wf: "db_wf b" and room: "db_room b (k + m)" and fits: "length out < k" "k \<le> 2 ^ 31"
  obtains b1 b' where "db_reserveWritableBytes b k = Some b1" "snprintf_write b1 out = Some b'"
    "db_wf b'" "db_data b' = db_data b @ out" "db_room b' m"
    "k - length out \<le> db_writableBytes b'"
proof -
  from room have "db_room b k" by (rule db_room_mono) simp
  then obtain b1 where b1: "db_reserveWritableBytes b k = Some b1" "db_wf b1"
      "db_data b1 = db_data b" "k \<le> db_writableBytes b1" "db_expand_size b1 = db_expand_size b"
      "length (db_buffer b1) \<le> max (length (db_buffer b)) (db_readableBytes b + k + db_expand_size b)"
    using db_reserve_spec [OF wf] by metis
  obtain b' where b': "snprintf_write b1 out = Some b'" "db_wf b'" "db_data b' = db_data b1 @ out"
      "length (db_buffer b') = length (db_buffer b1)" "db_expand_size b' = db_expand_size b1"
      "db_writableBytes b' = db_writableBytes b1 - length out"
    using snprintf_write_spec [OF b1(2), of out] fits b1(4) by (metis order_less_le_trans)
  have "db_readableBytes b' = db_readableBytes b + length out"
    using length_db_data [OF b'(2)] length_db_data [OF wf] b'(3) b1(3) by simp
  then have "db_room b' m"
    using room b1 b' fits by (auto simp: db_room_def)
  then show thesis using that b1 b' by simp
qed

text \<open>The bytes of a message on the wire.\<close>

fun start_line :: "any_message \<Rightarrow> bytes" where
  "start_line (Request r) = request_line r"
| "start_line (Response r) = status_line r"

definition message_text :: "any_message \<Rightarrow> bytes" where
  "message_text m =
     start_line m @ concat (List.map header_line (any_headers m)) @ crlf @ any_body m"

text \<open>What the reservations of a message add up to, and a bound on its parts.\<close>

definition headers_reserve :: "header_map \<Rightarrow> nat" where
  "headers_reserve hs = sum_list (List.map (\<lambda>kv. 32 + length (fst kv) + length (snd kv)) hs)"

fun text_arg :: "any_message \<Rightarrow> bytes" where
  "text_arg (Request r) = hq_uri r"
| "text_arg (Response r) = hs_reason r"

definition message_reserve :: "any_message \<Rightarrow> nat" where
  "message_reserve m =
     64 + length (text_arg m) + headers_reserve (any_headers m) + 3 + length (any_body m)"

lemma length_cstr: "length (cstr s) \<le> length s"
  by (simp add: cstr_def length_takeWhile_le)

lemma length_names: "length (MethodEnumToStr v) \<le> 7" "length (VersionEnumToStr w) \<le> 8"
  by (cases v; simp add: MethodEnumToStr_def str_def) (cases w; simp add: VersionEnumToStr_def str_def)

lemma length_dec_int:
  assumes "- (2 ^ 31) \<le> i" "i < 2 ^ 31"
  shows "length (dec_int i) \<le> 11"
proof -
  have "nat (- i) < 10 ^ 10" "nat i < 10 ^ 10" using assms by simp_all
  then have "length (dec_nat (nat (- i))) \<le> 10" "length (dec_nat (nat i)) \<le> 10"
    by (simp_all add: length_dec_nat)
  then show ?thesis by (simp add: dec_int_def)
qed

text \<open>An \<open>int\<close> status code; lengths for which no \<open>snprintf\<close> count overflows.\<close>

fun sendable :: "any_message \<Rightarrow> bool" where
  "sendable (Request r) \<longleftrightarrow> message_reserve (Request r) \<le> 2 ^ 31"
| "sendable (Response r) \<longleftrightarrow> message_reserve (Response r) \<le> 2 ^ 31 \<and>
     - (2 ^ 31) \<le> hs_status_code r \<and> hs_status_code r < 2 ^ 31"

lemma start_line_length: "sendable m \<Longrightarrow> length (start_line m) + 3 \<le> 64 + length (text_arg m)"
proof (cases m)
  case (Request r)
  then show ?thesis
    using length_cstr [of "hq_uri r"] length_cstr [of "MethodEnumToStr (hq_method r)"]
      length_cstr [of "VersionEnumToStr (hm_version r)"] length_names(1) [of "hq_method r"] length_names(2) [of "hm_version r"]
    by (simp add: request_line_def str_def crlf_def)
next
  case (Response r)
  moreover assume "sendable m"
  ultimately show ?thesis
    using length_cstr [of "hs_reason r"] length_dec_int [of "hs_status_code r"]
      length_cstr [of "VersionEnumToStr (hm_version r)"] length_names(2) [of "hm_version r"]
    by (simp add: status_line_def str_def crlf_def)
qed

lemma header_line_length: "length (header_line kv) + 3 \<le> 32 + length (fst kv) + length (snd kv)"
  using length_cstr [of "fst kv"] length_cstr [of "snd kv"] by (simp add: header_line_def str_def crlf_def)

lemma writeStartLine_spec:
  assumes "db_wf b" "db_room b (64 + length (text_arg m) + n)" "sendable m"
  obtains b' where "writeStartLine m b = Some b'" "db_wf b'" "db_data b' = db_data b @ start_line m"
    "db_room b' n" "3 \<le> db_writableBytes b'"
proof -
  have k: "64 + length (text_arg m) \<le> 2 ^ 31"
    using assms(3) by (cases m) (auto simp: message_reserve_def)
  have l: "length (start_line m) < 64 + length (text_arg m)"
    using start_line_length [OF assms(3)] by linarith
  obtain b1 b' where "db_reserveWritableBytes b (64 + length (text_arg m)) = Some b1"
      "snprintf_write b1 (start_line m) = Some b'" "db_wf b'" "db_data b' = db_data b @ start_line m"
      "db_room b' n" "64 + length (text_arg m) - length (start_line m) \<le> db_writableBytes b'"
    using reserve_snprintf_spec [OF assms(1,2) l k] by blast
  then show thesis
    using start_line_length [OF assms(3)] by (intro that [of b']) (cases m; simp)+
qed

lemma writeHeaders_spec:
  assumes "db_wf b" "db_room b (headers_reserve hs + n)" "headers_reserve hs \<le> 2 ^ 31"
    "3 \<le> db_writableBytes b"
  shows "\<exists>b'. writeHeaders hs b = Some b' \<and> db_wf b' \<and>
    db_data b' = db_data b @ concat (List.map header_line hs) \<and> db_room b' n \<and> 3 \<le> db_writableBytes b'"
  using assms
proof (induction hs arbitrary: b)
  case (Cons kv hs)
  let ?k = "32 + length (fst kv) + length (snd kv)"
  have r: "db_room b (?k + (headers_reserve hs + n))" "?k \<le> 2 ^ 31" "headers_reserve hs \<le> 2 ^ 31"
    using Cons.prems by (simp_all add: headers_reserve_def add.assoc)
  have l: "length (header_line kv) < ?k" "3 \<le> ?k - length (header_line kv)"
    using header_line_length [of kv] by linarith+
  obtain b1 b' where "db_reserveWritableBytes b ?k = Some b1"
      "snprintf_write b1 (header_line kv) = Some b'" "db_wf b'" "db_data b' = db_data b @ header_line kv"
      "db_room b' (headers_reserve hs + n)" "?k - length (header_line kv) \<le> db_writableBytes b'"
    using reserve_snprintf_spec [OF Cons.prems(1) r(1) l(1) r(2)] by metis
  then show ?case
    using Cons.IH [of b'] r(3) l(2) by simp
qed (simp add: headers_reserve_def)

lemma writeMessage_spec:
  assumes wf: "db_wf b" and room: "db_room b (message_reserve m + n)" and s: "sendable m"
  obtains b' where "writeMessage m b = Some b'" "db_wf b'" "db_data b' = db_data b @ message_text m"
    "db_room b' n"
proof -
  let ?h = "headers_reserve (any_headers m)" and ?body = "any_body m"
  have "db_room b (64 + length (text_arg m) + (?h + (3 + length ?body + n)))"
    using room by (simp add: message_reserve_def ac_simps)
  then obtain b1 where b1: "writeStartLine m b = Some b1" "db_wf b1" "db_data b1 = db_data b @ start_line m"
      "db_room b1 (?h + (3 + length ?body + n))" "3 \<le> db_writableBytes b1"
    using writeStartLine_spec [OF wf _ s] by metis
  have "?h \<le> 2 ^ 31" using s by (cases m) (auto simp: message_reserve_def)
  then obtain b2 where b2: "writeHeaders (any_headers m) b1 = Some b2" "db_wf b2"
      "db_data b2 = db_data b1 @ concat (List.map header_line (any_headers m))"
      "db_room b2 (3 + length ?body + n)" "3 \<le> db_writableBytes b2"
    using writeHeaders_spec [OF b1(2,4) _ b1(5)] by blast
  have "db_room b2 (3 + (length ?body + n))" using b2(4) by (simp add: ac_simps)
  then obtain b3 where b3: "snprintf_write b2 crlf = Some b3" "db_wf b3" "db_data b3 = db_data b2 @ crlf"
      "db_room b3 (length ?body + n)"
    using reserve_snprintf_spec [OF b2(2), of 3 "length ?body + n" crlf] b2(5)
    by (auto simp: crlf_def db_reserveWritableBytes_def)
  obtain b4 where b4: "db_append b3 ?body = Some b4" "db_wf b4" "db_data b4 = db_data b3 @ ?body" "db_room b4 n"
    using db.append_law [OF b3(2,4)] by blast
  have "db_reserveWritableBytes b2 2 = Some b2"
    using b2(5) by (simp add: db_reserveWritableBytes_def)
  moreover have "do { b \<leftarrow> snprintf_store b2 crlf; Some (db_write b 2) } = Some b3"
    using b3(1) by (simp add: snprintf_write_def snprintf_count_def crlf_def)
  ultimately have "writeMessage m b = Some b4"
    using b1(1) b2(1) b4(1) by (auto simp: writeMessage_def db_append_def bind_eq_Some_conv)
  then show thesis
    using b1 b2 b3 b4 by (intro that [of b4]) (simp_all add: message_text_def)
qed

section \<open>Parsing what was written\<close>

lemma db_readBegin_all: "db_wf b \<Longrightarrow> db_readBegin b 0 (db_readableBytes b) = Some (db_data b)"
  by (simp add: db_readBegin_data length_db_data [symmetric])

lemma find_str_search: "0 \<notin> set k \<Longrightarrow> k \<noteq> [] \<Longrightarrow> find_str s k = search s k"
proof -
  assume k: "0 \<notin> set k" "k \<noteq> []"
  then have "cstr k = k" by (auto simp: cstr_def takeWhile_eq_all_conv)
  moreover have "n \<noteq> length s" if "search s k = Some n" for n
    using search_progress [OF that k(2)] by simp
  ultimately show ?thesis using k(2) by (auto simp: find_str_def split: option.splits)
qed

lemma split_three:
  assumes "c \<notin> set a" "c \<notin> set b" "c \<noteq> 0"
  shows "split_mem (a @ [c] @ b @ [c] @ r) [c] 3 = [a, b, r]"
proof -
  have s: "search (a @ [c] @ b @ [c] @ r) [c] = Some (length a)" "search (b @ [c] @ r) [c] = Some (length b)"
    using search_after [of c a "[]"] search_after [of c b "[]"] assms by simp_all
  have "split_loop [c] 3 2 r = [r]" by (simp add: split_loop.simps)
  moreover have "split_loop [c] 3 1 (b @ [c] @ r) = b # split_loop [c] 3 2 r"
    using s(2) by (subst split_loop.simps) simp
  moreover have "split_loop [c] 3 0 (a @ [c] @ b @ [c] @ r) = a # split_loop [c] 3 1 (b @ [c] @ r)"
    using s(1) by (subst split_loop.simps) simp
  moreover have "0 \<notin> set [c]" using assms(3) by simp
  ultimately show ?thesis by (simp add: split_mem_no_nul split_bytes_def)
qed

text \<open>A message with other headers and another body.\<close>

fun any_with :: "any_message \<Rightarrow> header_map \<Rightarrow> bytes \<Rightarrow> any_message" where
  "any_with (Request r) hs body = Request (r\<lparr>hm_headers := hs, hm_body := body\<rparr>)"
| "any_with (Response r) hs body = Response (r\<lparr>hm_headers := hs, hm_body := body\<rparr>)"

text \<open>
  The messages whose text determines them: a known version and method, a positive status
  code, and no character in a field that the syntax uses as a delimiter.
\<close>

definition header_text_ok :: "bytes \<times> bytes \<Rightarrow> bool" where
  "header_text_ok kv \<longleftrightarrow> {0, 13, 58} \<inter> set (fst kv) = {} \<and> {0, 13} \<inter> set (snd kv) = {} \<and>
     trim (fst kv) default_ws = fst kv \<and> trim (snd kv) default_ws = snd kv"

fun start_line_ok :: "any_message \<Rightarrow> bool" where
  "start_line_ok (Request r) \<longleftrightarrow> hm_type r = T_REQUEST \<and> hm_version r \<noteq> V_UNKNOWN \<and> hq_method r \<noteq> M_UNKNOWN \<and>
     {0, 13, 32} \<inter> set (hq_uri r) = {}"
| "start_line_ok (Response r) \<longleftrightarrow> hm_type r = T_RESPONSE \<and> hm_version r \<noteq> V_UNKNOWN \<and>
     0 < hs_status_code r \<and> hs_status_code r < 2 ^ 31 \<and> {0, 13} \<inter> set (hs_reason r) = {}"

definition message_ok :: "any_message \<Rightarrow> bool" where
  "message_ok m \<longleftrightarrow> start_line_ok m \<and> om_sorted ci_less (any_headers m) \<and>
     list_all header_text_ok (any_headers m)"

lemma cstr_id: "0 \<notin> set s \<Longrightarrow> cstr s = s"
  by (auto simp: cstr_def takeWhile_eq_all_conv)

lemma name_chars:
  "set (MethodEnumToStr v) \<inter> {0, 13, 32} = {}" "set (VersionEnumToStr w) \<inter> {0, 13, 32} = {}"
  by (cases v; simp add: MethodEnumToStr_def str_def) (cases w; simp add: VersionEnumToStr_def str_def)

lemma dec_nat_chars: "set (dec_nat n) \<inter> {0, 13, 32} = {}"
  using dec_nat_spec [of n] by (auto simp: is_digit_def word_le_nat_alt)

lemma cstr_names [simp]:
  "cstr (MethodEnumToStr v) = MethodEnumToStr v" "cstr (VersionEnumToStr w) = VersionEnumToStr w"
  using name_chars by (auto intro!: cstr_id)

lemma start_line_parse:
  assumes "start_line_ok m"
  obtains l where "start_line m = l @ crlf" "13 \<notin> set l"
    "start_line_message (split_mem l (str '' '') 3) = Some (any_with m [] [])"
proof (cases m)
  case (Request r)
  define l where "l = MethodEnumToStr (hq_method r) @ [32] @ hq_uri r @ [32] @ VersionEnumToStr (hm_version r)"
  have u: "32 \<notin> set (hq_uri r)" "0 \<notin> set (hq_uri r)" "13 \<notin> set (hq_uri r)" using assms Request by auto
  have "start_line m = l @ crlf" using u(2) Request by (simp add: request_line_def l_def str_def cstr_id)
  moreover have "13 \<notin> set l" using u(3) name_chars by (auto simp: l_def)
  moreover have "split_mem l [32] 3 =
      [MethodEnumToStr (hq_method r), hq_uri r, VersionEnumToStr (hm_version r)]"
    unfolding l_def using u(1) name_chars by (intro split_three) auto
  then have "start_line_message (split_mem l (str '' '') 3) = Some (any_with m [] [])"
    using assms Request
    by (cases "hq_method r") (auto simp: start_line_message_def http_names str_def MethodEnumToStr_def
        setVersion_def setRequestUri_def setMethod_def http_request_new_def Let_def
        MethodStrToEnum_def)
  ultimately show thesis using that by blast
next
  case (Response r)
  define l where "l = VersionEnumToStr (hm_version r) @ [32] @ dec_nat (nat (hs_status_code r)) @ [32] @ hs_reason r"
  have u: "0 \<notin> set (hs_reason r)" "13 \<notin> set (hs_reason r)" using assms Response by auto
  have "start_line m = l @ crlf"
    using u(1) Response assms by (simp add: status_line_def l_def str_def cstr_id dec_int_def)
  moreover have "13 \<notin> set l" using u(2) name_chars dec_nat_chars by (auto simp: l_def)
  moreover have "split_mem l [32] 3 =
      [VersionEnumToStr (hm_version r), dec_nat (nat (hs_status_code r)), hs_reason r]"
    unfolding l_def using dec_nat_chars name_chars by (intro split_three) auto
  moreover have "take 4 (VersionEnumToStr (hm_version r)) = str ''HTTP''" "4 \<le> length (VersionEnumToStr (hm_version r))"
    using assms Response by (cases "hm_version r"; simp add: VersionEnumToStr_def str_def)+
  moreover have "atoi (dec_nat (nat (hs_status_code r))) = hs_status_code r"
    using assms Response by (subst atoi_dec) auto
  ultimately have "start_line_message (split_mem l (str '' '') 3) = Some (any_with m [] [])"
    using assms Response
    by (auto simp: start_line_message_def http_names str_def setVersion_def setStatusCode_def
        setReasonPhrase_def http_response_new_def Let_def)
  with \<open>start_line m = l @ crlf\<close> \<open>13 \<notin> set l\<close> show thesis using that by blast
qed

text \<open>The header block.\<close>

definition header_text :: "bytes \<times> bytes \<Rightarrow> bytes" where
  "header_text kv = fst kv @ str '': '' @ snd kv"

lemma header_line_text: "header_text_ok kv \<Longrightarrow> header_line kv = header_text kv @ crlf"
  by (simp add: header_line_def header_text_def header_text_ok_def cstr_id)

lemma header_text_chars: "header_text_ok kv \<Longrightarrow> 13 \<notin> set (header_text kv) \<and> header_text kv \<noteq> []"
  by (auto simp: header_text_def header_text_ok_def str_def)

lemma header_block:
  "hs \<noteq> [] \<Longrightarrow> list_all header_text_ok hs \<Longrightarrow>
     concat (List.map header_line hs) = join crlf (List.map header_text hs) @ crlf"
proof (induction hs)
  case (Cons kv hs)
  then show ?case
    by (cases "hs = []") (simp_all add: header_line_text join_Cons)
qed simp

lemma om_set_end: "\<forall>x \<in> set m. ci_less (fst x) k \<Longrightarrow> om_set ci_less k v m = m @ [(k, v)]"
  by (induction m) (auto dest: ci.asym)

lemma any_setHeader_with: "any_setHeader (any_with m hs body) k v = any_with m (om_set ci_less k v hs) body"
  by (cases m) (simp_all add: setHeader_def)

lemma trim_blank: "trim (32 # v) default_ws = trim v default_ws"
  by (simp add: trim_def ltrim_dropWhile default_ws_def)

lemma header_lines_parse:
  "om_sorted ci_less (acc @ hs) \<Longrightarrow> list_all header_text_ok hs \<Longrightarrow>
     header_lines (List.map header_text hs) (any_with m acc []) = (True, any_with m (acc @ hs) [])"
proof (induction hs arbitrary: acc)
  case (Cons kv hs)
  obtain k v where kv: "kv = (k, v)" by (cases kv)
  have ok: "58 \<notin> set k" "0 \<notin> set v" "trim k default_ws = k" "trim v default_ws = v"
    using Cons.prems(2) by (auto simp: kv header_text_ok_def)
  have "search (k @ [58] @ 32 # v) [58] = Some (length k)"
    using ok(1) search_after [of 58 k "[]" "32 # v"] by simp
  then have "find_str (header_text kv) (str '':'') = Some (length k)"
    by (simp add: find_str_search kv header_text_def str_def)
  moreover have "drop (length k + 1) (header_text kv) = 32 # v" "take (length k) (header_text kv) = k"
    by (simp_all add: kv header_text_def str_def)
  moreover have "cstr (32 # v) = 32 # v" using ok(2) by (intro cstr_id) auto
  moreover have "\<forall>x \<in> set acc. ci_less (fst x) k"
    using Cons.prems(1) by (auto simp: om_sorted_def sorted_wrt_append kv)
  ultimately have "header_lines (List.map header_text (kv # hs)) (any_with m acc []) =
      header_lines (List.map header_text hs) (any_with m (acc @ [kv]) [])"
    using ok by (simp add: trim_blank any_setHeader_with om_set_end kv)
  with Cons show ?case by simp
qed simp

section \<open>The parser on a written message\<close>

lemma sz_sub_small: "b \<le> a \<Longrightarrow> a < 2 ^ 64 \<Longrightarrow> sz_sub a b = a - b"
proof -
  assume "b \<le> a" "a < 2 ^ 64"
  moreover from this have "a + 2 ^ 64 - b = a - b + 2 ^ 64" by simp
  ultimately show ?thesis unfolding sz_sub_def by (simp only: mod_add_self2) simp
qed

lemma readStartLine_parse:
  assumes "db_wf b" "db_data b = start_line m @ t" "start_line_ok m"
    "length (start_line m) \<le> hp_start_line_max_size p" "hp_start_line_max_size p < 2 ^ 64"
  shows "readStartLine p b =
    Some (1, p\<lparr>hp_message := Some (any_with m [] []), hp_status := READING_HEADER\<rparr>,
      db_read b (length (start_line m)))"
proof -
  obtain l where l: "start_line m = l @ crlf" "13 \<notin> set l"
      "start_line_message (split_mem l (str '' '') 3) = Some (any_with m [] [])"
    using start_line_parse [OF assms(3)] by blast
  have "search (l @ crlf @ t) crlf = Some (length l)"
    using search_after [OF l(2), of "[10]" t] by (simp add: crlf_def)
  then have "find_str (db_data b) crlf = Some (length l)"
    using assms(2) l(1) by (simp add: find_str_search crlf_def)
  moreover have "length l \<le> sz_sub (hp_start_line_max_size p) 2"
    using assms(4,5) l(1) by (simp add: sz_sub_small crlf_def)
  moreover have "take (length l) (db_data b) = l" using assms(2) l(1) by simp
  moreover have "length (start_line m) = length l + 2" using l(1) by (simp add: crlf_def)
  ultimately show ?thesis
    using l(3) db_readBegin_all [OF assms(1)] by (simp add: readStartLine_def)
qed

lemma readHeader_parse:
  assumes b: "db_wf b" "db_data b = concat (List.map header_line (any_headers m)) @ crlf @ t"
    and m: "message_ok m" "any_headers m \<noteq> []"
    and p: "hp_status p = READING_HEADER" "hp_message p = Some (any_with m [] [])"
    and fits: "length (concat (List.map header_line (any_headers m))) + 2 \<le> hp_header_max_size p"
      "hp_header_max_size p < 2 ^ 64"
  shows "readHeader p b =
    Some (1, p\<lparr>hp_message := Some (any_with m (any_headers m) []), hp_status := READING_BODY\<rparr>,
      db_read b (length (concat (List.map header_line (any_headers m))) + 2))"
proof -
  let ?ls = "List.map header_text (any_headers m)"
  let ?j = "join crlf ?ls" and ?h = "concat (List.map header_line (any_headers m))"
  have ok: "list_all header_text_ok (any_headers m)" "om_sorted ci_less (any_headers m)"
    using m(1) by (simp_all add: message_ok_def)
  have blk: "concat (List.map header_line (any_headers m)) = ?j @ crlf"
    using header_block [OF m(2) ok(1)] .
  have ls: "?ls \<noteq> []" "\<forall>l \<in> set ?ls. 13 \<notin> set l \<and> l \<noteq> []"
    using m(2) ok(1) header_text_chars by (auto simp: list_all_iff)
  have d: "db_data b = ?j @ crlf @ crlf @ t" using b(2) blk by simp
  have s: "find_str (db_data b) (crlf @ crlf) = Some (length ?j)"
    using search_crlf2 [OF ls] d by (simp add: find_str_search crlf_def)
  obtain x xs where x: "?j = x # xs" "x \<noteq> 13"
  proof -
    obtain l l' where "?ls = l # l'" using ls(1) by (cases ?ls) auto
    moreover from this obtain x xs where "l = x # xs" "x \<noteq> 13" using ls(2) by (cases l) auto
    ultimately show thesis using that by (cases l') auto
  qed
  have sp: "split_mem ?j crlf (-1) = ?ls"
    using split_mem_lines [of ?ls 13 "[10]"] ls by (auto simp: crlf_def)
  have hl: "header_lines ?ls (any_with m [] []) = (True, any_with m (any_headers m) [])"
    using header_lines_parse [of "[]"] ok by simp
  have "\<not> db_readableBytes b < 2" "take 2 (db_data b) \<noteq> crlf"
    using length_db_data [OF b(1)] d x by (auto simp: crlf_def numeral_2_eq_2)
  moreover have "length ?j \<le> sz_sub (hp_header_max_size p) 4" "length ?h + 2 = length ?j + 4"
    using fits blk by (simp_all add: sz_sub_small crlf_def)
  moreover have "take (length ?j) (db_data b) = ?j" using d by simp
  moreover have "db_read b (length ?h + 2) = db_read b (length ?j + 4)"
    unfolding blk by (rule arg_cong) (simp add: crlf_def)
  ultimately show ?thesis
    using s sp hl p db_readBegin_all [OF b(1)]
    by (simp only:) (simp add: readHeader_def Let_def)
qed

text \<open>The header the receiver takes the length of the body from.\<close>

definition has_length :: "any_message \<Rightarrow> bool" where
  "has_length m \<longleftrightarrow> any_hasHeader m (str ''Content-Length'') \<and>
     any_getHeader m (str ''Content-Length'') = dec_nat (length (any_body m))"

lemma any_with_same [simp]:
  "any_with m (any_headers m) (any_body m) = m" "any_body (any_with m hs body) = body"
  "any_getHeader (any_with m (any_headers m) body) k = any_getHeader m k"
  "any_hasHeader (any_with m (any_headers m) body) k = any_hasHeader m k"
  "any_setBody (any_with m hs body) body' = any_with m hs body'"
  by (cases m; simp add: hasHeader_def getHeader_def setBody_def)+

lemma has_length_headers: "has_length m \<Longrightarrow> any_headers m \<noteq> []"
  by (cases m) (auto simp: has_length_def hasHeader_def)

lemma readBody_parse:
  assumes "db_wf b" "db_data b = any_body m @ t" "has_length m"
    "hp_message p = Some (any_with m (any_headers m) [])"
    "length (any_body m) \<le> hp_body_max_size p" "length (any_body m) < 2 ^ 31"
  shows "\<exists>b'. readBody p b = Some (1, p\<lparr>hp_message := Some m, hp_status := FINISHED\<rparr>, b') \<and>
    db_wf b' \<and> db_data b' = t"
proof -
  let ?n = "length (any_body m)"
  have "atoi (any_getHeader m (str ''Content-Length'')) = int ?n"
    using assms(3,6) by (simp add: has_length_def atoi_dec)
  then have r: "readBody p b = (if ?n = 0 then Some (1, p\<lparr>hp_status := FINISHED\<rparr>, b)
      else case db_readBegin b 0 ?n of None \<Rightarrow> None | Some d \<Rightarrow>
        Some (1, p\<lparr>hp_message := Some (any_with m (any_headers m) d), hp_status := FINISHED\<rparr>, db_read b ?n))"
    using assms(3,4,5) length_db_data [OF assms(1)] assms(2)
    by (simp add: readBody_def readBody_length_def has_length_def Let_def split: option.split)
  show ?thesis
  proof (cases "?n = 0")
    case True
    then have "any_with m (any_headers m) [] = m" by (metis any_with_same(1) length_0_conv)
    then have "p\<lparr>hp_status := FINISHED\<rparr> = p\<lparr>hp_message := Some m, hp_status := FINISHED\<rparr>"
      using assms(4) by (cases p) simp
    with True assms(1,2) r show ?thesis by auto
  next
    case False
    have "db_readBegin b 0 ?n = Some (any_body m)"
      using db_readBegin_data [OF assms(1), of 0 ?n] length_db_data [OF assms(1)] assms(2) by simp
    with False r assms(1,2) show ?thesis by (simp add: db.consume_inv db.consume_data)
  qed
qed

lemma recvMessage_parse:
  assumes p: "hp_status p = READING_START_LINE" "hp_start_line_max_size p < 2 ^ 64" "hp_header_max_size p < 2 ^ 64"
    and m: "message_ok m" "has_length m"
    and fits: "length (start_line m) \<le> hp_start_line_max_size p"
      "length (concat (List.map header_line (any_headers m))) + 2 \<le> hp_header_max_size p"
      "length (any_body m) \<le> hp_body_max_size p" "length (any_body m) < 2 ^ 31"
    and b: "db_wf b" "db_data b = message_text m @ t"
  shows "\<exists>p' b'. hp_recvMessage p b = Some (RET_MESSAGE_READY, p', b') \<and> hp_status p' = FINISHED \<and>
    hp_message p' = Some m \<and> db_wf b' \<and> db_data b' = t"
proof -
  let ?h = "concat (List.map header_line (any_headers m))"
  let ?p1 = "p\<lparr>hp_message := Some (any_with m [] []), hp_status := READING_HEADER\<rparr>"
  let ?b1 = "db_read b (length (start_line m))"
  let ?p2 = "?p1\<lparr>hp_message := Some (any_with m (any_headers m) []), hp_status := READING_BODY\<rparr>"
  let ?b2 = "db_read ?b1 (length ?h + 2)"
  have 1: "readStartLine p b = Some (1, ?p1, ?b1)"
    using b m(1) by (intro readStartLine_parse [OF b(1) _ _ fits(1) p(2)]) (simp_all add: message_text_def message_ok_def)
  have b1: "db_wf ?b1" "db_data ?b1 = ?h @ crlf @ any_body m @ t"
    using b by (simp_all add: db.consume_inv db.consume_data message_text_def)
  have 2: "readHeader ?p1 ?b1 = Some (1, ?p2, ?b2)"
    using m(2) fits(2) p(3) by (intro readHeader_parse [OF b1 m(1)]) (simp_all add: has_length_headers)
  have b2: "db_wf ?b2" "db_data ?b2 = any_body m @ t"
    using b1 by (simp_all add: db.consume_inv db.consume_data crlf_def)
  obtain b3 where 3: "readBody ?p2 ?b2 = Some (1, ?p2\<lparr>hp_message := Some m, hp_status := FINISHED\<rparr>, b3)"
      "db_wf b3" "db_data b3 = t"
    using readBody_parse [OF b2 m(2), of ?p2] fits(3,4) by auto
  have "hp_recvMessage p b = hp_recvMessage ?p1 ?b1"
    using 1 p(1) by (simp add: hp_recvMessage.simps [of p b])
  also have "\<dots> = hp_recvMessage ?p2 ?b2"
    by (subst hp_recvMessage.simps) (use 2 in simp)
  also have "\<dots> = Some (RET_MESSAGE_READY, ?p2\<lparr>hp_message := Some m, hp_status := FINISHED\<rparr>, b3)"
    by (subst hp_recvMessage.simps) (use 3(1) in simp)
  finally show ?thesis using 3(2,3) by simp
qed

text \<open>
  C11 (roundtrip): a message that \<open>writeMessage\<close> puts into a buffer is parsed back, field by
  field, by a parser that is at the start of a message, and exactly its bytes are consumed:
  whatever follows it in the buffer (a pipelined message) stays there. The message carries
  a \<open>Content-Length\<close> header with the length of its body, its fields contain no
  delimiter of the syntax and it respects the limits of the parser.
\<close>

theorem http_message_roundtrip:
  assumes "message_ok m" "has_length m" "sendable m"
    and "db_wf b0" "db_room b0 (message_reserve m)" "db_data b0 = []"
    and "hp_status p = READING_START_LINE" "hp_start_line_max_size p < 2 ^ 64" "hp_header_max_size p < 2 ^ 64"
    and "length (start_line m) \<le> hp_start_line_max_size p"
      "length (concat (List.map header_line (any_headers m))) + 2 \<le> hp_header_max_size p"
      "length (any_body m) \<le> hp_body_max_size p"
  shows "\<exists>b1. writeMessage m b0 = Some b1 \<and>
    (\<forall>b t. db_wf b \<longrightarrow> db_data b = db_data b1 @ t \<longrightarrow>
       (\<exists>p' b'. hp_recvMessage p b = Some (RET_MESSAGE_READY, p', b') \<and> hp_message p' = Some m \<and>
          db_wf b' \<and> db_data b' = t))"
proof -
  have body: "length (any_body m) < 2 ^ 31"
    using assms(3) by (cases m) (simp_all add: message_reserve_def)
  obtain b1 where b1: "writeMessage m b0 = Some b1" "db_data b1 = message_text m"
    using writeMessage_spec [of b0 m 0] assms(3-6) by auto
  have "\<exists>p' b'. hp_recvMessage p b = Some (RET_MESSAGE_READY, p', b') \<and> hp_message p' = Some m \<and>
          db_wf b' \<and> db_data b' = t" if "db_wf b" "db_data b = db_data b1 @ t" for b t
    using recvMessage_parse [OF assms(7-9,1,2,10-12) body that(1)] that(2) b1(2) by auto
  with b1(1) show ?thesis by blast
qed

definition sample_request :: any_message where
  "sample_request = Request \<lparr>hm_type = T_REQUEST, hm_version = HTTP_1_1,
     hm_headers = [(str ''Content-Length'', str ''2''), (str ''Host'', str ''h'')], hm_body = str ''hi'',
     hq_method = M_POST, hq_uri = str ''/a''\<rparr>"

lemma sample_request_facts:
  "message_ok sample_request" "has_length sample_request" "sendable sample_request"
  "message_reserve sample_request \<le> 1024" "length (start_line sample_request) \<le> 64"
  "length (concat (List.map header_line (any_headers sample_request))) \<le> 64"
  "length (any_body sample_request) = 2"
  by (simp_all add: sample_request_def message_ok_def has_length_def message_reserve_def om_sorted_def
      header_text_ok_def trim_def ltrim_dropWhile rtrim_dropWhile default_ws_def str_def
      hasHeader_def getHeader_def ci_less_def upt_rec tolower_def dec_nat.simps headers_reserve_def
      request_line_def header_line_def cstr_def crlf_def MethodEnumToStr_def VersionEnumToStr_def)

theorem http_message_roundtrip_witness:
  "\<exists>b1. writeMessage sample_request (db_new 1024 1024) = Some b1 \<and>
    (\<exists>p' b'. hp_recvMessage hp_new b1 = Some (RET_MESSAGE_READY, p', b') \<and>
       hp_message p' = Some sample_request \<and> db_data b' = [])"
proof -
  have d: "db_wf (db_new 1024 1024)" "db_room (db_new 1024 1024) (message_reserve sample_request)"
    "db_data (db_new 1024 1024) = []"
    using sample_request_facts(4) by (simp_all add: db_wf_new db_data_new db_room_new)
  then obtain b where b: "writeMessage sample_request (db_new 1024 1024) = Some b" "db_wf b"
    using writeMessage_spec [of "db_new 1024 1024" sample_request 0] sample_request_facts(3) by auto
  have p: "hp_status hp_new = READING_START_LINE" "hp_start_line_max_size hp_new = 8192"
    "hp_header_max_size hp_new = 32768" "hp_body_max_size hp_new = 1048576"
    by (simp_all add: hp_new_def hp_impl_new_def hp_setBodyMaxSize_def hp_setHeaderMaxSize_def
        hp_setStartLineMaxSize_def)
  obtain b1 where b1: "writeMessage sample_request (db_new 1024 1024) = Some b1"
      "\<forall>b t. db_wf b \<longrightarrow> db_data b = db_data b1 @ t \<longrightarrow>
       (\<exists>p' b'. hp_recvMessage hp_new b = Some (RET_MESSAGE_READY, p', b') \<and>
          hp_message p' = Some sample_request \<and> db_wf b' \<and> db_data b' = t)"
    using http_message_roundtrip [OF sample_request_facts(1-3) d, of hp_new] p sample_request_facts(5-7)
    by auto
  with b have "db_wf b1" by simp
  with b1(2) have "\<exists>p' b'. hp_recvMessage hp_new b1 = Some (RET_MESSAGE_READY, p', b') \<and>
          hp_message p' = Some sample_request \<and> db_wf b' \<and> db_data b' = []" by simp
  with b1(1) show ?thesis by blast
qed

section \<open>Memory safety and the limits\<close>

text \<open>
  The chunk buffer can take everything the body limit allows; \<open>2 ^ 62\<close> bounds the limits
  for which no size computation wraps around.
\<close>

definition chunk_ok :: "dynamic_buffer \<Rightarrow> bool" where
  "chunk_ok c \<longleftrightarrow> db_wf c \<and> db_readableBytes c \<le> 2 ^ 62 \<and> db_expand_size c \<le> 2 ^ 32 \<and>
     length (db_buffer c) \<le> 2 ^ 62 + db_expand_size c"

definition hp_inv :: "http_protocol \<Rightarrow> bool" where
  "hp_inv p \<longleftrightarrow> hp_body_max_size p \<le> 2 ^ 62 \<and>
     (hp_status p \<notin> {READING_START_LINE, PENDING_ERROR} \<longrightarrow> hp_message p \<noteq> None) \<and>
     (\<forall>m. hp_message p = Some m \<longrightarrow> length (any_body m) \<le> hp_body_max_size p) \<and>
     (\<forall>c. hp_chunk_buffer p = Some c \<longrightarrow> chunk_ok c)"

lemma chunk_ok_new: "chunk_ok (db_new 1024 1024)"
  by (simp add: chunk_ok_def db_wf_new) (simp add: db_new_def db_readableBytes_def)

lemma chunk_ok_clear: "chunk_ok c \<Longrightarrow> chunk_ok (db_clear c)"
  by (auto simp: chunk_ok_def db_wf_def db_clear_def db_readableBytes_def)

lemma chunk_ok_append:
  assumes "chunk_ok c" "db_readableBytes c + length bs \<le> 2 ^ 62"
  obtains c' where "db_append c bs = Some c'" "chunk_ok c'"
    "db_readableBytes c' = db_readableBytes c + length bs" "db_data c' = db_data c @ bs"
proof -
  have wf: "db_wf c" using assms(1) by (simp add: chunk_ok_def)
  have room: "db_room c (length bs)"
    using assms by (auto simp: chunk_ok_def db_room_def max_def)
  obtain c' where c': "db_append c bs = Some c'" "db_wf c'" "db_data c' = db_data c @ bs"
    using db.append_law [OF wf, of bs 0] room by auto
  have "db_readableBytes c' = db_readableBytes c + length bs"
    using length_db_data [OF c'(2)] length_db_data [OF wf] c'(3) by simp
  moreover have "length (db_buffer c') \<le> 2 ^ 62 + db_expand_size c'" "db_expand_size c' = db_expand_size c"
    using db_append_length [OF wf room c'(1)] assms by (auto simp: chunk_ok_def)
  ultimately show thesis
    using c' assms by (intro that [of c']) (simp_all add: chunk_ok_def)
qed

definition consumed :: "dynamic_buffer \<Rightarrow> dynamic_buffer \<Rightarrow> bool" where
  "consumed b b' \<longleftrightarrow> db_wf b' \<and> (\<exists>n. db_data b' = drop n (db_data b))"

lemma consumed_refl: "db_wf b \<Longrightarrow> consumed b b"
  unfolding consumed_def by (metis drop_0)

lemma consumed_read: "db_wf b \<Longrightarrow> consumed b (db_read b n)"
  by (auto simp: consumed_def db.consume_inv db.consume_data)

lemma consumed_trans: "consumed b b' \<Longrightarrow> consumed b' b'' \<Longrightarrow> consumed b b''"
  by (auto simp: consumed_def)

text \<open>One round of the chunk loop, in terms of the contents of the buffers.\<close>

definition chunk_total :: "nat \<Rightarrow> nat \<Rightarrow> nat" where
  "chunk_total pos n = (if n = 0 then pos + 2 else pos + 2 + n + 2)"

lemma chunk_loop_step:
  assumes "db_wf b"
  shows "chunk_loop N b c =
    (case find_str (db_data b) crlf of
       None \<Rightarrow> Some (0, b, c)
     | Some pos \<Rightarrow>
     (case sscanf_x (take pos (db_data b)) of
        None \<Rightarrow> Some (-1, b, c)
      | Some cs \<Rightarrow>
          if unat cs > N then Some (-1, b, c)
          else if db_readableBytes b < chunk_total pos (unat cs) then Some (0, b, c)
          else if unat cs = 0 then Some (1, db_read b (chunk_total pos 0), c)
          else if take 2 (drop (pos + 2 + unat cs) (db_data b)) \<noteq> crlf then Some (-1, b, c)
          else case db_append c (take (unat cs) (drop (pos + 2) (db_data b))) of
            None \<Rightarrow> None
          | Some c' \<Rightarrow> chunk_loop N (db_read b (chunk_total pos (unat cs))) c'))"
proof -
  have l: "length (take pos (db_data b)) = pos" if "find_str (db_data b) crlf = Some pos" for pos
    using that search_Some [of "db_data b" crlf pos] by (auto simp: find_str_search crlf_def)
  show ?thesis
    unfolding chunk_loop.simps [of N b c] Let_def db_readBegin_all [OF assms] option.case
    by (intro option.case_cong refl) (auto simp: l chunk_total_def simp del: length_take cong: option.case_cong)
qed

lemma chunk_loop_safe:
  "db_wf b \<Longrightarrow> chunk_ok c \<Longrightarrow> db_readableBytes c + db_readableBytes b \<le> N \<Longrightarrow> N \<le> 2 ^ 62 \<Longrightarrow>
     \<exists>ret b' c'. chunk_loop N b c = Some (ret, b', c') \<and> ret \<in> {-1, 0, 1} \<and> consumed b b' \<and>
       chunk_ok c' \<and> db_readableBytes c' \<le> N"
proof (induction "db_readableBytes b" arbitrary: b c rule: less_induct)
  case less
  note wf = less.prems(1) and ok = less.prems(2) and fit = less.prems(3) and small = less.prems(4)
  let ?d = "db_data b"
  have stay: "consumed b b \<and> chunk_ok c \<and> db_readableBytes c \<le> N"
    using ok fit consumed_refl [OF wf] by auto
  show ?case
  proof (cases "\<exists>pos cs. find_str ?d crlf = Some pos \<and> sscanf_x (take pos ?d) = Some cs")
    case False
    then show ?thesis
      using stay by (cases "find_str ?d crlf"; cases "sscanf_x (take (the (find_str ?d crlf)) ?d)")
        (simp_all add: chunk_loop_step [OF wf])
  next
    case True
    then obtain pos cs where pc: "find_str ?d crlf = Some pos" "sscanf_x (take pos ?d) = Some cs" by blast
    define n where "n = unat cs"
    let ?tot = "chunk_total pos n" and ?piece = "take n (drop (pos + 2) ?d)"
    note step = chunk_loop_step [OF wf, of N c, unfolded pc option.case, folded n_def]
    consider (stop) "n > N \<or> db_readableBytes b < ?tot \<or> n > 0 \<and> take 2 (drop (pos + 2 + n) ?d) \<noteq> crlf"
      | (fin) "\<not> n > N" "\<not> db_readableBytes b < ?tot" "n = 0"
      | (more) "\<not> n > N" "\<not> db_readableBytes b < ?tot" "n > 0" "take 2 (drop (pos + 2 + n) ?d) = crlf"
      by blast
    then show ?thesis
    proof cases
      case stop
      then have "\<exists>ret. ret \<in> {-1, 0, 1} \<and> chunk_loop N b c = Some (ret, b, c)"
        unfolding step by (cases "n > N"; cases "db_readableBytes b < ?tot") (auto simp del: chunk_loop.simps)
      with stay show ?thesis by (elim exE conjE) (intro exI conjI; assumption)
    next
      case fin
      then have "chunk_loop N b c = Some (1, db_read b ?tot, c)" unfolding step by simp
      then show ?thesis using consumed_read [OF wf, of ?tot] stay
        by (intro exI [of _ 1] exI [of _ "db_read b ?tot"] exI [of _ c]) simp
    next
      case more
      have lp: "length ?piece \<le> n" by simp
      have "n < ?tot" using more(3) by (simp add: chunk_total_def)
      then have piece: "db_readableBytes c + length ?piece \<le> N" "length ?piece \<le> ?tot"
          "?tot \<le> db_readableBytes b" "0 < ?tot"
        using lp more(2) fit by linarith+
      have "db_readableBytes c + length ?piece \<le> 2 ^ 62" using piece(1) small by (rule le_trans)
      then obtain c' where c': "db_append c ?piece = Some c'" "chunk_ok c'"
          "db_readableBytes c' = db_readableBytes c + length ?piece"
        using chunk_ok_append [OF ok, of ?piece] by blast
      have "db_readableBytes c' + db_readableBytes (db_read b ?tot) \<le> N"
        "db_readableBytes (db_read b ?tot) < db_readableBytes b"
        using piece c'(3) fit db_readableBytes_read [of b ?tot] by linarith+
      note ih0 = less.hyps [OF this(2) db.consume_inv [OF wf] c'(2) this(1) small]
      obtain ret b' c'' where ih: "chunk_loop N (db_read b ?tot) c' = Some (ret, b', c'')"
          "ret \<in> {-1, 0, 1}" "consumed (db_read b ?tot) b'" "chunk_ok c''" "db_readableBytes c'' \<le> N"
        using ih0 by (elim exE conjE)
      have "chunk_loop N b c = Some (ret, b', c'')"
        using more c'(1) ih(1) unfolding step by simp
      moreover have "consumed b b'" using consumed_trans [OF consumed_read [OF wf] ih(3)] .
      ultimately show ?thesis using ih(2,4,5)
        by (intro exI [of _ ret] exI [of _ b'] exI [of _ c'']) simp
    qed
  qed
qed

text \<open>What every handler guarantees.\<close>

definition step_ok :: "http_protocol \<Rightarrow> dynamic_buffer \<Rightarrow> handler_result \<Rightarrow> bool" where
  "step_ok p b r \<longleftrightarrow> (\<exists>ret p' b'. r = Some (ret, p', b') \<and> ret \<in> {-1, 0, 1} \<and> hp_inv p' \<and> consumed b b' \<and>
     hp_body_max_size p' = hp_body_max_size p)"

named_theorems step_intros \<open>the outcomes of a handler\<close>

lemma step_ok_Some [step_intros]:
  "ret \<in> {-1, 0, 1} \<Longrightarrow> hp_inv p' \<Longrightarrow> consumed b b' \<Longrightarrow> hp_body_max_size p' = hp_body_max_size p \<Longrightarrow>
     step_ok p b (Some (ret, p', b'))"
  by (auto simp: step_ok_def)

lemma any_body_access [simp]:
  "any_body (any_setHeader m k v) = any_body m" "any_body (any_removeHeader m k) = any_body m"
  "any_body (any_setBody m d) = d"
  by (cases m; simp add: setHeader_def removeHeader_def setBody_def)+

lemma start_line_message_body: "start_line_message parts = Some m \<Longrightarrow> any_body m = []"
  by (auto simp: start_line_message_def Let_def setReasonPhrase_def setStatusCode_def setVersion_def
      setRequestUri_def setMethod_def http_request_new_def http_response_new_def split: if_splits)

lemma header_lines_body: "any_body (snd (header_lines hs m)) = any_body m"
  by (induction hs m rule: header_lines.induct) (auto split: option.splits)

lemma chunked_message_body: "any_body (chunked_message m body) = body"
  by (simp add: chunked_message_def)

lemma readStartLine_ok:
  assumes "hp_inv p" "db_wf b"
  shows "step_ok p b (readStartLine p b)"
proof -
  have "hp_inv (p\<lparr>hp_message := Some m, hp_status := READING_HEADER\<rparr>)" if "any_body m = []" for m
    using assms(1) that by (auto simp: hp_inv_def)
  then show ?thesis
    using assms consumed_refl consumed_read
    by (auto simp: readStartLine_def db_readBegin_all start_line_message_body
        split: option.splits intro!: step_intros)
qed

lemma readHeader_ok:
  assumes "hp_inv p" "db_wf b" "hp_status p \<in> {READING_HEADER, READING_TRAILER_HEADER}"
  shows "step_ok p b (readHeader p b)"
proof -
  obtain m where m: "hp_message p = Some m" using assms(1,3) by (auto simp: hp_inv_def)
  have "hp_inv (p\<lparr>hp_message := Some m', hp_status := s\<rparr>) \<and> hp_inv (p\<lparr>hp_message := Some m'\<rparr>)"
    if "any_body m' = any_body m" for m' s
    using assms(1) that m by (auto simp: hp_inv_def)
  moreover have "hp_inv (p\<lparr>hp_status := FINISHED\<rparr>)"
    using assms(1) m by (auto simp: hp_inv_def)
  ultimately show ?thesis
    using assms m consumed_refl consumed_read
    by (auto simp: readHeader_def db_readBegin_all header_lines_body Let_def
        split: option.splits intro!: step_intros)
qed

lemma readBody_length_ok:
  assumes "hp_inv p" "db_wf b" "hp_message p = Some m"
  shows "step_ok p b (readBody_length p m b)"
proof -
  have "hp_inv (p\<lparr>hp_message := Some (any_setBody m d), hp_status := FINISHED\<rparr>)"
    if "length d \<le> hp_body_max_size p" for d
    using assms(1) that by (auto simp: hp_inv_def)
  moreover have "hp_inv (p\<lparr>hp_status := FINISHED\<rparr>)"
    using assms(1,3) by (auto simp: hp_inv_def)
  ultimately show ?thesis
    using assms consumed_refl consumed_read db_readBegin_data [OF assms(2), of 0]
    by (auto simp: readBody_length_def Let_def intro!: step_intros)
qed

lemma readBody_chunked_ok:
  assumes "hp_inv p" "db_wf b" "hp_message p = Some m"
  shows "step_ok p b (readBody_chunked p m b)"
proof -
  define c where "c = (case hp_chunk_buffer p of None \<Rightarrow> db_new 1024 1024 | Some c \<Rightarrow> c)"
  have c: "chunk_ok c"
    using assms(1) chunk_ok_new by (auto simp: c_def hp_inv_def split: option.splits)
  have inv: "hp_inv (p\<lparr>hp_chunk_buffer := Some c'\<rparr>)" if "chunk_ok c'" for c'
    using assms(1) that by (auto simp: hp_inv_def)
  show ?thesis
  proof (cases "db_readableBytes c + db_readableBytes b > hp_body_max_size p")
    case True
    then show ?thesis
      using inv [OF c] consumed_refl [OF assms(2)]
      by (auto simp: readBody_chunked_def Let_def c_def [symmetric] intro!: step_intros)
  next
    case False
    have "hp_body_max_size p \<le> 2 ^ 62" using assms(1) by (simp add: hp_inv_def)
    with False obtain ret b' c' where l: "chunk_loop (hp_body_max_size p) b c = Some (ret, b', c')"
        "ret \<in> {-1, 0, 1}" "consumed b b'" "chunk_ok c'" "db_readableBytes c' \<le> hp_body_max_size p"
      using chunk_loop_safe [OF assms(2) c] by (metis not_le)
    have wf: "db_wf c'" using l(4) by (simp add: chunk_ok_def)
    have "hp_inv (p\<lparr>hp_chunk_buffer := Some c', hp_message := Some (chunked_message m (db_data c')),
                     hp_status := READING_TRAILER_HEADER\<rparr>)"
      using assms(1) l(4,5) length_db_data [OF wf] by (auto simp: hp_inv_def chunked_message_body)
    with l inv [OF l(4)] False db_readBegin_all [OF wf] show ?thesis
      by (auto simp: readBody_chunked_def Let_def c_def [symmetric] intro!: step_intros)
  qed
qed

lemma handler_ok:
  assumes "hp_inv p" "db_wf b" "status_handler (hp_status p) = Some f"
  shows "step_ok p b (f p b)"
proof (cases "hp_status p")
  case READING_BODY
  with assms obtain m where m: "hp_message p = Some m" by (auto simp: hp_inv_def)
  have "step_ok p b (readBody p b)"
    using m assms readBody_length_ok [OF _ _ m] readBody_chunked_ok [OF _ _ m] consumed_refl
    by (auto simp: readBody_def intro!: step_intros)
  with READING_BODY assms(3) show ?thesis by auto
qed (use assms readStartLine_ok readHeader_ok in auto)

lemma hp_recvMessage_ok:
  "hp_inv p \<Longrightarrow> db_wf b \<Longrightarrow> \<exists>ret p' b'. hp_recvMessage p b = Some (ret, p', b') \<and> hp_inv p' \<and> consumed b b' \<and>
     hp_body_max_size p' = hp_body_max_size p \<and>
     (ret = RET_MESSAGE_READY \<longrightarrow> hp_status p' = FINISHED) \<and>
     (ret = RET_ERROR \<longrightarrow> hp_status p' \<in> {FINISHED, PENDING_ERROR}) \<and>
     (ret = RET_WAITING_MORE_DATA \<longrightarrow> hp_status p' \<notin> {FINISHED, PENDING_ERROR})"
proof (induction p b rule: hp_recvMessage.induct)
  case (1 p b)
  show ?case
  proof (cases "status_handler (hp_status p)")
    case None
    then have "hp_status p \<in> {FINISHED, PENDING_ERROR}" by (cases "hp_status p") auto
    with None "1.prems" show ?thesis
      by (subst hp_recvMessage.simps) (auto simp: consumed_refl)
  next
    case (Some f)
    obtain ret p' b' where r: "f p b = Some (ret, p', b')" "ret \<in> {-1, 0, 1}" "hp_inv p'" "consumed b b'"
        "hp_body_max_size p' = hp_body_max_size p"
      using handler_ok [OF "1.prems" Some] by (auto simp: step_ok_def)
    have wait: "hp_status p' \<notin> {FINISHED, PENDING_ERROR}" if "ret = 0"
      using Some r(1) that
      by (cases "hp_status p")
         (auto simp: readStartLine_def readHeader_def readBody_def readBody_length_def readBody_chunked_def Let_def
           split: handler_splits)
    have err: "hp_inv (p'\<lparr>hp_status := PENDING_ERROR\<rparr>)" using r(3) by (simp add: hp_inv_def)
    consider "ret = 0 \<or> ret = -1 \<or> hp_status p' = FINISHED" | "ret = 1" "hp_status p' \<noteq> FINISHED"
      using r(2) by auto
    then show ?thesis
    proof cases
      case 1
      with Some r wait err show ?thesis by (subst hp_recvMessage.simps) auto
    next
      case 2
      have "db_wf b'" using r(4) by (simp add: consumed_def)
      with "1.IH" [OF Some r(1) refl refl _ _ 2(2) 2(1)] 2 r(3)
      obtain ret' q c where q: "hp_recvMessage p' b' = Some (ret', q, c)" "hp_inv q" "consumed b' c"
          "hp_body_max_size q = hp_body_max_size p'"
          "(ret' = RET_MESSAGE_READY \<longrightarrow> hp_status q = FINISHED) \<and>
           (ret' = RET_ERROR \<longrightarrow> hp_status q \<in> {FINISHED, PENDING_ERROR}) \<and>
           (ret' = RET_WAITING_MORE_DATA \<longrightarrow> hp_status q \<notin> {FINISHED, PENDING_ERROR})"
        by auto
      have "hp_recvMessage p b = hp_recvMessage p' b'"
        using Some r(1) 2 by (subst hp_recvMessage.simps) simp
      with q r(5) consumed_trans [OF r(4) q(3)] show ?thesis by simp
    qed
  qed
qed

section \<open>Properties of the parser\<close>

text \<open>
  C12 (safety): whatever bytes arrive, \<open>recvMessage\<close> returns, touches no memory outside its
  buffers and never uses a null message; it consumes a prefix of the input and keeps the
  invariant of the parser. A message that is delivered has a body within the limit; after an
  error the parser is in one of the two states that only \<open>reset\<close> and the retrieval of the
  message leave.
\<close>

theorem hp_recvMessage_safe:
  assumes "hp_inv p" "db_wf b"
  shows "\<exists>ret p' b' n. hp_recvMessage p b = Some (ret, p', b') \<and> hp_inv p' \<and> db_wf b' \<and>
     db_data b' = drop n (db_data b) \<and>
     (ret = RET_MESSAGE_READY \<longrightarrow> (\<exists>m. hp_status p' = FINISHED \<and> hp_message p' = Some m \<and>
        length (any_body m) \<le> hp_body_max_size p)) \<and>
     (ret = RET_ERROR \<longrightarrow> hp_status p' \<in> {FINISHED, PENDING_ERROR})"
proof -
  obtain ret p' b' where r: "hp_recvMessage p b = Some (ret, p', b')" "hp_inv p'" "consumed b b'"
      "hp_body_max_size p' = hp_body_max_size p" "ret = RET_MESSAGE_READY \<longrightarrow> hp_status p' = FINISHED"
      "ret = RET_ERROR \<longrightarrow> hp_status p' \<in> {FINISHED, PENDING_ERROR}"
    using hp_recvMessage_ok [OF assms] by blast
  have "\<exists>m. hp_message p' = Some m \<and> length (any_body m) \<le> hp_body_max_size p" if "hp_status p' = FINISHED"
    using r(2,4) that by (auto simp: hp_inv_def)
  with r show ?thesis by (auto simp: consumed_def)
qed

lemma hp_inv_new: "hp_inv hp_new"
  by (simp add: hp_inv_def hp_new_def hp_impl_new_def hp_setBodyMaxSize_def hp_setHeaderMaxSize_def
      hp_setStartLineMaxSize_def)

theorem hp_recvMessage_safe_witness:
  "\<exists>ret p' b'. hp_recvMessage hp_new (db_new 16 16) = Some (ret, p', b') \<and> hp_inv p' \<and> db_wf b'"
  using hp_recvMessage_safe [OF hp_inv_new db_wf_new, of 16 16] by blast

lemma recvMessage_no_length:
  assumes "message_ok m" "any_headers m \<noteq> []"
    and "\<not> any_hasHeader m (str ''Content-Length'')"
    and "\<not> any_headerContain m (str ''Transfer-Encoding'') (str ''chunked'')"
    and "hp_status p = READING_START_LINE" "hp_start_line_max_size p < 2 ^ 64" "hp_header_max_size p < 2 ^ 64"
    and "length (start_line m) \<le> hp_start_line_max_size p"
      "length (concat (List.map header_line (any_headers m))) + 2 \<le> hp_header_max_size p"
    and "db_wf b" "db_data b = message_text m @ t"
  shows "\<exists>p' b'. hp_recvMessage p b = Some (RET_ERROR, p', b') \<and> hp_status p' = PENDING_ERROR \<and>
    db_data b' = any_body m @ t"
proof -
  let ?h = "concat (List.map header_line (any_headers m))"
  let ?p1 = "p\<lparr>hp_message := Some (any_with m [] []), hp_status := READING_HEADER\<rparr>"
  let ?b1 = "db_read b (length (start_line m))"
  let ?p2 = "?p1\<lparr>hp_message := Some (any_with m (any_headers m) []), hp_status := READING_BODY\<rparr>"
  let ?b2 = "db_read ?b1 (length ?h + 2)"
  have 1: "readStartLine p b = Some (1, ?p1, ?b1)"
    using assms by (intro readStartLine_parse [OF assms(10) _ _ assms(8,6)]) (simp_all add: message_text_def message_ok_def)
  have b1: "db_wf ?b1" "db_data ?b1 = ?h @ crlf @ any_body m @ t"
    using assms by (simp_all add: db.consume_inv db.consume_data message_text_def)
  have 2: "readHeader ?p1 ?b1 = Some (1, ?p2, ?b2)"
    using assms by (intro readHeader_parse [OF b1 assms(1,2)]) simp_all
  have "any_headerContain (any_with m (any_headers m) []) k v = any_headerContain m k v" for k v
    by (cases m) (simp_all add: headerContain_def getHeader_def)
  then have 3: "readBody ?p2 ?b2 = Some (-1, ?p2, ?b2)"
    using assms(3,4) by (simp add: readBody_def)
  have "hp_recvMessage p b = hp_recvMessage ?p1 ?b1"
    using 1 assms(5) by (simp add: hp_recvMessage.simps [of p b])
  also have "\<dots> = hp_recvMessage ?p2 ?b2"
    by (subst hp_recvMessage.simps) (use 2 in simp)
  also have "\<dots> = Some (RET_ERROR, ?p2\<lparr>hp_status := PENDING_ERROR\<rparr>, ?b2)"
    by (subst hp_recvMessage.simps) (use 3 in simp)
  finally show ?thesis
    using b1 by (simp add: db.consume_inv db.consume_data crlf_def)
qed

text \<open>
  Once the first header block has been read, a message that has headers but
  neither a \<open>Content-Length\<close> header nor a chunked \<open>Transfer-Encoding\<close> is an error, even for
  a request, which in HTTP/1.1 then has no body. So \<open>GET\<close> requests with headers,
  among them the opening handshake that \<open>WebSocketProtocol::Impl::startAsClient\<close> writes, are
  refused by this parser.
\<close>

lemma http_no_length_is_error:
  assumes "message_ok m" "any_headers m \<noteq> []"
    and "\<not> any_hasHeader m (str ''Content-Length'')"
    and "\<not> any_headerContain m (str ''Transfer-Encoding'') (str ''chunked'')"
    and "hp_status p = READING_START_LINE" "hp_start_line_max_size p < 2 ^ 64" "hp_header_max_size p < 2 ^ 64"
    and "length (start_line m) \<le> hp_start_line_max_size p"
      "length (concat (List.map header_line (any_headers m))) + 2 \<le> hp_header_max_size p"
    and "db_wf b" "db_data b = message_text m @ t"
  shows "\<exists>p' b'. hp_recvMessage p b = Some (RET_ERROR, p', b') \<and> hp_status p' = PENDING_ERROR \<and>
    db_data b' = any_body m @ t"
  using assms by (rule recvMessage_no_length)

definition sample_get :: any_message where
  "sample_get = Request \<lparr>hm_type = T_REQUEST, hm_version = HTTP_1_1, hm_headers = [(str ''Host'', str ''h'')],
     hm_body = [], hq_method = M_GET, hq_uri = str ''/''\<rparr>"

lemma sample_get_facts:
  "message_ok sample_get" "sendable sample_get" "any_headers sample_get \<noteq> []"
  "\<not> any_hasHeader sample_get (str ''Content-Length'')"
  "\<not> any_headerContain sample_get (str ''Transfer-Encoding'') (str ''chunked'')"
  "message_reserve sample_get \<le> 1024" "length (start_line sample_get) \<le> 64"
  "length (concat (List.map header_line (any_headers sample_get))) \<le> 64"
  by (simp_all add: sample_get_def message_ok_def message_reserve_def om_sorted_def
      header_text_ok_def trim_def ltrim_dropWhile rtrim_dropWhile default_ws_def str_def
      hasHeader_def getHeader_def ci_less_def upt_rec tolower_def headers_reserve_def headerContain_def toLower_def
      request_line_def header_line_def cstr_def crlf_def MethodEnumToStr_def VersionEnumToStr_def)

text \<open>
  A finished parser holds its message until it is retrieved: further
  \<open>recvMessage\<close> calls report an error and change nothing, the retrieval for the other kind of
  message fails and changes nothing, and the right one hands the message over and starts
  the parser afresh, keeping the limits and the callback.
\<close>

lemma http_retrieve:
  assumes "hp_status p = FINISHED" "hp_message p = Some (Request r)"
  shows "hp_recvMessage p b = Some (RET_ERROR, p, b) \<and>
    retrieveResponse p s = (False, p, s) \<and>
    retrieveRequest p q = (True, hp_reset p, r) \<and>
    hp_status (hp_reset p) = READING_START_LINE \<and> hp_message (hp_reset p) = None \<and>
    hp_body_max_size (hp_reset p) = hp_body_max_size p \<and> hp_output_cb (hp_reset p) = hp_output_cb p \<and>
    retrieveRequest (hp_reset p) q' = (False, hp_reset p, q')"
  using assms
  by (subst hp_recvMessage.simps)
     (auto simp: retrieveRequest_def retrieveResponse_def hp_reset_def)

end
