(* ===== verification/Codec.thy ===== *)
theory Codec
  imports Prelude
begin

text \<open>
  What the text codecs promise: the decoder inverts the encoder. The locale is interpreted for
  \<open>base64.cc\<close> (theory \<open>Base64\<close>) and \<open>url.cc\<close> (theory \<open>Url\<close>). Both codecs write into
  a block of the caller and return \<open>-1\<close> when it is too small; the model returns the written
  bytes, or \<open>None\<close> for \<open>-1\<close>.
\<close>

text \<open>
  The string wrappers of both codecs: \<open>count\<close> is an \<open>int\<close>, a count that is not positive
  gives the empty string, otherwise the first \<open>count\<close> bytes of the block.
\<close>

definition counted :: "bytes option \<Rightarrow> bytes" where
  "counted r =
     (case r of
        None \<Rightarrow> []
      | Some out \<Rightarrow>
          let count = to_int32 (length out)
          in if count \<le> 0 then [] else take (nat count) out)"

lemma counted_small: "length out < 2 ^ 31 \<Longrightarrow> counted (Some out) = out"
  by (auto simp: counted_def to_int32_small)

lemma counted_None [simp]: "counted None = []"
  by (simp add: counted_def)

locale text_codec =
  fixes enc :: "bytes \<Rightarrow> nat \<Rightarrow> bytes option"
    and dec :: "bytes \<Rightarrow> nat \<Rightarrow> bytes option"
    and enc_space :: "nat \<Rightarrow> nat"
  assumes enc_fits: "enc_space (length x) \<le> n \<Longrightarrow> \<exists>y. enc x n = Some y"
    and enc_bound: "enc x n = Some y \<Longrightarrow> length y \<le> n \<and> length x \<le> length y"
    and dec_enc: "enc x n = Some y \<Longrightarrow> length x \<le> m \<Longrightarrow> dec y m = Some x"
begin

lemma enc_inj: "enc x n = Some y \<Longrightarrow> enc x' n' = Some y \<Longrightarrow> x = x'"
  using dec_enc [of x n y "max (length x) (length x')"] dec_enc [of x' n' y "max (length x) (length x')"] by simp

lemma round_trip:
  assumes "enc_space (length x) < 2 ^ 31" and "\<And>y. enc x (enc_space (length x)) = Some y \<Longrightarrow> length x \<le> f y"
  shows "counted (dec (counted (enc x (enc_space (length x)))) (f (counted (enc x (enc_space (length x)))))) = x"
proof -
  obtain y where y: "enc x (enc_space (length x)) = Some y" using enc_fits by blast
  then have l: "length y < 2 ^ 31" "length x \<le> length y" using enc_bound [OF y] assms(1) by simp_all
  then have "counted (enc x (enc_space (length x))) = y" by (simp add: y counted_small)
  moreover have "dec y (f y) = Some x" using dec_enc [OF y] assms(2) [OF y] .
  moreover have "length x < 2 ^ 31" using l by simp
  ultimately show ?thesis by (simp add: counted_small)
qed

end

end
