(* ===== verification/Base64.thy ===== *)
theory Base64
  imports Codec
begin

text \<open>
  Model of \<open>src/brickred/codec/base64.cc\<close>: the two tables, the group encoder and decoder and
  the string wrappers. A \<open>char\<close> is signed, so bytes from 128 on are below the range check
  of the decoder.
\<close>

section \<open>Tables\<close>

definition s_encode_table :: bytes where
  "s_encode_table = str ''ABCDEFGHIJKLMNOPQRSTUVWXYZabcdefghijklmnopqrstuvwxyz0123456789+/''"

definition s_decode_table :: "int list" where
  "s_decode_table =
    [62, -1, -1, -1, 63, 52, 53, 54, 55, 56,
     57, 58, 59, 60, 61, -1, -1, -1, -2, -1,
     -1, -1,  0,  1,  2,  3,  4,  5,  6,  7,
      8,  9, 10, 11, 12, 13, 14, 15, 16, 17,
     18, 19, 20, 21, 22, 23, 24, 25, -1, -1,
     -1, -1, -1, -1, 26, 27, 28, 29, 30, 31,
     32, 33, 34, 35, 36, 37, 38, 39, 40, 41,
     42, 43, 44, 45, 46, 47, 48, 49, 50, 51]"

section \<open>Encoding\<close>

definition encode_group :: "byte \<Rightarrow> byte \<Rightarrow> byte \<Rightarrow> nat \<Rightarrow> bytes" where
  "encode_group b0 b1 b2 b_len =
     [s_encode_table ! unat (drop_bit 2 b0),
      s_encode_table ! unat (push_bit 4 (b0 AND 0x03) OR drop_bit 4 (b1 AND 0xf0)),
      (if b_len > 1 then s_encode_table ! unat (push_bit 2 (b1 AND 0x0f) OR drop_bit 6 (b2 AND 0xc0)) else 61),
      (if b_len > 2 then s_encode_table ! unat (b2 AND 0x3f) else 61)]"

fun base64Encode :: "bytes \<Rightarrow> nat \<Rightarrow> bytes option" where
  "base64Encode [] out_size = Some []"
| "base64Encode [x] out_size = (if out_size < 4 then None else Some (encode_group x 0 0 1))"
| "base64Encode [x, y] out_size = (if out_size < 4 then None else Some (encode_group x y 0 2))"
| "base64Encode (x # y # z # xs) out_size =
     (if out_size < 4 then None
      else map_option (\<lambda>out. encode_group x y z 3 @ out) (base64Encode xs (out_size - 4)))"

definition base64Encode_str :: "bytes \<Rightarrow> bytes" where
  "base64Encode_str s =
     (if s = [] then [] else counted (base64Encode s ((length s + 2) div 3 * 4)))"

section \<open>Decoding\<close>

text \<open>
  The sextets of one group of four characters; fewer than four mean padding. \<open>lst\<close> says
  that the group is the last one.
\<close>

fun decode_group :: "bool \<Rightarrow> bytes \<Rightarrow> byte list option" where
  "decode_group lst [] = Some []"
| "decode_group lst (c # cs) =
     (if c = 61 then (if list_all (\<lambda>c2. c2 = 61) cs \<and> lst then Some [] else None)
      else if sint c < 43 \<or> sint c > 122 then None
      else let v = s_decode_table ! nat (sint c - 43)
           in if v < 0 then None else map_option (Cons (word_of_int v)) (decode_group lst cs))"

definition group_bytes :: "byte list \<Rightarrow> bytes" where
  "group_bytes ss =
     (let b = (\<lambda>i. if i < length ss then ss ! i else 0); b_len = length ss
      in [push_bit 2 (b 0) OR drop_bit 4 (b 1)] @
         (if b_len > 2 then [push_bit 4 (b 1) OR drop_bit 2 (b 2)] else []) @
         (if b_len > 3 then [push_bit 6 (b 2) OR b 3] else []))"

fun base64Decode :: "bytes \<Rightarrow> nat \<Rightarrow> bytes option" where
  "base64Decode [] out_size = Some []"
| "base64Decode (c0 # c1 # c2 # c3 # cs) out_size =
     (case decode_group (cs = []) [c0, c1, c2, c3] of
        None \<Rightarrow> None
      | Some ss \<Rightarrow>
          let b_len = length ss
          in if b_len < 2 then None
             else if b_len = 2 \<and> ss ! 1 AND 0x0f \<noteq> 0 then None
             else if b_len = 3 \<and> ss ! 2 AND 0x03 \<noteq> 0 then None
             else if out_size < b_len - 1 then None
             else map_option (\<lambda>out. group_bytes ss @ out) (base64Decode cs (out_size - (b_len - 1))))"
| "base64Decode _ out_size = None"

definition base64Decode_str :: "bytes \<Rightarrow> bytes" where
  "base64Decode_str s =
     (if s = [] then [] else if length s mod 4 \<noteq> 0 then []
      else counted (base64Decode s (length s div 4 * 3)))"

section \<open>Table facts\<close>

lemma all_below_64: "(\<forall>k < 64. P k) = list_all P [0..<64]" for P :: "nat \<Rightarrow> bool"
  by (auto simp: list_all_iff)

definition sextet_ok :: "nat \<Rightarrow> bool" where
  "sextet_ok k \<longleftrightarrow> (let c = s_encode_table ! k in c \<noteq> 61 \<and> 43 \<le> sint c \<and> sint c \<le> 122 \<and>
     s_decode_table ! nat (sint c - 43) = int k)"

lemma sextets_ok: "list_all sextet_ok [0..<64]"
  by code_simp

text \<open>The four sextets of three bytes.\<close>

definition sx0 :: "byte \<Rightarrow> byte" where "sx0 x = drop_bit 2 x"
definition sx1 :: "byte \<Rightarrow> byte \<Rightarrow> byte" where "sx1 x y = push_bit 4 (x AND 0x03) OR drop_bit 4 (y AND 0xf0)"
definition sx2 :: "byte \<Rightarrow> byte \<Rightarrow> byte" where "sx2 y z = push_bit 2 (y AND 0x0f) OR drop_bit 6 (z AND 0xc0)"
definition sx3 :: "byte \<Rightarrow> byte" where "sx3 z = z AND 0x3f"

named_theorems sextet_defs \<open>the sextets of a group\<close>
lemmas sextet_all_defs [sextet_defs] = sx0_def sx1_def sx2_def sx3_def

lemma byte_bits: "n < 8 \<Longrightarrow> n \<in> {0, 1, 2, 3, 4, 5, 6, 7}" for n :: nat
  by auto

lemma encode_group_sextets:
  "encode_group x y z b_len =
     [s_encode_table ! unat (sx0 x), s_encode_table ! unat (sx1 x y),
      (if b_len > 1 then s_encode_table ! unat (sx2 y z) else 61),
      (if b_len > 2 then s_encode_table ! unat (sx3 z) else 61)]"
  unfolding encode_group_def sextet_defs by (rule refl)

lemma join_sextets:
  "push_bit 2 (sx0 x) OR drop_bit 4 (sx1 x y) = x"
  "push_bit 4 (sx1 x y) OR drop_bit 2 (sx2 y z) = y"
  "push_bit 6 (sx2 y z) OR sx3 z = z"
  unfolding sextet_defs
  by (rule bit_word_eqI;
      auto dest!: byte_bits simp: bit_simps numeral_2_eq_2 [symmetric] numeral_3_eq_3 [symmetric])+

lemma unat_sextet: "take_bit 6 w = w \<Longrightarrow> unat w < 64" for w :: byte
proof -
  assume "take_bit 6 w = w"
  then have "unat w = take_bit 6 (unat w)" by (metis unsigned_take_bit_eq)
  then show ?thesis using take_bit_nat_less_exp [of 6 "unat w"] by simp
qed

lemma sextet_range:
  "take_bit 6 (sx0 x) = sx0 x" "take_bit 6 (sx1 x y) = sx1 x y" "take_bit 6 (sx2 y z) = sx2 y z" "take_bit 6 (sx3 z) = sx3 z"
  unfolding sextet_defs
  by (rule bit_word_eqI; auto dest!: byte_bits simp: bit_simps dest: bit_imp_le_length)+

lemma decode_sextet:
  assumes "take_bit 6 w = w"
  shows "decode_group lst (s_encode_table ! unat w # cs) = map_option (Cons w) (decode_group lst cs)"
proof -
  have "sextet_ok (unat w)" using sextets_ok unat_sextet [OF assms] by (auto simp: list_all_iff)
  then show ?thesis by (auto simp: sextet_ok_def Let_def)
qed

lemma decode_encode_group:
  "decode_group lst (encode_group x y z 3) = Some [sx0 x, sx1 x y, sx2 y z, sx3 z]"
  "decode_group True (encode_group x y z 2) = Some [sx0 x, sx1 x y, sx2 y z]"
  "decode_group True (encode_group x y z 1) = Some [sx0 x, sx1 x y]"
  unfolding encode_group_sextets
  by (simp_all add: decode_sextet sextet_range del: decode_group.simps(2)) simp_all

lemma pad_bits: "sx1 x 0 AND 0x0f = 0" "sx2 y 0 AND 0x03 = 0"
  unfolding sextet_defs
  by (rule bit_word_eqI; auto dest!: byte_bits simp: bit_simps)+

lemma group_bytes_sextets:
  "group_bytes [sx0 x, sx1 x y, sx2 y z, sx3 z] = [x, y, z]"
  "group_bytes [sx0 x, sx1 x y, sx2 y z] = [x, y]"
  "group_bytes [sx0 x, sx1 x y] = [x]"
  by (simp_all add: group_bytes_def join_sextets)

lemma length_encode_group [simp]: "length (encode_group x y z n) = 4"
  by (simp add: encode_group_def)

lemma base64Decode_step:
  "length g = 4 \<Longrightarrow> base64Decode (g @ r) m =
     (case decode_group (r = []) g of
        None \<Rightarrow> None
      | Some ss \<Rightarrow>
          if length ss < 2 then None
          else if length ss = 2 \<and> ss ! 1 AND 0x0f \<noteq> 0 then None
          else if length ss = 3 \<and> ss ! 2 AND 0x03 \<noteq> 0 then None
          else if m < length ss - 1 then None
          else map_option (\<lambda>out. group_bytes ss @ out) (base64Decode r (m - (length ss - 1))))"
  by (auto simp: length_Suc_conv numeral_eq_Suc Let_def simp del: decode_group.simps cong: option.case_cong)

lemma base64Encode_length: "base64Encode x n = Some y \<Longrightarrow> length y = (length x + 2) div 3 * 4 \<and> length y \<le> n"
proof (induction x n arbitrary: y rule: base64Encode.induct)
  case (4 x1 x2 x3 xs n)
  then obtain r where r: "base64Encode xs (n - 4) = Some r" "\<not> n < 4" "y = encode_group x1 x2 x3 3 @ r"
    by (auto split: if_splits)
  have "(length (x1 # x2 # x3 # xs) + 2) div 3 = Suc ((length xs + 2) div 3)" by simp
  moreover have "length r = (length xs + 2) div 3 * 4" "length r \<le> n - 4" using 4 r by simp_all
  ultimately show ?case using r(2,3) by (simp only: length_append length_encode_group mult_Suc) auto
qed (auto split: if_splits)

lemma base64_dec_enc: "base64Encode x n = Some y \<Longrightarrow> length x \<le> m \<Longrightarrow> base64Decode y m = Some x"
proof (induction x n arbitrary: y m rule: base64Encode.induct)
  case (2 x n)
  then have "y = encode_group x 0 0 1 @ []" by (auto split: if_splits)
  with 2 show ?case
    using decode_encode_group(3) [of x 0 0]
    by (simp only: base64Decode_step length_encode_group) (simp add: pad_bits group_bytes_sextets)
next
  case (3 x1 x2 n)
  then have "y = encode_group x1 x2 0 2 @ []" by (auto split: if_splits)
  with 3 show ?case
    using decode_encode_group(2) [of x1 x2 0]
    by (simp only: base64Decode_step length_encode_group) (simp add: pad_bits group_bytes_sextets)
next
  case (4 x1 x2 x3 xs n)
  then obtain r where r: "base64Encode xs (n - 4) = Some r" "y = encode_group x1 x2 x3 3 @ r" "\<not> n < 4"
    by (auto split: if_splits)
  with 4 have "base64Decode r (m - 3) = Some xs" by simp
  then show ?case
    using 4(3) r(2) decode_encode_group(1) [of "r = []" x1 x2 x3]
    by (simp only: base64Decode_step length_encode_group) (simp add: group_bytes_sextets numeral_3_eq_3 [symmetric])
qed simp

lemma base64_enc_fits: "(length x + 2) div 3 * 4 \<le> n \<Longrightarrow> \<exists>y. base64Encode x n = Some y"
proof (induction x n rule: base64Encode.induct)
  case (4 x1 x2 x3 xs n)
  have "(length (x1 # x2 # x3 # xs) + 2) div 3 = Suc ((length xs + 2) div 3)" by simp
  with 4 show ?case by (auto simp del: length_Cons)
qed auto

interpretation b64: text_codec base64Encode base64Decode "\<lambda>k. (k + 2) div 3 * 4"
proof
  fix x :: bytes and n y m
  show "base64Encode x n = Some y \<Longrightarrow> length y \<le> n \<and> length x \<le> length y"
    using base64Encode_length [of x n y] by auto
qed (use base64_enc_fits base64_dec_enc in auto)

section \<open>The canonical form\<close>

definition inverse_ok :: "nat \<Rightarrow> bool" where
  "inverse_ok k \<longleftrightarrow> (let v = s_decode_table ! k in
     v < 0 \<or> v < 64 \<and> s_encode_table ! nat v = of_nat (k + 43))"

lemma inverses_ok: "list_all inverse_ok [0..<80]"
  by code_simp

lemma decode_inverse:
  assumes "43 \<le> sint c" "sint c \<le> 122" "0 \<le> s_decode_table ! nat (sint c - 43)"
  defines "v \<equiv> word_of_int (s_decode_table ! nat (sint c - 43)) :: byte"
  shows "s_encode_table ! unat v = c" "take_bit 6 v = v"
proof -
  let ?k = "nat (sint c - 43)"
  have "?k < 80" using assms by simp
  then have "inverse_ok ?k" using inverses_ok by (simp add: list_all_iff)
  then have k: "s_decode_table ! ?k < 64" "s_encode_table ! nat (s_decode_table ! ?k) = of_nat (?k + 43)"
    using assms(3) by (auto simp: inverse_ok_def Let_def)
  have "uint v = s_decode_table ! ?k"
    using k(1) assms(3) by (simp add: v_def uint_word_of_int)
  moreover have "of_nat (?k + 43) = c"
  proof -
    have "int (?k + 43) = sint c" using assms(1) by simp
    then have "of_nat (?k + 43) = (word_of_int (sint c) :: byte)" by (metis of_int_of_nat_eq)
    then show ?thesis by simp
  qed
  ultimately show "s_encode_table ! unat v = c" using k(2) by (simp flip: nat_uint_eq)
  have "uint (take_bit 6 v) = uint v"
    using \<open>uint v = s_decode_table ! ?k\<close> k(1) assms(3) by (simp add: unsigned_take_bit_eq take_bit_int_eq_self)
  then show "take_bit 6 v = v" by (simp add: word_uint_eq_iff)
qed

lemma decode_group_chars:
  "decode_group lst cs = Some ss \<Longrightarrow>
     cs = List.map (\<lambda>s. s_encode_table ! unat s) ss @ replicate (length cs - length ss) 61 \<and>
     (\<forall>s \<in> set ss. take_bit 6 s = s) \<and> length ss \<le> length cs \<and> (length ss < length cs \<longrightarrow> lst)"
proof (induction cs arbitrary: ss)
  case (Cons c cs)
  show ?case
  proof (cases "c = 61")
    case True
    with Cons.prems have "ss = []" "lst" "\<forall>c \<in> set cs. c = 61"
      by (auto simp: list_all_iff split: if_splits)
    with True show ?thesis by (auto simp: replicate_length_same)
  next
    case False
    let ?v = "s_decode_table ! nat (sint c - 43)"
    have c: "43 \<le> sint c" "sint c \<le> 122" "0 \<le> ?v"
      using Cons.prems False by (auto simp: Let_def split: if_splits)
    then obtain ts where ts: "decode_group lst cs = Some ts" "ss = word_of_int ?v # ts"
      using Cons.prems False by (auto simp: Let_def)
    show ?thesis using Cons.IH [OF ts(1)] ts(2) decode_inverse [OF c] by auto
  qed
qed simp

lemma sextet_high:
  assumes "take_bit 6 w = w"
  shows "\<not> bit w 6" "\<not> bit w 7"
proof -
  have "bit (take_bit 6 w) 6 = False" "bit (take_bit 6 w) 7 = False" by (simp_all add: bit_take_bit_iff)
  with assms show "\<not> bit w 6" "\<not> bit w 7" by simp_all
qed

lemma low_zero:
  fixes w :: byte
  shows "w AND 0x0f = 0 \<Longrightarrow> \<not> bit w 0 \<and> \<not> bit w 1 \<and> \<not> bit w 2 \<and> \<not> bit w 3"
    and "w AND 0x03 = 0 \<Longrightarrow> \<not> bit w 0 \<and> \<not> bit w 1"
proof -
  have b: "\<not> (bit w k \<and> bit m k)" if "w AND m = 0" for m :: byte and k
    using that by (metis bit_0_eq bit_and_iff bot_apply bot_bool_def)
  show "w AND 0x0f = 0 \<Longrightarrow> \<not> bit w 0 \<and> \<not> bit w 1 \<and> \<not> bit w 2 \<and> \<not> bit w 3"
    using b [of "0x0f" 0] b [of "0x0f" 1] b [of "0x0f" 2] b [of "0x0f" 3] by simp
  show "w AND 0x03 = 0 \<Longrightarrow> \<not> bit w 0 \<and> \<not> bit w 1"
    using b [of "0x03" 0] b [of "0x03" 1] by simp
qed

lemma split_sextets:
  assumes "take_bit 6 a = a" "take_bit 6 b = b" "take_bit 6 c = c" "take_bit 6 d = d"
  shows "sx0 (push_bit 2 a OR drop_bit 4 b) = a"
    "sx1 (push_bit 2 a OR drop_bit 4 b) (push_bit 4 b OR drop_bit 2 c) = b"
    "sx2 (push_bit 4 b OR drop_bit 2 c) (push_bit 6 c OR d) = c"
    "sx3 (push_bit 6 c OR d) = d"
    "b AND 0x0f = 0 \<Longrightarrow> sx1 (push_bit 2 a OR drop_bit 4 b) 0 = b"
    "c AND 0x03 = 0 \<Longrightarrow> sx2 (push_bit 4 b OR drop_bit 2 c) 0 = c"
proof -
  note high = sextet_high [OF assms(1)] sextet_high [OF assms(2)] sextet_high [OF assms(3)] sextet_high [OF assms(4)]
  note bits = bit_simps numeral_2_eq_2 [symmetric] numeral_3_eq_3 [symmetric]
  show "sx0 (push_bit 2 a OR drop_bit 4 b) = a"
    unfolding sextet_defs using high by (intro bit_word_eqI) (auto dest!: byte_bits simp: bits dest: bit_imp_le_length)
  show "sx1 (push_bit 2 a OR drop_bit 4 b) (push_bit 4 b OR drop_bit 2 c) = b"
    unfolding sextet_defs using high by (intro bit_word_eqI) (auto dest!: byte_bits simp: bits dest: bit_imp_le_length)
  show "sx2 (push_bit 4 b OR drop_bit 2 c) (push_bit 6 c OR d) = c"
    unfolding sextet_defs using high by (intro bit_word_eqI) (auto dest!: byte_bits simp: bits dest: bit_imp_le_length)
  show "sx3 (push_bit 6 c OR d) = d"
    unfolding sextet_defs using high by (intro bit_word_eqI) (auto dest!: byte_bits simp: bits dest: bit_imp_le_length)
  show "b AND 0x0f = 0 \<Longrightarrow> sx1 (push_bit 2 a OR drop_bit 4 b) 0 = b"
    unfolding sextet_defs using high
    by (intro bit_word_eqI) (auto dest!: byte_bits low_zero simp: bits dest: bit_imp_le_length)
  show "c AND 0x03 = 0 \<Longrightarrow> sx2 (push_bit 4 b OR drop_bit 2 c) 0 = c"
    unfolding sextet_defs using high
    by (intro bit_word_eqI) (auto dest!: byte_bits low_zero simp: bits dest: bit_imp_le_length)
qed

lemma base64_canonical: "base64Decode y m = Some x \<Longrightarrow> length y \<le> n \<Longrightarrow> base64Encode x n = Some y"
proof (induction y m arbitrary: x n rule: base64Decode.induct)
  case (2 c0 c1 c2 c3 cs m)
  obtain ss where ss: "decode_group (cs = []) [c0, c1, c2, c3] = Some ss"
    using "2.prems"(1) by (auto simp del: decode_group.simps split: option.splits)
  obtain out where o: "base64Decode cs (m - (length ss - 1)) = Some out" "x = group_bytes ss @ out"
    and l: "2 \<le> length ss" "length ss = 2 \<Longrightarrow> ss ! 1 AND 0x0f = 0" "length ss = 3 \<Longrightarrow> ss ! 2 AND 0x03 = 0"
      "length ss - 1 \<le> m"
    using "2.prems"(1) ss by (auto simp: Let_def not_less simp del: decode_group.simps split: if_splits)
  note ch = decode_group_chars [OF ss]
  then have "length ss \<le> 4" by simp
  with l(1) consider "length ss = 2" | "length ss = 3" | "length ss = 4" by linarith
  then show ?case
  proof cases
    case 1
    then obtain a b where ab: "ss = [a, b]" by (auto simp: length_Suc_conv numeral_eq_Suc)
    have "cs = []" using ch 1 by simp
    moreover have "[c0, c1, c2, c3] = [s_encode_table ! unat a, s_encode_table ! unat b, 61, 61]"
      using ch by (simp add: ab numeral_2_eq_2)
    moreover have "x = [push_bit 2 a OR drop_bit 4 b]" using o ab \<open>cs = []\<close> by (simp add: group_bytes_def)
    ultimately show ?thesis
      using ch l(2) "2.prems"(2) split_sextets [of a b 0 0]
      by (simp add: ab encode_group_sextets)
  next
    case 2
    then obtain a b c where abc: "ss = [a, b, c]" by (auto simp: length_Suc_conv numeral_eq_Suc)
    have "cs = []" using ch 2 by simp
    moreover have "[c0, c1, c2, c3] = [s_encode_table ! unat a, s_encode_table ! unat b, s_encode_table ! unat c, 61]"
      using ch by (simp add: abc)
    moreover have "x = [push_bit 2 a OR drop_bit 4 b, push_bit 4 b OR drop_bit 2 c]"
      using o abc \<open>cs = []\<close> by (simp add: group_bytes_def)
    ultimately show ?thesis
      using ch l(3) "2.prems"(2) split_sextets [of a b c 0]
      by (simp add: abc encode_group_sextets)
  next
    case 3
    then obtain a b c d where abcd: "ss = [a, b, c, d]" by (auto simp: length_Suc_conv numeral_eq_Suc)
    have "[c0, c1, c2, c3] = encode_group (push_bit 2 a OR drop_bit 4 b) (push_bit 4 b OR drop_bit 2 c) (push_bit 6 c OR d) 3"
      using ch split_sextets [of a b c d] by (simp add: abcd encode_group_sextets)
    moreover have "x = (push_bit 2 a OR drop_bit 4 b) # (push_bit 4 b OR drop_bit 2 c) # (push_bit 6 c OR d) # out"
      using o abcd by (simp add: group_bytes_def)
    moreover have "base64Encode out (n - 4) = Some cs"
      using "2.IH" [OF ss refl] l o "2.prems"(2) 3 by auto
    ultimately show ?thesis using "2.prems"(2) by simp
  qed
qed auto


section \<open>Properties\<close>

text \<open>
  C25 (roundtrip): encoding and decoding give every string of up to \<open>2 ^ 29\<close> bytes back, and
  the encoded text is of the length the encoder reserves.
\<close>

theorem base64_roundtrip:
  assumes "length s \<le> 2 ^ 29"
  shows "base64Decode_str (base64Encode_str s) = s \<and>
    length (base64Encode_str s) = (length s + 2) div 3 * 4"
proof (cases "s = []")
  case True
  then show ?thesis by (simp add: base64Decode_str_def base64Encode_str_def)
next
  case False
  let ?n = "(length s + 2) div 3 * 4"
  obtain y where y: "base64Encode s ?n = Some y" using base64_enc_fits by blast
  have l: "length y = ?n" using base64Encode_length [OF y] by simp
  have n: "?n < 2 ^ 31" "length s \<le> ?n div 4 * 3" "?n mod 4 = 0" "0 < ?n"
    using assms False by (cases s; simp add: div_greater_zero_iff)+
  have e: "base64Encode_str s = y" using False y l n by (simp add: base64Encode_str_def counted_small)
  have "base64Decode_str y = counted (base64Decode y (length y div 4 * 3))"
    using l n(3,4) by (auto simp: base64Decode_str_def)
  also have "\<dots> = s"
    using b64.round_trip [of s "\<lambda>y. length y div 4 * 3"] n l y base64Encode_length False
    by (simp add: e [symmetric] base64Encode_str_def)
  finally show ?thesis using e l by simp
qed

theorem base64_roundtrip_witness:
  "base64Decode_str (base64Encode_str [77, 97]) = [77, 97] \<and> base64Encode_str [77, 97] = str ''TWE=''"
  using base64_roundtrip [of "[77, 97]"]
  by (simp add: base64Encode_str_def counted_small encode_group_def s_encode_table_def str_def)

text \<open>
  The decoder accepts only canonical base64: a text it decodes is exactly
  the encoding of the bytes it returns, so two different texts never decode to the same bytes.
\<close>

lemma base64_decodes_canonical:
  assumes "base64Decode y m = Some x"
  shows "base64Encode x (length y) = Some y \<and> (base64Decode y' m' = Some x \<longrightarrow> y' = y)"
  using base64_canonical [OF assms, of "max (length y) (length y')"] base64_canonical [OF assms, of "length y"]
    base64_canonical [of y' m' x "max (length y) (length y')"] by auto

end
