(* ===== verification/Url.thy ===== *)
theory Url
  imports Codec
begin

text \<open>
  Model of \<open>src/brickred/codec/url.cc\<close>: percent encoding and decoding (RFC 3986) into a block
  of the caller, and the string wrappers.
\<close>

section \<open>Character classes\<close>

definition s_hex_to_letter :: bytes where
  "s_hex_to_letter = str ''0123456789ABCDEF''"

definition isUnreservedChar :: "byte \<Rightarrow> bool" where
  "isUnreservedChar c \<longleftrightarrow>
     48 \<le> c \<and> c \<le> 57 \<or> 97 \<le> c \<and> c \<le> 122 \<or> 65 \<le> c \<and> c \<le> 90 \<or>
     c = 45 \<or> c = 46 \<or> c = 95 \<or> c = 126"

definition letterToHex :: "byte \<Rightarrow> int" where
  "letterToHex c =
     (if 48 \<le> c \<and> c \<le> 57 then uint c - 48
      else if 97 \<le> c \<and> c \<le> 102 then uint c - 87
      else if 65 \<le> c \<and> c \<le> 70 then uint c - 55
      else -1)"

section \<open>Encoding and decoding\<close>

fun urlEncode :: "bytes \<Rightarrow> nat \<Rightarrow> bytes option" where
  "urlEncode [] out_size = Some []"
| "urlEncode (p # ps) out_size =
     (if isUnreservedChar p then
        if out_size < 1 then None else map_option (Cons p) (urlEncode ps (out_size - 1))
      else
        if out_size < 3 then None
        else map_option
          (\<lambda>out. 37 # s_hex_to_letter ! unat (drop_bit 4 p) # s_hex_to_letter ! unat (p AND 0x0f) # out)
          (urlEncode ps (out_size - 3)))"

definition urlEncode_str :: "bytes \<Rightarrow> bytes" where
  "urlEncode_str s = (if s = [] then [] else counted (urlEncode s (length s * 3)))"

function urlDecode :: "bytes \<Rightarrow> nat \<Rightarrow> bytes option" where
  "urlDecode inp out_size =
     (case inp of
        [] \<Rightarrow> Some []
      | c # cs \<Rightarrow>
          if c = 37 then
            if length inp < 3 \<or> out_size < 1 then None
            else
              let high = letterToHex (cs ! 0); low = letterToHex (cs ! 1)
              in if high < 0 \<or> low < 0 then None
                 else map_option (Cons (word_of_int (high * 0x10 + low))) (urlDecode (drop 2 cs) (out_size - 1))
          else
            if out_size < 1 then None else map_option (Cons c) (urlDecode cs (out_size - 1)))"
  by pat_completeness auto
termination
  by (relation "measure (\<lambda>(s, n). length s)") auto

declare urlDecode.simps [simp del]

definition urlDecode_str :: "bytes \<Rightarrow> bytes" where
  "urlDecode_str s = (if s = [] then [] else counted (urlDecode s (length s)))"

section \<open>Round trip\<close>

definition hex_ok :: "nat \<Rightarrow> bool" where
  "hex_ok k \<longleftrightarrow> letterToHex (s_hex_to_letter ! k) = int k"

lemma hexes_ok: "list_all hex_ok [0..<16]"
  by code_simp

lemma letterToHex_letter: "k < 16 \<Longrightarrow> letterToHex (s_hex_to_letter ! k) = int k"
  using hexes_ok by (auto simp: list_all_iff hex_ok_def)

lemma byte_nibbles:
  fixes c :: byte
  shows "unat (drop_bit 4 c) < 16" "unat (c AND 0x0f) < 16"
    "word_of_int (int (unat (drop_bit 4 c)) * 0x10 + int (unat (c AND 0x0f))) = c"
proof -
  have "unat (drop_bit 4 c) = drop_bit 4 (unat c)"
  proof -
    have "unat c < 2 ^ LENGTH(8)" by (rule unsigned_less)
    then show ?thesis by (simp add: unsigned_drop_bit_eq take_bit_nat_eq_self)
  qed
  then have h: "unat (drop_bit 4 c) = unat c div 16" by (simp add: drop_bit_eq_div)
  have "c AND 0x0f = take_bit 4 c" by (simp add: take_bit_eq_mask mask_eq_exp_minus_1)
  then have "unat (c AND 0x0f) = take_bit 4 (unat c)" by (simp only: unsigned_take_bit_eq)
  then have l: "unat (c AND 0x0f) = unat c mod 16" by (simp only: take_bit_eq_mod) simp
  have c: "unat c < 2 ^ LENGTH(8)" by (rule unsigned_less)
  show "unat (drop_bit 4 c) < 16" "unat (c AND 0x0f) < 16" using h l c by simp_all
  have "int (unat c div 16) * 16 + int (unat c mod 16) = int (unat c)"
    by (metis div_mult_mod_eq of_nat_add of_nat_mult of_nat_numeral)
  then show "word_of_int (int (unat (drop_bit 4 c)) * 0x10 + int (unat (c AND 0x0f))) = c"
    by (simp add: h l)
qed

lemma urlDecode_escape:
  "urlDecode (37 # s_hex_to_letter ! unat (drop_bit 4 c) # s_hex_to_letter ! unat (c AND 0x0f) # y) m =
     (if m < 1 then None else map_option (Cons c) (urlDecode y (m - 1)))"
  using byte_nibbles(3) [of c]
  by (subst urlDecode.simps) (simp add: letterToHex_letter byte_nibbles(1,2))

lemma urlDecode_plain:
  "c \<noteq> 37 \<Longrightarrow> urlDecode (c # y) m = (if m < 1 then None else map_option (Cons c) (urlDecode y (m - 1)))"
  by (subst urlDecode.simps) simp

lemma unreserved_not_percent: "isUnreservedChar c \<Longrightarrow> c \<noteq> 37"
  by (auto simp: isUnreservedChar_def word_le_nat_alt)

lemma url_dec_enc: "urlEncode x n = Some y \<Longrightarrow> length x \<le> m \<Longrightarrow> urlDecode y m = Some x"
proof (induction x n arbitrary: y m rule: urlEncode.induct)
  case (1 n)
  then show ?case by (subst urlDecode.simps) auto
next
  case (2 p ps n)
  then show ?case
    by (auto simp: urlDecode_plain urlDecode_escape unreserved_not_percent split: if_splits)
qed

lemma url_enc_fits: "3 * length x \<le> n \<Longrightarrow> \<exists>y. urlEncode x n = Some y"
  by (induction x n rule: urlEncode.induct) auto

lemma url_enc_bound: "urlEncode x n = Some y \<Longrightarrow> length y \<le> n \<and> length x \<le> length y \<and> length y \<le> 3 * length x"
proof (induction x n arbitrary: y rule: urlEncode.induct)
  case (2 p ps n)
  then show ?case by (fastforce split: if_splits)
qed simp

lemma url_enc_chars:
  "urlEncode x n = Some y \<Longrightarrow> c \<in> set y \<Longrightarrow> isUnreservedChar c \<or> c = 37"
proof (induction x n arbitrary: y rule: urlEncode.induct)
  case (2 p ps n)
  have "isUnreservedChar (s_hex_to_letter ! k)" if "k < 16" for k
  proof -
    have "list_all (\<lambda>k. isUnreservedChar (s_hex_to_letter ! k)) [0..<16]" by code_simp
    with that show ?thesis by (simp add: list_all_iff)
  qed
  with 2 byte_nibbles [of p] show ?case by (auto split: if_splits)
qed simp

interpretation url: text_codec urlEncode urlDecode "\<lambda>k. 3 * k"
  by unfold_locales (auto simp: url_enc_fits url_enc_bound url_dec_enc)

section \<open>Properties\<close>

text \<open>
  Decoding the encoded form of a string gives the string back, and the encoded
  form consists of unreserved characters and percent signs only.
\<close>

lemma url_roundtrip:
  assumes "length s < 2 ^ 29"
  shows "urlDecode_str (urlEncode_str s) = s \<and> list_all (\<lambda>c. isUnreservedChar c \<or> c = 37) (urlEncode_str s)"
proof (cases "s = []")
  case True
  then show ?thesis by (simp add: urlDecode_str_def urlEncode_str_def)
next
  case False
  obtain y where y: "urlEncode s (3 * length s) = Some y" using url_enc_fits by blast
  have l: "length y < 2 ^ 31" "y \<noteq> []" using url_enc_bound [OF y] assms False by auto
  have e: "urlEncode_str s = y" using False y l by (simp add: urlEncode_str_def counted_small mult.commute)
  have "counted (urlDecode y (length y)) = s"
    using url.round_trip [of s length] assms y l url_enc_bound by (simp add: counted_small)
  then show ?thesis
    using e l url_enc_chars [OF y] by (simp add: urlDecode_str_def list_all_iff)
qed

end
