(* ===== verification/StreamHash.thy ===== *)
theory StreamHash
  imports StringUtil
begin

text \<open>
  The part that \<open>codec/md5.cc\<close>, \<open>codec/sha1.cc\<close> and \<open>codec/sha256.cc\<close> have in common:
  a context with the chaining value, a work block of 64 bytes and the message size,
  \<open>update\<close>, which feeds whole blocks to the compression function, and the padding of
  \<open>digest\<close>. The three classes repeat this code; here it is written once, over the compression
  function, the initial value, the encoding of the length and the encoding of the result.
  The locale \<open>md_hash\<close> states what these parameters must satisfy and proves that the streaming
  code computes the Merkle-Damgard hash of the whole message; the theories \<open>Md5\<close>, \<open>Sha1\<close>
  and \<open>Sha256\<close> interpret it.
\<close>

section \<open>The context\<close>

record hash_ctx =
  hc_hash :: "u32 list"
  hc_work_block :: bytes
  hc_message_size :: u64

type_synonym compression = "u32 list \<Rightarrow> bytes \<Rightarrow> u32 list"

definition hash_reset :: "u32 list \<Rightarrow> hash_ctx \<Rightarrow> hash_ctx" where
  "hash_reset iv c = c\<lparr>hc_hash := iv, hc_message_size := 0\<rparr>"

text \<open>The loop over whole blocks: the chaining value and the leftover bytes.\<close>

function absorb :: "compression \<Rightarrow> u32 list \<Rightarrow> bytes \<Rightarrow> u32 list \<times> bytes" where
  "absorb process h buffer =
     (if length buffer \<ge> 64 then absorb process (process h (take 64 buffer)) (drop 64 buffer)
      else (h, buffer))"
  by pat_completeness auto
termination
  by (relation "measure (\<lambda>(f, h, b). length b)") auto

declare absorb.simps [simp del]

definition hash_tail :: "compression \<Rightarrow> hash_ctx \<Rightarrow> bytes \<Rightarrow> hash_ctx" where
  "hash_tail process c buffer =
     (let (h, rest) = absorb process (hc_hash c) buffer
      in c\<lparr>hc_hash := h, hc_work_block := rest @ drop (length rest) (hc_work_block c)\<rparr>)"

definition hash_update :: "compression \<Rightarrow> hash_ctx \<Rightarrow> bytes \<Rightarrow> hash_ctx" where
  "hash_update process c buffer =
     (let wb_size = unat (hc_message_size c AND 63);
          c = c\<lparr>hc_message_size := hc_message_size c + of_nat (length buffer)\<rparr>
      in if wb_size > 0 then
           let left = 64 - wb_size;
               wb = take wb_size (hc_work_block c) @ take left buffer @
                 drop (wb_size + min (length buffer) left) (hc_work_block c);
               c = c\<lparr>hc_work_block := wb\<rparr>
           in if length buffer < left then c
              else hash_tail process (c\<lparr>hc_hash := process (hc_hash c) wb\<rparr>) (drop left buffer)
         else hash_tail process c buffer)"

definition hash_pad :: bytes where
  "hash_pad = 0x80 # replicate 63 0"

definition len_be :: "u64 \<Rightarrow> bytes" where
  "len_be n = List.map (\<lambda>k. ucast (drop_bit k n)) [56, 48, 40, 32, 24, 16, 8, 0]"

definition len_le :: "u64 \<Rightarrow> bytes" where
  "len_le n = List.map (\<lambda>k. ucast (drop_bit k n)) [0, 8, 16, 24, 32, 40, 48, 56]"

definition pad_size :: "nat \<Rightarrow> nat" where
  "pad_size wb_size = (if wb_size > 55 then 64 - wb_size + 56 else 56 - wb_size)"

definition hash_digest ::
    "compression \<Rightarrow> (u64 \<Rightarrow> bytes) \<Rightarrow> (u32 \<Rightarrow> bytes) \<Rightarrow> hash_ctx \<Rightarrow> hash_ctx \<times> bytes" where
  "hash_digest process len_bytes out c =
     (let pad_len = len_bytes (hc_message_size c * 8);
          wb_size = unat (hc_message_size c AND 63);
          c = hash_update process c (take (pad_size wb_size) hash_pad);
          c = hash_update process c pad_len
      in (c, concat (List.map out (hc_hash c))))"

definition word_be :: "u32 \<Rightarrow> bytes" where
  "word_be v = [ucast (drop_bit 24 v), ucast (drop_bit 16 v), ucast (drop_bit 8 v), ucast v]"

definition word_le :: "u32 \<Rightarrow> bytes" where
  "word_le v = [ucast v, ucast (drop_bit 8 v), ucast (drop_bit 16 v), ucast (drop_bit 24 v)]"

text \<open>\<open>%02hhx\<close>, twice per byte.\<close>

definition hex_char :: "nat \<Rightarrow> byte" where
  "hex_char n = (if n < 10 then of_nat (48 + n) else of_nat (87 + n))"

definition hex_output :: "bytes \<Rightarrow> bytes" where
  "hex_output bs = concat (List.map (\<lambda>b. [hex_char (unat b div 16), hex_char (unat b mod 16)]) bs)"

text \<open>The words of a block, in either byte order, and the rotation of the macros.\<close>

definition block_be :: "bytes \<Rightarrow> nat \<Rightarrow> u32" where
  "block_be wb i = push_bit 24 (ucast (wb ! (i * 4))) OR push_bit 16 (ucast (wb ! (i * 4 + 1))) OR
     push_bit 8 (ucast (wb ! (i * 4 + 2))) OR ucast (wb ! (i * 4 + 3))"

definition block_le :: "bytes \<Rightarrow> nat \<Rightarrow> u32" where
  "block_le wb i = push_bit 24 (ucast (wb ! (i * 4 + 3))) OR push_bit 16 (ucast (wb ! (i * 4 + 2))) OR
     push_bit 8 (ucast (wb ! (i * 4 + 1))) OR ucast (wb ! (i * 4))"

definition rotl32 :: "u32 \<Rightarrow> nat \<Rightarrow> u32" where
  "rotl32 a n = push_bit n a OR drop_bit (32 - n) a"

lemma length_len_le [simp]: "length (len_le n) = 8" and length_len_be [simp]: "length (len_be n) = 8"
  by (simp_all add: len_le_def len_be_def)

text \<open>A context for the witnesses.\<close>

definition blank_ctx :: hash_ctx where
  "blank_ctx = \<lparr>hc_hash = [], hc_work_block = replicate 64 0, hc_message_size = 0\<rparr>"

section \<open>Absorbing\<close>

lemma absorb_append:
  "absorb process h (a @ b) = (case absorb process h a of (h', r) \<Rightarrow> absorb process h' (r @ b))"
proof (induction process h a rule: absorb.induct)
  case (1 process h a)
  show ?case
  proof (cases "length a \<ge> 64")
    case True
    with 1 show ?thesis by (simp add: absorb.simps [of process h "a @ b"] absorb.simps [of process h a])
  next
    case False
    then show ?thesis by (simp add: absorb.simps [of process h a])
  qed
qed

lemma absorb_block: "length b = 64 \<Longrightarrow> absorb process h b = (process h b, [])"
  by (simp add: absorb.simps [of process h b] absorb.simps [of process _ "[]"])

lemma absorb_rest: "length (snd (absorb process h b)) = length b mod 64"
proof (induction process h b rule: absorb.induct)
  case (1 process h b)
  then show ?case
    by (cases "length b \<ge> 64") (simp_all add: absorb.simps [of process h b] mod_if [of "length b" 64])
qed

text \<open>
  \<open>hash_rep\<close>: the context holds the message \<open>m\<close>, its whole blocks absorbed and the rest in
  the work block.
\<close>

definition hash_rep :: "compression \<Rightarrow> u32 list \<Rightarrow> hash_ctx \<Rightarrow> bytes \<Rightarrow> bool" where
  "hash_rep process iv c m \<longleftrightarrow> length (hc_work_block c) = 64 \<and> hc_message_size c = of_nat (length m) \<and>
     absorb process iv m = (hc_hash c, take (length m mod 64) (hc_work_block c))"

lemma size_and_63: "unat ((of_nat n :: u64) AND 63) = n mod 64"
proof -
  have "(of_nat n :: u64) AND 63 = take_bit 6 (of_nat n)" by (simp add: take_bit_eq_mask mask_eq_exp_minus_1)
  also have "unat (take_bit 6 (of_nat n :: u64)) = take_bit 6 (take_bit 64 n)"
    by (simp add: unsigned_take_bit_eq unsigned_of_nat)
  also have "\<dots> = n mod 64" by (simp add: take_bit_eq_mod mod_mod_cancel)
  finally show ?thesis .
qed

lemma hash_tail_rep:
  assumes "absorb process iv m0 = (hc_hash c, [])" "length (hc_work_block c) = 64"
    and "hc_message_size c = of_nat (length (m0 @ b))" "length m0 mod 64 = 0"
  shows "hash_rep process iv (hash_tail process c b) (m0 @ b)"
proof -
  obtain h r where hr: "absorb process (hc_hash c) b = (h, r)" by (cases "absorb process (hc_hash c) b") auto
  have l: "length r = length b mod 64" using absorb_rest [of process "hc_hash c" b] hr by simp
  have "(length m0 + length b) mod 64 = (length m0 mod 64 + length b) mod 64" by (simp only: mod_add_left_eq)
  then have lm: "length (m0 @ b) mod 64 = length r" "length r < 64" unfolding assms(4) l by simp_all
  have ab: "absorb process iv (m0 @ b) = (h, r)"
    by (subst absorb_append) (simp add: assms(1) hr)
  show ?thesis
    unfolding hash_rep_def hash_tail_def hr Let_def split ab lm(1)
    using assms(2,3) lm(2) by simp
qed

lemma hash_update_rep:
  assumes "hash_rep process iv c m"
  shows "hash_rep process iv (hash_update process c b) (m @ b)"
proof -
  define k where "k = length m mod 64"
  have k: "k < 64" "unat (hc_message_size c AND 63) = k"
    using assms by (simp_all add: k_def hash_rep_def size_and_63)
  let ?wb = "hc_work_block c"
  have c: "length ?wb = 64" "hc_message_size c = of_nat (length m)"
      "absorb process iv m = (hc_hash c, take k ?wb)"
    using assms by (simp_all add: hash_rep_def k_def)
  show ?thesis
  proof (cases "k = 0")
    case True
    with c k show ?thesis
      using hash_tail_rep [of process iv m "c\<lparr>hc_message_size := hc_message_size c + of_nat (length b)\<rparr>" b]
      by (simp add: hash_update_def k_def)
  next
    case pos: False
    show ?thesis
    proof (cases "length b < 64 - k")
      case True
      have "(length m + length b) mod 64 = k + length b"
      proof -
        have "(length m + length b) mod 64 = (k + length b) mod 64" unfolding k_def by (simp only: mod_add_left_eq)
        then show ?thesis using True k(1) by simp
      qed
      moreover have "\<not> 64 \<le> k + length b" using True by linarith
      then have "absorb process iv (m @ b) = (hc_hash c, take k ?wb @ b)"
        using True c(1,3) k(1) by (subst absorb_append) (simp add: absorb.simps [of process "hc_hash c"])
      ultimately show ?thesis
        using True pos c k by (simp add: hash_update_def hash_rep_def min_def)
    next
      case False
      let ?l = "64 - k"
      let ?wb' = "take k ?wb @ take ?l b"
      let ?c = "c\<lparr>hc_message_size := hc_message_size c + of_nat (length b), hc_work_block := ?wb',
          hc_hash := process (hc_hash c) ?wb'\<rparr>"
      have wb: "length ?wb' = 64" using False c(1) k(1) by simp
      have "absorb process iv (m @ take ?l b) = absorb process (hc_hash c) ?wb'"
        by (subst absorb_append) (simp add: c(3))
      also have "\<dots> = (process (hc_hash c) ?wb', [])"
        using absorb_block [OF wb] .
      finally have 1: "absorb process iv (m @ take ?l b) = (hc_hash ?c, [])" by simp
      have 2: "length (m @ take ?l b) mod 64 = 0"
      proof -
        have "(length m + ?l) mod 64 = (k + ?l) mod 64" unfolding k_def by (simp only: mod_add_left_eq)
        then show ?thesis using False k(1) by simp
      qed
      have "hash_rep process iv (hash_tail process ?c (drop ?l b)) ((m @ take ?l b) @ drop ?l b)"
        using c wb by (intro hash_tail_rep 1 2) simp_all
      moreover have "hash_update process c b = hash_tail process ?c (drop ?l b)"
        using pos False c k by (simp add: hash_update_def min_def Let_def)
      ultimately show ?thesis by simp
    qed
  qed
qed

section \<open>The hash of a message\<close>

text \<open>
  The padding of a message of \<open>n\<close> bytes, as the standards state it: the bit 1, then as few zero bytes as
  make the length 56 modulo 64, then the length in bits; and the hash as a function of the message.
\<close>

definition padding :: "(u64 \<Rightarrow> bytes) \<Rightarrow> nat \<Rightarrow> bytes" where
  "padding len_bytes n = 0x80 # replicate (nat ((55 - int n) mod 64)) 0 @ len_bytes (of_nat n * 8)"

definition md_hash_of ::
    "compression \<Rightarrow> u32 list \<Rightarrow> (u64 \<Rightarrow> bytes) \<Rightarrow> (u32 \<Rightarrow> bytes) \<Rightarrow> bytes \<Rightarrow> bytes" where
  "md_hash_of process iv len_bytes out m =
     concat (List.map out (fst (absorb process iv (m @ padding len_bytes (length m)))))"

lemma pad_size_bounds: "w < 64 \<Longrightarrow> 0 < pad_size w \<and> pad_size w \<le> 64"
  by (auto simp: pad_size_def)

lemma pad_zeros: "nat ((55 - int n) mod 64) + 1 = pad_size (n mod 64)"
proof -
  have "(55 - int n) mod 64 = (55 - int (n mod 64)) mod 64" by (simp add: zmod_int mod_diff_right_eq)
  also have "\<dots> = int (pad_size (n mod 64)) - 1"
  proof (cases "n mod 64 > 55")
    case True
    have "(55 - int (n mod 64)) mod 64 = (55 - int (n mod 64) + 64) mod 64" by (rule mod_add_self2 [symmetric])
    also have "\<dots> = 55 - int (n mod 64) + 64" using True by (intro mod_pos_pos_trivial) simp_all
    finally show ?thesis using True by (simp add: pad_size_def)
  next
    case False
    then have "(55 - int (n mod 64)) mod 64 = 55 - int (n mod 64)" by (intro mod_pos_pos_trivial) simp_all
    then show ?thesis using False by (simp add: pad_size_def)
  qed
  finally have "nat ((55 - int n) mod 64) = nat (int (pad_size (n mod 64)) - 1)" by simp
  moreover have "0 < pad_size (n mod 64)" using pad_size_bounds [of "n mod 64"] by simp
  ultimately show ?thesis by linarith
qed

lemma code_padding: "take (pad_size (n mod 64)) hash_pad @ len_bytes (of_nat n * 8) = padding len_bytes n"
proof -
  let ?z = "nat ((55 - int n) mod 64)"
  have "?z < 64" by (simp add: nat_less_iff)
  then have "take (Suc ?z) hash_pad = 0x80 # replicate ?z 0" by (simp add: hash_pad_def min_def)
  then show ?thesis using pad_zeros [of n] by (simp add: padding_def)
qed

locale md_hash =
  fixes process :: compression
    and iv :: "u32 list"
    and len_bytes :: "u64 \<Rightarrow> bytes"
    and out :: "u32 \<Rightarrow> bytes"
  assumes length_len_bytes: "length (len_bytes n) = 8"
    and length_out: "length (out v) = 4"
    and length_process: "length h = length iv \<Longrightarrow> length b = 64 \<Longrightarrow> length (process h b) = length iv"
begin

lemma rep_reset: "length (hc_work_block c) = 64 \<Longrightarrow> hash_rep process iv (hash_reset iv c) []"
  by (simp add: hash_rep_def hash_reset_def absorb.simps [of process iv "[]"])

lemma rep_update: "hash_rep process iv c m \<Longrightarrow> hash_rep process iv (hash_update process c b) (m @ b)"
  by (rule hash_update_rep)

lemma rep_pieces: "hash_rep process iv c m \<Longrightarrow> hash_rep process iv (foldl (hash_update process) c bs) (m @ concat bs)"
proof (induction bs arbitrary: c m)
  case (Cons b bs)
  from Cons.IH [OF rep_update [OF Cons.prems, of b]] show ?case by simp
qed simp

lemma padded_length: "length (m @ padding len_bytes (length m)) mod 64 = 0"
proof -
  let ?n = "length m"
  define z where "z = nat ((55 - int ?n) mod 64)"
  have "int (?n + z + 9) mod 64 = (int ?n + 9 + (55 - int ?n) mod 64) mod 64" by (simp add: z_def ac_simps)
  also have "\<dots> = (int ?n + 9 + (55 - int ?n)) mod 64" by (rule mod_add_right_eq)
  also have "\<dots> = 0" by simp
  finally have "(?n + z + 9) mod 64 = 0" by presburger
  moreover have "length (m @ padding len_bytes ?n) = ?n + z + 9" by (simp add: padding_def length_len_bytes z_def)
  ultimately show ?thesis by metis
qed

lemma digest_of:
  assumes "hash_rep process iv c m"
  shows "snd (hash_digest process len_bytes out c) = md_hash_of process iv len_bytes out m"
proof -
  have size: "hc_message_size c = of_nat (length m)" using assms by (simp add: hash_rep_def)
  have "hash_rep process iv (fst (hash_digest process len_bytes out c)) (m @ padding len_bytes (length m))"
    using rep_update [OF rep_update [OF assms]] size
    by (simp add: hash_digest_def size_and_63 Let_def flip: code_padding)
  moreover have "snd (hash_digest process len_bytes out c) =
      concat (List.map out (hc_hash (fst (hash_digest process len_bytes out c))))"
    by (simp add: hash_digest_def Let_def)
  ultimately show ?thesis by (simp add: hash_rep_def md_hash_of_def)
qed

lemma absorb_length: "length h = length iv \<Longrightarrow> length (fst (absorb process h b)) = length iv"
proof (induction b arbitrary: h rule: length_induct)
  case (1 b)
  show ?case
  proof (cases "length b \<ge> 64")
    case True
    then have "length (fst (absorb process (process h (take 64 b)) (drop 64 b))) = length iv"
      using 1 length_process [of h "take 64 b"] by simp
    then show ?thesis using True by (simp add: absorb.simps [of process h b])
  next
    case False
    then show ?thesis using 1 by (simp add: absorb.simps [of process h b])
  qed
qed

lemma stream:
  assumes "length (hc_work_block c) = 64"
  shows "snd (hash_digest process len_bytes out (foldl (hash_update process) (hash_reset iv c) bs)) =
    md_hash_of process iv len_bytes out (concat bs)"
  using digest_of [OF rep_pieces [OF rep_reset [OF assms]]] by simp

lemma digest_length: "length (md_hash_of process iv len_bytes out m) = 4 * length iv"
proof -
  have "length (concat (List.map out ws)) = 4 * length ws" for ws
    by (induction ws) (simp_all add: length_out)
  then show ?thesis by (simp add: md_hash_of_def absorb_length)
qed

end

end
