(* ===== verification/Md5.thy ===== *)
theory Md5
  imports StreamHash
begin

text \<open>
  Model of \<open>src/brickred/codec/md5.cc\<close>. The 64 macro calls of \<open>md5ProcessBlock\<close> are the table
  \<open>md5_steps\<close>. Each call writes its first argument and the next call has the arguments
  rotated, \<open>(a, b, c, d)\<close>, \<open>(d, a, b, c)\<close>, \<open>(c, d, a, b)\<close>, \<open>(b, c, d, a)\<close>: a step of
  the model updates the first of four values and rotates them.
\<close>

datatype md5_round = FF | GG | HH | II

fun md5_fun :: "md5_round \<Rightarrow> u32 \<Rightarrow> u32 \<Rightarrow> u32 \<Rightarrow> u32" where
  "md5_fun FF x y z = (x AND y) OR (NOT x AND z)"
| "md5_fun GG x y z = (x AND z) OR (y AND NOT z)"
| "md5_fun HH x y z = x XOR y XOR z"
| "md5_fun II x y z = y XOR (x OR NOT z)"

definition md5_steps :: "(md5_round \<times> nat \<times> nat \<times> u32) list" where
  "md5_steps =
    [(FF, 0, 7, 0xd76aa478), (FF, 1, 12, 0xe8c7b756),
     (FF, 2, 17, 0x242070db), (FF, 3, 22, 0xc1bdceee),
     (FF, 4, 7, 0xf57c0faf), (FF, 5, 12, 0x4787c62a),
     (FF, 6, 17, 0xa8304613), (FF, 7, 22, 0xfd469501),
     (FF, 8, 7, 0x698098d8), (FF, 9, 12, 0x8b44f7af),
     (FF, 10, 17, 0xffff5bb1), (FF, 11, 22, 0x895cd7be),
     (FF, 12, 7, 0x6b901122), (FF, 13, 12, 0xfd987193),
     (FF, 14, 17, 0xa679438e), (FF, 15, 22, 0x49b40821),
     (GG, 1, 5, 0xf61e2562), (GG, 6, 9, 0xc040b340),
     (GG, 11, 14, 0x265e5a51), (GG, 0, 20, 0xe9b6c7aa),
     (GG, 5, 5, 0xd62f105d), (GG, 10, 9, 0x02441453),
     (GG, 15, 14, 0xd8a1e681), (GG, 4, 20, 0xe7d3fbc8),
     (GG, 9, 5, 0x21e1cde6), (GG, 14, 9, 0xc33707d6),
     (GG, 3, 14, 0xf4d50d87), (GG, 8, 20, 0x455a14ed),
     (GG, 13, 5, 0xa9e3e905), (GG, 2, 9, 0xfcefa3f8),
     (GG, 7, 14, 0x676f02d9), (GG, 12, 20, 0x8d2a4c8a),
     (HH, 5, 4, 0xfffa3942), (HH, 8, 11, 0x8771f681),
     (HH, 11, 16, 0x6d9d6122), (HH, 14, 23, 0xfde5380c),
     (HH, 1, 4, 0xa4beea44), (HH, 4, 11, 0x4bdecfa9),
     (HH, 7, 16, 0xf6bb4b60), (HH, 10, 23, 0xbebfbc70),
     (HH, 13, 4, 0x289b7ec6), (HH, 0, 11, 0xeaa127fa),
     (HH, 3, 16, 0xd4ef3085), (HH, 6, 23, 0x04881d05),
     (HH, 9, 4, 0xd9d4d039), (HH, 12, 11, 0xe6db99e5),
     (HH, 15, 16, 0x1fa27cf8), (HH, 2, 23, 0xc4ac5665),
     (II, 0, 6, 0xf4292244), (II, 7, 10, 0x432aff97),
     (II, 14, 15, 0xab9423a7), (II, 5, 21, 0xfc93a039),
     (II, 12, 6, 0x655b59c3), (II, 3, 10, 0x8f0ccc92),
     (II, 10, 15, 0xffeff47d), (II, 1, 21, 0x85845dd1),
     (II, 8, 6, 0x6fa87e4f), (II, 15, 10, 0xfe2ce6e0),
     (II, 6, 15, 0xa3014314), (II, 13, 21, 0x4e0811a1),
     (II, 4, 6, 0xf7537e82), (II, 11, 10, 0xbd3af235),
     (II, 2, 15, 0x2ad7d2bb), (II, 9, 21, 0xeb86d391)]"

definition md5_step ::
    "bytes \<Rightarrow> u32 \<times> u32 \<times> u32 \<times> u32 \<Rightarrow> md5_round \<times> nat \<times> nat \<times> u32 \<Rightarrow> u32 \<times> u32 \<times> u32 \<times> u32" where
  "md5_step wb = (\<lambda>(a, b, c, d) (r, i, s, t).
     let a = a + (md5_fun r b c d + block_le wb i + t);
         a = b + rotl32 a s
     in (d, a, b, c))"

definition md5ProcessBlock :: compression where
  "md5ProcessBlock h wb =
     (let (a, b, c, d) = foldl (md5_step wb) (h ! 0, h ! 1, h ! 2, h ! 3) md5_steps
      in [h ! 0 + a, h ! 1 + b, h ! 2 + c, h ! 3 + d])"

definition md5_iv :: "u32 list" where
  "md5_iv = [0x67452301, 0xefcdab89, 0x98badcfe, 0x10325476]"

definition md5_reset :: "hash_ctx \<Rightarrow> hash_ctx" where
  "md5_reset = hash_reset md5_iv"

definition md5_update :: "hash_ctx \<Rightarrow> bytes \<Rightarrow> hash_ctx" where
  "md5_update = hash_update md5ProcessBlock"

definition md5_digest :: "hash_ctx \<Rightarrow> hash_ctx \<times> bytes" where
  "md5_digest = hash_digest md5ProcessBlock len_le word_le"

definition md5_digest_hex :: "hash_ctx \<Rightarrow> hash_ctx \<times> bytes" where
  "md5_digest_hex c = (let (c, h) = md5_digest c in (c, hex_output h))"

text \<open>\<open>ctx\<close> is the fresh object on the stack, whose work block is not initialised.\<close>

definition md5Binary :: "hash_ctx \<Rightarrow> bytes \<Rightarrow> bytes" where
  "md5Binary ctx buffer = snd (md5_digest (md5_update (md5_reset ctx) buffer))"

definition md5_string :: "hash_ctx \<Rightarrow> bytes \<Rightarrow> bytes" where
  "md5_string ctx buffer = snd (md5_digest_hex (md5_update (md5_reset ctx) buffer))"

interpretation md5: md_hash md5ProcessBlock md5_iv len_le word_le
  by unfold_locales (simp_all add: word_le_def md5_iv_def md5ProcessBlock_def split: prod.split)

text \<open>
  MD5 does not depend on how the message is cut: feeding it in any number of
  pieces to a context gives the digest that \<open>md5Binary\<close> computes at once, which is the
  Merkle-Damgard hash of the padded message; the digest has 16 bytes, and
  the uninitialised contents of the work block do not matter.
\<close>

lemma md5_streaming:
  assumes "length (hc_work_block ctx) = 64" "length (hc_work_block ctx') = 64"
  shows "snd (md5_digest (foldl md5_update (md5_reset ctx) bs)) = md5Binary ctx' (concat bs) \<and>
    md5Binary ctx (concat bs) = md_hash_of md5ProcessBlock md5_iv len_le word_le (concat bs) \<and>
    length (md5Binary ctx (concat bs)) = 16"
  using md5.stream [OF assms(1), of bs] md5.stream [OF assms(2), of "[concat bs]"] md5.digest_length [of "concat bs"]
    md5.stream [OF assms(1), of "[concat bs]"]
  by (simp add: md5_digest_def md5_update_def md5_reset_def md5Binary_def md5_iv_def)

lemma md5_vector: "md5_string blank_ctx [] = str ''d41d8cd98f00b204e9800998ecf8427e''"
  by code_simp

end
