(* ===== verification/Sha1.thy ===== *)
theory Sha1
  imports StreamHash
begin

text \<open>
  Model of \<open>src/brickred/codec/sha1.cc\<close>: the message schedule \<open>sha1_w\<close>, the 80 steps of
  \<open>sha1ProcessBlock\<close> and the streaming interface of theory \<open>StreamHash\<close>.
\<close>

text \<open>The macro joins the two shifts with an exclusive or.\<close>

definition sha1_rotl :: "u32 \<Rightarrow> nat \<Rightarrow> u32" where
  "sha1_rotl v n = push_bit n v XOR drop_bit (32 - n) v"

definition sha1_w :: "bytes \<Rightarrow> u32 list" where
  "sha1_w wb =
     foldl (\<lambda>w i. w @ [sha1_rotl (w ! (i - 3) XOR w ! (i - 8) XOR w ! (i - 14) XOR w ! (i - 16)) 1])
       (List.map (block_be wb) [0..<16]) [16..<80]"

text \<open>The function and the constant of the four rounds of 20 steps.\<close>

definition sha1_fun :: "nat \<Rightarrow> u32 \<Rightarrow> u32 \<Rightarrow> u32 \<Rightarrow> u32" where
  "sha1_fun i b c d =
     (if i < 20 then (b AND c) OR (NOT b AND d)
      else if i < 40 then b XOR c XOR d
      else if i < 60 then (b AND c) OR (b AND d) OR (c AND d)
      else b XOR c XOR d)"

definition sha1_const :: "nat \<Rightarrow> u32" where
  "sha1_const i =
     (if i < 20 then 0x5a827999 else if i < 40 then 0x6ed9eba1 else if i < 60 then 0x8f1bbcdc else 0xca62c1d6)"

definition sha1_step ::
    "u32 list \<Rightarrow> u32 \<times> u32 \<times> u32 \<times> u32 \<times> u32 \<Rightarrow> nat \<Rightarrow> u32 \<times> u32 \<times> u32 \<times> u32 \<times> u32" where
  "sha1_step w = (\<lambda>(a, b, c, d, e) i.
     let temp = sha1_rotl a 5 + sha1_fun i b c d + e + w ! i + sha1_const i
     in (temp, a, sha1_rotl b 30, c, d))"

definition sha1ProcessBlock :: compression where
  "sha1ProcessBlock h wb =
     (let (a, b, c, d, e) = foldl (sha1_step (sha1_w wb)) (h ! 0, h ! 1, h ! 2, h ! 3, h ! 4) [0..<80]
      in [h ! 0 + a, h ! 1 + b, h ! 2 + c, h ! 3 + d, h ! 4 + e])"

definition sha1_iv :: "u32 list" where
  "sha1_iv = [0x67452301, 0xefcdab89, 0x98badcfe, 0x10325476, 0xc3d2e1f0]"

definition sha1_reset :: "hash_ctx \<Rightarrow> hash_ctx" where
  "sha1_reset = hash_reset sha1_iv"

definition sha1_update :: "hash_ctx \<Rightarrow> bytes \<Rightarrow> hash_ctx" where
  "sha1_update = hash_update sha1ProcessBlock"

definition sha1_digest :: "hash_ctx \<Rightarrow> hash_ctx \<times> bytes" where
  "sha1_digest = hash_digest sha1ProcessBlock len_be word_be"

definition sha1_digest_hex :: "hash_ctx \<Rightarrow> hash_ctx \<times> bytes" where
  "sha1_digest_hex c = (let (c, h) = sha1_digest c in (c, hex_output h))"

definition sha1Binary :: "hash_ctx \<Rightarrow> bytes \<Rightarrow> bytes" where
  "sha1Binary ctx buffer = snd (sha1_digest (sha1_update (sha1_reset ctx) buffer))"

definition sha1_string :: "hash_ctx \<Rightarrow> bytes \<Rightarrow> bytes" where
  "sha1_string ctx buffer = snd (sha1_digest_hex (sha1_update (sha1_reset ctx) buffer))"

interpretation sha1: md_hash sha1ProcessBlock sha1_iv len_be word_be
  by unfold_locales (simp_all add: word_be_def sha1_iv_def sha1ProcessBlock_def split: prod.split)

text \<open>
  SHA1 does not depend on how the message is cut: feeding it in any number
  of pieces to a context gives the digest that \<open>sha1Binary\<close> computes at once, which is the
  Merkle-Damgard hash of the padded message; the digest has 20 bytes, and the uninitialised
  contents of the work block do not matter.
\<close>

lemma sha1_streaming:
  assumes "length (hc_work_block ctx) = 64" "length (hc_work_block ctx') = 64"
  shows "snd (sha1_digest (foldl sha1_update (sha1_reset ctx) bs)) = sha1Binary ctx' (concat bs) \<and>
    sha1Binary ctx (concat bs) = md_hash_of sha1ProcessBlock sha1_iv len_be word_be (concat bs) \<and>
    length (sha1Binary ctx (concat bs)) = 20"
  using sha1.stream [OF assms(1), of bs] sha1.stream [OF assms(2), of "[concat bs]"] sha1.digest_length [of "concat bs"]
    sha1.stream [OF assms(1), of "[concat bs]"]
  by (simp add: sha1_digest_def sha1_update_def sha1_reset_def sha1Binary_def sha1_iv_def)

end
