(* ===== verification/Sha256Standard.thy ===== *)
theory Sha256Standard
  imports Complex_Main Prelude
begin

text \<open>
  The secure hash standard (FIPS 180-4) for SHA-256, on messages of whole bytes, written from the
  standard and without a definition of the code: the padding, the constants as the
  fractional parts of roots of the first primes, the message schedule as a recurrence, and the
  rounds. Theory \<open>Sha256\<close> proves that \<open>codec/sha256.cc\<close> computes this function.
\<close>

section \<open>Preprocessing\<close>

text \<open>\<open>n\<close> as \<open>k\<close> bytes, the most significant first (of a larger number the last \<open>k\<close> bytes).\<close>

definition big_endian :: "nat \<Rightarrow> nat \<Rightarrow> bytes" where
  "big_endian k n = List.map (\<lambda>i. of_nat (n div 256 ^ i)) (rev [0..<k])"

text \<open>
  The bit 1 and zero bits until the length is 448 modulo 512 bits, as few as possible; then
  the length in bits as a number of 64 bits.
\<close>

definition fips_padded :: "bytes \<Rightarrow> bytes" where
  "fips_padded m = m @ 0x80 # replicate (nat ((55 - int (length m)) mod 64)) 0 @ big_endian 8 (8 * length m)"

definition fips_block :: "bytes \<Rightarrow> nat \<Rightarrow> bytes" where
  "fips_block m i = take 64 (drop (64 * i) m)"

definition fips_word :: "bytes \<Rightarrow> nat \<Rightarrow> u32" where
  "fips_word b t = of_nat (foldl (\<lambda>n x. 256 * n + unat x) 0 (take 4 (drop (4 * t) b)))"

section \<open>Constants\<close>

definition is_prime :: "nat \<Rightarrow> bool" where
  "is_prime n \<longleftrightarrow> 1 < n \<and> (\<forall>d\<in>set [2..<n]. \<not> d dvd n)"

definition first_primes :: "nat list" where
  "first_primes = List.filter is_prime [2..<312]"

text \<open>The first 32 bits of the fractional part of a root; the integral part falls out of the word.\<close>

definition frac_root :: "nat \<Rightarrow> nat \<Rightarrow> u32" where
  "frac_root n p = word_of_int \<lfloor>2 ^ 32 * root n (real p)\<rfloor>"

definition fips_k :: "nat \<Rightarrow> u32" where
  "fips_k t = frac_root 3 (first_primes ! t)"

definition fips_h0 :: "u32 list" where
  "fips_h0 = List.map (frac_root 2) (take 8 first_primes)"

section \<open>Hash computation\<close>

definition fips_ch :: "u32 \<Rightarrow> u32 \<Rightarrow> u32 \<Rightarrow> u32" where
  "fips_ch x y z = (x AND y) XOR (NOT x AND z)"

definition fips_maj :: "u32 \<Rightarrow> u32 \<Rightarrow> u32 \<Rightarrow> u32" where
  "fips_maj x y z = (x AND y) XOR (x AND z) XOR (y AND z)"

definition big_sigma0 :: "u32 \<Rightarrow> u32" where
  "big_sigma0 x = word_rotr 2 x XOR word_rotr 13 x XOR word_rotr 22 x"

definition big_sigma1 :: "u32 \<Rightarrow> u32" where
  "big_sigma1 x = word_rotr 6 x XOR word_rotr 11 x XOR word_rotr 25 x"

definition small_sigma0 :: "u32 \<Rightarrow> u32" where
  "small_sigma0 x = word_rotr 7 x XOR word_rotr 18 x XOR drop_bit 3 x"

definition small_sigma1 :: "u32 \<Rightarrow> u32" where
  "small_sigma1 x = word_rotr 17 x XOR word_rotr 19 x XOR drop_bit 10 x"

fun fips_schedule :: "bytes \<Rightarrow> nat \<Rightarrow> u32" where
  "fips_schedule b t =
     (if t < 16 then fips_word b t
      else small_sigma1 (fips_schedule b (t - 2)) + fips_schedule b (t - 7) +
        small_sigma0 (fips_schedule b (t - 15)) + fips_schedule b (t - 16))"

declare fips_schedule.simps [simp del]

text \<open>The working variables \<open>a\<close> to \<open>h\<close> after \<open>t\<close> rounds.\<close>

primrec fips_vars :: "u32 list \<Rightarrow> bytes \<Rightarrow> nat \<Rightarrow> u32 list" where
  "fips_vars hs b 0 = hs"
| "fips_vars hs b (Suc t) =
     (let v = fips_vars hs b t;
          t1 = v ! 7 + big_sigma1 (v ! 4) + fips_ch (v ! 4) (v ! 5) (v ! 6) + fips_k t + fips_schedule b t;
          t2 = big_sigma0 (v ! 0) + fips_maj (v ! 0) (v ! 1) (v ! 2)
      in [t1 + t2, v ! 0, v ! 1, v ! 2, v ! 3 + t1, v ! 4, v ! 5, v ! 6])"

definition fips_compress :: "u32 list \<Rightarrow> bytes \<Rightarrow> u32 list" where
  "fips_compress hs b = map2 (+) hs (fips_vars hs b 64)"

definition fips_sha256 :: "bytes \<Rightarrow> bytes" where
  "fips_sha256 m =
     (let p = fips_padded m;
          hs = foldl fips_compress fips_h0 (List.map (fips_block p) [0..<length p div 64])
      in concat (List.map (\<lambda>h. big_endian 4 (unat h)) hs))"

section \<open>The constants as numbers\<close>

lemma floor_root:
  assumes "0 < n" "x ^ n \<le> p * 2 ^ (32 * n)" "p * 2 ^ (32 * n) < (x + 1) ^ n"
  shows "\<lfloor>2 ^ 32 * root n (real p)\<rfloor> = int x"
proof -
  have eq: "2 ^ 32 * root n (real p) = root n (real (p * 2 ^ (32 * n)))"
    using assms(1) by (simp add: real_root_mult real_root_power_cancel power_mult)
  have "real x = root n (real (x ^ n))" "real (x + 1) = root n (real ((x + 1) ^ n))"
    using assms(1) by (simp_all add: real_root_power_cancel)
  moreover have "root n (real (x ^ n)) \<le> root n (real (p * 2 ^ (32 * n)))"
    using assms(1,2) by (intro real_root_le_mono) (simp_all only: of_nat_le_iff)
  moreover have "root n (real (p * 2 ^ (32 * n))) < root n (real ((x + 1) ^ n))"
    using assms(1,3) by (intro real_root_less_mono) (simp_all only: of_nat_less_iff)
  ultimately show ?thesis unfolding eq by (intro floor_eq2) simp_all
qed

lemma frac_root_eq:
  assumes "0 < n" "x ^ n \<le> p * 2 ^ (32 * n)" "p * 2 ^ (32 * n) < (x + 1) ^ n"
  shows "frac_root n p = of_nat x"
  unfolding frac_root_def floor_root [OF assms] by simp

lemma is_prime_iff: "is_prime n \<longleftrightarrow> 1 < n \<and> (\<forall>d. 2 \<le> d \<longrightarrow> d < n \<longrightarrow> \<not> d dvd n)"
  by (auto simp: is_prime_def)

text \<open>Below \<open>18 * 18\<close> a divisor below 18 decides.\<close>

lemma small_divisor:
  fixes d :: nat
  assumes "n < 324" "2 \<le> d" "d < n" "d dvd n"
  obtains e where "2 \<le> e" "e < 18" "e < n" "e dvd n"
proof (cases "d < 18")
  case True
  with assms that show thesis by blast
next
  case False
  obtain e where e: "n = d * e" using assms(4) by blast
  have "e < 18"
  proof (rule ccontr)
    assume "\<not> e < 18"
    with False have "18 * 18 \<le> d * e" by (intro mult_le_mono) linarith+
    with e assms(1) show False by linarith
  qed
  moreover have "e \<noteq> 0" "e \<noteq> 1" using e assms(2,3) by auto
  moreover have "e < n" using \<open>e < 18\<close> False assms(3) by linarith
  ultimately show thesis using e by (intro that [of e]) auto
qed

lemma prime_small:
  assumes "n < 324"
  shows "is_prime n \<longleftrightarrow> 1 < n \<and> list_all (\<lambda>d. n mod d \<noteq> 0 \<or> n \<le> d) [2..<18]"
proof -
  have "is_prime n \<longleftrightarrow> 1 < n \<and> (\<forall>d. 2 \<le> d \<longrightarrow> d < 18 \<longrightarrow> d < n \<longrightarrow> \<not> d dvd n)"
    unfolding is_prime_iff using small_divisor [OF assms] by metis
  also have "\<dots> \<longleftrightarrow> 1 < n \<and> (\<forall>d\<in>set [2..<18]. n mod d \<noteq> 0 \<or> n \<le> d)"
    unfolding set_upt Ball_def atLeastLessThan_iff mod_eq_0_iff_dvd not_less [symmetric] by metis
  finally show ?thesis unfolding list_all_iff .
qed

lemma first_primes_eq:
  "first_primes =
    [2, 3, 5, 7, 11, 13, 17, 19, 23, 29, 31, 37, 41, 43, 47, 53, 59, 61, 67, 71, 73, 79, 83, 89, 97, 101,
     103, 107, 109, 113, 127, 131, 137, 139, 149, 151, 157, 163, 167, 173, 179, 181, 191, 193, 197, 199, 211,
     223, 227, 229, 233, 239, 241, 251, 257, 263, 269, 271, 277, 281, 283, 293, 307, 311]"
proof -
  have "first_primes = List.filter (\<lambda>n. 1 < n \<and> list_all (\<lambda>d. n mod d \<noteq> 0 \<or> n \<le> d) [2..<18]) [2..<312]"
    unfolding first_primes_def by (intro filter_cong refl prime_small) (simp only: set_upt atLeastLessThan_iff, linarith)
  also have "\<dots> =
    [2, 3, 5, 7, 11, 13, 17, 19, 23, 29, 31, 37, 41, 43, 47, 53, 59, 61, 67, 71, 73, 79, 83, 89, 97, 101,
     103, 107, 109, 113, 127, 131, 137, 139, 149, 151, 157, 163, 167, 173, 179, 181, 191, 193, 197, 199, 211,
     223, 227, 229, 233, 239, 241, 251, 257, 263, 269, 271, 277, 281, 283, 293, 307, 311]"
    by (simp add: upt_rec_numeral)
  finally show ?thesis .
qed

text \<open>The roots themselves, in units of \<open>2 ^ -32\<close>.\<close>

definition cube_roots :: "nat list" where
  "cube_roots =
    [5411319704, 6194414737, 7344290767, 8215976869, 9551921755, 10098905585, 11043570340, 11460697813,
     12214315672, 13195500289, 13492127166, 14311783875, 14809980276, 15046980094, 15499789991, 16133124468,
     16720292289, 16907126662, 17444216262, 17784676812, 17950125167, 18429019306, 18734950876, 19175934170,
     19734090066, 20001703533, 20132865992, 20390182855, 20516441075, 20764397895, 21588763473, 21813078375,
     22141143685, 22248366392, 22769593852, 22871018771, 23170020180, 23461497531, 23651862830, 23931792517,
     24205322401, 24295138891, 24734567280, 24820601251, 24990902297, 25075189284, 25569408389, 26045227120,
     26200031510, 26276752392, 26428864332, 26653801653, 26727943347, 27092625994, 27306805839, 27517677555,
     27725365998, 27793908591, 27997534228, 28131656200, 28198240250, 28526537963, 28973835255, 29099129074]"

definition square_roots :: "nat list" where
  "square_roots =
    [6074000999, 7439101573, 9603838834, 11363415354, 14244795007, 15485724812, 17708603819, 18721328409]"

lemma fips_k_list: "List.map (frac_root 3) first_primes = List.map of_nat cube_roots"
proof -
  have "list_all2 (\<lambda>p x. x ^ 3 \<le> p * 2 ^ (32 * 3) \<and> p * 2 ^ (32 * 3) < (x + 1) ^ 3) first_primes cube_roots"
    by (simp add: first_primes_eq cube_roots_def)
  then have "list_all2 (\<lambda>p x. frac_root 3 p = of_nat x) first_primes cube_roots"
    by (rule list_all2_mono) (intro frac_root_eq; simp)
  then show ?thesis by (simp add: list_all2_map1 list_all2_map2 flip: list.rel_eq)
qed

lemma fips_h0_list: "fips_h0 = List.map of_nat square_roots"
proof -
  have "list_all2 (\<lambda>p x. x ^ 2 \<le> p * 2 ^ (32 * 2) \<and> p * 2 ^ (32 * 2) < (x + 1) ^ 2) (take 8 first_primes) square_roots"
    by (simp add: first_primes_eq square_roots_def)
  then have "list_all2 (\<lambda>p x. frac_root 2 p = of_nat x) (take 8 first_primes) square_roots"
    by (rule list_all2_mono) (intro frac_root_eq; simp)
  then show ?thesis by (simp add: fips_h0_def list_all2_map1 list_all2_map2 flip: list.rel_eq)
qed

end
