(* ===== verification/Sha256.thy ===== *)
theory Sha256
  imports StreamHash Sha256Standard
begin

text \<open>
  Model of \<open>src/brickred/codec/sha256.cc\<close>: the constants, the message schedule \<open>sha256_w\<close>, the
  64 steps of \<open>sha256ProcessBlock\<close> and the streaming interface of theory \<open>StreamHash\<close>.
\<close>

definition sha256_k :: "u32 list" where
  "sha256_k =
    [0x428a2f98, 0x71374491, 0xb5c0fbcf, 0xe9b5dba5,
     0x3956c25b, 0x59f111f1, 0x923f82a4, 0xab1c5ed5,
     0xd807aa98, 0x12835b01, 0x243185be, 0x550c7dc3,
     0x72be5d74, 0x80deb1fe, 0x9bdc06a7, 0xc19bf174,
     0xe49b69c1, 0xefbe4786, 0x0fc19dc6, 0x240ca1cc,
     0x2de92c6f, 0x4a7484aa, 0x5cb0a9dc, 0x76f988da,
     0x983e5152, 0xa831c66d, 0xb00327c8, 0xbf597fc7,
     0xc6e00bf3, 0xd5a79147, 0x06ca6351, 0x14292967,
     0x27b70a85, 0x2e1b2138, 0x4d2c6dfc, 0x53380d13,
     0x650a7354, 0x766a0abb, 0x81c2c92e, 0x92722c85,
     0xa2bfe8a1, 0xa81a664b, 0xc24b8b70, 0xc76c51a3,
     0xd192e819, 0xd6990624, 0xf40e3585, 0x106aa070,
     0x19a4c116, 0x1e376c08, 0x2748774c, 0x34b0bcb5,
     0x391c0cb3, 0x4ed8aa4a, 0x5b9cca4f, 0x682e6ff3,
     0x748f82ee, 0x78a5636f, 0x84c87814, 0x8cc70208,
     0x90befffa, 0xa4506ceb, 0xbef9a3f7, 0xc67178f2]"

definition rotr32 :: "u32 \<Rightarrow> nat \<Rightarrow> u32" where
  "rotr32 a n = drop_bit n a OR push_bit (32 - n) a"

definition sha_ch :: "u32 \<Rightarrow> u32 \<Rightarrow> u32 \<Rightarrow> u32" where
  "sha_ch x y z = (x AND y) XOR (NOT x AND z)"

definition sha_maj :: "u32 \<Rightarrow> u32 \<Rightarrow> u32 \<Rightarrow> u32" where
  "sha_maj x y z = (x AND y) XOR (x AND z) XOR (y AND z)"

definition ep0 :: "u32 \<Rightarrow> u32" where "ep0 x = rotr32 x 2 XOR rotr32 x 13 XOR rotr32 x 22"
definition ep1 :: "u32 \<Rightarrow> u32" where "ep1 x = rotr32 x 6 XOR rotr32 x 11 XOR rotr32 x 25"
definition sig0 :: "u32 \<Rightarrow> u32" where "sig0 x = rotr32 x 7 XOR rotr32 x 18 XOR drop_bit 3 x"
definition sig1 :: "u32 \<Rightarrow> u32" where "sig1 x = rotr32 x 17 XOR rotr32 x 19 XOR drop_bit 10 x"

definition sha256_w :: "bytes \<Rightarrow> u32 list" where
  "sha256_w wb =
     foldl (\<lambda>w i. w @ [sig1 (w ! (i - 2)) + w ! (i - 7) + sig0 (w ! (i - 15)) + w ! (i - 16)])
       (List.map (block_be wb) [0..<16]) [16..<64]"

definition sha256_step ::
    "u32 list \<Rightarrow> u32 \<times> u32 \<times> u32 \<times> u32 \<times> u32 \<times> u32 \<times> u32 \<times> u32 \<Rightarrow> nat \<Rightarrow>
       u32 \<times> u32 \<times> u32 \<times> u32 \<times> u32 \<times> u32 \<times> u32 \<times> u32" where
  "sha256_step w = (\<lambda>(a, b, c, d, e, f, g, h) i.
     let t1 = h + ep1 e + sha_ch e f g + sha256_k ! i + w ! i;
         t2 = ep0 a + sha_maj a b c
     in (t1 + t2, a, b, c, d + t1, e, f, g))"

definition sha256ProcessBlock :: compression where
  "sha256ProcessBlock hs wb =
     (let (a, b, c, d, e, f, g, h) =
        foldl (sha256_step (sha256_w wb)) (hs ! 0, hs ! 1, hs ! 2, hs ! 3, hs ! 4, hs ! 5, hs ! 6, hs ! 7) [0..<64]
      in [hs ! 0 + a, hs ! 1 + b, hs ! 2 + c, hs ! 3 + d, hs ! 4 + e, hs ! 5 + f, hs ! 6 + g, hs ! 7 + h])"

definition sha256_iv :: "u32 list" where
  "sha256_iv = [0x6a09e667, 0xbb67ae85, 0x3c6ef372, 0xa54ff53a, 0x510e527f, 0x9b05688c, 0x1f83d9ab, 0x5be0cd19]"

definition sha256_reset :: "hash_ctx \<Rightarrow> hash_ctx" where
  "sha256_reset = hash_reset sha256_iv"

definition sha256_update :: "hash_ctx \<Rightarrow> bytes \<Rightarrow> hash_ctx" where
  "sha256_update = hash_update sha256ProcessBlock"

definition sha256_digest :: "hash_ctx \<Rightarrow> hash_ctx \<times> bytes" where
  "sha256_digest = hash_digest sha256ProcessBlock len_be word_be"

definition sha256_digest_hex :: "hash_ctx \<Rightarrow> hash_ctx \<times> bytes" where
  "sha256_digest_hex c = (let (c, h) = sha256_digest c in (c, hex_output h))"

definition sha256Binary :: "hash_ctx \<Rightarrow> bytes \<Rightarrow> bytes" where
  "sha256Binary ctx buffer = snd (sha256_digest (sha256_update (sha256_reset ctx) buffer))"

definition sha256_string :: "hash_ctx \<Rightarrow> bytes \<Rightarrow> bytes" where
  "sha256_string ctx buffer = snd (sha256_digest_hex (sha256_update (sha256_reset ctx) buffer))"

interpretation sha256: md_hash sha256ProcessBlock sha256_iv len_be word_be
  by unfold_locales (simp_all add: word_be_def sha256_iv_def sha256ProcessBlock_def split: prod.split)

section \<open>The standard\<close>

lemma rotr32_word_rotr: "0 < n \<Longrightarrow> n < 32 \<Longrightarrow> rotr32 x n = word_rotr n x"
  by (rule bit_word_eqI)
    (auto simp: rotr32_def bit_word_rotr_iff bit_or_iff bit_drop_bit_eq bit_push_bit_iff mod_if add.commute [of n] dest: bit_imp_le_length)

lemma sha_functions:
  "sha_ch = fips_ch" "sha_maj = fips_maj" "ep0 = big_sigma0" "ep1 = big_sigma1" "sig0 = small_sigma0" "sig1 = small_sigma1"
  by (simp_all add: fun_eq_iff sha_ch_def fips_ch_def sha_maj_def fips_maj_def ep0_def ep1_def sig0_def sig1_def big_sigma0_def
      big_sigma1_def small_sigma0_def small_sigma1_def rotr32_word_rotr)

lemma sha_constants: "t < 64 \<Longrightarrow> sha256_k ! t = fips_k t" "sha256_iv = fips_h0"
proof -
  have k: "sha256_k = List.map (frac_root 3) first_primes"
    by (simp add: fips_k_list sha256_k_def cube_roots_def)
  have "length first_primes = 64" by (simp add: first_primes_eq)
  then show "t < 64 \<Longrightarrow> sha256_k ! t = fips_k t" by (simp add: k fips_k_def)
  show "sha256_iv = fips_h0" by (simp add: fips_h0_list sha256_iv_def square_roots_def)
qed

lemma be_word: "push_bit 24 (ucast a) OR push_bit 16 (ucast b) OR push_bit 8 (ucast c) OR ucast d =
    (of_nat (((unat a * 256 + unat b) * 256 + unat c) * 256 + unat d) :: u32)" for a b c d :: byte
proof -
  have s: "(push_bit 8 x OR ucast y :: u32) = x * 256 + ucast y" for x :: u32 and y :: byte
  proof -
    have "(push_bit 8 x OR ucast y :: u32) = push_bit 8 x + ucast y"
      by (rule disjunctive_add [symmetric]) (auto simp: bit_simps dest: bit_imp_le_length)
    then show ?thesis by (simp add: push_bit_eq_mult)
  qed
  have "push_bit 24 (ucast a) OR push_bit 16 (ucast b) OR push_bit 8 (ucast c) OR ucast d =
      (push_bit 8 (push_bit 8 (push_bit 8 (ucast a) OR ucast b) OR ucast c) OR ucast d :: u32)"
    by (simp add: push_bit_or or.assoc)
  also have "\<dots> = ((ucast a * 256 + ucast b) * 256 + ucast c) * 256 + ucast d" by (simp only: s)
  finally show ?thesis by simp
qed

lemma block_word: "length b = 64 \<Longrightarrow> i < 16 \<Longrightarrow> block_be b i = fips_word b i"
proof -
  assume l: "length b = 64" "i < 16"
  then have "take 4 (drop (4 * i) b) = [b ! (i * 4), b ! (i * 4 + 1), b ! (i * 4 + 2), b ! (i * 4 + 3)]"
    by (intro nth_equalityI) (auto simp: less_Suc_eq numeral_eq_Suc ac_simps)
  then show ?thesis by (simp add: block_be_def fips_word_def be_word algebra_simps)
qed

lemma schedule_prefix:
  assumes "length b = 64" "n \<le> 48"
  shows "foldl (\<lambda>w i. w @ [sig1 (w ! (i - 2)) + w ! (i - 7) + sig0 (w ! (i - 15)) + w ! (i - 16)])
       (List.map (block_be b) [0..<16]) [16..<16 + n] = List.map (fips_schedule b) [0..<16 + n]"
  using assms(2)
proof (induction n)
  case 0
  show ?case using block_word [OF assms(1)] by (simp add: fips_schedule.simps [of b])
next
  case (Suc n)
  have "[16..<16 + Suc n] = [16..<16 + n] @ [16 + n]" "[0..<16 + Suc n] = [0..<16 + n] @ [16 + n]"
    unfolding add_Suc_right by (simp_all only: upt_Suc_append le_add1 le0)
  then show ?case
    using Suc by (simp add: sha_functions fips_schedule.simps [of b "16 + n"] del: upt_Suc)
qed

lemma sha256_w_nth: "length b = 64 \<Longrightarrow> t < 64 \<Longrightarrow> sha256_w b ! t = fips_schedule b t"
  using schedule_prefix [of b 48] unfolding sha256_w_def by (simp del: upt_rec_numeral foldl_Cons add: nth_map_upt)

definition vars_list :: "u32 \<times> u32 \<times> u32 \<times> u32 \<times> u32 \<times> u32 \<times> u32 \<times> u32 \<Rightarrow> u32 list" where
  "vars_list = (\<lambda>(a, b, c, d, e, f, g, h). [a, b, c, d, e, f, g, h])"

lemma sha256_rounds:
  assumes "length b = 64" "vars_list v = hs" "n \<le> 64"
  shows "vars_list (foldl (sha256_step (sha256_w b)) v [0..<n]) = fips_vars hs b n"
  using assms(3)
proof (induction n)
  case 0
  then show ?case using assms(2) by simp
next
  case (Suc n)
  obtain a1 b1 c1 d1 e1 f1 g1 h1 where v: "foldl (sha256_step (sha256_w b)) v [0..<n] = (a1, b1, c1, d1, e1, f1, g1, h1)"
    by (metis surj_pair)
  have "fips_vars hs b n = [a1, b1, c1, d1, e1, f1, g1, h1]" using Suc v by (simp add: vars_list_def)
  moreover have "sha256_k ! n = fips_k n" "sha256_w b ! n = fips_schedule b n"
    using Suc.prems sha_constants(1) sha256_w_nth [OF assms(1)] by simp_all
  moreover have "sha256_step w (a, b, c, d, e, f, g, h) i = (h + ep1 e + sha_ch e f g + sha256_k ! i + w ! i + (ep0 a + sha_maj a b c), a, b, c,
      d + (h + ep1 e + sha_ch e f g + sha256_k ! i + w ! i), e, f, g)" for w a b c d e f g h i
    by (simp add: sha256_step_def Let_def)
  moreover have "[0..<Suc n] = [0..<n] @ [n]" by simp
  ultimately show ?case
    by (simp add: v vars_list_def sha_functions Let_def del: upt_Suc)
qed

lemma length_8: "length hs = 8 \<Longrightarrow> hs = [hs ! 0, hs ! 1, hs ! 2, hs ! 3, hs ! 4, hs ! 5, hs ! 6, hs ! 7]"
  by (intro nth_equalityI) (auto simp: less_Suc_eq numeral_eq_Suc)

lemma sha256_compress:
  assumes "length hs = 8" "length b = 64"
  shows "sha256ProcessBlock hs b = fips_compress hs b"
proof -
  let ?v = "(hs ! 0, hs ! 1, hs ! 2, hs ! 3, hs ! 4, hs ! 5, hs ! 6, hs ! 7)"
  obtain a1 b1 c1 d1 e1 f1 g1 h1 where v: "foldl (sha256_step (sha256_w b)) ?v [0..<64] = (a1, b1, c1, d1, e1, f1, g1, h1)"
    by (metis surj_pair)
  have "vars_list ?v = hs" using length_8 [OF assms(1)] by (simp add: vars_list_def)
  from sha256_rounds [OF assms(2) this, of 64] v
  have "fips_vars hs b 64 = [a1, b1, c1, d1, e1, f1, g1, h1]" by (simp add: vars_list_def)
  then show ?thesis
    unfolding fips_compress_def sha256ProcessBlock_def v by (subst (9) length_8 [OF assms(1)]) simp
qed

lemma length_fips_vars: "length hs = 8 \<Longrightarrow> length (fips_vars hs b n) = 8"
  by (induction n) (simp_all add: Let_def)

lemma length_fips_compress: "length hs = 8 \<Longrightarrow> length (fips_compress hs b) = 8"
  by (simp add: fips_compress_def length_fips_vars)

lemma absorb_blocks:
  assumes "length hs = 8" "length m = 64 * n"
  shows "fst (absorb sha256ProcessBlock hs m) = foldl fips_compress hs (List.map (fips_block m) [0..<n])"
  using assms
proof (induction n arbitrary: hs m)
  case 0
  then show ?case by (simp add: absorb.simps)
next
  case (Suc n)
  let ?h = "fips_compress hs (take 64 m)"
  have "absorb sha256ProcessBlock hs m = absorb sha256ProcessBlock ?h (drop 64 m)"
    using Suc.prems by (subst absorb.simps) (simp add: sha256_compress)
  moreover have "fst (absorb sha256ProcessBlock ?h (drop 64 m)) = foldl fips_compress ?h (List.map (fips_block (drop 64 m)) [0..<n])"
    using Suc.prems by (intro Suc.IH) (simp_all add: length_fips_compress)
  moreover have "List.map (fips_block m) [0..<Suc n] = take 64 m # List.map (fips_block (drop 64 m)) [0..<n]"
    unfolding upt_conv_Cons [OF zero_less_Suc] map_Suc_upt [symmetric] by (simp add: fips_block_def o_def ac_simps)
  ultimately show ?case by simp
qed

lemma big_endian_8: "big_endian 8 n = List.map (\<lambda>k. of_nat (n div 2 ^ k)) [56, 48, 40, 32, 24, 16, 8, 0]"
proof -
  have "rev [0..<8] = [7, 6, 5, 4, 3, 2, 1, 0 :: nat]" by (simp add: upt_rec)
  then show ?thesis unfolding big_endian_def by simp
qed

lemma big_endian_4: "big_endian 4 n = List.map (\<lambda>k. of_nat (n div 2 ^ k)) [24, 16, 8, 0]"
proof -
  have "rev [0..<4] = [3, 2, 1, 0 :: nat]" by (simp add: upt_rec)
  then show ?thesis unfolding big_endian_def by simp
qed

lemma length_bits: "len_be (of_nat n * 8) = big_endian 8 (8 * n)"
proof -
  have "ucast (drop_bit k (of_nat (8 * n) :: u64)) = (of_nat (8 * n div 2 ^ k) :: byte)" if "k \<le> 56" for k
    by (rule bit_word_eqI) (use that in \<open>simp add: bit_simps del: of_nat_mult flip: drop_bit_eq_div\<close>)
  then have "ucast (drop_bit k (of_nat n * 8 :: u64)) = (of_nat (8 * n div 2 ^ k) :: byte)" if "k \<le> 56" for k
    using that by (simp add: ac_simps)
  then show ?thesis unfolding len_be_def big_endian_8 by (intro map_cong refl) auto
qed

lemma word_bytes: "word_be v = big_endian 4 (unat v)"
proof -
  have "ucast (drop_bit k v) = (of_nat (unat v div 2 ^ k) :: byte)" for k
  proof -
    have "unat v div 2 ^ k = unat (drop_bit k v)" unfolding unat_drop_bit_eq by (rule drop_bit_eq_div [symmetric])
    then show ?thesis by (simp only: of_nat_unat)
  qed
  from this [of 24] this [of 16] this [of 8] this [of 0] show ?thesis unfolding word_be_def big_endian_4 by simp
qed

lemma sha256_standard: "md_hash_of sha256ProcessBlock sha256_iv len_be word_be m = fips_sha256 m"
proof -
  define p where "p = m @ padding len_be (length m)"
  have fp: "fips_padded m = p" unfolding p_def fips_padded_def padding_def length_bits by simp
  have "length p mod 64 = 0" unfolding p_def by (rule sha256.padded_length)
  then have "length p = 64 * (length p div 64)" by presburger
  then have "fst (absorb sha256ProcessBlock sha256_iv p) = foldl fips_compress sha256_iv (List.map (fips_block p) [0..<length p div 64])"
    by (intro absorb_blocks) (simp_all add: sha256_iv_def)
  moreover have "word_be = (\<lambda>h. big_endian 4 (unat h))" by (rule ext) (rule word_bytes)
  ultimately show ?thesis unfolding md_hash_of_def fips_sha256_def fp Let_def p_def [symmetric] sha_constants(2) by simp
qed

text \<open>
  C26 (refinement): \<open>codec/sha256.cc\<close> computes SHA-256 of the standard (theory \<open>Sha256Standard\<close>: padding, schedule, rounds, and
  constants that are the roots of the first primes), also when the message comes in pieces: however it is cut,
  the context gives the digest of the whole message, in 32 bytes, and the uninitialised contents of the
  work block do not matter. (The length is taken modulo \<open>2 ^ 64\<close> bits; the standard allows no longer message.)
\<close>

theorem sha256_streaming:
  assumes "length (hc_work_block ctx) = 64" "length (hc_work_block ctx') = 64"
  shows "snd (sha256_digest (foldl sha256_update (sha256_reset ctx) bs)) = fips_sha256 (concat bs) \<and>
    sha256Binary ctx' (concat bs) = fips_sha256 (concat bs) \<and> length (fips_sha256 (concat bs)) = 32"
  using sha256.stream [OF assms(1), of bs] sha256.stream [OF assms(2), of "[concat bs]"] sha256.digest_length [of "concat bs"]
  by (simp add: sha256_digest_def sha256_update_def sha256_reset_def sha256Binary_def sha256_iv_def
      flip: sha256_standard [unfolded sha256_iv_def])

theorem sha256_streaming_witness:
  "snd (sha256_digest (foldl sha256_update (sha256_reset blank_ctx) [str ''ab'', str ''c''])) = fips_sha256 (str ''abc'')"
  using sha256_streaming [of blank_ctx blank_ctx "[str ''ab'', str ''c'']"] by (simp add: blank_ctx_def str_def)

end
