(* ===== verification/WebSocketProtocol.thy ===== *)
theory WebSocketProtocol
  imports HttpProtocol Base64 Sha1
begin

text \<open>
  Model of \<open>src/brickred/protocol/web_socket_protocol.{h,cc}\<close>: the opening handshake on both
  sides, the frame parser, the frame writers and the status machine of \<open>recvMessage\<close>. As in
  \<open>HttpProtocol\<close>, a handler returns its code with the updated protocol and input buffer, here
  also with the blocks it hands to \<open>output_cb_\<close>, and \<open>None\<close> is undefined behaviour.
\<close>

section \<open>State\<close>

datatype ws_status =
  WS_DETACHED | WS_WAITING_HANDSHAKE_REQUEST | WS_WAITING_HANDSHAKE_RESPONSE | WS_CONNECTED |
  WS_FINISHED | WS_CLOSED | WS_PENDING_ERROR

datatype ws_ret =
  WS_ERROR | WS_WAITING_MORE_DATA | WS_CONNECTION_ESTABLISHED | WS_MESSAGE_READY | WS_PEER_CLOSED |
  WS_PING_FRAME | WS_PONG_FRAME

record web_socket =
  ws_status :: ws_status
  ws_output_cb :: bool
  ws_http :: http_protocol
  ws_handshake_headers :: header_map
  ws_control_message :: dynamic_buffer
  ws_message :: dynamic_buffer
  ws_is_client :: bool
  ws_close_frame_sent :: bool
  ws_last_op_code :: int
  ws_ret_code :: ws_ret
  ws_message_size_max :: nat

text \<open>
  What the protocol takes from outside during one call: the results of the successive
  \<open>random_generator_->nextInt(256)\<close>, the clock and the formatting of a date.
\<close>

record ws_env =
  env_random :: "nat \<Rightarrow> byte"
  env_clock :: int
  env_format :: "bytes \<Rightarrow> int \<Rightarrow> bytes"

definition ws_impl_new :: web_socket where
  "ws_impl_new = \<lparr>ws_status = WS_DETACHED, ws_output_cb = False, ws_http = hp_new,
     ws_handshake_headers = [], ws_control_message = db_new 1024 1024, ws_message = db_new 1024 1024,
     ws_is_client = False, ws_close_frame_sent = False, ws_last_op_code = -1, ws_ret_code = WS_ERROR,
     ws_message_size_max = 0\<rparr>"

definition ws_setMessageMaxSize :: "web_socket \<Rightarrow> nat \<Rightarrow> web_socket" where
  "ws_setMessageMaxSize w n = (if n = 0 then w else w\<lparr>ws_message_size_max := n\<rparr>)"

definition ws_new :: web_socket where
  "ws_new = ws_setMessageMaxSize ws_impl_new (1024 * 1024)"

definition ws_setOutputCallback :: "web_socket \<Rightarrow> bool \<Rightarrow> web_socket" where
  "ws_setOutputCallback w cb = w\<lparr>ws_http := hp_setOutputCallback (ws_http w) cb, ws_output_cb := cb\<rparr>"

definition ws_setHandshakeHeader :: "web_socket \<Rightarrow> bytes \<Rightarrow> bytes \<Rightarrow> web_socket" where
  "ws_setHandshakeHeader w key value =
     w\<lparr>ws_handshake_headers := om_set ci_less key value (ws_handshake_headers w)\<rparr>"

text \<open>A call of \<open>output_cb_\<close>, when it is set.\<close>

definition ws_output :: "web_socket \<Rightarrow> bytes \<Rightarrow> bytes list" where
  "ws_output w block = (if ws_output_cb w then [block] else [])"

section \<open>Opening handshake\<close>

text \<open>The loop \<open>setHeader(iter->first, iter->second)\<close> over \<open>handshake_headers_\<close>.\<close>

definition set_headers :: "header_map \<Rightarrow> 'a http_message_scheme \<Rightarrow> 'a http_message_scheme" where
  "set_headers hs m = foldl (\<lambda>m kv. setHeader m (fst kv) (snd kv)) m hs"

definition ws_startAsClient ::
    "ws_env \<Rightarrow> web_socket \<Rightarrow> bytes \<Rightarrow> u16 \<Rightarrow> bytes \<Rightarrow> (bool \<times> web_socket \<times> bytes list) option" where
  "ws_startAsClient env w peer_ip peer_port request_uri =
     (if ws_status w \<noteq> WS_DETACHED then Some (False, w, [])
      else
        let w = w\<lparr>ws_status := WS_WAITING_HANDSHAKE_RESPONSE, ws_is_client := True\<rparr>;
            request = setVersion http_request_new HTTP_1_1;
            request = setMethod request M_GET;
            request = setRequestUri request (cstr request_uri);
            request = setHeader request (str ''Upgrade'') (str ''websocket'');
            request = setHeader request (str ''Connection'') (str ''Upgrade'');
            request = setHeader request (str ''Sec-WebSocket-Version'') (str ''13'');
            w = (if om_find ci_less (str ''Sec-WebSocket-Key'') (ws_handshake_headers w) = None
                 then ws_setHandshakeHeader w (str ''Sec-WebSocket-Key'')
                        (base64Encode_str (List.map (env_random env) [0..<16]))
                 else w);
            w = (if om_find ci_less (str ''Host'') (ws_handshake_headers w) = None
                 then ws_setHandshakeHeader w (str ''Host'')
                        (peer_ip @ str '':'' @ toString_int (ucast peer_port))
                 else w);
            request = set_headers (ws_handshake_headers w) request
        in do {
          out \<leftarrow> hp_sendMessage (ws_http w) (Request request);
          Some (True, w, out) })"

definition ws_startAsServer :: "web_socket \<Rightarrow> bool \<times> web_socket" where
  "ws_startAsServer w =
     (if ws_status w \<noteq> WS_DETACHED then (False, w)
      else (True, w\<lparr>ws_status := WS_WAITING_HANDSHAKE_REQUEST, ws_is_client := False\<rparr>))"

definition checkHandshakeRequestValid :: "http_request \<Rightarrow> bool" where
  "checkHandshakeRequestValid request =
     (if \<not> hasHeader request (str ''Host'') then False
      else if \<not> headerContain request (str ''Upgrade'') (str ''websocket'') then False
      else if \<not> headerContain request (str ''Connection'') (str ''Upgrade'') then False
      else if length (getHeader request (str ''Sec-WebSocket-Key'')) \<noteq> 24 then False
      else if \<not> headerEqual request (str ''Sec-WebSocket-Version'') (str ''13'') then False
      else True)"

definition handshakeErrorResponse :: bytes where
  "handshakeErrorResponse = str ''HTTP/1.1 400 Bad Request'' @ crlf @ crlf"

text \<open>
  \<open>base64Encode(sha1Binary(sec_key + ...))\<close>. The work block of the fresh hash context is not
  initialised; its contents do not matter (theorem \<open>sha1_streaming\<close>).
\<close>

definition sec_accept :: "bytes \<Rightarrow> bytes" where
  "sec_accept sec_key =
     base64Encode_str (sha1Binary blank_ctx (sec_key @ str ''258EAFA5-E914-47DA-95CA-C5AB0DC85B11''))"

definition handshakeSuccessResponse :: "ws_env \<Rightarrow> web_socket \<Rightarrow> http_request \<Rightarrow> http_response" where
  "handshakeSuccessResponse env w request =
     (let sec_key = getHeader request (str ''Sec-WebSocket-Key'');
          response = setVersion http_response_new HTTP_1_1;
          response = setStatusCode response 101;
          response = setReasonPhrase response (str ''Switching Protocols'');
          response = setHeader response (str ''Upgrade'') (str ''websocket'');
          response = setHeader response (str ''Connection'') (str ''Upgrade'');
          response = setHeader response (str ''Sec-WebSocket-Accept'') (sec_accept sec_key);
          response = set_headers (ws_handshake_headers w) response
      in if hasHeader response (str ''Date'') then setDate (env_clock env) (env_format env) response 0
         else response)"

type_synonym ws_result = "(int \<times> web_socket \<times> dynamic_buffer \<times> bytes list) option"

definition readHandshakeRequest :: "ws_env \<Rightarrow> web_socket \<Rightarrow> dynamic_buffer \<Rightarrow> ws_result" where
  "readHandshakeRequest env w b =
     (case hp_recvMessage (ws_http w) b of
        None \<Rightarrow> None
      | Some (ret, http, b) \<Rightarrow>
          let w = w\<lparr>ws_http := http\<rparr>
          in case ret of
            RET_WAITING_MORE_DATA \<Rightarrow> Some (0, w, b, [])
          | RET_MESSAGE_READY \<Rightarrow>
              let (ok, http, request) = retrieveRequest (ws_http w) http_request_new;
                  w = w\<lparr>ws_http := http\<rparr>
              in if \<not> ok then Some (-1, w, b, ws_output w handshakeErrorResponse)
                 else if \<not> checkHandshakeRequestValid request
                 then Some (-1, w, b, ws_output w handshakeErrorResponse)
                 else do {
                   out \<leftarrow> hp_sendMessage (ws_http w) (Response (handshakeSuccessResponse env w request));
                   Some (2, w\<lparr>ws_status := WS_CONNECTED, ws_ret_code := WS_CONNECTION_ESTABLISHED\<rparr>, b, out) }
          | RET_ERROR \<Rightarrow> Some (-1, w, b, ws_output w handshakeErrorResponse))"

definition checkHandshakeResponseValid :: "http_response \<Rightarrow> bytes \<Rightarrow> bool" where
  "checkHandshakeResponseValid response sec_key =
     (if hs_status_code response \<noteq> 101 then False
      else if \<not> headerContain response (str ''Upgrade'') (str ''websocket'') then False
      else if \<not> headerContain response (str ''Connection'') (str ''Upgrade'') then False
      else if \<not> headerEqual response (str ''Sec-WebSocket-Accept'') (sec_accept sec_key) then False
      else True)"

text \<open>\<open>handshake_headers_["Sec-WebSocket-Key"]\<close> inserts an empty value when there is none.\<close>

definition handshake_key :: "web_socket \<Rightarrow> web_socket \<times> bytes" where
  "handshake_key w =
     (case om_find ci_less (str ''Sec-WebSocket-Key'') (ws_handshake_headers w) of
        Some key \<Rightarrow> (w, key)
      | None \<Rightarrow> (ws_setHandshakeHeader w (str ''Sec-WebSocket-Key'') [], []))"

definition readHandshakeResponse :: "web_socket \<Rightarrow> dynamic_buffer \<Rightarrow> ws_result" where
  "readHandshakeResponse w b =
     (case hp_recvMessage (ws_http w) b of
        None \<Rightarrow> None
      | Some (ret, http, b) \<Rightarrow>
          let w = w\<lparr>ws_http := http\<rparr>
          in case ret of
            RET_WAITING_MORE_DATA \<Rightarrow> Some (0, w, b, [])
          | RET_MESSAGE_READY \<Rightarrow>
              let (ok, http, response) = retrieveResponse (ws_http w) http_response_new;
                  w = w\<lparr>ws_http := http\<rparr>
              in if \<not> ok then Some (-1, w, b, [])
                 else
                   let (w, key) = handshake_key w
                   in if \<not> checkHandshakeResponseValid response key then Some (-1, w, b, [])
                      else Some (2, w\<lparr>ws_status := WS_CONNECTED,
                                     ws_ret_code := WS_CONNECTION_ESTABLISHED\<rparr>, b, [])
          | RET_ERROR \<Rightarrow> Some (-1, w, b, []))"

section \<open>Frame header\<close>

record frame =
  fr_fin :: bool
  fr_opcode :: int
  fr_payload_length :: nat
  fr_mask_key :: "bytes option"
  fr_offset :: nat
  fr_left :: nat

definition is_control :: "int \<Rightarrow> bool" where
  "is_control opcode \<longleftrightarrow> opcode \<ge> 8"

text \<open>
  The extended payload length: \<open>Inl\<close> is a return code, \<open>Inr\<close> the payload length with the
  offset behind the length field.
\<close>

definition payload_length :: "dynamic_buffer \<Rightarrow> nat \<Rightarrow> (int + nat \<times> nat) option" where
  "payload_length b len =
     (if len = 126 then
        case db_peekInt16_wide b 2 False :: u64 option option of
          None \<Rightarrow> None
        | Some None \<Rightarrow> Some (Inl 0)
        | Some (Some v) \<Rightarrow> if unat v < 126 then Some (Inl (-1)) else Some (Inr (unat v, 4))
      else if len = 127 then
        case db_peekInt64 b 2 False of
          None \<Rightarrow> None
        | Some None \<Rightarrow> Some (Inl 0)
        | Some (Some v) \<Rightarrow>
            if unat v \<le> 0xffff then Some (Inl (-1))
            else if drop_bit 63 v \<noteq> 0 then Some (Inl (-1))
            else Some (Inr (unat v, 10))
      else Some (Inr (len, 2)))"

definition frame_header :: "web_socket \<Rightarrow> dynamic_buffer \<Rightarrow> (int + frame) option" where
  "frame_header w b =
     (if db_readableBytes b < 2 then Some (Inl 0)
      else case db_readBegin b 0 (db_readableBytes b) of
        None \<Rightarrow> None
      | Some d \<Rightarrow>
        if d ! 0 AND 0x70 \<noteq> 0 then Some (Inl (-1))
        else
          let fin = (d ! 0 AND 0x80 \<noteq> 0);
              opcode = uint (d ! 0 AND 0x0f);
              len = unat (d ! 1 AND 0x7f)
          in if is_control opcode \<and> \<not> fin then Some (Inl (-1))
             else if is_control opcode \<and> len \<ge> 126 then Some (Inl (-1))
             else case payload_length b len of
               None \<Rightarrow> None
             | Some (Inl ret) \<Rightarrow> Some (Inl ret)
             | Some (Inr (plen, p)) \<Rightarrow>
                 let left = db_readableBytes b - p
                 in if \<not> is_control opcode \<and>
                       sz (db_readableBytes (ws_message w) + plen) > ws_message_size_max w
                    then Some (Inl (-1))
                    else if d ! 1 AND 0x80 \<noteq> 0 then
                      if ws_is_client w then Some (Inl (-1))
                      else if left < 4 then Some (Inl 0)
                      else Some (Inr \<lparr>fr_fin = fin, fr_opcode = opcode, fr_payload_length = plen,
                        fr_mask_key = Some (take 4 (drop p d)), fr_offset = p + 4, fr_left = left - 4\<rparr>)
                    else
                      if \<not> ws_is_client w then Some (Inl (-1))
                      else Some (Inr \<lparr>fr_fin = fin, fr_opcode = opcode, fr_payload_length = plen,
                        fr_mask_key = None, fr_offset = p, fr_left = left\<rparr>))"

section \<open>Frame payload\<close>

text \<open>\<open>x[i] ^= mask_key[i & 0x03]\<close> for all \<open>i\<close>.\<close>

definition apply_mask :: "bytes \<Rightarrow> bytes \<Rightarrow> bytes" where
  "apply_mask key xs = List.map (\<lambda>i. xs ! i XOR key ! (i AND 3)) [0..<length xs]"

definition unmask :: "bytes option \<Rightarrow> bytes \<Rightarrow> bytes" where
  "unmask key xs = (case key of None \<Rightarrow> xs | Some k \<Rightarrow> apply_mask k xs)"

text \<open>
  The payload is appended, unmasked, to the control message or to the data message, and the
  frame is consumed; \<open>Inl\<close> is the return when it is not complete.
\<close>

definition frame_payload ::
    "frame \<Rightarrow> web_socket \<Rightarrow> dynamic_buffer \<Rightarrow> (int + web_socket \<times> dynamic_buffer) option" where
  "frame_payload f w b =
     (let n = fr_payload_length f
      in if n > 0 then
           if fr_left f < n then Some (Inl 0)
           else do {
             d \<leftarrow> db_readBegin b (fr_offset f) n;
             m \<leftarrow> db_append (if is_control (fr_opcode f) then ws_control_message w else ws_message w)
               (unmask (fr_mask_key f) d);
             let w = (if is_control (fr_opcode f) then w\<lparr>ws_control_message := m\<rparr> else w\<lparr>ws_message := m\<rparr>);
             Some (Inr (w, db_read b (fr_offset f + n))) }
         else Some (Inr (w, db_read b (fr_offset f))))"

section \<open>Control frames\<close>

definition sendCloseFrame :: "web_socket \<Rightarrow> web_socket \<times> bytes list" where
  "sendCloseFrame w =
     (if ws_status w \<noteq> WS_CONNECTED then (w, [])
      else if ws_close_frame_sent w then (w, [])
      else
        let w = w\<lparr>ws_close_frame_sent := True\<rparr>
        in (w, ws_output w (if ws_is_client w then [0x88, 0x80, 0, 0, 0, 0] else [0x88, 0])))"

definition sendPingFrame :: "web_socket \<Rightarrow> bytes list" where
  "sendPingFrame w =
     (if ws_status w \<noteq> WS_CONNECTED then []
      else if ws_close_frame_sent w then []
      else ws_output w (if ws_is_client w then [0x89, 0x80, 0, 0, 0, 0] else [0x89, 0]))"

text \<open>
  The frames are assembled in arrays of 256 and 128 bytes on the stack: a write behind their
  end is \<open>None\<close>.
\<close>

definition sendPongFrame :: "ws_env \<Rightarrow> web_socket \<Rightarrow> bytes list option" where
  "sendPongFrame env w =
     (if ws_status w \<noteq> WS_CONNECTED then Some []
      else if ws_close_frame_sent w then Some []
      else if \<not> ws_output_cb w then Some []
      else
        let n = db_readableBytes (ws_control_message w)
        in if ws_is_client w then do {
             d \<leftarrow> db_readBegin (ws_control_message w) 0 n;
             let key = List.map (env_random env) [0..<4];
             client_frame \<leftarrow> mem_write (replicate 256 0) 0
               ([0x8a, of_nat n OR 0x80] @ key @ apply_mask key d);
             Some [take (n + 6) client_frame] }
           else do {
             d \<leftarrow> db_readBegin (ws_control_message w) 0 n;
             server_frame \<leftarrow> mem_write (replicate 128 0) 0 ([0x8a, of_nat n] @ d);
             Some [take (n + 2) server_frame] })"

section \<open>Processing a frame\<close>

definition finish_frame :: "ws_env \<Rightarrow> int \<Rightarrow> web_socket \<Rightarrow> dynamic_buffer \<Rightarrow> ws_result" where
  "finish_frame env opcode w b =
     (if opcode = 1 \<or> opcode = 2 then Some (1, w\<lparr>ws_status := WS_FINISHED\<rparr>, b, [])
      else if opcode = 8 then
        let (w, out) = sendCloseFrame w
        in Some (1, w\<lparr>ws_status := WS_CLOSED, ws_control_message := db_clear (ws_control_message w),
                 ws_message := db_clear (ws_message w)\<rparr>, b, out)
      else if opcode = 9 then do {
        out \<leftarrow> sendPongFrame env w;
        Some (2, w\<lparr>ws_control_message := db_clear (ws_control_message w), ws_ret_code := WS_PING_FRAME\<rparr>,
          b, out) }
      else if opcode = 10 then
        Some (2, w\<lparr>ws_control_message := db_clear (ws_control_message w), ws_ret_code := WS_PONG_FRAME\<rparr>, b, [])
      else Some (-1, w, b, []))"

definition process_frame :: "ws_env \<Rightarrow> frame \<Rightarrow> web_socket \<Rightarrow> dynamic_buffer \<Rightarrow> ws_result" where
  "process_frame env f w b =
     (if \<not> fr_fin f then
        if fr_opcode f \<noteq> 0 then
          if ws_last_op_code w \<noteq> -1 then Some (-1, w, b, [])
          else Some (1, w\<lparr>ws_last_op_code := fr_opcode f\<rparr>, b, [])
        else
          if ws_last_op_code w = -1 then Some (-1, w, b, []) else Some (1, w, b, [])
      else
        if fr_opcode f = 0 then
          if ws_last_op_code w = -1 then Some (-1, w, b, [])
          else finish_frame env (ws_last_op_code w) (w\<lparr>ws_last_op_code := -1\<rparr>) b
        else if \<not> is_control (fr_opcode f) \<and> ws_last_op_code w \<noteq> -1 then Some (-1, w, b, [])
        else finish_frame env (fr_opcode f) w b)"

definition readFrame :: "ws_env \<Rightarrow> web_socket \<Rightarrow> dynamic_buffer \<Rightarrow> ws_result" where
  "readFrame env w b =
     (case frame_header w b of
        None \<Rightarrow> None
      | Some (Inl ret) \<Rightarrow> Some (ret, w, b, [])
      | Some (Inr f) \<Rightarrow>
          (case frame_payload f w b of
             None \<Rightarrow> None
           | Some (Inl ret) \<Rightarrow> Some (ret, w, b, [])
           | Some (Inr (w, b)) \<Rightarrow> process_frame env f w b))"

section \<open>The dispatcher\<close>

fun ws_status_handler ::
    "ws_status \<Rightarrow> (ws_env \<Rightarrow> web_socket \<Rightarrow> dynamic_buffer \<Rightarrow> ws_result) option" where
  "ws_status_handler WS_DETACHED = None"
| "ws_status_handler WS_WAITING_HANDSHAKE_REQUEST = Some readHandshakeRequest"
| "ws_status_handler WS_WAITING_HANDSHAKE_RESPONSE = Some (\<lambda>env. readHandshakeResponse)"
| "ws_status_handler WS_CONNECTED = Some readFrame"
| "ws_status_handler WS_FINISHED = None"
| "ws_status_handler WS_CLOSED = None"
| "ws_status_handler WS_PENDING_ERROR = None"

lemma handshake_not_1:
  "readHandshakeRequest env w b \<noteq> Some (1, w', b', out)" "readHandshakeResponse w b \<noteq> Some (1, w', b', out)"
  by (auto simp: readHandshakeRequest_def readHandshakeResponse_def Let_def bind_eq_Some_conv
      split: option.split http_ret.split prod.split)

lemma frame_header_offset:
  "frame_header w b = Some (Inr f) \<Longrightarrow> 2 \<le> fr_offset f \<and> 2 \<le> db_readableBytes b"
  by (auto simp: frame_header_def payload_length_def Let_def split: option.split_asm sum.split_asm prod.split_asm if_split_asm)

lemma process_frame_buffer: "process_frame env f w b = Some (ret, w', b', out) \<Longrightarrow> b' = b"
  by (auto simp: process_frame_def finish_frame_def bind_eq_Some_conv split: if_split_asm prod.split_asm)

lemma readFrame_progress:
  assumes "readFrame env w b = Some (1, w', b', out)"
  shows "db_readableBytes b' < db_readableBytes b"
proof -
  obtain f where f: "frame_header w b = Some (Inr f)"
    using assms by (auto simp: readFrame_def frame_header_def payload_length_def Let_def
        split: option.split_asm sum.split_asm prod.split_asm if_split_asm)
  obtain w1 b1 where "frame_payload f w b = Some (Inr (w1, b1))" "process_frame env f w1 b1 = Some (1, w', b', out)"
    using assms f by (auto simp: readFrame_def frame_payload_def Let_def bind_eq_Some_conv
        split: option.split_asm sum.split_asm prod.split_asm if_split_asm)
  then have "b' = db_read b (fr_offset f + fr_payload_length f)"
    using process_frame_buffer [of env f w1 b1 1 w' b' out]
    by (auto simp: frame_payload_def Let_def bind_eq_Some_conv split: if_split_asm)
  then show ?thesis using frame_header_offset [OF f] by (simp add: db_readableBytes_read)
qed

lemma ws_handler_progress:
  "ws_status_handler s = Some f \<Longrightarrow> f env w b = Some (1, w', b', out) \<Longrightarrow>
     db_readableBytes b' < db_readableBytes b"
  by (cases s) (auto dest: readFrame_progress simp: handshake_not_1)

text \<open>The blocks sent on the way are collected in front of those of the rest.\<close>

function ws_recvMessage ::
    "ws_env \<Rightarrow> web_socket \<Rightarrow> dynamic_buffer \<Rightarrow> (ws_ret \<times> web_socket \<times> dynamic_buffer \<times> bytes list) option" where
  "ws_recvMessage env w b =
     (case ws_status_handler (ws_status w) of
        None \<Rightarrow> Some (WS_ERROR, w, b, [])
      | Some func \<Rightarrow>
      (case func env w b of
        None \<Rightarrow> None
      | Some (ret, w', b', out) \<Rightarrow>
          if ret = 0 then Some (WS_WAITING_MORE_DATA, w', b', out)
          else if ret = -1 then Some (WS_ERROR, w'\<lparr>ws_status := WS_PENDING_ERROR\<rparr>, b', out)
          else if ret = 2 then Some (ws_ret_code w', w', b', out)
          else if ws_status w' = WS_FINISHED then Some (WS_MESSAGE_READY, w', b', out)
          else if ws_status w' = WS_CLOSED then Some (WS_PEER_CLOSED, w', b', out)
          else if ret = 1 then
            map_option (\<lambda>(r, w'', b'', out'). (r, w'', b'', out @ out')) (ws_recvMessage env w' b')
          else None))"
  by pat_completeness auto
termination
  by (relation "measure (\<lambda>(env, w, b). db_readableBytes b)") (auto dest: ws_handler_progress)

declare ws_recvMessage.simps [simp del]

definition ws_retrieveMessage ::
    "web_socket \<Rightarrow> dynamic_buffer \<Rightarrow> bool \<times> web_socket \<times> dynamic_buffer" where
  "ws_retrieveMessage w message =
     (if ws_status w \<noteq> WS_FINISHED then (False, w, message)
      else
        let (message, m) = db_swap message (ws_message w)
        in (True, w\<lparr>ws_message := db_clear m, ws_status := WS_CONNECTED\<rparr>, message))"

section \<open>Sending a message\<close>

definition ws_sendMessage :: "ws_env \<Rightarrow> web_socket \<Rightarrow> bytes \<Rightarrow> bytes list option" where
  "ws_sendMessage env w buffer =
     (if ws_status w \<noteq> WS_CONNECTED then Some []
      else if ws_close_frame_sent w then Some []
      else do {
        let n = length buffer;
        let flag = (if ws_is_client w then 0x80 else 0);
        m \<leftarrow> db_reserveWritableBytes (db_new 1024 1024) 2;
        m \<leftarrow> db_writeBegin m 0 [0x82];
        let m = db_write m 1;
        m \<leftarrow> (if n < 126 then do {
                m \<leftarrow> db_writeBegin m 0 [flag OR of_nat n];
                Some (db_write m 1) }
              else if n \<le> 65535 then do {
                m \<leftarrow> db_writeBegin m 0 [flag OR 126];
                db_writeInt16 (db_write m 1) (of_nat n) False }
              else do {
                m \<leftarrow> db_writeBegin m 0 [flag OR 127];
                db_writeInt64 (db_write m 1) (of_nat n) False });
        let key = List.map (env_random env) [0..<4];
        m \<leftarrow> (if ws_is_client w then db_append m key else Some m);
        m \<leftarrow> db_append m (if ws_is_client w then apply_mask key buffer else buffer);
        out \<leftarrow> db_readBegin m 0 (db_readableBytes m);
        Some (ws_output w out) })"

section \<open>Frames on the wire\<close>

text \<open>
  The encoding of a frame by RFC 6455: final bit and opcode, masking bit and payload length in
  its shortest form, masking key, payload under the mask.
\<close>

definition length_field :: "byte \<Rightarrow> nat \<Rightarrow> bytes" where
  "length_field flag n =
     (if n < 126 then [flag OR of_nat n]
      else if n \<le> 65535 then (flag OR 126) # int16_bytes (of_nat n) False
      else (flag OR 127) # int64_bytes (of_nat n) False)"

definition frame_bytes :: "bool \<Rightarrow> nat \<Rightarrow> bytes option \<Rightarrow> bytes \<Rightarrow> bytes" where
  "frame_bytes fin opcode key payload =
     ((if fin then 0x80 else 0) OR of_nat opcode) #
       length_field (if key = None then 0 else 0x80) (length payload) @
       (case key of None \<Rightarrow> [] | Some k \<Rightarrow> k) @ unmask key payload"

lemma first_bytes: "list_all (\<lambda>op. \<forall>fin \<in> {True, False}.
    let c = (if fin then 0x80 else 0) OR of_nat op :: byte
    in c AND 0x70 = 0 \<and> (c AND 0x80 \<noteq> 0) = fin \<and> uint (c AND 0x0f) = int op) [0..<16]"
  by code_simp

lemma second_bytes: "list_all (\<lambda>n. \<forall>flag \<in> {0x80, 0 :: byte}.
    unat ((flag OR of_nat n) AND 0x7f) = n \<and> ((flag OR of_nat n) AND 0x80 \<noteq> 0) = (flag \<noteq> 0)) [0..<128]"
  by code_simp

lemma first_byte:
  assumes "op < 16"
  shows "((if fin then 0x80 else 0) OR of_nat op :: byte) AND 0x70 = 0"
    "(((if fin then 0x80 else 0) OR of_nat op :: byte) AND 0x80 \<noteq> 0) = fin"
    "uint (((if fin then 0x80 else 0) OR of_nat op :: byte) AND 0x0f) = int op"
  using first_bytes assms by (cases fin; auto simp: list_all_iff Let_def)+

lemma second_byte:
  fixes flag :: byte
  assumes "n < 128" "flag = 0x80 \<or> flag = 0"
  shows "unat ((flag OR of_nat n) AND 0x7f) = n" "((flag OR of_nat n) AND 0x80 \<noteq> 0) = (flag \<noteq> 0)"
  using second_bytes assms by (auto simp: list_all_iff)

lemma mask_involution: "length key = 4 \<Longrightarrow> apply_mask key (apply_mask key xs) = xs"
  by (rule nth_equalityI) (simp_all add: apply_mask_def xor.assoc)

lemma length_apply_mask [simp]: "length (apply_mask key xs) = length xs"
  by (simp add: apply_mask_def)

lemma length_unmask [simp]: "length (unmask key xs) = length xs"
  by (simp add: unmask_def split: option.split)

lemma unmask_unmask: "(\<forall>k. key = Some k \<longrightarrow> length k = 4) \<Longrightarrow> unmask key (unmask key xs) = xs"
  by (cases key) (simp_all add: unmask_def mask_involution)

definition length_code :: "nat \<Rightarrow> nat" where
  "length_code n = (if n < 126 then n else if n \<le> 65535 then 126 else 127)"

lemma length_field_head: "\<exists>r. length_field flag n = (flag OR of_nat (length_code n)) # r \<and>
    r = (if n < 126 then [] else if n \<le> 65535 then int16_bytes (of_nat n) False else int64_bytes (of_nat n) False)"
  by (simp add: length_field_def length_code_def)

lemma length_length_field:
  "length (length_field flag n) = (if n < 126 then 1 else if n \<le> 65535 then 3 else 9)"
  by (simp add: length_field_def)

lemma payload_length_decode:
  assumes wf: "db_wf b" and d: "db_data b = c # length_field flag n @ t" and n: "n < 2 ^ 63"
  shows "payload_length b (length_code n) = Some (Inr (n, 1 + length (length_field flag n)))"
proof -
  have len: "db_readableBytes b = 1 + length (length_field flag n) + length t"
    using length_db_data [OF wf] d by simp
  consider "n < 126" | "126 \<le> n" "n \<le> 65535" | "65535 < n" by linarith
  then show ?thesis
  proof cases
    case 1
    then show ?thesis by (simp add: payload_length_def length_code_def length_length_field)
  next
    case 2
    have "take 2 (drop 2 (db_data b)) = int16_bytes (of_nat n) False"
      using 2 d by (simp add: length_field_def int16_bytes_def)
    then have "db_peekInt16 b 2 False = Some (Some (of_nat n))"
      using 2 len wf by (intro db_peek_in(2)) (simp_all add: length_length_field)
    moreover have "unat (ucast (of_nat n :: u16) :: u64) = n"
      using 2 by (simp add: unsigned_ucast_eq unsigned_of_nat take_bit_nat_eq_self)
    ultimately show ?thesis
      using 2 by (simp add: payload_length_def length_code_def db_peekInt16_wide_def length_length_field)
  next
    case 3
    have "take 8 (drop 2 (db_data b)) = int64_bytes (of_nat n) False"
      using 3 d by (simp add: length_field_def)
    then have "db_peekInt64 b 2 False = Some (Some (of_nat n))"
      using 3 len wf by (intro db_peek_in(4)) (simp_all add: length_length_field)
    moreover have u: "unat (of_nat n :: u64) = n"
      using n by (simp add: unsigned_of_nat take_bit_nat_eq_self)
    moreover have "drop_bit 63 (of_nat n :: u64) = 0"
    proof -
      have "take_bit LENGTH(64) n = n" using n by (simp add: take_bit_nat_eq_self)
      then have "unat (drop_bit 63 (of_nat n :: u64)) = drop_bit 63 n"
        unfolding unsigned_drop_bit_eq u by simp
      then have "unat (drop_bit 63 (of_nat n :: u64)) = 0" using n by (simp only: drop_bit_eq_div) simp
      then show ?thesis by (simp only: unsigned_eq_0_iff)
    qed
    ultimately show ?thesis
      using 3 by (simp add: payload_length_def length_code_def length_length_field)
  qed
qed


text \<open>The header of a well-formed frame, and the effect of its payload.\<close>

definition role_ok :: "web_socket \<Rightarrow> bytes option \<Rightarrow> bool" where
  "role_ok w key \<longleftrightarrow> (case key of None \<Rightarrow> ws_is_client w | Some k \<Rightarrow> \<not> ws_is_client w \<and> length k = 4)"

definition fits :: "web_socket \<Rightarrow> bool \<Rightarrow> nat \<Rightarrow> nat \<Rightarrow> bool" where
  "fits w fin op n \<longleftrightarrow> op < 16 \<and> n < 2 ^ 63 \<and>
     (if op \<ge> 8 then fin \<and> n < 126
      else db_readableBytes (ws_message w) + n \<le> ws_message_size_max w \<and> ws_message_size_max w < 2 ^ 64)"

lemma frame_header_decode:
  assumes wf: "db_wf b" and d: "db_data b = frame_bytes fin op key payload @ t"
    and role: "role_ok w key" and fit: "fits w fin op (length payload)"
  shows "frame_header w b = Some (Inr \<lparr>fr_fin = fin, fr_opcode = int op, fr_payload_length = length payload,
    fr_mask_key = key, fr_offset = length (frame_bytes fin op key payload) - length payload,
    fr_left = length payload + length t\<rparr>)"
proof -
  let ?n = "length payload" and ?flag = "if key = None then 0 else 0x80 :: byte"
  let ?c = "(if fin then 0x80 else 0) OR of_nat op :: byte"
  let ?l = "length_field ?flag ?n" and ?rest = "(case key of None \<Rightarrow> [] | Some k \<Rightarrow> k) @ unmask key payload @ t"
  have d': "db_data b = ?c # ?l @ ?rest" using d by (simp add: frame_bytes_def)
  have op: "op < 16" and n: "?n < 2 ^ 63" using fit by (simp_all add: fits_def)
  note c = first_byte [OF op, of fin]
  obtain r where r: "?l = (?flag OR of_nat (length_code ?n)) # r" using length_field_head by blast
  have lc: "length_code ?n < 128" "is_control (int op) \<Longrightarrow> length_code ?n < 126"
    using fit by (auto simp: length_code_def fits_def is_control_def)
  have c2: "unat ((?flag OR of_nat (length_code ?n)) AND 0x7f) = length_code ?n"
      "((?flag OR of_nat (length_code ?n)) AND 0x80 \<noteq> 0) = (key \<noteq> None)"
    using second_byte [OF lc(1), of ?flag] by auto
  have d0: "db_data b ! 0 = ?c" and d1: "db_data b ! 1 = ?flag OR of_nat (length_code ?n)"
    using d' r by simp_all
  have len: "db_readableBytes b = 1 + length ?l + length ?rest" using length_db_data [OF wf] d' by simp
  have r2: "\<not> db_readableBytes b < 2" using len r by simp
  have pl: "payload_length b (length_code ?n) = Some (Inr (?n, 1 + length ?l))"
    using payload_length_decode [OF wf d' n] .
  have ctl: "\<not> (is_control (int op) \<and> \<not> fin)" "\<not> (is_control (int op) \<and> 126 \<le> length_code ?n)"
    using fit lc(2) by (auto simp: fits_def is_control_def)
  have sz: "\<not> (\<not> is_control (int op) \<and> sz (db_readableBytes (ws_message w) + ?n) > ws_message_size_max w)"
    using fit by (auto simp: fits_def is_control_def)
  note head = frame_header_def [of w b, unfolded db_readBegin_all [OF wf] option.case d0 d1 Let_def c(1,2,3) c2 pl sum.case split]
  show ?thesis
  proof (cases key)
    case None
    then show ?thesis
      using head r2 ctl sz role len c(2,3) c2(1) pl by (simp add: role_ok_def frame_bytes_def)
  next
    case (Some k)
    then have "take 4 (drop (1 + length ?l) (db_data b)) = k"
      using role d' by (simp add: role_ok_def)
    with Some show ?thesis
      using head r2 ctl sz role len c(2,3) c2(1) pl by (simp add: role_ok_def frame_bytes_def)
  qed
qed

section \<open>Memory safety and the invariant\<close>

definition ws_inv :: "web_socket \<Rightarrow> bool" where
  "ws_inv w \<longleftrightarrow> hp_inv (ws_http w) \<and> chunk_ok (ws_control_message w) \<and> chunk_ok (ws_message w) \<and>
     (ws_status w \<noteq> WS_PENDING_ERROR \<longrightarrow> db_readableBytes (ws_control_message w) = 0) \<and>
     db_readableBytes (ws_message w) \<le> ws_message_size_max w \<and> ws_message_size_max w \<le> 2 ^ 62 \<and>
     (ws_last_op_code w = -1 \<or> 0 < ws_last_op_code w \<and> ws_last_op_code w < 8) \<and>
     (ws_status w \<in> {WS_DETACHED, WS_WAITING_HANDSHAKE_REQUEST} \<longrightarrow> headers_reserve (ws_handshake_headers w) \<le> 2 ^ 20)"

lemma peek_total:
  assumes "db_wf b" "off + 8 < 2 ^ 64"
  shows "db_peekInt16 b off le = Some None \<or> (\<exists>v. db_peekInt16 b off le = Some (Some v)) \<and> off + 2 \<le> db_readableBytes b"
    and "db_peekInt64 b off le = Some None \<or> (\<exists>v. db_peekInt64 b off le = Some (Some v)) \<and> off + 8 \<le> db_readableBytes b"
  using assms db_readBegin_data [OF assms(1), of off 2] db_readBegin_data [OF assms(1), of off 8]
  by (auto simp: db_peekInt16_def db_peekInt64_def not_less)

lemma payload_length_total:
  assumes "db_wf b" "2 \<le> db_readableBytes b"
  shows "(\<exists>ret. payload_length b len = Some (Inl ret) \<and> ret \<in> {-1, 0}) \<or>
    (\<exists>n p. payload_length b len = Some (Inr (n, p)) \<and> 2 \<le> p \<and> p \<le> db_readableBytes b \<and>
       (len < 126 \<longrightarrow> n = len) \<and> (len < 128 \<longrightarrow> n < 2 ^ 63))"
proof -
  have v: "unat v < 2 ^ 63" if "drop_bit 63 v = 0" for v :: u64
  proof -
    have u: "unat v < 2 ^ LENGTH(64)" by (rule unsigned_less)
    then have "take_bit LENGTH(64) (unat v) = unat v" by (simp add: take_bit_nat_eq_self)
    then have "unat (drop_bit 63 v) = drop_bit 63 (unat v)" by (simp only: unsigned_drop_bit_eq)
    with that have "drop_bit 63 (unat v) = 0" by simp
    then show ?thesis by (simp add: drop_bit_eq_div div_eq_0_iff)
  qed
  consider "len = 126" | "len = 127" | "len \<noteq> 126" "len \<noteq> 127" by blast
  then show ?thesis
  proof cases
    case 1
    have *: "unat (ucast x :: u64) < 2 ^ 63" for x :: u16
    proof -
      have "unat x < 2 ^ LENGTH(16)" by (rule unsigned_less)
      then show ?thesis by (simp add: unsigned_ucast_eq take_bit_nat_eq_self)
    qed
    consider "db_peekInt16 b 2 False = Some None"
      | v where "db_peekInt16 b 2 False = Some (Some v)" "4 \<le> db_readableBytes b"
      using peek_total(1) [OF assms(1), of 2 False] by auto
    then show ?thesis
    proof cases
      case 1
      then show ?thesis by (simp add: payload_length_def db_peekInt16_wide_def \<open>len = 126\<close>)
    next
      case (2 v)
      then show ?thesis
        using \<open>len = 126\<close> * [of v]
        by (cases "unat (ucast v :: u64) < 126") (simp_all add: payload_length_def db_peekInt16_wide_def)
    qed
  next
    case 2
    consider "db_peekInt64 b 2 False = Some None"
      | x where "db_peekInt64 b 2 False = Some (Some x)" "10 \<le> db_readableBytes b"
      using peek_total(2) [OF assms(1), of 2 False] by auto
    then show ?thesis
    proof cases
      case 1
      then show ?thesis by (simp add: payload_length_def \<open>len = 127\<close>)
    next
      case (2 x)
      then show ?thesis
        using \<open>len = 127\<close> v [of x]
        by (cases "unat x \<le> 65535"; cases "drop_bit 63 x = 0") (simp_all add: payload_length_def)
    qed
  next
    case 3
    then show ?thesis using assms(2) by (auto simp: payload_length_def)
  qed
qed

lemma low_seven: "unat (c AND 0x7f) < 128" for c :: byte
proof -
  have "c AND 0x7f = take_bit 7 c" by (simp add: take_bit_eq_mask mask_eq_exp_minus_1)
  then have "unat (c AND 0x7f) = take_bit 7 (unat c)" by (simp only: unsigned_take_bit_eq)
  then show ?thesis using take_bit_nat_less_exp [of 7 "unat c"] by simp
qed

lemma frame_header_total:
  assumes "ws_inv w" "db_wf b"
  shows "(\<exists>ret. frame_header w b = Some (Inl ret) \<and> ret \<in> {-1, 0}) \<or>
    (\<exists>f. frame_header w b = Some (Inr f) \<and> fr_offset f + fr_left f = db_readableBytes b \<and>
       (\<forall>k. fr_mask_key f = Some k \<longrightarrow> length k = 4) \<and> 0 \<le> fr_opcode f \<and>
       (if is_control (fr_opcode f) then fr_fin f \<and> fr_payload_length f < 126
        else db_readableBytes (ws_message w) + fr_payload_length f \<le> ws_message_size_max w))"
proof (cases "db_readableBytes b < 2")
  case True
  then show ?thesis by (simp add: frame_header_def)
next
  case False
  let ?d = "db_data b"
  let ?op = "uint (?d ! 0 AND 0x0f)" and ?len = "unat (?d ! 1 AND 0x7f)"
  have inv: "db_readableBytes (ws_message w) \<le> 2 ^ 62"
    using assms(1) by (auto simp: ws_inv_def)
  note head = frame_header_def [of w b, unfolded db_readBegin_all [OF assms(2)] option.case Let_def]
  note pl = payload_length_total [OF assms(2), of ?len] and l7 = low_seven [of "?d ! 1"]
  have len: "length ?d = db_readableBytes b" using length_db_data [OF assms(2)] .
  show ?thesis
  proof (cases "\<exists>n p. payload_length b ?len = Some (Inr (n, p))")
    case False
    with pl \<open>\<not> db_readableBytes b < 2\<close> show ?thesis by (auto simp: head)
  next
    case True
    then obtain n p where np: "payload_length b ?len = Some (Inr (n, p))" "2 \<le> p" "p \<le> db_readableBytes b"
        "?len < 126 \<longrightarrow> n = ?len" "n < 2 ^ 63"
      using pl False l7 by auto
    have sz: "sz (db_readableBytes (ws_message w) + n) = db_readableBytes (ws_message w) + n"
      using inv np(5) by simp
    show ?thesis
      using False np len unfolding head np(1) option.case sum.case prod.case sz by (auto simp: not_less)
  qed
qed

text \<open>What the parsed header guarantees about the frame, and the state between payload and processing.\<close>

definition frame_ok :: "web_socket \<Rightarrow> dynamic_buffer \<Rightarrow> frame \<Rightarrow> bool" where
  "frame_ok w b f \<longleftrightarrow> fr_offset f + fr_left f = db_readableBytes b \<and>
     (\<forall>k. fr_mask_key f = Some k \<longrightarrow> length k = 4) \<and> 0 \<le> fr_opcode f \<and>
     (if is_control (fr_opcode f) then fr_fin f \<and> fr_payload_length f < 126
      else db_readableBytes (ws_message w) + fr_payload_length f \<le> ws_message_size_max w)"

lemma frame_header_ok:
  assumes "ws_inv w" "db_wf b"
  shows "(\<exists>ret. frame_header w b = Some (Inl ret) \<and> ret \<in> {-1, 0}) \<or>
    (\<exists>f. frame_header w b = Some (Inr f) \<and> frame_ok w b f)"
  using frame_header_total [OF assms] by (auto simp: frame_ok_def)

definition ws_mid :: "web_socket \<Rightarrow> bool" where
  "ws_mid w \<longleftrightarrow> ws_status w = WS_CONNECTED \<and> hp_inv (ws_http w) \<and> chunk_ok (ws_control_message w) \<and>
     chunk_ok (ws_message w) \<and> db_readableBytes (ws_control_message w) < 126 \<and>
     db_readableBytes (ws_message w) \<le> ws_message_size_max w \<and> ws_message_size_max w \<le> 2 ^ 62 \<and>
     (ws_last_op_code w = -1 \<or> 0 < ws_last_op_code w \<and> ws_last_op_code w < 8)"

definition control_clean :: "frame \<Rightarrow> web_socket \<Rightarrow> bool" where
  "control_clean f w \<longleftrightarrow> is_control (fr_opcode f) \<or> db_readableBytes (ws_control_message w) = 0"

lemma frame_payload_ok:
  assumes w: "ws_inv w" "ws_status w = WS_CONNECTED" and b: "db_wf b" and f: "frame_ok w b f"
  shows "frame_payload f w b = Some (Inl 0) \<or>
    (\<exists>w1 b1. frame_payload f w b = Some (Inr (w1, b1)) \<and> ws_mid w1 \<and> consumed b b1 \<and> control_clean f w1 \<and>
       ws_message_size_max w1 = ws_message_size_max w)"
proof -
  let ?n = "fr_payload_length f"
  have mid: "ws_mid w" using w by (simp add: ws_inv_def ws_mid_def)
  consider "?n = 0" | "?n > 0" "fr_left f < ?n" | "?n > 0" "?n \<le> fr_left f" by linarith
  then show ?thesis
  proof cases
    case 1
    then show ?thesis
      using mid w consumed_read [OF b] by (auto simp: frame_payload_def ws_inv_def control_clean_def)
  next
    case 2
    then show ?thesis by (simp add: frame_payload_def)
  next
    case 3
    let ?d = "take ?n (drop (fr_offset f) (db_data b))"
    have r: "db_readBegin b (fr_offset f) ?n = Some ?d"
      using 3 f by (intro db_readBegin_data [OF b]) (simp add: frame_ok_def)
    have len: "length (unmask (fr_mask_key f) ?d) = ?n"
      proof -
      have "?n \<le> length (db_data b) - fr_offset f"
        using 3 f length_db_data [OF b] unfolding frame_ok_def by linarith
      then show ?thesis by simp
    qed
    show ?thesis
    proof (cases "is_control (fr_opcode f)")
      case True
      have "chunk_ok (ws_control_message w)" "db_readableBytes (ws_control_message w) = 0" "?n < 126"
        using w f True by (simp_all add: ws_inv_def frame_ok_def)
      then obtain c where "db_append (ws_control_message w) (unmask (fr_mask_key f) ?d) = Some c" "chunk_ok c"
          "db_readableBytes c = ?n"
        using chunk_ok_append [of "ws_control_message w" "unmask (fr_mask_key f) ?d"] len by auto
      then show ?thesis
        using 3 True r mid \<open>?n < 126\<close> consumed_read [OF b]
        by (auto simp: frame_payload_def ws_mid_def control_clean_def)
    next
      case False
      have m: "chunk_ok (ws_message w)" "db_readableBytes (ws_message w) + ?n \<le> ws_message_size_max w"
        "ws_message_size_max w \<le> 2 ^ 62"
        using w f False by (simp_all add: ws_inv_def frame_ok_def)
      then obtain c where "db_append (ws_message w) (unmask (fr_mask_key f) ?d) = Some c" "chunk_ok c"
          "db_readableBytes c = db_readableBytes (ws_message w) + ?n"
        using chunk_ok_append [of "ws_message w" "unmask (fr_mask_key f) ?d"] len by (metis le_trans)
      then show ?thesis
        using 3 False r mid m w consumed_read [OF b]
        by (auto simp: frame_payload_def ws_mid_def control_clean_def ws_inv_def)
    qed
  qed
qed

lemma sendPongFrame_ok:
  assumes "ws_mid w"
  shows "\<exists>out. sendPongFrame env w = Some out"
proof -
  let ?c = "ws_control_message w"
  have c: "db_wf ?c" "db_readableBytes ?c < 126" using assms by (simp_all add: ws_mid_def chunk_ok_def)
  then show ?thesis
    using db_readBegin_all [OF c(1)] length_db_data [OF c(1)]
    by (simp add: sendPongFrame_def Let_def mem_write_def)
qed

definition ws_step_ok :: "web_socket \<Rightarrow> dynamic_buffer \<Rightarrow> ws_result \<Rightarrow> bool" where
  "ws_step_ok w b r \<longleftrightarrow> (\<exists>ret w' b' out. r = Some (ret, w', b', out) \<and> ret \<in> {-1, 0, 1, 2} \<and> consumed b b' \<and>
     ws_inv (if ret = -1 then w'\<lparr>ws_status := WS_PENDING_ERROR\<rparr> else w') \<and>
     ws_message_size_max w' = ws_message_size_max w \<and>
     (ret = 1 \<longrightarrow> ws_status w' \<in> {WS_CONNECTED, WS_FINISHED, WS_CLOSED}))"

lemma ws_step_ok_Some [step_intros]:
  "ret \<in> {-1, 0, 1, 2} \<Longrightarrow> consumed b b' \<Longrightarrow>
     ws_inv (if ret = -1 then w'\<lparr>ws_status := WS_PENDING_ERROR\<rparr> else w') \<Longrightarrow>
     ws_message_size_max w' = ws_message_size_max w \<Longrightarrow>
     (ret = 1 \<longrightarrow> ws_status w' \<in> {WS_CONNECTED, WS_FINISHED, WS_CLOSED}) \<Longrightarrow>
     ws_step_ok w b (Some (ret, w', b', out))"
  by (auto simp: ws_step_ok_def)

lemma db_clear_readable [simp]: "db_readableBytes (db_clear b) = 0"
  by (simp add: db_clear_def db_readableBytes_def)

lemma sendCloseFrame_fields:
  "fst (sendCloseFrame w) = w \<or> fst (sendCloseFrame w) = w\<lparr>ws_close_frame_sent := True\<rparr>"
  by (auto simp: sendCloseFrame_def Let_def)

lemma finish_frame_ok:
  assumes "ws_mid w1" "consumed b b1" "ws_message_size_max w1 = ws_message_size_max w"
    and "opcode \<in> {1, 2} \<Longrightarrow> db_readableBytes (ws_control_message w1) = 0"
  shows "ws_step_ok w b (finish_frame env opcode w1 b1)"
proof -
  obtain out where "sendPongFrame env w1 = Some out" using sendPongFrame_ok [OF assms(1)] by blast
  then show ?thesis
    using assms sendCloseFrame_fields [of w1]
    by (auto simp: finish_frame_def ws_mid_def ws_inv_def chunk_ok_clear split: prod.split intro!: step_intros)
qed

lemma process_frame_ok:
  assumes "ws_mid w1" "consumed b b1" "control_clean f w1" "ws_message_size_max w1 = ws_message_size_max w"
    and "frame_ok w b f"
  shows "ws_step_ok w b (process_frame env f w1 b1)"
proof -
  have mid: "ws_mid (w1\<lparr>ws_last_op_code := -1\<rparr>)" using assms(1) by (simp add: ws_mid_def)
  have op: "0 \<le> fr_opcode f" "is_control (fr_opcode f) \<Longrightarrow> fr_fin f" using assms(5) by (auto simp: frame_ok_def)
  have inv: "ws_inv (w1\<lparr>ws_status := WS_PENDING_ERROR\<rparr>)" using assms(1) by (auto simp: ws_mid_def ws_inv_def)
  show ?thesis
  proof (cases "fr_fin f")
    case False
    then have nc: "\<not> is_control (fr_opcode f)" using op(2) by blast
    then have "ws_inv w1" "fr_opcode f \<noteq> 0 \<Longrightarrow> ws_inv (w1\<lparr>ws_last_op_code := fr_opcode f\<rparr>)"
      using assms(1,3) op(1) by (auto simp: ws_mid_def ws_inv_def control_clean_def is_control_def)
    with False assms(1,2,4) inv show ?thesis
      by (auto simp: process_frame_def ws_mid_def intro!: step_intros)
  next
    case True
    have cc: "db_readableBytes (ws_control_message w1) = 0" if "fr_opcode f \<in> {0, 1, 2}"
      using assms(3) that by (auto simp: control_clean_def is_control_def)
    show ?thesis
      using True assms(1,2,4) inv mid cc
      by (auto simp: process_frame_def ws_mid_def intro!: step_intros finish_frame_ok)
  qed
qed

lemma readFrame_ok:
  assumes "ws_inv w" "ws_status w = WS_CONNECTED" "db_wf b"
  shows "ws_step_ok w b (readFrame env w b)"
proof -
  have stay: "ws_step_ok w b (Some (ret, w, b, []))" if "ret \<in> {-1, 0}" for ret
    using assms that consumed_refl [OF assms(3)] by (auto simp: ws_inv_def intro!: step_intros)
  from frame_header_ok [OF assms(1,3)] consider ret where "frame_header w b = Some (Inl ret)" "ret \<in> {-1, 0}"
    | f where "frame_header w b = Some (Inr f)" "frame_ok w b f" by blast
  then show ?thesis
  proof cases
    case 1
    then show ?thesis using stay by (simp add: readFrame_def)
  next
    case (2 f)
    from frame_payload_ok [OF assms(1,2,3) 2(2)] show ?thesis
      using 2 stay process_frame_ok [OF _ _ _ _ 2(2)] by (auto simp: readFrame_def)
  qed
qed

text \<open>The handshake handlers: their responses are small enough for every size computation.\<close>

definition env_ok :: "ws_env \<Rightarrow> bool" where
  "env_ok env \<longleftrightarrow> (\<forall>f n. length (env_format env f n) \<le> 256)"

lemma hp_sendMessage_total:
  assumes "sendable m"
  shows "\<exists>out. hp_sendMessage p m = Some out"
proof -
  have "message_reserve m \<le> 2 ^ 31" using assms by (cases m) simp_all
  then have "db_room (db_new 1024 1024) (message_reserve m + 0)" by (simp add: db_room_new)
  then obtain b where "writeMessage m (db_new 1024 1024) = Some b" "db_wf b"
    using writeMessage_spec [OF db_wf_new _ assms] by blast
  then show ?thesis using db_readBegin_all [of b] by (simp add: hp_sendMessage_def)
qed

lemma headers_reserve_set: "headers_reserve (om_set lt k v m) \<le> headers_reserve m + 32 + length k + length v"
  by (induction m) (auto simp: headers_reserve_def)

lemma headers_reserve_setHeader:
  "headers_reserve (hm_headers (setHeader m k v)) \<le> headers_reserve (hm_headers m) + 32 + length k + length v"
  using headers_reserve_set by (simp add: setHeader_def)

lemma set_headers_reserve:
  "headers_reserve (hm_headers (set_headers hs m)) \<le> headers_reserve (hm_headers m) + headers_reserve hs"
proof (induction hs arbitrary: m)
  case (Cons kv hs)
  from Cons [of "setHeader m (fst kv) (snd kv)"] headers_reserve_setHeader [of m "fst kv" "snd kv"]
  show ?case by (simp add: set_headers_def headers_reserve_def)
qed (simp add: set_headers_def headers_reserve_def)

lemma sec_accept_length: "length (sec_accept key) \<le> 28"
proof -
  have b: "length (hc_work_block blank_ctx) = 64" by (simp add: blank_ctx_def)
  have "length (sha1Binary blank_ctx s) = 20" for s
    using sha1.stream [OF b, of "[s]"] sha1.digest_length [of s]
    by (simp add: sha1Binary_def sha1_digest_def sha1_update_def sha1_reset_def sha1_iv_def)
  moreover have "length (base64Encode_str s) \<le> 28" if s: "length s = 20" for s
  proof -
    obtain y where "base64Encode s 28 = Some y" using base64_enc_fits [of s 28] by (auto simp: s)
    then show ?thesis
      using s base64Encode_length [of s 28 y] by (auto simp: base64Encode_str_def counted_small)
  qed
  ultimately show ?thesis by (simp add: sec_accept_def)
qed

lemma setHeader_fields [simp]:
  "hm_body (setHeader m k v) = hm_body m" "hm_type (setHeader m k v) = hm_type m"
  "hm_version (setHeader m k v) = hm_version m"
  "hs_status_code (setHeader r k v) = hs_status_code r" "hs_reason (setHeader r k v) = hs_reason r"
  "hq_method (setHeader q k v) = hq_method q" "hq_uri (setHeader q k v) = hq_uri q"
  by (simp_all add: setHeader_def)

lemma set_headers_fields [simp]:
  "hm_body (set_headers hs m) = hm_body m" "hm_type (set_headers hs m) = hm_type m"
  "hm_version (set_headers hs m) = hm_version m"
  "hs_status_code (set_headers hs r) = hs_status_code r" "hs_reason (set_headers hs r) = hs_reason r"
  "hq_method (set_headers hs q) = hq_method q" "hq_uri (set_headers hs q) = hq_uri q"
proof -
  show "hm_body (set_headers hs m) = hm_body m" "hm_type (set_headers hs m) = hm_type m"
    "hm_version (set_headers hs m) = hm_version m"
    by (induction hs arbitrary: m) (simp_all add: set_headers_def)
  show "hs_status_code (set_headers hs r) = hs_status_code r" "hs_reason (set_headers hs r) = hs_reason r"
    by (induction hs arbitrary: r) (simp_all add: set_headers_def)
  show "hq_method (set_headers hs q) = hq_method q" "hq_uri (set_headers hs q) = hq_uri q"
    by (induction hs arbitrary: q) (simp_all add: set_headers_def)
qed

definition success_base :: "bytes \<Rightarrow> http_response" where
  "success_base key = setHeader (setHeader (setHeader
     (setReasonPhrase (setStatusCode (setVersion http_response_new HTTP_1_1) 101) (str ''Switching Protocols''))
     (str ''Upgrade'') (str ''websocket'')) (str ''Connection'') (str ''Upgrade''))
     (str ''Sec-WebSocket-Accept'') (sec_accept key)"

lemma handshakeSuccessResponse_alt:
  "handshakeSuccessResponse env w request =
     (let r = set_headers (ws_handshake_headers w) (success_base (getHeader request (str ''Sec-WebSocket-Key'')))
      in if hasHeader r (str ''Date'') then setDate (env_clock env) (env_format env) r 0 else r)"
  by (simp add: handshakeSuccessResponse_def success_base_def Let_def)

lemma success_base_fields:
  "hm_body (success_base key) = []" "hs_status_code (success_base key) = 101"
  "hs_reason (success_base key) = str ''Switching Protocols''"
  "headers_reserve (hm_headers (success_base key)) \<le> 400"
proof -
  show "hm_body (success_base key) = []" "hs_status_code (success_base key) = 101"
    "hs_reason (success_base key) = str ''Switching Protocols''"
    by (simp_all add: success_base_def setReasonPhrase_def setStatusCode_def setVersion_def http_response_new_def)
  let ?r = "setReasonPhrase (setStatusCode (setVersion http_response_new HTTP_1_1) 101) (str ''Switching Protocols'')"
  let ?r1 = "setHeader ?r (str ''Upgrade'') (str ''websocket'')"
  let ?r2 = "setHeader ?r1 (str ''Connection'') (str ''Upgrade'')"
  have 0: "headers_reserve (hm_headers ?r) = 0"
    by (simp add: headers_reserve_def setReasonPhrase_def setStatusCode_def setVersion_def http_response_new_def)
  have 1: "headers_reserve (hm_headers ?r1) \<le> 48"
    using headers_reserve_setHeader [of ?r "str ''Upgrade''" "str ''websocket''"] 0 by (simp add: str_def)
  have 2: "headers_reserve (hm_headers ?r2) \<le> 97"
    using headers_reserve_setHeader [of ?r1 "str ''Connection''" "str ''Upgrade''"] 1 by (simp add: str_def)
  show "headers_reserve (hm_headers (success_base key)) \<le> 400"
    using headers_reserve_setHeader [of ?r2 "str ''Sec-WebSocket-Accept''" "sec_accept key"] 2 sec_accept_length [of key]
    unfolding success_base_def by (simp add: str_def)
qed

lemma success_sendable:
  assumes "env_ok env" "headers_reserve (ws_handshake_headers w) \<le> 2 ^ 20"
  shows "sendable (Response (handshakeSuccessResponse env w request))"
proof -
  let ?key = "getHeader request (str ''Sec-WebSocket-Key'')"
  let ?r = "set_headers (ws_handshake_headers w) (success_base ?key)"
  let ?s = "setDate (env_clock env) (env_format env) ?r 0"
  have r: "headers_reserve (hm_headers ?r) \<le> 400 + 2 ^ 20"
    using set_headers_reserve [of "ws_handshake_headers w" "success_base ?key"] success_base_fields(4) [of ?key] assms(2)
    by linarith
  have "length (cstr (env_format env f n)) \<le> 256" for f n
    using assms(1) length_cstr [of "env_format env f n"] by (auto simp: env_ok_def intro: le_trans)
  then have "length (cstr (env_format env (str ''%a, %d %b %Y %H:%M:%S %Z'') (env_clock env))) \<le> 256" .
  then have s: "headers_reserve (hm_headers ?s) \<le> 400 + 2 ^ 20 + 300"
    using headers_reserve_setHeader [of ?r "str ''Date''" "cstr (env_format env (str ''%a, %d %b %Y %H:%M:%S %Z'') (env_clock env))"] r
    by (simp add: setDate_def Let_def str_def)
  have f: "hm_body ?s = []" "hs_status_code ?s = 101" "length (hs_reason ?s) = 19"
    by (simp_all add: setDate_def Let_def success_base_fields str_def)
  show ?thesis
    using r s f success_base_fields(1,2,3) [of ?key]
    by (auto simp: handshakeSuccessResponse_alt Let_def message_reserve_def str_def)
qed

lemma handshake_request_ok:
  assumes "ws_inv w" "ws_status w = WS_WAITING_HANDSHAKE_REQUEST" "db_wf b" "env_ok env"
  shows "ws_step_ok w b (readHandshakeRequest env w b)"
proof -
  have inv: "hp_inv (ws_http w)" using assms(1) by (simp add: ws_inv_def)
  obtain ret p b' where r: "hp_recvMessage (ws_http w) b = Some (ret, p, b')" "hp_inv p" "consumed b b'"
    using hp_recvMessage_ok [OF inv assms(3)] by blast
  have h: "hp_inv (fst (snd (retrieveRequest p q)))" for q
    using r(2) by (auto simp: retrieveRequest_def hp_reset_def hp_inv_def split: option.split any_message.split)
  have "headers_reserve (ws_handshake_headers w) \<le> 2 ^ 20" using assms(1,2) by (simp add: ws_inv_def)
  then have "\<exists>out. hp_sendMessage p' (Response (handshakeSuccessResponse env (w\<lparr>ws_http := p''\<rparr>) request)) = Some out"
    for p' p'' request
    by (intro hp_sendMessage_total success_sendable [OF assms(4)]) simp
  note send = this
  show ?thesis
  proof (cases ret)
    case RET_MESSAGE_READY
    obtain ok p2 q where q: "retrieveRequest p http_request_new = (ok, p2, q)" by (cases "retrieveRequest p http_request_new") auto
    have p2: "hp_inv p2" using h [of http_request_new] q by simp
    obtain out where out: "hp_sendMessage p2 (Response (handshakeSuccessResponse env (w\<lparr>ws_http := p2\<rparr>) q)) = Some out"
      using send by blast
    show ?thesis
      using assms(1,2) r q p2 out RET_MESSAGE_READY
      by (auto simp: readHandshakeRequest_def ws_inv_def Let_def intro!: step_intros)
  qed (use assms(1,2) r in \<open>auto simp: readHandshakeRequest_def ws_inv_def Let_def intro!: step_intros\<close>)
qed

lemma handshake_response_ok:
  assumes "ws_inv w" "ws_status w = WS_WAITING_HANDSHAKE_RESPONSE" "db_wf b"
  shows "ws_step_ok w b (readHandshakeResponse w b)"
proof -
  have inv: "hp_inv (ws_http w)" using assms(1) by (simp add: ws_inv_def)
  obtain ret p b' where r: "hp_recvMessage (ws_http w) b = Some (ret, p, b')" "hp_inv p" "consumed b b'"
    using hp_recvMessage_ok [OF inv assms(3)] by blast
  have h: "hp_inv (fst (snd (retrieveResponse p q)))" for q
    using r(2) by (auto simp: retrieveResponse_def hp_reset_def hp_inv_def split: option.split any_message.split)
  show ?thesis
  proof (cases ret)
    case RET_MESSAGE_READY
    obtain ok p2 q where q: "retrieveResponse p http_response_new = (ok, p2, q)" by (cases "retrieveResponse p http_response_new") auto
    have p2: "hp_inv p2" using h [of http_response_new] q by simp
    show ?thesis
      using assms(1,2) r q p2 RET_MESSAGE_READY
      by (auto simp: readHandshakeResponse_def handshake_key_def ws_setHandshakeHeader_def ws_inv_def Let_def
          split: option.split intro!: step_intros)
  qed (use assms(1,2) r in \<open>auto simp: readHandshakeResponse_def ws_inv_def intro!: step_intros\<close>)
qed

lemma ws_handler_ok:
  assumes "ws_inv w" "db_wf b" "env_ok env" "ws_status_handler (ws_status w) = Some f"
  shows "ws_step_ok w b (f env w b)"
  using assms readFrame_ok [OF assms(1) _ assms(2)] handshake_request_ok [OF assms(1) _ assms(2,3)]
    handshake_response_ok [OF assms(1) _ assms(2)]
  by (cases "ws_status w") auto

lemma process_frame_ret:
  "process_frame env f w b = Some (0, w', b', out) \<Longrightarrow> False"
  "process_frame env f w b = Some (2, w', b', out) \<Longrightarrow> ws_ret_code w' \<in> {WS_PING_FRAME, WS_PONG_FRAME} \<and> ws_status w' = ws_status w"
  by (auto simp: process_frame_def finish_frame_def bind_eq_Some_conv split: if_split_asm prod.split_asm)

lemma handler_ret_code:
  assumes "ws_status_handler s = Some f" "f env w b = Some (2, w', b', out)" "ws_status w = s"
  shows "ws_ret_code w' \<in> {WS_CONNECTION_ESTABLISHED, WS_PING_FRAME, WS_PONG_FRAME} \<and> ws_status w' = WS_CONNECTED"
proof -
  have a: "readHandshakeRequest env w b = Some (2, w', b', out) \<Longrightarrow> ?thesis"
    and b: "readHandshakeResponse w b = Some (2, w', b', out) \<Longrightarrow> ?thesis"
    by (auto simp: readHandshakeRequest_def readHandshakeResponse_def Let_def bind_eq_Some_conv
        split: option.split_asm http_ret.split_asm prod.split_asm if_split_asm)
  have c: "ws_status w = WS_CONNECTED \<Longrightarrow> readFrame env w b = Some (2, w', b', out) \<Longrightarrow> ?thesis"
  proof -
    assume st: "ws_status w = WS_CONNECTED" and r: "readFrame env w b = Some (2, w', b', out)"
    obtain f where f: "frame_header w b = Some (Inr f)"
      using r by (auto simp: readFrame_def frame_header_def payload_length_def Let_def
          split: option.split_asm sum.split_asm prod.split_asm if_split_asm)
    obtain w1 b1 where w1: "frame_payload f w b = Some (Inr (w1, b1))" "process_frame env f w1 b1 = Some (2, w', b', out)"
      using r f by (auto simp: readFrame_def frame_payload_def Let_def bind_eq_Some_conv
          split: option.split_asm sum.split_asm prod.split_asm if_split_asm)
    have "ws_status w1 = ws_status w"
      using w1(1) by (auto simp: frame_payload_def Let_def bind_eq_Some_conv split: if_split_asm)
    then show ?thesis using process_frame_ret(2) [OF w1(2)] st by auto
  qed
  show ?thesis using assms a b c by (cases s) auto
qed

lemma ws_recvMessage_ok:
  "ws_inv w \<Longrightarrow> db_wf b \<Longrightarrow> env_ok env \<Longrightarrow>
     \<exists>ret w' b' out. ws_recvMessage env w b = Some (ret, w', b', out) \<and> ws_inv w' \<and> consumed b b' \<and>
       ws_message_size_max w' = ws_message_size_max w \<and>
       (ret = WS_MESSAGE_READY \<longrightarrow> ws_status w' = WS_FINISHED) \<and>
       (ret = WS_PEER_CLOSED \<longrightarrow> ws_status w' = WS_CLOSED)"
proof (induction env w b rule: ws_recvMessage.induct)
  case (1 env w b)
  show ?case
  proof (cases "ws_status_handler (ws_status w)")
    case None
    with "1.prems" show ?thesis by (subst ws_recvMessage.simps) (auto simp: consumed_refl)
  next
    case (Some f)
    obtain ret w' b' out where r: "f env w b = Some (ret, w', b', out)" "ret \<in> {-1, 0, 1, 2}" "consumed b b'"
        "ws_inv (if ret = -1 then w'\<lparr>ws_status := WS_PENDING_ERROR\<rparr> else w')"
        "ws_message_size_max w' = ws_message_size_max w"
        "ret = 1 \<longrightarrow> ws_status w' \<in> {WS_CONNECTED, WS_FINISHED, WS_CLOSED}"
      using ws_handler_ok [OF "1.prems" Some] by (auto simp: ws_step_ok_def)
    consider "ret = 0" | "ret = -1" | "ret = 2" | "ret = 1" "ws_status w' \<in> {WS_FINISHED, WS_CLOSED}"
      | (loop) "ret = 1" "ws_status w' = WS_CONNECTED" using r(2,6) by auto
    then show ?thesis
    proof cases
      case 3
      then show ?thesis using Some r handler_ret_code [OF Some, of env w b w' b' out]
        by (subst ws_recvMessage.simps) auto
    next
      case loop
      have wf: "db_wf b'" using r(3) by (simp add: consumed_def)
      have step: "ws_recvMessage env w b = map_option (\<lambda>(r, w'', b'', out'). (r, w'', b'', out @ out')) (ws_recvMessage env w' b')"
        using Some r(1) loop by (subst ws_recvMessage.simps) simp
      have "\<exists>ret w'' b'' out'. ws_recvMessage env w' b' = Some (ret, w'', b'', out') \<and> ws_inv w'' \<and> consumed b' b'' \<and>
       ws_message_size_max w'' = ws_message_size_max w' \<and>
       (ret = WS_MESSAGE_READY \<longrightarrow> ws_status w'' = WS_FINISHED) \<and>
       (ret = WS_PEER_CLOSED \<longrightarrow> ws_status w'' = WS_CLOSED)"
        using "1.IH" [OF Some r(1) refl refl refl] loop r(4) wf "1.prems"(3) by auto
      then show ?thesis using step r(5) consumed_trans [OF r(3)] by auto
    qed (use Some r in \<open>subst ws_recvMessage.simps, auto\<close>)+
  qed
qed

text \<open>
  C18 (safety): whatever bytes the peer sends, \<open>recvMessage\<close> of a web socket returns, in the
  handshake and in the frame phase: it never touches memory outside its buffers, the stack
  arrays of \<open>sendPongFrame\<close> included, consumes a prefix of the input and keeps the
  invariant of the protocol; a delivered message is within the size limit. The date that the
  C library formats is assumed to fit its buffer of 256 bytes.
\<close>

theorem ws_recvMessage_safe:
  assumes "ws_inv w" "db_wf b" "env_ok env"
  shows "\<exists>ret w' b' out n. ws_recvMessage env w b = Some (ret, w', b', out) \<and> ws_inv w' \<and> db_wf b' \<and>
     db_data b' = drop n (db_data b) \<and>
     (ret = WS_MESSAGE_READY \<longrightarrow> ws_status w' = WS_FINISHED \<and> db_readableBytes (ws_message w') \<le> ws_message_size_max w) \<and>
     (ret = WS_PEER_CLOSED \<longrightarrow> ws_status w' = WS_CLOSED)"
proof -
  obtain ret w' b' out where r: "ws_recvMessage env w b = Some (ret, w', b', out)" "ws_inv w'" "consumed b b'"
      "ws_message_size_max w' = ws_message_size_max w" "ret = WS_MESSAGE_READY \<longrightarrow> ws_status w' = WS_FINISHED"
      "ret = WS_PEER_CLOSED \<longrightarrow> ws_status w' = WS_CLOSED"
    using ws_recvMessage_ok [OF assms] by blast
  moreover from r(2,4) have "db_readableBytes (ws_message w') \<le> ws_message_size_max w" by (simp add: ws_inv_def)
  ultimately show ?thesis by (auto simp: consumed_def)
qed

definition sample_env :: ws_env where
  "sample_env = \<lparr>env_random = of_nat, env_clock = 0, env_format = (\<lambda>f n. [])\<rparr>"

lemma env_ok_sample: "env_ok sample_env"
  by (simp add: env_ok_def sample_env_def)

lemma ws_inv_new: "ws_inv ws_new"
  by (simp add: ws_inv_def ws_new_def ws_setMessageMaxSize_def ws_impl_new_def hp_inv_new chunk_ok_new headers_reserve_def)
     (simp add: db_new_def db_readableBytes_def)

definition ws_server :: web_socket where
  "ws_server = ws_new\<lparr>ws_output_cb := True, ws_status := WS_CONNECTED, ws_is_client := False\<rparr>"

definition ws_client :: web_socket where
  "ws_client = ws_new\<lparr>ws_output_cb := True, ws_status := WS_CONNECTED, ws_is_client := True\<rparr>"

lemma ws_inv_samples: "ws_inv ws_server" "ws_inv ws_client"
proof -
  have "ws_status ws_new = WS_DETACHED" by (simp add: ws_new_def ws_setMessageMaxSize_def ws_impl_new_def)
  with ws_inv_new show "ws_inv ws_server" "ws_inv ws_client"
    by (simp_all add: ws_server_def ws_client_def ws_inv_def)
qed

theorem ws_recvMessage_safe_witness:
  "\<exists>ret w' b' out. ws_recvMessage sample_env ws_server (db_new 8 8) = Some (ret, w', b', out) \<and> ws_inv w'"
  using ws_recvMessage_safe [OF ws_inv_samples(1) db_wf_new env_ok_sample, of 8 8] by blast

end
