(* ===== verification/WebSocketFrames.thy ===== *)
theory WebSocketFrames
  imports WebSocketProtocol
begin

text \<open>
  The exchange of frames over an open connection: what \<open>recvMessage\<close> makes of well-formed frames,
  of fragments, of control frames and of violations, and what \<open>sendMessage\<close> writes.
\<close>

section \<open>Receiving well-formed frames\<close>

definition frame_of :: "bool \<Rightarrow> nat \<Rightarrow> bytes option \<Rightarrow> bytes \<Rightarrow> bytes \<Rightarrow> frame" where
  "frame_of fin op key payload t = \<lparr>fr_fin = fin, fr_opcode = int op, fr_payload_length = length payload,
     fr_mask_key = key, fr_offset = length (frame_bytes fin op key payload) - length payload,
     fr_left = length payload + length t\<rparr>"

lemma frame_bytes_length: "length payload \<le> length (frame_bytes fin op key payload)"
  by (simp add: frame_bytes_def)

lemma role_ok_key: "role_ok w key \<Longrightarrow> \<forall>k. key = Some k \<longrightarrow> length k = 4"
  by (auto simp: role_ok_def)

lemma drop_frame_header:
  "drop (length (frame_bytes fin op key payload) - length payload) (frame_bytes fin op key payload @ t) =
     unmask key payload @ t"
  by (simp add: frame_bytes_def)

text \<open>A frame is taken from the input; its payload ends up, unmasked, behind the message it belongs to.\<close>

lemma readFrame_frame:
  assumes b: "db_wf b" "db_data b = frame_bytes fin op key payload @ t"
    and w: "ws_inv w" "ws_status w = WS_CONNECTED" "role_ok w key" "fits w fin op (length payload)"
  obtains c m b1 where
    "readFrame env w b = process_frame env (frame_of fin op key payload t)
       (w\<lparr>ws_control_message := c, ws_message := m\<rparr>) b1"
    "db_wf b1" "db_data b1 = t"
    "db_wf c" "db_data c = (if op \<ge> 8 then payload else [])"
    "db_wf m" "db_data m = db_data (ws_message w) @ (if op \<ge> 8 then [] else payload)"
    "chunk_ok m"
proof -
  let ?f = "frame_of fin op key payload t" and ?n = "length payload"
  let ?o = "fr_offset ?f"
  have h: "frame_header w b = Some (Inr ?f)"
    using frame_header_decode [OF b w(3,4)] by (simp add: frame_of_def)
  have off: "?o + ?n = length (frame_bytes fin op key payload)"
    using frame_bytes_length [of payload fin op key] by (simp add: frame_of_def)
  have ctl: "is_control (fr_opcode ?f) = (op \<ge> 8)" by (simp add: frame_of_def is_control_def)
  have ok: "chunk_ok (ws_control_message w)" "chunk_ok (ws_message w)" using w(1) by (simp_all add: ws_inv_def)
  then have wf: "db_wf (ws_control_message w)" "db_wf (ws_message w)" by (simp_all add: chunk_ok_def)
  have empty: "db_data (ws_control_message w) = []"
    using w(1,2) length_db_data [OF wf(1)] by (simp add: ws_inv_def)
  have b1: "db_wf (db_read b (?o + ?n))" "db_data (db_read b (?o + ?n)) = t"
    using b off by (simp_all add: db.consume_inv db.consume_data)
  show thesis
  proof (cases "?n = 0")
    case True
    then have "frame_payload ?f w b = Some (Inr (w, db_read b (?o + ?n)))"
      by (simp add: frame_payload_def frame_of_def)
    then have "readFrame env w b = process_frame env ?f
        (w\<lparr>ws_control_message := ws_control_message w, ws_message := ws_message w\<rparr>) (db_read b (?o + ?n))"
      using h by (simp add: readFrame_def)
    then show thesis
      by (rule that) (use b1 wf ok empty True in auto)
  next
    case False
    have "take ?n (drop ?o (db_data b)) = unmask key payload"
      using b(2) drop_frame_header [of fin op key payload t] by (simp add: frame_of_def)
    moreover have "?o + ?n \<le> db_readableBytes b" using length_db_data [OF b(1)] b(2) off by simp
    ultimately have r: "db_readBegin b ?o ?n = Some (unmask key payload)"
      using db_readBegin_data [OF b(1)] by simp
    have u: "unmask (fr_mask_key ?f) (unmask key payload) = payload"
      using unmask_unmask [OF role_ok_key [OF w(3)]] by (simp add: frame_of_def)
    let ?x = "if op \<ge> 8 then ws_control_message w else ws_message w"
    have "db_readableBytes ?x + length payload \<le> 2 ^ 62"
      using w(1,2,4) by (auto simp: fits_def ws_inv_def)
    then obtain x where x: "db_append ?x payload = Some x" "chunk_ok x" "db_data x = db_data ?x @ payload"
      using chunk_ok_append [of ?x payload] ok by (auto split: if_splits)
    have "frame_payload ?f w b = Some (Inr (if op \<ge> 8 then w\<lparr>ws_control_message := x\<rparr> else w\<lparr>ws_message := x\<rparr>,
        db_read b (?o + ?n)))"
      using False r u x(1) ctl by (simp add: frame_payload_def frame_of_def Let_def split: if_splits)
    then have "readFrame env w b = process_frame env ?f
        (w\<lparr>ws_control_message := (if op \<ge> 8 then x else ws_control_message w),
           ws_message := (if op \<ge> 8 then ws_message w else x)\<rparr>) (db_read b (?o + ?n))"
      using h by (simp add: readFrame_def)
    then show thesis
      by (rule that) (use chunk_ok_def [of x] b1 wf ok empty x(2,3) in \<open>auto split: if_splits\<close>)
  qed
qed

text \<open>What \<open>recvMessage\<close> makes of one frame.\<close>

lemma recv_connected:
  assumes "ws_status w = WS_CONNECTED" "readFrame env w b = Some (ret, w', b', out)"
  shows "ret = 2 \<Longrightarrow> ws_recvMessage env w b = Some (ws_ret_code w', w', b', out)"
    and "ret = -1 \<Longrightarrow> ws_recvMessage env w b = Some (WS_ERROR, w'\<lparr>ws_status := WS_PENDING_ERROR\<rparr>, b', out)"
    and "ret = 1 \<Longrightarrow> ws_status w' = WS_FINISHED \<Longrightarrow> ws_recvMessage env w b = Some (WS_MESSAGE_READY, w', b', out)"
    and "ret = 1 \<Longrightarrow> ws_status w' = WS_CLOSED \<Longrightarrow> ws_recvMessage env w b = Some (WS_PEER_CLOSED, w', b', out)"
    and "ret = 1 \<Longrightarrow> ws_status w' = WS_CONNECTED \<Longrightarrow> ws_recvMessage env w b =
       map_option (\<lambda>(r, w'', b'', out'). (r, w'', b'', out @ out')) (ws_recvMessage env w' b')"
  using assms by (simp_all add: ws_recvMessage.simps [of env w b])

section \<open>Sending\<close>

lemma put_byte:
  assumes "db_wf b" "1 \<le> db_writableBytes b"
  obtains b' where "db_writeBegin b 0 [c] = Some b'" "db_wf (db_write b' 1)"
    "db_data (db_write b' 1) = db_data b @ [c]" "db_writableBytes (db_write b' 1) = db_writableBytes b - 1"
    "length (db_buffer (db_write b' 1)) = length (db_buffer b)" "db_expand_size (db_write b' 1) = db_expand_size b"
proof -
  let ?w = "db_write_index b"
  let ?buf = "take ?w (db_buffer b) @ [c] @ drop (?w + 1) (db_buffer b)"
  have i: "db_read_index b \<le> ?w" "?w + 1 \<le> length (db_buffer b)" "length ?buf = length (db_buffer b)"
    using assms by (auto simp: db_wf_def db_defs)
  have "db_writeBegin b 0 [c] = Some (b\<lparr>db_buffer := ?buf\<rparr>)"
    using i by (simp add: db_writeBegin_def mem_write_def)
  moreover have "db_write (b\<lparr>db_buffer := ?buf\<rparr>) 1 = b\<lparr>db_buffer := ?buf, db_write_index := ?w + 1\<rparr>"
    using i by (simp add: db_write_def db_defs min_def)
  ultimately show thesis
    using assms i by (intro that) (auto simp: db_wf_def db_data_def db_defs drop_take)
qed

definition send_key :: "ws_env \<Rightarrow> web_socket \<Rightarrow> bytes option" where
  "send_key env w = (if ws_is_client w then Some (List.map (env_random env) [0..<4]) else None)"

lemma ws_sendMessage_frame:
  assumes w: "ws_status w = WS_CONNECTED" "\<not> ws_close_frame_sent w" "ws_output_cb w"
    and n: "length msg < 2 ^ 31"
  shows "ws_sendMessage env w msg = Some [frame_bytes True 2 (send_key env w) msg]"
proof -
  let ?flag = "if ws_is_client w then 0x80 else 0 :: byte" and ?n = "length msg"
  let ?key = "List.map (env_random env) [0..<4]"
  have c: "((0x82 :: byte)) = 0x80 OR of_nat 2" by simp
  obtain b0 where b0: "db_writeBegin (db_new 1024 1024) 0 [0x82] = Some b0" "db_wf (db_write b0 1)"
      "db_data (db_write b0 1) = [0x82]" "db_writableBytes (db_write b0 1) = 1023"
      "length (db_buffer (db_write b0 1)) = 1024" "db_expand_size (db_write b0 1) = 1024"
    using put_byte [OF db_wf_new, of 1024 1024 "0x82"] by (auto simp: db_data_new) (auto simp: db_new_def db_defs)
  have res: "db_reserveWritableBytes (db_new 1024 1024) 2 = Some (db_new 1024 1024)"
    by (simp add: db_reserveWritableBytes_def db_new_def db_defs)
  have second: "\<exists>b1. db_writeBegin (db_write b0 1) 0 [x] = Some b1 \<and> db_wf (db_write b1 1) \<and>
      db_data (db_write b1 1) = [0x82, x] \<and> length (db_buffer (db_write b1 1)) = 1024 \<and>
      db_expand_size (db_write b1 1) = 1024" for x
    using put_byte [OF b0(2), of x] b0(3-6) by force
  have room: "db_room b (8 + (4 + (?n + 0)))" if "db_wf b" "db_data b = [y, z]" "length (db_buffer b) = 1024" "db_expand_size b = 1024" for b y z
    using that n length_db_data [OF that(1)] by (auto simp: db_room_def)
  let ?m0 = "db_write b0 1"
  let ?len = "if ?n < 126 then do {
                m \<leftarrow> db_writeBegin ?m0 0 [?flag OR of_nat ?n];
                Some (db_write m 1) }
              else if ?n \<le> 65535 then do {
                m \<leftarrow> db_writeBegin ?m0 0 [?flag OR 126];
                db_writeInt16 (db_write m 1) (of_nat ?n) False }
              else do {
                m \<leftarrow> db_writeBegin ?m0 0 [?flag OR 127];
                db_writeInt64 (db_write m 1) (of_nat ?n) False }"
  obtain b2 where b2: "?len = Some b2" "db_wf b2" "db_data b2 = 0x82 # length_field ?flag ?n" "db_room b2 (4 + (?n + 0))"
  proof -
    consider "?n < 126" | "126 \<le> ?n" "?n \<le> 65535" | "65535 < ?n" by linarith
    then show thesis
    proof cases
      case 1
      obtain b1 where b1: "db_writeBegin ?m0 0 [?flag OR of_nat ?n] = Some b1" "db_wf (db_write b1 1)"
          "db_data (db_write b1 1) = [0x82, ?flag OR of_nat ?n]" "length (db_buffer (db_write b1 1)) = 1024"
          "db_expand_size (db_write b1 1) = 1024"
        using second by blast
      have "db_room (db_write b1 1) (4 + (?n + 0))"
        using db_room_mono [OF room [OF b1(2-5)]] by simp
      with 1 b1 show thesis by (intro that [of "db_write b1 1"]) (simp_all add: length_field_def)
    next
      case 2
      obtain b1 where b1: "db_writeBegin ?m0 0 [?flag OR 126] = Some b1" "db_wf (db_write b1 1)"
          "db_data (db_write b1 1) = [0x82, ?flag OR 126]" "length (db_buffer (db_write b1 1)) = 1024"
          "db_expand_size (db_write b1 1) = 1024"
        using second by blast
      have "db_room (db_write b1 1) (length (int16_bytes (of_nat ?n) False) + (4 + (?n + 0)))"
        using db_room_mono [OF room [OF b1(2-5)]] by simp
      then obtain b2 where "db_append (db_write b1 1) (int16_bytes (of_nat ?n) False) = Some b2" "db_wf b2"
          "db_data b2 = [0x82, ?flag OR 126] @ int16_bytes (of_nat ?n) False" "db_room b2 (4 + (?n + 0))"
        using db.append_law [OF b1(2)] b1(3) by metis
      with 2 b1 show thesis by (intro that [of b2]) (simp_all add: length_field_def db_writeInt_append)
    next
      case 3
      obtain b1 where b1: "db_writeBegin ?m0 0 [?flag OR 127] = Some b1" "db_wf (db_write b1 1)"
          "db_data (db_write b1 1) = [0x82, ?flag OR 127]" "length (db_buffer (db_write b1 1)) = 1024"
          "db_expand_size (db_write b1 1) = 1024"
        using second by blast
      have "db_room (db_write b1 1) (length (int64_bytes (of_nat ?n) False) + (4 + (?n + 0)))"
        using room [OF b1(2-5)] by simp
      then obtain b2 where "db_append (db_write b1 1) (int64_bytes (of_nat ?n) False) = Some b2" "db_wf b2"
          "db_data b2 = [0x82, ?flag OR 127] @ int64_bytes (of_nat ?n) False" "db_room b2 (4 + (?n + 0))"
        using db.append_law [OF b1(2)] b1(3) by metis
      with 3 b1 show thesis by (intro that [of b2]) (simp_all add: length_field_def db_writeInt_append)
    qed
  qed
  let ?k = "if ws_is_client w then ?key else []"
  obtain b3 where b3: "(if ws_is_client w then db_append b2 ?key else Some b2) = Some b3" "db_wf b3"
      "db_data b3 = db_data b2 @ ?k" "db_room b3 (?n + 0)"
  proof (cases "ws_is_client w")
    case True
    have "db_room b2 (length ?key + (?n + 0))" using b2(4) by simp
    then obtain b3 where "db_append b2 ?key = Some b3" "db_wf b3" "db_data b3 = db_data b2 @ ?key" "db_room b3 (?n + 0)"
      using db.append_law [OF b2(2)] by blast
    with True show thesis by (intro that [of b3]) simp_all
  next
    case False
    with b2 show thesis by (intro that [of b2]) (auto intro: db_room_mono)
  qed
  let ?p = "if ws_is_client w then apply_mask ?key msg else msg"
  have "db_room b3 (length ?p + 0)" using b3(4) by simp
  then obtain b4 where b4: "db_append b3 ?p = Some b4" "db_wf b4" "db_data b4 = db_data b3 @ ?p"
    using db.append_law [OF b3(2)] by blast
  have d: "db_data b4 = frame_bytes True 2 (send_key env w) msg"
    using b4(3) b3(3) b2(3) by (simp add: frame_bytes_def send_key_def unmask_def)
  have "ws_sendMessage env w msg = Some (ws_output w (db_data b4))"
    using w(1,2) res b0(1) b2(1) b3(1) b4(1) db_readBegin_all [OF b4(2)]
    by (simp add: ws_sendMessage_def Let_def cong: if_cong)
  then show ?thesis using w(3) d by (simp add: ws_output_def)
qed

section \<open>Messages, fragments and control frames\<close>

text \<open>What the processing of a complete frame does, by its kind.\<close>

lemma recv_fragment:
  assumes b: "db_wf b" "db_data b = frame_bytes False op key payload @ t"
    and w: "ws_inv w" "ws_status w = WS_CONNECTED" "role_ok w key" "fits w False op (length payload)"
    and op: "if op = 0 then ws_last_op_code w \<noteq> -1 else ws_last_op_code w = -1"
  obtains w' b' where
    "ws_recvMessage env w b = ws_recvMessage env w' b'" "db_wf b'" "db_data b' = t" "ws_inv w'"
    "ws_status w' = WS_CONNECTED" "db_data (ws_message w') = db_data (ws_message w) @ payload"
    "ws_last_op_code w' = (if op = 0 then ws_last_op_code w else int op)"
    "ws_is_client w' = ws_is_client w" "ws_message_size_max w' = ws_message_size_max w"
proof -
  have lt: "op < 8" using w(4) by (auto simp: fits_def split: if_splits)
  obtain c m b1 where r: "readFrame env w b = process_frame env (frame_of False op key payload t)
       (w\<lparr>ws_control_message := c, ws_message := m\<rparr>) b1"
    "db_wf b1" "db_data b1 = t" "db_wf c" "db_data c = (if op \<ge> 8 then payload else [])"
    "db_wf m" "db_data m = db_data (ws_message w) @ (if op \<ge> 8 then [] else payload)" "chunk_ok m"
    by (rule readFrame_frame [OF b w])
  let ?w = "w\<lparr>ws_control_message := c, ws_message := m, ws_last_op_code := (if op = 0 then ws_last_op_code w else int op)\<rparr>"
  have step: "readFrame env w b = Some (1, ?w, b1, [])"
    using r(1) op by (auto simp: process_frame_def frame_of_def)
  have "ws_step_ok w b (readFrame env w b)" by (rule readFrame_ok [OF w(1,2) b(1)])
  then have "ws_inv ?w" by (simp add: step ws_step_ok_def)
  moreover have "ws_recvMessage env w b = ws_recvMessage env ?w b1"
    using recv_connected(5) [OF w(2) step] w(2) by (cases "ws_recvMessage env ?w b1") auto
  ultimately show thesis using r lt w(2) by (intro that [of ?w b1]) simp_all
qed

lemma recv_last_fragment:
  assumes b: "db_wf b" "db_data b = frame_bytes True op key payload @ t"
    and w: "ws_inv w" "ws_status w = WS_CONNECTED" "role_ok w key" "fits w True op (length payload)"
    and op: "op = 0 \<and> ws_last_op_code w \<in> {1, 2} \<or> op \<in> {1, 2} \<and> ws_last_op_code w = -1"
  shows "\<exists>w' b'. ws_recvMessage env w b = Some (WS_MESSAGE_READY, w', b', []) \<and> ws_inv w' \<and>
    db_wf b' \<and> db_data b' = t \<and> ws_status w' = WS_FINISHED \<and> ws_last_op_code w' = -1 \<and>
    db_data (ws_message w') = db_data (ws_message w) @ payload"
proof -
  have lt: "op < 8" using op by auto
  obtain c m b1 where r: "readFrame env w b = process_frame env (frame_of True op key payload t)
       (w\<lparr>ws_control_message := c, ws_message := m\<rparr>) b1"
    "db_wf b1" "db_data b1 = t" "db_wf c" "db_data c = (if op \<ge> 8 then payload else [])"
    "db_wf m" "db_data m = db_data (ws_message w) @ (if op \<ge> 8 then [] else payload)" "chunk_ok m"
    by (rule readFrame_frame [OF b w])
  let ?w = "w\<lparr>ws_control_message := c, ws_message := m, ws_last_op_code := -1, ws_status := WS_FINISHED\<rparr>"
  have step: "readFrame env w b = Some (1, ?w, b1, [])"
    using r(1) op by (auto simp: process_frame_def frame_of_def finish_frame_def is_control_def)
  have "ws_step_ok w b (readFrame env w b)" by (rule readFrame_ok [OF w(1,2) b(1)])
  then have "ws_inv ?w" by (simp add: step ws_step_ok_def)
  then show ?thesis using recv_connected(3) [OF w(2) step] r lt by simp
qed

text \<open>A message in several frames: the first carries the opcode, the last the final bit.\<close>

fun message_frames :: "nat \<Rightarrow> (bytes option \<times> bytes) list \<Rightarrow> bytes" where
  "message_frames op [] = []"
| "message_frames op [(key, p)] = frame_bytes True op key p"
| "message_frames op ((key, p) # f # fs) = frame_bytes False op key p @ message_frames 0 (f # fs)"

lemma recv_frames:
  assumes "fs \<noteq> []" "db_wf b" "db_data b = message_frames op fs @ t"
    and "ws_inv w" "ws_status w = WS_CONNECTED" "\<forall>f \<in> set fs. role_ok w (fst f)"
    and "length (db_data (ws_message w)) + length (concat (List.map snd fs)) \<le> ws_message_size_max w"
    and "op = 0 \<and> ws_last_op_code w \<in> {1, 2} \<or> op \<in> {1, 2} \<and> ws_last_op_code w = -1"
  shows "\<exists>w' b'. ws_recvMessage env w b = Some (WS_MESSAGE_READY, w', b', []) \<and> ws_inv w' \<and>
    db_wf b' \<and> db_data b' = t \<and> ws_status w' = WS_FINISHED \<and> ws_last_op_code w' = -1 \<and>
    db_data (ws_message w') = db_data (ws_message w) @ concat (List.map snd fs)"
  using assms
proof (induction op fs arbitrary: w b rule: message_frames.induct)
  case (1 op)
  then show ?case by simp
next
  case (2 op key p)
  have "db_wf (ws_message w)" "ws_message_size_max w \<le> 2 ^ 62" using "2.prems"(4) by (simp_all add: ws_inv_def chunk_ok_def)
  then have "fits w True op (length p)"
    using "2.prems"(7,8) length_db_data [of "ws_message w"] by (auto simp: fits_def)
  then show ?case using recv_last_fragment [of b op key p t w env] "2.prems" by simp
next
  case (3 op key p f fs)
  have m: "db_wf (ws_message w)" "ws_message_size_max w \<le> 2 ^ 62" using "3.prems"(4) by (simp_all add: ws_inv_def chunk_ok_def)
  then have fit: "fits w False op (length p)"
    using "3.prems"(7,8) length_db_data [of "ws_message w"] by (auto simp: fits_def)
  have d: "db_data b = frame_bytes False op key p @ (message_frames 0 (f # fs) @ t)" using "3.prems"(3) by simp
  have op: "if op = 0 then ws_last_op_code w \<noteq> -1 else ws_last_op_code w = -1" using "3.prems"(8) by auto
  obtain w' b' where r: "ws_recvMessage env w b = ws_recvMessage env w' b'" "db_wf b'"
      "db_data b' = message_frames 0 (f # fs) @ t" "ws_inv w'" "ws_status w' = WS_CONNECTED"
      "db_data (ws_message w') = db_data (ws_message w) @ p"
      "ws_last_op_code w' = (if op = 0 then ws_last_op_code w else int op)"
      "ws_is_client w' = ws_is_client w" "ws_message_size_max w' = ws_message_size_max w"
    by (rule recv_fragment [OF "3.prems"(2) d "3.prems"(4,5) _ fit op]) (use "3.prems"(6) in auto)
  have role: "\<forall>f \<in> set (f # fs). role_ok w' (fst f)"
    using "3.prems"(6) r(8) by (auto simp: role_ok_def split: option.splits)
  have len: "length (db_data (ws_message w')) + length (concat (List.map snd (f # fs))) \<le> ws_message_size_max w'"
    using "3.prems"(7) r(6,9) by simp
  have last: "(0 :: nat) = 0 \<and> ws_last_op_code w' \<in> {1, 2} \<or> (0 :: nat) \<in> {1, 2} \<and> ws_last_op_code w' = -1"
    using "3.prems"(8) r(7) by auto
  show ?case using "3.IH" [OF _ r(2,3,4,5) role len last] r(1,6) by simp
qed

lemma retrieve_finished:
  assumes "ws_status w = WS_FINISHED"
  obtains w' m' where "ws_retrieveMessage w m = (True, w', m')" "db_data m' = db_data (ws_message w)"
    "ws_status w' = WS_CONNECTED" "ws_last_op_code w' = ws_last_op_code w" "db_data (ws_message w') = []"
proof -
  obtain x y where s: "db_swap m (ws_message w) = (x, y)" by (cases "db_swap m (ws_message w)")
  then have "db_data x = db_data (ws_message w)" by (auto simp: db_swap_def db_data_def)
  moreover have "db_data (db_clear y) = []" by (simp add: db_clear_def db_data_def)
  ultimately show thesis using assms s
    by (intro that [of "w\<lparr>ws_message := db_clear y, ws_status := WS_CONNECTED\<rparr>" x]) (simp_all add: ws_retrieveMessage_def)
qed

text \<open>
  C19 (refinement): reassembly. A text or binary message cut into any number of frames, each
  masked as the role of the sender asks, is delivered as the concatenation of the unmasked
  payloads once the last frame is there, if it is within the size limit; what follows in the
  input is left alone, nothing is sent, and \<open>retrieveMessage\<close> hands the message over and makes
  the connection ready for the next one, with no fragment left.
\<close>

theorem ws_reassembly:
  assumes "fs \<noteq> []" "op = 1 \<or> op = 2" "db_wf b" "db_data b = message_frames op fs @ t"
    and "ws_inv w" "ws_status w = WS_CONNECTED" "ws_last_op_code w = -1" "db_data (ws_message w) = []"
    and "\<forall>f \<in> set fs. role_ok w (fst f)" "length (concat (List.map snd fs)) \<le> ws_message_size_max w"
  shows "\<exists>w' b' w'' m'. ws_recvMessage env w b = Some (WS_MESSAGE_READY, w', b', []) \<and> db_data b' = t \<and>
     ws_retrieveMessage w' m = (True, w'', m') \<and> db_data m' = concat (List.map snd fs) \<and>
     ws_status w'' = WS_CONNECTED \<and> ws_last_op_code w'' = -1 \<and> db_data (ws_message w'') = []"
proof -
  obtain w' b' where r: "ws_recvMessage env w b = Some (WS_MESSAGE_READY, w', b', [])" "db_data b' = t"
      "ws_status w' = WS_FINISHED" "ws_last_op_code w' = -1" "db_data (ws_message w') = concat (List.map snd fs)"
    using recv_frames [OF assms(1,3,4,5,6,9), of env] assms by auto
  with retrieve_finished [OF r(3), of m] show ?thesis by metis
qed

lemma frames_in_buffer:
  assumes "length bs \<le> 2 ^ 20"
  obtains b where "db_append (db_new 8 8) bs = Some b" "db_wf b" "db_data b = bs"
proof -
  have "db_room (db_new 8 8) (length bs + 0)" using assms by (simp add: db_room_def db_new_def db_readableBytes_def)
  then show thesis using db.append_law [OF db_wf_new, of 8 8 bs 0] that by (auto simp: db_data_new)
qed

lemma sample_fields:
  "ws_status ws_server = WS_CONNECTED" "ws_status ws_client = WS_CONNECTED"
  "\<not> ws_is_client ws_server" "ws_is_client ws_client" "ws_output_cb ws_server" "ws_output_cb ws_client"
  "\<not> ws_close_frame_sent ws_server" "\<not> ws_close_frame_sent ws_client"
  "ws_last_op_code ws_server = -1" "ws_last_op_code ws_client = -1"
  "db_data (ws_message ws_server) = []" "db_data (ws_message ws_client) = []"
  "ws_message_size_max ws_server = 2 ^ 20" "ws_message_size_max ws_client = 2 ^ 20"
  by (simp_all add: ws_server_def ws_client_def ws_new_def ws_setMessageMaxSize_def ws_impl_new_def db_data_new)

theorem ws_reassembly_witness:
  "\<exists>b w' b'. db_append (db_new 8 8) (message_frames 2 [(Some [1, 2, 3, 4], [7, 8]), (Some [5, 6, 7, 8], [9])]) = Some b \<and>
     ws_recvMessage sample_env ws_server b = Some (WS_MESSAGE_READY, w', b', [])"
proof -
  let ?fs = "[(Some [1, 2, 3, 4], [7, 8]), (Some [5, 6, 7, 8], [9])] :: (bytes option \<times> bytes) list"
  have "length (message_frames 2 ?fs) \<le> 2 ^ 20" by (simp add: frame_bytes_def length_field_def)
  then obtain b where b: "db_append (db_new 8 8) (message_frames 2 ?fs) = Some b" "db_wf b"
      "db_data b = message_frames 2 ?fs @ []"
    using frames_in_buffer by (metis append_Nil2)
  have r: "\<forall>f \<in> set ?fs. role_ok ws_server (fst f)" by (simp add: role_ok_def sample_fields)
  from ws_reassembly [OF _ _ b(2,3) ws_inv_samples(1) sample_fields(1,9,11) r, of sample_env "db_new 8 8"] b(1)
  show ?thesis by (auto simp: sample_fields)
qed

text \<open>
  C20 (roundtrip): what \<open>sendMessage\<close> of one side writes is read by the other side as exactly that
  message: client to server (masked with four random bytes) and server to client (unmasked),
  for every length up to the size limit of the receiver, whatever follows in the input.
\<close>

theorem ws_message_roundtrip:
  assumes "ws_status s = WS_CONNECTED" "\<not> ws_close_frame_sent s" "ws_output_cb s"
    and "ws_inv w" "ws_status w = WS_CONNECTED" "ws_last_op_code w = -1" "db_data (ws_message w) = []"
    and "ws_is_client w \<longleftrightarrow> \<not> ws_is_client s"
    and "length msg < 2 ^ 31" "length msg \<le> ws_message_size_max w"
  shows "\<exists>block. ws_sendMessage env s msg = Some [block] \<and>
    (\<forall>b t. db_wf b \<and> db_data b = block @ t \<longrightarrow>
      (\<exists>w' b' w'' m'. ws_recvMessage env' w b = Some (WS_MESSAGE_READY, w', b', []) \<and> db_data b' = t \<and>
        ws_retrieveMessage w' m = (True, w'', m') \<and> db_data m' = msg))"
proof -
  have "\<exists>w' b' w'' m'. ws_recvMessage env' w b = Some (WS_MESSAGE_READY, w', b', []) \<and> db_data b' = t \<and>
        ws_retrieveMessage w' m = (True, w'', m') \<and> db_data m' = msg"
    if b: "db_wf b" "db_data b = frame_bytes True 2 (send_key env s) msg @ t" for b t
  proof -
    have role: "\<forall>f \<in> set [(send_key env s, msg)]. role_ok w (fst f)"
      using assms(8) by (simp add: role_ok_def send_key_def)
    obtain w' b' where r: "ws_recvMessage env' w b = Some (WS_MESSAGE_READY, w', b', [])" "db_data b' = t"
        "ws_status w' = WS_FINISHED" "db_data (ws_message w') = msg"
      using recv_frames [of "[(send_key env s, msg)]" b 2 t w env'] b role assms by auto
    with retrieve_finished [OF r(3), of m] show ?thesis by metis
  qed
  then show ?thesis using ws_sendMessage_frame [OF assms(1,2,3,9)] by blast
qed

theorem ws_message_roundtrip_witness:
  "\<exists>block b w' b'. ws_sendMessage sample_env ws_client [1, 2, 3] = Some [block] \<and>
     db_append (db_new 8 8) block = Some b \<and>
     ws_recvMessage sample_env ws_server b = Some (WS_MESSAGE_READY, w', b', [])"
proof -
  obtain block where s: "ws_sendMessage sample_env ws_client [1, 2, 3] = Some [block]"
    and r: "\<And>b t. db_wf b \<Longrightarrow> db_data b = block @ t \<Longrightarrow>
      \<exists>w' b'. ws_recvMessage sample_env ws_server b = Some (WS_MESSAGE_READY, w', b', [])"
    using ws_message_roundtrip [OF sample_fields(2,8,6) ws_inv_samples(1) sample_fields(1,9,11),
        of "[1, 2, 3]" sample_env sample_env "db_new 8 8"] by (simp add: sample_fields) metis
  have "block = frame_bytes True 2 (send_key sample_env ws_client) [1, 2, 3]"
    using s ws_sendMessage_frame [OF sample_fields(2,8,6), of "[1, 2, 3]"] by simp
  then have "length block \<le> 2 ^ 20"
    by (simp add: frame_bytes_def length_field_def send_key_def sample_fields)
  then obtain b where b: "db_append (db_new 8 8) block = Some b" "db_wf b" "db_data b = block"
    using frames_in_buffer by blast
  with s r [OF b(2), of "[]"] show ?thesis by auto
qed

lemma of_nat_or_masked: "n < 128 \<Longrightarrow> (of_nat n :: byte) OR 0x80 = 0x80 OR of_nat n"
  by (simp add: or.commute)

lemma sendPongFrame_frame:
  assumes "ws_status w = WS_CONNECTED" "\<not> ws_close_frame_sent w" "ws_output_cb w"
    and "db_wf (ws_control_message w)" "length (db_data (ws_control_message w)) < 126"
  shows "sendPongFrame env w = Some [frame_bytes True 10 (send_key env w) (db_data (ws_control_message w))]"
proof -
  let ?d = "db_data (ws_control_message w)"
  have r: "db_readBegin (ws_control_message w) 0 (db_readableBytes (ws_control_message w)) = Some ?d"
    by (rule db_readBegin_all [OF assms(4)])
  have n: "db_readableBytes (ws_control_message w) = length ?d" using length_db_data [OF assms(4)] by simp
  let ?key = "List.map (env_random env) [0..<4]"
  have t: "take (length ?d + 6) (x # y # ?key @ apply_mask ?key ?d @ z) = x # y # ?key @ apply_mask ?key ?d" for x y z
    by (simp add: eval_nat_numeral)
  show ?thesis
    using assms(1-3,5) r [unfolded n]
    by (simp add: n t sendPongFrame_def Let_def mem_write_def frame_bytes_def length_field_def send_key_def
        unmask_def or.commute)
qed

lemma recv_control:
  assumes b: "db_wf b" "db_data b = frame_bytes True op key payload @ t"
    and w: "ws_inv w" "ws_status w = WS_CONNECTED" "role_ok w key" and n: "length payload < 126"
    and op: "op \<in> {8, 9, 10}"
  obtains c m b1 where
    "readFrame env w b = finish_frame env (int op) (w\<lparr>ws_control_message := c, ws_message := m\<rparr>) b1"
    "db_wf b1" "db_data b1 = t" "db_wf c" "db_data c = payload" "db_wf m" "db_data m = db_data (ws_message w)"
    "ws_step_ok w b (readFrame env w b)"
proof -
  have fit: "fits w True op (length payload)" using n op by (auto simp: fits_def)
  obtain c m b1 where r: "readFrame env w b = process_frame env (frame_of True op key payload t)
       (w\<lparr>ws_control_message := c, ws_message := m\<rparr>) b1"
    "db_wf b1" "db_data b1 = t" "db_wf c" "db_data c = (if op \<ge> 8 then payload else [])"
    "db_wf m" "db_data m = db_data (ws_message w) @ (if op \<ge> 8 then [] else payload)"
    using readFrame_frame [OF b w fit] by metis
  have "readFrame env w b = finish_frame env (int op) (w\<lparr>ws_control_message := c, ws_message := m\<rparr>) b1"
    using r(1) op by (auto simp: process_frame_def frame_of_def is_control_def)
  then show thesis using r op readFrame_ok [OF w(1,2) b(1), of env] by (intro that [of m c b1]) auto
qed

text \<open>
  C21 (functional): a ping is answered at once by exactly one pong frame with the same payload,
  masked when the receiver is the client, unless the connection is closing; it is reported as
  a ping and leaves the data message being assembled, its opcode and the rest of the
  input as they are, so that a ping between two fragments does not disturb the message.
\<close>

theorem ws_ping_pong:
  assumes "db_wf b" "db_data b = frame_bytes True 9 key payload @ t"
    and "ws_inv w" "ws_status w = WS_CONNECTED" "role_ok w key" "length payload < 126" "ws_output_cb w"
  shows "\<exists>w' b'. ws_recvMessage env w b = Some (WS_PING_FRAME, w', b',
      if ws_close_frame_sent w then [] else [frame_bytes True 10 (send_key env w) payload]) \<and>
    db_data b' = t \<and> ws_inv w' \<and> ws_status w' = WS_CONNECTED \<and>
    db_data (ws_message w') = db_data (ws_message w) \<and> ws_last_op_code w' = ws_last_op_code w"
proof -
  obtain c m b1 where r: "readFrame env w b = finish_frame env 9 (w\<lparr>ws_control_message := c, ws_message := m\<rparr>) b1"
    "db_data b1 = t" "db_wf c" "db_data c = payload" "db_data m = db_data (ws_message w)"
    "ws_step_ok w b (readFrame env w b)"
    using recv_control [OF assms(1-6), of env] by (metis insertI1 insertI2 of_nat_numeral)
  let ?w = "w\<lparr>ws_control_message := c, ws_message := m\<rparr>"
  let ?out = "if ws_close_frame_sent w then [] else [frame_bytes True 10 (send_key env w) payload]"
  have "send_key env ?w = send_key env w" by (simp add: send_key_def)
  then have "sendPongFrame env ?w = Some ?out"
    using sendPongFrame_frame [of ?w env] assms(4,6,7) r(3,4) by (auto simp: sendPongFrame_def)
  then have step: "readFrame env w b =
      Some (2, ?w\<lparr>ws_control_message := db_clear c, ws_ret_code := WS_PING_FRAME\<rparr>, b1, ?out)"
    using r(1) by (simp add: finish_frame_def)
  with r(6) have "ws_inv (?w\<lparr>ws_control_message := db_clear c, ws_ret_code := WS_PING_FRAME\<rparr>)"
    by (simp add: ws_step_ok_def)
  then show ?thesis using recv_connected(1) [OF assms(4) step] r(2,5) assms(4) by auto
qed

theorem ws_ping_pong_witness:
  "\<exists>b w' b'. db_append (db_new 8 8) (frame_bytes True 9 (Some [1, 2, 3, 4]) [5, 6]) = Some b \<and>
     ws_recvMessage sample_env ws_server b = Some (WS_PING_FRAME, w', b', [frame_bytes True 10 None [5, 6]])"
proof -
  let ?f = "frame_bytes True 9 (Some [1, 2, 3, 4]) [5, 6]"
  have "length ?f \<le> 2 ^ 20" by (simp add: frame_bytes_def length_field_def)
  then obtain b where b: "db_append (db_new 8 8) ?f = Some b" "db_wf b" "db_data b = ?f @ []"
    using frames_in_buffer by (metis append_Nil2)
  have r: "role_ok ws_server (Some [1, 2, 3, 4])" "length [5 :: byte, 6] < 126" by (simp_all add: role_ok_def sample_fields)
  from ws_ping_pong [OF b(2,3) ws_inv_samples(1) sample_fields(1) r sample_fields(5), of sample_env] b(1)
  show ?thesis by (auto simp: sample_fields send_key_def)
qed

text \<open>
  C22 (safety): the closing handshake. A close frame of the peer is answered by one close frame, if
  none has been sent before, and ends the connection: from then on nothing is received and
  nothing is sent, neither message, ping, pong nor a second close frame.
\<close>

theorem ws_close_once:
  assumes "db_wf b" "db_data b = frame_bytes True 8 key payload @ t"
    and "ws_inv w" "ws_status w = WS_CONNECTED" "role_ok w key" "length payload < 126" "ws_output_cb w"
  shows "\<exists>w' b'. ws_recvMessage env w b = Some (WS_PEER_CLOSED, w', b',
      if ws_close_frame_sent w then []
      else [frame_bytes True 8 (if ws_is_client w then Some [0, 0, 0, 0] else None) []]) \<and>
    db_data b' = t \<and> ws_status w' = WS_CLOSED \<and>
    (\<forall>b2. ws_recvMessage env w' b2 = Some (WS_ERROR, w', b2, [])) \<and>
    (\<forall>msg. ws_sendMessage env w' msg = Some []) \<and> sendPingFrame w' = [] \<and>
    sendPongFrame env w' = Some [] \<and> sendCloseFrame w' = (w', [])"
proof -
  obtain c m b1 where r: "readFrame env w b = finish_frame env 8 (w\<lparr>ws_control_message := c, ws_message := m\<rparr>) b1"
    "db_data b1 = t"
    using recv_control [OF assms(1-6), of env] by (metis insertI1 insertI2 of_nat_numeral)
  let ?w = "w\<lparr>ws_control_message := db_clear c, ws_message := db_clear m, ws_close_frame_sent := True, ws_status := WS_CLOSED\<rparr>"
  have step: "readFrame env w b = Some (1, ?w, b1, if ws_close_frame_sent w then []
      else [frame_bytes True 8 (if ws_is_client w then Some [0, 0, 0, 0] else None) []])"
    using assms(4,7) r(1)
    by (simp add: finish_frame_def sendCloseFrame_def Let_def ws_output_def frame_bytes_def length_field_def
        unmask_def apply_mask_def)
  moreover have "ws_recvMessage env ?w b2 = Some (WS_ERROR, ?w, b2, [])" for b2
    by (simp add: ws_recvMessage.simps [of env ?w])
  ultimately show ?thesis
    using recv_connected(4) [OF assms(4) step] r(2)
    by (simp add: ws_sendMessage_def sendPingFrame_def sendPongFrame_def sendCloseFrame_def)
qed

theorem ws_close_once_witness:
  "\<exists>b w' b'. db_append (db_new 8 8) (frame_bytes True 8 None [3, 232]) = Some b \<and>
     ws_recvMessage sample_env ws_client b =
       Some (WS_PEER_CLOSED, w', b', [frame_bytes True 8 (Some [0, 0, 0, 0]) []]) \<and>
     ws_sendMessage sample_env w' [1] = Some []"
proof -
  let ?f = "frame_bytes True 8 None [3, 232]"
  have "length ?f \<le> 2 ^ 20" by (simp add: frame_bytes_def length_field_def)
  then obtain b where b: "db_append (db_new 8 8) ?f = Some b" "db_wf b" "db_data b = ?f @ []"
    using frames_in_buffer by (metis append_Nil2)
  have r: "role_ok ws_client None" "length [3 :: byte, 232] < 126" by (simp_all add: role_ok_def sample_fields)
  from ws_close_once [OF b(2,3) ws_inv_samples(2) sample_fields(2) r sample_fields(6), of sample_env] b(1)
  show ?thesis by (auto simp: sample_fields)
qed

section \<open>Violations\<close>









end
