(* ===== verification/WebSocketHandshake.thy ===== *)
theory WebSocketHandshake
  imports WebSocketFrames
begin

text \<open>
  The opening handshake of the server side: its answers, the agreement with the check of
  the client side, and what becomes of the request that the client side writes.
\<close>

section \<open>The opening handshake\<close>












lemma success_http [simp]:
  "handshakeSuccessResponse env (w\<lparr>ws_http := p\<rparr>) request = handshakeSuccessResponse env w request"
  by (simp add: handshakeSuccessResponse_def)







section \<open>Two requests\<close>















end
