(* ===== verification/Timestamp.thy ===== *)
theory Timestamp
  imports Prelude "HOL-Library.Signed_Division"
begin

text \<open>
  Model of \<open>src/brickred/timestamp.{h,cc}\<close>. The members are 64-bit integers; as seconds since the
  epoch stay far from their ends, they are \<open>int\<close> here. C++ division truncates, so \<open>/\<close> and
  \<open>%\<close> are \<open>sdiv\<close> and \<open>smod\<close>. The clock and \<open>strftime\<close> are parameters.
\<close>

section \<open>Data and operations\<close>

datatype timestamp = Timestamp (ts_second: int) (ts_nanosecond: int)

definition ts_new :: timestamp where
  "ts_new = Timestamp 0 0"

definition setNow :: "int \<times> int \<Rightarrow> timestamp \<Rightarrow> timestamp" where
  "setNow clock t = Timestamp (fst clock) (snd clock)"

definition getMilliSecond :: "timestamp \<Rightarrow> int" where
  "getMilliSecond t = ts_nanosecond t sdiv 1000000"

definition ts_add :: "timestamp \<Rightarrow> int \<Rightarrow> timestamp" where
  "ts_add t millisecond =
     (let s = ts_second t + millisecond sdiv 1000;
          n = ts_nanosecond t + millisecond smod 1000 * 1000000
      in if n \<ge> 1000000000 then Timestamp (s + 1) (n - 1000000000)
         else if n < 0 then Timestamp (s - 1) (n + 1000000000)
         else Timestamp s n)"

text \<open>\<open>operator+\<close> adds to a copy.\<close>

definition ts_plus :: "timestamp \<Rightarrow> int \<Rightarrow> timestamp" where
  [simp]: "ts_plus t millisecond = ts_add t millisecond"

definition ts_less :: "timestamp \<Rightarrow> timestamp \<Rightarrow> bool" where
  "ts_less a b = (if ts_second a \<noteq> ts_second b then ts_second a < ts_second b else ts_nanosecond a < ts_nanosecond b)"

text \<open>\<open>operator<\<close> makes the type a linear order.\<close>

instantiation timestamp :: linorder
begin

definition less_timestamp :: "timestamp \<Rightarrow> timestamp \<Rightarrow> bool" where
  "a < b \<longleftrightarrow> ts_less a b"

definition less_eq_timestamp :: "timestamp \<Rightarrow> timestamp \<Rightarrow> bool" where
  "a \<le> b \<longleftrightarrow> \<not> (b < (a :: timestamp))"

instance
  by standard (auto simp: less_timestamp_def ts_less_def less_eq_timestamp_def timestamp.expand split: if_splits)

end

definition millisecondLess :: "timestamp \<Rightarrow> timestamp \<Rightarrow> bool" where
  "millisecondLess a b =
     (if ts_second a \<noteq> ts_second b then ts_second a < ts_second b else getMilliSecond a < getMilliSecond b)"

definition millisecondEqual :: "timestamp \<Rightarrow> timestamp \<Rightarrow> bool" where
  "millisecondEqual a b \<longleftrightarrow> ts_second a = ts_second b \<and> getMilliSecond a = getMilliSecond b"

definition distanceSecond :: "timestamp \<Rightarrow> timestamp \<Rightarrow> int" where
  "distanceSecond a b = (if ts_second a > ts_second b then ts_second a - ts_second b else ts_second b - ts_second a)"

definition distanceMillisecond :: "timestamp \<Rightarrow> timestamp \<Rightarrow> int" where
  "distanceMillisecond a b =
     (let (bigger, smaller) = (if a < b then (b, a) else (a, b))
      in (ts_second bigger - ts_second smaller) * 1000 + (getMilliSecond bigger - getMilliSecond smaller))"

definition ts_now :: "int \<times> int \<Rightarrow> int" where
  "ts_now clock = fst clock"

section \<open>Normal time stamps as points on a line\<close>

text \<open>What the clock delivers and the operations keep.\<close>

definition ts_normal :: "timestamp \<Rightarrow> bool" where
  "ts_normal t \<longleftrightarrow> 0 \<le> ts_nanosecond t \<and> ts_nanosecond t < 1000000000"

definition ts_ns :: "timestamp \<Rightarrow> int" where
  "ts_ns t = ts_second t * 1000000000 + ts_nanosecond t"

definition ts_ms :: "timestamp \<Rightarrow> int" where
  "ts_ms t = ts_ns t div 1000000"

lemma smod_1000: "- 1000 < (x :: int) smod 1000" "x smod 1000 < 1000"
  using smod_int_compares [of x 1000] by (cases "0 \<le> x"; force)+

lemma ts_add_normal [simp]: "ts_normal t \<Longrightarrow> ts_normal (ts_add t ms)"
  using smod_1000 [of ms] by (auto simp: ts_add_def ts_normal_def Let_def)

lemma ts_add_ns: "ts_ns (ts_add t ms) = ts_ns t + ms * 1000000"
proof -
  have "ms sdiv 1000 * 1000 + ms smod 1000 = ms" by (rule sdiv_mult_smod_eq)
  then show ?thesis by (auto simp: ts_add_def ts_ns_def Let_def algebra_simps)
qed

lemma getMilliSecond_normal: "ts_normal t \<Longrightarrow> getMilliSecond t = ts_nanosecond t div 1000000"
  by (cases "ts_nanosecond t = 0") (auto simp: getMilliSecond_def ts_normal_def signed_divide_int_eq_divide_int)

lemma ts_ms_split: "ts_normal t \<Longrightarrow> ts_ms t = ts_second t * 1000 + getMilliSecond t \<and> 0 \<le> getMilliSecond t \<and> getMilliSecond t < 1000"
  by (auto simp: getMilliSecond_normal ts_ms_def ts_ns_def ts_normal_def)

lemma ts_add_ms: "ts_ms (ts_add t ms) = ts_ms t + ms"
  by (simp add: ts_ms_def ts_add_ns)

lemma ts_less_ns: "ts_normal a \<Longrightarrow> ts_normal b \<Longrightarrow> a < b \<longleftrightarrow> ts_ns a < ts_ns b"
  by (auto simp: less_timestamp_def ts_less_def ts_ns_def ts_normal_def)

lemma ts_le_ms: "ts_normal a \<Longrightarrow> ts_normal b \<Longrightarrow> a \<le> b \<Longrightarrow> ts_ms a \<le> ts_ms b"
  by (auto simp: less_eq_timestamp_def ts_less_ns ts_ms_def not_less intro: zdiv_mono1)

lemma millisecondLess_ms: "ts_normal a \<Longrightarrow> ts_normal b \<Longrightarrow> millisecondLess a b \<longleftrightarrow> ts_ms a < ts_ms b"
  using ts_ms_split [of a] ts_ms_split [of b] by (auto simp: millisecondLess_def)

lemma distanceMillisecond_ms: "ts_normal a \<Longrightarrow> ts_normal b \<Longrightarrow> distanceMillisecond a b = \<bar>ts_ms a - ts_ms b\<bar>"
  using ts_ms_split [of a] ts_ms_split [of b] ts_le_ms [of a b] ts_le_ms [of b a]
  by (auto simp: distanceMillisecond_def less_eq_timestamp_def)

text \<open>
  A time stamp with nanoseconds in range is a point on the nanosecond line, and
  every operation is what it should be there: adding any number of milliseconds, negative
  ones included, moves the point and keeps the range; \<open>operator<\<close> is the order of the
  line; comparison and distance in milliseconds are those of the truncated milliseconds.
\<close>

lemma timestamp_line:
  assumes "ts_normal a" "ts_normal b"
  shows "ts_normal (ts_add a ms) \<and> ts_ns (ts_add a ms) = ts_ns a + ms * 1000000 \<and>
    (a < b \<longleftrightarrow> ts_ns a < ts_ns b) \<and> (a = b \<longleftrightarrow> ts_ns a = ts_ns b) \<and>
    (millisecondLess a b \<longleftrightarrow> ts_ms a < ts_ms b) \<and> (millisecondEqual a b \<longleftrightarrow> ts_ms a = ts_ms b) \<and>
    distanceMillisecond a b = \<bar>ts_ms a - ts_ms b\<bar>"
proof -
  have "ts_second t = ts_ms t div 1000 \<and> getMilliSecond t = ts_ms t mod 1000" if "ts_normal t" for t
    using ts_ms_split [OF that] by simp
  with assms have "millisecondEqual a b \<longleftrightarrow> ts_ms a = ts_ms b"
    unfolding millisecondEqual_def by (metis div_mult_mod_eq)
  moreover have "a = b \<longleftrightarrow> ts_ns a = ts_ns b"
    using ts_less_ns [OF assms] ts_less_ns [OF assms(2,1)] by (metis less_irrefl neqE)
  ultimately show ?thesis
    using assms by (simp add: ts_add_ns ts_less_ns millisecondLess_ms distanceMillisecond_ms)
qed

end
