(* ===== verification/MinHeap.thy ===== *)
theory MinHeap
  imports Prelude "HOL-Library.Multiset"
begin

text \<open>
  Binary min-heaps in a list whose cell 0 is not used, as \<open>timer_heap.cc\<close> keeps them: the two
  sift loops on plain values with a key, and the order they restore. These are the reference
  versions of the loops that \<open>TimerHeap\<close> runs on pointers.
\<close>

definition swap :: "'a list \<Rightarrow> nat \<Rightarrow> nat \<Rightarrow> 'a list" where
  "swap xs i j = xs[i := xs ! j, j := xs ! i]"

lemma length_swap [simp]: "length (swap xs i j) = length xs"
  by (simp add: swap_def)

lemma nth_swap: "i < length xs \<Longrightarrow> j < length xs \<Longrightarrow>
    swap xs i j ! k = (if k = i then xs ! j else if k = j then xs ! i else xs ! k)"
  by (auto simp: swap_def nth_list_update)

lemma mset_swap': "i < length xs \<Longrightarrow> j < length xs \<Longrightarrow> mset (swap xs i j) = mset xs"
  unfolding swap_def by (rule mset_swap)

section \<open>The sift loops\<close>

function sift_up :: "('a \<Rightarrow> 'k :: linorder) \<Rightarrow> 'a list \<Rightarrow> nat \<Rightarrow> 'a list" where
  "sift_up key xs i =
     (let p = i div 2
      in if p = 0 then xs
         else if key (xs ! i) < key (xs ! p) then sift_up key (swap xs p i) p
         else xs)"
  by pat_completeness auto
termination by (relation "measure (\<lambda>(key, xs, i). i)") auto

declare sift_up.simps [simp del]

definition small_child :: "('a \<Rightarrow> 'k :: linorder) \<Rightarrow> 'a list \<Rightarrow> nat \<Rightarrow> nat" where
  "small_child key xs i =
     (if 2 * i + 1 < length xs \<and> key (xs ! (2 * i + 1)) < key (xs ! (2 * i)) then 2 * i + 1 else 2 * i)"

function sift_down :: "('a \<Rightarrow> 'k :: linorder) \<Rightarrow> 'a list \<Rightarrow> nat \<Rightarrow> 'a list" where
  "sift_down key xs i =
     (if 2 * i \<ge> length xs then xs
      else let c = small_child key xs i
           in if key (xs ! c) < key (xs ! i) then sift_down key (swap xs i c) c
              else xs)"
  by pat_completeness auto
termination
proof (relation "measure (\<lambda>(key, xs, i). length xs - i)")
  fix key :: "'a \<Rightarrow> 'k :: linorder" and xs i c
  assume *: "\<not> length xs \<le> 2 * i" "c = small_child key xs i" "key (xs ! c) < key (xs ! i)"
  then have "i \<le> c" "c < length xs" by (auto simp: small_child_def split: if_splits)
  moreover have "c \<noteq> i" using *(3) by auto
  ultimately show "((key, swap xs i c, c), (key, xs, i)) \<in> measure (\<lambda>(key, xs, i). length xs - i)" by simp
qed simp

declare sift_down.simps [simp del]

lemma small_child: "2 * i < length xs \<Longrightarrow> small_child key xs i < length xs \<and> small_child key xs i div 2 = i \<and>
    (\<forall>j < length xs. j div 2 = i \<and> 2 * i \<le> j \<longrightarrow> key (xs ! small_child key xs i) \<le> key (xs ! j))"
proof (intro conjI allI impI)
  fix j
  assume a: "2 * i < length xs" "j < length xs" "j div 2 = i \<and> 2 * i \<le> j"
  then have "j = 2 * i \<or> j = 2 * i + 1" by auto
  with a show "key (xs ! small_child key xs i) \<le> key (xs ! j)" by (auto simp: small_child_def)
qed (auto simp: small_child_def)

lemma sift_up_same:
  "i < length xs \<Longrightarrow> length (sift_up key xs i) = length xs \<and> mset (sift_up key xs i) = mset xs \<and>
     sift_up key xs i ! 0 = xs ! 0"
proof (induction key xs i rule: sift_up.induct)
  case (1 key xs i)
  have p: "i div 2 < length xs" using "1.prems" by simp
  show ?case
  proof (cases "i div 2 = 0 \<or> \<not> key (xs ! i) < key (xs ! (i div 2))")
    case True
    then show ?thesis by (subst (1 2 3) sift_up.simps) (auto simp: Let_def)
  next
    case False
    then have "sift_up key xs i = sift_up key (swap xs (i div 2) i) (i div 2)" by (subst sift_up.simps) (simp add: Let_def)
    with "1.IH" [OF refl] False p "1.prems" show ?thesis by (simp add: mset_swap' nth_swap)
  qed
qed

lemma sift_down_same:
  "0 < i \<Longrightarrow> i < length xs \<Longrightarrow> length (sift_down key xs i) = length xs \<and> mset (sift_down key xs i) = mset xs \<and>
     sift_down key xs i ! 0 = xs ! 0"
proof (induction key xs i rule: sift_down.induct)
  case (1 key xs i)
  show ?case
  proof (cases "2 * i \<ge> length xs \<or> \<not> key (xs ! small_child key xs i) < key (xs ! i)")
    case True
    then show ?thesis by (subst (1 2 3) sift_down.simps) (auto simp: Let_def)
  next
    case False
    then have c: "small_child key xs i < length xs" "0 < small_child key xs i" "\<not> length xs \<le> 2 * i"
      using small_child [of i xs key] "1.prems" by (auto simp: small_child_def)
    have "sift_down key xs i = sift_down key (swap xs i (small_child key xs i)) (small_child key xs i)"
      using False by (subst sift_down.simps) (simp add: Let_def)
    with "1.IH" [OF c(3) refl] False c "1.prems" show ?thesis by (simp add: mset_swap' nth_swap)
  qed
qed

section \<open>The order of a heap\<close>

definition heap_ok :: "('a \<Rightarrow> 'k :: linorder) \<Rightarrow> 'a list \<Rightarrow> bool" where
  "heap_ok key xs \<longleftrightarrow> (\<forall>i. 2 \<le> i \<and> i < length xs \<longrightarrow> key (xs ! (i div 2)) \<le> key (xs ! i))"

text \<open>The cell \<open>i\<close> may be too small for its parent, respectively too large for its children.\<close>

definition up_hole :: "('a \<Rightarrow> 'k :: linorder) \<Rightarrow> 'a list \<Rightarrow> nat \<Rightarrow> bool" where
  "up_hole key xs i \<longleftrightarrow>
     (\<forall>j. 2 \<le> j \<and> j < length xs \<and> j \<noteq> i \<longrightarrow> key (xs ! (j div 2)) \<le> key (xs ! j)) \<and>
     (\<forall>j. j < length xs \<and> j div 2 = i \<and> 2 \<le> i \<longrightarrow> key (xs ! (i div 2)) \<le> key (xs ! j))"

definition down_hole :: "('a \<Rightarrow> 'k :: linorder) \<Rightarrow> 'a list \<Rightarrow> nat \<Rightarrow> bool" where
  "down_hole key xs i \<longleftrightarrow>
     (\<forall>j. 2 \<le> j \<and> j < length xs \<and> j div 2 \<noteq> i \<longrightarrow> key (xs ! (j div 2)) \<le> key (xs ! j)) \<and>
     (\<forall>j. j < length xs \<and> j div 2 = i \<and> 2 \<le> i \<longrightarrow> key (xs ! (i div 2)) \<le> key (xs ! j))"

lemma heap_top: "heap_ok key xs \<Longrightarrow> 0 < i \<Longrightarrow> i < length xs \<Longrightarrow> key (xs ! 1) \<le> key (xs ! i)"
proof (induction i rule: less_induct)
  case (less i)
  show ?case
  proof (cases "i = 1")
    case False
    then have "0 < i div 2" "i div 2 < i" using less.prems(2) by auto
    then have "key (xs ! 1) \<le> key (xs ! (i div 2))" using less by simp
    also have "\<dots> \<le> key (xs ! i)" using less.prems False by (simp add: heap_ok_def)
    finally show ?thesis .
  qed simp
qed

lemma up_hole_step:
  assumes "up_hole key xs i" "i < length xs" "i div 2 \<noteq> 0" "key (xs ! i) < key (xs ! (i div 2))"
  shows "up_hole key (swap xs (i div 2) i) (i div 2)"
proof -
  let ?p = "i div 2" and ?ys = "swap xs (i div 2) i"
  have i: "2 \<le> i" "?p < length xs" "?p \<noteq> i" using assms(2,3) by auto
  have n: "?ys ! k = (if k = ?p then xs ! i else if k = i then xs ! ?p else xs ! k)" for k
    using i assms(2) by (simp add: nth_swap)
  have h: "key (xs ! (j div 2)) \<le> key (xs ! j)" if "2 \<le> j" "j < length xs" "j \<noteq> i" for j
    using assms(1) that by (simp add: up_hole_def)
  have c: "key (xs ! ?p) \<le> key (xs ! j)" if "j < length xs" "j div 2 = i" for j
    using assms(1) i(1) that by (simp add: up_hole_def)
  have s: "key (xs ! i) \<le> key (xs ! ?p)" using assms(4) by simp
  have 1: "key (?ys ! (j div 2)) \<le> key (?ys ! j)" if j: "2 \<le> j" "j < length xs" "j \<noteq> ?p" for j
  proof -
    consider "j = i" | "j \<noteq> i" "j div 2 = i" | "j \<noteq> i" "j div 2 = ?p" | "j \<noteq> i" "j div 2 \<noteq> i" "j div 2 \<noteq> ?p" by blast
    then show ?thesis
    proof cases
      case 1
      then show ?thesis using s i(3) by (simp add: n)
    next
      case 2
      then show ?thesis using c j i(3) by (simp add: n)
    next
      case 3
      then show ?thesis using order_trans [OF s] h [OF j(1,2)] j(3) by (simp add: n)
    next
      case 4
      then show ?thesis using h [OF j(1,2)] j(3) by (simp add: n)
    qed
  qed
  have 2: "key (?ys ! (?p div 2)) \<le> key (?ys ! j)" if j: "j < length xs" "j div 2 = ?p" "2 \<le> ?p" for j
  proof -
    have pp: "?p div 2 \<noteq> ?p" "?p div 2 \<noteq> i" "?p div 2 < length xs" using j(3) i by auto
    have a: "key (xs ! (?p div 2)) \<le> key (xs ! ?p)" using h [of ?p] j(3) i by simp
    show ?thesis
    proof (cases "j = i")
      case False
      have "j \<noteq> ?p" using j(2,3) by auto
      moreover have "2 \<le> j" using j(2,3) by auto
      ultimately show ?thesis using False order_trans [OF a] h [OF _ j(1)] j(2) pp by (simp add: n)
    qed (use a pp i in \<open>simp add: n\<close>)
  qed
  from 1 2 show ?thesis by (simp add: up_hole_def)
qed

lemma sift_up_heap: "up_hole key xs i \<Longrightarrow> 0 < i \<Longrightarrow> i < length xs \<Longrightarrow> heap_ok key (sift_up key xs i)"
proof (induction key xs i rule: sift_up.induct)
  case (1 key xs i)
  show ?case
  proof (cases "i div 2 = 0 \<or> \<not> key (xs ! i) < key (xs ! (i div 2))")
    case True
    then have "heap_ok key xs" using "1.prems" by (auto simp: heap_ok_def up_hole_def not_less)
    with True show ?thesis by (subst sift_up.simps) (auto simp: Let_def)
  next
    case False
    then have "up_hole key (swap xs (i div 2) i) (i div 2)" using up_hole_step "1.prems" by blast
    moreover have "sift_up key xs i = sift_up key (swap xs (i div 2) i) (i div 2)"
      using False by (subst sift_up.simps) (simp add: Let_def)
    ultimately show ?thesis using "1.IH" [OF refl] False "1.prems" by simp
  qed
qed

lemma down_hole_step:
  assumes "down_hole key xs i" "0 < i" "2 * i < length xs" "c = small_child key xs i" "key (xs ! c) < key (xs ! i)"
  shows "down_hole key (swap xs i c) c"
proof -
  let ?ys = "swap xs i c"
  have c: "c < length xs" "c div 2 = i" using small_child [OF assms(3), of key] assms(4) by simp_all
  have min: "key (xs ! c) \<le> key (xs ! j)" if "j < length xs" "j div 2 = i" for j
    using small_child [OF assms(3), of key] assms(4) that by auto
  have i: "i < length xs" "c \<noteq> i" using assms(2,3) c(2) by auto
  have n: "?ys ! k = (if k = i then xs ! c else if k = c then xs ! i else xs ! k)" for k
    using i c by (simp add: nth_swap)
  have h: "key (xs ! (j div 2)) \<le> key (xs ! j)" if "2 \<le> j" "j < length xs" "j div 2 \<noteq> i" for j
    using assms(1) that by (simp add: down_hole_def)
  have g: "key (xs ! (i div 2)) \<le> key (xs ! j)" if "j < length xs" "j div 2 = i" "2 \<le> i" for j
    using assms(1) that by (simp add: down_hole_def)
  have 1: "key (?ys ! (j div 2)) \<le> key (?ys ! j)" if j: "2 \<le> j" "j < length xs" "j div 2 \<noteq> c" for j
  proof -
    consider "j = c" | "j = i" | "j \<noteq> c" "j \<noteq> i" "j div 2 = i" | "j \<noteq> c" "j \<noteq> i" "j div 2 \<noteq> i" by blast
    then show ?thesis
    proof cases
      case 1
      then show ?thesis using assms(5) i(2) c(2) by (simp add: n less_imp_le)
    next
      case 2
      have "i div 2 \<noteq> i" "i div 2 \<noteq> c" using assms(2) c(2) j(3) 2 by auto
      then show ?thesis using 2 g [OF c] j(1) by (simp add: n)
    next
      case 3
      then show ?thesis using min [OF j(2)] by (simp add: n)
    next
      case 4
      then show ?thesis using h [OF j(1,2)] j(3) by (simp add: n)
    qed
  qed
  have 2: "key (?ys ! (c div 2)) \<le> key (?ys ! j)" if j: "j < length xs" "j div 2 = c" "2 \<le> c" for j
  proof -
    have "j \<noteq> c" "j \<noteq> i" "j div 2 \<noteq> i" "2 \<le> j" using j c(2) i(2) assms(2) by auto
    then show ?thesis using h [of j] j c(2) by (simp add: n)
  qed
  from 1 2 show ?thesis by (simp add: down_hole_def)
qed

lemma down_hole_done:
  assumes "down_hole key xs i" "2 * i \<ge> length xs \<or> \<not> key (xs ! small_child key xs i) < key (xs ! i)"
  shows "heap_ok key xs"
proof -
  have "key (xs ! i) \<le> key (xs ! j)" if j: "2 \<le> j" "j < length xs" "j div 2 = i" for j
  proof -
    have "2 * i < length xs" "2 * i \<le> j" using j by auto
    with small_child [of i xs key] assms(2) j show ?thesis by (auto simp: not_less intro: order_trans)
  qed
  with assms(1) show ?thesis by (auto simp: heap_ok_def down_hole_def)
qed

lemma sift_down_heap: "down_hole key xs i \<Longrightarrow> 0 < i \<Longrightarrow> i < length xs \<Longrightarrow> heap_ok key (sift_down key xs i)"
proof (induction key xs i rule: sift_down.induct)
  case (1 key xs i)
  show ?case
  proof (cases "2 * i \<ge> length xs \<or> \<not> key (xs ! small_child key xs i) < key (xs ! i)")
    case True
    then have "sift_down key xs i = xs" by (subst sift_down.simps) (auto simp: Let_def)
    with down_hole_done [OF "1.prems"(1) True] show ?thesis by simp
  next
    case False
    then have c: "small_child key xs i < length xs" "0 < small_child key xs i" "\<not> length xs \<le> 2 * i"
      using small_child [of i xs key] "1.prems"(2) by (auto simp: small_child_def)
    have "sift_down key xs i = sift_down key (swap xs i (small_child key xs i)) (small_child key xs i)"
      using False by (subst sift_down.simps) (simp add: Let_def)
    with "1.IH" [OF c(3) refl] down_hole_step [OF "1.prems"(1,2) _ refl] False c show ?thesis by simp
  qed
qed

end
