(* ===== verification/TimerHeap.thy ===== *)
theory TimerHeap
  imports Timestamp MinHeap
begin

text \<open>
  Model of \<open>src/brickred/timer_heap.{h,cc}\<close>. A \<open>Timer *\<close> is the id of the timer it points to, with
  0 for the null pointer of the unused cell 0; the map \<open>timers_\<close> is at the same time the store
  the pointers are read in, so a pointer to a timer that was deleted reads \<open>None\<close>. Callbacks
  are values of a type \<open>'c\<close> that a parameter runs on the heap and the rest of the world.
\<close>

section \<open>State\<close>

record 'c timer =
  t_id :: int
  t_timestamp :: timestamp
  t_timeout :: int
  t_cb :: 'c
  t_call_times :: int
  t_heap_pos :: int

type_synonym 'c timers = "int \<rightharpoonup> 'c timer"

record 'c timer_heap =
  th_value :: int
  th_timers :: "'c timers"
  th_heap :: "int list"

definition INT64_MAX :: int where
  "INT64_MAX = 2 ^ 63 - 1"

definition getId :: "int \<Rightarrow> int" where
  "getId v = (if v = INT64_MAX then 1 else v + 1)"

definition timer_new :: "int \<Rightarrow> timestamp \<Rightarrow> int \<Rightarrow> 'c \<Rightarrow> int \<Rightarrow> 'c timer" where
  "timer_new timer_id stamp timeout cb call_times =
     \<lparr>t_id = timer_id, t_timestamp = stamp, t_timeout = timeout, t_cb = cb, t_call_times = call_times, t_heap_pos = -1\<rparr>"

text \<open>The accessor \<open>int getTimeout()\<close> converts the 64-bit member to 32 bits.\<close>

definition getTimeout :: "'c timer \<Rightarrow> int" where
  "getTimeout t = sint (word_of_int (t_timeout t) :: 32 word)"

definition th_new :: "'c timer_heap" where
  "th_new = \<lparr>th_value = 0, th_timers = Map.empty, th_heap = [0]\<rparr>"

section \<open>The heap of pointers\<close>

definition deref :: "'c timers \<Rightarrow> int list \<Rightarrow> nat \<Rightarrow> 'c timer option" where
  "deref ts hp i = (if i < length hp then ts (hp ! i) else None)"

definition setHeapPos :: "'c timers \<Rightarrow> int \<Rightarrow> int \<Rightarrow> 'c timers option" where
  "setHeapPos ts p pos = map_option (\<lambda>t. ts(p \<mapsto> t\<lparr>t_heap_pos := pos\<rparr>)) (ts p)"

function minHeapShiftUp :: "'c timers \<Rightarrow> int list \<Rightarrow> nat \<Rightarrow> ('c timers \<times> int list) option" where
  "minHeapShiftUp ts hp cur =
     (let parent = cur div 2
      in if parent = 0 then Some (ts, hp)
         else do {
           tc \<leftarrow> deref ts hp cur;
           tp \<leftarrow> deref ts hp parent;
           if t_timestamp tc < t_timestamp tp then do {
             ts \<leftarrow> setHeapPos ts (hp ! parent) (int cur);
             ts \<leftarrow> setHeapPos ts (hp ! cur) (int parent);
             minHeapShiftUp ts (swap hp parent cur) parent }
           else Some (ts, hp) })"
  by pat_completeness auto
termination by (relation "measure (\<lambda>(ts, hp, cur). cur)") auto

declare minHeapShiftUp.simps [simp del]

text \<open>The smaller child: \<open>child_index\<close> after the comparison of the two.\<close>

definition child_index :: "'c timers \<Rightarrow> int list \<Rightarrow> nat \<Rightarrow> nat option" where
  "child_index ts hp cur =
     (let child = cur * 2
      in if child + 1 < length hp then do {
           t1 \<leftarrow> deref ts hp (child + 1);
           t0 \<leftarrow> deref ts hp child;
           Some (if t_timestamp t1 < t_timestamp t0 then child + 1 else child) }
         else Some child)"

function minHeapShiftDown :: "'c timers \<Rightarrow> int list \<Rightarrow> nat \<Rightarrow> ('c timers \<times> int list) option" where
  "minHeapShiftDown ts hp cur =
     (if cur * 2 \<ge> length hp then Some (ts, hp)
      else do {
        child \<leftarrow> child_index ts hp cur;
        tc \<leftarrow> deref ts hp child;
        tp \<leftarrow> deref ts hp cur;
        if t_timestamp tc < t_timestamp tp then do {
          ts \<leftarrow> setHeapPos ts (hp ! cur) (int child);
          ts \<leftarrow> setHeapPos ts (hp ! child) (int cur);
          minHeapShiftDown ts (swap hp cur child) child }
        else Some (ts, hp) })"
  by pat_completeness auto
termination
proof (relation "measure (\<lambda>(ts, hp, cur). length hp - cur)")
  fix ts :: "'c timers" and hp cur child tc tp ts1 ts2
  assume *: "\<not> length hp \<le> cur * 2" "child_index ts hp cur = Some child" "deref ts hp child = Some tc"
    "deref ts hp cur = Some tp" "t_timestamp tc < t_timestamp tp"
  then have "cur \<le> child" "child < length hp"
    by (auto simp: child_index_def bind_eq_Some_conv Let_def deref_def split: if_splits)
  moreover have "child \<noteq> cur" using *(3-5) by auto
  ultimately show "((ts2, swap hp cur child, child), (ts, hp, cur)) \<in> measure (\<lambda>(ts, hp, cur). length hp - cur)"
    by simp
qed simp

declare minHeapShiftDown.simps [simp del]

definition minHeapInsert :: "'c timer_heap \<Rightarrow> int \<Rightarrow> 'c timer_heap option" where
  "minHeapInsert h p =
     (let cur = length (th_heap h)
      in do {
        ts \<leftarrow> setHeapPos (th_timers h) p (int cur);
        (ts, hp) \<leftarrow> minHeapShiftUp ts (th_heap h @ [p]) cur;
        Some (h\<lparr>th_timers := ts, th_heap := hp\<rparr>) })"

definition minHeapErase :: "'c timer_heap \<Rightarrow> int \<Rightarrow> 'c timer_heap option" where
  "minHeapErase h p = do {
     t \<leftarrow> th_timers h p;
     if t_heap_pos t < 0 then Some h
     else do {
       let cur = nat (t_heap_pos t);
       ts \<leftarrow> setHeapPos (th_timers h) p (-1);
       if length (th_heap h) \<le> cur then None
       else do {
         let hp = (th_heap h)[cur := last (th_heap h)];
         ts \<leftarrow> setHeapPos ts (hp ! cur) (int cur);
         let hp = butlast hp;
         if cur \<ge> length hp then Some (h\<lparr>th_timers := ts, th_heap := hp\<rparr>)
         else do {
           let parent = cur div 2;
           up \<leftarrow> (if parent > 0 then do {
                    tc \<leftarrow> deref ts hp cur;
                    tp \<leftarrow> deref ts hp parent;
                    Some (t_timestamp tc < t_timestamp tp) }
                  else Some False);
           (ts, hp) \<leftarrow> (if up then minHeapShiftUp ts hp cur else minHeapShiftDown ts hp cur);
           Some (h\<lparr>th_timers := ts, th_heap := hp\<rparr>) } } } }"

definition minHeapTop :: "'c timer_heap \<Rightarrow> int" where
  "minHeapTop h = (if length (th_heap h) \<le> 1 then 0 else th_heap h ! 1)"

section \<open>Operations\<close>

definition getNextTimeoutMillisecond :: "'c timer_heap \<Rightarrow> timestamp \<Rightarrow> int option" where
  "getNextTimeoutMillisecond h now =
     (if minHeapTop h = 0 then Some (-1)
      else do {
        t \<leftarrow> th_timers h (minHeapTop h);
        if t_timestamp t < now then Some 0
        else Some (distanceMillisecond now (t_timestamp t)) })"

definition addTimer :: "'c timer_heap \<Rightarrow> timestamp \<Rightarrow> int \<Rightarrow> 'c \<Rightarrow> int \<Rightarrow> (int \<times> 'c timer_heap) option" where
  "addTimer h now timeout_ms cb call_times =
     (let timer_id = getId (th_value h);
          h = h\<lparr>th_value := timer_id\<rparr>;
          timeout_ms = max 0 timeout_ms;
          timer = timer_new timer_id (ts_plus now timeout_ms) timeout_ms cb call_times
      in if th_timers h timer_id \<noteq> None then Some (-1, h)
         else do {
           h \<leftarrow> minHeapInsert (h\<lparr>th_timers := (th_timers h)(timer_id \<mapsto> timer)\<rparr>) timer_id;
           Some (timer_id, h) })"

definition erase_timer :: "'c timer_heap \<Rightarrow> int \<Rightarrow> 'c timer_heap" where
  "erase_timer h timer_id = h\<lparr>th_timers := (th_timers h)(timer_id := None)\<rparr>"

definition removeTimer :: "'c timer_heap \<Rightarrow> int \<Rightarrow> 'c timer_heap option" where
  "removeTimer h timer_id =
     (if th_timers h timer_id = None then Some h
      else do {
        h \<leftarrow> minHeapErase h timer_id;
        Some (erase_timer h timer_id) })"

text \<open>
  One turn of the loop of \<open>checkTimeout\<close>: \<open>Inl\<close> leaves the loop, \<open>Inr\<close> is the state after the
  callback.
\<close>

type_synonym ('c, 'w) callback_runner = "'c \<Rightarrow> int \<Rightarrow> 'c timer_heap \<times> 'w \<Rightarrow> 'c timer_heap \<times> 'w"

definition expire :: "'c timer_heap \<Rightarrow> int \<Rightarrow> 'c timer_heap option" where
  "expire h p = do {
     h \<leftarrow> minHeapErase h p;
     t \<leftarrow> th_timers h p;
     if t_call_times t = 1 then Some (erase_timer h (t_id t))
     else do {
       let t = (if t_call_times t > 0 then t\<lparr>t_call_times := t_call_times t - 1\<rparr> else t);
       let t = t\<lparr>t_timestamp := ts_add (t_timestamp t) (getTimeout t)\<rparr>;
       minHeapInsert (h\<lparr>th_timers := (th_timers h)(p \<mapsto> t)\<rparr>) p } }"

definition checkTimeout_step :: "('c, 'w) callback_runner \<Rightarrow> timestamp \<Rightarrow> 'c timer_heap \<times> 'w \<Rightarrow>
    ('c timer_heap \<times> 'w + 'c timer_heap \<times> 'w) option" where
  "checkTimeout_step call now s =
     (let h = fst s; p = minHeapTop h
      in if p = 0 then Some (Inl s)
         else do {
           t \<leftarrow> th_timers h p;
           if millisecondLess now (t_timestamp t) then Some (Inl s)
           else do {
             h \<leftarrow> expire h p;
             Some (Inr (call (t_cb t) (t_id t) (h, snd s))) } })"

partial_function (option) checkTimeout ::
    "('c, 'w) callback_runner \<Rightarrow> timestamp \<Rightarrow> 'c timer_heap \<times> 'w \<Rightarrow> ('c timer_heap \<times> 'w) option" where
  "checkTimeout call now s = do {
     r \<leftarrow> checkTimeout_step call now s;
     case r of Inl s \<Rightarrow> Some s | Inr s \<Rightarrow> checkTimeout call now s }"

section \<open>The pointer heap refines the plain heap\<close>

text \<open>
  Everything but the heap positions: the store of timers as a client sees it, and the key of
  the heap order.
\<close>

definition strip :: "'c timers \<Rightarrow> 'c timers" where
  "strip ts = (\<lambda>p. map_option (t_heap_pos_update (\<lambda>_. 0)) (ts p))"

definition stamp :: "'c timers \<Rightarrow> int \<Rightarrow> timestamp" where
  "stamp ts p = (case ts p of None \<Rightarrow> ts_new | Some t \<Rightarrow> t_timestamp t)"

definition indexed :: "'c timers \<Rightarrow> int list \<Rightarrow> bool" where
  "indexed ts hp \<longleftrightarrow> (\<forall>i. 0 < i \<and> i < length hp \<longrightarrow> (\<exists>t. ts (hp ! i) = Some t \<and> t_heap_pos t = int i))"

lemma strip_timer:
  "strip ts = strip ts' \<Longrightarrow> ts p = Some t \<Longrightarrow> \<exists>pos. ts' p = Some (t\<lparr>t_heap_pos := pos\<rparr>)"
proof -
  assume "strip ts = strip ts'" "ts p = Some t"
  then have "map_option (t_heap_pos_update (\<lambda>_. 0)) (ts' p) = Some (t\<lparr>t_heap_pos := 0\<rparr>)"
    by (metis option.simps(9) strip_def)
  then obtain t' where "ts' p = Some t'" "t'\<lparr>t_heap_pos := 0\<rparr> = t\<lparr>t_heap_pos := 0\<rparr>" by auto
  moreover from this(2) have "t' = t\<lparr>t_heap_pos := t_heap_pos t'\<rparr>" by (cases t; cases t') simp
  ultimately show ?thesis by metis
qed

lemma dom_strip: "dom (strip ts) = dom ts"
  by (auto simp: strip_def dom_def)

lemma strip_dom: "strip ts = strip ts' \<Longrightarrow> dom ts = dom ts'"
  by (metis dom_strip)

lemma strip_stamp: "strip ts = strip ts' \<Longrightarrow> stamp ts = stamp ts'"
proof
  fix p
  assume s: "strip ts = strip ts'"
  show "stamp ts p = stamp ts' p"
  proof (cases "ts p")
    case None
    then have "ts' p = None" using strip_dom [OF s] by (metis domIff)
    with None show ?thesis by (simp add: stamp_def)
  next
    case (Some t)
    with strip_timer [OF s] show ?thesis by (force simp: stamp_def)
  qed
qed

lemma setHeapPos_Some:
  "ts p = Some t \<Longrightarrow> setHeapPos ts p pos = Some (ts(p \<mapsto> t\<lparr>t_heap_pos := pos\<rparr>)) \<and>
     strip (ts(p \<mapsto> t\<lparr>t_heap_pos := pos\<rparr>)) = strip ts"
  by (auto simp: setHeapPos_def strip_def fun_eq_iff)

lemma indexed_inj: "indexed ts hp \<Longrightarrow> 0 < i \<Longrightarrow> i < length hp \<Longrightarrow> 0 < j \<Longrightarrow> j < length hp \<Longrightarrow> hp ! i = hp ! j \<Longrightarrow> i = j"
  unfolding indexed_def by (metis of_nat_eq_iff option.inject)

lemma indexed_swap:
  assumes ix: "indexed ts hp" and ij: "0 < i" "i < length hp" "0 < j" "j < length hp" "i \<noteq> j"
  shows "\<exists>ts1 ts2. setHeapPos ts (hp ! i) (int j) = Some ts1 \<and> setHeapPos ts1 (hp ! j) (int i) = Some ts2 \<and>
    indexed ts2 (swap hp i j) \<and> strip ts2 = strip ts"
proof -
  obtain ti tj where t: "ts (hp ! i) = Some ti" "ts (hp ! j) = Some tj" using ix ij unfolding indexed_def by metis
  have ne: "hp ! i \<noteq> hp ! j" using indexed_inj [OF ix ij(1-4)] ij(5) by blast
  let ?ts1 = "ts(hp ! i \<mapsto> ti\<lparr>t_heap_pos := int j\<rparr>)"
  let ?ts2 = "?ts1(hp ! j \<mapsto> tj\<lparr>t_heap_pos := int i\<rparr>)"
  have 1: "setHeapPos ts (hp ! i) (int j) = Some ?ts1" "strip ?ts1 = strip ts" using setHeapPos_Some [of ts "hp ! i" ti] t(1) by simp_all
  have "?ts1 (hp ! j) = Some tj" using t(2) ne by simp
  then have 2: "setHeapPos ?ts1 (hp ! j) (int i) = Some ?ts2" "strip ?ts2 = strip ?ts1" using setHeapPos_Some by blast+
  have "\<exists>t. ?ts2 (swap hp i j ! k) = Some t \<and> t_heap_pos t = int k" if k: "0 < k" "k < length hp" for k
  proof -
    consider "k = i" | "k = j" "k \<noteq> i" | "k \<noteq> i" "k \<noteq> j" by blast
    then show ?thesis
    proof cases
      case 3
      then have "hp ! k \<noteq> hp ! i" "hp ! k \<noteq> hp ! j" using indexed_inj [OF ix] k ij by blast+
      with 3 show ?thesis using ix k ij by (simp add: nth_swap indexed_def)
    qed (use ij ne in \<open>simp_all add: nth_swap\<close>)
  qed
  then have "indexed ?ts2 (swap hp i j)" by (simp add: indexed_def)
  with 1 2 show ?thesis by metis
qed

lemma deref_indexed: "indexed ts hp \<Longrightarrow> 0 < i \<Longrightarrow> i < length hp \<Longrightarrow>
    \<exists>t. deref ts hp i = Some t \<and> t_timestamp t = stamp ts (hp ! i)"
  by (auto simp: indexed_def deref_def stamp_def split: option.split)

lemma shiftUp_refines:
  "indexed ts hp \<Longrightarrow> 0 < cur \<Longrightarrow> cur < length hp \<Longrightarrow>
     \<exists>ts'. minHeapShiftUp ts hp cur = Some (ts', sift_up (stamp ts) hp cur) \<and>
       indexed ts' (sift_up (stamp ts) hp cur) \<and> strip ts' = strip ts"
proof (induction ts hp cur rule: minHeapShiftUp.induct)
  case (1 ts hp cur)
  let ?p = "cur div 2"
  show ?case
  proof (cases "?p = 0")
    case True
    with "1.prems" show ?thesis by (subst minHeapShiftUp.simps, subst (1 2) sift_up.simps) auto
  next
    case False
    have p: "0 < ?p" "?p < length hp" "?p \<noteq> cur" using False "1.prems" by auto
    obtain tc tp where t: "deref ts hp cur = Some tc" "t_timestamp tc = stamp ts (hp ! cur)"
        "deref ts hp ?p = Some tp" "t_timestamp tp = stamp ts (hp ! ?p)"
      using deref_indexed [OF "1.prems"(1)] p "1.prems" by metis
    show ?thesis
    proof (cases "stamp ts (hp ! cur) < stamp ts (hp ! ?p)")
      case True
      obtain ts1 ts2 where s: "setHeapPos ts (hp ! ?p) (int cur) = Some ts1" "setHeapPos ts1 (hp ! cur) (int ?p) = Some ts2"
          "indexed ts2 (swap hp ?p cur)" "strip ts2 = strip ts"
        using indexed_swap [OF "1.prems"(1) p(1,2) "1.prems"(2,3) p(3)] by blast
      have "minHeapShiftUp ts hp cur = minHeapShiftUp ts2 (swap hp ?p cur) ?p"
        using True False t s(1,2) by (subst minHeapShiftUp.simps) (simp add: Let_def)
      moreover have "sift_up (stamp ts) hp cur = sift_up (stamp ts2) (swap hp ?p cur) ?p"
        using True False strip_stamp [OF s(4)] by (subst sift_up.simps) (simp add: Let_def)
      ultimately show ?thesis
        using "1.IH" [OF refl False t(1,3) _ s(1,2,3)] True t s(4) p by auto
    next
      case nl: False
      then have "sift_up (stamp ts) hp cur = hp" by (subst sift_up.simps) (simp add: Let_def)
      moreover have "minHeapShiftUp ts hp cur = Some (ts, hp)"
        using nl False t by (subst minHeapShiftUp.simps) (simp add: Let_def)
      ultimately show ?thesis using "1.prems" by simp
    qed
  qed
qed

lemma child_index_refines:
  "indexed ts hp \<Longrightarrow> 0 < cur \<Longrightarrow> cur * 2 < length hp \<Longrightarrow> child_index ts hp cur = Some (small_child (stamp ts) hp cur)"
  using deref_indexed [of ts hp "cur * 2"] deref_indexed [of ts hp "cur * 2 + 1"]
  by (auto simp: child_index_def small_child_def Let_def mult.commute)

lemma shiftDown_refines:
  "indexed ts hp \<Longrightarrow> 0 < cur \<Longrightarrow> cur < length hp \<Longrightarrow>
     \<exists>ts'. minHeapShiftDown ts hp cur = Some (ts', sift_down (stamp ts) hp cur) \<and>
       indexed ts' (sift_down (stamp ts) hp cur) \<and> strip ts' = strip ts"
proof (induction ts hp cur rule: minHeapShiftDown.induct)
  case (1 ts hp cur)
  let ?c = "small_child (stamp ts) hp cur"
  show ?case
  proof (cases "length hp \<le> cur * 2")
    case True
    with "1.prems" show ?thesis by (subst minHeapShiftDown.simps, subst (1 2) sift_down.simps) auto
  next
    case False
    then have l: "cur * 2 < length hp" by simp
    have c: "child_index ts hp cur = Some ?c" using child_index_refines [OF "1.prems"(1,2) l] .
    have p: "0 < ?c" "?c < length hp" "cur \<noteq> ?c"
      using small_child [of cur hp "stamp ts"] l "1.prems"(2) by (auto simp: mult.commute)
    obtain tc tp where t: "deref ts hp ?c = Some tc" "t_timestamp tc = stamp ts (hp ! ?c)"
        "deref ts hp cur = Some tp" "t_timestamp tp = stamp ts (hp ! cur)"
      using deref_indexed [OF "1.prems"(1)] p "1.prems" by metis
    show ?thesis
    proof (cases "stamp ts (hp ! ?c) < stamp ts (hp ! cur)")
      case True
      obtain ts1 ts2 where s: "setHeapPos ts (hp ! cur) (int ?c) = Some ts1" "setHeapPos ts1 (hp ! ?c) (int cur) = Some ts2"
          "indexed ts2 (swap hp cur ?c)" "strip ts2 = strip ts"
        using indexed_swap [OF "1.prems" p] by blast
      have "minHeapShiftDown ts hp cur = minHeapShiftDown ts2 (swap hp cur ?c) ?c"
        using True False c t s(1,2) by (subst minHeapShiftDown.simps) (simp add: Let_def)
      moreover have "sift_down (stamp ts) hp cur = sift_down (stamp ts2) (swap hp cur ?c) ?c"
        using True False strip_stamp [OF s(4)] by (subst sift_down.simps) (simp add: Let_def)
      ultimately show ?thesis
        using "1.IH" [OF False c t(1,3) _ s(1,2,3)] True t s(4) p by auto
    next
      case nl: False
      then have "sift_down (stamp ts) hp cur = hp" by (subst sift_down.simps) (simp add: Let_def)
      moreover have "minHeapShiftDown ts hp cur = Some (ts, hp)"
        using nl False c t by (subst minHeapShiftDown.simps) (simp add: Let_def)
      ultimately show ?thesis using "1.prems" by simp
    qed
  qed
qed

section \<open>The invariant\<close>

definition timer_ok :: "int \<Rightarrow> 'c timer \<Rightarrow> bool" where
  "timer_ok p t \<longleftrightarrow> t_id t = p \<and> 0 < p \<and> p \<le> INT64_MAX \<and> ts_normal (t_timestamp t)"

text \<open>
  The heap holds exactly the timers of the map, each once and at the position it records, in
  heap order; \<open>S\<close> are timers of the map that are for the moment not in the heap.
\<close>

definition th_mid :: "'c timer_heap \<Rightarrow> int set \<Rightarrow> bool" where
  "th_mid h S \<longleftrightarrow> th_heap h \<noteq> [] \<and> th_heap h ! 0 = 0 \<and> indexed (th_timers h) (th_heap h) \<and>
     dom (th_timers h) = set (tl (th_heap h)) \<union> S \<and> S \<inter> set (tl (th_heap h)) = {} \<and>
     (\<forall>p t. th_timers h p = Some t \<longrightarrow> timer_ok p t) \<and>
     heap_ok (stamp (th_timers h)) (th_heap h) \<and> 0 \<le> th_value h \<and> th_value h \<le> INT64_MAX"

definition th_inv :: "'c timer_heap \<Rightarrow> bool" where
  "th_inv h \<longleftrightarrow> th_mid h {}"

lemma in_set_tl: "x \<in> set (tl xs) \<longleftrightarrow> (\<exists>i. 0 < i \<and> i < length xs \<and> xs ! i = x)"
proof
  assume "x \<in> set (tl xs)"
  then obtain j where "j < length (tl xs)" "tl xs ! j = x" by (auto simp: in_set_conv_nth)
  then show "\<exists>i. 0 < i \<and> i < length xs \<and> xs ! i = x" by (intro exI [of _ "Suc j"]) (simp add: nth_tl)
next
  assume "\<exists>i. 0 < i \<and> i < length xs \<and> xs ! i = x"
  then obtain i where "0 < i" "i < length xs" "xs ! i = x" by blast
  then show "x \<in> set (tl xs)" by (auto simp: in_set_conv_nth nth_tl intro!: exI [of _ "i - 1"])
qed

lemma set_tl_same:
  assumes "mset xs = mset ys" "xs ! 0 = ys ! 0" "ys \<noteq> []"
  shows "set (tl xs) = set (tl ys)"
proof -
  have "xs \<noteq> []" using assms(1,3) by auto
  with assms have "mset (tl xs) = mset (tl ys)" by (cases xs; cases ys) auto
  then show ?thesis by (rule mset_eq_setD)
qed

lemma heap_ok_cong:
  "(\<And>x. x \<in> set (tl xs) \<Longrightarrow> key x = key' x) \<Longrightarrow> heap_ok key xs = heap_ok key' xs"
proof -
  assume *: "\<And>x. x \<in> set (tl xs) \<Longrightarrow> key x = key' x"
  have "key (xs ! i) = key' (xs ! i)" if "0 < i" "i < length xs" for i
    using * in_set_tl [of "xs ! i" xs] that by blast
  moreover have "0 < i div 2 \<and> i div 2 < length xs" if "2 \<le> i" "i < length xs" for i using that by auto
  ultimately show ?thesis by (simp add: heap_ok_def)
qed

lemma timers_ok_strip:
  assumes "strip ts' = strip ts" "\<forall>p t. ts p = Some t \<longrightarrow> timer_ok p t"
  shows "\<forall>p t. ts' p = Some t \<longrightarrow> timer_ok p t"
proof (intro allI impI)
  fix p t
  assume "ts' p = Some t"
  then obtain pos where "ts p = Some (t\<lparr>t_heap_pos := pos\<rparr>)" using strip_timer [OF assms(1)] by blast
  with assms(2) have "timer_ok p (t\<lparr>t_heap_pos := pos\<rparr>)" by blast
  then show "timer_ok p t" by (simp add: timer_ok_def)
qed

lemma indexed_upd: "indexed ts hp \<Longrightarrow> p \<notin> set (tl hp) \<Longrightarrow> indexed (ts(p \<mapsto> t)) hp"
  unfolding indexed_def by (metis fun_upd_apply in_set_tl)

lemma minHeapInsert_ok:
  assumes "th_mid h {p}"
  shows "\<exists>h'. minHeapInsert h p = Some h' \<and> th_inv h' \<and> strip (th_timers h') = strip (th_timers h) \<and>
    th_value h' = th_value h"
proof -
  let ?ts = "th_timers h" and ?hp = "th_heap h"
  let ?n = "length ?hp"
  have h: "?hp \<noteq> []" "?hp ! 0 = 0" "indexed ?ts ?hp" "dom ?ts = insert p (set (tl ?hp))" "p \<notin> set (tl ?hp)"
      "\<forall>p t. ?ts p = Some t \<longrightarrow> timer_ok p t" "heap_ok (stamp ?ts) ?hp"
    using assms by (auto simp: th_mid_def)
  obtain t where t: "?ts p = Some t" using h(4) by blast
  let ?ts1 = "?ts(p \<mapsto> t\<lparr>t_heap_pos := int ?n\<rparr>)"
  have s: "setHeapPos ?ts p (int ?n) = Some ?ts1" "strip ?ts1 = strip ?ts" using setHeapPos_Some [of ?ts p t] t by simp_all
  have "indexed ?ts1 ?hp" by (rule indexed_upd [OF h(3,5)])
  then have "\<exists>t. ?ts1 ((?hp @ [p]) ! i) = Some t \<and> t_heap_pos t = int i" if "0 < i" "i < Suc ?n" for i
    using that by (cases "i = ?n") (simp_all add: indexed_def nth_append)
  then have ix: "indexed ?ts1 (?hp @ [p])" by (simp add: indexed_def)
  have hole: "up_hole (stamp ?ts1) (?hp @ [p]) ?n"
    using h(1,7) by (auto simp: up_hole_def heap_ok_def nth_append strip_stamp [OF s(2)])
  have n: "0 < ?n" "?n < length (?hp @ [p])" using h(1) by simp_all
  obtain ts2 where u: "minHeapShiftUp ?ts1 (?hp @ [p]) ?n = Some (ts2, sift_up (stamp ?ts1) (?hp @ [p]) ?n)"
      "indexed ts2 (sift_up (stamp ?ts1) (?hp @ [p]) ?n)" "strip ts2 = strip ?ts1"
    using shiftUp_refines [OF ix n] by blast
  let ?hp2 = "sift_up (stamp ?ts1) (?hp @ [p]) ?n"
  have same: "length ?hp2 = Suc ?n" "mset ?hp2 = mset (?hp @ [p])" "?hp2 ! 0 = (?hp @ [p]) ! 0"
    using sift_up_same [OF n(2), of "stamp ?ts1"] by simp_all
  have st: "stamp ts2 = stamp ?ts1" using strip_stamp [OF u(3)] .
  have "set (tl ?hp2) = insert p (set (tl ?hp))" using set_tl_same [OF same(2,3)] h(1) by auto
  then have "th_inv (h\<lparr>th_timers := ts2, th_heap := ?hp2\<rparr>)"
    using same h u(2) sift_up_heap [OF hole n] st strip_dom [OF u(3)] timers_ok_strip [OF _ h(6), of ts2] u(3) s(2)
      assms t
    by (auto simp: th_inv_def th_mid_def nth_append)
  then show ?thesis using s u by (simp add: minHeapInsert_def Let_def)
qed

lemma nth_tl_mem: "0 < i \<Longrightarrow> i < length xs \<Longrightarrow> xs ! i \<in> set (tl xs)"
  unfolding in_set_tl by blast

text \<open>The list part of \<open>minHeapErase\<close>: the last cell replaces the cell \<open>c\<close>.\<close>

lemma replaced_nth:
  assumes "c < length xs" "i < length xs - 1"
  shows "butlast (xs[c := last xs]) ! i = (if i = c then last xs else xs ! i)"
  using assms by (simp add: nth_butlast nth_list_update)

lemma erase_hole:
  assumes "heap_ok key xs" "0 < c" "c < length xs - 1"
  defines "ys \<equiv> butlast (xs[c := last xs])"
  shows "c div 2 > 0 \<and> key (ys ! c) < key (ys ! (c div 2)) \<Longrightarrow> up_hole key ys c"
    and "\<not> (c div 2 > 0 \<and> key (ys ! c) < key (ys ! (c div 2))) \<Longrightarrow> down_hole key ys c"
proof -
  have len: "length ys = length xs - 1" by (simp add: ys_def)
  have n: "ys ! i = (if i = c then last xs else xs ! i)" if "i < length xs - 1" for i
    unfolding ys_def by (rule replaced_nth) (use assms(3) that in linarith)+
  have h: "key (xs ! (j div 2)) \<le> key (xs ! j)" if "2 \<le> j" "j < length xs" for j
    using assms(1) that by (simp add: heap_ok_def)
  have far: "key (ys ! (j div 2)) \<le> key (ys ! j)" if j: "2 \<le> j" "j < length ys" "j \<noteq> c" "j div 2 \<noteq> c" for j
  proof -
    have "j div 2 < length xs - 1" "j < length xs" using j(2) len by linarith+
    with h [OF j(1)] j len show ?thesis by (simp add: n)
  qed
  have grand: "key (ys ! (c div 2)) \<le> key (ys ! j)" if j: "j < length ys" "j div 2 = c" "2 \<le> c" for j
  proof -
    have i: "j \<noteq> c" "2 \<le> j" "c div 2 \<noteq> c" "c div 2 < length xs - 1" "j < length xs" "c < length xs"
      using j assms(3) len by linarith+
    have "key (xs ! (c div 2)) \<le> key (xs ! c)" using h [OF j(3) i(6)] .
    also have "\<dots> \<le> key (xs ! j)" using h [OF i(2,5)] j(2) by simp
    finally show ?thesis using i j(1) len by (simp add: n)
  qed
  show "up_hole key ys c" if up: "c div 2 > 0 \<and> key (ys ! c) < key (ys ! (c div 2))"
  proof -
    have "key (ys ! (j div 2)) \<le> key (ys ! j)" if j: "2 \<le> j" "j < length ys" "j \<noteq> c" for j
    proof (cases "j div 2 = c")
      case True
      have "2 \<le> c" using up by linarith
      then have "key (ys ! (c div 2)) \<le> key (ys ! j)" by (rule grand [OF j(2) True])
      with up show ?thesis unfolding True by (meson less_imp_le order_trans)
    qed (rule far [OF j])
    with grand show ?thesis unfolding up_hole_def by blast
  qed
  show "down_hole key ys c" if down: "\<not> (c div 2 > 0 \<and> key (ys ! c) < key (ys ! (c div 2)))"
  proof -
    have "key (ys ! (j div 2)) \<le> key (ys ! j)" if j: "2 \<le> j" "j < length ys" "j div 2 \<noteq> c" for j
    proof (cases "j = c")
      case True
      have "0 < c div 2" using j(1) True by linarith
      with down True show ?thesis by (simp add: not_less)
    qed (rule far [OF j(1,2) _ j(3)])
    with grand show ?thesis unfolding down_hole_def by blast
  qed
qed

lemma th_mid_sifted:
  assumes "hp \<noteq> []" "hp ! 0 = 0" "dom ts = set (tl hp) \<union> S" "S \<inter> set (tl hp) = {}"
    and "\<forall>p t. ts p = Some t \<longrightarrow> timer_ok p t" "0 \<le> th_value h" "th_value h \<le> INT64_MAX"
    and "mset hp' = mset hp" "hp' ! 0 = hp ! 0" "strip ts' = strip ts" "indexed ts' hp'" "heap_ok (stamp ts) hp'"
  shows "th_mid (h\<lparr>th_timers := ts', th_heap := hp'\<rparr>) S"
proof -
  have "hp' \<noteq> []" using assms(1,8) by auto
  moreover have "set (tl hp') = set (tl hp)" by (rule set_tl_same [OF assms(8,9,1)])
  ultimately show ?thesis
    using assms(2-7,9,11,12) strip_dom [OF assms(10)] strip_stamp [OF assms(10)] timers_ok_strip [OF assms(10,5)]
    by (simp add: th_mid_def)
qed

lemma erase_set:
  assumes ix: "indexed ts hp" and i: "0 < i" "i < length hp"
  shows "set (tl (butlast (hp[i := last hp]))) = set (tl hp) - {hp ! i}"
proof -
  let ?ys = "butlast (hp[i := last hp])" and ?n = "length hp - 1"
  have last: "last hp = hp ! ?n" using i by (intro last_conv_nth) auto
  have n: "?ys ! j = (if j = i then hp ! ?n else hp ! j)" if "j < ?n" for j
    using replaced_nth [OF i(2) that] last by simp
  have inj: "hp ! j = hp ! k \<Longrightarrow> j = k" if "0 < j" "j < length hp" "0 < k" "k < length hp" for j k
    using indexed_inj [OF ix that] .
  show ?thesis
  proof (intro set_eqI iffI)
    fix x
    assume "x \<in> set (tl ?ys)"
    then obtain j where j: "0 < j" "j < ?n" "?ys ! j = x" unfolding in_set_tl by auto
    define k where "k = (if j = i then ?n else j)"
    have k: "0 < k" "k < length hp" "k \<noteq> i" using j(1,2) i by (auto simp: k_def)
    have "x = hp ! k" using j(3) unfolding n [OF j(2)] k_def by (cases "j = i") simp_all
    moreover have "hp ! k \<in> set (tl hp)" by (rule nth_tl_mem [OF k(1,2)])
    moreover have "hp ! k \<noteq> hp ! i" using inj [OF k(1,2) i] k(3) by blast
    ultimately show "x \<in> set (tl hp) - {hp ! i}" by simp
  next
    fix x
    assume "x \<in> set (tl hp) - {hp ! i}"
    then have "x \<in> set (tl hp)" "x \<noteq> hp ! i" by auto
    then obtain k where k: "0 < k" "k < length hp" "hp ! k = x" "k \<noteq> i" using in_set_tl [of x hp] by metis
    define j where "j = (if k = ?n then i else k)"
    have j: "0 < j" "j < ?n" using k i by (auto simp: j_def)
    have "?ys ! j = x" using n [OF j(2)] k(3,4) unfolding j_def by (cases "k = ?n") simp_all
    moreover have "j < length ?ys" using j(2) by simp
    ultimately show "x \<in> set (tl ?ys)" using nth_tl_mem [OF j(1)] by metis
  qed
qed

lemma erase_indexed:
  assumes ix: "indexed ts hp" and i: "0 < i" "i < length hp" and q: "ts (last hp) = Some tq"
  shows "indexed ((ts(hp ! i \<mapsto> t))(last hp \<mapsto> tq'\<lparr>t_heap_pos := int i\<rparr>)) (butlast (hp[i := last hp]))"
  unfolding indexed_def
proof (intro allI impI)
  let ?ys = "butlast (hp[i := last hp])" and ?n = "length hp - 1"
  fix j
  assume j: "0 < j \<and> j < length ?ys"
  then have jn: "j < ?n" by simp
  have last: "last hp = hp ! ?n" using i by (intro last_conv_nth) auto
  show "\<exists>t'. ((ts(hp ! i \<mapsto> t))(last hp \<mapsto> tq'\<lparr>t_heap_pos := int i\<rparr>)) (?ys ! j) = Some t' \<and> t_heap_pos t' = int j"
  proof (cases "j = i")
    case True
    then show ?thesis using replaced_nth [OF i(2) jn] by simp
  next
    case False
    have "j < length hp" "?n < length hp" "0 < ?n" "j \<noteq> ?n" using jn i by linarith+
    then have "hp ! j \<noteq> hp ! i" "hp ! j \<noteq> hp ! ?n"
      using indexed_inj [OF ix, of j i] indexed_inj [OF ix, of j ?n] False j i by blast+
    then show ?thesis using replaced_nth [OF i(2) jn] False ix j \<open>j < length hp\<close> by (simp add: last indexed_def)
  qed
qed

lemma minHeapErase_ok:
  assumes inv: "th_inv h" and t: "th_timers h p = Some t"
  shows "\<exists>h'. minHeapErase h p = Some h' \<and> th_mid h' {p} \<and> strip (th_timers h') = strip (th_timers h) \<and>
    th_value h' = th_value h"
proof -
  let ?ts = "th_timers h" and ?hp = "th_heap h"
  have h: "?hp \<noteq> []" "?hp ! 0 = 0" "indexed ?ts ?hp" "dom ?ts = set (tl ?hp)"
      "\<forall>p t. ?ts p = Some t \<longrightarrow> timer_ok p t" "heap_ok (stamp ?ts) ?hp" "0 \<le> th_value h" "th_value h \<le> INT64_MAX"
    using inv by (auto simp: th_inv_def th_mid_def)
  obtain i where i: "0 < i" "i < length ?hp" "?hp ! i = p" using h(4) t unfolding set_eq_iff in_set_tl by auto
  then have pos: "t_heap_pos t = int i" using h(3) t by (auto simp: indexed_def)
  have last: "last ?hp = ?hp ! (length ?hp - 1)" using h(1) by (rule last_conv_nth)
  have "last ?hp \<in> set (tl ?hp)" unfolding last by (rule nth_tl_mem) (use i in auto)
  then obtain tq where q: "?ts (last ?hp) = Some tq" using h(4) by blast
  let ?ts1 = "?ts(p \<mapsto> t\<lparr>t_heap_pos := -1\<rparr>)"
  have s1: "setHeapPos ?ts p (-1) = Some ?ts1" "strip ?ts1 = strip ?ts"
    using setHeapPos_Some [of ?ts p t] t by simp_all
  have "\<exists>tq1. ?ts1 (last ?hp) = Some tq1" using q by simp
  then obtain tq1 where q1: "?ts1 (last ?hp) = Some tq1" by blast
  let ?ts2 = "?ts1(last ?hp \<mapsto> tq1\<lparr>t_heap_pos := int i\<rparr>)"
  have s2: "setHeapPos ?ts1 (last ?hp) (int i) = Some ?ts2" "strip ?ts2 = strip ?ts"
    using setHeapPos_Some [of ?ts1 "last ?hp" tq1] q1 s1(2) by simp_all
  let ?ys = "butlast (?hp[i := last ?hp])"
  have ix: "indexed ?ts2 ?ys" using erase_indexed [OF h(3) i(1,2) q] i(3) by simp
  have set: "set (tl ?ys) = set (tl ?hp) - {p}" using erase_set [OF h(3) i(1,2)] i(3) by simp
  have ne: "?ys \<noteq> []" "?ys ! 0 = 0"
  proof -
    have "length ?ys > 0" using i by simp
    then show "?ys \<noteq> []" by (metis length_greater_0_conv)
    show "?ys ! 0 = 0" using replaced_nth [of i ?hp 0] i h(2) by simp
  qed
  have dom: "dom ?ts2 = set (tl ?ys) \<union> {p}" "{p} \<inter> set (tl ?ys) = {}"
    using strip_dom [OF s2(2)] h(4) set t by auto
  have ok: "\<forall>p t. ?ts2 p = Some t \<longrightarrow> timer_ok p t" by (rule timers_ok_strip [OF s2(2) h(5)])
  note mid = th_mid_sifted [OF ne dom ok h(7,8)]
  have at: "?hp[i := last ?hp] ! i = last ?hp" using i by simp
  note erase = minHeapErase_def [of h p, unfolded t option.simps bind.bind_lunit pos Let_def]
  show ?thesis
  proof (cases "i \<ge> length ?ys")
    case True
    then have "heap_ok (stamp ?ts2) ?ys"
      using h(6) strip_stamp [OF s2(2)] replaced_nth [OF i(2)] by (auto simp: heap_ok_def)
    then have "th_mid (h\<lparr>th_timers := ?ts2, th_heap := ?ys\<rparr>) {p}" using mid [OF refl refl refl ix] by blast
    moreover have "minHeapErase h p = Some (h\<lparr>th_timers := ?ts2, th_heap := ?ys\<rparr>)"
      using True i pos t s1(1) s2(1) by (simp add: minHeapErase_def Let_def)
    ultimately show ?thesis using s2(2) by simp
  next
    case False
    then have iy: "i < length ?ys" "i < length ?hp - 1" by simp_all
    let ?key = "stamp ?ts2"
    have key: "?key = stamp ?ts" using strip_stamp [OF s2(2)] .
    let ?up = "i div 2 > 0 \<and> ?key (?ys ! i) < ?key (?ys ! (i div 2))"
    have up: "(if i div 2 > 0 then do {
                tc \<leftarrow> deref ?ts2 ?ys i; tp \<leftarrow> deref ?ts2 ?ys (i div 2); Some (t_timestamp tc < t_timestamp tp) }
              else Some False) = Some ?up"
    proof (cases "i div 2 > 0")
      case True
      have "i div 2 < length ?ys" using iy(1) by linarith
      then obtain tp where "deref ?ts2 ?ys (i div 2) = Some tp" "t_timestamp tp = ?key (?ys ! (i div 2))"
        using deref_indexed [OF ix True] by blast
      moreover obtain tc where "deref ?ts2 ?ys i = Some tc" "t_timestamp tc = ?key (?ys ! i)"
        using deref_indexed [OF ix i(1) iy(1)] by blast
      ultimately show ?thesis using True by simp
    qed simp
    let ?zs = "if ?up then sift_up ?key ?ys i else sift_down ?key ?ys i"
    have heap: "heap_ok ?key ?zs"
      using erase_hole [of ?key ?hp i] h(6) i(1) iy sift_up_heap [of ?key ?ys i] sift_down_heap [of ?key ?ys i]
      unfolding key by auto
    obtain ts3 where z: "(if ?up then minHeapShiftUp ?ts2 ?ys i else minHeapShiftDown ?ts2 ?ys i) = Some (ts3, ?zs)"
        "indexed ts3 ?zs" "strip ts3 = strip ?ts2"
      using shiftUp_refines [OF ix i(1) iy(1)] shiftDown_refines [OF ix i(1) iy(1)] by (cases ?up) auto
    have "mset ?zs = mset ?ys" "?zs ! 0 = ?ys ! 0"
      using sift_up_same [OF iy(1)] sift_down_same [OF i(1) iy(1)] by auto
    then have "th_mid (h\<lparr>th_timers := ts3, th_heap := ?zs\<rparr>) {p}" using mid [of ?zs ts3] z heap by blast
    moreover have "minHeapErase h p = Some (h\<lparr>th_timers := ts3, th_heap := ?zs\<rparr>)"
      using False i pos t s1(1) s2(1) at up z(1) unfolding minHeapErase_def by (simp add: Let_def cong: if_cong)
    ultimately show ?thesis using s2(2) z(3) by auto
  qed
qed

end
