(* ===== verification/TimerQueue.thy ===== *)
theory TimerQueue
  imports TimerHeap
begin

text \<open>
  The timer heap as a set of timers: what its operations do to that set, the firing of
  timers by \<open>checkTimeout\<close>, its termination and its divergence, and the time to the next timer.
\<close>

section \<open>The operations on the set of timers\<close>

text \<open>What a client sees of a timer heap: its timers by id, whatever their place in the heap.\<close>

definition timers_of :: "'c timer_heap \<Rightarrow> 'c timers" where
  "timers_of h = strip (th_timers h)"

lemma timers_of_Some: "timers_of h p = Some t \<longleftrightarrow> (\<exists>t'. th_timers h p = Some t' \<and> t = t'\<lparr>t_heap_pos := 0\<rparr>)"
  by (auto simp: timers_of_def strip_def)

lemma timers_of_None [simp]: "timers_of h p = None \<longleftrightarrow> th_timers h p = None"
  by (simp add: timers_of_def strip_def)

lemma strip_upd: "strip (ts(p \<mapsto> t)) = (strip ts)(p \<mapsto> t\<lparr>t_heap_pos := 0\<rparr>)"
  by (auto simp: strip_def)

lemma strip_del: "strip (ts(p := None)) = (strip ts)(p := None)"
  by (auto simp: strip_def)

lemma th_inv_new: "th_inv th_new"
  by (auto simp: th_inv_def th_mid_def th_new_def indexed_def heap_ok_def INT64_MAX_def)

lemma timer_ok_of: "th_inv h \<Longrightarrow> timers_of h p = Some t \<Longrightarrow> timer_ok p t"
  by (auto simp: timers_of_Some th_inv_def th_mid_def timer_ok_def)

lemma top_ok:
  assumes "th_inv h"
  shows "minHeapTop h = 0 \<longleftrightarrow> timers_of h = Map.empty"
    and "minHeapTop h \<noteq> 0 \<Longrightarrow> \<exists>t. timers_of h (minHeapTop h) = Some t \<and>
      (\<forall>p t'. timers_of h p = Some t' \<longrightarrow> t_timestamp t \<le> t_timestamp t')"
proof -
  let ?ts = "th_timers h" and ?hp = "th_heap h"
  have h: "dom ?ts = set (tl ?hp)" "\<forall>p t. ?ts p = Some t \<longrightarrow> timer_ok p t" "heap_ok (stamp ?ts) ?hp"
    using assms by (auto simp: th_inv_def th_mid_def)
  have top: "minHeapTop h \<noteq> 0 \<and> minHeapTop h = ?hp ! 1 \<and> ?ts (?hp ! 1) \<noteq> None" if l: "1 < length ?hp"
  proof -
    have "?hp ! 1 \<in> set (tl ?hp)" using l by (intro nth_tl_mem) simp_all
    then obtain t where "?ts (?hp ! 1) = Some t" using h(1) by blast
    moreover from this have "timer_ok (?hp ! 1) t" using h(2) by blast
    then have "?hp ! 1 \<noteq> 0" by (auto simp: timer_ok_def)
    ultimately show ?thesis using l by (simp add: minHeapTop_def)
  qed
  show "minHeapTop h = 0 \<longleftrightarrow> timers_of h = Map.empty"
  proof (cases "1 < length ?hp")
    case True
    have "timers_of h \<noteq> Map.empty" using top [OF True] timers_of_None by metis
    with top [OF True] show ?thesis by simp
  next
    case False
    then have "tl ?hp = []" by (cases ?hp) auto
    then have "?ts = Map.empty" using h(1) by (simp add: dom_eq_empty_conv)
    with False show ?thesis by (simp add: minHeapTop_def timers_of_def strip_def fun_eq_iff)
  qed
  assume "minHeapTop h \<noteq> 0"
  then have l: "1 < length ?hp" by (auto simp: minHeapTop_def split: if_splits)
  obtain t where t: "?ts (?hp ! 1) = Some t" using top [OF l] by blast
  have "t_timestamp t \<le> t_timestamp t'" if "?ts p = Some t'" for p t'
  proof -
    have "p \<in> set (tl ?hp)" using h(1) that by blast
    then obtain i where "0 < i" "i < length ?hp" "?hp ! i = p" using in_set_tl [of p ?hp] by metis
    with heap_top [OF h(3) this(1,2)] t that show ?thesis by (simp add: stamp_def)
  qed
  with t top [OF l] show "\<exists>t. timers_of h (minHeapTop h) = Some t \<and>
      (\<forall>p t'. timers_of h p = Some t' \<longrightarrow> t_timestamp t \<le> t_timestamp t')"
    by (auto simp: timers_of_Some)
qed

text \<open>A timer of the map that is taken from the heap may change its time stamp before it is put back.\<close>

lemma th_mid_upd:
  assumes "th_mid h {p}" "timer_ok p t"
  shows "th_mid (h\<lparr>th_timers := (th_timers h)(p \<mapsto> t)\<rparr>) {p}"
proof -
  have "p \<notin> set (tl (th_heap h))" using assms(1) by (simp add: th_mid_def)
  moreover from this have "heap_ok (stamp ((th_timers h)(p \<mapsto> t))) (th_heap h) = heap_ok (stamp (th_timers h)) (th_heap h)"
    by (intro heap_ok_cong) (auto simp: stamp_def)
  ultimately show ?thesis using assms indexed_upd [of "th_timers h" "th_heap h" p t] by (auto simp: th_mid_def)
qed

lemma th_mid_add:
  assumes "th_inv h" "timer_ok p t" "th_timers h p = None"
  shows "th_mid (h\<lparr>th_timers := (th_timers h)(p \<mapsto> t)\<rparr>) {p}"
proof -
  have "p \<notin> dom (th_timers h)" using assms(3) by (simp add: domIff)
  then have "p \<notin> set (tl (th_heap h))" using assms(1) by (simp add: th_inv_def th_mid_def)
  moreover from this have "heap_ok (stamp ((th_timers h)(p \<mapsto> t))) (th_heap h) = heap_ok (stamp (th_timers h)) (th_heap h)"
    by (intro heap_ok_cong) (auto simp: stamp_def)
  ultimately show ?thesis
    using assms indexed_upd [of "th_timers h" "th_heap h" p t] by (auto simp: th_inv_def th_mid_def)
qed

lemma th_mid_del:
  assumes "th_mid h {p}"
  shows "th_inv (erase_timer h p)"
proof -
  let ?ts = "(th_timers h)(p := None)"
  have p: "p \<notin> set (tl (th_heap h))" using assms by (simp add: th_mid_def)
  then have "heap_ok (stamp ?ts) (th_heap h) = heap_ok (stamp (th_timers h)) (th_heap h)"
    by (intro heap_ok_cong) (auto simp: stamp_def)
  moreover have "indexed ?ts (th_heap h)"
    using assms p nth_tl_mem [of _ "th_heap h"] unfolding th_mid_def indexed_def by (metis fun_upd_apply)
  ultimately show ?thesis using assms by (auto simp: th_inv_def th_mid_def erase_timer_def)
qed

definition new_timer :: "int \<Rightarrow> timestamp \<Rightarrow> int \<Rightarrow> 'c \<Rightarrow> int \<Rightarrow> 'c timer" where
  "new_timer p now ms cb n = (timer_new p (ts_add now (max 0 ms)) (max 0 ms) cb n)\<lparr>t_heap_pos := 0\<rparr>"

lemma getId_range: "0 \<le> v \<Longrightarrow> v \<le> INT64_MAX \<Longrightarrow> 0 < getId v \<and> getId v \<le> INT64_MAX"
  by (auto simp: getId_def INT64_MAX_def)

lemma addTimer_ok:
  assumes "th_inv h" "ts_normal now"
  defines "p \<equiv> getId (th_value h)"
  shows "\<exists>h'. addTimer h now ms cb n = Some (if timers_of h p = None then p else -1, h') \<and> th_inv h' \<and> th_value h' = p \<and>
    timers_of h' = (if timers_of h p = None then (timers_of h)(p \<mapsto> new_timer p now ms cb n) else timers_of h)"
proof -
  have p: "0 < p" "p \<le> INT64_MAX" using getId_range assms(1) by (auto simp: th_inv_def th_mid_def p_def)
  let ?h = "h\<lparr>th_value := p\<rparr>" and ?t = "timer_new p (ts_add now (max 0 ms)) (max 0 ms) cb n"
  have inv: "th_inv ?h" using assms(1) p by (simp add: th_inv_def th_mid_def)
  show ?thesis
  proof (cases "th_timers h p")
    case None
    have "timer_ok p ?t" using p assms(2) by (simp add: timer_ok_def timer_new_def)
    then have "th_mid (?h\<lparr>th_timers := (th_timers ?h)(p \<mapsto> ?t)\<rparr>) {p}" using th_mid_add [OF inv] None by simp
    then obtain h' where "minHeapInsert (?h\<lparr>th_timers := (th_timers ?h)(p \<mapsto> ?t)\<rparr>) p = Some h'" "th_inv h'"
        "strip (th_timers h') = strip ((th_timers h)(p \<mapsto> ?t))" "th_value h' = p"
      using minHeapInsert_ok by force
    moreover have "timers_of h p = None" using None by simp
    ultimately show ?thesis
      using None by (simp add: addTimer_def p_def [symmetric] Let_def strip_upd new_timer_def) (simp add: timers_of_def)
  next
    case (Some t)
    then have "timers_of h p \<noteq> None" by simp
    with Some show ?thesis
      using inv by (simp add: addTimer_def p_def [symmetric] Let_def) (simp add: timers_of_def)
  qed
qed

lemma removeTimer_ok:
  assumes "th_inv h"
  shows "\<exists>h'. removeTimer h p = Some h' \<and> th_inv h' \<and> th_value h' = th_value h \<and> timers_of h' = (timers_of h)(p := None)"
proof (cases "th_timers h p")
  case None
  then show ?thesis using assms by (auto simp: removeTimer_def fun_upd_idem)
next
  case (Some t)
  obtain h' where "minHeapErase h p = Some h'" "th_mid h' {p}" "strip (th_timers h') = strip (th_timers h)"
      "th_value h' = th_value h"
    using minHeapErase_ok [OF assms Some] by blast
  then show ?thesis
    using Some th_mid_del [of h' p] by (simp add: removeTimer_def timers_of_def erase_timer_def strip_del)
qed

text \<open>What becomes of a timer that fires.\<close>

definition rearm :: "'c timer \<Rightarrow> 'c timer option" where
  "rearm t = (if t_call_times t = 1 then None
     else Some (t\<lparr>t_call_times := (if t_call_times t > 0 then t_call_times t - 1 else t_call_times t),
       t_timestamp := ts_add (t_timestamp t) (getTimeout t)\<rparr>))"

lemma expire_ok:
  assumes inv: "th_inv h" and t: "timers_of h p = Some t"
  shows "\<exists>h'. expire h p = Some h' \<and> th_inv h' \<and> th_value h' = th_value h \<and> timers_of h' = (timers_of h)(p := rearm t)"
proof -
  obtain t0 where t0: "th_timers h p = Some t0" "t = t0\<lparr>t_heap_pos := 0\<rparr>" using t by (auto simp: timers_of_Some)
  obtain h1 where h1: "minHeapErase h p = Some h1" "th_mid h1 {p}" "strip (th_timers h1) = strip (th_timers h)"
      "th_value h1 = th_value h"
    using minHeapErase_ok [OF inv t0(1)] by blast
  obtain pos where "th_timers h1 p = Some (t0\<lparr>t_heap_pos := pos\<rparr>)" using strip_timer [OF h1(3) [symmetric] t0(1)] by blast
  then have t1: "th_timers h1 p = Some (t\<lparr>t_heap_pos := pos\<rparr>)" using t0(2) by simp
  have ok: "timer_ok p t" using timer_ok_of [OF inv t] .
  show ?thesis
  proof (cases "t_call_times t = 1")
    case True
    have "expire h p = Some (erase_timer h1 p)"
      using True h1(1) t1 ok by (simp add: expire_def timer_ok_def)
    then show ?thesis
      using th_mid_del [OF h1(2)] h1(3,4) True by (simp add: timers_of_def erase_timer_def strip_del rearm_def)
  next
    case False
    let ?c = "if t_call_times t > 0 then t_call_times t - 1 else t_call_times t"
    let ?t = "t\<lparr>t_heap_pos := pos, t_call_times := ?c, t_timestamp := ts_add (t_timestamp t) (getTimeout t)\<rparr>"
    have "timer_ok p ?t" using ok by (simp add: timer_ok_def)
    then obtain h2 where h2: "minHeapInsert (h1\<lparr>th_timers := (th_timers h1)(p \<mapsto> ?t)\<rparr>) p = Some h2" "th_inv h2"
        "strip (th_timers h2) = strip ((th_timers h1)(p \<mapsto> ?t))" "th_value h2 = th_value h1"
      using minHeapInsert_ok [OF th_mid_upd [OF h1(2)]] by force
    have "expire h p = minHeapInsert (h1\<lparr>th_timers := (th_timers h1)(p \<mapsto> ?t)\<rparr>) p"
      using False h1(1) t1 by (simp add: expire_def Let_def getTimeout_def)
    moreover have "?t\<lparr>t_heap_pos := 0\<rparr> = the (rearm t)" using False t0(2) by (simp add: rearm_def)
    ultimately show ?thesis using h2 h1(3,4) False by (simp add: timers_of_def strip_upd rearm_def)
  qed
qed

section \<open>Properties of the timer heap\<close>

text \<open>
  C27 (invariant): the invariant of the timer heap (heap and map hold the same timers, each once,
  at the recorded position, in heap order) holds initially and is kept by every operation,
  none of which ever follows a dangling pointer or leaves the vector; \<open>removeTimer\<close> with an
  id that is not there, a negative timeout and an id that is still in use included.
\<close>

theorem timer_heap_invariant:
  assumes "th_inv h" "ts_normal now"
  shows "th_inv (th_new :: 'c timer_heap) \<and>
    (\<exists>p h'. addTimer h now ms cb n = Some (p, h') \<and> th_inv h') \<and>
    (\<exists>h'. removeTimer h q = Some h' \<and> th_inv h') \<and>
    (\<exists>v. getNextTimeoutMillisecond h now = Some v) \<and>
    (minHeapTop h \<noteq> 0 \<longrightarrow> (\<exists>h'. expire h (minHeapTop h) = Some h' \<and> th_inv h'))"
proof -
  have "\<exists>v. getNextTimeoutMillisecond h now = Some v"
    using top_ok [OF assms(1)] by (auto simp: getNextTimeoutMillisecond_def timers_of_Some)
  moreover have "minHeapTop h \<noteq> 0 \<longrightarrow> (\<exists>h'. expire h (minHeapTop h) = Some h' \<and> th_inv h')"
    using top_ok(2) [OF assms(1)] expire_ok [OF assms(1)] by blast
  ultimately show ?thesis
    using th_inv_new addTimer_ok [OF assms, of ms cb n] removeTimer_ok [OF assms(1), of q] by blast
qed

theorem timer_heap_invariant_witness:
  "\<exists>p h'. addTimer (th_new :: unit timer_heap) (Timestamp 7 0) 5 () (- 1) = Some (p, h') \<and> th_inv h'"
proof -
  have "ts_normal (Timestamp 7 0)" by (simp add: ts_normal_def)
  from timer_heap_invariant [OF th_inv_new this, of 5 "()" "- 1"] show ?thesis by blast
qed

text \<open>
  On the set of its timers, whatever their place in the heap, \<open>addTimer\<close> inserts
  one timer under the next id (or nothing and returns -1 when the id is in use) and \<open>removeTimer\<close>
  deletes one; the other timers are untouched.
\<close>

lemma timer_heap_refines:
  assumes "th_inv h" "ts_normal now" "p = getId (th_value h)"
  shows "(timers_of h p = None \<longrightarrow> (\<exists>h'. addTimer h now ms cb n = Some (p, h') \<and>
      timers_of h' = (timers_of h)(p \<mapsto> new_timer p now ms cb n))) \<and>
    (timers_of h p \<noteq> None \<longrightarrow> (\<exists>h'. addTimer h now ms cb n = Some (-1, h') \<and> timers_of h' = timers_of h)) \<and>
    (\<exists>h'. removeTimer h q = Some h' \<and> timers_of h' = (timers_of h)(q := None))"
  using addTimer_ok [OF assms(1,2), of ms cb n] removeTimer_ok [OF assms(1), of q] unfolding assms(3)
  by (smt (verit))

section \<open>Firing\<close>

definition due :: "timestamp \<Rightarrow> 'c timer \<Rightarrow> bool" where
  "due now t \<longleftrightarrow> \<not> millisecondLess now (t_timestamp t)"

definition none_due :: "timestamp \<Rightarrow> 'c timer_heap \<Rightarrow> bool" where
  "none_due now h \<longleftrightarrow> (\<forall>p t. timers_of h p = Some t \<longrightarrow> \<not> due now t)"

lemma due_ms: "ts_normal now \<Longrightarrow> timer_ok p t \<Longrightarrow> due now t \<longleftrightarrow> ts_ms (t_timestamp t) \<le> ts_ms now"
  by (auto simp: due_def millisecondLess_ms timer_ok_def)

lemma step_cases:
  assumes inv: "th_inv h" and now: "ts_normal now"
  shows "checkTimeout_step call now (h, w) = Some (Inl (h, w)) \<and> none_due now h \<or>
    (\<exists>p t h'. checkTimeout_step call now (h, w) = Some (Inr (call (t_cb t) p (h', w))) \<and> timers_of h p = Some t \<and> due now t \<and>
      (\<forall>q t'. timers_of h q = Some t' \<longrightarrow> t_timestamp t \<le> t_timestamp t') \<and>
      expire h p = Some h' \<and> th_inv h' \<and> timers_of h' = (timers_of h)(p := rearm t))"
proof (cases "minHeapTop h = 0")
  case True
  then show ?thesis using top_ok(1) [OF inv] by (simp add: checkTimeout_step_def none_due_def Let_def)
next
  case False
  obtain t where t: "timers_of h (minHeapTop h) = Some t" "\<forall>q t'. timers_of h q = Some t' \<longrightarrow> t_timestamp t \<le> t_timestamp t'"
    using top_ok(2) [OF inv False] by blast
  obtain t0 where t0: "th_timers h (minHeapTop h) = Some t0" "t = t0\<lparr>t_heap_pos := 0\<rparr>"
    using t(1) by (auto simp: timers_of_Some)
  have tid: "t_id t0 = minHeapTop h" using timer_ok_of [OF inv t(1)] t0(2) by (simp add: timer_ok_def)
  show ?thesis
  proof (cases "due now t")
    case True
    obtain h' where h': "expire h (minHeapTop h) = Some h'" "th_inv h'" "timers_of h' = (timers_of h)(minHeapTop h := rearm t)"
      using expire_ok [OF inv t(1)] by blast
    have "checkTimeout_step call now (h, w) = Some (Inr (call (t_cb t) (minHeapTop h) (h', w)))"
      using False True t0 tid h'(1) by (simp add: checkTimeout_step_def Let_def due_def)
    with True t h' show ?thesis by blast
  next
    case nd: False
    then have "checkTimeout_step call now (h, w) = Some (Inl (h, w))"
      using False t0 by (simp add: checkTimeout_step_def Let_def due_def)
    moreover have "\<not> due now t'" if "timers_of h q = Some t'" for q t'
    proof -
      have "t_timestamp t \<le> t_timestamp t'" using t(2) that by blast
      then have "ts_ms (t_timestamp t) \<le> ts_ms (t_timestamp t')"
        using timer_ok_of [OF inv] t(1) that by (intro ts_le_ms) (auto simp: timer_ok_def)
      then show ?thesis using nd due_ms [OF now timer_ok_of [OF inv]] t(1) that by fastforce
    qed
    ultimately show ?thesis by (simp add: none_due_def)
  qed
qed

text \<open>
  C28 (functional): one turn of the loop of \<open>checkTimeout\<close>. When no timer is due it stops and changes
  nothing; otherwise it runs the callback of a timer that is due and whose time stamp no
  other timer precedes, after the timer has been removed (its last call) or re-armed (one
  call fewer when they are counted, and the period later), the others untouched.
\<close>

theorem checkTimeout_step_spec:
  assumes "th_inv h" "ts_normal now"
  shows "if none_due now h then checkTimeout_step call now (h, w) = Some (Inl (h, w))
    else \<exists>p t h'. checkTimeout_step call now (h, w) = Some (Inr (call (t_cb t) p (h', w))) \<and>
      timers_of h p = Some t \<and> due now t \<and> (\<forall>q t'. timers_of h q = Some t' \<longrightarrow> t_timestamp t \<le> t_timestamp t') \<and>
      th_inv h' \<and> timers_of h' = (timers_of h)(p := rearm t)"
  using step_cases [OF assms, of call w] by (auto simp: none_due_def)

theorem checkTimeout_step_spec_witness:
  "\<exists>p h h'. addTimer th_new (Timestamp 7 0) 5 () 1 = Some (p, h) \<and>
    checkTimeout_step (\<lambda>c i s. s) (Timestamp 7 5000000) (h, ()) = Some (Inr (h', ())) \<and> timers_of h' = Map.empty"
proof -
  have e: "timers_of (th_new :: unit timer_heap) = Map.empty" by (simp add: timers_of_def strip_def th_new_def)
  have n: "ts_normal (Timestamp 7 0)" "ts_normal (Timestamp 7 5000000)" by (simp_all add: ts_normal_def)
  obtain h where h: "addTimer th_new (Timestamp 7 0) 5 () 1 = Some (1, h)" "th_inv h"
      "timers_of h = [1 \<mapsto> new_timer 1 (Timestamp 7 0) 5 () 1]"
    using addTimer_ok [OF th_inv_new n(1), of 5 "()" 1] e by (auto simp: th_new_def getId_def INT64_MAX_def)
  have "due (Timestamp 7 5000000) (new_timer 1 (Timestamp 7 0) 5 () 1)"
    by (simp add: due_def new_timer_def timer_new_def ts_add_def millisecondLess_def getMilliSecond_def)
  then have "\<not> none_due (Timestamp 7 5000000) h" using h(3) by (auto simp: none_due_def)
  with checkTimeout_step_spec [OF h(2) n(2), of "\<lambda>c i s. s" "()"] h(1,3) show ?thesis
    by (auto simp: new_timer_def timer_new_def rearm_def split: if_splits)
qed

section \<open>Termination of \<open>checkTimeout\<close>\<close>

lemma checkTimeout_unfold:
  "checkTimeout_step call now s = Some (Inl s') \<Longrightarrow> checkTimeout call now s = Some s'"
  "checkTimeout_step call now s = Some (Inr s') \<Longrightarrow> checkTimeout call now s = checkTimeout call now s'"
  by (simp_all add: checkTimeout.simps [of call now s])

text \<open>
  What a callback does when it keeps to the interface and does not ask to be called back within
  the same millisecond: it removes timers and adds timers whose timeout is at least one
  millisecond and fits an \<open>int\<close>.
\<close>

inductive client :: "timestamp \<Rightarrow> 'c timer_heap \<Rightarrow> 'c timer_heap \<Rightarrow> bool" for now h where
  nothing: "client now h h"
| remove: "client now h h' \<Longrightarrow> removeTimer h' p = Some h'' \<Longrightarrow> client now h h''"
| add: "client now h h' \<Longrightarrow> ts_normal now' \<Longrightarrow> ts_ms now \<le> ts_ms now' \<Longrightarrow> 1 \<le> ms \<Longrightarrow> ms < 2 ^ 31 \<Longrightarrow>
    addTimer h' now' ms cb n = Some (p, h'') \<Longrightarrow> client now h h''"

definition calm :: "'c timer_heap \<Rightarrow> bool" where
  "calm h \<longleftrightarrow> (\<forall>p t. timers_of h p = Some t \<longrightarrow> t_call_times t = 1 \<or> 1 \<le> getTimeout t)"

text \<open>The milliseconds all timers together lie behind.\<close>

definition lag :: "timestamp \<Rightarrow> 'c timer \<Rightarrow> nat" where
  "lag now t = nat (ts_ms now - ts_ms (t_timestamp t) + 1)"

definition backlog :: "timestamp \<Rightarrow> 'c timer_heap \<Rightarrow> nat" where
  "backlog now h = (\<Sum>p \<in> dom (timers_of h). lag now (the (timers_of h p)))"

lemma dom_timers_of: "dom (timers_of h) = dom (th_timers h)"
  by (simp add: timers_of_def dom_strip)

lemma finite_timers: "th_inv h \<Longrightarrow> finite (dom (timers_of h))"
  by (simp add: dom_timers_of th_inv_def th_mid_def)

lemma backlog_upd:
  fixes f :: "'a \<Rightarrow> nat"
  assumes "finite (dom m)"
  shows "(\<Sum>p \<in> dom (m(q := x)). f (the ((m(q := x)) p))) =
    (\<Sum>p \<in> dom m - {q}. f (the (m p))) + (case x of None \<Rightarrow> 0 | Some t \<Rightarrow> f t)"
proof -
  have "(\<Sum>p \<in> dom m - {q}. f (the ((m(q := x)) p))) = (\<Sum>p \<in> dom m - {q}. f (the (m p)))"
    by (rule sum.cong) auto
  then show ?thesis using assms by (cases x) (simp_all add: sum.insert_remove)
qed

lemma backlog_del: "finite (dom m) \<Longrightarrow> (\<Sum>p \<in> dom m - {q}. f (the (m p))) \<le> (\<Sum>p \<in> dom m. f (the (m p)) :: nat)"
  by (rule sum_mono2) auto

lemma backlog_split: "finite (dom m) \<Longrightarrow> m q = Some t \<Longrightarrow>
    (\<Sum>p \<in> dom m. f (the (m p)) :: nat) = (\<Sum>p \<in> dom m - {q}. f (the (m p))) + f t"
  by (subst sum.remove [of _ q]) auto

lemma getTimeout_small: "0 \<le> t_timeout t \<Longrightarrow> t_timeout t < 2 ^ 31 \<Longrightarrow> getTimeout t = t_timeout t"
  by (simp add: getTimeout_def signed_of_int signed_take_bit_int_eq_self)

lemma client_ok:
  assumes "client now h h'" "th_inv h" "calm h"
  shows "th_inv h' \<and> calm h' \<and> backlog now h' \<le> backlog now h"
  using assms(1)
proof induction
  case nothing
  show ?case using assms(2,3) by simp
next
  case (remove h' p h'')
  have r: "th_inv h''" "timers_of h'' = (timers_of h')(p := None)" using removeTimer_ok [of h' p] remove by auto
  have "calm h''" using remove r(2) by (auto simp: calm_def)
  moreover have "backlog now h'' \<le> backlog now h'"
    unfolding backlog_def r(2) using backlog_upd [OF finite_timers, of h' "lag now" p None] backlog_del [OF finite_timers, of h' "lag now" p]
      remove.IH by simp
  ultimately show ?case using r(1) remove.IH by linarith
next
  case (add h' now' ms cb n p h'')
  let ?p = "getId (th_value h')" and ?t = "new_timer (getId (th_value h')) now' ms cb n"
  have r: "th_inv h''" "timers_of h'' = (if timers_of h' ?p = None then (timers_of h')(?p \<mapsto> ?t) else timers_of h')"
    using addTimer_ok [of h' now' ms cb n] add by auto
  have t: "t_timeout ?t = ms" "ts_ms (t_timestamp ?t) = ts_ms now' + ms"
    using add(4) by (simp_all add: new_timer_def timer_new_def ts_add_ms)
  then have "1 \<le> getTimeout ?t" using add(4,5) getTimeout_small [of ?t] by simp
  then have "calm h''" using add.IH r(2) by (auto simp: calm_def split: if_splits)
  moreover have "lag now ?t = 0" using t(2) add(3,4) by (simp add: lag_def)
  then have "backlog now h'' \<le> backlog now h'"
    unfolding backlog_def r(2)
    using backlog_upd [OF finite_timers, of h' "lag now" ?p "Some ?t"] backlog_del [OF finite_timers, of h' "lag now" ?p] add.IH
    by simp
  ultimately show ?case using r(1) add.IH by linarith
qed

lemma expire_backlog:
  assumes inv: "th_inv h" "calm h" and now: "ts_normal now" and t: "timers_of h p = Some t" "due now t"
    and h': "timers_of h' = (timers_of h)(p := rearm t)"
  shows "calm h' \<and> backlog now h' < backlog now h"
proof -
  have ms: "ts_ms (t_timestamp t) \<le> ts_ms now" using due_ms [OF now timer_ok_of [OF inv(1) t(1)]] t(2) by simp
  have c: "t_call_times t = 1 \<or> 1 \<le> getTimeout t" using inv(2) t(1) by (simp add: calm_def)
  have "lag now t' < lag now t \<and> (t_call_times t' = 1 \<or> 1 \<le> getTimeout t')" if "rearm t = Some t'" for t'
    using that c ms by (auto simp: rearm_def lag_def ts_add_ms getTimeout_def split: if_splits)
  moreover have "0 < lag now t" using ms by (simp add: lag_def)
  ultimately have l: "(case rearm t of None \<Rightarrow> 0 | Some t' \<Rightarrow> lag now t') < lag now t"
      "\<And>t'. rearm t = Some t' \<Longrightarrow> t_call_times t' = 1 \<or> 1 \<le> getTimeout t'"
    by (auto split: option.split)
  have "backlog now h' < backlog now h"
    unfolding backlog_def h'
    using backlog_upd [OF finite_timers [OF inv(1)], of "lag now" p "rearm t"]
      backlog_split [OF finite_timers [OF inv(1)] t(1), of "lag now"] l(1) by linarith
  moreover have "calm h'" using inv(2) l(2) unfolding calm_def h' by auto
  ultimately show ?thesis by simp
qed

text \<open>
  C29 (termination): when every timer that fires more than once has a period of at least one
  millisecond, and the callbacks keep to the interface (remove timers, add timers of at
  least one millisecond, anything else they do to the world), \<open>checkTimeout\<close> returns; then the
  invariant holds and no timer is due.
\<close>

theorem checkTimeout_terminates:
  assumes "th_inv h" "calm h" "ts_normal now"
    and "\<And>cb p h w. th_inv h \<Longrightarrow> client now h (fst (call cb p (h, w)))"
  shows "\<exists>h' w'. checkTimeout call now (h, w) = Some (h', w') \<and> th_inv h' \<and> calm h' \<and> none_due now h'"
  using assms(1,2)
proof (induction "backlog now h" arbitrary: h w rule: less_induct)
  case less
  consider "checkTimeout_step call now (h, w) = Some (Inl (h, w))" "none_due now h"
    | p t h1 where "checkTimeout_step call now (h, w) = Some (Inr (call (t_cb t) p (h1, w)))" "timers_of h p = Some t"
      "due now t" "th_inv h1" "timers_of h1 = (timers_of h)(p := rearm t)"
    using step_cases [OF less.prems(1) assms(3), of call w] by blast
  then show ?case
  proof cases
    case 1
    then show ?thesis using checkTimeout_unfold(1) less.prems by fastforce
  next
    case 2
    obtain h2 w2 where s: "call (t_cb t) p (h1, w) = (h2, w2)" by fastforce
    have b: "calm h1 \<and> backlog now h1 < backlog now h"
      by (rule expire_backlog [OF less.prems assms(3) 2(2,3,5)])
    have "client now h1 h2" using assms(4) [OF 2(4), of "t_cb t" p w] s by simp
    then have c: "th_inv h2 \<and> calm h2 \<and> backlog now h2 \<le> backlog now h1" using client_ok 2(4) b by blast
    then have "\<exists>h' w'. checkTimeout call now (h2, w2) = Some (h', w') \<and> th_inv h' \<and> calm h' \<and> none_due now h'"
      using less.hyps [of h2 w2] b by auto
    then show ?thesis using checkTimeout_unfold(2) [OF 2(1)] s by simp
  qed
qed

theorem checkTimeout_terminates_witness:
  "\<exists>h h' w'. addTimer th_new (Timestamp 7 0) 5 () (- 1) = Some (1, h) \<and>
    checkTimeout (\<lambda>c i s. (fst s, snd s + 1)) (Timestamp 70 0) (h, 0 :: int) = Some (h', w') \<and> none_due (Timestamp 70 0) h'"
proof -
  have e: "timers_of (th_new :: unit timer_heap) = Map.empty" by (simp add: timers_of_def strip_def th_new_def)
  have n: "ts_normal (Timestamp 7 0)" "ts_normal (Timestamp 70 0)" by (simp_all add: ts_normal_def)
  obtain h where h: "addTimer th_new (Timestamp 7 0) 5 () (- 1) = Some (1, h)" "th_inv h"
      "timers_of h = [1 \<mapsto> new_timer 1 (Timestamp 7 0) 5 () (- 1)]"
    using addTimer_ok [OF th_inv_new n(1), of 5 "()" "- 1"] e by (auto simp: th_new_def getId_def INT64_MAX_def)
  have "calm h" using h(3) by (auto simp: calm_def new_timer_def timer_new_def getTimeout_def split: if_splits)
  from checkTimeout_terminates [OF h(2) this n(2), of "\<lambda>c i s. (fst s, snd s + 1)" "0 :: int"] h(1)
  show ?thesis by (auto simp: client.nothing)
qed

section \<open>The period that does not advance\<close>

definition stuck :: "timestamp \<Rightarrow> 'c timer_heap \<Rightarrow> bool" where
  "stuck now h \<longleftrightarrow> th_inv h \<and>
     (\<exists>p t. timers_of h p = Some t \<and> t_call_times t \<le> 0 \<and> getTimeout t \<le> 0 \<and> due now t)"

text \<open>Callbacks that leave the heap alone.\<close>

definition keeps_heap :: "('c, 'w) callback_runner \<Rightarrow> bool" where
  "keeps_heap call \<longleftrightarrow> (\<forall>cb p h w. fst (call cb p (h, w)) = h)"

lemma stuck_step:
  assumes "stuck now h" "ts_normal now" "keeps_heap call"
  shows "\<exists>h' w'. checkTimeout_step call now (h, w) = Some (Inr (h', w')) \<and> stuck now h'"
proof -
  obtain p t where h: "th_inv h" "timers_of h p = Some t" "t_call_times t \<le> 0" "getTimeout t \<le> 0" "due now t"
    using assms(1) by (auto simp: stuck_def)
  then have "\<not> none_due now h" by (auto simp: none_due_def)
  then obtain q t' h' where s: "checkTimeout_step call now (h, w) = Some (Inr (call (t_cb t') q (h', w)))"
      "timers_of h q = Some t'" "th_inv h'" "timers_of h' = (timers_of h)(q := rearm t')"
    using step_cases [OF h(1) assms(2), of call w] by blast
  have "stuck now h'"
  proof (cases "q = p")
    case True
    then have t': "t' = t" using s(2) h(2) by simp
    let ?t = "t\<lparr>t_timestamp := ts_add (t_timestamp t) (getTimeout t)\<rparr>"
    have r: "timers_of h' p = Some ?t" using s(4) True t' h(3) by (simp add: rearm_def)
    have ok: "timer_ok p t" "timer_ok p ?t" using timer_ok_of [OF h(1,2)] by (simp_all add: timer_ok_def)
    have "due now ?t"
      using h(4,5) due_ms [OF assms(2) ok(1)] due_ms [OF assms(2) ok(2)] by (simp add: ts_add_ms)
    then show ?thesis using r s(3) h(3,4) unfolding stuck_def by (intro conjI exI [of _ p] exI [of _ ?t]) (simp_all add: getTimeout_def)
  next
    case False
    then show ?thesis using s(3,4) h unfolding stuck_def by (intro conjI exI [of _ p] exI [of _ t]) simp_all
  qed
  moreover have "fst (call (t_cb t') q (h', w)) = h'" using assms(3) by (simp add: keeps_heap_def)
  ultimately show ?thesis using s(1) by (metis prod.collapse)
qed

lemma stuck_not_Some:
  assumes now: "ts_normal now" and call: "keeps_heap call"
  shows "checkTimeout call now s = Some s' \<Longrightarrow> \<not> stuck now (fst s)"
proof -
  have st: "\<exists>h' w'. checkTimeout_step call now (h, w) = Some (Inr (h', w')) \<and> stuck now h'" if "stuck now h" for h w
    by (rule stuck_step [OF that now call])
  assume r: "checkTimeout call now s = Some s'"
  have "call = call \<longrightarrow> now = now \<longrightarrow> \<not> stuck now (fst s)"
  proof (rule checkTimeout.raw_induct [of "\<lambda>c n s r. c = call \<longrightarrow> n = now \<longrightarrow> \<not> stuck now (fst s)" call now s s', OF _ r],
      goal_cases)
    case (1 f c n s s')
    show ?case
    proof (intro impI notI)
      assume *: "c = call" "n = now" "stuck now (fst s)"
      obtain h w where s: "s = (h, w)" by (cases s)
      have h: "stuck now h" using *(3) s by simp
      obtain h' w' where "checkTimeout_step call now (h, w) = Some (Inr (h', w'))" "stuck now h'"
        using st [OF h, of w] by blast
      then have "f call now (h', w') = Some s'" using 1(2) unfolding * s by simp
      from 1(1) [OF this] \<open>stuck now h'\<close> show False by simp
    qed
  qed
  then show "\<not> stuck now (fst s)" by simp
qed

text \<open>
  The period of a timer is read through \<open>int getTimeout()\<close>, which cuts the 64-bit timeout
  to 32 bits. A repeating timer for which this is not positive (a timeout of 0, or one of
  \<open>2 ^ 31\<close> milliseconds, 24.8 days, which is read as negative, or one of \<open>2 ^ 32\<close>, which is read as 0)
  makes \<open>checkTimeout\<close> run for ever once it is due: every turn is well-defined and is followed
  by another one, so the function never returns.
\<close>

lemma checkTimeout_diverges:
  assumes "th_inv h" "ts_normal now" "timers_of h p = Some t" "t_call_times t \<le> 0" "getTimeout t \<le> 0" "due now t"
    and "keeps_heap call"
  shows "checkTimeout call now (h, w) = None \<and>
    (\<exists>run. run 0 = (h, w) \<and> (\<forall>n. checkTimeout_step call now (run n) = Some (Inr (run (Suc n)))))"
proof
  have stuck: "stuck now h" using assms by (auto simp: stuck_def)
  show "checkTimeout call now (h, w) = None"
    using stuck_not_Some [OF assms(2,7), of "(h, w)"] stuck by (cases "checkTimeout call now (h, w)") auto
  define f where "f s = (case the (checkTimeout_step call now s) of Inl s' \<Rightarrow> s' | Inr s' \<Rightarrow> s')" for s
  have step: "checkTimeout_step call now s = Some (Inr (f s)) \<and> stuck now (fst (f s))" if "stuck now (fst s)" for s
    using stuck_step [OF that assms(2,7), of "snd s"] by (auto simp: f_def)
  have "stuck now (fst ((f ^^ n) (h, w)))" for n by (induction n) (use stuck step in simp_all)
  with step have "\<forall>n. checkTimeout_step call now ((f ^^ n) (h, w)) = Some (Inr ((f ^^ Suc n) (h, w)))" by simp
  then show "\<exists>run. run 0 = (h, w) \<and> (\<forall>n. checkTimeout_step call now (run n) = Some (Inr (run (Suc n))))"
    by (intro exI [of _ "\<lambda>n. (f ^^ n) (h, w)"]) simp
qed

section \<open>Sleeping until the next timer\<close>

text \<open>
  C30 (liveness): \<open>getNextTimeoutMillisecond\<close> is the exact time to sleep. It is -1 exactly when there is
  no timer; otherwise it is not negative, at any time from then on that many milliseconds
  later the next turn of \<open>checkTimeout\<close> fires a timer, and before that none is due.
\<close>

theorem next_timeout_exact:
  assumes "th_inv h" "ts_normal now"
  shows "\<exists>n. getNextTimeoutMillisecond h now = Some n \<and> (n = -1 \<longleftrightarrow> timers_of h = Map.empty) \<and>
    (n \<noteq> -1 \<longrightarrow> 0 \<le> n \<and>
      (\<forall>now'. ts_normal now' \<and> ts_ms now + n \<le> ts_ms now' \<longrightarrow>
         (\<exists>s. checkTimeout_step call now' (h, w) = Some (Inr s))) \<and>
      (\<forall>now'. ts_normal now' \<and> ts_ms now \<le> ts_ms now' \<and> ts_ms now' < ts_ms now + n \<longrightarrow> none_due now' h))"
proof (cases "minHeapTop h = 0")
  case True
  then show ?thesis using top_ok(1) [OF assms(1)] by (simp add: getNextTimeoutMillisecond_def)
next
  case False
  obtain t where t: "timers_of h (minHeapTop h) = Some t"
      "\<forall>q t'. timers_of h q = Some t' \<longrightarrow> t_timestamp t \<le> t_timestamp t'"
    using top_ok(2) [OF assms(1) False] by blast
  have ok: "timer_ok (minHeapTop h) t" using timer_ok_of [OF assms(1) t(1)] .
  then have norm: "ts_normal (t_timestamp t)" by (simp add: timer_ok_def)
  let ?n = "if t_timestamp t < now then 0 else ts_ms (t_timestamp t) - ts_ms now"
  have le: "ts_ms now \<le> ts_ms (t_timestamp t)" if "\<not> t_timestamp t < now"
    using ts_le_ms [OF assms(2) norm] that by (simp add: not_less)
  have le': "ts_ms (t_timestamp t) \<le> ts_ms now" if "t_timestamp t < now"
    using ts_le_ms [OF norm assms(2)] that by simp
  have n: "getNextTimeoutMillisecond h now = Some ?n"
    using t(1) False le distanceMillisecond_ms [OF assms(2) norm]
    by (auto simp: getNextTimeoutMillisecond_def timers_of_Some)
  have fire: "\<exists>s. checkTimeout_step call now' (h, w) = Some (Inr s)"
    if "ts_normal now'" "ts_ms now + ?n \<le> ts_ms now'" for now'
  proof -
    have "ts_ms (t_timestamp t) \<le> ts_ms now'" using that(2) le le' by (auto split: if_splits)
    then have "\<not> none_due now' h" using due_ms [OF that(1) ok] t(1) by (auto simp: none_due_def)
    then show ?thesis using step_cases [OF assms(1) that(1), of call w] by blast
  qed
  have wait: "none_due now' h" if "ts_normal now'" "ts_ms now \<le> ts_ms now'" "ts_ms now' < ts_ms now + ?n" for now'
    unfolding none_due_def
  proof (intro allI impI)
    fix q t'
    assume q: "timers_of h q = Some t'"
    have ok': "timer_ok q t'" using timer_ok_of [OF assms(1) q] .
    have "ts_ms (t_timestamp t) \<le> ts_ms (t_timestamp t')"
      using t(2) q norm ok' by (intro ts_le_ms) (auto simp: timer_ok_def)
    then have "ts_ms now' < ts_ms (t_timestamp t')" using that(2,3) by (auto split: if_splits)
    then show "\<not> due now' t'" using due_ms [OF that(1) ok'] by simp
  qed
  have "timers_of h \<noteq> Map.empty" using top_ok(1) [OF assms(1)] False by blast
  moreover have "0 \<le> ?n" using le by simp
  ultimately show ?thesis using n fire wait by (intro exI [of _ ?n]) auto
qed

theorem next_timeout_exact_witness:
  "\<exists>h s. addTimer th_new (Timestamp 7 0) 5 () 1 = Some (1, h) \<and> getNextTimeoutMillisecond h (Timestamp 7 2000000) = Some 3 \<and>
    checkTimeout_step (\<lambda>c i s. s) (Timestamp 7 5000000) (h, ()) = Some (Inr s)"
proof -
  have e: "timers_of (th_new :: unit timer_heap) = Map.empty" by (simp add: timers_of_def strip_def th_new_def)
  have n: "ts_normal (Timestamp 7 0)" "ts_normal (Timestamp 7 2000000)" "ts_normal (Timestamp 7 5000000)"
    by (simp_all add: ts_normal_def)
  obtain h where h: "addTimer th_new (Timestamp 7 0) 5 () 1 = Some (1, h)" "th_inv h"
      "timers_of h = [1 \<mapsto> new_timer 1 (Timestamp 7 0) 5 () 1]"
    using addTimer_ok [OF th_inv_new n(1), of 5 "()" 1] e by (auto simp: th_new_def getId_def INT64_MAX_def)
  have "getNextTimeoutMillisecond h (Timestamp 7 2000000) = Some 3"
  proof -
    have "minHeapTop h = 1" using top_ok [OF h(2)] h(3) by (auto split: if_splits)
    moreover obtain t where "th_timers h 1 = Some t" "t\<lparr>t_heap_pos := 0\<rparr> = new_timer 1 (Timestamp 7 0) 5 () 1"
      using h(3) timers_of_Some by (metis fun_upd_same)
    moreover from this(2) have "t_timestamp t = Timestamp 7 5000000"
      by (cases t) (simp add: new_timer_def timer_new_def ts_add_def)
    ultimately show ?thesis
      by (simp add: getNextTimeoutMillisecond_def less_timestamp_def ts_less_def distanceMillisecond_def getMilliSecond_def)
  qed
  moreover have "\<exists>s. checkTimeout_step (\<lambda>c i s. s) (Timestamp 7 5000000) (h, ()) = Some (Inr s)"
    using next_timeout_exact [OF h(2) n(2), of "\<lambda>c i s. s" "()"] calculation n(3) by (auto simp: ts_ms_def ts_ns_def)
  ultimately show ?thesis using h(1) by blast
qed

end
