(* ===== verification/RankTree.thy ===== *)
theory RankTree
  imports OrderedMap
begin

text \<open>
  Red-black trees with subtree sizes as values: trees that carry the addresses of their nodes,
  contexts with a hole, the red-black condition of both, and their nodes in order. The theory
  \<open>RankSet\<close> keeps such a tree in a store of linked nodes; here are the facts that do not
  depend on pointers. A side \<open>d\<close> is \<open>True\<close> for left.
\<close>

section \<open>Trees and contexts\<close>

datatype 'a rt = Lf | Nd "'a rt" nat bool nat 'a "'a rt"

text \<open>A node with the child \<open>t\<close> on side \<open>d\<close> and \<open>u\<close> on the other.\<close>

definition mk :: "bool \<Rightarrow> nat \<Rightarrow> bool \<Rightarrow> nat \<Rightarrow> 'a \<Rightarrow> 'a rt \<Rightarrow> 'a rt \<Rightarrow> 'a rt" where
  "mk d q c n v t u = (if d then Nd t q c n v u else Nd u q c n v t)"

lemma mk_swap: "mk (\<not> d) q c n v t u = mk d q c n v u t"
  by (simp add: mk_def)

lemma mk_cases:
  obtains "t = Lf" | a q c n v b where "t = mk d q c n v a b"
  by (cases t; cases d) (auto simp: mk_def)

text \<open>A frame is the node above the hole: the side of the hole, the node and its other child.\<close>

datatype 'a fr = Fr (fr_side: bool) (fr_ptr: nat) (fr_red: bool) (fr_cnt: nat) (fr_val: 'a) (fr_sib: "'a rt")

fun plug :: "'a rt \<Rightarrow> 'a fr list \<Rightarrow> 'a rt" where
  "plug t [] = t"
| "plug t (Fr d q c n v u # fs) = plug (mk d q c n v t u) fs"

fun rp :: "'a rt \<Rightarrow> nat" where
  "rp Lf = 0"
| "rp (Nd l q c n v r) = q"

fun isred :: "'a rt \<Rightarrow> bool" where
  "isred Lf = False"
| "isred (Nd l q c n v r) = c"

fun cnt :: "'a rt \<Rightarrow> nat" where
  "cnt Lf = 0"
| "cnt (Nd l q c n v r) = n"

fun blacken :: "'a rt \<Rightarrow> 'a rt" where
  "blacken Lf = Lf"
| "blacken (Nd l q c n v r) = Nd l q False n v r"

fun redden :: "'a rt \<Rightarrow> 'a rt" where
  "redden Lf = Lf"
| "redden (Nd l q c n v r) = Nd l q True n v r"

lemma mk_sel [simp]:
  "rp (mk d q c n v t u) = q" "isred (mk d q c n v t u) = c" "cnt (mk d q c n v t u) = n"
  "blacken (mk d q c n v t u) = mk d q False n v t u" "redden (mk d q c n v t u) = mk d q True n v t u"
  "mk d q c n v t u \<noteq> Lf" "Lf \<noteq> mk d q c n v t u"
  by (simp_all add: mk_def)

lemma blacken_sel [simp]: "rp (blacken t) = rp t" "cnt (blacken t) = cnt t" "\<not> isred (blacken t)" "blacken t = Lf \<longleftrightarrow> t = Lf"
  by (cases t; simp)+

section \<open>Nodes in order\<close>

fun ents :: "'a rt \<Rightarrow> (nat \<times> 'a) list" where
  "ents Lf = []"
| "ents (Nd l q c n v r) = ents l @ (q, v) # ents r"

fun lents :: "'a fr list \<Rightarrow> (nat \<times> 'a) list" where
  "lents [] = []"
| "lents (Fr d q c n v u # fs) = (if d then lents fs else lents fs @ ents u @ [(q, v)])"

fun rents :: "'a fr list \<Rightarrow> (nat \<times> 'a) list" where
  "rents [] = []"
| "rents (Fr d q c n v u # fs) = (if d then (q, v) # ents u @ rents fs else rents fs)"

lemma ents_mk: "ents (mk d q c n v t u) = (if d then ents t @ (q, v) # ents u else ents u @ (q, v) # ents t)"
  by (simp add: mk_def)

lemma ents_plug: "ents (plug t fs) = lents fs @ ents t @ rents fs"
  by (induction t fs rule: plug.induct) (simp_all add: ents_mk)

lemma ents_blacken [simp]: "ents (blacken t) = ents t"
  by (cases t) simp_all

definition ptrs :: "'a rt \<Rightarrow> nat list" where
  "ptrs t = List.map fst (ents t)"

definition cptrs :: "'a fr list \<Rightarrow> nat list" where
  "cptrs fs = List.map fst (lents fs @ rents fs)"

lemma ptrs_simps [simp]:
  "ptrs Lf = []" "ptrs (Nd l q c n v r) = ptrs l @ q # ptrs r"
  "ptrs (blacken t) = ptrs t"
  by (simp_all add: ptrs_def)

lemma ptrs_mk: "set (ptrs (mk d q c n v t u)) = insert q (set (ptrs t) \<union> set (ptrs u))"
  "distinct (ptrs (mk d q c n v t u)) \<longleftrightarrow> q \<notin> set (ptrs t) \<and> q \<notin> set (ptrs u) \<and> distinct (ptrs t) \<and> distinct (ptrs u) \<and>
    set (ptrs t) \<inter> set (ptrs u) = {}"
  by (auto simp: mk_def)

lemma cptrs_simps [simp]: "cptrs [] = []"
  by (simp add: cptrs_def)

lemma cptrs_Fr: "set (cptrs (Fr d q c n v u # fs)) = insert q (set (ptrs u) \<union> set (cptrs fs))"
  "distinct (cptrs (Fr d q c n v u # fs)) \<longleftrightarrow> q \<notin> set (ptrs u) \<and> q \<notin> set (cptrs fs) \<and> distinct (ptrs u) \<and>
    distinct (cptrs fs) \<and> set (ptrs u) \<inter> set (cptrs fs) = {}"
  by (auto simp: cptrs_def ptrs_def)

section \<open>Subtree sizes\<close>

fun cnt_ok :: "'a rt \<Rightarrow> bool" where
  "cnt_ok Lf \<longleftrightarrow> True"
| "cnt_ok (Nd l q c n v r) \<longleftrightarrow> cnt_ok l \<and> cnt_ok r \<and> n = cnt l + cnt r + 1"

lemma cnt_ents: "cnt_ok t \<Longrightarrow> cnt t = length (ents t)"
  by (induction t) simp_all

lemma cnt_ok_mk: "cnt_ok (mk d q c n v t u) \<longleftrightarrow> cnt_ok t \<and> cnt_ok u \<and> n = cnt t + cnt u + 1"
  by (auto simp: mk_def)

lemma cnt_ok_blacken [simp]: "cnt_ok (blacken t) = cnt_ok t"
  by (cases t) simp_all

text \<open>Siblings with right sizes, and the sizes above the hole for a tree of size \<open>k\<close> in it.\<close>

fun sibs_ok :: "'a fr list \<Rightarrow> bool" where
  "sibs_ok [] \<longleftrightarrow> True"
| "sibs_ok (Fr d q c n v u # fs) \<longleftrightarrow> cnt_ok u \<and> sibs_ok fs"

fun recount :: "nat \<Rightarrow> 'a fr list \<Rightarrow> 'a fr list" where
  "recount k [] = []"
| "recount k (Fr d q c n v u # fs) = Fr d q c (k + cnt u + 1) v u # recount (k + cnt u + 1) fs"

lemma recount_same [simp]: "lents (recount k fs) = lents fs" "rents (recount k fs) = rents fs" "sibs_ok (recount k fs) = sibs_ok fs"
  by (induction k fs rule: recount.induct) simp_all

lemma cnt_ok_recount: "cnt_ok t \<Longrightarrow> sibs_ok fs \<Longrightarrow> cnt_ok (plug t (recount (cnt t) fs))"
proof (induction fs arbitrary: t)
  case (Cons f fs)
  obtain d q c n v u where f: "f = Fr d q c n v u" by (cases f)
  from Cons.IH [of "mk d q c (cnt t + cnt u + 1) v t u"] Cons.prems show ?case by (simp add: f cnt_ok_mk)
qed simp

lemma recount_id: "cnt_ok (plug t fs) \<Longrightarrow> recount (cnt t) fs = fs \<and> sibs_ok fs \<and> cnt_ok t"
  by (induction t fs rule: plug.induct) (simp_all add: cnt_ok_mk)

section \<open>The red-black condition\<close>

fun rb :: "'a rt \<Rightarrow> nat \<Rightarrow> bool" where
  "rb Lf m \<longleftrightarrow> m = 0"
| "rb (Nd l q c n v r) m \<longleftrightarrow>
     (if c then rb l m \<and> rb r m \<and> \<not> isred l \<and> \<not> isred r else 0 < m \<and> rb l (m - 1) \<and> rb r (m - 1))"

fun pred :: "'a fr list \<Rightarrow> bool" where
  "pred [] \<longleftrightarrow> True"
| "pred (f # fs) \<longleftrightarrow> fr_red f"

text \<open>The context takes a tree of black height \<open>m\<close>; \<open>pred\<close>: it takes no red one.\<close>

fun rbc :: "'a fr list \<Rightarrow> nat \<Rightarrow> bool" where
  "rbc [] m \<longleftrightarrow> True"
| "rbc (Fr d q c n v u # fs) m \<longleftrightarrow> rb u m \<and> (if c then \<not> isred u \<and> \<not> pred fs \<and> rbc fs m else rbc fs (Suc m))"

lemma rb_mk: "rb (mk d q c n v t u) m \<longleftrightarrow>
    (if c then rb t m \<and> rb u m \<and> \<not> isred t \<and> \<not> isred u else 0 < m \<and> rb t (m - 1) \<and> rb u (m - 1))"
  by (auto simp: mk_def)

lemma rb_plug: "rb (plug t fs) m \<and> \<not> isred (plug t fs) \<Longrightarrow> \<exists>k. rb t k \<and> rbc fs k \<and> (isred t \<longrightarrow> \<not> pred fs)"
proof (induction t fs arbitrary: m rule: plug.induct)
  case (2 t d q c n v u fs)
  then obtain k where "rb (mk d q c n v t u) k" "rbc fs k" "c \<longrightarrow> \<not> pred fs" by fastforce
  then show ?case by (cases c) (auto simp: rb_mk intro: exI [of _ "k - 1"])
qed auto

lemma plug_rb: "rb t k \<Longrightarrow> rbc fs k \<Longrightarrow> (isred t \<longrightarrow> \<not> pred fs) \<Longrightarrow> \<exists>m. rb (plug t fs) m \<and> \<not> isred (plug t fs)"
proof (induction fs arbitrary: t k)
  case (Cons f fs)
  obtain d q c n v u where f: "f = Fr d q c n v u" by (cases f)
  have "rb (mk d q c n v t u) (if c then k else Suc k)" "rbc fs (if c then k else Suc k)" "c \<longrightarrow> \<not> pred fs"
    using Cons.prems by (auto simp: f rb_mk split: if_splits)
  with Cons.IH [of "mk d q c n v t u"] show ?case by (auto simp: f)
qed auto

lemma rb_blacken: "rb t m \<Longrightarrow> \<exists>m'. rb (blacken t) m'"
  by (cases t) (auto intro: exI [of _ "Suc m"] split: if_splits)

lemma rbc_recount [simp]: "rbc (recount k fs) m = rbc fs m" "pred (recount k fs) = pred fs"
  by (induction k fs arbitrary: m rule: recount.induct) (auto split: if_splits; fail)+

end
