(* ===== verification/RankSet.thy ===== *)
theory RankSet
  imports RankTree "HOL-Library.Monad_Syntax"
begin

text \<open>
  Model of \<open>src/brickred/rank_set.h\<close>: a red-black tree of linked nodes with parent pointers and
  subtree sizes. A pointer is an address, 0 the null pointer; the nodes are a store from
  addresses to nodes, with \<open>new\<close> taking the next address and \<open>delete\<close> removing the node, so
  that reading a null or dangling pointer is \<open>None\<close>. The comparison function is a parameter
  \<open>lt\<close>. Where the code has a left and a right version of the same steps the model has one
  with a side \<open>d\<close>, \<open>True\<close> for left.
\<close>

section \<open>Nodes and the store\<close>

record 'a rb_node =
  n_red :: bool
  n_parent :: nat
  n_left :: nat
  n_right :: nat
  n_count :: nat
  n_value :: 'a

type_synonym 'a store = "nat \<rightharpoonup> 'a rb_node"

record 'a rank_set =
  rs_store :: "'a store"
  rs_brk :: nat
  rs_header :: nat

definition child :: "bool \<Rightarrow> 'a rb_node \<Rightarrow> nat" where
  "child d n = (if d then n_left n else n_right n)"

definition set_child :: "bool \<Rightarrow> nat \<Rightarrow> 'a rb_node \<Rightarrow> 'a rb_node" where
  "set_child d c n = (if d then n\<lparr>n_left := c\<rparr> else n\<lparr>n_right := c\<rparr>)"

definition upd :: "'a store \<Rightarrow> nat \<Rightarrow> ('a rb_node \<Rightarrow> 'a rb_node) \<Rightarrow> 'a store option" where
  "upd s p f = map_option (\<lambda>n. s(p \<mapsto> f n)) (s p)"

definition set_parent :: "nat \<Rightarrow> 'a rb_node \<Rightarrow> 'a rb_node" where
  "set_parent p n = n\<lparr>n_parent := p\<rparr>"

definition set_red :: "bool \<Rightarrow> 'a rb_node \<Rightarrow> 'a rb_node" where
  "set_red c n = n\<lparr>n_red := c\<rparr>"

text \<open>\<open>p != nullptr && p->is_red\<close>.\<close>

definition red_at :: "'a store \<Rightarrow> nat \<Rightarrow> bool option" where
  "red_at s p = (if p = 0 then Some False else map_option n_red (s p))"

text \<open>\<open>if (x != nullptr) x->parent = par\<close>.\<close>

definition relink :: "'a store \<Rightarrow> nat \<Rightarrow> nat \<Rightarrow> 'a store option" where
  "relink s x par = (if x \<noteq> 0 then upd s x (set_parent par) else Some s)"

text \<open>Down along one side as far as possible.\<close>

partial_function (option) descend :: "bool \<Rightarrow> 'a store \<Rightarrow> nat \<Rightarrow> nat option" where
  "descend d s p = do {
     n \<leftarrow> s p;
     if child d n = 0 then Some p else descend d s (child d n) }"

text \<open>Up while the node is the child on side \<open>d\<close>; the node with its parent.\<close>

partial_function (option) ascend :: "bool \<Rightarrow> 'a store \<Rightarrow> nat \<Rightarrow> nat \<Rightarrow> (nat \<times> nat) option" where
  "ascend d s node parent_node = do {
     np \<leftarrow> s parent_node;
     if node = child d np then ascend d s parent_node (n_parent np) else Some (node, parent_node) }"

definition increment :: "'a store \<Rightarrow> nat \<Rightarrow> nat option" where
  "increment s node = do {
     n \<leftarrow> s node;
     if n_right n \<noteq> 0 then descend True s (n_right n)
     else do {
       (node, parent_node) \<leftarrow> ascend False s node (n_parent n);
       n \<leftarrow> s node;
       Some (if n_right n \<noteq> parent_node then parent_node else node) } }"

definition decrement :: "'a store \<Rightarrow> nat \<Rightarrow> nat option" where
  "decrement s node = do {
     n \<leftarrow> s node;
     header \<leftarrow> (if n_red n then map_option (\<lambda>np. n_parent np = node) (s (n_parent n)) else Some False);
     if header then Some (n_right n)
     else if n_left n \<noteq> 0 then descend False s (n_left n)
     else do {
       (node, parent_node) \<leftarrow> ascend True s node (n_parent n);
       n \<leftarrow> s node;
       Some (if n_left n \<noteq> parent_node then parent_node else node) } }"

section \<open>Sizes and rotations\<close>

definition count_at :: "'a store \<Rightarrow> nat \<Rightarrow> nat option" where
  "count_at s p = (if p = 0 then Some 0 else map_option n_count (s p))"

definition updateNodeCount :: "'a store \<Rightarrow> nat \<Rightarrow> 'a store option" where
  "updateNodeCount s node = do {
     n \<leftarrow> s node;
     left_count \<leftarrow> count_at s (n_left n);
     right_count \<leftarrow> count_at s (n_right n);
     upd s node (\<lambda>n. n\<lparr>n_count := left_count + right_count + 1\<rparr>) }"

partial_function (option) updateNodeCountToTop :: "nat \<Rightarrow> 'a store \<Rightarrow> nat \<Rightarrow> 'a store option" where
  "updateNodeCountToTop h s node =
     (if node = h then Some s
      else do {
        s \<leftarrow> updateNodeCount s node;
        n \<leftarrow> s node;
        updateNodeCountToTop h s (n_parent n) })"

text \<open>\<open>rotateLeft\<close> is \<open>rotate True\<close>, \<open>rotateRight\<close> is \<open>rotate False\<close>.\<close>

definition rotate :: "bool \<Rightarrow> nat \<Rightarrow> 'a store \<Rightarrow> nat \<Rightarrow> 'a store option" where
  "rotate d h s x = do {
     nx \<leftarrow> s x;
     let y = child (\<not> d) nx;
     ny \<leftarrow> s y;
     s \<leftarrow> upd s x (set_child (\<not> d) (child d ny));
     s \<leftarrow> relink s (child d ny) x;
     s \<leftarrow> upd s y (set_parent (n_parent nx));
     hd \<leftarrow> s h;
     s \<leftarrow> (if x = n_parent hd then upd s h (set_parent y)
           else do {
             np \<leftarrow> s (n_parent nx);
             if x = child d np then upd s (n_parent nx) (set_child d y)
             else upd s (n_parent nx) (set_child (\<not> d) y) });
     s \<leftarrow> upd s y (set_child d x);
     s \<leftarrow> upd s x (set_parent y);
     s \<leftarrow> updateNodeCount s x;
     updateNodeCount s y }"

definition rotateLeft :: "nat \<Rightarrow> 'a store \<Rightarrow> nat \<Rightarrow> 'a store option" where
  "rotateLeft = rotate True"

definition rotateRight :: "nat \<Rightarrow> 'a store \<Rightarrow> nat \<Rightarrow> 'a store option" where
  "rotateRight = rotate False"

section \<open>Searching\<close>

partial_function (option) search_loop :: "('a \<Rightarrow> 'a \<Rightarrow> bool) \<Rightarrow> 'a store \<Rightarrow> 'a \<Rightarrow> nat \<Rightarrow> nat \<Rightarrow> nat option" where
  "search_loop lt s value search_node target_node =
     (if search_node = 0 then Some target_node
      else do {
        n \<leftarrow> s search_node;
        if \<not> lt (n_value n) value then search_loop lt s value (n_left n) search_node
        else search_loop lt s value (n_right n) target_node })"

definition lowerBoundNode :: "('a \<Rightarrow> 'a \<Rightarrow> bool) \<Rightarrow> 'a rank_set \<Rightarrow> 'a \<Rightarrow> nat option" where
  "lowerBoundNode lt r value = do {
     hd \<leftarrow> rs_store r (rs_header r);
     search_loop lt (rs_store r) value (n_parent hd) (rs_header r) }"

definition findNode :: "('a \<Rightarrow> 'a \<Rightarrow> bool) \<Rightarrow> 'a rank_set \<Rightarrow> 'a \<Rightarrow> nat option" where
  "findNode lt r value = do {
     hd \<leftarrow> rs_store r (rs_header r);
     target_node \<leftarrow> search_loop lt (rs_store r) value (n_parent hd) (rs_header r);
     if target_node \<noteq> rs_header r then do {
       n \<leftarrow> rs_store r target_node;
       Some (if lt value (n_value n) then rs_header r else target_node) }
     else Some target_node }"

partial_function (option) upper_loop :: "('a \<Rightarrow> 'a \<Rightarrow> bool) \<Rightarrow> 'a store \<Rightarrow> 'a \<Rightarrow> nat \<Rightarrow> nat \<Rightarrow> nat option" where
  "upper_loop lt s value search_node target_node =
     (if search_node = 0 then Some target_node
      else do {
        n \<leftarrow> s search_node;
        if lt value (n_value n) then upper_loop lt s value (n_left n) search_node
        else upper_loop lt s value (n_right n) target_node })"

definition upperBoundNode :: "('a \<Rightarrow> 'a \<Rightarrow> bool) \<Rightarrow> 'a rank_set \<Rightarrow> 'a \<Rightarrow> nat option" where
  "upperBoundNode lt r value = do {
     hd \<leftarrow> rs_store r (rs_header r);
     upper_loop lt (rs_store r) value (n_parent hd) (rs_header r) }"

partial_function (option) select_loop :: "nat \<Rightarrow> 'a store \<Rightarrow> nat \<Rightarrow> nat \<Rightarrow> nat option" where
  "select_loop h s search_node k =
     (if search_node = 0 then Some h
      else do {
        n \<leftarrow> s search_node;
        left_count \<leftarrow> count_at s (n_left n);
        if k = left_count then Some search_node
        else if k < left_count then select_loop h s (n_left n) k
        else select_loop h s (n_right n) (k - (left_count + 1)) })"

definition selectNode :: "'a rank_set \<Rightarrow> nat \<Rightarrow> nat option" where
  "selectNode r k = do {
     hd \<leftarrow> rs_store r (rs_header r);
     select_loop (rs_header r) (rs_store r) (n_parent hd) k }"

partial_function (option) rank_loop :: "('a \<Rightarrow> 'a \<Rightarrow> bool) \<Rightarrow> 'a store \<Rightarrow> 'a \<Rightarrow> nat \<Rightarrow> nat \<Rightarrow> nat option" where
  "rank_loop lt s value search_node k =
     (if search_node = 0 then Some k
      else do {
        n \<leftarrow> s search_node;
        left_count \<leftarrow> count_at s (n_left n);
        if lt value (n_value n) then rank_loop lt s value (n_left n) k
        else if lt (n_value n) value then rank_loop lt s value (n_right n) (k + (1 + left_count))
        else Some (k + left_count) })"

definition rankNode :: "('a \<Rightarrow> 'a \<Rightarrow> bool) \<Rightarrow> 'a rank_set \<Rightarrow> 'a \<Rightarrow> nat option" where
  "rankNode lt r value = do {
     hd \<leftarrow> rs_store r (rs_header r);
     rank_loop lt (rs_store r) value (n_parent hd) 0 }"

section \<open>Insertion\<close>

text \<open>
  One turn of the loop of \<open>insertNodeFixup\<close>: \<open>Some None\<close> when its condition is false, otherwise
  the store and the next \<open>node_x\<close>.
\<close>

definition insertNodeFixup_turn :: "nat \<Rightarrow> 'a store \<Rightarrow> nat \<Rightarrow> ('a store \<times> nat) option option" where
  "insertNodeFixup_turn h s x = do {
     hd \<leftarrow> s h;
     nx \<leftarrow> s x;
     if x = n_parent hd then Some None
     else do {
       np \<leftarrow> s (n_parent nx);
       if \<not> n_red np then Some None
       else do {
         let p = n_parent nx;
         let g = n_parent np;
         ng \<leftarrow> s g;
         let d = (p = n_left ng);
         let u = child (\<not> d) ng;
         u_red \<leftarrow> red_at s u;
         if u_red then do {
           s \<leftarrow> upd s p (set_red False);
           s \<leftarrow> upd s u (set_red False);
           s \<leftarrow> upd s g (set_red True);
           Some (Some (s, g)) }
         else do {
           (s, x) \<leftarrow> (if x = child (\<not> d) np then do { s \<leftarrow> rotate d h s p; Some (s, p) } else Some (s, x));
           nx \<leftarrow> s x;
           s \<leftarrow> upd s (n_parent nx) (set_red False);
           np \<leftarrow> s (n_parent nx);
           s \<leftarrow> upd s (n_parent np) (set_red True);
           s \<leftarrow> rotate (\<not> d) h s (n_parent np);
           Some (Some (s, x)) } } } }"

partial_function (option) insertNodeFixup_loop :: "nat \<Rightarrow> 'a store \<Rightarrow> nat \<Rightarrow> ('a store \<times> nat) option" where
  "insertNodeFixup_loop h s x = do {
     r \<leftarrow> insertNodeFixup_turn h s x;
     case r of None \<Rightarrow> Some (s, x) | Some (s, x) \<Rightarrow> insertNodeFixup_loop h s x }"

definition insertNodeFixup :: "nat \<Rightarrow> 'a store \<Rightarrow> nat \<Rightarrow> 'a store option" where
  "insertNodeFixup h s x = do {
     (s, x) \<leftarrow> insertNodeFixup_loop h s x;
     s \<leftarrow> updateNodeCountToTop h s x;
     hd \<leftarrow> s h;
     upd s (n_parent hd) (set_red False) }"

definition new_node :: "nat \<Rightarrow> 'a \<Rightarrow> 'a rb_node" where
  "new_node par value = \<lparr>n_red = True, n_parent = par, n_left = 0, n_right = 0, n_count = 0, n_value = value\<rparr>"

text \<open>The common end of the four branches that insert a node.\<close>

definition insert_finish :: "'a rank_set \<Rightarrow> 'a store \<Rightarrow> ('a rank_set \<times> nat \<times> bool) option" where
  "insert_finish r s = do {
     let x = rs_brk r;
     s \<leftarrow> updateNodeCountToTop (rs_header r) s x;
     s \<leftarrow> upd s (rs_header r) (\<lambda>n. n\<lparr>n_count := n_count n + 1\<rparr>);
     s \<leftarrow> insertNodeFixup (rs_header r) s x;
     Some (r\<lparr>rs_store := s, rs_brk := x + 1\<rparr>, x, True) }"

definition insertNode :: "('a \<Rightarrow> 'a \<Rightarrow> bool) \<Rightarrow> 'a rank_set \<Rightarrow> 'a \<Rightarrow> ('a rank_set \<times> nat \<times> bool) option" where
  "insertNode lt r value = do {
     let h = rs_header r;
     let s = rs_store r;
     let x = rs_brk r;
     hd \<leftarrow> s h;
     if n_count hd = 0 then do {
       s \<leftarrow> upd (s(x \<mapsto> new_node h value)) h (\<lambda>n. n\<lparr>n_parent := x, n_left := x, n_right := x\<rparr>);
       insert_finish r s }
     else do {
       target_node \<leftarrow> search_loop lt s value (n_parent hd) h;
       if target_node = h then do {
         s \<leftarrow> upd (s(x \<mapsto> new_node (n_right hd) value)) (n_right hd) (set_child False x);
         s \<leftarrow> upd s h (set_child False x);
         insert_finish r s }
       else do {
         n \<leftarrow> s target_node;
         if \<not> lt value (n_value n) then Some (r, target_node, False)
         else if n_left n = 0 then do {
           s \<leftarrow> upd (s(x \<mapsto> new_node target_node value)) target_node (set_child True x);
           s \<leftarrow> (if n_left hd = target_node then upd s h (set_child True x) else Some s);
           insert_finish r s }
         else do {
           search_node \<leftarrow> descend False s (n_left n);
           s \<leftarrow> upd (s(x \<mapsto> new_node search_node value)) search_node (set_child False x);
           s \<leftarrow> (if n_right hd = search_node then upd s h (set_child False x) else Some s);
           insert_finish r s } } } }"

section \<open>Erasure\<close>

text \<open>
  One turn of the loop of \<open>eraseNodeFixup\<close>: \<open>Some None\<close> when its condition is false, \<open>Inl\<close> for
  \<open>break\<close>, \<open>Inr\<close> for the next turn.
\<close>

definition eraseNodeFixup_turn ::
    "nat \<Rightarrow> 'a store \<Rightarrow> nat \<Rightarrow> nat \<Rightarrow> ('a store + 'a store \<times> nat \<times> nat) option option" where
  "eraseNodeFixup_turn h s x par = do {
     hd \<leftarrow> s h;
     x_red \<leftarrow> (if x = n_parent hd then Some True else red_at s x);
     if x_red then Some None
     else do {
       np \<leftarrow> s par;
       let d = (x = n_left np);
       nw \<leftarrow> s (child (\<not> d) np);
       (s, w) \<leftarrow> (if n_red nw then do {
                    s \<leftarrow> upd s (child (\<not> d) np) (set_red False);
                    s \<leftarrow> upd s par (set_red True);
                    s \<leftarrow> rotate d h s par;
                    np \<leftarrow> s par;
                    Some (s, child (\<not> d) np) }
                  else Some (s, child (\<not> d) np));
       nw \<leftarrow> s w;
       near_red \<leftarrow> red_at s (child d nw);
       far_red \<leftarrow> red_at s (child (\<not> d) nw);
       if \<not> near_red \<and> \<not> far_red then do {
         s \<leftarrow> upd s w (set_red True);
         np \<leftarrow> s par;
         Some (Some (Inr (s, par, n_parent np))) }
       else do {
         (s, w) \<leftarrow> (if \<not> far_red then do {
                      s \<leftarrow> (if child d nw \<noteq> 0 then upd s (child d nw) (set_red False) else Some s);
                      s \<leftarrow> upd s w (set_red True);
                      s \<leftarrow> rotate (\<not> d) h s w;
                      np \<leftarrow> s par;
                      Some (s, child (\<not> d) np) }
                    else Some (s, w));
         np \<leftarrow> s par;
         s \<leftarrow> upd s w (set_red (n_red np));
         s \<leftarrow> upd s par (set_red False);
         nw \<leftarrow> s w;
         s \<leftarrow> (if child (\<not> d) nw \<noteq> 0 then upd s (child (\<not> d) nw) (set_red False) else Some s);
         s \<leftarrow> rotate d h s par;
         s \<leftarrow> updateNodeCountToTop h s par;
         Some (Some (Inl s)) } } }"

partial_function (option) eraseNodeFixup_loop :: "nat \<Rightarrow> 'a store \<Rightarrow> nat \<Rightarrow> nat \<Rightarrow> ('a store \<times> nat) option" where
  "eraseNodeFixup_loop h s x par = do {
     r \<leftarrow> eraseNodeFixup_turn h s x par;
     case r of None \<Rightarrow> Some (s, x)
     | Some (Inl s) \<Rightarrow> Some (s, x)
     | Some (Inr (s, x, par)) \<Rightarrow> eraseNodeFixup_loop h s x par }"

definition eraseNodeFixup :: "nat \<Rightarrow> 'a store \<Rightarrow> nat \<Rightarrow> nat \<Rightarrow> 'a store option" where
  "eraseNodeFixup h s x par = do {
     (s, x) \<leftarrow> eraseNodeFixup_loop h s x par;
     if x \<noteq> 0 then upd s x (set_red False) else Some s }"

text \<open>The minimum and the maximum that the header records, before \<open>node_z\<close> goes.\<close>

definition erase_ends :: "nat \<Rightarrow> 'a store \<Rightarrow> nat \<Rightarrow> 'a store option" where
  "erase_ends h s z = do {
     hd \<leftarrow> s h;
     if n_count hd = 1 then upd s h (\<lambda>n. n\<lparr>n_left := h, n_right := h\<rparr>)
     else if n_left hd = z then do { p \<leftarrow> increment s z; upd s h (set_child True p) }
     else if n_right hd = z then do { p \<leftarrow> decrement s z; upd s h (set_child False p) }
     else Some s }"

text \<open>The link to \<open>node_z\<close> from above is set to \<open>p\<close>.\<close>

definition replace_child :: "nat \<Rightarrow> 'a store \<Rightarrow> nat \<Rightarrow> nat \<Rightarrow> 'a store option" where
  "replace_child h s z p = do {
     hd \<leftarrow> s h;
     nz \<leftarrow> s z;
     if n_parent hd = z then upd s h (set_parent p)
     else do {
       np \<leftarrow> s (n_parent nz);
       if n_left np = z then upd s (n_parent nz) (set_child True p)
       else upd s (n_parent nz) (set_child False p) } }"

text \<open>
  \<open>node_z\<close> is taken out of the tree; the result has \<open>node_x\<close> and \<open>node_x_new_parent\<close>. The colours
  of \<open>node_y\<close> and \<open>node_z\<close> are swapped when the successor \<open>node_y\<close> takes its place.
\<close>

definition erase_unlink :: "nat \<Rightarrow> 'a store \<Rightarrow> nat \<Rightarrow> ('a store \<times> nat \<times> nat) option" where
  "erase_unlink h s z = do {
     nz \<leftarrow> s z;
     if n_left nz = 0 \<or> n_right nz = 0 then do {
       let x = (if n_left nz = 0 then n_right nz else n_left nz);
       let par = n_parent nz;
       s \<leftarrow> relink s x par;
       s \<leftarrow> replace_child h s z x;
       Some (s, x, par) }
     else do {
       y \<leftarrow> descend True s (n_right nz);
       ny \<leftarrow> s y;
       let x = n_right ny;
       s \<leftarrow> upd s (n_left nz) (set_parent y);
       s \<leftarrow> upd s y (set_child True (n_left nz));
       (s, par) \<leftarrow> (if y \<noteq> n_right nz then do {
                       let par = n_parent ny;
                       s \<leftarrow> relink s x par;
                       s \<leftarrow> upd s par (set_child True x);
                       s \<leftarrow> upd s y (set_child False (n_right nz));
                       s \<leftarrow> upd s (n_right nz) (set_parent y);
                       Some (s, par) }
                     else Some (s, y));
       s \<leftarrow> replace_child h s z y;
       s \<leftarrow> upd s y (set_parent (n_parent nz));
       s \<leftarrow> upd s y (set_red (n_red nz));
       s \<leftarrow> upd s z (set_red (n_red ny));
       Some (s, x, par) } }"

definition eraseNode :: "'a rank_set \<Rightarrow> nat \<Rightarrow> 'a rank_set option" where
  "eraseNode r z = do {
     let h = rs_header r;
     s \<leftarrow> erase_ends h (rs_store r) z;
     (s, x, par) \<leftarrow> erase_unlink h s z;
     s \<leftarrow> updateNodeCountToTop h s par;
     nz \<leftarrow> s z;
     s \<leftarrow> (if \<not> n_red nz then eraseNodeFixup h s x par else Some s);
     s \<leftarrow> upd s h (\<lambda>n. n\<lparr>n_count := n_count n - 1\<rparr>);
     Some (r\<lparr>rs_store := s(z := None)\<rparr>) }"

section \<open>The set\<close>

definition resetHeaderNode :: "nat \<Rightarrow> 'a store \<Rightarrow> 'a store option" where
  "resetHeaderNode h s = upd s h (\<lambda>n. n\<lparr>n_red := True, n_parent := 0, n_left := h, n_right := h, n_count := 0\<rparr>)"

text \<open>The header of a new set; \<open>dflt\<close> is the value \<open>T()\<close> in it, which is never read.\<close>

definition rs_new :: "'a \<Rightarrow> 'a rank_set" where
  "rs_new dflt = \<lparr>rs_store = [1 \<mapsto> \<lparr>n_red = True, n_parent = 0, n_left = 1, n_right = 1, n_count = 0, n_value = dflt\<rparr>],
     rs_brk = 2, rs_header = 1\<rparr>"

partial_function (option) clearNode :: "'a store \<Rightarrow> nat \<Rightarrow> 'a store option" where
  "clearNode s node =
     (if node = 0 then Some s
      else do {
        n \<leftarrow> s node;
        s \<leftarrow> clearNode s (n_left n);
        s \<leftarrow> clearNode s (n_right n);
        Some (s(node := None)) })"

definition rs_clear :: "'a rank_set \<Rightarrow> 'a rank_set option" where
  "rs_clear r = do {
     hd \<leftarrow> rs_store r (rs_header r);
     s \<leftarrow> clearNode (rs_store r) (n_parent hd);
     s \<leftarrow> resetHeaderNode (rs_header r) s;
     Some (r\<lparr>rs_store := s\<rparr>) }"

definition rs_begin :: "'a rank_set \<Rightarrow> nat option" where
  "rs_begin r = map_option n_left (rs_store r (rs_header r))"

definition rs_end :: "'a rank_set \<Rightarrow> nat" where
  "rs_end r = rs_header r"

definition rs_rbegin :: "'a rank_set \<Rightarrow> nat option" where
  "rs_rbegin r = map_option n_right (rs_store r (rs_header r))"

definition rs_size :: "'a rank_set \<Rightarrow> nat option" where
  "rs_size r = map_option n_count (rs_store r (rs_header r))"

definition rs_empty :: "'a rank_set \<Rightarrow> bool option" where
  "rs_empty r = map_option (\<lambda>n. n_count n = 0) (rs_store r (rs_header r))"

definition rs_deref :: "'a rank_set \<Rightarrow> nat \<Rightarrow> 'a option" where
  "rs_deref r p = map_option n_value (rs_store r p)"

definition rs_erase :: "'a rank_set \<Rightarrow> nat \<Rightarrow> ('a rank_set \<times> nat) option" where
  "rs_erase r iter =
     (if iter = rs_end r then Some (r, iter)
      else do {
        ret_iter \<leftarrow> increment (rs_store r) iter;
        r \<leftarrow> eraseNode r iter;
        Some (r, ret_iter) })"

definition rs_erase_value :: "('a \<Rightarrow> 'a \<Rightarrow> bool) \<Rightarrow> 'a rank_set \<Rightarrow> 'a \<Rightarrow> ('a rank_set \<times> nat) option" where
  "rs_erase_value lt r value = do {
     iter \<leftarrow> findNode lt r value;
     if iter = rs_end r then Some (r, 0)
     else do {
       (r, ret_iter) \<leftarrow> rs_erase r iter;
       Some (r, 1) } }"

section \<open>Whole sets\<close>

text \<open>
  Each set has a store of its own. \<open>copyNodes\<close> reads the nodes of the other set and makes new ones
  in the store \<open>s\<close>, whose next address is \<open>brk\<close>; the destination of an assignment may be the
  source itself (\<open>self\<close>).
\<close>

partial_function (option) copyNodes :: "'a store \<Rightarrow> nat \<Rightarrow> 'a store \<Rightarrow> nat \<Rightarrow> ('a store \<times> nat \<times> nat) option" where
  "copyNodes other node s brk =
     (if node = 0 then Some (s, brk, 0)
      else do {
        n \<leftarrow> other node;
        let x = brk;
        let s = s(x \<mapsto> \<lparr>n_red = n_red n, n_parent = 0, n_left = 0, n_right = 0, n_count = n_count n, n_value = n_value n\<rparr>);
        (s, brk, l) \<leftarrow> copyNodes other (n_left n) s (brk + 1);
        s \<leftarrow> upd s x (set_child True l);
        (s, brk, r) \<leftarrow> copyNodes other (n_right n) s brk;
        s \<leftarrow> upd s x (set_child False r);
        s \<leftarrow> relink s l x;
        s \<leftarrow> relink s r x;
        Some (s, brk, x) })"

definition rs_copy :: "'a \<Rightarrow> 'a rank_set \<Rightarrow> 'a rank_set option" where
  "rs_copy dflt other = do {
     ohd \<leftarrow> rs_store other (rs_header other);
     let h = rs_header (rs_new dflt);
     (s, brk, root) \<leftarrow> copyNodes (rs_store other) (n_parent ohd) (rs_store (rs_new dflt)) (rs_brk (rs_new dflt));
     s \<leftarrow> upd s h (set_parent root);
     s \<leftarrow> relink s root h;
     s \<leftarrow> upd s h (\<lambda>n. n\<lparr>n_count := n_count ohd\<rparr>);
     s \<leftarrow> (if root = 0 then upd s h (\<lambda>n. n\<lparr>n_left := h, n_right := h\<rparr>)
           else do {
             node_min \<leftarrow> descend True s root;
             s \<leftarrow> upd s h (set_child True node_min);
             node_max \<leftarrow> descend False s root;
             upd s h (set_child False node_max) });
     Some \<lparr>rs_store = s, rs_brk = brk, rs_header = h\<rparr> }"

definition rs_move :: "'a \<Rightarrow> 'a rank_set \<Rightarrow> 'a rank_set \<times> 'a rank_set" where
  "rs_move dflt other = (other, rs_new dflt)"

definition rs_swap :: "'a rank_set \<Rightarrow> 'a rank_set \<Rightarrow> 'a rank_set \<times> 'a rank_set" where
  "rs_swap a b = (b, a)"

definition rs_assign :: "'a \<Rightarrow> bool \<Rightarrow> 'a rank_set \<Rightarrow> 'a rank_set \<Rightarrow> 'a rank_set option" where
  "rs_assign dflt self a other =
     (if self then Some a else do { tmp \<leftarrow> rs_copy dflt other; Some (fst (rs_swap a tmp)) })"

definition rs_assign_move :: "'a \<Rightarrow> 'a rank_set \<Rightarrow> 'a rank_set \<Rightarrow> 'a rank_set \<times> 'a rank_set" where
  "rs_assign_move dflt a other = (let (tmp, other) = rs_move dflt other in (fst (rs_swap a tmp), other))"

end
