(* ===== verification/RankStore.thy ===== *)
theory RankStore
  imports RankSet
begin

text \<open>
  The trees of \<open>RankTree\<close> in the store of \<open>RankSet\<close>: a tree and the context above it are
  represented by linked nodes (\<open>at\<close>), a rotation in the store is the rotation of the tree,
  and the search loops read the nodes in order.
\<close>

section \<open>Trees in the store\<close>

text \<open>A node with child \<open>a\<close> on side \<open>d\<close> and \<open>b\<close> on the other.\<close>

definition nodeat :: "bool \<Rightarrow> bool \<Rightarrow> nat \<Rightarrow> nat \<Rightarrow> nat \<Rightarrow> nat \<Rightarrow> 'a \<Rightarrow> 'a rb_node" where
  "nodeat d c par a b n v = \<lparr>n_red = c, n_parent = par, n_left = (if d then a else b),
     n_right = (if d then b else a), n_count = n, n_value = v\<rparr>"

lemma nodeat_simps [simp]:
  "child d (nodeat d c par a b n v) = a" "child (\<not> d) (nodeat d c par a b n v) = b"
  "set_child d x (nodeat d c par a b n v) = nodeat d c par x b n v"
  "set_child (\<not> d) x (nodeat d c par a b n v) = nodeat d c par a x n v"
  "set_parent x (nodeat d c par a b n v) = nodeat d c x a b n v"
  "set_red e (nodeat d c par a b n v) = nodeat d e par a b n v"
  "nodeat d c par a b n v\<lparr>n_count := m\<rparr> = nodeat d c par a b m v"
  "n_red (nodeat d c par a b n v) = c" "n_parent (nodeat d c par a b n v) = par"
  "n_count (nodeat d c par a b n v) = n" "n_value (nodeat d c par a b n v) = v"
  by (simp_all add: nodeat_def child_def set_child_def set_parent_def set_red_def)

lemma nodeat_sides:
  "n_left (nodeat d c par a b n v) = (if d then a else b)" "n_right (nodeat d c par a b n v) = (if d then b else a)"
  by (simp_all add: nodeat_def)

lemma nodeat_not: "nodeat (\<not> d) c par a b n v = nodeat d c par b a n v"
  by (simp add: nodeat_def)

fun rep :: "'a store \<Rightarrow> nat \<Rightarrow> 'a rt \<Rightarrow> bool" where
  "rep s par Lf \<longleftrightarrow> True"
| "rep s par (Nd l q c n v r) \<longleftrightarrow> s q = Some (nodeat True c par (rp l) (rp r) n v) \<and> rep s q l \<and> rep s q r"

lemma rep_mk: "rep s par (mk d q c n v t u) \<longleftrightarrow> s q = Some (nodeat d c par (rp t) (rp u) n v) \<and> rep s q t \<and> rep s q u"
  by (auto simp: mk_def nodeat_def)

text \<open>The pointer above a hole; the nodes above it, with \<open>r\<close> in the hole and the header \<open>H\<close>.\<close>

fun top :: "nat \<Rightarrow> 'a fr list \<Rightarrow> nat" where
  "top h [] = h"
| "top h (f # fs) = fr_ptr f"

fun repc :: "'a store \<Rightarrow> nat \<Rightarrow> 'a rb_node \<Rightarrow> nat \<Rightarrow> 'a fr list \<Rightarrow> bool" where
  "repc s h H r [] \<longleftrightarrow> s h = Some (H\<lparr>n_parent := r\<rparr>)"
| "repc s h H r (Fr d q c n v u # fs) \<longleftrightarrow>
     s q = Some (nodeat d c (top h fs) r (rp u) n v) \<and> rep s q u \<and> repc s h H q fs"

definition own :: "nat \<Rightarrow> 'a rt \<Rightarrow> 'a fr list \<Rightarrow> bool" where
  "own h t fs \<longleftrightarrow> distinct (0 # h # ptrs t @ cptrs fs)"

definition at :: "'a store \<Rightarrow> nat \<Rightarrow> 'a rb_node \<Rightarrow> 'a rt \<Rightarrow> 'a fr list \<Rightarrow> bool" where
  "at s h H t fs \<longleftrightarrow> rep s (top h fs) t \<and> repc s h H (rp t) fs \<and> own h t fs"

lemma own_plug: "own h (mk d q c n v t u) fs \<longleftrightarrow> own h t (Fr d q c n v u # fs)"
  by (auto simp: own_def ptrs_mk cptrs_Fr)

text \<open>Moving the hole down and up.\<close>

lemma at_plug: "at s h H (mk d q c n v t u) fs \<longleftrightarrow> at s h H t (Fr d q c n v u # fs)"
  unfolding at_def own_plug by (auto simp: rep_mk)

lemma rp_in: "t = Lf \<and> rp t = 0 \<or> rp t \<in> set (ptrs t)"
  by (cases t) auto

lemma rep_cong: "(\<And>p. p \<in> set (ptrs t) \<Longrightarrow> s' p = s p) \<Longrightarrow> rep s' par t = rep s par t"
  by (induction t arbitrary: par) auto

lemma repc_cong: "(\<And>p. p \<in> insert h (set (cptrs fs)) \<Longrightarrow> s' p = s p) \<Longrightarrow> repc s' h H r fs = repc s h H r fs"
proof (induction fs arbitrary: r)
  case (Cons f fs)
  obtain d q c n v u where f: "f = Fr d q c n v u" by (cases f)
  have "rep s' q u = rep s q u" using Cons.prems by (intro rep_cong) (simp add: f cptrs_Fr)
  moreover have "repc s' h H q fs = repc s h H q fs" using Cons.prems by (intro Cons.IH) (auto simp: f cptrs_Fr)
  ultimately show ?case using Cons.prems [of q] by (simp add: f cptrs_Fr)
qed simp

lemma rep_upd [simp]: "q \<notin> set (ptrs t) \<Longrightarrow> rep (s(q := x)) par t = rep s par t"
  by (rule rep_cong) auto

lemma repc_upd [simp]: "q \<noteq> h \<Longrightarrow> q \<notin> set (cptrs fs) \<Longrightarrow> repc (s(q := x)) h H r fs = repc s h H r fs"
  by (rule repc_cong) auto

lemma rep_dom: "rep s par t \<Longrightarrow> set (ptrs t) \<subseteq> dom s"
proof (induction t arbitrary: par)
  case (Nd l q c n v r)
  then have "s q \<noteq> None" "rep s q l" "rep s q r" by simp_all
  then have "q \<in> dom s" "set (ptrs l) \<subseteq> dom s" "set (ptrs r) \<subseteq> dom s" using Nd.IH by blast+
  then show ?case by simp
qed simp

lemma repc_dom: "repc s h H r fs \<Longrightarrow> insert h (set (cptrs fs)) \<subseteq> dom s"
proof (induction fs arbitrary: r)
  case (Cons f fs)
  obtain d q c n v u where f: "f = Fr d q c n v u" by (cases f)
  from Cons.prems have "s q \<noteq> None" "rep s q u" "repc s h H q fs" by (simp_all add: f)
  with Cons.IH [OF this(3)] rep_dom [OF this(2)] show ?case by (auto simp: f cptrs_Fr)
qed auto

text \<open>Reading through the root pointer of a tree.\<close>

lemma rep_root: "rep s par t \<Longrightarrow> t \<noteq> Lf \<Longrightarrow> \<exists>n. s (rp t) = Some n \<and> n_red n = isred t \<and> n_count n = cnt t \<and> n_parent n = par"
  by (cases t) auto

lemma rep_reads: "rep s par t \<Longrightarrow> 0 \<notin> set (ptrs t) \<Longrightarrow> red_at s (rp t) = Some (isred t) \<and> count_at s (rp t) = Some (cnt t)"
  by (cases t) (auto simp: red_at_def count_at_def)

lemma upd_Some [simp]: "s p = Some n \<Longrightarrow> upd s p f = Some (s(p \<mapsto> f n))"
  by (simp add: upd_def)

text \<open>The root of a tree gets a new parent or a new colour.\<close>

lemma rep_set_parent:
  assumes "rep s par t" "0 \<notin> set (ptrs t)" "distinct (ptrs t)"
  shows "\<exists>s'. relink s (rp t) par' = Some s' \<and> rep s' par' t \<and>
    (\<forall>p. p \<notin> set (ptrs t) \<longrightarrow> s' p = s p) \<and> dom s' = dom s"
proof (cases t)
  case (Nd l q c n v r)
  have "s q = Some (nodeat True c par (rp l) (rp r) n v)" using assms(1) Nd by simp
  moreover have "rep (s(q \<mapsto> x)) q l" "rep (s(q \<mapsto> x)) q r" for x
    using assms Nd by auto
  ultimately show ?thesis using assms(2) Nd by (auto simp: relink_def)
qed (auto simp: relink_def)

lemma rep_set_red:
  assumes "rep s par t" "t \<noteq> Lf" "distinct (ptrs t)"
  shows "\<exists>s'. upd s (rp t) (set_red c) = Some s' \<and> rep s' par (if c then redden t else blacken t) \<and>
    (\<forall>p. p \<noteq> rp t \<longrightarrow> s' p = s p) \<and> dom s' = dom s"
proof (cases t)
  case (Nd l q c n v r)
  have "s q = Some (nodeat True c par (rp l) (rp r) n v)" using assms(1) Nd by simp
  moreover have "rep (s(q \<mapsto> x)) q l" "rep (s(q \<mapsto> x)) q r" for x
    using assms Nd by auto
  ultimately show ?thesis using Nd by auto
qed (use assms in simp)

lemma updateNodeCount_mk:
  assumes "s q = Some (nodeat d c par (rp t) (rp u) n v)" "rep s q t" "rep s q u" "0 \<notin> set (ptrs t)" "0 \<notin> set (ptrs u)"
  shows "updateNodeCount s q = Some (s(q \<mapsto> nodeat d c par (rp t) (rp u) (cnt t + cnt u + 1) v))"
  using assms rep_reads [OF assms(2,4)] rep_reads [OF assms(3,5)]
  by (cases d) (simp_all add: updateNodeCount_def nodeat_sides add.commute)

lemma repc_header:
  "repc s h H r fs \<Longrightarrow> \<exists>r'. s h = Some (H\<lparr>n_parent := r'\<rparr>) \<and> (if fs = [] then r' = r else r' \<in> set (cptrs fs))"
proof (induction fs arbitrary: r)
  case (Cons f fs)
  obtain d q c n v u where f: "f = Fr d q c n v u" by (cases f)
  with Cons.prems have "repc s h H q fs" by simp
  from Cons.IH [OF this] show ?case by (auto simp: f cptrs_Fr split: if_splits)
qed simp

text \<open>The link from above to the hole is redirected, as rotations and \<open>eraseNode\<close> do.\<close>

definition fix_link :: "bool \<Rightarrow> nat \<Rightarrow> 'a store \<Rightarrow> nat \<Rightarrow> nat \<Rightarrow> nat \<Rightarrow> 'a store option" where
  "fix_link d h s x par y = do {
     hd \<leftarrow> s h;
     if x = n_parent hd then upd s h (set_parent y)
     else do {
       np \<leftarrow> s par;
       if x = child d np then upd s par (set_child d y) else upd s par (set_child (\<not> d) y) } }"

lemma fix_link_ok:
  assumes c: "repc s h H x fs" and x: "x \<noteq> 0" "x \<notin> set (cptrs fs)" and dist: "distinct (h # cptrs fs)"
  shows "\<exists>s'. fix_link d h s x (top h fs) y = Some s' \<and> repc s' h H y fs \<and>
    (\<forall>p. p \<noteq> top h fs \<longrightarrow> s' p = s p) \<and> dom s' = dom s"
proof (cases fs)
  case Nil
  then have "s h = Some (H\<lparr>n_parent := x\<rparr>)" using c by simp
  then show ?thesis using Nil by (auto simp: fix_link_def set_parent_def)
next
  case (Cons f fs')
  obtain d' q c' n v u where f: "f = Fr d' q c' n v u" by (cases f)
  have q: "s q = Some (nodeat d' c' (top h fs') x (rp u) n v)" "rep s q u" "repc s h H q fs'"
    using c by (simp_all add: Cons f)
  have neq: "q \<notin> set (ptrs u)" "q \<notin> set (cptrs fs')" "q \<noteq> h" using dist by (auto simp: Cons f cptrs_Fr)
  have u: "rp u \<noteq> x" using x rp_in [of u] by (auto simp: Cons f cptrs_Fr)
  obtain r' where r': "s h = Some (H\<lparr>n_parent := r'\<rparr>)" "r' \<in> set (cptrs fs)"
    using repc_header [OF c] by (auto simp: Cons split: if_splits)
  then have ne: "x \<noteq> r'" using x by auto
  let ?s = "s(q \<mapsto> nodeat d' c' (top h fs') y (rp u) n v)"
  have "fix_link d h s x q y = Some ?s"
  proof (cases "d' = d")
    case True
    then show ?thesis using r'(1) ne q(1) by (simp add: fix_link_def)
  next
    case False
    then have d: "d' = (\<not> d)" by simp
    have "s q = Some (nodeat d c' (top h fs') (rp u) x n v)" using q(1) by (simp add: d nodeat_not)
    then show ?thesis using r'(1) ne u by (simp add: fix_link_def d nodeat_not)
  qed
  moreover have "repc ?s h H y fs" using q neq by (simp add: Cons f)
  ultimately show ?thesis using q(1) by (auto simp: Cons f)
qed

lemma rotate_alt:
  "rotate d h s x = do {
     nx \<leftarrow> s x;
     let y = child (\<not> d) nx;
     ny \<leftarrow> s y;
     s \<leftarrow> upd s x (set_child (\<not> d) (child d ny));
     s \<leftarrow> relink s (child d ny) x;
     s \<leftarrow> upd s y (set_parent (n_parent nx));
     s \<leftarrow> fix_link d h s x (n_parent nx) y;
     s \<leftarrow> upd s y (set_child d x);
     s \<leftarrow> upd s x (set_parent y);
     s \<leftarrow> updateNodeCount s x;
     updateNodeCount s y }"
  by (simp add: rotate_def fix_link_def Let_def)

text \<open>A rotation in the store is the rotation of the tree; sizes of the two nodes are computed anew.\<close>

lemma rotate_ok:
  assumes "at s h H (mk d x cx nx vx A (mk d y cy ny vy B C)) fs"
  shows "\<exists>s'. rotate d h s x = Some s' \<and> dom s' = dom s \<and>
    at s' h H (mk d y cy (cnt A + cnt B + 1 + cnt C + 1) vy (mk d x cx (cnt A + cnt B + 1) vx A B) C) fs"
proof -
  let ?P = "top h fs"
  have own: "own h (mk d x cx nx vx A (mk d y cy ny vy B C)) fs" using assms by (simp add: at_def)
  have own': "own h (mk d y cy (cnt A + cnt B + 1 + cnt C + 1) vy (mk d x cx (cnt A + cnt B + 1) vx A B) C) fs"
    using own by (auto simp: own_def ptrs_mk)
  have pt: "x \<noteq> 0" "x \<noteq> y" "x \<noteq> h" "y \<noteq> h" "x \<notin> set (cptrs fs)" "y \<notin> set (cptrs fs)"
    "x \<notin> set (ptrs A)" "x \<notin> set (ptrs B)" "x \<notin> set (ptrs C)" "y \<notin> set (ptrs A)" "y \<notin> set (ptrs B)" "y \<notin> set (ptrs C)"
    "0 \<notin> set (ptrs A)" "0 \<notin> set (ptrs B)" "0 \<notin> set (ptrs C)" "distinct (ptrs B)" "distinct (h # cptrs fs)"
    using own by (auto simp: own_def ptrs_mk)
  have dj: "set (ptrs A) \<inter> set (ptrs B) = {}" "set (ptrs C) \<inter> set (ptrs B) = {}"
    "insert h (set (cptrs fs)) \<inter> set (ptrs B) = {}" "insert h (set (cptrs fs)) \<inter> (set (ptrs A) \<union> set (ptrs C)) = {}"
    using own by (auto simp: own_def ptrs_mk)
  have P: "?P \<in> insert h (set (cptrs fs))"
  proof (cases fs)
    case (Cons f fs')
    then show ?thesis by (cases f) (simp add: cptrs_Fr)
  qed simp
  have s: "s x = Some (nodeat d cx ?P (rp A) y nx vx)" "s y = Some (nodeat d cy x (rp B) (rp C) ny vy)"
    "rep s x A" "rep s y B" "rep s y C" "repc s h H x fs"
    using assms by (simp_all add: at_def rep_mk)
  let ?s1 = "s(x \<mapsto> nodeat d cx ?P (rp A) (rp B) nx vx)"
  have "rep ?s1 y B" using s pt by simp
  then obtain s2 where s2: "relink ?s1 (rp B) x = Some s2" "rep s2 x B"
      "\<forall>p. p \<notin> set (ptrs B) \<longrightarrow> s2 p = ?s1 p" "dom s2 = dom ?s1"
    using rep_set_parent [of ?s1 y B x] pt by blast
  have e2: "s2 x = Some (nodeat d cx ?P (rp A) (rp B) nx vx)" "s2 y = Some (nodeat d cy x (rp B) (rp C) ny vy)"
    using s2(3) s pt by simp_all
  have r2: "rep s2 x A" "rep s2 y C" "repc s2 h H x fs"
  proof -
    have *: "s2 p = s p" if "p \<in> set (ptrs A) \<union> set (ptrs C) \<union> insert h (set (cptrs fs))" for p
      using s2(3) that dj pt by auto
    then have "rep s2 x A = rep s x A" "rep s2 y C = rep s y C" "repc s2 h H x fs = repc s h H x fs"
      by (intro rep_cong repc_cong; blast)+
    with s show "rep s2 x A" "rep s2 y C" "repc s2 h H x fs" by simp_all
  qed
  let ?s3 = "s2(y \<mapsto> nodeat d cy ?P (rp B) (rp C) ny vy)"
  have "repc ?s3 h H x fs" using r2 pt by simp
  then obtain s4 where s4: "fix_link d h ?s3 x ?P y = Some s4" "repc s4 h H y fs" "\<forall>p. p \<noteq> ?P \<longrightarrow> s4 p = ?s3 p"
      "dom s4 = dom ?s3"
    using fix_link_ok [of ?s3 h H x fs d y] pt by blast
  have xyP: "x \<noteq> ?P" "y \<noteq> ?P" using P pt by auto
  have e4: "s4 x = Some (nodeat d cx ?P (rp A) (rp B) nx vx)" "s4 y = Some (nodeat d cy ?P (rp B) (rp C) ny vy)"
    using s4(3) e2 pt xyP by simp_all
  have r4: "rep s4 x A" "rep s4 x B" "rep s4 y C"
  proof -
    have "s4 p = s2 p" if "p \<in> set (ptrs A) \<union> set (ptrs B) \<union> set (ptrs C)" for p
    proof -
      have "p \<noteq> ?P" "p \<noteq> y" using that dj pt(10-12) P by blast+
      with s4(3) show ?thesis by simp
    qed
    then have "rep s4 x A = rep s2 x A" "rep s4 x B = rep s2 x B" "rep s4 y C = rep s2 y C"
      by (intro rep_cong; blast)+
    with s2(2) r2 show "rep s4 x A" "rep s4 x B" "rep s4 y C" by simp_all
  qed
  let ?s5 = "s4(y \<mapsto> nodeat d cy ?P x (rp C) ny vy)"
  let ?s6 = "?s5(x \<mapsto> nodeat d cx y (rp A) (rp B) nx vx)"
  let ?X = "mk d x cx (cnt A + cnt B + 1) vx A B"
  let ?s7 = "?s6(x \<mapsto> nodeat d cx y (rp A) (rp B) (cnt A + cnt B + 1) vx)"
  have u7: "updateNodeCount ?s6 x = Some ?s7"
    using r4 pt by (intro updateNodeCount_mk) simp_all
  have r7: "rep ?s7 y ?X" "rep ?s7 y C" "?s7 y = Some (nodeat d cy ?P x (rp C) ny vy)" "repc ?s7 h H y fs"
    using r4 s4(2) pt by (simp_all add: rep_mk)
  let ?s8 = "?s7(y \<mapsto> nodeat d cy ?P x (rp C) (cnt A + cnt B + 1 + cnt C + 1) vy)"
  have "0 \<notin> set (ptrs ?X)" "rp ?X = x" "cnt ?X = cnt A + cnt B + 1" using pt by (auto simp: ptrs_mk)
  then have u8: "updateNodeCount ?s7 y = Some ?s8"
    using updateNodeCount_mk [of ?s7 y d cy ?P ?X C ny vy] r7 pt by simp
  have "rotate d h s x = Some ?s8"
    unfolding rotate_alt using s s2(1) e2 s4(1) e4 pt u7 u8 by simp
  moreover have "at ?s8 h H (mk d y cy (cnt A + cnt B + 1 + cnt C + 1) vy ?X C) fs"
    using own' r4 s4(2) pt by (simp add: at_def rep_mk)
  moreover have "dom ?s8 = dom s" using s4(4) s2(4) s e2 by auto
  ultimately show ?thesis by blast
qed

section \<open>Reading the tree\<close>

definition sorted_ents :: "('a \<Rightarrow> 'a \<Rightarrow> bool) \<Rightarrow> (nat \<times> 'a) list \<Rightarrow> bool" where
  "sorted_ents lt es \<longleftrightarrow> sorted_wrt lt (List.map snd es)"

lemma sorted_ents_append: "sorted_ents lt (xs @ e # ys) \<longleftrightarrow> sorted_ents lt xs \<and> sorted_ents lt ys \<and>
    (\<forall>x \<in> set xs. lt (snd x) (snd e)) \<and> (\<forall>y \<in> set ys. lt (snd e) (snd y)) \<and> (\<forall>x \<in> set xs. \<forall>y \<in> set ys. lt (snd x) (snd y))"
  by (auto simp: sorted_ents_def sorted_wrt_append)

lemma find_append: "List.find P (xs @ ys) = (case List.find P xs of None \<Rightarrow> List.find P ys | Some x \<Rightarrow> Some x)"
  by (induction xs) auto

lemma find_none: "\<forall>x \<in> set xs. \<not> P x \<Longrightarrow> List.find P xs = None"
  by (induction xs) auto

definition found :: "nat \<Rightarrow> (nat \<times> 'a) option \<Rightarrow> nat" where
  "found h e = (case e of None \<Rightarrow> h | Some x \<Rightarrow> fst x)"

lemma select_loop_ok:
  "rep s par t \<Longrightarrow> 0 \<notin> set (ptrs t) \<Longrightarrow> cnt_ok t \<Longrightarrow>
     select_loop h s (rp t) k = Some (if k < length (ents t) then fst (ents t ! k) else h)"
proof (induction t arbitrary: par k)
  case Lf
  show ?case by (subst select_loop.simps) simp
next
  case (Nd l q c n v r)
  have cl: "count_at s (rp l) = Some (length (ents l))"
    using Nd.prems rep_reads [of s q l] cnt_ents [of l] by simp
  note step = select_loop.simps [of h s q k]
  consider "k = length (ents l)" | "k < length (ents l)" | "length (ents l) < k" by linarith
  then show ?case
  proof cases
    case 1
    then show ?thesis using Nd.prems step cl by (simp add: nodeat_sides)
  next
    case 2
    then show ?thesis using Nd.prems step cl Nd.IH(1) [of q k] by (simp add: nodeat_sides nth_append)
  next
    case 3
    then have "(ents l @ (q, v) # ents r) ! k = ents r ! (k - (length (ents l) + 1))"
      by (simp add: nth_append nth_Cons' diff_diff_left)
    then show ?thesis using 3 Nd.prems step cl Nd.IH(2) [of q "k - (length (ents l) + 1)"] by (auto simp: nodeat_sides)
  qed
qed

context strict_weak
begin

lemma search_loop_ok:
  "rep s par t \<Longrightarrow> 0 \<notin> set (ptrs t) \<Longrightarrow> sorted_ents lt (ents t) \<Longrightarrow>
    search_loop lt s value (rp t) target = Some (found target (List.find (\<lambda>e. \<not> lt (snd e) value) (ents t)))"
proof (induction t arbitrary: par target)
  case Lf
  show ?case by (subst search_loop.simps) (simp add: found_def)
next
  case (Nd l q c n v r)
  have so: "sorted_ents lt (ents l)" "sorted_ents lt (ents r)" "\<forall>x \<in> set (ents l). lt (snd x) v"
    using Nd.prems(3) by (simp_all add: sorted_ents_append)
  note step = search_loop.simps [of lt s "value" q target]
  show ?case
  proof (cases "lt v value")
    case True
    then have "List.find (\<lambda>e. \<not> lt (snd e) value) (ents l) = None"
      using so(3) trans by (intro find_none) blast
    then show ?thesis
      using True Nd.prems so step Nd.IH(2) [of q target] by (simp add: nodeat_sides find_append)
  next
    case False
    then show ?thesis
      using Nd.prems so step Nd.IH(1) [of q q] by (auto simp: nodeat_sides find_append found_def split: option.split)
  qed
qed

lemma upper_loop_ok:
  "rep s par t \<Longrightarrow> 0 \<notin> set (ptrs t) \<Longrightarrow> sorted_ents lt (ents t) \<Longrightarrow>
    upper_loop lt s value (rp t) target = Some (found target (List.find (\<lambda>e. lt value (snd e)) (ents t)))"
proof (induction t arbitrary: par target)
  case Lf
  show ?case by (subst upper_loop.simps) (simp add: found_def)
next
  case (Nd l q c n v r)
  have so: "sorted_ents lt (ents l)" "sorted_ents lt (ents r)" "\<forall>x \<in> set (ents l). lt (snd x) v"
    using Nd.prems(3) by (simp_all add: sorted_ents_append)
  note step = upper_loop.simps [of lt s "value" q target]
  show ?case
  proof (cases "lt value v")
    case False
    then have "List.find (\<lambda>e. lt value (snd e)) (ents l) = None"
      using so(3) trans by (intro find_none) blast
    then show ?thesis
      using False Nd.prems so step Nd.IH(2) [of q target] by (simp add: nodeat_sides find_append)
  next
    case True
    then show ?thesis
      using Nd.prems so step Nd.IH(1) [of q q] by (auto simp: nodeat_sides find_append found_def split: option.split)
  qed
qed

lemma rank_loop_ok:
  "rep s par t \<Longrightarrow> 0 \<notin> set (ptrs t) \<Longrightarrow> cnt_ok t \<Longrightarrow> sorted_ents lt (ents t) \<Longrightarrow>
     rank_loop lt s value (rp t) k = Some (k + length (filter (\<lambda>e. lt (snd e) value) (ents t)))"
proof (induction t arbitrary: par k)
  case Lf
  show ?case by (subst rank_loop.simps) simp
next
  case (Nd l q c n v r)
  have cl: "count_at s (rp l) = Some (length (ents l))"
    using Nd.prems rep_reads [of s q l] cnt_ents [of l] by simp
  have so: "sorted_ents lt (ents l)" "sorted_ents lt (ents r)" "\<forall>x \<in> set (ents l). lt (snd x) v"
      "\<forall>y \<in> set (ents r). lt v (snd y)"
    using Nd.prems(4) by (simp_all add: sorted_ents_append)
  note step = rank_loop.simps [of lt s "value" q k]
  consider "lt value v" | "\<not> lt value v" "lt v value" | "\<not> lt value v" "\<not> lt v value" by blast
  then show ?case
  proof cases
    case 1
    then have "\<forall>y \<in> set (ents r). \<not> lt (snd y) value" "\<not> lt v value" using so(4) trans irrefl by blast+
    then show ?thesis
      using 1 Nd.prems so step cl Nd.IH(1) [of q k] by (simp add: nodeat_sides filter_False)
  next
    case 2
    then have "\<forall>x \<in> set (ents l). lt (snd x) value" using so(3) trans by blast
    then show ?thesis
      using 2 Nd.prems so step cl Nd.IH(2) [of q "k + (1 + length (ents l))"] by (simp add: nodeat_sides filter_True)
  next
    case 3
    then have "\<forall>x \<in> set (ents l). lt (snd x) value" "\<forall>y \<in> set (ents r). \<not> lt (snd y) value"
      using so(3,4) less_incomp asym incomp_less by blast+
    then show ?thesis
      using 3 Nd.prems step cl by (simp add: nodeat_sides filter_True filter_False)
  qed
qed

end

lemma descend_ok:
  "rep s par t \<Longrightarrow> 0 \<notin> set (ptrs t) \<Longrightarrow> t \<noteq> Lf \<Longrightarrow>
     descend d s (rp t) = Some (fst (if d then hd (ents t) else last (ents t)))"
proof (induction t arbitrary: par)
  case (Nd l q c n v r)
  note step = descend.simps [of d s q]
  have sd: "child d (nodeat True c par (rp l) (rp r) n v) = (if d then rp l else rp r)"
    by (simp add: child_def nodeat_sides)
  have z: "rp l = 0 \<longleftrightarrow> l = Lf" "rp r = 0 \<longleftrightarrow> r = Lf" using Nd.prems(2) rp_in [of l] rp_in [of r] by auto
  have ne: "ents t = [] \<longleftrightarrow> t = Lf" for t :: "'a rt" by (cases t) simp_all
  show ?case
    using Nd.prems step sd z ne [of l] ne [of r] Nd.IH(1) [of q] Nd.IH(2) [of q]
    by (cases d) auto
qed simp

section \<open>The set and its entries\<close>

lemma plug_append: "plug t (fs @ gs) = plug (plug t fs) gs"
  by (induction t fs rule: plug.induct) simp_all

lemma lents_append: "lents (fs @ gs) = lents gs @ lents fs" "rents (fs @ gs) = rents fs @ rents gs"
  by (induction fs rule: lents.induct) simp_all

text \<open>Every entry is the root of a subtree.\<close>

lemma ents_zip:
  "(q, v) \<in> set (ents t) \<Longrightarrow> \<exists>l c n r fs. t = plug (Nd l q c n v r) fs"
proof (induction t)
  case (Nd l p c n w r)
  consider "q = p" "v = w" | "(q, v) \<in> set (ents l)" | "(q, v) \<in> set (ents r)" using Nd.prems by auto
  then show ?case
  proof cases
    case 1
    then have "Nd l p c n w r = plug (Nd l q c n v r) []" by simp
    then show ?thesis by blast
  next
    case 2
    from Nd.IH(1) [OF this] obtain l' c' n' r' fs where l: "l = plug (Nd l' q c' n' v r') fs" by blast
    then have "Nd l p c n w r = plug (Nd l' q c' n' v r') (fs @ [Fr True p c n w r])" by (simp add: plug_append mk_def)
    then show ?thesis by blast
  next
    case 3
    from Nd.IH(2) [OF this] obtain l' c' n' r' fs where r: "r = plug (Nd l' q c' n' v r') fs" by blast
    then have "Nd l p c n w r = plug (Nd l' q c' n' v r') (fs @ [Fr False p c n w l])" by (simp add: plug_append mk_def)
    then show ?thesis by blast
  qed
qed simp

definition first :: "nat \<Rightarrow> (nat \<times> 'a) list \<Rightarrow> nat" where
  "first h es = (if es = [] then h else fst (List.hd es))"

definition final :: "nat \<Rightarrow> (nat \<times> 'a) list \<Rightarrow> nat" where
  "final h es = (if es = [] then h else fst (List.last es))"

text \<open>
  The header records the first and the last node and the number of nodes; the store holds the
  header and the nodes of the tree, and nothing else; every address in use is below the next one.
\<close>

definition header_ok :: "nat \<Rightarrow> 'a rb_node \<Rightarrow> (nat \<times> 'a) list \<Rightarrow> bool" where
  "header_ok h H es \<longleftrightarrow> n_red H \<and> n_left H = first h es \<and> n_right H = final h es \<and> n_count H = length es"

definition rset :: "('a \<Rightarrow> 'a \<Rightarrow> bool) \<Rightarrow> 'a rank_set \<Rightarrow> 'a rt \<Rightarrow> bool" where
  "rset lt r t \<longleftrightarrow> (\<exists>H. at (rs_store r) (rs_header r) H t [] \<and> header_ok (rs_header r) H (ents t)) \<and>
     dom (rs_store r) = insert (rs_header r) (set (ptrs t)) \<and> (\<forall>p \<in> insert 0 (dom (rs_store r)). p < rs_brk r) \<and>
     cnt_ok t \<and> (\<exists>m. rb t m) \<and> \<not> isred t \<and> sorted_ents lt (ents t)"

definition holds :: "('a \<Rightarrow> 'a \<Rightarrow> bool) \<Rightarrow> 'a rank_set \<Rightarrow> (nat \<times> 'a) list \<Rightarrow> bool" where
  "holds lt r es \<longleftrightarrow> (\<exists>t. rset lt r t \<and> ents t = es)"

lemma holds_new: "holds lt (rs_new dflt) []"
proof -
  have "at (rs_store (rs_new dflt)) 1 \<lparr>n_red = True, n_parent = 0, n_left = 1, n_right = 1, n_count = 0, n_value = dflt\<rparr> Lf []"
    by (simp add: at_def rs_new_def own_def)
  then have "rset lt (rs_new dflt) Lf"
    by (auto simp: rset_def rs_new_def header_ok_def first_def final_def sorted_ents_def)
  then show ?thesis by (force simp: holds_def)
qed

text \<open>A change of the header that leaves its root pointer alone.\<close>

definition keeps_root :: "('a rb_node \<Rightarrow> 'a rb_node) \<Rightarrow> bool" where
  "keeps_root f \<longleftrightarrow> (\<forall>n p. f (n\<lparr>n_parent := p\<rparr>) = (f n)\<lparr>n_parent := p\<rparr>)"

lemma keeps_root_intros [simp]:
  "keeps_root (set_child d x)" "keeps_root (\<lambda>n. n\<lparr>n_count := g (n_count n)\<rparr>)" "keeps_root (\<lambda>n. n\<lparr>n_left := a, n_right := b\<rparr>)"
  by (simp_all add: keeps_root_def set_child_def)

lemma repc_header_upd:
  "repc s h H x fs \<Longrightarrow> keeps_root f \<Longrightarrow> h \<notin> set (cptrs fs) \<Longrightarrow>
     \<exists>n. s h = Some n \<and> repc (s(h \<mapsto> f n)) h (f H) x fs"
proof (induction fs arbitrary: x)
  case (Cons g fs)
  obtain d q c n v u where f': "g = Fr d q c n v u" by (cases g)
  have "repc s h H q fs" "h \<notin> set (cptrs fs)" "h \<noteq> q" "h \<notin> set (ptrs u)" using Cons.prems by (auto simp: f' cptrs_Fr)
  moreover obtain k where "s h = Some k" "repc (s(h \<mapsto> f k)) h (f H) q fs"
    using Cons.IH [OF calculation(1) Cons.prems(2) calculation(2)] by blast
  moreover have "s q = Some (nodeat d c (top h fs) x (rp u) n v)" "rep s q u" using Cons.prems(1) by (simp_all add: f')
  ultimately have "(s(h \<mapsto> f k)) q = Some (nodeat d c (top h fs) x (rp u) n v)" "rep (s(h \<mapsto> f k)) q u"
      "repc (s(h \<mapsto> f k)) h (f H) q fs" "s h = Some k"
    by simp_all
  then show ?case unfolding f' repc.simps by blast
qed (simp add: keeps_root_def)

lemma at_header:
  assumes "at s h H t fs" "keeps_root f"
  shows "\<exists>s'. upd s h f = Some s' \<and> at s' h (f H) t fs \<and> dom s' = dom s"
proof -
  have a: "rep s (top h fs) t" "repc s h H (rp t) fs" "own h t fs" using assms(1) by (simp_all add: at_def)
  then have h: "h \<notin> set (ptrs t)" "h \<notin> set (cptrs fs)" by (auto simp: own_def)
  obtain n where n: "s h = Some n" "repc (s(h \<mapsto> f n)) h (f H) (rp t) fs"
    using repc_header_upd [OF a(2) assms(2) h(2)] by blast
  then show ?thesis using a h by (intro exI [of _ "s(h \<mapsto> f n)"]) (auto simp: at_def)
qed

text \<open>The root pointer and the other fields of the header.\<close>

lemma at_root:
  assumes "at s h H t []"
  shows "s h = Some (H\<lparr>n_parent := rp t\<rparr>)"
  using assms by (simp add: at_def)

section \<open>A new leaf\<close>

definition leaf :: "nat \<Rightarrow> 'a \<Rightarrow> 'a rt" where
  "leaf x v = Nd Lf x True 0 v Lf"

text \<open>A new node becomes the missing child \<open>d\<close> of \<open>q\<close>.\<close>

lemma attach:
  assumes a: "at s h H Lf (Fr d q c n v u # fs)" and x: "x \<notin> dom s" "x \<noteq> 0"
  shows "\<exists>s'. upd (s(x \<mapsto> new_node q value)) q (set_child d x) = Some s' \<and>
    at s' h H (leaf x value) (Fr d q c n v u # fs) \<and> dom s' = insert x (dom s)"
proof -
  have s: "s q = Some (nodeat d c (top h fs) 0 (rp u) n v)" "rep s q u" "repc s h H q fs"
    and own: "own h Lf (Fr d q c n v u # fs)"
    using a by (simp_all add: at_def)
  have pt: "q \<notin> set (ptrs u)" "q \<noteq> h" "q \<notin> set (cptrs fs)" using own by (auto simp: own_def cptrs_Fr)
  have nx: "x \<notin> set (ptrs u)" "x \<noteq> q" "x \<noteq> h" "x \<notin> set (cptrs fs)"
    using x(1) rep_dom [OF s(2)] repc_dom [OF s(3)] s(1) by auto
  let ?s = "s(x \<mapsto> new_node q value, q \<mapsto> nodeat d c (top h fs) x (rp u) n v)"
  have "upd (s(x \<mapsto> new_node q value)) q (set_child d x) = Some ?s" using s(1) nx by simp
  moreover have "own h (leaf x value) (Fr d q c n v u # fs)"
    using own nx x(2) by (auto simp: own_def cptrs_Fr leaf_def)
  then have "at ?s h H (leaf x value) (Fr d q c n v u # fs)"
    using s pt nx by (simp add: at_def leaf_def) (simp add: new_node_def nodeat_def)
  moreover have "dom ?s = insert x (dom s)" using s(1) by auto
  ultimately show ?thesis by blast
qed

end
