(* ===== verification/RankInsert.thy ===== *)
theory RankInsert
  imports RankStore
begin

text \<open>
  The repair of the red-black condition after an insertion (\<open>insertNodeFixup\<close>).
\<close>

lemma at_plug_all: "at s h H t fs \<longleftrightarrow> at s h H (plug t fs) []"
proof (induction fs arbitrary: t)
  case (Cons f fs)
  obtain d q c n v u where f: "f = Fr d q c n v u" by (cases f)
  then show ?case using Cons.IH [of "mk d q c n v t u"] at_plug [of s h H d q c n v t u fs] by simp
qed simp

lemma cnt_ok_plug: "cnt_ok (plug t fs) \<Longrightarrow> cnt_ok t"
  using recount_id by blast

lemma cnt_ok_replace: "cnt_ok (plug t fs) \<Longrightarrow> cnt_ok t' \<Longrightarrow> cnt t' = cnt t \<Longrightarrow> cnt_ok (plug t' fs)"
  using recount_id [of t fs] cnt_ok_recount [of t' fs] by simp

section \<open>Sizes up to the root\<close>

lemma updateNodeCountToTop_ok:
  "at s h H t fs \<Longrightarrow> cnt_ok t \<Longrightarrow> sibs_ok fs \<Longrightarrow>
     \<exists>s'. updateNodeCountToTop h s (top h fs) = Some s' \<and> dom s' = dom s \<and> at s' h H t (recount (cnt t) fs)"
proof (induction fs arbitrary: s t)
  case Nil
  then show ?case by (subst updateNodeCountToTop.simps) simp
next
  case (Cons f fs)
  obtain d q c n v u where f: "f = Fr d q c n v u" by (cases f)
  have a: "at s h H (mk d q c n v t u) fs" using Cons.prems(1) by (simp add: f at_plug)
  then have own: "own h (mk d q c n v t u) fs" by (simp add: at_def)
  then have pt: "q \<noteq> h" "q \<notin> set (ptrs t)" "q \<notin> set (ptrs u)" "q \<notin> set (cptrs fs)" "0 \<notin> set (ptrs t)" "0 \<notin> set (ptrs u)"
    by (auto simp: own_def ptrs_mk)
  have s: "s q = Some (nodeat d c (top h fs) (rp t) (rp u) n v)" "rep s q t" "rep s q u" "repc s h H q fs"
    using a by (simp_all add: at_def rep_mk)
  let ?k = "cnt t + cnt u + 1"
  let ?s = "s(q \<mapsto> nodeat d c (top h fs) (rp t) (rp u) ?k v)"
  have u: "updateNodeCount s q = Some ?s" by (rule updateNodeCount_mk [OF s(1-3) pt(5,6)])
  have at': "at ?s h H (mk d q c ?k v t u) fs"
    using s pt own by (simp add: at_def rep_mk) (simp add: own_def ptrs_mk)
  have c: "cnt_ok (mk d q c ?k v t u)" "sibs_ok fs" using Cons.prems by (simp_all add: f cnt_ok_mk)
  obtain s' where s': "updateNodeCountToTop h ?s (top h fs) = Some s'" "dom s' = dom ?s"
      "at s' h H (mk d q c ?k v t u) (recount (cnt (mk d q c ?k v t u)) fs)"
    using Cons.IH [OF at' c] by blast
  have "updateNodeCountToTop h s q = Some s'"
    using u s'(1) pt(1) by (subst updateNodeCountToTop.simps) simp
  then show ?case using s' s(1) by (auto simp: f at_plug)
qed

section \<open>The repair after an insertion\<close>

lemma repc_not_root:
  assumes "at s h H t (f # fs)"
  shows "\<exists>hd. s h = Some hd \<and> rp t \<noteq> n_parent hd \<or> t = Lf"
proof -
  have "repc s h H (rp t) (f # fs)" "own h t (f # fs)" using assms by (simp_all add: at_def)
  then obtain r' where "s h = Some (H\<lparr>n_parent := r'\<rparr>)" "r' \<in> set (cptrs (f # fs))"
    using repc_header [of s h H "rp t" "f # fs"] by auto
  moreover have "t \<noteq> Lf \<Longrightarrow> rp t \<notin> set (cptrs (f # fs))"
    using \<open>own h t (f # fs)\<close> rp_in [of t] by (auto simp: own_def)
  ultimately show ?thesis by (cases "t = Lf") auto
qed

text \<open>The state of the loop: a red tree in a context that takes its black height.\<close>

definition fix_inv :: "'a rt \<Rightarrow> 'a fr list \<Rightarrow> bool" where
  "fix_inv t fs \<longleftrightarrow> isred t \<and> cnt_ok (plug t fs) \<and> (\<exists>m. rb t m \<and> rbc fs m)"

text \<open>The last rotation, with \<open>p\<close> black and \<open>g\<close> red above the tree \<open>t\<close>.\<close>

definition rotate_last :: "bool \<Rightarrow> nat \<Rightarrow> 'a store \<Rightarrow> nat \<Rightarrow> 'a store option" where
  "rotate_last d h s p = do {
     s \<leftarrow> upd s p (set_red False);
     np \<leftarrow> s p;
     s \<leftarrow> upd s (n_parent np) (set_red True);
     rotate (\<not> d) h s (n_parent np) }"

lemma last_rotation:
  assumes a: "at s h H t (Fr d p True np vp u1 # Fr d g False ng vg u # fs)"
    and c: "cnt_ok (plug t (Fr d p True np vp u1 # Fr d g False ng vg u # fs))"
    and r: "rb t m" "rb u1 m" "rb u m" "\<not> isred u1" "\<not> isred u" "rbc fs (Suc m)" "isred t"
  shows "\<exists>s' fs'. rotate_last d h s p = Some s' \<and> dom s' = dom s \<and> at s' h H t fs' \<and> fix_inv t fs' \<and>
    ents (plug t fs') = ents (plug t (Fr d p True np vp u1 # Fr d g False ng vg u # fs)) \<and> length fs' = Suc (length fs)"
proof -
  let ?T = "\<lambda>cp cg. mk d g cg ng vg (mk d p cp np vp t u1) u"
  have a': "at s h H (?T True False) fs" using a by (simp add: at_plug)
  have own: "own h (?T True False) fs" using a' by (simp add: at_def)
  have pt: "p \<noteq> g" "p \<notin> set (ptrs t)" "p \<notin> set (ptrs u1)" "p \<notin> set (ptrs u)" "g \<notin> set (ptrs t)" "g \<notin> set (ptrs u1)"
      "g \<notin> set (ptrs u)" "p \<noteq> h" "g \<noteq> h" "p \<notin> set (cptrs fs)" "g \<notin> set (cptrs fs)"
    using own by (auto simp: own_def ptrs_mk)
  have s: "s g = Some (nodeat d False (top h fs) p (rp u) ng vg)" "s p = Some (nodeat d True g (rp t) (rp u1) np vp)"
      "rep s p t" "rep s p u1" "rep s g u" "repc s h H g fs"
    using a' by (simp_all add: at_def rep_mk)
  let ?s1 = "s(p \<mapsto> nodeat d False g (rp t) (rp u1) np vp)"
  let ?s2 = "?s1(g \<mapsto> nodeat d True (top h fs) p (rp u) ng vg)"
  have "at ?s2 h H (?T False True) fs"
    using s pt own by (simp add: at_def rep_mk) (simp add: own_def ptrs_mk)
  then have a2: "at ?s2 h H (mk (\<not> d) g True ng vg u (mk (\<not> d) p False np vp u1 t)) fs" by (simp add: mk_swap)
  obtain s' where s': "rotate (\<not> d) h ?s2 g = Some s'" "dom s' = dom ?s2"
      "at s' h H (mk (\<not> d) p False (cnt u + cnt u1 + 1 + cnt t + 1) vp (mk (\<not> d) g True (cnt u + cnt u1 + 1) vg u u1) t) fs"
    using rotate_ok [OF a2] by blast
  let ?fs = "Fr d p False (cnt u + cnt u1 + 1 + cnt t + 1) vp (mk (\<not> d) g True (cnt u + cnt u1 + 1) vg u u1) # fs"
  have "at s' h H t ?fs" using s'(3) at_plug [of s' h H d p False _ vp t] by (simp add: mk_swap)
  moreover have "cnt_ok (plug t ?fs)"
  proof -
    have "cnt_ok (?T True False)" using cnt_ok_plug c by simp
    then have "cnt_ok (mk d p False (cnt u + cnt u1 + 1 + cnt t + 1) vp t (mk (\<not> d) g True (cnt u + cnt u1 + 1) vg u u1))"
        "cnt (?T True False) = cnt u + cnt u1 + 1 + cnt t + 1"
      by (simp_all add: cnt_ok_mk)
    with cnt_ok_replace [of "?T True False" fs] c show ?thesis by simp
  qed
  moreover have "rbc ?fs m" using r by (simp add: rb_mk)
  moreover have "ents (plug t ?fs) = ents (plug t (Fr d p True np vp u1 # Fr d g False ng vg u # fs))"
    by (simp add: ents_plug ents_mk)
  moreover have "rotate_last d h s p = Some s'"
    using s pt s'(1) by (simp add: rotate_last_def)
  moreover have "dom s' = dom s" using s'(2) s by auto
  ultimately show ?thesis using r by (intro exI [of _ s'] exI [of _ ?fs]) (auto simp: fix_inv_def)
qed

lemma insert_turn_stop:
  assumes a: "at s h H t fs" and t: "t \<noteq> Lf" and stop: "fs = [] \<or> \<not> pred fs"
  shows "insertNodeFixup_turn h s (rp t) = Some None"
proof -
  obtain nx where x: "s (rp t) = Some nx" "n_parent nx = top h fs" using rep_root [of s "top h fs" t] a t by (auto simp: at_def)
  show ?thesis
  proof (cases fs)
    case Nil
    then have "s h = Some (H\<lparr>n_parent := rp t\<rparr>)" using a by (simp add: at_def)
    then show ?thesis using x by (simp add: insertNodeFixup_turn_def)
  next
    case (Cons f fs')
    obtain d q c n v u where f: "f = Fr d q c n v u" by (cases f)
    obtain hd where hd: "s h = Some hd" "rp t \<noteq> n_parent hd"
      using repc_not_root [of s h H t f fs'] a Cons t by auto
    have "s q = Some (nodeat d c (top h fs') (rp t) (rp u) n v)" using a by (simp add: at_def Cons f)
    then show ?thesis using x hd stop by (simp add: insertNodeFixup_turn_def Cons f)
  qed
qed

text \<open>What a turn computes under a red parent \<open>p\<close> and a grandparent \<open>g\<close>, by the colour of the uncle.\<close>

lemma insert_turn_eq:
  assumes a: "at s h H t (Fr d1 p True np vp u1 # Fr d g False ng vg u # fs)" and t: "t \<noteq> Lf"
  shows "insertNodeFixup_turn h s (rp t) =
    (if isred u then do {
       s \<leftarrow> upd s p (set_red False);
       s \<leftarrow> upd s (rp u) (set_red False);
       s \<leftarrow> upd s g (set_red True);
       Some (Some (s, g)) }
     else if d1 = d then do { s \<leftarrow> rotate_last d h s p; Some (Some (s, rp t)) }
     else do {
       s \<leftarrow> rotate d h s p;
       nx \<leftarrow> s p;
       s \<leftarrow> rotate_last d h s (n_parent nx);
       Some (Some (s, p)) })"
proof -
  obtain hd where hd: "s h = Some hd" "rp t \<noteq> n_parent hd" using repc_not_root [OF a] t by auto
  have own: "own h t (Fr d1 p True np vp u1 # Fr d g False ng vg u # fs)" and rt: "rep s p t"
    using a by (simp_all add: at_def)
  have s: "s p = Some (nodeat d1 True g (rp t) (rp u1) np vp)"
      "s g = Some (nodeat d False (top h fs) p (rp u) ng vg)" "rep s g u"
    using a by (simp_all add: at_def)
  have pt: "p \<noteq> 0" "p \<notin> set (ptrs u)" "0 \<notin> set (ptrs u)" "rp t \<notin> set (ptrs u1)" "rp t \<noteq> 0"
    using own t rp_in [of t] by (auto simp: own_def cptrs_Fr)
  obtain nx where x: "s (rp t) = Some nx" "n_parent nx = p" using rep_root [OF rt t] by auto
  have side: "(p = n_left (nodeat d False (top h fs) p (rp u) ng vg)) = d"
    using pt(1,2) rp_in [of u] by (auto simp: nodeat_sides)
  have u: "red_at s (rp u) = Some (isred u)" using rep_reads [OF s(3) pt(3)] by simp
  have ne: "rp t \<noteq> rp u1" using pt rp_in [of u1] by auto
  have inner: "(rp t = child (\<not> d) (nodeat d1 True g (rp t) (rp u1) np vp)) = (d1 \<noteq> d)"
    using ne by (auto simp: child_def nodeat_sides)
  show ?thesis
    using hd x s u side inner
    by (simp add: insertNodeFixup_turn_def rotate_last_def Let_def bind_assoc cong: if_cong)
qed

lemma turn_red:
  assumes a: "at s h H t (Fr d1 p True np vp u1 # Fr d g False ng vg u # fs)" and t: "t \<noteq> Lf" and u: "isred u"
  shows "\<exists>s'. insertNodeFixup_turn h s (rp t) = Some (Some (s', g)) \<and> dom s' = dom s \<and>
    at s' h H (mk d g True ng vg (mk d1 p False np vp t u1) (blacken u)) fs"
proof -
  have own: "own h t (Fr d1 p True np vp u1 # Fr d g False ng vg u # fs)" and rt: "rep s p t"
    using a by (simp_all add: at_def)
  have own': "own h (mk d g True ng vg (mk d1 p False np vp t u1) (blacken u)) fs"
    using own by (auto simp: own_def ptrs_mk cptrs_Fr)
  have s: "s p = Some (nodeat d1 True g (rp t) (rp u1) np vp)" "rep s p u1"
      "s g = Some (nodeat d False (top h fs) p (rp u) ng vg)" "rep s g u" "repc s h H g fs"
    using a by (simp_all add: at_def)
  have pt: "p \<noteq> g" "p \<notin> set (ptrs t)" "p \<notin> set (ptrs u1)" "p \<notin> set (ptrs u)" "g \<notin> set (ptrs t)" "g \<notin> set (ptrs u1)"
      "g \<notin> set (ptrs u)" "p \<noteq> h" "g \<noteq> h" "p \<notin> set (cptrs fs)" "g \<notin> set (cptrs fs)" "distinct (ptrs u)"
      "set (ptrs u) \<inter> set (ptrs t) = {}" "set (ptrs u) \<inter> set (ptrs u1) = {}" "h \<notin> set (ptrs u)"
      "set (ptrs u) \<inter> set (cptrs fs) = {}"
    using own by (auto simp: own_def cptrs_Fr)
  have ul: "u \<noteq> Lf" using u by auto
  let ?s1 = "s(p \<mapsto> nodeat d1 False g (rp t) (rp u1) np vp)"
  have "rep ?s1 g u" using s(4) pt by simp
  then obtain s2 where s2: "upd ?s1 (rp u) (set_red False) = Some s2" "rep s2 g (blacken u)"
      "\<forall>q. q \<noteq> rp u \<longrightarrow> s2 q = ?s1 q" "dom s2 = dom ?s1"
    using rep_set_red [of ?s1 g u False] ul pt by auto
  let ?s3 = "s2(g \<mapsto> nodeat d True (top h fs) p (rp u) ng vg)"
  have ru: "rp u \<in> set (ptrs u)" using rp_in [of u] ul by auto
  have ne: "g \<noteq> rp u" "p \<noteq> rp u" "h \<noteq> rp u" using ru pt by auto
  have e2: "s2 g = Some (nodeat d False (top h fs) p (rp u) ng vg)" "s2 p = Some (nodeat d1 False g (rp t) (rp u1) np vp)"
    using s2(3) s ne pt by simp_all
  have *: "s2 q = s q" if "q \<in> set (ptrs t) \<union> set (ptrs u1) \<union> insert h (set (cptrs fs))" for q
  proof -
    have "q \<noteq> rp u" "q \<noteq> p" using that ru pt by blast+
    then show ?thesis using s2(3) by simp
  qed
  have "rep s2 p t = rep s p t" "rep s2 p u1 = rep s p u1" "repc s2 h H g fs = repc s h H g fs"
    by (intro rep_cong repc_cong *; blast)+
  then have "at ?s3 h H (mk d g True ng vg (mk d1 p False np vp t u1) (blacken u)) fs"
    using s rt s2(2) e2 pt own' by (simp add: at_def rep_mk)
  moreover have "insertNodeFixup_turn h s (rp t) = Some (Some (?s3, g))"
    using insert_turn_eq [OF a t] u s s2(1) e2 by simp
  moreover have "dom ?s3 = dom s" using s2(4) s e2 by auto
  ultimately show ?thesis by blast
qed

lemma insert_turn_red:
  assumes a: "at s h H t (Fr d1 p True np vp u1 # Fr d g False ng vg u # fs)"
    and inv: "fix_inv t (Fr d1 p True np vp u1 # Fr d g False ng vg u # fs)" and u: "isred u"
  shows "\<exists>s' t'. insertNodeFixup_turn h s (rp t) = Some (Some (s', rp t')) \<and> dom s' = dom s \<and> at s' h H t' fs \<and>
    fix_inv t' fs \<and> ents (plug t' fs) = ents (plug t (Fr d1 p True np vp u1 # Fr d g False ng vg u # fs))"
proof -
  let ?t = "mk d g True ng vg (mk d1 p False np vp t u1) (blacken u)"
  obtain m where m: "isred t" "rb t m" "rb u1 m" "\<not> isred u1" "rb u m" "rbc fs (Suc m)"
    using inv by (auto simp: fix_inv_def)
  have "t \<noteq> Lf" using m(1) by auto
  then obtain s' where s': "insertNodeFixup_turn h s (rp t) = Some (Some (s', g))" "dom s' = dom s" "at s' h H ?t fs"
    using turn_red [OF a _ u] by blast
  have p: "cnt_ok (plug (mk d g False ng vg (mk d1 p True np vp t u1) u) fs)" using inv by (simp add: fix_inv_def)
  then have "cnt_ok (mk d g False ng vg (mk d1 p True np vp t u1) u)" by (rule cnt_ok_plug)
  then have "cnt_ok ?t" by (simp add: cnt_ok_mk)
  with cnt_ok_replace [OF p] have c: "cnt_ok (plug ?t fs)" by simp
  have "rb (blacken u) (Suc m)" using m(5) u by (cases u) auto
  then have "rb ?t (Suc m)" using m by (simp add: rb_mk)
  with c m(6) have "fix_inv ?t fs" by (auto simp: fix_inv_def)
  moreover have "ents (plug ?t fs) = ents (plug t (Fr d1 p True np vp u1 # Fr d g False ng vg u # fs))"
    by (simp add: ents_plug ents_mk)
  ultimately show ?thesis using s' by (intro exI [of _ s'] exI [of _ ?t]) simp
qed

lemma mk_of_ne:
  assumes "t \<noteq> Lf"
  obtains a q n v b where "t = mk d q (isred t) n v a b"
proof (cases t)
  case (Nd l q c n v r)
  show ?thesis
  proof (cases d)
    case True
    then show ?thesis using Nd that [of q n v l r] by (simp add: mk_def)
  next
    case False
    then show ?thesis using Nd that [of q n v r l] by (simp add: mk_def)
  qed
qed (use assms in simp)

lemma pred_cases:
  assumes "pred fs"  "fs \<noteq> []"
  obtains d q n v u fs' where "fs = Fr d q True n v u # fs'"
proof -
  obtain f fs' where fs: "fs = f # fs'" using assms(2) by (cases fs) auto
  then show thesis using assms(1) that by (cases f) simp
qed

lemma not_pred_cases:
  assumes "\<not> pred fs"
  obtains d q n v u fs' where "fs = Fr d q False n v u # fs'"
proof -
  obtain f fs' where fs: "fs = f # fs'" using assms by (cases fs) auto
  then show thesis using assms that by (cases f) simp
qed

lemma insert_turn_outer:
  assumes a: "at s h H t (Fr d p True np vp u1 # Fr d g False ng vg u # fs)"
    and inv: "fix_inv t (Fr d p True np vp u1 # Fr d g False ng vg u # fs)" and u: "\<not> isred u"
  shows "\<exists>s' fs'. insertNodeFixup_turn h s (rp t) = Some (Some (s', rp t)) \<and> dom s' = dom s \<and> at s' h H t fs' \<and>
    fix_inv t fs' \<and> ents (plug t fs') = ents (plug t (Fr d p True np vp u1 # Fr d g False ng vg u # fs)) \<and>
    length fs' = Suc (length fs)"
proof -
  obtain m where m: "isred t" "rb t m" "rb u1 m" "\<not> isred u1" "rb u m" "rbc fs (Suc m)"
    using inv by (auto simp: fix_inv_def)
  have c: "cnt_ok (plug t (Fr d p True np vp u1 # Fr d g False ng vg u # fs))" using inv by (simp add: fix_inv_def)
  have t: "t \<noteq> Lf" using m(1) by auto
  obtain s' fs' where s': "rotate_last d h s p = Some s'" "dom s' = dom s" "at s' h H t fs'" "fix_inv t fs'"
      "ents (plug t fs') = ents (plug t (Fr d p True np vp u1 # Fr d g False ng vg u # fs))" "length fs' = Suc (length fs)"
    using last_rotation [OF a c m(2,3,5,4) u m(6,1)] by blast
  then show ?thesis using insert_turn_eq [OF a t] u by (intro exI [of _ s'] exI [of _ fs']) simp
qed

lemma insert_turn_inner:
  assumes a: "at s h H t (Fr (\<not> d) p True np vp u1 # Fr d g False ng vg u # fs)"
    and inv: "fix_inv t (Fr (\<not> d) p True np vp u1 # Fr d g False ng vg u # fs)" and u: "\<not> isred u"
  shows "\<exists>s' t' fs'. insertNodeFixup_turn h s (rp t) = Some (Some (s', rp t')) \<and> dom s' = dom s \<and> at s' h H t' fs' \<and>
    fix_inv t' fs' \<and> ents (plug t' fs') = ents (plug t (Fr (\<not> d) p True np vp u1 # Fr d g False ng vg u # fs)) \<and>
    length fs' = Suc (length fs)"
proof -
  let ?fs1 = "Fr d g False ng vg u # fs"
  obtain m where m: "isred t" "rb t m" "rb u1 m" "\<not> isred u1" "rb u m" "rbc fs (Suc m)"
    using inv by (auto simp: fix_inv_def)
  have c: "cnt_ok (plug t (Fr (\<not> d) p True np vp u1 # ?fs1))" using inv by (simp add: fix_inv_def)
  have t: "t \<noteq> Lf" using m(1) by auto
  obtain t1 x nt vt t2 where te': "t = mk d x (isred t) nt vt t1 t2" using t by (rule mk_of_ne [of t d])
  then have te: "t = mk d x True nt vt t1 t2" using m(1) by simp
  have rt: "rb t1 m" "rb t2 m" "\<not> isred t1" "\<not> isred t2" using m(2) by (simp_all add: te rb_mk)
  have ar: "at s h H (mk d p True np vp u1 (mk d x True nt vt t1 t2)) ?fs1"
    using a at_plug [of s h H "\<not> d" p True np vp t u1 ?fs1] by (simp add: te mk_swap)
  obtain s1 where s1: "rotate d h s p = Some s1" "dom s1 = dom s"
      "at s1 h H (mk d x True (cnt u1 + cnt t1 + 1 + cnt t2 + 1) vt (mk d p True (cnt u1 + cnt t1 + 1) vp u1 t1) t2) ?fs1"
    using rotate_ok [OF ar] by blast
  let ?t = "mk d p True (cnt u1 + cnt t1 + 1) vp u1 t1"
  let ?n = "cnt u1 + cnt t1 + 1 + cnt t2 + 1"
  let ?fs = "Fr d x True ?n vt t2 # ?fs1"
  have a1: "at s1 h H ?t ?fs" using s1(3) by (simp add: at_plug)
  have c1: "cnt_ok (plug ?t ?fs)"
  proof -
    have p: "cnt_ok (plug (mk (\<not> d) p True np vp t u1) ?fs1)" using c by simp
    then have "cnt_ok (mk (\<not> d) p True np vp t u1)" by (rule cnt_ok_plug)
    then have "cnt_ok (mk d x True ?n vt ?t t2)" "cnt (mk d x True ?n vt ?t t2) = cnt (mk (\<not> d) p True np vp t u1)"
      by (simp_all add: te cnt_ok_mk)
    with cnt_ok_replace [OF p] show ?thesis by simp
  qed
  have rbt: "rb ?t m" "isred ?t" using rt m by (simp_all add: rb_mk)
  obtain s' fs' where s': "rotate_last d h s1 x = Some s'" "dom s' = dom s1" "at s' h H ?t fs'" "fix_inv ?t fs'"
      "ents (plug ?t fs') = ents (plug ?t ?fs)" "length fs' = Suc (length fs)"
    using last_rotation [OF a1 c1 rbt(1) rt(2) m(5) rt(4) u m(6) rbt(2)] by blast
  have "s1 p = Some (nodeat d True x (rp u1) (rp t1) (cnt u1 + cnt t1 + 1) vp)"
    using s1(3) by (simp add: at_def rep_mk)
  then have "insertNodeFixup_turn h s (rp t) = Some (Some (s', p))"
    using insert_turn_eq [OF a t] u s1(1) s'(1) by simp
  moreover have "ents (plug ?t ?fs) = ents (plug t (Fr (\<not> d) p True np vp u1 # ?fs1))"
    by (simp add: te ents_plug ents_mk)
  ultimately show ?thesis using s' s1(2) by (intro exI [of _ s'] exI [of _ ?t] exI [of _ fs']) simp
qed

lemma insert_turn:
  assumes a: "at s h H t fs" and inv: "fix_inv t fs" and go: "fs \<noteq> []" "pred fs"
  shows "\<exists>s' t' fs'. insertNodeFixup_turn h s (rp t) = Some (Some (s', rp t')) \<and> dom s' = dom s \<and> at s' h H t' fs' \<and>
    fix_inv t' fs' \<and> ents (plug t' fs') = ents (plug t fs) \<and> length fs' < length fs"
proof -
  obtain d1 p np vp u1 fs1 where f: "fs = Fr d1 p True np vp u1 # fs1" using go(2,1) by (rule pred_cases)
  have "\<not> pred fs1" using inv by (auto simp: f fix_inv_def)
  then obtain d g ng vg u fs2 where g: "fs1 = Fr d g False ng vg u # fs2" by (rule not_pred_cases)
  note eq = f g
  have a': "at s h H t (Fr d1 p True np vp u1 # Fr d g False ng vg u # fs2)"
    and inv': "fix_inv t (Fr d1 p True np vp u1 # Fr d g False ng vg u # fs2)"
    using a inv by (simp_all only: eq)
  show ?thesis
  proof (cases "isred u")
    case True
    obtain s' t' where r: "insertNodeFixup_turn h s (rp t) = Some (Some (s', rp t'))" "dom s' = dom s" "at s' h H t' fs2"
        "fix_inv t' fs2" "ents (plug t' fs2) = ents (plug t (Fr d1 p True np vp u1 # Fr d g False ng vg u # fs2))"
      using insert_turn_red [OF a' inv' True] by blast
    show ?thesis
      by (rule exI [of _ s'], rule exI [of _ t'], rule exI [of _ fs2], unfold eq, intro conjI r) simp
  next
    case False
    show ?thesis
    proof (cases "d1 = d")
      case True
      obtain s' fs' where r: "insertNodeFixup_turn h s (rp t) = Some (Some (s', rp t))" "dom s' = dom s" "at s' h H t fs'"
          "fix_inv t fs'" "ents (plug t fs') = ents (plug t (Fr d1 p True np vp u1 # Fr d g False ng vg u # fs2))"
          "length fs' = Suc (length fs2)"
        using insert_turn_outer [OF a' [unfolded True] inv' [unfolded True] False] unfolding True by blast
      show ?thesis
        by (rule exI [of _ s'], rule exI [of _ t], rule exI [of _ fs'], unfold eq, intro conjI r(1-5)) (simp add: r(6))
    next
      case ne: False
      then have d1: "d1 = (\<not> d)" by simp
      obtain s' t' fs' where r: "insertNodeFixup_turn h s (rp t) = Some (Some (s', rp t'))" "dom s' = dom s" "at s' h H t' fs'"
          "fix_inv t' fs'" "ents (plug t' fs') = ents (plug t (Fr d1 p True np vp u1 # Fr d g False ng vg u # fs2))"
          "length fs' = Suc (length fs2)"
        using insert_turn_inner [OF a' [unfolded d1] inv' [unfolded d1] False] unfolding d1 by blast
      show ?thesis
        by (rule exI [of _ s'], rule exI [of _ t'], rule exI [of _ fs'], unfold eq, intro conjI r(1-5)) (simp add: r(6))
    qed
  qed
qed

lemma insert_loop:
  "at s h H t fs \<Longrightarrow> fix_inv t fs \<Longrightarrow>
     \<exists>s' t' fs'. insertNodeFixup_loop h s (rp t) = Some (s', rp t') \<and> dom s' = dom s \<and> at s' h H t' fs' \<and>
       fix_inv t' fs' \<and> ents (plug t' fs') = ents (plug t fs) \<and> (fs' = [] \<or> \<not> pred fs')"
proof (induction "length fs" arbitrary: s t fs rule: less_induct)
  case less
  show ?case
  proof (cases "fs = [] \<or> \<not> pred fs")
    case True
    have "t \<noteq> Lf" using less.prems(2) by (auto simp: fix_inv_def)
    then have "insertNodeFixup_turn h s (rp t) = Some None" using insert_turn_stop [OF less.prems(1) _ True] by blast
    then have "insertNodeFixup_loop h s (rp t) = Some (s, rp t)" by (subst insertNodeFixup_loop.simps) simp
    with True less.prems show ?thesis by blast
  next
    case False
    then obtain s1 t1 fs1 where r: "insertNodeFixup_turn h s (rp t) = Some (Some (s1, rp t1))" "dom s1 = dom s"
        "at s1 h H t1 fs1" "fix_inv t1 fs1" "ents (plug t1 fs1) = ents (plug t fs)" "length fs1 < length fs"
      using insert_turn [OF less.prems] by blast
    have "insertNodeFixup_loop h s (rp t) = insertNodeFixup_loop h s1 (rp t1)"
      using r(1) by (subst insertNodeFixup_loop.simps) simp
    with less.hyps [OF r(6,3,4)] r(2,5) show ?thesis by simp
  qed
qed

lemma plug_ne: "t \<noteq> Lf \<Longrightarrow> plug t fs \<noteq> Lf"
  by (induction t fs rule: plug.induct) simp_all

text \<open>The root becomes black.\<close>

lemma blacken_root:
  assumes "at s h H t []" "t \<noteq> Lf"
  shows "\<exists>s'. (do { hd \<leftarrow> s h; upd s (n_parent hd) (set_red False) }) = Some s' \<and> dom s' = dom s \<and> at s' h H (blacken t) []"
proof -
  have a: "rep s h t" "s h = Some (H\<lparr>n_parent := rp t\<rparr>)" "own h t []" using assms(1) by (simp_all add: at_def)
  have "distinct (ptrs t)" "h \<notin> set (ptrs t)" using a(3) by (auto simp: own_def)
  moreover obtain s' where s': "upd s (rp t) (set_red False) = Some s'" "rep s' h (blacken t)"
      "\<forall>p. p \<noteq> rp t \<longrightarrow> s' p = s p" "dom s' = dom s"
    using rep_set_red [OF a(1) assms(2), of False] calculation(1) by auto
  moreover have "rp t \<noteq> h" using rp_in [of t] assms(2) calculation(2) by auto
  ultimately show ?thesis using a by (intro exI [of _ s']) (auto simp: at_def own_def)
qed

lemma insertNodeFixup_ok:
  assumes a: "at s h H t fs" and inv: "fix_inv t fs"
  shows "\<exists>s' t'. insertNodeFixup h s (rp t) = Some s' \<and> dom s' = dom s \<and> at s' h H t' [] \<and>
    ents t' = ents (plug t fs) \<and> cnt_ok t' \<and> (\<exists>m. rb t' m) \<and> \<not> isred t'"
proof -
  obtain s1 t1 fs1 where r: "insertNodeFixup_loop h s (rp t) = Some (s1, rp t1)" "dom s1 = dom s" "at s1 h H t1 fs1"
      "fix_inv t1 fs1" "ents (plug t1 fs1) = ents (plug t fs)" "fs1 = [] \<or> \<not> pred fs1"
    using insert_loop [OF assms] by blast
  have i: "isred t1" "cnt_ok (plug t1 fs1)" using r(4) by (simp_all add: fix_inv_def)
  then have t1: "t1 \<noteq> Lf" by auto
  obtain a' x n v b where te': "t1 = mk True x (isred t1) n v a' b" using t1 by (rule mk_of_ne [of t1 True])
  define c where "c = isred t1"
  have te: "t1 = mk True x c n v a' b" unfolding c_def by (rule te')
  have "at s1 h H a' (Fr True x c n v b # fs1)" using r(3) by (simp add: te at_plug)
  moreover have k: "cnt_ok a'" "sibs_ok (Fr True x c n v b # fs1)" "recount (cnt a') (Fr True x c n v b # fs1) = Fr True x c n v b # fs1"
    using recount_id [of a' "Fr True x c n v b # fs1"] i(2) by (auto simp: te)
  ultimately obtain s2 where s2: "updateNodeCountToTop h s1 (rp t1) = Some s2" "dom s2 = dom s1"
      "at s2 h H a' (Fr True x c n v b # fs1)"
    using updateNodeCountToTop_ok [of s1 h H a' "Fr True x c n v b # fs1"] by (auto simp: te)
  have a2: "at s2 h H (plug t1 fs1) []" using s2(3) at_plug_all [of s2 h H a' "Fr True x c n v b # fs1"] by (simp add: te)
  have ne: "plug t1 fs1 \<noteq> Lf" using plug_ne t1 by blast
  obtain s3 where s3: "(do { hd \<leftarrow> s2 h; upd s2 (n_parent hd) (set_red False) }) = Some s3" "dom s3 = dom s2"
      "at s3 h H (blacken (plug t1 fs1)) []"
    using blacken_root [OF a2 ne] by blast
  have "\<exists>m. rb (blacken (plug t1 fs1)) m"
  proof -
    obtain m where m: "rb t1 m" "rbc fs1 m" using r(4) by (auto simp: fix_inv_def)
    show ?thesis
    proof (cases fs1)
      case Nil
      then show ?thesis using rb_blacken m(1) by simp
    next
      case (Cons f fs')
      then have "\<exists>m. rb (plug t1 fs1) m" using plug_rb [OF m] r(6) by auto
      then show ?thesis using rb_blacken by blast
    qed
  qed
  moreover have "insertNodeFixup h s (rp t) = Some s3" using r(1) s2(1) s3(1) by (simp add: insertNodeFixup_def)
  ultimately show ?thesis
    using s3 s2(2) r(2,5) i(2) by (intro exI [of _ s3] exI [of _ "blacken (plug t1 fs1)"]) simp
qed

lemma rb_hole: "rb (plug Lf fs) m \<Longrightarrow> \<not> isred (plug Lf fs) \<Longrightarrow> rbc fs 0"
  using rb_plug [of Lf fs m] by auto

text \<open>
  The common end: the sizes of the new node and its ancestors, the header's count, and the
  repair. \<open>fs\<close> is the context of the new leaf.
\<close>

lemma insert_finish_ok:
  assumes a: "at s (rs_header r) H (leaf (rs_brk r) value) fs"
    and inv: "cnt_ok (plug Lf fs)" "rbc fs 0"
  shows "\<exists>s' t'. insert_finish r s = Some (r\<lparr>rs_store := s', rs_brk := rs_brk r + 1\<rparr>, rs_brk r, True) \<and>
    at s' (rs_header r) (H\<lparr>n_count := n_count H + 1\<rparr>) t' [] \<and> dom s' = dom s \<and>
    ents t' = lents fs @ (rs_brk r, value) # rents fs \<and> cnt_ok t' \<and> (\<exists>m. rb t' m) \<and> \<not> isred t'"
proof -
  let ?h = "rs_header r" and ?x = "rs_brk r"
  let ?H = "H\<lparr>n_count := n_count H + 1\<rparr>"
  have a1: "at s ?h H Lf (Fr True ?x True 0 value Lf # fs)"
    using a at_plug [of s ?h H True ?x True 0 "value" Lf Lf fs] by (simp add: leaf_def mk_def)
  have k: "cnt_ok (Lf :: 'a rt)" "sibs_ok fs" using recount_id [OF inv(1)] by simp_all
  then have "sibs_ok (Fr True ?x True 0 value Lf # fs)" by simp
  from updateNodeCountToTop_ok [OF a1 k(1) this]
  obtain s1 where s1: "updateNodeCountToTop ?h s ?x = Some s1" "dom s1 = dom s"
      "at s1 ?h H Lf (Fr True ?x True 1 value Lf # recount 1 fs)"
    by (auto simp: numeral_eq_Suc)
  obtain s2 where s2: "upd s1 ?h (\<lambda>n. n\<lparr>n_count := n_count n + 1\<rparr>) = Some s2"
      "at s2 ?h ?H Lf (Fr True ?x True 1 value Lf # recount 1 fs)" "dom s2 = dom s1"
    using at_header [OF s1(3), of "\<lambda>n. n\<lparr>n_count := n_count n + 1\<rparr>"] keeps_root_intros(2) [of "\<lambda>k. k + 1"] by blast
  let ?t = "Nd Lf ?x True 1 value Lf"
  have a3: "at s2 ?h ?H ?t (recount 1 fs)"
    using s2(2) at_plug [of s2 ?h ?H True ?x True 1 "value" Lf Lf "recount 1 fs"] by (simp add: mk_def)
  have "cnt_ok ?t" by simp
  from cnt_ok_recount [OF this k(2)] have "cnt_ok (plug ?t (recount 1 fs))" by simp
  then have i: "fix_inv ?t (recount 1 fs)" using inv(2) by (auto simp: fix_inv_def)
  obtain s' t' where r: "insertNodeFixup ?h s2 ?x = Some s'" "dom s' = dom s2" "at s' ?h ?H t' []"
      "ents t' = ents (plug ?t (recount 1 fs))" "cnt_ok t'" "\<exists>m. rb t' m" "\<not> isred t'"
    using insertNodeFixup_ok [OF a3 i] by auto
  have "insert_finish r s = Some (r\<lparr>rs_store := s', rs_brk := ?x + 1\<rparr>, ?x, True)"
    using s1(1) s2(1) r(1) by (simp add: insert_finish_def Let_def)
  moreover have "ents t' = lents fs @ (?x, value) # rents fs" using r(4) by (simp add: ents_plug)
  ultimately show ?thesis using r s2(3) s1(2) by (intro exI [of _ s'] exI [of _ t']) simp
qed

text \<open>
  A leaf attached below \<open>q\<close>, the header's ends set by \<open>f\<close>: the result holds the entries with the
  new one between those left and right of the hole.
\<close>

lemma insert_at:
  assumes t: "rset lt r (plug Lf (Fr d q c n v u # fs))"
    and a: "at (rs_store r) (rs_header r) H (plug Lf (Fr d q c n v u # fs)) []"
    and f: "keeps_root f" "header_ok (rs_header r) ((f H)\<lparr>n_count := n_count (f H) + 1\<rparr>)
      (lents (Fr d q c n v u # fs) @ (rs_brk r, value) # rents (Fr d q c n v u # fs))"
    and so: "sorted_ents lt (lents (Fr d q c n v u # fs) @ (rs_brk r, value) # rents (Fr d q c n v u # fs))"
  shows "\<exists>s1 s2 r'. upd ((rs_store r)(rs_brk r \<mapsto> new_node q value)) q (set_child d (rs_brk r)) = Some s1 \<and>
    upd s1 (rs_header r) f = Some s2 \<and>
    insert_finish r s2 = Some (r', rs_brk r, True) \<and>
    holds lt r' (lents (Fr d q c n v u # fs) @ (rs_brk r, value) # rents (Fr d q c n v u # fs))"
proof -
  let ?h = "rs_header r" and ?x = "rs_brk r"
  let ?fs = "Fr d q c n v u # fs"
  have inv: "dom (rs_store r) = insert ?h (set (ptrs (plug Lf ?fs)))" "\<forall>p \<in> insert 0 (dom (rs_store r)). p < ?x"
      "cnt_ok (plug Lf ?fs)" "\<exists>m. rb (plug Lf ?fs) m" "\<not> isred (plug Lf ?fs)"
    using t by (simp_all add: rset_def)
  have x: "?x \<notin> dom (rs_store r)" "?x \<noteq> 0" using inv(2) by auto
  have a0: "at (rs_store r) ?h H Lf ?fs" using a at_plug_all by blast
  obtain s1 where s1: "upd ((rs_store r)(?x \<mapsto> new_node q value)) q (set_child d ?x) = Some s1"
      "at s1 ?h H (leaf ?x value) ?fs" "dom s1 = insert ?x (dom (rs_store r))"
    using attach [OF a0 x] by blast
  obtain s2 where s2: "upd s1 ?h f = Some s2" "at s2 ?h (f H) (leaf ?x value) ?fs" "dom s2 = dom s1"
    using at_header [OF s1(2) f(1)] by blast
  have "rbc ?fs 0" using inv(4,5) rb_hole by blast
  from insert_finish_ok [OF s2(2) inv(3) this] obtain s' t' where
    r: "insert_finish r s2 = Some (r\<lparr>rs_store := s', rs_brk := ?x + 1\<rparr>, ?x, True)"
      "at s' ?h ((f H)\<lparr>n_count := n_count (f H) + 1\<rparr>) t' []" "dom s' = dom s2"
      "ents t' = lents ?fs @ (?x, value) # rents ?fs" "cnt_ok t'" "\<exists>m. rb t' m" "\<not> isred t'"
    by blast
  let ?r = "r\<lparr>rs_store := s', rs_brk := ?x + 1\<rparr>"
  have "set (ptrs t') = insert ?x (set (ptrs (plug Lf ?fs)))"
    unfolding ptrs_def r(4) ents_plug by (simp del: lents.simps rents.simps plug.simps)
  then have "dom s' = insert ?h (set (ptrs t'))" using r(3) s2(3) s1(3) inv(1) by auto
  moreover have "\<forall>p \<in> insert 0 (dom s'). p < ?x + 1"
    using r(3) s2(3) s1(3) inv(2) by (auto simp: less_Suc_eq)
  ultimately have "rset lt ?r t'"
    using r f(2) so unfolding rset_def by (simp del: lents.simps rents.simps) blast
  then have "holds lt ?r (lents ?fs @ (?x, value) # rents ?fs)" using r(4) unfolding holds_def by blast
  then show ?thesis using s1(1) s2(1) r(1) by blast
qed

section \<open>Insertion as an operation on the entries\<close>

definition ins :: "('a \<Rightarrow> 'a \<Rightarrow> bool) \<Rightarrow> nat \<Rightarrow> 'a \<Rightarrow> (nat \<times> 'a) list \<Rightarrow> (nat \<times> 'a) list" where
  "ins lt x value es = takeWhile (\<lambda>e. lt (snd e) value) es @ (x, value) # dropWhile (\<lambda>e. lt (snd e) value) es"

lemma find_split:
  "List.find P es = Some e \<Longrightarrow> \<exists>A B. es = A @ e # B \<and> (\<forall>a \<in> set A. \<not> P a) \<and> P e"
proof (induction es)
  case (Cons a es)
  show ?case
  proof (cases "P a")
    case True
    then have "a # es = [] @ e # es" "P e" using Cons.prems by simp_all
    then show ?thesis by (metis empty_iff list.set(1))
  next
    case False
    then obtain A B where "es = A @ e # B" "\<forall>a \<in> set A. \<not> P a" "P e" using Cons by auto
    then have "a # es = (a # A) @ e # B" "\<forall>b \<in> set (a # A). \<not> P b" "P e" using False by simp_all
    then show ?thesis by blast
  qed
qed simp

lemma find_None_all: "List.find P es = None \<Longrightarrow> e \<in> set es \<Longrightarrow> \<not> P e"
  by (simp add: find_None_iff)

lemma ins_split: "(\<forall>a \<in> set A. lt (snd a) value) \<Longrightarrow> \<not> lt (snd e) value \<Longrightarrow> ins lt x value (A @ e # B) = A @ (x, value) # e # B"
  "(\<forall>a \<in> set A. lt (snd a) value) \<Longrightarrow> ins lt x value A = A @ [(x, value)]"
  by (simp_all add: ins_def takeWhile_append2 dropWhile_append2 takeWhile_eq_all_conv[THEN iffD2] dropWhile_eq_Nil_conv[THEN iffD2])

text \<open>The header after a new entry between \<open>A\<close> and \<open>B\<close>.\<close>

lemma header_new:
  assumes "header_ok h H (A @ B)" "n_red G = n_red H" "n_count G = n_count H + 1"
    "n_left G = (if A = [] then x else n_left H)" "n_right G = (if B = [] then x else n_right H)"
  shows "header_ok h G (A @ (x, value) # B)"
  using assms by (auto simp: header_ok_def first_def final_def hd_append)

context strict_weak
begin

lemma sorted_new:
  "sorted_ents lt (A @ B) \<Longrightarrow> (\<forall>a \<in> set A. lt (snd a) value) \<Longrightarrow> (\<forall>b \<in> set B. lt value (snd b)) \<Longrightarrow>
    sorted_ents lt (A @ (x, value) # B)"
  by (simp add: sorted_ents_append) (simp add: sorted_ents_def sorted_wrt_append)

lemma insert_first:
  assumes r: "rset lt r Lf"
  shows "\<exists>r'. insertNode lt r value = Some (r', rs_brk r, True) \<and> holds lt r' [(rs_brk r, value)]"
proof -
  let ?h = "rs_header r" and ?x = "rs_brk r" and ?s = "rs_store r"
  obtain H where H: "at ?s ?h H Lf []" "header_ok ?h H ([] :: (nat \<times> 'k) list)"
    and inv: "dom ?s = {?h}" "\<forall>p \<in> insert 0 (dom ?s). p < ?x"
    using r by (auto simp: rset_def)
  have x: "?x \<notin> dom ?s" "?x \<noteq> 0" "?x \<noteq> ?h" "?h \<noteq> 0" using inv H(1) by (auto simp: at_def own_def)
  have hd: "?s ?h = Some (H\<lparr>n_parent := 0\<rparr>)" using at_root [OF H(1)] by simp
  let ?H = "H\<lparr>n_left := ?x, n_right := ?x\<rparr>"
  let ?s1 = "?s(?x \<mapsto> new_node ?h value, ?h \<mapsto> ?H\<lparr>n_parent := ?x\<rparr>)"
  have u: "upd (?s(?x \<mapsto> new_node ?h value)) ?h (\<lambda>n. n\<lparr>n_parent := ?x, n_left := ?x, n_right := ?x\<rparr>) = Some ?s1"
    using hd x by (cases H) (simp add: upd_def)
  have a: "at ?s1 ?h ?H (leaf ?x value) []"
    using x by (simp add: at_def leaf_def own_def new_node_def nodeat_def)
  from insert_finish_ok [OF a] obtain s' t' where
    f: "insert_finish r ?s1 = Some (r\<lparr>rs_store := s', rs_brk := ?x + 1\<rparr>, ?x, True)"
      "at s' ?h (?H\<lparr>n_count := n_count ?H + 1\<rparr>) t' []" "dom s' = dom ?s1"
      "ents t' = [(?x, value)]" "cnt_ok t'" "\<exists>m. rb t' m" "\<not> isred t'"
    by auto
  have "header_ok ?h (?H\<lparr>n_count := n_count ?H + 1\<rparr>) [(?x, value)]"
    using H(2) by (simp add: header_ok_def first_def final_def)
  moreover have "dom s' = insert ?h (set (ptrs t'))" using f(3,4) inv(1) by (auto simp: ptrs_def)
  moreover have "\<forall>p \<in> insert 0 (dom s'). p < ?x + 1" using f(3) inv by auto
  moreover have "sorted_ents lt [(?x, value)]" by (simp add: sorted_ents_def)
  ultimately have "rset lt (r\<lparr>rs_store := s', rs_brk := ?x + 1\<rparr>) t'" using f by (auto simp: rset_def)
  moreover have "n_count H = 0" using H(2) by (simp add: header_ok_def)
  then have "insertNode lt r value = insert_finish r ?s1" using hd u by (simp add: insertNode_def Let_def)
  ultimately show ?thesis using f(1,4) by (auto simp: holds_def)
qed

end

lemma zip_last:
  assumes "ents (plug (Nd l q c n v r) fs) = A @ [(q, w)]" "distinct (ptrs (plug (Nd l q c n v r) fs))"
  shows "r = Lf \<and> rents fs = [] \<and> v = w \<and> A = lents fs @ ents l"
proof -
  have e: "lents fs @ ents l @ (q, v) # ents r @ rents fs = A @ [(q, w)]" using assms(1) by (simp add: ents_plug)
  have "ents r @ rents fs = []"
  proof (rule ccontr)
    assume ne: "ents r @ rents fs \<noteq> []"
    have "List.last (lents fs @ ents l @ (q, v) # ents r @ rents fs) = List.last (ents r @ rents fs)"
      using ne by (metis append_is_Nil_conv last_ConsR last_appendR list.distinct(1))
    then have "List.last (ents r @ rents fs) = (q, w)" unfolding e by simp
    then have "(q, w) \<in> set (ents r @ rents fs)" using last_in_set [OF ne] by simp
    then have "q \<in> fst ` set (ents r @ rents fs)" by force
    moreover have "q \<notin> fst ` set (ents r @ rents fs)"
      using assms(2) unfolding ptrs_def ents_plug by auto
    ultimately show False by simp
  qed
  then have "ents r = []" "rents fs = []" by simp_all
  moreover from this have "r = Lf" by (cases r) auto
  ultimately show ?thesis using e by simp
qed

lemma ents_zipE:
  assumes "e \<in> set (ents t)"
  obtains l c n r fs where "t = plug (Nd l (fst e) c n (snd e) r) fs"
  using ents_zip [of "fst e" "snd e" t] assms by auto

context strict_weak
begin

text \<open>What is known at the start of an operation on a set that is not empty.\<close>

lemma rset_open:
  assumes "rset lt r t"
  obtains H where "at (rs_store r) (rs_header r) H t []" "header_ok (rs_header r) H (ents t)"
    "rs_store r (rs_header r) = Some (H\<lparr>n_parent := rp t\<rparr>)" "0 \<notin> set (ptrs t)" "distinct (ptrs t)"
    "rs_header r \<notin> set (ptrs t)" "rep (rs_store r) (rs_header r) t"
proof -
  obtain H where H: "at (rs_store r) (rs_header r) H t []" "header_ok (rs_header r) H (ents t)"
    using assms by (auto simp: rset_def)
  moreover have "rep (rs_store r) (rs_header r) t" "own (rs_header r) t []" using H(1) by (simp_all add: at_def)
  ultimately show thesis using that at_root [OF H(1)] by (auto simp: own_def)
qed

lemma rset_search:
  assumes "rset lt r t" "rs_store r (rs_header r) = Some (H\<lparr>n_parent := rp t\<rparr>)"
  shows "search_loop lt (rs_store r) value (rp t) (rs_header r) =
    Some (found (rs_header r) (List.find (\<lambda>e. \<not> lt (snd e) value) (ents t)))"
proof -
  obtain H where "rep (rs_store r) (rs_header r) t" "0 \<notin> set (ptrs t)" using rset_open [OF assms(1)] by blast
  then show ?thesis using assms(1) by (intro search_loop_ok) (auto simp: rset_def)
qed

lemma upd_id: "s h = Some n \<Longrightarrow> upd s h (\<lambda>n. n) = Some s"
  by (simp add: upd_def fun_upd_idem)

lemma keeps_root_id [simp]: "keeps_root (\<lambda>n. n)"
  by (simp add: keeps_root_def)

text \<open>Insertion after the last entry.\<close>

lemma insert_end:
  assumes r: "rset lt r t" and t: "t \<noteq> Lf" and f: "List.find (\<lambda>e. \<not> lt (snd e) value) (ents t) = None"
  shows "\<exists>r'. insertNode lt r value = Some (r', rs_brk r, True) \<and> holds lt r' (ents t @ [(rs_brk r, value)])"
proof -
  let ?h = "rs_header r" and ?x = "rs_brk r" and ?s = "rs_store r"
  obtain H where H: "at ?s ?h H t []" "header_ok ?h H (ents t)" "?s ?h = Some (H\<lparr>n_parent := rp t\<rparr>)"
      "0 \<notin> set (ptrs t)" "distinct (ptrs t)" "?h \<notin> set (ptrs t)"
    using rset_open [OF r] by blast
  have ne: "ents t \<noteq> []" using t by (cases t) simp_all
  obtain q w where qw: "List.last (ents t) = (q, w)" by (cases "List.last (ents t)")
  then have A: "ents t = butlast (ents t) @ [(q, w)]" using append_butlast_last_id [OF ne] by simp
  have "List.last (ents t) \<in> set (ents t)" using ne by simp
  then obtain l c n u fs where z: "t = plug (Nd l q c n w u) fs" by (rule ents_zipE) (simp add: qw)
  have u: "u = Lf" "rents fs = []"
    using zip_last [OF A [unfolded z] H(5) [unfolded z]] by blast+
  let ?fs = "Fr False q c n w l # fs"
  have zt: "t = plug Lf ?fs" using u z by (simp add: mk_def)
  have e: "lents ?fs = ents t" "rents ?fs = []" using u zt ents_plug [of Lf ?fs] by simp_all
  have all: "\<forall>a \<in> set (ents t). lt (snd a) value" using find_None_all [OF f] by blast
  have h: "header_ok ?h ((set_child False ?x H)\<lparr>n_count := n_count (set_child False ?x H) + 1\<rparr>)
      (lents ?fs @ (?x, value) # rents ?fs)"
    unfolding e by (rule header_new [where H = H]) (use H(2) ne in \<open>simp_all add: set_child_def\<close>)
  have so: "sorted_ents lt (lents ?fs @ (?x, value) # rents ?fs)"
    unfolding e using r all by (intro sorted_new) (auto simp: rset_def)
  from insert_at [OF r [unfolded zt] H(1) [unfolded zt] keeps_root_intros(1) h so] obtain s1 s2 r' where
    i: "upd (?s(?x \<mapsto> new_node q value)) q (set_child False ?x) = Some s1" "upd s1 ?h (set_child False ?x) = Some s2"
      "insert_finish r s2 = Some (r', ?x, True)" "holds lt r' (lents ?fs @ (?x, value) # rents ?fs)"
    by blast
  have c: "n_count H \<noteq> 0" "n_right H = q" using H(2) ne qw by (simp_all add: header_ok_def final_def)
  have "search_loop lt ?s value (rp t) ?h = Some ?h" using rset_search [OF r H(3)] f by (simp add: found_def)
  then have "insertNode lt r value = Some (r', ?x, True)"
    using H(3) c i(1-3) by (simp add: insertNode_def Let_def)
  then show ?thesis using i(4) unfolding e by blast
qed

text \<open>The value is there already.\<close>

lemma insert_found:
  assumes r: "rset lt r t" and f: "List.find (\<lambda>e. \<not> lt (snd e) value) (ents t) = Some e" and eq: "\<not> lt value (snd e)"
  shows "insertNode lt r value = Some (r, fst e, False)"
proof -
  let ?h = "rs_header r" and ?s = "rs_store r"
  obtain H where H: "at ?s ?h H t []" "header_ok ?h H (ents t)" "?s ?h = Some (H\<lparr>n_parent := rp t\<rparr>)"
      "0 \<notin> set (ptrs t)" "distinct (ptrs t)" "?h \<notin> set (ptrs t)"
    using rset_open [OF r] by blast
  have m: "e \<in> set (ents t)" using find_split [OF f] by force
  then obtain l c n u fs where z: "t = plug (Nd l (fst e) c n (snd e) u) fs" by (rule ents_zipE)
  have "at ?s ?h H (Nd l (fst e) c n (snd e) u) fs" using H(1) at_plug_all unfolding z by blast
  then have s: "?s (fst e) = Some (nodeat True c (top ?h fs) (rp l) (rp u) n (snd e))" by (simp add: at_def)
  have "fst e \<in> set (ptrs t)" using m by (simp add: ptrs_def)
  then have "fst e \<noteq> ?h" using H(6) by auto
  moreover have "search_loop lt ?s value (rp t) ?h = Some (fst e)" using rset_search [OF r H(3)] f by (simp add: found_def)
  moreover have "n_count H \<noteq> 0" using H(2) m by (auto simp: header_ok_def)
  ultimately show ?thesis using H(3) s eq by (simp add: insertNode_def Let_def)
qed

end

lemma ents_distinct: "distinct (ptrs t) \<Longrightarrow> ents t = A @ e # B \<Longrightarrow> e \<notin> set A \<and> e \<notin> set B"
  by (force simp: ptrs_def)

lemma split_unique:
  "distinct (ptrs t) \<Longrightarrow> ents t = A @ e # B \<Longrightarrow> ents t = A' @ e # B' \<Longrightarrow> A = A' \<and> B = B'"
  using ents_distinct [of t A e B] append_Cons_eq_iff [of e A B A' B'] by simp

lemma zip_split: "ents (plug (Nd l q c n v r) fs) = (lents fs @ ents l) @ (q, v) # (ents r @ rents fs)"
  by (simp add: ents_plug)

context strict_weak
begin

lemma find_position:
  assumes r: "rset lt r t" and f: "List.find (\<lambda>e. \<not> lt (snd e) value) (ents t) = Some e" and s: "ents t = A @ e # B"
  shows "\<forall>a \<in> set A. lt (snd a) value"
proof -
  obtain A' B' where *: "ents t = A' @ e # B'" "\<forall>a \<in> set A'. \<not> \<not> lt (snd a) value" using find_split [OF f] by blast
  have "distinct (ptrs t)" using rset_open [OF r] by blast
  from split_unique [OF this s *(1)] *(2) show ?thesis by simp
qed

text \<open>
  Insertion before the entry \<open>e\<close>: the new leaf goes into the hole of a context whose nodes on the
  left are those before \<open>e\<close>.
\<close>

lemma insert_before:
  assumes r: "rset lt r t" and a: "at (rs_store r) (rs_header r) H t []" "header_ok (rs_header r) H (ents t)"
    and f: "List.find (\<lambda>e. \<not> lt (snd e) value) (ents t) = Some e" and less: "lt value (snd e)"
    and z: "t = plug Lf (Fr d q c n v u # fs)" and g: "keeps_root g" "header_ok (rs_header r) H (A @ e # B) \<Longrightarrow>
      n_red (g H) = n_red H \<and> n_count (g H) = n_count H \<and> n_left (g H) = (if A = [] then rs_brk r else n_left H) \<and>
      n_right (g H) = n_right H"
    and e: "lents (Fr d q c n v u # fs) = A" "rents (Fr d q c n v u # fs) = e # B"
  shows "\<exists>s1 s2 r'. upd ((rs_store r)(rs_brk r \<mapsto> new_node q value)) q (set_child d (rs_brk r)) = Some s1 \<and>
    upd s1 (rs_header r) g = Some s2 \<and> insert_finish r s2 = Some (r', rs_brk r, True) \<and>
    holds lt r' (ins lt (rs_brk r) value (ents t))"
proof -
  have t: "ents t = A @ e # B" using z ents_plug [of Lf "Fr d q c n v u # fs"] e by simp
  have all: "\<forall>a \<in> set A. lt (snd a) value" using find_position [OF r f t] .
  have s: "sorted_ents lt (A @ e # B)" using r t by (simp add: rset_def)
  have "\<forall>b \<in> set (e # B). lt value (snd b)" using less s trans by (auto simp: sorted_ents_append)
  with all have so: "sorted_ents lt (A @ (rs_brk r, value) # e # B)" by (rule sorted_new [OF s])
  have "ins lt (rs_brk r) value (ents t) = A @ (rs_brk r, value) # e # B"
    unfolding t using all asym [OF less] find_split [OF f] by (intro ins_split(1)) auto
  moreover have h: "header_ok (rs_header r) ((g H)\<lparr>n_count := n_count (g H) + 1\<rparr>) (A @ (rs_brk r, value) # e # B)"
    using g(2) a(2) t by (intro header_new [where H = H]) simp_all
  ultimately show ?thesis
    using insert_at [OF r [unfolded z] a(1) [unfolded z] g(1)] h so unfolding e by metis
qed

lemma insert_left:
  assumes r: "rset lt r t" and f: "List.find (\<lambda>e. \<not> lt (snd e) value) (ents t) = Some e" and less: "lt value (snd e)"
  shows "\<exists>r'. insertNode lt r value = Some (r', rs_brk r, True) \<and> holds lt r' (ins lt (rs_brk r) value (ents t))"
proof -
  let ?h = "rs_header r" and ?s = "rs_store r" and ?x = "rs_brk r" and ?q = "fst e"
  obtain H where H: "at ?s ?h H t []" "header_ok ?h H (ents t)" "?s ?h = Some (H\<lparr>n_parent := rp t\<rparr>)"
      "0 \<notin> set (ptrs t)" "distinct (ptrs t)" "?h \<notin> set (ptrs t)"
    using rset_open [OF r] by blast
  have m: "e \<in> set (ents t)" using find_split [OF f] by force
  then obtain l c n u fs where z: "t = plug (Nd l ?q c n (snd e) u) fs" by (rule ents_zipE)
  have at: "at ?s ?h H (Nd l ?q c n (snd e) u) fs" using H(1) at_plug_all unfolding z by blast
  then have s: "?s ?q = Some (nodeat True c (top ?h fs) (rp l) (rp u) n (snd e))" and rl: "rep ?s ?q l"
    and l0: "0 \<notin> set (ptrs l)" "distinct (ptrs l)"
    by (auto simp: at_def own_def)
  have es: "ents t = (lents fs @ ents l) @ e # (ents u @ rents fs)" using zip_split [of l ?q c n "snd e" u fs] z by simp
  have "?q \<in> set (ptrs t)" using m by (simp add: ptrs_def)
  then have neq: "?q \<noteq> ?h" using H(6) by auto
  have sr: "search_loop lt ?s value (rp t) ?h = Some ?q" using rset_search [OF r H(3)] f by (simp add: found_def)
  have c: "n_count H \<noteq> 0" using H(2) m by (auto simp: header_ok_def)
  have dt: "?q \<notin> fst ` set (lents fs @ ents l)" "?q \<notin> fst ` set (ents u @ rents fs)"
    using H(5) unfolding ptrs_def es by auto
  show ?thesis
  proof (cases "l = Lf")
    case True
    let ?g = "if n_left H = ?q then set_child True ?x else (\<lambda>n. n)"
    have zt: "t = plug Lf (Fr True ?q c n (snd e) u # fs)" using z True by (simp add: mk_def)
    have left: "n_left H = ?q \<longleftrightarrow> lents fs = []" if "header_ok ?h H (lents fs @ e # ents u @ rents fs)"
      using that dt True by (cases "lents fs") (auto simp: header_ok_def first_def)
    have g: "keeps_root ?g" by simp
    have g2: "n_red (?g H) = n_red H \<and> n_count (?g H) = n_count H \<and> n_left (?g H) = (if lents fs = [] then ?x else n_left H) \<and>
        n_right (?g H) = n_right H" if "header_ok ?h H (lents fs @ e # ents u @ rents fs)"
      using left [OF that] by (cases "lents fs = []") (simp_all add: set_child_def)
    have L: "lents (Fr True ?q c n (snd e) u # fs) = lents fs" "rents (Fr True ?q c n (snd e) u # fs) = e # ents u @ rents fs"
      by simp_all
    obtain s1 s2 r' where i: "upd (?s(?x \<mapsto> new_node ?q value)) ?q (set_child True ?x) = Some s1"
        "upd s1 ?h ?g = Some s2" "insert_finish r s2 = Some (r', ?x, True)"
        "holds lt r' (ins lt ?x value (ents t))"
      using insert_before [OF r H(1,2) f less zt g g2 L] by blast
    have "(if n_left H = ?q then upd s1 ?h (set_child True ?x) else Some s1) = Some s2"
      using i(2) upd_id [of s1 ?h] by (cases "s1 ?h") (auto simp: upd_def split: if_splits)
    then have "insertNode lt r value = Some (r', ?x, True)"
      using H(3) c sr neq s less i(1,3) True by (simp add: insertNode_def Let_def nodeat_sides)
    then show ?thesis using i(4) by blast
  next
    case False
    have ne: "ents l \<noteq> []" using False by (cases l) simp_all
    obtain q w where qw: "List.last (ents l) = (q, w)" by (cases "List.last (ents l)")
    have A: "ents l = butlast (ents l) @ [(q, w)]" using append_butlast_last_id [OF ne] qw by simp
    have "List.last (ents l) \<in> set (ents l)" using ne by simp
    then obtain l' c' n' u' fs' where z': "l = plug (Nd l' q c' n' w u') fs'" by (rule ents_zipE) (simp add: qw)
    have u': "u' = Lf" "rents fs' = []" "butlast (ents l) = lents fs' @ ents l'"
      using zip_last [OF A [unfolded z'] l0(2) [unfolded z']] unfolding z' by blast+
    have A': "ents l = (lents fs' @ ents l') @ [(q, w)]" by (rule HOL.trans [OF A]) (simp only: u')
    let ?fs = "fs' @ Fr True ?q c n (snd e) u # fs"
    have zt: "t = plug Lf (Fr False q c' n' w l' # ?fs)" using z z' u' by (simp add: mk_def plug_append)
    have L: "lents (Fr False q c' n' w l' # ?fs) = lents fs @ ents l" "rents (Fr False q c' n' w l' # ?fs) = e # ents u @ rents fs"
      using A' u' by (simp_all add: lents_append)
    have rz: "rp l \<noteq> 0"
    proof
      assume "rp l = 0"
      with rp_in [of l] False have "0 \<in> set (ptrs l)" by simp
      with l0(1) show False by simp
    qed
    have g2: "n_red H = n_red H \<and> n_count H = n_count H \<and> n_left H = (if lents fs @ ents l = [] then ?x else n_left H) \<and>
        n_right H = n_right H"
      using ne by simp
    have dl: "descend False ?s (rp l) = Some q" using descend_ok [OF rl l0(1) False, of False] qw by simp
    have qin: "(q, w) \<in> set (ents l)" using \<open>List.last (ents l) \<in> set (ents l)\<close> qw by simp
    have nr: "n_right H \<noteq> q"
    proof -
      have "set (List.map fst (lents fs @ ents l)) \<inter> set (List.map fst (e # ents u @ rents fs)) = {}"
        using H(5) unfolding ptrs_def es map_append [of fst "lents fs @ ents l"] distinct_append by blast
      moreover have "fst (q, w) \<in> set (List.map fst (lents fs @ ents l))" using qin by force
      moreover have "List.last (e # ents u @ rents fs) \<in> set (e # ents u @ rents fs)" by (rule last_in_set) simp
      then have "fst (List.last (e # ents u @ rents fs)) \<in> set (List.map fst (e # ents u @ rents fs))"
        unfolding set_map by (rule imageI)
      moreover have "n_right H = fst (List.last (e # ents u @ rents fs))"
        using H(2) unfolding es by (simp add: header_ok_def final_def)
      ultimately show ?thesis by (metis disjoint_iff fst_conv)
    qed
    obtain s1 s2 r' where i: "upd (?s(?x \<mapsto> new_node q value)) q (set_child False ?x) = Some s1"
        "upd s1 ?h (\<lambda>n. n) = Some s2" "insert_finish r s2 = Some (r', ?x, True)"
        "holds lt r' (ins lt ?x value (ents t))"
      using insert_before [OF r H(1,2) f less zt keeps_root_id g2 L] by blast
    have "s2 = s1" using i(2) upd_id [of s1 ?h] by (cases "s1 ?h") (auto simp: upd_def)
    then have "insertNode lt r value = Some (r', ?x, True)"
      using H(3) c sr neq s less i(1,3) rz dl nr by (simp add: insertNode_def Let_def nodeat_sides)
    then show ?thesis using i(4) by blast
  qed
qed

text \<open>All branches of \<open>insertNode\<close>.\<close>

lemma insertNode_ok:
  assumes h: "holds lt r es"
  shows "case List.find (\<lambda>e. \<not> lt (snd e) value \<and> \<not> lt value (snd e)) es of
      Some e \<Rightarrow> insertNode lt r value = Some (r, fst e, False)
    | None \<Rightarrow> \<exists>r'. insertNode lt r value = Some (r', rs_brk r, True) \<and> holds lt r' (ins lt (rs_brk r) value es)"
proof -
  obtain t where t: "rset lt r t" "ents t = es" using h by (auto simp: holds_def)
  have so: "sorted_ents lt es" using t by (simp add: rset_def)
  show ?thesis
  proof (cases "List.find (\<lambda>e. \<not> lt (snd e) value) es")
    case None
    have all: "\<forall>a \<in> set es. lt (snd a) value" using find_None_all [OF None] by blast
    then have "List.find (\<lambda>e. \<not> lt (snd e) value \<and> \<not> lt value (snd e)) es = None" unfolding find_None_iff by blast
    moreover have "ins lt (rs_brk r) value es = es @ [(rs_brk r, value)]" using all by (rule ins_split)
    moreover have "\<exists>r'. insertNode lt r value = Some (r', rs_brk r, True) \<and> holds lt r' (es @ [(rs_brk r, value)])"
    proof (cases "t = Lf")
      case True
      then show ?thesis using insert_first [of r "value"] t by simp
    next
      case False
      show ?thesis using insert_end [OF t(1) False] None unfolding t(2) by blast
    qed
    ultimately show ?thesis by simp
  next
    case (Some e)
    obtain A B where AB: "es = A @ e # B" "\<forall>a \<in> set A. \<not> \<not> lt (snd a) value" "\<not> lt (snd e) value"
      using find_split [OF Some] by blast
    show ?thesis
    proof (cases "lt value (snd e)")
      case True
      have "\<forall>b \<in> set B. lt (snd e) (snd b)" using so unfolding AB(1) by (simp add: sorted_ents_append)
      then have "\<forall>b \<in> set B. lt value (snd b)" using trans [OF True] by blast
      then have "List.find (\<lambda>e. \<not> lt (snd e) value \<and> \<not> lt value (snd e)) es = None"
        using AB(2) True unfolding AB(1) find_None_iff by auto
      moreover have "\<exists>r'. insertNode lt r value = Some (r', rs_brk r, True) \<and> holds lt r' (ins lt (rs_brk r) value es)"
        using insert_left [OF t(1), of "value" e] Some True unfolding t(2) by blast
      ultimately show ?thesis by simp
    next
      case False
      have "List.find (\<lambda>e. \<not> lt (snd e) value \<and> \<not> lt value (snd e)) A = None" using AB(2) unfolding find_None_iff by blast
      then have "List.find (\<lambda>e. \<not> lt (snd e) value \<and> \<not> lt value (snd e)) es = Some e"
        using AB(3) False unfolding AB(1) by (simp add: find_append)
      moreover have "insertNode lt r value = Some (r, fst e, False)"
        using insert_found [OF t(1), of "value" e] Some False unfolding t(2) by blast
      ultimately show ?thesis by simp
    qed
  qed
qed

end

end
