(* ===== verification/RankQuery.thy ===== *)
theory RankQuery
  imports RankInsert
begin

text \<open>
  Iteration, searching and order statistics of \<open>RankSet\<close> as functions of the entries, the balance
  of the tree, and the properties of insertion and of the queries.
\<close>

section \<open>Neighbours\<close>

lemma rp_nz: "0 \<notin> set (ptrs t) \<Longrightarrow> t \<noteq> Lf \<Longrightarrow> rp t \<noteq> 0"
  by (cases t) auto

text \<open>The nearest node above the hole on the other side than \<open>d\<close>, or the header.\<close>

fun climb :: "bool \<Rightarrow> nat \<Rightarrow> 'a fr list \<Rightarrow> nat" where
  "climb d h [] = h"
| "climb d h (Fr d' q c n v u # fs) = (if d' = d then climb d h fs else q)"

lemma climb_ents: "climb False h fs = first h (rents fs)" "climb True h fs = final h (lents fs)"
  by (induction fs rule: rents.induct) (simp_all add: first_def final_def)

text \<open>The end of \<open>increment\<close> and \<open>decrement\<close> after the way up.\<close>

definition landing :: "bool \<Rightarrow> 'a store \<Rightarrow> nat \<times> nat \<Rightarrow> nat option" where
  "landing d s = (\<lambda>(node, parent_node). do {
     n \<leftarrow> s node;
     Some (if child d n \<noteq> parent_node then parent_node else node) })"

lemma increment_alt:
  "increment s node = do {
     n \<leftarrow> s node;
     if child False n \<noteq> 0 then descend True s (child False n)
     else ascend False s node (n_parent n) \<bind> landing False s }"
  by (simp add: increment_def landing_def child_def cong: if_cong)

lemma decrement_alt:
  "decrement s node = do {
     n \<leftarrow> s node;
     header \<leftarrow> (if n_red n then map_option (\<lambda>np. n_parent np = node) (s (n_parent n)) else Some False);
     if header then Some (n_right n)
     else if child True n \<noteq> 0 then descend False s (child True n)
     else ascend True s node (n_parent n) \<bind> landing True s }"
  by (simp add: decrement_def landing_def child_def cong: if_cong)

lemma child_in:
  assumes "rep s par t" "t \<noteq> Lf"
  shows "\<exists>n. s (rp t) = Some n \<and> (child d n = 0 \<or> child d n \<in> set (ptrs t))"
proof (cases t)
  case (Nd l q c n v r)
  have "rp l = 0 \<or> rp l \<in> set (ptrs l)" "rp r = 0 \<or> rp r \<in> set (ptrs r)" using rp_in [of l] rp_in [of r] by auto
  then show ?thesis using assms(1) Nd by (auto simp: child_def nodeat_sides)
qed (use assms in simp)

lemma ascend_ok:
  "at s h H t fs \<Longrightarrow> t \<noteq> Lf \<Longrightarrow> (ascend d s (rp t) (top h fs) \<bind> landing d s) = Some (climb d h fs)"
proof (induction fs arbitrary: t)
  case Nil
  note a = at_root [OF Nil.prems(1)]
  have r: "rep s h t" "h \<notin> set (ptrs t)" "h \<noteq> 0" using Nil.prems(1) by (auto simp: at_def own_def)
  obtain n where n: "s (rp t) = Some n" "child d n = 0 \<or> child d n \<in> set (ptrs t)"
    using child_in [OF r(1) Nil.prems(2)] by blast
  have nh: "child d n \<noteq> h" "h \<noteq> child d n" using n(2) r by auto
  show ?case
  proof (cases "rp t = child d (H\<lparr>n_parent := rp t\<rparr>)")
    case True
    have "ascend d s (rp t) h = ascend d s h (rp t)"
      using True a by (subst ascend.simps) simp
    also have "\<dots> = Some (h, rp t)" using n(1) nh by (subst ascend.simps) simp
    finally show ?thesis using True a by (simp add: landing_def)
  next
    case False
    have "ascend d s (rp t) h = Some (rp t, h)" using False a by (subst ascend.simps) simp
    then show ?thesis using n(1) nh by (simp add: landing_def)
  qed
next
  case (Cons f fs)
  obtain d' q c n v u where f: "f = Fr d' q c n v u" by (cases f)
  have at: "at s h H (mk d' q c n v t u) fs" using Cons.prems(1) by (simp add: f at_plug)
  then have q: "s q = Some (nodeat d' c (top h fs) (rp t) (rp u) n v)" "rep s q t" "own h (mk d' q c n v t u) fs"
    by (simp_all add: at_def rep_mk)
  have pt: "q \<noteq> 0" "q \<notin> set (ptrs t)" "set (ptrs t) \<inter> set (ptrs u) = {}" "0 \<notin> set (ptrs t)" "q \<notin> set (ptrs u)"
    using q(3) by (auto simp: own_def ptrs_mk)
  show ?case
  proof (cases "d' = d")
    case True
    have "ascend d s (rp t) q = ascend d s q (top h fs)" using q(1) True by (subst ascend.simps) simp
    then show ?thesis using Cons.IH [OF at] True by (simp add: f)
  next
    case False
    then have d': "d' = (\<not> d)" by simp
    have "rp t \<in> set (ptrs t)" using rp_in [of t] Cons.prems(2) by simp
    then have "rp t \<noteq> rp u" using rp_in [of u] pt by auto
    then have "ascend d s (rp t) q = Some (rp t, q)" using q(1) d' by (subst ascend.simps) (simp add: nodeat_not)
    moreover obtain m where "s (rp t) = Some m" "child d m = 0 \<or> child d m \<in> set (ptrs t)"
      using child_in [OF q(2) Cons.prems(2)] by blast
    ultimately show ?thesis using False pt by (auto simp: f landing_def)
  qed
qed

lemma increment_zip:
  assumes a: "at s h H (Nd l q c n v r) fs"
  shows "increment s q = Some (first h (ents r @ rents fs))"
proof -
  have s: "s q = Some (nodeat True c (top h fs) (rp l) (rp r) n v)" "rep s q r" "0 \<notin> set (ptrs r)"
    using a by (auto simp: at_def own_def)
  show ?thesis
  proof (cases "r = Lf")
    case True
    then show ?thesis using s ascend_ok [OF a, of False] by (simp add: increment_alt child_def nodeat_sides climb_ents)
  next
    case False
    have "rp r \<noteq> 0" using s(3) False by (rule rp_nz)
    moreover have "ents r \<noteq> []" using False by (cases r) simp_all
    ultimately show ?thesis using s descend_ok [OF s(2,3) False, of True]
      by (simp add: increment_alt child_def nodeat_sides first_def)
  qed
qed

lemma decrement_zip:
  assumes a: "at s h H (Nd l q c n v r) fs" and c: "fs = [] \<Longrightarrow> \<not> c"
  shows "decrement s q = Some (final h (lents fs @ ents l))"
proof -
  have s: "s q = Some (nodeat True c (top h fs) (rp l) (rp r) n v)" "rep s q l" "0 \<notin> set (ptrs l)" "own h (Nd l q c n v r) fs"
      "repc s h H q fs"
    using a by (auto simp: at_def own_def)
  let ?n = "nodeat True c (top h fs) (rp l) (rp r) n v"
  have hd: "(if n_red ?n then map_option (\<lambda>np. n_parent np = q) (s (n_parent ?n)) else Some False) = Some False"
  proof (cases fs)
    case (Cons f fs')
    obtain d' p c' n' v' u where f: "f = Fr d' p c' n' v' u" by (cases f)
    have "s p = Some (nodeat d' c' (top h fs') q (rp u) n' v')" using s(5) by (simp add: Cons f)
    moreover have "top h fs' \<noteq> q" using s(4) by (cases fs'; cases "List.hd fs'") (auto simp: own_def Cons f cptrs_Fr)
    ultimately show ?thesis by (simp add: Cons f)
  qed (use c in simp)
  have eq: "decrement s q = (if rp l \<noteq> 0 then descend False s (rp l) else ascend True s q (top h fs) \<bind> landing True s)"
    unfolding decrement_alt s(1) Option.bind.simps hd by (simp add: child_def nodeat_sides)
  show ?thesis
  proof (cases "l = Lf")
    case True
    then show ?thesis using eq ascend_ok [OF a, of True] True by (simp add: climb_ents)
  next
    case False
    have "rp l \<noteq> 0" using s(3) False by (rule rp_nz)
    moreover have "ents l \<noteq> []" using False by (cases l) simp_all
    ultimately show ?thesis using eq descend_ok [OF s(2,3) False, of False] by (simp add: final_def)
  qed
qed

section \<open>Queries as functions of the entries\<close>

text \<open>The iterator at position \<open>i\<close>: the node of entry \<open>i\<close>, \<open>end()\<close> after the last.\<close>

definition iter :: "nat \<Rightarrow> (nat \<times> 'a) list \<Rightarrow> nat \<Rightarrow> nat" where
  "iter h es i = (if i < length es then fst (es ! i) else h)"

lemma iter_first: "first h (drop i es) = iter h es i"
  by (simp add: first_def iter_def hd_drop_conv_nth)

lemma iter_final: "i < length es \<Longrightarrow> final h (take (Suc i) es) = iter h es i"
  by (simp add: final_def iter_def take_Suc_conv_app_nth)

lemma found_iter:
  assumes "\<And>e. List.find P es = Some e \<Longrightarrow> \<exists>A B. es = A @ e # B \<and> length A = k" "List.find P es = None \<Longrightarrow> length es \<le> k"
  shows "found h (List.find P es) = iter h es k"
proof (cases "List.find P es")
  case None
  then show ?thesis using assms(2) by (simp add: found_def iter_def)
next
  case (Some e)
  then obtain A B where "es = A @ e # B" "length A = k" using assms(1) by blast
  then show ?thesis using Some by (auto simp: found_def iter_def)
qed

context strict_weak
begin

lemma holds_open:
  assumes "holds lt r es"
  obtains t H where "rset lt r t" "ents t = es" "at (rs_store r) (rs_header r) H t []" "header_ok (rs_header r) H es"
    "rs_store r (rs_header r) = Some (H\<lparr>n_parent := rp t\<rparr>)" "0 \<notin> set (ptrs t)" "distinct (ptrs t)"
    "rs_header r \<notin> set (ptrs t)" "rep (rs_store r) (rs_header r) t"
proof -
  obtain t where t: "rset lt r t" "ents t = es" using assms unfolding holds_def by blast
  show thesis
    by (rule rset_open [OF t(1)]) (rule that, use t in simp_all)
qed

text \<open>An entry as the root of a subtree in the store.\<close>

lemma holds_zip:
  assumes "holds lt r es" "es = A @ e # B"
  obtains H l c n u fs where "at (rs_store r) (rs_header r) H (Nd l (fst e) c n (snd e) u) fs"
    "lents fs @ ents l = A" "ents u @ rents fs = B" "fs = [] \<longrightarrow> \<not> c"
proof -
  obtain t H where t: "rset lt r t" "ents t = es" "at (rs_store r) (rs_header r) H t []" "distinct (ptrs t)"
    using holds_open [OF assms(1)] by blast
  have "e \<in> set (ents t)" using t(2) assms(2) by simp
  then obtain l c n u fs where z: "t = plug (Nd l (fst e) c n (snd e) u) fs" by (rule ents_zipE)
  have es: "ents t = (lents fs @ ents l) @ e # (ents u @ rents fs)" using zip_split [of l "fst e" c n "snd e" u fs] z by simp
  have "ents t = A @ e # B" using t(2) assms(2) by simp
  from split_unique [OF t(4) es this] have sp: "lents fs @ ents l = A" "ents u @ rents fs = B" by blast+
  have "at (rs_store r) (rs_header r) H (Nd l (fst e) c n (snd e) u) fs" using t(3) at_plug_all unfolding z by blast
  moreover have "\<not> isred t" using t(1) by (simp add: rset_def)
  then have "fs = [] \<longrightarrow> \<not> c" unfolding z by auto
  ultimately show thesis using sp that by blast
qed

lemma neighbours:
  assumes "holds lt r es" "es = A @ e # B"
  shows "increment (rs_store r) (fst e) = Some (first (rs_header r) B)"
    "decrement (rs_store r) (fst e) = Some (final (rs_header r) A)"
    "rs_deref r (fst e) = Some (snd e)"
proof -
  obtain H l c n u fs where z: "at (rs_store r) (rs_header r) H (Nd l (fst e) c n (snd e) u) fs"
      "lents fs @ ents l = A" "ents u @ rents fs = B" "fs = [] \<longrightarrow> \<not> c"
    using assms by (rule holds_zip)
  show "increment (rs_store r) (fst e) = Some (first (rs_header r) B)" using increment_zip [OF z(1)] z(3) by simp
  show "decrement (rs_store r) (fst e) = Some (final (rs_header r) A)" using decrement_zip [OF z(1)] z(4,2) by simp
  show "rs_deref r (fst e) = Some (snd e)" using z(1) by (simp add: at_def rs_deref_def)
qed

lemma ends:
  assumes "holds lt r es"
  shows "rs_begin r = Some (first (rs_header r) es)" "rs_rbegin r = Some (final (rs_header r) es)"
    "rs_size r = Some (length es)" "rs_empty r = Some (es = [])"
    "es \<noteq> [] \<Longrightarrow> decrement (rs_store r) (rs_header r) = Some (final (rs_header r) es)"
proof -
  obtain t H where t: "rset lt r t" "ents t = es" "header_ok (rs_header r) H es"
      "rs_store r (rs_header r) = Some (H\<lparr>n_parent := rp t\<rparr>)" "rep (rs_store r) (rs_header r) t"
    using holds_open [OF assms] by blast
  show "rs_begin r = Some (first (rs_header r) es)" "rs_rbegin r = Some (final (rs_header r) es)"
    "rs_size r = Some (length es)" "rs_empty r = Some (es = [])"
    using t(3,4) by (simp_all add: rs_begin_def rs_rbegin_def rs_size_def rs_empty_def header_ok_def)
  assume ne: "es \<noteq> []"
  then have "t \<noteq> Lf" using t(2) by auto
  from rep_root [OF t(5) this] obtain n where "rs_store r (rp t) = Some n" "n_parent n = rs_header r" by blast
  then show "decrement (rs_store r) (rs_header r) = Some (final (rs_header r) es)"
    using t(3,4) by (simp add: decrement_def header_ok_def)
qed

lemma sorted_find:
  assumes so: "sorted_ents lt es" and f: "List.find P es = Some e" and up: "\<And>a b. P a \<Longrightarrow> lt (snd a) (snd b) \<Longrightarrow> P b"
  shows "\<exists>A B. es = A @ e # B \<and> length A = length (filter (\<lambda>e. \<not> P e) es)"
proof -
  obtain A B where AB: "es = A @ e # B" "\<forall>a \<in> set A. \<not> P a" "P e" using find_split [OF f] by blast
  have "\<forall>b \<in> set B. lt (snd e) (snd b)" using so unfolding AB(1) by (simp add: sorted_ents_append)
  then have "\<forall>b \<in> set B. P b" using up [OF AB(3)] by blast
  then have "filter (\<lambda>e. \<not> P e) es = A" using AB by simp
  then show ?thesis using AB(1) by blast
qed

lemma bound_iter:
  assumes so: "sorted_ents lt es" and up: "\<And>a b. P a \<Longrightarrow> lt (snd a) (snd b) \<Longrightarrow> P b"
  shows "found h (List.find P es) = iter h es (length (filter (\<lambda>e. \<not> P e) es))"
proof (rule found_iter)
  fix e
  assume f: "List.find P es = Some e"
  show "\<exists>A B. es = A @ e # B \<and> length A = length (filter (\<lambda>e. \<not> P e) es)"
    by (rule sorted_find [where P = P, OF so f]) (rule up)
next
  assume "List.find P es = None"
  then have "filter (\<lambda>e. \<not> P e) es = es" unfolding filter_id_conv find_None_iff by blast
  then show "length es \<le> length (filter (\<lambda>e. \<not> P e) es)" by simp
qed

lemma less_up: "\<not> lt (snd a) v \<Longrightarrow> lt (snd a) (snd b) \<Longrightarrow> \<not> lt (snd b) v"
  using trans by blast

lemma bounds:
  assumes "holds lt r es"
  shows "lowerBoundNode lt r v = Some (iter (rs_header r) es (length (filter (\<lambda>e. lt (snd e) v) es)))"
    "upperBoundNode lt r v = Some (iter (rs_header r) es (length (filter (\<lambda>e. \<not> lt v (snd e)) es)))"
    "selectNode r k = Some (iter (rs_header r) es k)"
    "rankNode lt r v = Some (length (filter (\<lambda>e. lt (snd e) v) es))"
proof -
  obtain t H where t: "rset lt r t" "ents t = es" "rs_store r (rs_header r) = Some (H\<lparr>n_parent := rp t\<rparr>)"
      "0 \<notin> set (ptrs t)" "rep (rs_store r) (rs_header r) t"
    using holds_open [OF assms] by blast
  have i: "sorted_ents lt es" "sorted_ents lt (ents t)" "cnt_ok t" using t(1,2) by (auto simp: rset_def)
  have "found (rs_header r) (List.find (\<lambda>e. \<not> lt (snd e) v) es) = iter (rs_header r) es (length (filter (\<lambda>e. \<not> \<not> lt (snd e) v) es))"
    by (rule bound_iter [OF i(1)]) (rule less_up)
  then show "lowerBoundNode lt r v = Some (iter (rs_header r) es (length (filter (\<lambda>e. lt (snd e) v) es)))"
    using search_loop_ok [OF t(5,4) i(2)] t(2,3) by (simp add: lowerBoundNode_def)
  have "found (rs_header r) (List.find (\<lambda>e. lt v (snd e)) es) = iter (rs_header r) es (length (filter (\<lambda>e. \<not> lt v (snd e)) es))"
    by (rule bound_iter [OF i(1)]) (rule trans)
  then show "upperBoundNode lt r v = Some (iter (rs_header r) es (length (filter (\<lambda>e. \<not> lt v (snd e)) es)))"
    using upper_loop_ok [OF t(5,4) i(2)] t(2,3) by (simp add: upperBoundNode_def)
  show "selectNode r k = Some (iter (rs_header r) es k)"
    using select_loop_ok [OF t(5,4) i(3), of "rs_header r" k] t(2,3) by (simp add: selectNode_def iter_def)
  show "rankNode lt r v = Some (length (filter (\<lambda>e. lt (snd e) v) es))"
    using rank_loop_ok [OF t(5,4) i(3,2), of v 0] t(2,3) by (simp add: rankNode_def)
qed

lemma findNode_ok:
  assumes "holds lt r es"
  shows "findNode lt r v = Some (found (rs_header r) (List.find (\<lambda>e. \<not> lt (snd e) v \<and> \<not> lt v (snd e)) es))"
proof -
  obtain t H where t: "rset lt r t" "ents t = es" "rs_store r (rs_header r) = Some (H\<lparr>n_parent := rp t\<rparr>)"
      "0 \<notin> set (ptrs t)" "rep (rs_store r) (rs_header r) t" "rs_header r \<notin> set (ptrs t)"
    using holds_open [OF assms] by blast
  have so: "sorted_ents lt es" "sorted_ents lt (ents t)" using t(1,2) by (auto simp: rset_def)
  note s = search_loop_ok [OF t(5,4) so(2), of v "rs_header r"]
  show ?thesis
  proof (cases "List.find (\<lambda>e. \<not> lt (snd e) v) es")
    case None
    then have "List.find (\<lambda>e. \<not> lt (snd e) v \<and> \<not> lt v (snd e)) es = None" unfolding find_None_iff by blast
    then show ?thesis using s t(2,3) None by (simp add: findNode_def found_def)
  next
    case (Some e)
    obtain A B where AB: "es = A @ e # B" "\<forall>a \<in> set A. \<not> \<not> lt (snd a) v" "\<not> lt (snd e) v"
      using find_split [OF Some] by blast
    have B: "\<forall>b \<in> set B. lt (snd e) (snd b)" using so(1) unfolding AB(1) by (simp add: sorted_ents_append)
    have "fst e \<in> set (ptrs t)" unfolding ptrs_def t(2) AB(1) by simp
    then have ne: "fst e \<noteq> rs_header r" using t(6) by auto
    obtain n where n: "rs_store r (fst e) = Some n" "n_value n = snd e"
      using neighbours(3) [OF assms AB(1)] by (auto simp: rs_deref_def)
    have r: "findNode lt r v = Some (if lt v (snd e) then rs_header r else fst e)"
      using s t(2,3) Some ne n by (simp add: findNode_def found_def)
    show ?thesis
    proof (cases "lt v (snd e)")
      case True
      then have "\<forall>b \<in> set B. lt v (snd b)" using B trans by blast
      then have "List.find (\<lambda>e. \<not> lt (snd e) v \<and> \<not> lt v (snd e)) es = None"
        using AB(2) True unfolding AB(1) find_None_iff by auto
      then show ?thesis using r True by (simp add: found_def)
    next
      case False
      have "List.find (\<lambda>e. \<not> lt (snd e) v \<and> \<not> lt v (snd e)) A = None" using AB(2) unfolding find_None_iff by blast
      then have "List.find (\<lambda>e. \<not> lt (snd e) v \<and> \<not> lt v (snd e)) es = Some e"
        using AB(3) False unfolding AB(1) by (simp add: find_append)
      then show ?thesis using r False by (simp add: found_def)
    qed
  qed
qed

end

section \<open>Balance\<close>

fun height :: "'a rt \<Rightarrow> nat" where
  "height Lf = 0"
| "height (Nd l q c n v r) = max (height l) (height r) + 1"

lemma rb_height: "rb t m \<Longrightarrow> height t \<le> 2 * m + (if isred t then 1 else 0)"
proof (induction t arbitrary: m)
  case (Nd l q c n v r)
  show ?case
  proof (cases c)
    case True
    with Nd.prems Nd.IH(1) [of m] Nd.IH(2) [of m] show ?thesis by simp
  next
    case False
    with Nd.prems have m: "0 < m" "rb l (m - 1)" "rb r (m - 1)" by simp_all
    have "height l \<le> 2 * (m - 1) + 1" "height r \<le> 2 * (m - 1) + 1"
      using Nd.IH(1) [OF m(2)] Nd.IH(2) [OF m(3)] by (auto split: if_splits)
    with False m(1) show ?thesis by simp
  qed
qed simp

lemma rb_size: "rb t m \<Longrightarrow> 2 ^ m \<le> length (ents t) + 1"
proof (induction t arbitrary: m)
  case (Nd l q c n v r)
  show ?case
  proof (cases c)
    case True
    with Nd.prems Nd.IH(1) [of m] show ?thesis by simp
  next
    case False
    with Nd.prems have m: "0 < m" "rb l (m - 1)" "rb r (m - 1)" by simp_all
    from m(1) have "(2 :: nat) ^ m = 2 ^ (m - 1) + 2 ^ (m - 1)" by (cases m) simp_all
    with Nd.IH(1) [OF m(2)] Nd.IH(2) [OF m(3)] show ?thesis by simp
  qed
qed simp

section \<open>Properties\<close>

text \<open>A set of three integers, for the witnesses: 5 at the root, 3 and 8 below it.\<close>

definition sample_set :: "nat rank_set" where
  "sample_set = \<lparr>rs_store = [1 \<mapsto> \<lparr>n_red = True, n_parent = 2, n_left = 3, n_right = 4, n_count = 3, n_value = 0\<rparr>,
     2 \<mapsto> \<lparr>n_red = False, n_parent = 1, n_left = 3, n_right = 4, n_count = 3, n_value = 5\<rparr>,
     3 \<mapsto> \<lparr>n_red = True, n_parent = 2, n_left = 0, n_right = 0, n_count = 1, n_value = 3\<rparr>,
     4 \<mapsto> \<lparr>n_red = True, n_parent = 2, n_left = 0, n_right = 0, n_count = 1, n_value = 8\<rparr>],
     rs_brk = 5, rs_header = 1\<rparr>"

lemma strict_weak_nat: "strict_weak ((<) :: nat \<Rightarrow> nat \<Rightarrow> bool)"
  by unfold_locales auto

lemma sample_set_holds: "holds (<) sample_set [(3, 3), (2, 5), (4, 8)]"
proof -
  let ?t = "Nd (Nd Lf 3 True 1 3 Lf) 2 False 3 5 (Nd Lf 4 True 1 (8::nat) Lf)"
  let ?H = "\<lparr>n_red = True, n_parent = 2, n_left = 3, n_right = 4, n_count = 3, n_value = 0\<rparr>"
  have "at (rs_store sample_set) 1 ?H ?t []"
    by (simp add: at_def sample_set_def own_def nodeat_def)
  moreover have "header_ok 1 ?H (ents ?t)" by (simp add: header_ok_def first_def final_def)
  moreover have "rb ?t 1" by simp
  ultimately have "rset (<) sample_set ?t"
    by (auto simp: rset_def sample_set_def sorted_ents_def intro: exI [of _ 1])
  then show ?thesis unfolding holds_def by (intro exI [of _ ?t]) simp
qed

text \<open>
  C31 (refinement): for any strict weak order \<open>lt\<close> and any set that holds the entries \<open>es\<close>,
  \<open>insertNode\<close> returns the existing node and leaves the set alone when some entry is equivalent to
  the value; otherwise it returns the new node, and the new set holds the entries with the value
  inserted at its place in the order, every other value at the node it was at.
\<close>

theorem rank_set_insert:
  assumes "strict_weak lt" "holds lt r es"
  shows "case List.find (\<lambda>e. \<not> lt (snd e) value \<and> \<not> lt value (snd e)) es of
      Some e \<Rightarrow> insertNode lt r value = Some (r, fst e, False)
    | None \<Rightarrow> \<exists>r'. insertNode lt r value = Some (r', rs_brk r, True) \<and> holds lt r' (ins lt (rs_brk r) value es)"
  by (rule strict_weak.insertNode_ok [OF assms])

theorem rank_set_insert_witness:
  "\<exists>r'. insertNode (<) sample_set 4 = Some (r', 5, True) \<and> holds (<) r' [(3, 3), (5, 4), (2, 5), (4, 8)]"
  using rank_set_insert [OF strict_weak_nat sample_set_holds, of 4] by (simp add: ins_def sample_set_def)

text \<open>
  C32 (functional): the order statistics. \<open>select(k)\<close> is the iterator at position \<open>k\<close> (\<open>end()\<close>
  beyond the last), \<open>rank(v)\<close> the number of smaller values, so the rank of the value at position
  \<open>k\<close> is \<open>k\<close>; \<open>lowerBound\<close> and \<open>upperBound\<close> are the positions after the smaller and after the
  not greater values, and \<open>find\<close> is the entry equivalent to the value, or \<open>end()\<close>.
\<close>

theorem rank_set_order_statistics:
  assumes "strict_weak lt" "holds lt r es"
  shows "selectNode r k = Some (iter (rs_end r) es k) \<and>
    rankNode lt r v = Some (length (filter (\<lambda>e. lt (snd e) v) es)) \<and>
    (k < length es \<longrightarrow> rankNode lt r (snd (es ! k)) = Some k) \<and>
    lowerBoundNode lt r v = Some (iter (rs_end r) es (length (filter (\<lambda>e. lt (snd e) v) es))) \<and>
    upperBoundNode lt r v = Some (iter (rs_end r) es (length (filter (\<lambda>e. \<not> lt v (snd e)) es))) \<and>
    findNode lt r v = Some (case List.find (\<lambda>e. \<not> lt (snd e) v \<and> \<not> lt v (snd e)) es of
      None \<Rightarrow> rs_end r | Some e \<Rightarrow> fst e)"
proof -
  have "length (filter (\<lambda>e. lt (snd e) (snd (es ! k))) es) = k" if k: "k < length es"
  proof -
    have es: "es = take k es @ es ! k # drop (Suc k) es" using k by (simp add: id_take_nth_drop)
    have "sorted_ents lt (take k es @ es ! k # drop (Suc k) es)" using assms(2) es by (auto simp: holds_def rset_def)
    then have "\<forall>x \<in> set (take k es). lt (snd x) (snd (es ! k))" "\<forall>y \<in> set (drop (Suc k) es). \<not> lt (snd y) (snd (es ! k))"
      using strict_weak.asym [OF assms(1)] by (auto simp: sorted_ents_append)
    moreover have "\<not> lt (snd (es ! k)) (snd (es ! k))" using strict_weak.irrefl [OF assms(1)] .
    ultimately have "filter (\<lambda>e. lt (snd e) (snd (es ! k))) (take k es @ es ! k # drop (Suc k) es) = take k es" by simp
    with k show ?thesis unfolding es [symmetric] by simp
  qed
  moreover have "findNode lt r v = Some (case List.find (\<lambda>e. \<not> lt (snd e) v \<and> \<not> lt v (snd e)) es of
      None \<Rightarrow> rs_end r | Some e \<Rightarrow> fst e)"
    using strict_weak.findNode_ok [OF assms] by (simp add: found_def rs_end_def split: option.splits)
  ultimately show ?thesis using strict_weak.bounds [OF assms] by (simp add: rs_end_def)
qed

theorem rank_set_order_statistics_witness:
  "selectNode sample_set 2 = Some 4 \<and> rankNode (<) sample_set 6 = Some 2 \<and> rankNode (<) sample_set 8 = Some 2 \<and>
   lowerBoundNode (<) sample_set 6 = Some 4 \<and> upperBoundNode (<) sample_set 9 = Some 1 \<and>
   findNode (<) sample_set 8 = Some 4 \<and> findNode (<) sample_set 7 = Some 1"
  using rank_set_order_statistics [OF strict_weak_nat sample_set_holds, of 2 6]
    rank_set_order_statistics [OF strict_weak_nat sample_set_holds, of 2 9]
    rank_set_order_statistics [OF strict_weak_nat sample_set_holds, of 2 8]
    rank_set_order_statistics [OF strict_weak_nat sample_set_holds, of 2 7]
  by (simp add: iter_def rs_end_def sample_set_def)

text \<open>
  Iteration. From \<open>begin()\<close>, \<open>increment\<close> visits the nodes of the entries in
  order, each holding its value, and ends at \<open>end()\<close>; \<open>decrement\<close> goes the same way back from
  \<open>end()\<close>; \<open>size()\<close> is their number.
\<close>

lemma rank_set_iteration:
  assumes "strict_weak lt" "holds lt r es"
  shows "rs_begin r = Some (iter (rs_end r) es 0) \<and> rs_size r = Some (length es) \<and>
    (\<forall>i < length es. rs_deref r (iter (rs_end r) es i) = Some (snd (es ! i)) \<and>
      increment (rs_store r) (iter (rs_end r) es i) = Some (iter (rs_end r) es (Suc i)) \<and>
      decrement (rs_store r) (iter (rs_end r) es (Suc i)) = Some (iter (rs_end r) es i))"
proof -
  let ?h = "rs_header r"
  have step: "rs_deref r (iter ?h es i) = Some (snd (es ! i)) \<and>
      increment (rs_store r) (iter ?h es i) = Some (iter ?h es (Suc i)) \<and>
      decrement (rs_store r) (iter ?h es (Suc i)) = Some (iter ?h es i)" if i: "i < length es" for i
  proof -
    have es: "es = take i es @ es ! i # drop (Suc i) es" using i by (simp add: id_take_nth_drop)
    note n = strict_weak.neighbours [OF assms es]
    have "iter ?h es i = fst (es ! i)" using i by (simp add: iter_def)
    then have 1: "rs_deref r (iter ?h es i) = Some (snd (es ! i))"
        "increment (rs_store r) (iter ?h es i) = Some (iter ?h es (Suc i))"
      using n(1,3) iter_first [of ?h "Suc i" es] by simp_all
    have "decrement (rs_store r) (iter ?h es (Suc i)) = Some (iter ?h es i)"
    proof (cases "Suc i < length es")
      case True
      have es: "es = take (Suc i) es @ es ! Suc i # drop (Suc (Suc i)) es" using True by (simp only: id_take_nth_drop)
      have "iter ?h es (Suc i) = fst (es ! Suc i)" using True by (simp add: iter_def)
      then show ?thesis using strict_weak.neighbours(2) [OF assms es] iter_final [OF i, of ?h] by simp
    next
      case False
      then have l: "Suc i = length es" using i by simp
      have ne: "es \<noteq> []" using i by auto
      have "take (Suc i) es = es" using l by simp
      then have "decrement (rs_store r) ?h = Some (iter ?h es i)"
        using strict_weak.ends(5) [OF assms ne] iter_final [OF i, of ?h] by simp
      then show ?thesis using l by (simp add: iter_def)
    qed
    with 1 show ?thesis by simp
  qed
  then show ?thesis using strict_weak.ends(1,3) [OF assms] iter_first [of ?h 0 es] by (simp add: rs_end_def)
qed

text \<open>
  The set is a balanced search tree: the height of the tree in its store is at most
  twice the logarithm of the number of entries plus one, so every search loop makes that many turns.
\<close>

lemma rank_set_balanced:
  assumes "holds lt r es"
  shows "\<exists>t. rset lt r t \<and> ents t = es \<and> 2 ^ height t \<le> (length es + 1) ^ 2"
proof -
  obtain t where t: "rset lt r t" "ents t = es" using assms by (auto simp: holds_def)
  obtain m where m: "rb t m" "\<not> isred t" using t(1) by (auto simp: rset_def)
  have "height t \<le> 2 * m" using rb_height [OF m(1)] m(2) by simp
  then have "(2 :: nat) ^ height t \<le> 2 ^ (2 * m)" by (intro power_increasing) simp_all
  also have "\<dots> = (2 ^ m) ^ 2" by (simp add: power_even_eq)
  also have "\<dots> \<le> (length es + 1) ^ 2" using rb_size [OF m(1)] t(2) by (intro power_mono) simp_all
  finally show ?thesis using t by blast
qed

end
