(* ===== verification/RankUnlink.thy ===== *)
theory RankUnlink
  imports RankQuery
begin

text \<open>
  \<open>erase_unlink\<close>: a node is taken out of the tree, replaced by its child or by its successor.
\<close>

section \<open>Part of a context\<close>

text \<open>
  The nodes of a context up to a node \<open>q\<close> above them, with \<open>r\<close> in the hole; what \<open>q\<close> then
  points to.
\<close>

fun repx :: "'a store \<Rightarrow> nat \<Rightarrow> nat \<Rightarrow> 'a fr list \<Rightarrow> bool" where
  "repx s q r [] \<longleftrightarrow> True"
| "repx s q r (Fr d p c n v u # gs) \<longleftrightarrow>
     s p = Some (nodeat d c (top q gs) r (rp u) n v) \<and> rep s p u \<and> repx s q p gs"

fun below :: "nat \<Rightarrow> 'a fr list \<Rightarrow> nat" where
  "below r [] = r"
| "below r (f # gs) = below (fr_ptr f) gs"

lemma top_append: "top h (gs @ fs) = top (top h fs) gs"
  by (cases gs) simp_all

lemma repc_append: "repc s h H r (gs @ fs) \<longleftrightarrow> repx s (top h fs) r gs \<and> repc s h H (below r gs) fs"
proof (induction gs arbitrary: r)
  case (Cons f gs)
  then show ?case by (cases f) (auto simp: top_append)
qed simp

lemma rep_plug: "rep s q (plug t gs) \<longleftrightarrow> rep s (top q gs) t \<and> repx s q (rp t) gs"
proof (induction gs arbitrary: t)
  case (Cons f gs)
  obtain d p c n v u where f: "f = Fr d p c n v u" by (cases f)
  show ?case using Cons.IH [of "mk d p c n v t u"] by (auto simp: f rep_mk)
qed simp

lemma rp_plug: "rp (plug t gs) = below (rp t) gs"
proof (induction gs arbitrary: t)
  case (Cons f gs)
  obtain d p c n v u where f: "f = Fr d p c n v u" by (cases f)
  show ?case using Cons.IH [of "mk d p c n v t u"] by (simp add: f)
qed simp

lemma repx_cong: "(\<And>p. p \<in> set (cptrs gs) \<Longrightarrow> s' p = s p) \<Longrightarrow> repx s' q r gs = repx s q r gs"
proof (induction gs arbitrary: r)
  case (Cons f gs)
  obtain d p c n v u where f: "f = Fr d p c n v u" by (cases f)
  have "rep s' p u = rep s p u" using Cons.prems by (intro rep_cong) (simp add: f cptrs_Fr)
  moreover have "repx s' q p gs = repx s q p gs" using Cons.prems by (intro Cons.IH) (auto simp: f cptrs_Fr)
  ultimately show ?case using Cons.prems [of p] by (simp add: f cptrs_Fr)
qed simp

lemma repx_upd [simp]: "p \<notin> set (cptrs gs) \<Longrightarrow> repx (s(p := x)) q r gs = repx s q r gs"
  by (rule repx_cong) auto

text \<open>The hole gets another child; the uppermost node gets another parent.\<close>

lemma repx_hole:
  assumes "repx s q r (Fr d p c n v u # gs)" "distinct (cptrs (Fr d p c n v u # gs))"
  shows "\<exists>s'. upd s p (set_child d x) = Some s' \<and> repx s' q x (Fr d p c n v u # gs) \<and> (\<forall>a. a \<noteq> p \<longrightarrow> s' a = s a) \<and> dom s' = dom s"
  using assms by (auto simp: cptrs_Fr)

lemma repx_above:
  "repx s q r gs \<Longrightarrow> distinct (cptrs gs) \<Longrightarrow> gs \<noteq> [] \<Longrightarrow>
     \<exists>s'. upd s (below r gs) (set_parent q') = Some s' \<and> repx s' q' r gs \<and> (\<forall>a. a \<notin> set (cptrs gs) \<longrightarrow> s' a = s a) \<and>
       dom s' = dom s"
proof (induction gs arbitrary: r)
  case (Cons f gs)
  obtain d p c n v u where f: "f = Fr d p c n v u" by (cases f)
  have s: "s p = Some (nodeat d c (top q gs) r (rp u) n v)" "rep s p u" "repx s q p gs" using Cons.prems(1) by (simp_all add: f)
  have dist: "p \<notin> set (ptrs u)" "p \<notin> set (cptrs gs)" "distinct (cptrs gs)" "set (ptrs u) \<inter> set (cptrs gs) = {}"
    using Cons.prems(2) by (simp_all add: f cptrs_Fr)
  show ?case
  proof (cases gs)
    case Nil
    then show ?thesis using s dist by (auto simp: f cptrs_Fr)
  next
    case (Cons g gs')
    then have ne: "gs \<noteq> []" by simp
    obtain s' where s': "upd s (below p gs) (set_parent q') = Some s'" "repx s' q' p gs"
        "\<forall>a. a \<notin> set (cptrs gs) \<longrightarrow> s' a = s a" "dom s' = dom s"
      using Cons.IH [OF s(3) dist(3) ne] by blast
    have "top q' gs = top q gs" using Cons by simp
    moreover have "s' p = s p" using s'(3) dist(2) by blast
    moreover have "rep s' p u = rep s p u" using s'(3) dist(4) by (intro rep_cong) blast
    ultimately show ?thesis using s s' by (intro exI [of _ s']) (simp add: f cptrs_Fr)
  qed
qed simp

lemma own_append: "own h t (gs @ fs) \<longleftrightarrow> own h (plug t gs) fs"
proof (induction gs arbitrary: t)
  case (Cons f gs)
  obtain d p c n v u where f: "f = Fr d p c n v u" by (cases f)
  then show ?case using Cons.IH [of "mk d p c n v t u"] own_plug [of h d p c n v t u "gs @ fs"] by simp
qed simp

lemma ptrs_plug: "set (ptrs (plug t gs)) = set (ptrs t) \<union> set (cptrs gs)"
  "distinct (ptrs (plug t gs)) \<longleftrightarrow> distinct (ptrs t) \<and> distinct (cptrs gs) \<and> set (ptrs t) \<inter> set (cptrs gs) = {}"
  by (auto simp: ptrs_def cptrs_def ents_plug)

lemma cptrs_append: "set (cptrs (gs @ fs)) = set (cptrs gs) \<union> set (cptrs fs)"
  by (auto simp: cptrs_def lents_append)

lemma below_in: "gs \<noteq> [] \<Longrightarrow> below r gs \<in> set (cptrs gs)"
proof (induction gs arbitrary: r)
  case (Cons f gs)
  obtain d p c n v u where f: "f = Fr d p c n v u" by (cases f)
  show ?case using Cons.IH [of p] by (cases "gs = []") (simp_all add: f cptrs_Fr)
qed simp

text \<open>The leftmost node of a tree.\<close>

lemma leftmost:
  "t \<noteq> Lf \<Longrightarrow> \<exists>y c n v x gs. t = plug (Nd Lf y c n v x) gs \<and> list_all fr_side gs \<and> (y, v) = hd (ents t)"
proof (induction t)
  case (Nd l q c n v r)
  show ?case
  proof (cases "l = Lf")
    case True
    then have "Nd l q c n v r = plug (Nd Lf q c n v r) []" by simp
    moreover have "list_all fr_side []" "(q, v) = hd (ents (Nd l q c n v r))" using True by simp_all
    ultimately show ?thesis by metis
  next
    case False
    then obtain y c' n' v' x gs where l: "l = plug (Nd Lf y c' n' v' x) gs" "list_all fr_side gs" "(y, v') = hd (ents l)"
      using Nd.IH(1) by blast
    have ne: "ents l \<noteq> []" using False by (cases l) simp_all
    have "Nd l q c n v r = plug (Nd Lf y c' n' v' x) (gs @ [Fr True q c n v r])" using l(1) by (simp add: plug_append mk_def)
    moreover have "list_all fr_side (gs @ [Fr True q c n v r])" using l(2) by simp
    moreover have "(y, v') = hd (ents (Nd l q c n v r))" using l(3) ne by simp
    ultimately show ?thesis by metis
  qed
qed simp

section \<open>Taking a node out\<close>

lemma replace_child_alt:
  "s z = Some nz \<Longrightarrow> replace_child h s z p = fix_link True h s z (n_parent nz) p"
  by (simp add: replace_child_def fix_link_def child_def eq_commute [of _ z] cong: if_cong)

lemma own_facts:
  assumes "own h t fs"
  shows "0 \<notin> set (ptrs t)" "h \<notin> set (ptrs t)" "distinct (ptrs t)" "set (ptrs t) \<inter> set (cptrs fs) = {}"
    "distinct (h # cptrs fs)" "0 \<notin> set (cptrs fs)" "h \<noteq> 0" "top h fs \<in> insert h (set (cptrs fs))"
proof -
  show "top h fs \<in> insert h (set (cptrs fs))"
  proof (cases fs)
    case (Cons f fs')
    then show ?thesis by (cases f) (simp add: cptrs_Fr)
  qed simp
qed (use assms in \<open>auto simp: own_def\<close>)

text \<open>A node with at most one child is replaced by that child.\<close>

lemma unlink_one:
  assumes a: "at s h H (Nd l z c n v r) fs" and one: "l = Lf \<or> r = Lf"
  shows "\<exists>s'. erase_unlink h s z = Some (s', rp (if l = Lf then r else l), top h fs) \<and>
    at s' h H (if l = Lf then r else l) fs \<and> map_option n_red (s' z) = Some c \<and> dom s' = dom s"
proof -
  let ?x = "if l = Lf then r else l"
  let ?P = "top h fs"
  have s: "s z = Some (nodeat True c ?P (rp l) (rp r) n v)" "rep s z ?x" "repc s h H z fs" and own: "own h (Nd l z c n v r) fs"
    using a by (simp_all add: at_def)
  have pt: "z \<notin> set (ptrs ?x)" "0 \<notin> set (ptrs ?x)" "distinct (ptrs ?x)" "set (ptrs ?x) \<inter> set (cptrs fs) = {}"
      "h \<notin> set (ptrs ?x)" "z \<noteq> 0" "z \<notin> set (cptrs fs)" "z \<noteq> h" "own h ?x fs"
    using own by (auto simp: own_def)
  note of = own_facts [OF own]
  have z: "rp l = 0 \<longleftrightarrow> l = Lf" "rp r = 0 \<longleftrightarrow> r = Lf"
    using of(1) rp_nz [of l] rp_nz [of r] by (cases "l = Lf"; cases "r = Lf"; simp)+
  obtain s1 where s1: "relink s (rp ?x) ?P = Some s1" "rep s1 ?P ?x" "\<forall>p. p \<notin> set (ptrs ?x) \<longrightarrow> s1 p = s p" "dom s1 = dom s"
    using rep_set_parent [OF s(2) pt(2,3), of ?P] by blast
  have z1: "s1 z = Some (nodeat True c ?P (rp l) (rp r) n v)" using s1(3) pt(1) s(1) by simp
  have "repc s1 h H z fs = repc s h H z fs" using s1(3) pt(4,5) by (intro repc_cong) blast
  then have "repc s1 h H z fs" using s(3) by simp
  then obtain s2 where s2: "fix_link True h s1 z ?P (rp ?x) = Some s2" "repc s2 h H (rp ?x) fs"
      "\<forall>p. p \<noteq> ?P \<longrightarrow> s2 p = s1 p" "dom s2 = dom s1"
    using fix_link_ok [of s1 h H z fs True "rp ?x"] pt(6,7) of(5) by blast
  have P: "?P \<notin> set (ptrs ?x)" "?P \<noteq> z" using of(8) pt by auto
  have "rep s2 ?P ?x = rep s1 ?P ?x" using s2(3) P(1) by (intro rep_cong) metis
  then have "at s2 h H ?x fs" using s1(2) s2(2) pt(9) by (simp add: at_def)
  moreover have "s2 z = Some (nodeat True c ?P (rp l) (rp r) n v)" using s2(3) P(2) z1 by simp
  moreover have "replace_child h s1 z (rp ?x) = Some s2" using replace_child_alt [where s = s1 and z = z and h = h] z1 s2(1) by simp
  moreover have "(if rp l = 0 then rp r else rp l) = rp ?x" using z by simp
  ultimately show ?thesis
    using s(1) s1(1,4) s2(4) one z by (intro exI [of _ s2]) (auto simp: erase_unlink_def nodeat_sides Let_def)
qed

text \<open>
  The steps above the successor \<open>y\<close> when both children are there: \<open>y\<close> takes over the children
  of \<open>z\<close>, and its own right child takes its place.
\<close>

definition adopt :: "'a store \<Rightarrow> 'a rb_node \<Rightarrow> nat \<Rightarrow> 'a rb_node \<Rightarrow> ('a store \<times> nat) option" where
  "adopt s nz y ny = do {
     let x = n_right ny;
     s \<leftarrow> upd s (n_left nz) (set_parent y);
     s \<leftarrow> upd s y (set_child True (n_left nz));
     (if y \<noteq> n_right nz then do {
        let par = n_parent ny;
        s \<leftarrow> relink s x par;
        s \<leftarrow> upd s par (set_child True x);
        s \<leftarrow> upd s y (set_child False (n_right nz));
        s \<leftarrow> upd s (n_right nz) (set_parent y);
        Some (s, par) }
      else Some (s, y)) }"

definition settle :: "nat \<Rightarrow> 'a store \<Rightarrow> nat \<Rightarrow> 'a rb_node \<Rightarrow> nat \<Rightarrow> 'a rb_node \<Rightarrow> 'a store option" where
  "settle h s z nz y ny = do {
     s \<leftarrow> replace_child h s z y;
     s \<leftarrow> upd s y (set_parent (n_parent nz));
     s \<leftarrow> upd s y (set_red (n_red nz));
     upd s z (set_red (n_red ny)) }"

lemma erase_unlink_two:
  assumes "s z = Some nz" "n_left nz \<noteq> 0" "n_right nz \<noteq> 0" "descend True s (n_right nz) = Some y" "s y = Some ny"
  shows "erase_unlink h s z = do {
    (s, par) \<leftarrow> adopt s nz y ny;
    s \<leftarrow> settle h s z nz y ny;
    Some (s, n_right ny, par) }"
  using assms by (simp add: erase_unlink_def adopt_def settle_def Let_def bind_assoc split: prod.splits cong: if_cong)

lemma relink_upd: "rp t \<noteq> 0 \<Longrightarrow> relink s (rp t) p = upd s (rp t) (set_parent p)"
  by (simp add: relink_def)

lemma nodeat_right [simp]:
  "set_child False x (nodeat True c par a b n v) = nodeat True c par a x n v" "child False (nodeat True c par a b n v) = b"
  by (simp_all add: nodeat_def set_child_def child_def)

text \<open>Stores that differ only in \<open>A\<close>.\<close>

definition same_but :: "nat set \<Rightarrow> 'a store \<Rightarrow> 'a store \<Rightarrow> bool" where
  "same_but A s s' \<longleftrightarrow> (\<forall>p. p \<notin> A \<longrightarrow> s' p = s p) \<and> dom s' = dom s"

lemma same_but_at: "same_but A s s' \<Longrightarrow> p \<notin> A \<Longrightarrow> s' p = s p"
  by (simp add: same_but_def)

lemma same_but_rep: "same_but A s s' \<Longrightarrow> A \<inter> set (ptrs t) = {} \<Longrightarrow> rep s' q t = rep s q t"
  by (intro rep_cong) (auto simp: same_but_def)

lemma same_but_repx: "same_but A s s' \<Longrightarrow> A \<inter> set (cptrs gs) = {} \<Longrightarrow> repx s' q r gs = repx s q r gs"
  by (intro repx_cong) (auto simp: same_but_def)

lemma same_but_repc: "same_but A s s' \<Longrightarrow> A \<inter> insert h (set (cptrs fs)) = {} \<Longrightarrow> repc s' h H r fs = repc s h H r fs"
  by (intro repc_cong) (auto simp: same_but_def)

lemma same_but_trans: "same_but A s s' \<Longrightarrow> same_but B s' s'' \<Longrightarrow> same_but (A \<union> B) s s''"
  by (simp add: same_but_def)

lemma same_but_mono: "same_but A s s' \<Longrightarrow> A \<subseteq> B \<Longrightarrow> same_but B s s'"
  by (auto simp: same_but_def)

lemma same_but_upd: "s p = Some n \<Longrightarrow> same_but {p} s (s(p \<mapsto> m))"
  by (auto simp: same_but_def)

lemma set_parent_ok:
  assumes "rep s par t" "0 \<notin> set (ptrs t)" "distinct (ptrs t)"
  shows "\<exists>s'. relink s (rp t) par' = Some s' \<and> rep s' par' t \<and> same_but (set (ptrs t)) s s'"
  using rep_set_parent [OF assms, of par'] by (auto simp: same_but_def)

lemma repx_hole_ok:
  assumes "repx s q r (Fr d p c n v u # gs)" "distinct (cptrs (Fr d p c n v u # gs))"
  shows "\<exists>s'. upd s p (set_child d x) = Some s' \<and> repx s' q x (Fr d p c n v u # gs) \<and> same_but {p} s s'"
  using repx_hole [OF assms, of x] by (auto simp: same_but_def)

lemma repx_above_ok:
  assumes "repx s q r gs" "distinct (cptrs gs)" "gs \<noteq> []"
  shows "\<exists>s'. upd s (below r gs) (set_parent q') = Some s' \<and> repx s' q' r gs \<and> same_but (set (cptrs gs)) s s'"
  using repx_above [OF assms, of q'] by (auto simp: same_but_def)

lemma fix_link_same:
  assumes "repc s h H x fs" "x \<noteq> 0" "x \<notin> set (cptrs fs)" "distinct (h # cptrs fs)"
  shows "\<exists>s'. fix_link d h s x (top h fs) y = Some s' \<and> repc s' h H y fs \<and> same_but {top h fs} s s'"
  using fix_link_ok [OF assms, of d y] by (auto simp: same_but_def)

lemma adopt_near:
  assumes y: "s y = Some (nodeat True cy z 0 (rp x) ny vy)" and l: "rep s z l" "l \<noteq> Lf" "0 \<notin> set (ptrs l)" "distinct (ptrs l)"
    and x: "rep s y x" and dj: "y \<notin> set (ptrs l)" "y \<notin> set (ptrs x)" "set (ptrs l) \<inter> set (ptrs x) = {}"
  shows "\<exists>s'. adopt s (nodeat True c P (rp l) y n v) y (nodeat True cy z 0 (rp x) ny vy) = Some (s', y) \<and>
    s' y = Some (nodeat True cy z (rp l) (rp x) ny vy) \<and> rep s' y l \<and> rep s' y x \<and> same_but (set (ptrs l) \<union> {y}) s s'"
proof -
  have rl: "rp l \<noteq> 0" using l by (intro rp_nz)
  obtain s1 where s1: "relink s (rp l) y = Some s1" "rep s1 y l" "same_but (set (ptrs l)) s s1"
    using set_parent_ok [OF l(1,3,4), of y] by blast
  have y1: "s1 y = Some (nodeat True cy z 0 (rp x) ny vy)" using same_but_at [OF s1(3) dj(1)] y by simp
  let ?s = "s1(y \<mapsto> nodeat True cy z (rp l) (rp x) ny vy)"
  have "rep s1 y x" using same_but_rep [OF s1(3) dj(3)] x by simp
  then have "rep ?s y x" "rep ?s y l" using s1(2) dj by simp_all
  moreover have "same_but {y} s1 ?s" using y1 by (rule same_but_upd)
  then have "same_but (set (ptrs l) \<union> {y}) s ?s" by (rule same_but_trans [OF s1(3)])
  moreover have "adopt s (nodeat True c P (rp l) y n v) y (nodeat True cy z 0 (rp x) ny vy) = Some (?s, y)"
    using s1(1) y1 rl by (simp add: adopt_def nodeat_sides relink_def)
  ultimately show ?thesis by (intro exI [of _ ?s]) simp
qed

lemma adopt_far:
  assumes y: "s y = Some (nodeat True cy p 0 (rp x) ny vy)" and l: "rep s z l" "l \<noteq> Lf" "0 \<notin> set (ptrs l)" "distinct (ptrs l)"
    and x: "rep s y x" "0 \<notin> set (ptrs x)" "distinct (ptrs x)"
    and gs: "gs = Fr True p pc pn pv u # gs'" "repx s z y gs" "distinct (cptrs gs)"
    and dj: "y \<notin> set (ptrs l)" "y \<notin> set (ptrs x)" "y \<notin> set (cptrs gs)" "set (ptrs l) \<inter> set (ptrs x) = {}"
      "set (ptrs l) \<inter> set (cptrs gs) = {}" "set (ptrs x) \<inter> set (cptrs gs) = {}"
  shows "\<exists>s'. adopt s (nodeat True c P (rp l) (below y gs) n v) y (nodeat True cy p 0 (rp x) ny vy) = Some (s', p) \<and>
    s' y = Some (nodeat True cy p (rp l) (below y gs) ny vy) \<and> rep s' y l \<and> rep s' p x \<and> repx s' y (rp x) gs \<and>
    same_but (set (ptrs l) \<union> set (ptrs x) \<union> set (cptrs gs) \<union> {y}) s s'"
proof -
  have rl: "rp l \<noteq> 0" using l by (intro rp_nz)
  have p: "p \<in> set (cptrs gs)" using gs(1) by (simp add: cptrs_Fr)
  have b: "below (rp x) gs = below y gs" using gs(1) by simp
  have bin: "below y gs \<in> set (cptrs gs)" using below_in [of gs y] gs(1) by simp
  obtain s1 where s1: "relink s (rp l) y = Some s1" "rep s1 y l" "same_but (set (ptrs l)) s s1"
    using set_parent_ok [OF l(1,3,4), of y] by blast
  have y1: "s1 y = Some (nodeat True cy p 0 (rp x) ny vy)" using same_but_at [OF s1(3) dj(1)] y by simp
  have f1: "rep s1 y x" "repx s1 z y gs" using same_but_rep [OF s1(3)] same_but_repx [OF s1(3)] x(1) gs(2) dj by simp_all
  let ?s2 = "s1(y \<mapsto> nodeat True cy p (rp l) (rp x) ny vy)"
  have c2: "same_but {y} s1 ?s2" using y1 by (rule same_but_upd)
  have f2: "rep ?s2 y x" "repx ?s2 z y gs" "rep ?s2 y l" using f1 s1(2) dj by simp_all
  obtain s3 where s3: "relink ?s2 (rp x) p = Some s3" "rep s3 p x" "same_but (set (ptrs x)) ?s2 s3"
    using set_parent_ok [OF f2(1) x(2,3), of p] by blast
  have f3: "repx s3 z y gs" "rep s3 y l" using same_but_rep [OF s3(3)] same_but_repx [OF s3(3)] f2 dj by (simp_all add: Int_commute)
  obtain s4 where s4: "upd s3 p (set_child True (rp x)) = Some s4" "repx s4 z (rp x) gs" "same_but {p} s3 s4"
    using repx_hole_ok [OF f3(1) [unfolded gs(1)] gs(3) [unfolded gs(1)], of "rp x"] unfolding gs(1) by blast
  have np: "p \<notin> set (ptrs l)" "p \<notin> set (ptrs x)" "p \<noteq> y" using p dj by blast+
  have f4: "rep s4 y l" "rep s4 p x" using same_but_rep [OF s4(3)] f3(2) s3(2) np by simp_all
  have y4: "s4 y = Some (nodeat True cy p (rp l) (rp x) ny vy)"
    using same_but_at [OF s4(3), of y] same_but_at [OF s3(3) dj(2)] np by simp
  let ?s5 = "s4(y \<mapsto> nodeat True cy p (rp l) (below y gs) ny vy)"
  have c5: "same_but {y} s4 ?s5" using y4 by (rule same_but_upd)
  have f5: "rep ?s5 y l" "rep ?s5 p x" "repx ?s5 z (rp x) gs" using f4 s4(2) dj by simp_all
  have ne: "gs \<noteq> []" using gs(1) by simp
  obtain s6 where s6: "upd ?s5 (below y gs) (set_parent y) = Some s6" "repx s6 y (rp x) gs" "same_but (set (cptrs gs)) ?s5 s6"
    using repx_above_ok [OF f5(3) gs(3) ne, of y] unfolding b by blast
  have f6: "rep s6 y l" "rep s6 p x" using same_but_rep [OF s6(3)] f5 dj by (simp_all add: Int_commute)
  have y6: "s6 y = Some (nodeat True cy p (rp l) (below y gs) ny vy)" using same_but_at [OF s6(3) dj(3)] by simp
  have "same_but (((((set (ptrs l) \<union> {y}) \<union> set (ptrs x)) \<union> {p}) \<union> {y}) \<union> set (cptrs gs)) s s6"
    by (intro same_but_trans) (rule s1(3) c2 s3(3) s4(3) c5 s6(3))+
  then have "same_but (set (ptrs l) \<union> set (ptrs x) \<union> set (cptrs gs) \<union> {y}) s s6"
    by (rule same_but_mono) (use p in blast)
  moreover have "y \<noteq> below y gs" using bin dj(3) by metis
  then have "adopt s (nodeat True c P (rp l) (below y gs) n v) y (nodeat True cy p 0 (rp x) ny vy) = Some (s6, p)"
    using s1(1) y1 rl s3(1) s4(1) y4 s6(1) by (simp add: adopt_def nodeat_sides relink_def Let_def)
  ultimately show ?thesis using f6 s6(2) y6 by blast
qed

lemma settle_ok:
  assumes z: "s z = Some nz" "n_parent nz = top h fs" and y: "s y = Some (nodeat True cy py a b ny vy)"
    and c: "repc s h H z fs" and dj: "z \<noteq> 0" "z \<notin> set (cptrs fs)" "y \<notin> set (cptrs fs)" "y \<noteq> h" "z \<noteq> h" "y \<noteq> z"
      "distinct (h # cptrs fs)" "top h fs \<in> insert h (set (cptrs fs))"
  shows "\<exists>s'. settle h s z nz y n = Some s' \<and> s' y = Some (nodeat True (n_red nz) (top h fs) a b ny vy) \<and>
    repc s' h H y fs \<and> map_option n_red (s' z) = Some (n_red n) \<and> same_but {top h fs, y, z} s s'"
proof -
  let ?P = "top h fs"
  obtain s1 where s1: "fix_link True h s z ?P y = Some s1" "repc s1 h H y fs" "same_but {?P} s s1"
    using fix_link_same [OF c dj(1,2,7), of True y] by blast
  have nP: "?P \<noteq> z" "?P \<noteq> y" using dj by auto
  have e1: "s1 z = Some nz" "s1 y = Some (nodeat True cy py a b ny vy)"
    using same_but_at [OF s1(3), of z] same_but_at [OF s1(3), of y] nP z(1) y by auto
  let ?s2 = "s1(y \<mapsto> nodeat True cy ?P a b ny vy)"
  let ?s3 = "?s2(y \<mapsto> nodeat True (n_red nz) ?P a b ny vy)"
  let ?s4 = "?s3(z \<mapsto> set_red (n_red n) nz)"
  have "replace_child h s z y = Some s1" using replace_child_alt [where s = s and z = z and h = h] z s1(1) by simp
  then have "settle h s z nz y n = Some ?s4" using e1 dj(6) z(2) by (simp add: settle_def)
  moreover have "?s4 y = Some (nodeat True (n_red nz) ?P a b ny vy)" using dj(6) by simp
  moreover have "repc ?s4 h H y fs" using s1(2) dj by simp
  moreover have "map_option n_red (?s4 z) = Some (n_red n)" by (simp add: set_red_def)
  moreover have "same_but {?P, y, z} s ?s4" using s1(3) e1 dj(6) by (auto simp: same_but_def)
  ultimately show ?thesis by blast
qed

lemma left_context: "list_all fr_side gs \<Longrightarrow> lents gs = []"
proof (induction gs)
  case (Cons f gs)
  then show ?case by (cases f) simp
qed simp

lemma hd_leftmost: "list_all fr_side gs \<Longrightarrow> hd (ents (plug (Nd Lf y cy ny vy x) gs)) = (y, vy)"
  by (simp add: ents_plug left_context)

lemma own_two:
  assumes "own h (Nd l z c n v (plug (Nd Lf y cy ny vy x) gs)) fs"
  shows "own h x (gs @ Fr False y c ny vy l # fs)"
proof -
  have "own h (mk False y c ny vy (plug x gs) l) fs"
    using assms by (auto simp: own_def ptrs_mk ptrs_plug)
  then show ?thesis unfolding own_append own_plug .
qed

lemma adopt_ok:
  assumes y: "s y = Some (nodeat True cy (top z gs) 0 (rp x) ny vy)"
    and l: "rep s z l" "l \<noteq> Lf" "0 \<notin> set (ptrs l)" "distinct (ptrs l)"
    and x: "rep s y x" "0 \<notin> set (ptrs x)" "distinct (ptrs x)"
    and gs: "repx s z y gs" "distinct (cptrs gs)" "list_all fr_side gs"
    and dj: "y \<notin> set (ptrs l)" "y \<notin> set (ptrs x)" "y \<notin> set (cptrs gs)" "set (ptrs l) \<inter> set (ptrs x) = {}"
      "set (ptrs l) \<inter> set (cptrs gs) = {}" "set (ptrs x) \<inter> set (cptrs gs) = {}"
  shows "\<exists>s' py. adopt s (nodeat True c P (rp l) (below y gs) n v) y (nodeat True cy (top z gs) 0 (rp x) ny vy) = Some (s', top y gs) \<and>
    s' y = Some (nodeat True cy py (rp l) (below (rp x) gs) ny vy) \<and> rep s' y l \<and> rep s' (top y gs) x \<and> repx s' y (rp x) gs \<and>
    same_but (set (ptrs l) \<union> set (ptrs x) \<union> set (cptrs gs) \<union> {y}) s s'"
proof (cases gs)
  case Nil
  have y': "s y = Some (nodeat True cy z 0 (rp x) ny vy)" using y Nil by simp
  obtain s' where r: "adopt s (nodeat True c P (rp l) y n v) y (nodeat True cy z 0 (rp x) ny vy) = Some (s', y)"
      "s' y = Some (nodeat True cy z (rp l) (rp x) ny vy)" "rep s' y l" "rep s' y x" "same_but (set (ptrs l) \<union> {y}) s s'"
    using adopt_near [OF y' l x(1) dj(1,2,4)] by blast
  have "same_but (set (ptrs l) \<union> set (ptrs x) \<union> set (cptrs gs) \<union> {y}) s s'" using r(5) by (rule same_but_mono) blast
  then show ?thesis using r Nil by auto
next
  case (Cons f gs')
  then obtain p pc pn pv u where f: "f = Fr True p pc pn pv u" using gs(3) by (cases f) simp
  then have gsf: "gs = Fr True p pc pn pv u # gs'" using Cons by simp
  have y': "s y = Some (nodeat True cy p 0 (rp x) ny vy)" using y gsf by simp
  obtain s' where r: "adopt s (nodeat True c P (rp l) (below y gs) n v) y (nodeat True cy p 0 (rp x) ny vy) = Some (s', p)"
      "s' y = Some (nodeat True cy p (rp l) (below y gs) ny vy)" "rep s' y l" "rep s' p x" "repx s' y (rp x) gs"
      "same_but (set (ptrs l) \<union> set (ptrs x) \<union> set (cptrs gs) \<union> {y}) s s'"
    using adopt_far [OF y' l x gsf gs(1,2) dj] by blast
  have b: "below (rp x) gs = below y gs" "top y gs = p" "top z gs = p" unfolding gsf by simp_all
  show ?thesis unfolding b using r by blast
qed

lemma unlink_two:
  assumes a: "at s h H (Nd l z c n v (plug (Nd Lf y cy ny vy x) gs)) fs" and l: "l \<noteq> Lf" and gs: "list_all fr_side gs"
  shows "\<exists>s'. erase_unlink h s z = Some (s', rp x, top h (gs @ Fr False y c ny vy l # fs)) \<and>
    at s' h H x (gs @ Fr False y c ny vy l # fs) \<and> map_option n_red (s' z) = Some cy \<and> dom s' = dom s"
proof -
  let ?P = "top h fs" and ?r = "plug (Nd Lf y cy ny vy x) gs"
  have own: "own h (Nd l z c n v ?r) fs" using a by (simp add: at_def)
  note o2 = own_two [OF own]
  have rr: "rp ?r = below y gs" by (simp add: rp_plug)
  have rne: "?r \<noteq> Lf" using plug_ne by blast
  have s: "s z = Some (nodeat True c ?P (rp l) (below y gs) n v)" "rep s z l" "rep s z ?r" "repc s h H z fs"
    using a rr by (simp_all add: at_def)
  have sr: "s y = Some (nodeat True cy (top z gs) 0 (rp x) ny vy)" "rep s y x" "repx s z y gs"
    using s(3) unfolding rep_plug by simp_all
  have pt: "y \<notin> set (ptrs l)" "y \<notin> set (ptrs x)" "y \<notin> set (cptrs gs)" "set (ptrs l) \<inter> set (ptrs x) = {}"
      "set (ptrs l) \<inter> set (cptrs gs) = {}" "set (ptrs x) \<inter> set (cptrs gs) = {}"
      "0 \<notin> set (ptrs l)" "distinct (ptrs l)" "0 \<notin> set (ptrs x)" "distinct (ptrs x)" "distinct (cptrs gs)"
      "z \<noteq> 0" "z \<notin> set (cptrs fs)" "y \<notin> set (cptrs fs)" "y \<noteq> h" "z \<noteq> h" "y \<noteq> z" "0 \<notin> set (ptrs ?r)"
      "z \<notin> set (ptrs l)" "z \<notin> set (ptrs x)" "z \<notin> set (cptrs gs)"
    using own by (auto simp: own_def ptrs_plug)
  have dj: "insert h (set (cptrs fs)) \<inter> set (ptrs l) = {}" "insert h (set (cptrs fs)) \<inter> set (ptrs x) = {}"
      "insert h (set (cptrs fs)) \<inter> set (cptrs gs) = {}"
    using own by (auto simp: own_def ptrs_plug)
  note of = own_facts(5,8) [OF own]
  have nz: "rp l \<noteq> 0" "below y gs \<noteq> 0" using rp_nz [OF pt(7) l] rp_nz [OF pt(18) rne] rr by simp_all
  have d: "descend True s (below y gs) = Some y"
    using descend_ok [OF s(3) pt(18) rne, of True] hd_leftmost [OF gs, of y cy ny vy x] rr by simp
  let ?nz = "nodeat True c ?P (rp l) (below y gs) n v" and ?ny = "nodeat True cy (top z gs) 0 (rp x) ny vy"
  obtain s1 py where s1: "adopt s ?nz y ?ny = Some (s1, top y gs)" "s1 y = Some (nodeat True cy py (rp l) (below (rp x) gs) ny vy)"
      "rep s1 y l" "rep s1 (top y gs) x" "repx s1 y (rp x) gs"
      "same_but (set (ptrs l) \<union> set (ptrs x) \<union> set (cptrs gs) \<union> {y}) s s1"
    using adopt_ok [OF sr(1) s(2) l pt(7,8) sr(2) pt(9,10) sr(3) pt(11) gs pt(1-6)] by blast
  have z1: "s1 z = Some ?nz" using same_but_at [OF s1(6), of z] pt s(1) by simp
  have "(set (ptrs l) \<union> set (ptrs x) \<union> set (cptrs gs) \<union> {y}) \<inter> insert h (set (cptrs fs)) = {}"
    using dj pt(14,15) by blast
  from same_but_repc [OF s1(6) this] have c1: "repc s1 h H z fs" using s(4) by simp
  have "n_parent ?nz = ?P" by simp
  from settle_ok [OF z1 this s1(2) c1 pt(12,13,14,15,16,17) of] obtain s2 where
    s2: "settle h s1 z ?nz y ?ny = Some s2" "s2 y = Some (nodeat True c ?P (rp l) (below (rp x) gs) ny vy)"
      "repc s2 h H y fs" "map_option n_red (s2 z) = Some cy" "same_but {?P, y, z} s1 s2"
    by (metis nodeat_simps(8))
  have nP: "?P \<notin> set (ptrs l)" "?P \<notin> set (ptrs x)" "?P \<notin> set (cptrs gs)" using of(2) dj by blast+
  have f2: "rep s2 y l" "rep s2 (top y gs) x" "repx s2 y (rp x) gs"
    using same_but_rep [OF s2(5)] same_but_repx [OF s2(5)] s1(3-5) pt nP by simp_all
  have "repc s2 h H (below (rp x) gs) (Fr False y c ny vy l # fs)"
    using s2(2,3) f2(1) nodeat_not [of True c ?P "below (rp x) gs" "rp l" ny vy] by simp
  moreover have "top h (gs @ Fr False y c ny vy l # fs) = top y gs" by (simp add: top_append)
  ultimately have "at s2 h H x (gs @ Fr False y c ny vy l # fs)"
    unfolding at_def repc_append using f2(2,3) o2 by simp
  moreover have "erase_unlink h s z = Some (s2, rp x, top y gs)"
  proof -
    have "n_left ?nz \<noteq> 0" "n_right ?nz \<noteq> 0" "descend True s (n_right ?nz) = Some y" using nz d by (simp_all add: nodeat_sides)
    from erase_unlink_two [OF s(1) this sr(1), of h] s1(1) s2(1) show ?thesis by (simp add: nodeat_sides)
  qed
  moreover have "dom s2 = dom s" using s1(6) s2(5) by (simp add: same_but_def)
  ultimately show ?thesis using s2(4) by (simp add: top_append)
qed

end
