(* ===== verification/RankFixup.thy ===== *)
theory RankFixup
  imports RankUnlink
begin

text \<open>
  The repair of the red-black condition after an erasure (\<open>eraseNodeFixup\<close>): one lemma per case
  of the code, a turn of the loop, the loop and its termination.
\<close>

section \<open>The repair after an erasure\<close>

text \<open>The focus moves between siblings, and the node in focus changes its colour.\<close>

lemma at_sibling: "at s h H t (Fr d p c n v u # fs) \<longleftrightarrow> at s h H u (Fr (\<not> d) p c n v t # fs)"
  unfolding at_plug [symmetric] by (simp add: mk_swap)

lemma at_sib: "at s h H t (Fr d p c n v u # fs) \<Longrightarrow> at s h H u (Fr (\<not> d) p c n v t # fs)"
  by (rule at_sibling [THEN iffD1])

lemma at_sib_back: "at s h H u (Fr (\<not> d) p c n v t # fs) \<Longrightarrow> at s h H t (Fr d p c n v u # fs)"
  by (rule at_sibling [THEN iffD2])

lemma at_paint:
  assumes a: "at s h H (mk d q c n v t u) fs"
  shows "\<exists>s'. upd s q (set_red e) = Some s' \<and> at s' h H (mk d q e n v t u) fs \<and> dom s' = dom s"
proof -
  have s: "s q = Some (nodeat d c (top h fs) (rp t) (rp u) n v)" "rep s q t" "rep s q u" "repc s h H q fs"
    and own: "own h (mk d q c n v t u) fs"
    using a by (simp_all add: at_def rep_mk)
  have pt: "q \<notin> set (ptrs t)" "q \<notin> set (ptrs u)" "q \<noteq> h" "q \<notin> set (cptrs fs)" using own by (auto simp: own_def ptrs_mk)
  have "own h (mk d q e n v t u) fs" using own by (auto simp: own_def ptrs_mk)
  then have "at (s(q \<mapsto> nodeat d e (top h fs) (rp t) (rp u) n v)) h H (mk d q e n v t u) fs"
    using s pt by (simp add: at_def rep_mk)
  then show ?thesis using s(1) by (intro exI [of _ "s(q \<mapsto> nodeat d e (top h fs) (rp t) (rp u) n v)"]) auto
qed

lemma at_paint_tree:
  assumes a: "at s h H t fs" and t: "t \<noteq> Lf"
  shows "\<exists>s'. upd s (rp t) (set_red False) = Some s' \<and> at s' h H (blacken t) fs \<and> dom s' = dom s"
proof -
  obtain l q n v r where e: "t = mk True q (isred t) n v l r" using t by (rule mk_of_ne [of t True])
  define c where "c = isred t"
  have t: "t = mk True q c n v l r" unfolding c_def by (rule e)
  show ?thesis using at_paint [OF a [unfolded t], of False] unfolding t by simp
qed

definition erase_case1 :: "bool \<Rightarrow> nat \<Rightarrow> 'a store \<Rightarrow> nat \<Rightarrow> nat \<Rightarrow> ('a store \<times> nat) option" where
  "erase_case1 d h s par w = do {
     s \<leftarrow> upd s w (set_red False);
     s \<leftarrow> upd s par (set_red True);
     s \<leftarrow> rotate d h s par;
     np \<leftarrow> s par;
     Some (s, child (\<not> d) np) }"

definition erase_case3 :: "bool \<Rightarrow> nat \<Rightarrow> 'a store \<Rightarrow> nat \<Rightarrow> nat \<Rightarrow> nat \<Rightarrow> ('a store \<times> nat) option" where
  "erase_case3 d h s par w near = do {
     s \<leftarrow> (if near \<noteq> 0 then upd s near (set_red False) else Some s);
     s \<leftarrow> upd s w (set_red True);
     s \<leftarrow> rotate (\<not> d) h s w;
     np \<leftarrow> s par;
     Some (s, child (\<not> d) np) }"

definition erase_case4 :: "bool \<Rightarrow> nat \<Rightarrow> 'a store \<Rightarrow> nat \<Rightarrow> nat \<Rightarrow> 'a store option" where
  "erase_case4 d h s par w = do {
     np \<leftarrow> s par;
     s \<leftarrow> upd s w (set_red (n_red np));
     s \<leftarrow> upd s par (set_red False);
     nw \<leftarrow> s w;
     s \<leftarrow> (if child (\<not> d) nw \<noteq> 0 then upd s (child (\<not> d) nw) (set_red False) else Some s);
     s \<leftarrow> rotate d h s par;
     updateNodeCountToTop h s par }"

text \<open>The part of a turn after the red sibling is gone.\<close>

definition erase_tail :: "bool \<Rightarrow> nat \<Rightarrow> 'a store \<Rightarrow> nat \<Rightarrow> nat \<Rightarrow> ('a store + 'a store \<times> nat \<times> nat) option option" where
  "erase_tail d h s par w = do {
     nw \<leftarrow> s w;
     near_red \<leftarrow> red_at s (child d nw);
     far_red \<leftarrow> red_at s (child (\<not> d) nw);
     if \<not> near_red \<and> \<not> far_red then do {
       s \<leftarrow> upd s w (set_red True);
       np \<leftarrow> s par;
       Some (Some (Inr (s, par, n_parent np))) }
     else do {
       (s, w) \<leftarrow> (if \<not> far_red then erase_case3 d h s par w (child d nw) else Some (s, w));
       s \<leftarrow> erase_case4 d h s par w;
       Some (Some (Inl s)) } }"

lemma erase_turn_alt:
  "eraseNodeFixup_turn h s x par = do {
     hd \<leftarrow> s h;
     x_red \<leftarrow> (if x = n_parent hd then Some True else red_at s x);
     if x_red then Some None
     else do {
       np \<leftarrow> s par;
       let d = (x = n_left np);
       nw \<leftarrow> s (child (\<not> d) np);
       (s, w) \<leftarrow> (if n_red nw then erase_case1 d h s par (child (\<not> d) np) else Some (s, child (\<not> d) np));
       erase_tail d h s par w } }"
  unfolding eraseNodeFixup_turn_def erase_case1_def erase_tail_def erase_case3_def erase_case4_def
  by (simp add: Let_def bind_assoc cong: if_cong)

lemma case1_ok:
  assumes a: "at s h H X (Fr d p c n v (mk d w True nw vw W1 W2) # fs)"
  shows "\<exists>s'. erase_case1 d h s p w = Some (s', rp W1) \<and> dom s' = dom s \<and>
    at s' h H X (Fr d p True (cnt X + cnt W1 + 1) v W1 # Fr d w False (cnt X + cnt W1 + 1 + cnt W2 + 1) vw W2 # fs)"
proof -
  have "at s h H (mk d w True nw vw W1 W2) (Fr (\<not> d) p c n v X # fs)" using a by (rule at_sib)
  from at_paint [OF this, of False] obtain s1 where s1: "upd s w (set_red False) = Some s1" "dom s1 = dom s"
    "at s1 h H (mk d w False nw vw W1 W2) (Fr (\<not> d) p c n v X # fs)" by blast
  have "at s1 h H X (Fr d p c n v (mk d w False nw vw W1 W2) # fs)" using s1(3) by (rule at_sib_back)
  then have "at s1 h H (mk d p c n v X (mk d w False nw vw W1 W2)) fs" by (simp add: at_plug)
  from at_paint [OF this, of True] obtain s2 where s2: "upd s1 p (set_red True) = Some s2" "dom s2 = dom s1"
    "at s2 h H (mk d p True n v X (mk d w False nw vw W1 W2)) fs" by blast
  from rotate_ok [OF s2(3)] obtain s3 where s3: "rotate d h s2 p = Some s3" "dom s3 = dom s2"
    "at s3 h H (mk d w False (cnt X + cnt W1 + 1 + cnt W2 + 1) vw (mk d p True (cnt X + cnt W1 + 1) v X W1) W2) fs" by blast
  have "s3 p = Some (nodeat d True w (rp X) (rp W1) (cnt X + cnt W1 + 1) v)" using s3(3) by (simp add: at_def rep_mk)
  then have "erase_case1 d h s p w = Some (s3, rp W1)" using s1(1) s2(1) s3(1) by (simp add: erase_case1_def)
  moreover have "at s3 h H X (Fr d p True (cnt X + cnt W1 + 1) v W1 # Fr d w False (cnt X + cnt W1 + 1 + cnt W2 + 1) vw W2 # fs)"
    using s3(3) by (simp only: at_plug)
  ultimately show ?thesis using s1(2) s2(2) s3(2) by simp
qed

lemma case3_ok:
  assumes a: "at s h H X (Fr d p c n v (mk d w False nw vw (mk (\<not> d) y True ny vy B C) W2) # fs)"
  shows "\<exists>s'. erase_case3 d h s p w y = Some (s', y) \<and> dom s' = dom s \<and>
    at s' h H X (Fr d p c n v (mk d y False (cnt W2 + cnt B + 1 + cnt C + 1) vy C (mk (\<not> d) w True (cnt W2 + cnt B + 1) vw W2 B)) # fs)"
proof -
  let ?fs = "Fr (\<not> d) p c n v X # fs"
  let ?W = "mk (\<not> d) y False (cnt W2 + cnt B + 1 + cnt C + 1) vy (mk (\<not> d) w True (cnt W2 + cnt B + 1) vw W2 B) C"
  have a': "at s h H (mk d w False nw vw (mk (\<not> d) y True ny vy B C) W2) ?fs" using a by (rule at_sib)
  then have a1: "at s h H (mk (\<not> d) y True ny vy B C) (Fr d w False nw vw W2 # ?fs)" by (simp only: at_plug)
  from at_paint [OF a1, of False] obtain s1 where s1: "upd s y (set_red False) = Some s1" "dom s1 = dom s"
    "at s1 h H (mk (\<not> d) y False ny vy B C) (Fr d w False nw vw W2 # ?fs)" by blast
  have "at s1 h H (mk d w False nw vw (mk (\<not> d) y False ny vy B C) W2) ?fs" using s1(3) by (simp only: at_plug)
  from at_paint [OF this, of True] obtain s2 where s2: "upd s1 w (set_red True) = Some s2" "dom s2 = dom s1"
    "at s2 h H (mk d w True nw vw (mk (\<not> d) y False ny vy B C) W2) ?fs" by blast
  have "at s2 h H (mk (\<not> d) w True nw vw W2 (mk (\<not> d) y False ny vy B C)) ?fs" using s2(3) by (simp add: mk_swap)
  from rotate_ok [OF this] obtain s3 where s3: "rotate (\<not> d) h s2 w = Some s3" "dom s3 = dom s2" "at s3 h H ?W ?fs" by blast
  have a3: "at s3 h H X (Fr d p c n v ?W # fs)" using s3(3) by (rule at_sib_back)
  then have "s3 p = Some (nodeat d c (top h fs) (rp X) y n v)" by (simp add: at_def)
  moreover have "y \<noteq> 0" using a1 by (auto simp: at_def own_def ptrs_mk)
  ultimately have "erase_case3 d h s p w y = Some (s3, y)" using s1(1) s2(1) s3(1) by (simp add: erase_case3_def)
  moreover have "dom s3 = dom s" using s1(2) s2(2) s3(2) by simp
  moreover note a3 [unfolded mk_swap [of d y]]
  ultimately show ?thesis by (intro exI [of _ s3] conjI)
qed

lemma case4_ok:
  assumes a: "at s h H X (Fr d p c n v (mk d w False nw vw W1 W2) # fs)" and r: "isred W2"
    and cok: "cnt_ok (plug X (Fr d p c n v (mk d w False nw vw W1 W2) # fs))"
  shows "\<exists>s' fs'. erase_case4 d h s p w = Some s' \<and> dom s' = dom s \<and> at s' h H X fs' \<and> cnt_ok (plug X fs') \<and>
    fs' = Fr d p False (cnt X + cnt W1 + 1) v W1 # Fr d w c (cnt X + cnt W1 + 1 + cnt W2 + 1) vw (blacken W2) # fs"
proof -
  let ?fs = "Fr d p False (cnt X + cnt W1 + 1) v W1 # Fr d w c (cnt X + cnt W1 + 1 + cnt W2 + 1) vw (blacken W2) # fs"
  have W2: "W2 \<noteq> Lf" using r by auto
  have "at s h H (mk d w False nw vw W1 W2) (Fr (\<not> d) p c n v X # fs)" using a by (rule at_sib)
  from at_paint [OF this, of c] obtain s1 where s1: "upd s w (set_red c) = Some s1" "dom s1 = dom s"
    "at s1 h H (mk d w c nw vw W1 W2) (Fr (\<not> d) p c n v X # fs)" by blast
  have "at s1 h H X (Fr d p c n v (mk d w c nw vw W1 W2) # fs)" using s1(3) by (rule at_sib_back)
  then have "at s1 h H (mk d p c n v X (mk d w c nw vw W1 W2)) fs" by (simp only: at_plug)
  from at_paint [OF this, of False] obtain s2 where s2: "upd s1 p (set_red False) = Some s2" "dom s2 = dom s1"
    "at s2 h H (mk d p False n v X (mk d w c nw vw W1 W2)) fs" by blast
  have "at s2 h H X (Fr d p False n v (mk d w c nw vw W1 W2) # fs)" using s2(3) by (simp only: at_plug)
  then have "at s2 h H (mk d w c nw vw W1 W2) (Fr (\<not> d) p False n v X # fs)" by (rule at_sib)
  then have a2: "at s2 h H (mk (\<not> d) w c nw vw W2 W1) (Fr (\<not> d) p False n v X # fs)" by (simp add: mk_swap)
  then have a2': "at s2 h H W2 (Fr (\<not> d) w c nw vw W1 # Fr (\<not> d) p False n v X # fs)" by (simp only: at_plug)
  from at_paint_tree [OF a2' W2] obtain s3 where s3: "upd s2 (rp W2) (set_red False) = Some s3" "dom s3 = dom s2"
    "at s3 h H (blacken W2) (Fr (\<not> d) w c nw vw W1 # Fr (\<not> d) p False n v X # fs)" by blast
  have "at s3 h H (mk (\<not> d) w c nw vw (blacken W2) W1) (Fr (\<not> d) p False n v X # fs)" using s3(3) by (simp only: at_plug)
  then have "at s3 h H (mk d w c nw vw W1 (blacken W2)) (Fr (\<not> d) p False n v X # fs)" by (simp add: mk_swap)
  then have "at s3 h H X (Fr d p False n v (mk d w c nw vw W1 (blacken W2)) # fs)" by (rule at_sib_back)
  then have "at s3 h H (mk d p False n v X (mk d w c nw vw W1 (blacken W2))) fs" by (simp only: at_plug)
  from rotate_ok [OF this] obtain s4 where s4: "rotate d h s3 p = Some s4" "dom s4 = dom s3"
    "at s4 h H (mk d w c (cnt X + cnt W1 + 1 + cnt (blacken W2) + 1) vw (mk d p False (cnt X + cnt W1 + 1) v X W1) (blacken W2)) fs"
    by blast
  have a4: "at s4 h H X ?fs" using s4(3) by (simp only: at_plug blacken_sel)
  have c4: "cnt_ok (plug X ?fs)"
  proof -
    have k: "cnt_ok (plug (mk d p c n v X (mk d w False nw vw W1 W2)) fs)" using cok by simp
    from cnt_ok_plug [OF this] have "cnt_ok X" "cnt_ok W1" "cnt_ok W2" "n = cnt X + nw + 1" "nw = cnt W1 + cnt W2 + 1"
      by (simp_all add: cnt_ok_mk)
    then have "cnt_ok (mk d w c (cnt X + cnt W1 + 1 + cnt W2 + 1) vw (mk d p False (cnt X + cnt W1 + 1) v X W1) (blacken W2))"
        "cnt X + cnt W1 + 1 + cnt W2 + 1 = n"
      by (simp_all add: cnt_ok_mk)
    with cnt_ok_replace [OF k] show ?thesis by simp
  qed
  then have ks: "recount (cnt X) ?fs = ?fs" "sibs_ok ?fs" "cnt_ok X" using recount_id by blast+
  from updateNodeCountToTop_ok [OF a4 ks(3,2)] obtain s5 where
    s5: "updateNodeCountToTop h s4 p = Some s5" "dom s5 = dom s4" "at s5 h H X ?fs" unfolding ks(1) by auto
  have e: "s p = Some (nodeat d c (top h fs) (rp X) w n v)" using a by (simp add: at_def)
  have e2: "s2 w = Some (nodeat (\<not> d) c p (rp W2) (rp W1) nw vw)" using a2 by (simp add: at_def rep_mk)
  have "0 \<notin> set (ptrs W2)" using a2' by (auto simp: at_def own_def)
  then have "rp W2 \<noteq> 0" using W2 by (rule rp_nz)
  then have "erase_case4 d h s p w = Some s5"
    using e s1(1) s2(1) e2 s3(1) s4(1) s5(1) by (simp add: erase_case4_def)
  then show ?thesis using s5(2,3) s4(2) s3(2) s2(2) s1(2) c4 by (intro exI [of _ s5] exI [of _ ?fs]) simp
qed

text \<open>
  The state of the loop: the tree in the hole lacks one black node, or has a red root that can
  become black; and the state after the last rotation.
\<close>

definition erase_inv :: "'a rt \<Rightarrow> 'a fr list \<Rightarrow> bool" where
  "erase_inv X fs \<longleftrightarrow> cnt_ok (plug X fs) \<and>
     (\<exists>m. 0 < m \<and> rbc fs m \<and> (if isred X then rb (blacken X) m else rb X (m - 1)))"

definition erase_done :: "'a rt \<Rightarrow> 'a fr list \<Rightarrow> bool" where
  "erase_done X fs \<longleftrightarrow> cnt_ok (plug X fs) \<and> \<not> isred X \<and> (\<exists>m. rb X m \<and> rbc fs m)"

lemma rb_ne: "rb t m \<Longrightarrow> 0 < m \<Longrightarrow> t \<noteq> Lf"
  by auto

lemma black_cases:
  assumes "rb t m" "0 < m" "\<not> isred t"
  obtains a q n v b where "t = mk d q False n v a b" "rb a (m - 1)" "rb b (m - 1)"
proof -
  obtain a q n v b where e: "t = mk d q (isred t) n v a b" using rb_ne [OF assms(1,2)] by (rule mk_of_ne [of t d])
  have "isred t = False" using assms(3) by simp
  then have t: "t = mk d q False n v a b" using e by (simp only:)
  then show thesis using that assms(1) by (simp add: rb_mk)
qed

lemma red_cases:
  assumes "rb t m" "isred t"
  obtains a q n v b where "t = mk d q True n v a b" "rb a m" "rb b m" "\<not> isred a" "\<not> isred b"
proof -
  have "t \<noteq> Lf" using assms(2) by auto
  then obtain a q n v b where e: "t = mk d q (isred t) n v a b" by (rule mk_of_ne [of t d])
  have "isred t = True" using assms(2) by simp
  then have t: "t = mk d q True n v a b" using e by (simp only:)
  then show thesis using that assms(1) by (simp add: rb_mk)
qed

lemma blacken_red: "rb t m \<Longrightarrow> isred t \<Longrightarrow> rb (blacken t) (Suc m)"
  by (cases t) auto

lemma case4_done:
  assumes X: "\<not> isred X" "rb X (m - 1)" "0 < m" and W: "rb W1 (m - 1)" "rb W2 (m - 1)" "isred W2"
    and fs: "if c then \<not> pred fs \<and> rbc fs m else rbc fs (Suc m)"
    and k: "cnt_ok (plug X (Fr d p False k1 v W1 # Fr d w c k2 vw (blacken W2) # fs))"
  shows "erase_done X (Fr d p False k1 v W1 # Fr d w c k2 vw (blacken W2) # fs)"
proof -
  have "rb (blacken W2) m" using blacken_red [OF W(2,3)] X(3) by simp
  then have "rbc (Fr d p False k1 v W1 # Fr d w c k2 vw (blacken W2) # fs) (m - 1)"
    using W(1) X(3) fs by (cases c) simp_all
  then show ?thesis using X k by (auto simp: erase_done_def)
qed

lemma tail_ok:
  assumes a: "at s h H X (Fr d p c n v W # fs)" and X: "\<not> isred X" "rb X (m - 1)" and W: "\<not> isred W"
    and m: "0 < m" "rbc (Fr d p c n v W # fs) m" and k: "cnt_ok (plug X (Fr d p c n v W # fs))"
  shows "(\<exists>s' fs'. erase_tail d h s p (rp W) = Some (Some (Inl s')) \<and> dom s' = dom s \<and> at s' h H X fs' \<and>
      erase_done X fs' \<and> ents (plug X fs') = ents (plug X (Fr d p c n v W # fs))) \<or>
    (\<exists>s' X'. erase_tail d h s p (rp W) = Some (Some (Inr (s', rp X', top h fs))) \<and> dom s' = dom s \<and> at s' h H X' fs \<and>
      erase_inv X' fs \<and> isred X' = c \<and> ents (plug X' fs) = ents (plug X (Fr d p c n v W # fs)))"
proof -
  have rW: "rb W m" and fs: "if c then \<not> pred fs \<and> rbc fs m else rbc fs (Suc m)" using m(2) by (cases c; simp)+
  obtain W1 w nw vw W2 where We: "W = mk d w False nw vw W1 W2" and W12: "rb W1 (m - 1)" "rb W2 (m - 1)"
    using rW m(1) W by (rule black_cases [of W m d])
  note a' = a [unfolded We]
  note k' = k [unfolded We]
  have b: "at s h H (mk d w False nw vw W1 W2) (Fr (\<not> d) p c n v X # fs)" using a' by (rule at_sib)
  then have sw: "s w = Some (nodeat d False p (rp W1) (rp W2) nw vw)" "rep s w W1" "rep s w W2"
      "0 \<notin> set (ptrs W1)" "0 \<notin> set (ptrs W2)"
    by (auto simp: at_def rep_mk own_def ptrs_mk)
  have red: "red_at s (rp W1) = Some (isred W1)" "red_at s (rp W2) = Some (isred W2)"
    using rep_reads [OF sw(2,4)] rep_reads [OF sw(3,5)] by blast+
  have rw: "rp W = w" by (simp add: We)
  consider (two) "\<not> isred W1" "\<not> isred W2" | (far) "isred W2" | (near) "isred W1" "\<not> isred W2" by blast
  then show ?thesis
  proof cases
    case two
    obtain s1 where s1: "upd s w (set_red True) = Some s1" "dom s1 = dom s"
        "at s1 h H (mk d w True nw vw W1 W2) (Fr (\<not> d) p c n v X # fs)"
      using at_paint [OF b, of True] by blast
    let ?X = "mk d p c n v X (mk d w True nw vw W1 W2)"
    have ax: "at s1 h H X (Fr d p c n v (mk d w True nw vw W1 W2) # fs)" using s1(3) by (rule at_sib_back)
    then have s1p: "s1 p = Some (nodeat d c (top h fs) (rp X) w n v)" by (simp add: at_def)
    have "erase_tail d h s p (rp W) = Some (Some (Inr (s1, rp ?X, top h fs)))"
      unfolding rw erase_tail_def using sw(1) red two s1(1) s1p by simp
    moreover have "at s1 h H ?X fs" using ax by (simp only: at_plug)
    moreover have "erase_inv ?X fs"
    proof -
      have k0: "cnt_ok (plug (mk d p c n v X (mk d w False nw vw W1 W2)) fs)" using k' by simp
      from cnt_ok_plug [OF this] have "cnt_ok ?X" by (simp add: cnt_ok_mk)
      with cnt_ok_replace [OF k0, of ?X] have "cnt_ok (plug ?X fs)" by simp
      moreover have "rb (mk d w True nw vw W1 W2) (m - 1)" using W12 two by (simp add: rb_mk)
      then have r: "rb (mk d p False n v X (mk d w True nw vw W1 W2)) m" using X(2) m(1) by (simp add: rb_mk)
      have "0 < (if c then m else Suc m) \<and> rbc fs (if c then m else Suc m) \<and>
          (if isred ?X then rb (blacken ?X) (if c then m else Suc m) else rb ?X ((if c then m else Suc m) - 1))"
        using fs r m(1) by (cases c) simp_all
      ultimately show ?thesis unfolding erase_inv_def by blast
    qed
    moreover have "ents (plug ?X fs) = ents (plug X (Fr d p c n v W # fs))" by (simp add: We ents_plug ents_mk)
    ultimately show ?thesis using s1(2) by (intro disjI2 exI [of _ s1] exI [of _ ?X]) simp
  next
    case far
    obtain s' fs' where r: "erase_case4 d h s p w = Some s'" "dom s' = dom s" "at s' h H X fs'" "cnt_ok (plug X fs')"
        "fs' = Fr d p False (cnt X + cnt W1 + 1) v W1 # Fr d w c (cnt X + cnt W1 + 1 + cnt W2 + 1) vw (blacken W2) # fs"
      using case4_ok [OF a' far k'] by blast
    have "erase_tail d h s p (rp W) = Some (Some (Inl s'))"
      unfolding rw erase_tail_def using sw(1) red far r(1) by simp
    moreover have "erase_done X fs'" using case4_done [OF X m(1) W12 far fs] r(4) unfolding r(5) by blast
    moreover have "ents (plug X fs') = ents (plug X (Fr d p c n v W # fs))" unfolding r(5) We by (simp add: ents_plug ents_mk)
    ultimately show ?thesis using r(2,3) by blast
  next
    case near
    obtain B y ny vy C where W1: "W1 = mk (\<not> d) y True ny vy B C" and BC: "rb B (m - 1)" "rb C (m - 1)" "\<not> isred B" "\<not> isred C"
      using W12(1) near(1) by (rule red_cases [of W1 "m - 1" "\<not> d"])
    let ?F = "mk (\<not> d) w True (cnt W2 + cnt B + 1) vw W2 B"
    let ?k = "cnt W2 + cnt B + 1 + cnt C + 1"
    obtain s1 where s1: "erase_case3 d h s p w y = Some (s1, y)" "dom s1 = dom s"
        "at s1 h H X (Fr d p c n v (mk d y False ?k vy C ?F) # fs)"
      using case3_ok [OF a' [unfolded W1]] by blast
    have k1: "cnt_ok (plug X (Fr d p c n v (mk d y False ?k vy C ?F) # fs))"
    proof -
      have k0: "cnt_ok (plug (mk d p c n v X (mk d w False nw vw W1 W2)) fs)" using k' by simp
      from cnt_ok_plug [OF this] have "cnt_ok (mk d p c n v X (mk d y False ?k vy C ?F))"
        by (simp add: cnt_ok_mk W1)
      with cnt_ok_replace [OF k0] show ?thesis by simp
    qed
    have rF: "isred ?F" "rb ?F (m - 1)" using W12(2) near(2) BC by (simp_all add: rb_mk)
    obtain s' fs' where r: "erase_case4 d h s1 p y = Some s'" "dom s' = dom s1" "at s' h H X fs'" "cnt_ok (plug X fs')"
        "fs' = Fr d p False (cnt X + cnt C + 1) v C # Fr d y c (cnt X + cnt C + 1 + cnt ?F + 1) vy (blacken ?F) # fs"
      using case4_ok [OF s1(3) rF(1) k1] by blast
    have "rp W1 = y" by (simp add: W1)
    then have "erase_tail d h s p (rp W) = Some (Some (Inl s'))"
      unfolding rw erase_tail_def using sw(1) red near s1(1) r(1) by simp
    moreover have "erase_done X fs'" using case4_done [OF X m(1) BC(2) rF(2,1) fs] r(4) unfolding r(5) by blast
    moreover have "ents (plug X fs') = ents (plug X (Fr d p c n v W # fs))"
      unfolding r(5) We W1 by (simp add: ents_plug ents_mk)
    ultimately show ?thesis using r(2,3) s1(2) by metis
  qed
qed

lemma erase_turn_stop:
  assumes a: "at s h H X fs" and stop: "fs = [] \<or> isred X"
  shows "eraseNodeFixup_turn h s (rp X) par = Some None"
proof -
  have r: "repc s h H (rp X) fs" "rep s (top h fs) X" "0 \<notin> set (ptrs X)" using a by (auto simp: at_def own_def)
  obtain r' where h: "s h = Some (H\<lparr>n_parent := r'\<rparr>)" "if fs = [] then r' = rp X else r' \<in> set (cptrs fs)"
    using repc_header [OF r(1)] by blast
  show ?thesis
  proof (cases "rp X = r'")
    case True
    then show ?thesis using h(1) by (simp add: eraseNodeFixup_turn_def)
  next
    case False
    then have "isred X" using stop h(2) by auto
    then have "red_at s (rp X) = Some True" using rep_reads [OF r(2,3)] by simp
    then show ?thesis using h(1) False by (simp add: eraseNodeFixup_turn_def)
  qed
qed

lemma erase_turn_go:
  assumes a: "at s h H X (Fr d p c n v W # fs)" and X: "\<not> isred X" and W: "W \<noteq> Lf"
  shows "eraseNodeFixup_turn h s (rp X) p =
    (if isred W then do { (s, w) \<leftarrow> erase_case1 d h s p (rp W); erase_tail d h s p w } else erase_tail d h s p (rp W))"
proof -
  have r: "repc s h H (rp X) (Fr d p c n v W # fs)" "rep s p X" "0 \<notin> set (ptrs X)" "own h X (Fr d p c n v W # fs)"
    using a by (auto simp: at_def own_def)
  obtain r' where h: "s h = Some (H\<lparr>n_parent := r'\<rparr>)" "r' \<in> set (cptrs (Fr d p c n v W # fs))"
    using repc_header [OF r(1)] by auto
  have dj: "set (ptrs X) \<inter> set (cptrs (Fr d p c n v W # fs)) = {}" "0 \<notin> set (cptrs (Fr d p c n v W # fs))"
    using r(4) by (auto simp: own_def)
  have ne: "rp X \<noteq> r'" using h(2) dj rp_in [of X] by auto
  have red: "red_at s (rp X) = Some False" using rep_reads [OF r(2,3)] X by simp
  have p: "s p = Some (nodeat d c (top h fs) (rp X) (rp W) n v)" "rep s p W" using r(1) by simp_all
  have "rp W \<in> set (cptrs (Fr d p c n v W # fs))" using rp_in [of W] W by (auto simp: cptrs_Fr)
  then have nW: "rp X \<noteq> rp W" using dj rp_in [of X] by auto
  have side: "(rp X = n_left (nodeat d c (top h fs) (rp X) (rp W) n v)) = d" using nW by (simp add: nodeat_sides)
  obtain nw where w: "s (rp W) = Some nw" "n_red nw = isred W" using rep_root [OF p(2) W] by blast
  show ?thesis
    unfolding erase_turn_alt using h(1) ne red p(1) side w by (simp add: Let_def)
qed

definition turns_left :: "'a rt \<Rightarrow> 'a fr list \<Rightarrow> nat" where
  "turns_left X fs = (if isred X then 0 else Suc (length fs))"

lemma erase_turn_ok:
  assumes a: "at s h H X fs" and inv: "erase_inv X fs" and go: "fs \<noteq> []" "\<not> isred X"
  shows "(\<exists>s' fs'. eraseNodeFixup_turn h s (rp X) (top h fs) = Some (Some (Inl s')) \<and> dom s' = dom s \<and> at s' h H X fs' \<and>
      erase_done X fs' \<and> ents (plug X fs') = ents (plug X fs)) \<or>
    (\<exists>s' X' fs'. eraseNodeFixup_turn h s (rp X) (top h fs) = Some (Some (Inr (s', rp X', top h fs'))) \<and> dom s' = dom s \<and>
      at s' h H X' fs' \<and> erase_inv X' fs' \<and> ents (plug X' fs') = ents (plug X fs) \<and> turns_left X' fs' < turns_left X fs)"
proof -
  obtain f fs1 where "fs = f # fs1" using go(1) by (cases fs) auto
  then obtain d p c n v W where f: "fs = Fr d p c n v W # fs1" by (cases f) simp
  obtain m where m: "0 < m" "rbc (Fr d p c n v W # fs1) m" "rb X (m - 1)" and k: "cnt_ok (plug X (Fr d p c n v W # fs1))"
    using inv go(2) unfolding erase_inv_def f by auto
  have rW: "rb W m" using m(2) by simp
  have W: "W \<noteq> Lf" using rW m(1) by (rule rb_ne)
  have tp: "top h fs = p" by (simp add: f)
  note a' = a [unfolded f]
  note go' = erase_turn_go [OF a' go(2) W]
  show ?thesis
  proof (cases "isred W")
    case False
    have e: "eraseNodeFixup_turn h s (rp X) (top h fs) = erase_tail d h s p (rp W)" using go' False unfolding tp by simp
    have less: "turns_left X' fs1 < turns_left X fs" for X' :: "'a rt" using go(2) by (simp add: turns_left_def f)
    show ?thesis using tail_ok [OF a' go(2) m(3) False m(1,2) k] less unfolding e f [symmetric] by metis
  next
    case True
    have c: "\<not> c" and fs1: "rbc fs1 (Suc m)" using m(2) True by (auto split: if_splits)
    obtain W1 w nw vw W2 where We: "W = mk d w True nw vw W1 W2" and W12: "rb W1 m" "rb W2 m" "\<not> isred W1" "\<not> isred W2"
      using rW True by (rule red_cases [of W m d])
    let ?k1 = "cnt X + cnt W1 + 1" and ?k2 = "cnt X + cnt W1 + 1 + cnt W2 + 1"
    let ?fs = "Fr d w False ?k2 vw W2 # fs1"
    obtain s1 where s1: "erase_case1 d h s p w = Some (s1, rp W1)" "dom s1 = dom s" "at s1 h H X (Fr d p True ?k1 v W1 # ?fs)"
      using case1_ok [OF a' [unfolded We]] by blast
    have k1: "cnt_ok (plug X (Fr d p True ?k1 v W1 # ?fs))"
    proof -
      have k0: "cnt_ok (plug (mk d p c n v X (mk d w True nw vw W1 W2)) fs1)" using k by (simp add: We)
      from cnt_ok_plug [OF this] have "cnt_ok (mk d w False ?k2 vw (mk d p True ?k1 v X W1) W2)"
          "?k2 = cnt (mk d p c n v X (mk d w True nw vw W1 W2))"
        by (simp_all add: cnt_ok_mk)
      with cnt_ok_replace [OF k0] show ?thesis by simp
    qed
    have m1: "rbc (Fr d p True ?k1 v W1 # ?fs) m" using W12 fs1 by simp
    have rw: "rp W = w" by (simp add: We)
    have e: "eraseNodeFixup_turn h s (rp X) (top h fs) = erase_tail d h s1 p (rp W1)"
      using go' True s1(1) unfolding tp rw by simp
    have ee: "ents (plug X (Fr d p True ?k1 v W1 # ?fs)) = ents (plug X fs)" by (simp add: f We ents_plug ents_mk)
    have less: "turns_left X' ?fs < turns_left X fs" if "isred X' = True" for X' :: "'a rt"
      using go(2) that by (simp add: turns_left_def)
    show ?thesis using tail_ok [OF s1(3) go(2) m(3) W12(3) m(1) m1 k1] less unfolding e ee s1(2) by metis
  qed
qed

lemma erase_loop:
  "at s h H X fs \<Longrightarrow> erase_inv X fs \<Longrightarrow>
     \<exists>s' X' fs'. eraseNodeFixup_loop h s (rp X) (top h fs) = Some (s', rp X') \<and> dom s' = dom s \<and> at s' h H X' fs' \<and>
       ents (plug X' fs') = ents (plug X fs) \<and> (erase_done X' fs' \<or> erase_inv X' fs' \<and> (fs' = [] \<or> isred X'))"
proof (induction "turns_left X fs" arbitrary: s X fs rule: less_induct)
  case less
  show ?case
  proof (cases "fs = [] \<or> isred X")
    case True
    have "eraseNodeFixup_loop h s (rp X) (top h fs) = Some (s, rp X)"
      using erase_turn_stop [OF less.prems(1) True, of "top h fs"] by (subst eraseNodeFixup_loop.simps) simp
    then show ?thesis using True less.prems by blast
  next
    case False
    then have go: "fs \<noteq> []" "\<not> isred X" by simp_all
    from erase_turn_ok [OF less.prems go] show ?thesis
    proof (elim disjE exE conjE)
      fix s' fs'
      assume r: "eraseNodeFixup_turn h s (rp X) (top h fs) = Some (Some (Inl s'))" "dom s' = dom s" "at s' h H X fs'"
        "erase_done X fs'" "ents (plug X fs') = ents (plug X fs)"
      have "eraseNodeFixup_loop h s (rp X) (top h fs) = Some (s', rp X)"
        using r(1) by (subst eraseNodeFixup_loop.simps) simp
      then show ?thesis using r(2-5) by blast
    next
      fix s1 X1 fs1
      assume r: "eraseNodeFixup_turn h s (rp X) (top h fs) = Some (Some (Inr (s1, rp X1, top h fs1)))" "dom s1 = dom s"
        "at s1 h H X1 fs1" "erase_inv X1 fs1" "ents (plug X1 fs1) = ents (plug X fs)" "turns_left X1 fs1 < turns_left X fs"
      have "eraseNodeFixup_loop h s (rp X) (top h fs) = eraseNodeFixup_loop h s1 (rp X1) (top h fs1)"
        using r(1) by (subst eraseNodeFixup_loop.simps) simp
      with less.hyps [OF r(6,3,4)] show ?thesis using r(2,5) by simp
    qed
  qed
qed

lemma rb_root:
  assumes "rb t k" "rbc fs k" "\<not> isred t"
  shows "(\<exists>m. rb (plug t fs) m) \<and> \<not> isred (plug t fs)"
  using plug_rb [OF assms(1,2)] assms(3) by blast

lemma eraseNodeFixup_ok:
  assumes a: "at s h H X fs" and inv: "erase_inv X fs"
  shows "\<exists>s' t'. eraseNodeFixup h s (rp X) (top h fs) = Some s' \<and> dom s' = dom s \<and> at s' h H t' [] \<and>
    ents t' = ents (plug X fs) \<and> cnt_ok t' \<and> (\<exists>m. rb t' m) \<and> \<not> isred t'"
proof -
  obtain s1 X1 fs1 where r: "eraseNodeFixup_loop h s (rp X) (top h fs) = Some (s1, rp X1)" "dom s1 = dom s" "at s1 h H X1 fs1"
      "ents (plug X1 fs1) = ents (plug X fs)" "erase_done X1 fs1 \<or> erase_inv X1 fs1 \<and> (fs1 = [] \<or> isred X1)"
    using erase_loop [OF assms] by blast
  have z: "0 \<notin> set (ptrs X1)" using r(3) by (auto simp: at_def own_def)
  have "\<exists>s'. (if rp X1 \<noteq> 0 then upd s1 (rp X1) (set_red False) else Some s1) = Some s' \<and> dom s' = dom s1 \<and>
      at s' h H (blacken X1) fs1"
  proof (cases "X1 = Lf")
    case True
    then show ?thesis using r(3) by simp
  next
    case False
    then show ?thesis using at_paint_tree [OF r(3) False] rp_nz [OF z False] by auto
  qed
  then obtain s2 where s2: "(if rp X1 \<noteq> 0 then upd s1 (rp X1) (set_red False) else Some s1) = Some s2" "dom s2 = dom s1"
      "at s2 h H (blacken X1) fs1" by blast
  let ?t = "plug (blacken X1) fs1"
  have k: "cnt_ok (plug X1 fs1)" using r(5) by (auto simp: erase_done_def erase_inv_def)
  then have kt: "cnt_ok ?t" using cnt_ok_replace [OF k, of "blacken X1"] cnt_ok_plug [OF k] by simp
  have bl: "blacken X1 = X1" if "\<not> isred X1" using that by (cases X1) simp_all
  have rb: "(\<exists>m. rb ?t m) \<and> \<not> isred ?t"
  proof (cases "erase_done X1 fs1")
    case True
    then obtain m where "rb X1 m" "rbc fs1 m" "\<not> isred X1" by (auto simp: erase_done_def)
    then show ?thesis using rb_root [of X1 m fs1] bl by simp
  next
    case False
    then obtain m where m: "rbc fs1 m" "if isred X1 then rb (blacken X1) m else rb X1 (m - 1)" and e: "fs1 = [] \<or> isred X1"
      using r(5) by (auto simp: erase_inv_def)
    show ?thesis
    proof (cases "isred X1")
      case True
      then show ?thesis using rb_root [of "blacken X1" m fs1] m by simp
    next
      case nr: False
      then have "fs1 = []" using e by simp
      then show ?thesis using m(2) nr bl by auto
    qed
  qed
  have "eraseNodeFixup h s (rp X) (top h fs) = Some s2" using r(1) s2(1) by (simp add: eraseNodeFixup_def)
  moreover have "at s2 h H ?t []" using s2(3) at_plug_all by blast
  moreover have "ents ?t = ents (plug X fs)" using r(4) by (simp add: ents_plug)
  ultimately show ?thesis using s2(2) r(2) kt rb by (intro exI [of _ s2] exI [of _ ?t]) simp
qed

end
