(* ===== verification/RankErase.thy ===== *)
theory RankErase
  imports RankFixup
begin

text \<open>
  \<open>eraseNode\<close>, both \<open>erase\<close> and \<open>clear\<close> as operations on the entries.
\<close>

section \<open>Erasing a node\<close>

lemma updateNodeCount_red:
  "updateNodeCount s q = Some s' \<Longrightarrow> map_option n_red (s' p) = map_option n_red (s p)"
  by (auto simp: updateNodeCount_def upd_def split: bind_splits)

lemma updateNodeCountToTop_red:
  assumes "updateNodeCountToTop h s q = Some s'"
  shows "\<forall>p. map_option n_red (s' p) = map_option n_red (s p)"
proof (rule updateNodeCountToTop.raw_induct [of "\<lambda>h s q s'. \<forall>p. map_option n_red (s' p) = map_option n_red (s p)", OF _ assms], goal_cases)
  case (1 f h s q s')
  show ?case
  proof (cases "q = h")
    case True
    then show ?thesis using 1(2) by simp
  next
    case False
    then obtain s1 n where u: "updateNodeCount s q = Some s1" "s1 q = Some n" "f h s1 (n_parent n) = Some s'"
      using 1(2) by (auto split: bind_splits)
    show ?thesis using 1(1) [OF u(3)] updateNodeCount_red [OF u(1)] by simp
  qed
qed

lemma sibs_ok_append: "sibs_ok (gs @ fs) \<longleftrightarrow> sibs_ok gs \<and> sibs_ok fs"
  by (induction gs rule: sibs_ok.induct) auto

lemma rbc_append: "rbc (gs @ Fr d q c n v u # fs) m = rbc (gs @ Fr d q' c n' v' u # fs) m"
proof (induction gs arbitrary: m)
  case (Cons f gs)
  obtain e p b k w t where f: "f = Fr e p b k w t" by (cases f)
  have "pred (gs @ Fr d q c n v u # fs) = pred (gs @ Fr d q' c n' v' u # fs)" by (cases gs) simp_all
  then show ?case using Cons.IH by (simp add: f)
qed simp

text \<open>The result of taking out the node \<open>z\<close>: what is left, and the colour that is lost.\<close>

lemma unlink_ok:
  assumes a: "at s h H (Nd l z c n v r) fs" and k: "cnt_ok (plug (Nd l z c n v r) fs)"
    and b: "rb (plug (Nd l z c n v r) fs) m" "\<not> isred (plug (Nd l z c n v r) fs)"
  shows "\<exists>s' X ctx lost. erase_unlink h s z = Some (s', rp X, top h ctx) \<and> at s' h H X ctx \<and>
    map_option n_red (s' z) = Some lost \<and> dom s' = dom s \<and> ents (plug X ctx) = lents fs @ ents l @ ents r @ rents fs \<and>
    cnt_ok X \<and> sibs_ok ctx \<and> (\<exists>k. rbc ctx k \<and> (if lost then rb X k \<and> \<not> isred X else 0 < k \<and> rb X (k - 1)))"
proof (cases "l = Lf \<or> r = Lf")
  case True
  let ?X = "if l = Lf then r else l"
  obtain s' where s': "erase_unlink h s z = Some (s', rp ?X, top h fs)" "at s' h H ?X fs" "map_option n_red (s' z) = Some c" "dom s' = dom s"
    using unlink_one [OF a True] by blast
  obtain k' where k': "rb (Nd l z c n v r) k'" "rbc fs k'" using rb_plug b by blast
  have "if c then rb ?X k' \<and> \<not> isred ?X else 0 < k' \<and> rb ?X (k' - 1)" using k'(1) by auto
  moreover have "cnt_ok (Nd l z c n v r)" "sibs_ok fs" using recount_id [OF k] by simp_all
  moreover have "ents (plug ?X fs) = lents fs @ ents l @ ents r @ rents fs" using True by (auto simp: ents_plug)
  ultimately show ?thesis using s' k'(2) by (intro exI [of _ s'] exI [of _ ?X] exI [of _ fs] exI [of _ c]) auto
next
  case False
  then have ne: "l \<noteq> Lf" "r \<noteq> Lf" by simp_all
  obtain y cy ny vy x gs where r: "r = plug (Nd Lf y cy ny vy x) gs" "list_all fr_side gs"
    using leftmost [OF ne(2)] by blast
  let ?ctx = "gs @ Fr False y c ny vy l # fs"
  obtain s' where s': "erase_unlink h s z = Some (s', rp x, top h ?ctx)" "at s' h H x ?ctx" "map_option n_red (s' z) = Some cy" "dom s' = dom s"
    using unlink_two [OF a [unfolded r(1)] ne(1) r(2)] by blast
  have e: "plug (Nd l z c n v r) fs = plug (Nd Lf y cy ny vy x) (gs @ Fr False z c n v l # fs)"
    by (simp add: plug_append r(1) mk_def)
  obtain k' where k': "rb (Nd Lf y cy ny vy x) k'" "rbc (gs @ Fr False z c n v l # fs) k'"
    using rb_plug [of "Nd Lf y cy ny vy x"] b unfolding e by blast
  have "rbc ?ctx k'" using k'(2) rbc_append [of gs False z c n v l fs k' y ny vy] by simp
  moreover have "if cy then rb x k' \<and> \<not> isred x else 0 < k' \<and> rb x (k' - 1)" using k'(1) by auto
  moreover have "cnt_ok (Nd Lf y cy ny vy x)" "sibs_ok (gs @ Fr False z c n v l # fs)" using recount_id [OF k [unfolded e]] by simp_all
  then have "cnt_ok x" "sibs_ok ?ctx" by (simp_all add: sibs_ok_append)
  moreover have "ents (plug x ?ctx) = lents fs @ ents l @ ents r @ rents fs"
    by (simp add: ents_plug r(1) lents_append left_context [OF r(2)])
  ultimately show ?thesis using s' by (intro exI [of _ s'] exI [of _ x] exI [of _ ?ctx] exI [of _ cy]) auto
qed

lemma erase_ends_ok:
  assumes a: "at s h H t []" and H: "header_ok h H (A @ (z, v) # B)" and h: "z \<noteq> h"
    and n: "increment s z = Some (first h B)" "decrement s z = Some (final h A)"
    and d: "z \<notin> fst ` set A" "z \<notin> fst ` set B"
  shows "\<exists>s' H'. erase_ends h s z = Some s' \<and> at s' h H' t [] \<and> dom s' = dom s \<and> n_red H' \<and>
    n_left H' = first h (A @ B) \<and> n_right H' = final h (A @ B) \<and> n_count H' = length (A @ B) + 1"
proof -
  have hd: "s h = Some (H\<lparr>n_parent := rp t\<rparr>)" using at_root [OF a] .
  have f: "n_red H" "n_left H = first h (A @ (z, v) # B)" "n_right H = final h (A @ (z, v) # B)" "n_count H = length (A @ B) + 1"
    using H by (simp_all add: header_ok_def)
  have l: "n_left H = z \<longleftrightarrow> A = []" using d(1) by (cases A) (auto simp: f(2) first_def)
  have r: "n_right H = z \<longleftrightarrow> B = []"
  proof (cases "B = []")
    case False
    then have "n_right H = fst (List.last B)" by (simp add: f(3) final_def)
    moreover have "fst (List.last B) \<in> fst ` set B" using last_in_set [OF False] by (rule imageI)
    ultimately show ?thesis using d(2) False by metis
  qed (simp add: f(3) final_def)
  consider (one) "A = []" "B = []" | (first) "A = []" "B \<noteq> []" | (final) "A \<noteq> []" "B = []" | (inner) "A \<noteq> []" "B \<noteq> []" by blast
  then show ?thesis
  proof cases
    case one
    obtain s' where s': "upd s h (\<lambda>n. n\<lparr>n_left := h, n_right := h\<rparr>) = Some s'" "at s' h (H\<lparr>n_left := h, n_right := h\<rparr>) t []" "dom s' = dom s"
      using at_header [OF a keeps_root_intros(3)] by blast
    have "erase_ends h s z = Some s'" using hd f(4) one s'(1) by (simp add: erase_ends_def)
    then show ?thesis using s'(2,3) f one
      by (intro exI [of _ s'] exI [of _ "H\<lparr>n_left := h, n_right := h\<rparr>"]) (simp add: first_def final_def)
  next
    case first
    obtain s' where s': "upd s h (set_child True (first h B)) = Some s'" "at s' h (set_child True (first h B) H) t []" "dom s' = dom s"
      using at_header [OF a keeps_root_intros(1)] by blast
    have "erase_ends h s z = Some s'" using hd f(4) first l n(1) s'(1) by (simp add: erase_ends_def)
    then show ?thesis using s'(2,3) f first
      by (intro exI [of _ s'] exI [of _ "set_child True (first h B) H"]) (simp add: first_def final_def set_child_def)
  next
    case final
    obtain s' where s': "upd s h (set_child False (final h A)) = Some s'" "at s' h (set_child False (final h A) H) t []" "dom s' = dom s"
      using at_header [OF a keeps_root_intros(1)] by blast
    have "erase_ends h s z = Some s'" using hd f(4) final l r n(2) s'(1) by (simp add: erase_ends_def)
    then show ?thesis using s'(2,3) f final
      by (intro exI [of _ s'] exI [of _ "set_child False (final h A) H"]) (simp add: first_def final_def set_child_def)
  next
    case inner
    have "erase_ends h s z = Some s" using hd f(4) inner l r by (simp add: erase_ends_def)
    then show ?thesis using a f inner by (intro exI [of _ s] exI [of _ H]) (simp add: first_def final_def)
  qed
qed

text \<open>After the link from above is set: sizes, repair, the header's count and \<open>delete\<close>.\<close>

definition erase_rest :: "nat \<Rightarrow> 'a store \<Rightarrow> nat \<Rightarrow> nat \<Rightarrow> nat \<Rightarrow> 'a store option" where
  "erase_rest h s z x par = do {
     s \<leftarrow> updateNodeCountToTop h s par;
     nz \<leftarrow> s z;
     s \<leftarrow> (if \<not> n_red nz then eraseNodeFixup h s x par else Some s);
     s \<leftarrow> upd s h (\<lambda>n. n\<lparr>n_count := n_count n - 1\<rparr>);
     Some (s(z := None)) }"

lemma eraseNode_alt:
  "eraseNode r z = do {
     s \<leftarrow> erase_ends (rs_header r) (rs_store r) z;
     (s, x, par) \<leftarrow> erase_unlink (rs_header r) s z;
     s \<leftarrow> erase_rest (rs_header r) s z x par;
     Some (r\<lparr>rs_store := s\<rparr>) }"
  by (simp add: eraseNode_def erase_rest_def Let_def bind_assoc split: prod.splits)

lemma erase_rest_ok:
  assumes a: "at s h H X ctx" and z: "map_option n_red (s z) = Some lost" "z \<noteq> h" "z \<notin> set (ptrs (plug X ctx))"
    and k: "cnt_ok X" "sibs_ok ctx" "rbc ctx k" "if lost then rb X k \<and> \<not> isred X else 0 < k \<and> rb X (k - 1)"
  shows "\<exists>s' t'. erase_rest h s z (rp X) (top h ctx) = Some s' \<and> at s' h (H\<lparr>n_count := n_count H - 1\<rparr>) t' [] \<and>
    dom s' = dom s - {z} \<and> ents t' = ents (plug X ctx) \<and> cnt_ok t' \<and> (\<exists>m. rb t' m) \<and> \<not> isred t'"
proof -
  let ?ctx = "recount (cnt X) ctx"
  obtain s1 where s1: "updateNodeCountToTop h s (top h ctx) = Some s1" "dom s1 = dom s" "at s1 h H X ?ctx"
    using updateNodeCountToTop_ok [OF a k(1,2)] by blast
  have "map_option n_red (s1 z) = Some lost" using updateNodeCountToTop_red [OF s1(1)] z(1) by simp
  then obtain nz where nz: "s1 z = Some nz" "n_red nz = lost" by auto
  have ee: "ents (plug X ?ctx) = ents (plug X ctx)" by (simp add: ents_plug)
  have tp: "top h ?ctx = top h ctx"
  proof (cases ctx)
    case (Cons f fs)
    then show ?thesis by (cases f) simp
  qed simp
  have ck: "cnt_ok (plug X ?ctx)" using k(1,2) by (rule cnt_ok_recount)
  have "\<exists>s2 t'. (if \<not> lost then eraseNodeFixup h s1 (rp X) (top h ctx) else Some s1) = Some s2 \<and> dom s2 = dom s1 \<and>
      at s2 h H t' [] \<and> ents t' = ents (plug X ?ctx) \<and> cnt_ok t' \<and> (\<exists>m. rb t' m) \<and> \<not> isred t'"
  proof (cases lost)
    case True
    then have "rb X k" "\<not> isred X" using k(4) by simp_all
    then have "(\<exists>m. rb (plug X ?ctx) m) \<and> \<not> isred (plug X ?ctx)" using rb_root [of X k ?ctx] k(3) by simp
    moreover have "at s1 h H (plug X ?ctx) []" using s1(3) at_plug_all [of s1 h H X ?ctx] by simp
    ultimately show ?thesis using True ck by (intro exI [of _ s1] exI [of _ "plug X ?ctx"]) simp
  next
    case False
    then have "0 < k" "rb X (k - 1)" using k(4) by simp_all
    then have "0 < k \<and> rbc ?ctx k \<and> (if isred X then rb (blacken X) k else rb X (k - 1))"
      using k(3) blacken_red [of X "k - 1"] by simp
    then have "erase_inv X ?ctx" unfolding erase_inv_def using ck by blast
    from eraseNodeFixup_ok [OF s1(3) this] show ?thesis using False unfolding tp by simp
  qed
  then obtain s2 t' where s2: "(if \<not> lost then eraseNodeFixup h s1 (rp X) (top h ctx) else Some s1) = Some s2" "dom s2 = dom s1"
      "at s2 h H t' []" "ents t' = ents (plug X ?ctx)" "cnt_ok t'" "\<exists>m. rb t' m" "\<not> isred t'"
    by blast
  obtain s3 where s3: "upd s2 h (\<lambda>n. n\<lparr>n_count := n_count n - 1\<rparr>) = Some s3" "at s3 h (H\<lparr>n_count := n_count H - 1\<rparr>) t' []" "dom s3 = dom s2"
    using at_header [OF s2(3), of "\<lambda>n. n\<lparr>n_count := n_count n - 1\<rparr>"] keeps_root_intros(2) [of "\<lambda>k. k - 1"] by blast
  have "ptrs t' = ptrs (plug X ctx)" using s2(4) ee by (simp add: ptrs_def)
  then have "z \<notin> set (ptrs t')" using z(3) by simp
  then have "at (s3(z := None)) h (H\<lparr>n_count := n_count H - 1\<rparr>) t' []" using s3(2) z(2) by (simp add: at_def)
  moreover have "erase_rest h s z (rp X) (top h ctx) = Some (s3(z := None))"
    using s1(1) nz s2(1) s3(1) by (simp add: erase_rest_def)
  moreover have "dom (s3(z := None)) = dom s - {z}" using s3(3) s2(2) s1(2) by simp
  ultimately show ?thesis using s2(4-7) ee by metis
qed

context strict_weak
begin

lemma eraseNode_ok:
  assumes hl: "holds lt r es" and es: "es = A @ e # B"
  shows "\<exists>r'. eraseNode r (fst e) = Some r' \<and> holds lt r' (A @ B) \<and> rs_header r' = rs_header r"
proof -
  let ?h = "rs_header r" and ?s = "rs_store r" and ?z = "fst e"
  obtain t H where t: "rset lt r t" "ents t = es" "at ?s ?h H t []" "header_ok ?h H es" "distinct (ptrs t)" "?h \<notin> set (ptrs t)"
    using holds_open [OF hl] by blast
  have inv: "dom ?s = insert ?h (set (ptrs t))" "\<forall>p \<in> insert 0 (dom ?s). p < rs_brk r" "cnt_ok t" "\<exists>m. rb t m" "\<not> isred t"
      "sorted_ents lt (A @ e # B)"
    using t(1,2) es by (auto simp: rset_def)
  have em: "e \<in> set (ents t)" using t(2) es by simp
  have zh: "?z \<noteq> ?h" using t(6) em unfolding ptrs_def by force
  have dz: "?z \<notin> fst ` set A" "?z \<notin> fst ` set B" using t(5) unfolding ptrs_def t(2) es by auto
  have H: "header_ok ?h H (A @ (?z, snd e) # B)" using t(4) es by simp
  obtain s1 H1 where s1: "erase_ends ?h ?s ?z = Some s1" "at s1 ?h H1 t []" "dom s1 = dom ?s" "n_red H1"
      "n_left H1 = first ?h (A @ B)" "n_right H1 = final ?h (A @ B)" "n_count H1 = length (A @ B) + 1"
    using erase_ends_ok [OF t(3) H zh neighbours(1,2) [OF hl es] dz] by blast
  obtain l c n u fs where zt: "t = plug (Nd l ?z c n (snd e) u) fs" using em by (rule ents_zipE)
  have "ents t = (lents fs @ ents l) @ e # (ents u @ rents fs)" using zip_split [of l ?z c n "snd e" u fs] zt by simp
  moreover have "ents t = A @ e # B" using t(2) es by simp
  ultimately have sp: "lents fs @ ents l = A" "ents u @ rents fs = B" using split_unique [OF t(5)] by blast+
  have az: "at s1 ?h H1 (Nd l ?z c n (snd e) u) fs" using s1(2) at_plug_all [of s1 ?h H1 "Nd l ?z c n (snd e) u" fs] zt by simp
  obtain m where m: "rb (plug (Nd l ?z c n (snd e) u) fs) m" using inv(4) zt by blast
  obtain s2 X ctx lost k where s2: "erase_unlink ?h s1 ?z = Some (s2, rp X, top ?h ctx)" "at s2 ?h H1 X ctx"
      "map_option n_red (s2 ?z) = Some lost" "dom s2 = dom s1" "ents (plug X ctx) = lents fs @ ents l @ ents u @ rents fs"
      "cnt_ok X" "sibs_ok ctx" "rbc ctx k" "if lost then rb X k \<and> \<not> isred X else 0 < k \<and> rb X (k - 1)"
    using unlink_ok [OF az inv(3) [unfolded zt] m inv(5) [unfolded zt]] by blast
  have eX: "ents (plug X ctx) = A @ B" using s2(5) sp by (metis append_assoc)
  then have "?z \<notin> set (ptrs (plug X ctx))" using dz unfolding ptrs_def by auto
  from erase_rest_ok [OF s2(2,3) zh this s2(6-9)] obtain s3 t' where
    s3: "erase_rest ?h s2 ?z (rp X) (top ?h ctx) = Some s3" "at s3 ?h (H1\<lparr>n_count := n_count H1 - 1\<rparr>) t' []"
      "dom s3 = dom s2 - {?z}" "ents t' = A @ B" "cnt_ok t'" "\<exists>m. rb t' m" "\<not> isred t'"
    unfolding eX by blast
  let ?r = "r\<lparr>rs_store := s3\<rparr>"
  have "eraseNode r ?z = Some ?r" using s1(1) s2(1) s3(1) by (simp add: eraseNode_alt)
  moreover have "rset lt ?r t'"
  proof -
    have "header_ok ?h (H1\<lparr>n_count := n_count H1 - 1\<rparr>) (ents t')"
      using s1(4-7) s3(4) by (simp add: header_ok_def)
    moreover have "set (ptrs t) = insert ?z (set (ptrs t'))" unfolding ptrs_def t(2) es s3(4) by auto
    then have "dom s3 = insert ?h (set (ptrs t'))"
      using s3(3,4) s2(4) s1(3) inv(1) zh dz by (auto simp: ptrs_def)
    moreover have "\<forall>p \<in> insert 0 (dom s3). p < rs_brk r" using s3(3) s2(4) s1(3) inv(2) by auto
    moreover have "sorted_ents lt (ents t')" using inv(6) unfolding s3(4) by (simp add: sorted_ents_append) (auto simp: sorted_ents_def sorted_wrt_append)
    ultimately show ?thesis using s3(2,5-7) by (auto simp: rset_def)
  qed
  ultimately show ?thesis using s3(4) unfolding holds_def by (intro exI [of _ ?r]) auto
qed

lemma rs_erase_ok:
  assumes hl: "holds lt r es" and es: "es = A @ e # B"
  shows "\<exists>r'. rs_erase r (fst e) = Some (r', first (rs_end r) B) \<and> holds lt r' (A @ B) \<and> rs_end r' = rs_end r"
proof -
  obtain r' where r: "eraseNode r (fst e) = Some r'" "holds lt r' (A @ B)" "rs_header r' = rs_header r"
    using eraseNode_ok [OF assms] by blast
  obtain t where "rs_header r \<notin> set (ptrs t)" "ents t = es" using holds_open [OF hl] by blast
  then have "fst e \<noteq> rs_header r" using es by (force simp: ptrs_def)
  then show ?thesis using r neighbours(1) [OF assms] by (simp add: rs_erase_def rs_end_def)
qed

end

lemma clearNode_ok:
  "rep s par t \<Longrightarrow> 0 \<notin> set (ptrs t) \<Longrightarrow> distinct (ptrs t) \<Longrightarrow> clearNode s (rp t) = Some (s |` (- set (ptrs t)))"
proof (induction t arbitrary: s par)
  case Lf
  show ?case by (subst clearNode.simps) (simp add: restrict_map_def)
next
  case (Nd l q c n v r)
  have s: "s q = Some (nodeat True c par (rp l) (rp r) n v)" "rep s q l" "rep s q r" using Nd.prems(1) by simp_all
  have d: "0 \<notin> set (ptrs l)" "0 \<notin> set (ptrs r)" "distinct (ptrs l)" "distinct (ptrs r)" "q \<noteq> 0"
      "set (ptrs l) \<inter> set (ptrs r) = {}"
    using Nd.prems(2,3) by auto
  let ?s = "s |` (- set (ptrs l))"
  have "rep ?s q r = rep s q r" using d(6) by (intro rep_cong) (auto simp: restrict_map_def)
  then have "rep ?s q r" using s(3) by simp
  have "clearNode s q = do { s \<leftarrow> clearNode s (rp l); s \<leftarrow> clearNode s (rp r); Some (s(q := None)) }"
    using s(1) d(5) by (subst clearNode.simps) (simp add: nodeat_sides)
  also have "\<dots> = Some ((?s |` (- set (ptrs r)))(q := None))"
    using Nd.IH(1) [OF s(2) d(1,3)] Nd.IH(2) [OF \<open>rep ?s q r\<close> d(2,4)] by simp
  also have "(?s |` (- set (ptrs r)))(q := None) = s |` (- set (ptrs (Nd l q c n v r)))"
    by (rule ext) (auto simp: restrict_map_def)
  finally show ?case by simp
qed

context strict_weak
begin

lemma rs_clear_ok:
  assumes hl: "holds lt r es"
  shows "\<exists>r'. rs_clear r = Some r' \<and> holds lt r' []"
proof -
  let ?h = "rs_header r" and ?s = "rs_store r"
  obtain t H where t: "rset lt r t" "ents t = es" "?s ?h = Some (H\<lparr>n_parent := rp t\<rparr>)" "0 \<notin> set (ptrs t)" "distinct (ptrs t)"
      "?h \<notin> set (ptrs t)" "rep ?s ?h t" "at ?s ?h H t []"
    using holds_open [OF hl] by metis
  have inv: "dom ?s = insert ?h (set (ptrs t))" "\<forall>p \<in> insert 0 (dom ?s). p < rs_brk r" using t(1) by (simp_all add: rset_def)
  let ?s1 = "?s |` (- set (ptrs t))"
  have c: "clearNode ?s (rp t) = Some ?s1" using t(7,4,5) by (rule clearNode_ok)
  have h1: "?s1 ?h = Some (H\<lparr>n_parent := rp t\<rparr>)" using t(3,6) by (simp add: restrict_map_def)
  let ?H = "H\<lparr>n_red := True, n_left := ?h, n_right := ?h, n_count := 0\<rparr>"
  let ?s2 = "?s1(?h \<mapsto> ?H\<lparr>n_parent := 0\<rparr>)"
  have "resetHeaderNode ?h ?s1 = Some ?s2" using h1 by (cases H) (simp add: resetHeaderNode_def)
  then have r: "rs_clear r = Some (r\<lparr>rs_store := ?s2\<rparr>)" using t(3) c by (simp add: rs_clear_def)
  have h0: "?h \<noteq> 0" using t(8) by (auto simp: at_def own_def)
  then have "at ?s2 ?h ?H Lf []" by (simp add: at_def own_def)
  moreover have "header_ok ?h ?H ([] :: (nat \<times> 'k) list)" by (simp add: header_ok_def first_def final_def)
  moreover have "dom ?s2 = {?h}" using inv(1) by (auto simp: restrict_map_def)
  ultimately have "rset lt (r\<lparr>rs_store := ?s2\<rparr>) Lf"
    using inv by (auto simp: rset_def sorted_ents_def)
  then show ?thesis using r unfolding holds_def by (intro exI [of _ "r\<lparr>rs_store := ?s2\<rparr>"]) (auto intro: exI [of _ Lf])
qed

lemma find_equiv:
  assumes so: "sorted_ents lt es" and f: "List.find (\<lambda>e. \<not> lt (snd e) v \<and> \<not> lt v (snd e)) es = Some e"
  shows "\<exists>A B. es = A @ e # B \<and> filter (\<lambda>e. lt (snd e) v \<or> lt v (snd e)) es = A @ B"
proof -
  obtain A B where AB: "es = A @ e # B" "\<forall>a \<in> set A. \<not> (\<not> lt (snd a) v \<and> \<not> lt v (snd a))" "\<not> lt (snd e) v \<and> \<not> lt v (snd e)"
    using find_split [OF f] by blast
  have "\<forall>b \<in> set B. lt (snd e) (snd b)" using so unfolding AB(1) by (simp add: sorted_ents_append)
  then have "\<forall>b \<in> set B. lt v (snd b)" using incomp_less AB(3) by blast
  then have "filter (\<lambda>e. lt (snd e) v \<or> lt v (snd e)) es = A @ B" using AB by (simp add: filter_id_conv)
  then show ?thesis using AB(1) by blast
qed

lemma rs_erase_value_ok:
  assumes hl: "holds lt r es"
  shows "\<exists>r'. rs_erase_value lt r v = Some (r', length es - length (filter (\<lambda>e. lt (snd e) v \<or> lt v (snd e)) es)) \<and>
    holds lt r' (filter (\<lambda>e. lt (snd e) v \<or> lt v (snd e)) es)"
proof (cases "List.find (\<lambda>e. \<not> lt (snd e) v \<and> \<not> lt v (snd e)) es")
  case None
  then have "filter (\<lambda>e. lt (snd e) v \<or> lt v (snd e)) es = es" unfolding filter_id_conv find_None_iff by blast
  moreover have "rs_erase_value lt r v = Some (r, 0)"
    using findNode_ok [OF hl, of v] None by (simp add: rs_erase_value_def found_def rs_end_def)
  ultimately show ?thesis using hl by simp
next
  case (Some e)
  obtain t where t: "rset lt r t" "ents t = es" "rs_header r \<notin> set (ptrs t)" using holds_open [OF hl] by blast
  then have "sorted_ents lt es" by (auto simp: rset_def)
  from find_equiv [OF this Some] obtain A B where
    AB: "es = A @ e # B" "filter (\<lambda>e. lt (snd e) v \<or> lt v (snd e)) es = A @ B" by blast
  have ne: "fst e \<noteq> rs_header r" using t(2,3) AB(1) by (force simp: ptrs_def)
  obtain r' where r: "rs_erase r (fst e) = Some (r', first (rs_end r) B)" "holds lt r' (A @ B)"
    using rs_erase_ok [OF hl AB(1)] by blast
  have "rs_erase_value lt r v = Some (r', 1)"
    using findNode_ok [OF hl, of v] Some ne r(1) by (simp add: rs_erase_value_def found_def rs_end_def)
  then show ?thesis using r(2) AB by simp
qed

end

section \<open>Properties\<close>

text \<open>
  C33 (refinement): \<open>erase(iter)\<close> removes exactly the entry at its position and returns the iterator
  to the next one; every other entry stays at its node, so other iterators stay valid, and the set
  is again a balanced search tree with right sizes (\<open>holds\<close>). At \<open>end()\<close> it does nothing;
  \<open>erase(value)\<close> removes the entries equivalent to the value and returns how many; \<open>clear\<close>
  leaves the empty set. None of them touches a deleted node.
\<close>

theorem rank_set_erase:
  assumes "strict_weak lt" "holds lt r es"
  shows "(\<forall>i < length es. \<exists>r'. rs_erase r (iter (rs_end r) es i) = Some (r', iter (rs_end r) es (Suc i)) \<and>
      holds lt r' (take i es @ drop (Suc i) es)) \<and>
    rs_erase r (rs_end r) = Some (r, rs_end r) \<and>
    (\<exists>r'. rs_erase_value lt r v = Some (r', length es - length (filter (\<lambda>e. lt (snd e) v \<or> lt v (snd e)) es)) \<and>
      holds lt r' (filter (\<lambda>e. lt (snd e) v \<or> lt v (snd e)) es)) \<and>
    (\<exists>r'. rs_clear r = Some r' \<and> holds lt r' [])"
proof (intro conjI allI impI)
  fix i assume i: "i < length es"
  have es: "es = take i es @ es ! i # drop (Suc i) es" using i by (simp add: id_take_nth_drop)
  have "iter (rs_end r) es i = fst (es ! i)" using i by (simp add: iter_def)
  then show "\<exists>r'. rs_erase r (iter (rs_end r) es i) = Some (r', iter (rs_end r) es (Suc i)) \<and>
      holds lt r' (take i es @ drop (Suc i) es)"
    using strict_weak.rs_erase_ok [OF assms es] by (auto simp: iter_first)
next
  show "rs_erase r (rs_end r) = Some (r, rs_end r)" by (simp add: rs_erase_def)
  show "\<exists>r'. rs_erase_value lt r v = Some (r', length es - length (filter (\<lambda>e. lt (snd e) v \<or> lt v (snd e)) es)) \<and>
      holds lt r' (filter (\<lambda>e. lt (snd e) v \<or> lt v (snd e)) es)"
    using strict_weak.rs_erase_value_ok [OF assms] .
  show "\<exists>r'. rs_clear r = Some r' \<and> holds lt r' []" using strict_weak.rs_clear_ok [OF assms] .
qed

theorem rank_set_erase_witness:
  "(\<exists>r'. rs_erase sample_set 2 = Some (r', 4) \<and> holds (<) r' [(3, 3), (4, 8)]) \<and>
   (\<exists>r'. rs_erase_value (<) sample_set 8 = Some (r', 1) \<and> holds (<) r' [(3, 3), (2, 5)])"
  using rank_set_erase [OF strict_weak_nat sample_set_holds, of 8]
  by (simp add: iter_def rs_end_def sample_set_def eval_nat_numeral All_less_Suc)

end
