(* ===== verification/RankCopy.thy ===== *)
theory RankCopy
  imports RankErase
begin

text \<open>
  Copies of whole sets: \<open>copyNodes\<close> makes a tree of the same shape from new nodes.
\<close>

fun renum :: "nat \<Rightarrow> 'a rt \<Rightarrow> 'a rt" where
  "renum b Lf = Lf"
| "renum b (Nd l q c n v r) = Nd (renum (b + 1) l) b c n v (renum (b + 1 + length (ents l)) r)"

lemma renum_sel [simp]: "isred (renum b t) = isred t" "cnt (renum b t) = cnt t" "renum b t = Lf \<longleftrightarrow> t = Lf"
  by (cases t; simp)+

lemma renum_ents: "map snd (ents (renum b t)) = map snd (ents t)"
  by (induction t arbitrary: b) simp_all

lemma renum_length [simp]: "length (ents (renum b t)) = length (ents t)"
  using renum_ents [of b t] by (metis length_map)

lemma renum_cnt_ok [simp]: "cnt_ok (renum b t) = cnt_ok t"
  by (induction t arbitrary: b) simp_all

lemma renum_rb [simp]: "rb (renum b t) m = rb t m"
  by (induction t arbitrary: b m) simp_all

lemma renum_ptrs: "set (ptrs (renum b t)) = {b..<b + length (ents t)} \<and> distinct (ptrs (renum b t))"
proof (induction t arbitrary: b)
  case (Nd l q c n v r)
  have "set (ptrs (renum (b + 1) l)) = {b + 1..<b + 1 + length (ents l)}"
    "set (ptrs (renum (b + 1 + length (ents l)) r)) = {b + 1 + length (ents l)..<b + 1 + length (ents l) + length (ents r)}"
    using Nd.IH by blast+
  moreover have "distinct (ptrs (renum (b + 1) l))" "distinct (ptrs (renum (b + 1 + length (ents l)) r))" using Nd.IH by blast+
  ultimately show ?case by auto
qed simp

lemma nodeat_fold:
  "\<lparr>n_red = c, n_parent = p, n_left = a, n_right = b, n_count = n, n_value = v\<rparr> = nodeat True c p a b n v"
  by (simp add: nodeat_def)

lemma copyNodes_ok:
  "rep other par t \<Longrightarrow> 0 \<notin> set (ptrs t) \<Longrightarrow> 0 < b \<Longrightarrow> (\<forall>p \<in> dom s. p < b) \<Longrightarrow>
     \<exists>s'. copyNodes other (rp t) s b = Some (s', b + length (ents t), rp (renum b t)) \<and> rep s' 0 (renum b t) \<and>
       (\<forall>p < b. s' p = s p) \<and> dom s' = dom s \<union> {b..<b + length (ents t)}"
proof (induction t arbitrary: par s b)
  case Lf
  show ?case by (subst copyNodes.simps) simp
next
  case (Nd l q c n v r)
  have o: "other q = Some (nodeat True c par (rp l) (rp r) n v)" "rep other q l" "rep other q r" using Nd.prems(1) by simp_all
  have z: "0 \<notin> set (ptrs l)" "0 \<notin> set (ptrs r)" "q \<noteq> 0" using Nd.prems(2) by auto
  let ?b2 = "b + 1 + length (ents l)"
  let ?l = "renum (b + 1) l" and ?r = "renum ?b2 r"
  let ?s1 = "s(b \<mapsto> nodeat True c 0 0 0 n v)"
  have below: "p < b" if "s p = Some y" for p y using Nd.prems(4) domI [of s p y] that by blast
  have bound1: "\<forall>p \<in> dom ?s1. p < b + 1" using below by (auto simp: less_Suc_eq)
  have pos: "0 < b + 1" "0 < ?b2" by simp_all
  obtain s2 where s2: "copyNodes other (rp l) ?s1 (b + 1) = Some (s2, ?b2, rp ?l)" "rep s2 0 ?l"
      "\<forall>p < b + 1. s2 p = ?s1 p" "dom s2 = dom ?s1 \<union> {b + 1..<?b2}"
    using Nd.IH(1) [OF o(2) z(1) pos(1) bound1] by blast
  have b2: "s2 b = Some (nodeat True c 0 0 0 n v)" using s2(3) by simp
  let ?s3 = "s2(b \<mapsto> nodeat True c 0 (rp ?l) 0 n v)"
  have pl: "set (ptrs ?l) = {b + 1..<?b2}" "distinct (ptrs ?l)" using renum_ptrs [of "b + 1" l] by blast+
  have pr: "set (ptrs ?r) = {?b2..<?b2 + length (ents r)}" "distinct (ptrs ?r)" using renum_ptrs [of ?b2 r] by blast+
  have l3: "rep ?s3 0 ?l" using s2(2) pl by simp
  have d3: "dom ?s3 = dom s \<union> {b} \<union> {b + 1..<?b2}" using s2(4) by auto
  have bound3: "\<forall>p \<in> dom ?s3. p < ?b2"
  proof
    fix p assume "p \<in> dom ?s3"
    then consider "p \<in> dom s" | "p = b" | "p \<in> {b + 1..<?b2}" unfolding d3 by blast
    then show "p < ?b2"
    proof cases
      case 1
      then have "p < b" using Nd.prems(4) by blast
      then show ?thesis by simp
    qed simp_all
  qed
  obtain s4 where s4: "copyNodes other (rp r) ?s3 ?b2 = Some (s4, ?b2 + length (ents r), rp ?r)" "rep s4 0 ?r"
      "\<forall>p < ?b2. s4 p = ?s3 p" "dom s4 = dom ?s3 \<union> {?b2..<?b2 + length (ents r)}"
    using Nd.IH(2) [OF o(3) z(2) pos(2) bound3] by blast
  have b4: "s4 b = Some (nodeat True c 0 (rp ?l) 0 n v)" using s4(3) by simp
  have "rep s4 0 ?l = rep ?s3 0 ?l" using s4(3) pl(1) by (intro rep_cong) simp
  then have l4: "rep s4 0 ?l" using l3 by simp
  let ?s5 = "s4(b \<mapsto> nodeat True c 0 (rp ?l) (rp ?r) n v)"
  have l5: "rep ?s5 0 ?l" and r5: "rep ?s5 0 ?r" using l4 s4(2) pl pr by simp_all
  have nz: "0 \<notin> set (ptrs ?l)" "0 \<notin> set (ptrs ?r)" using pl(1) pr(1) by simp_all
  obtain s6 where s6: "relink ?s5 (rp ?l) b = Some s6" "rep s6 b ?l" "same_but (set (ptrs ?l)) ?s5 s6"
    using set_parent_ok [OF l5 nz(1) pl(2), of b] by blast
  have r6: "rep s6 0 ?r" using same_but_rep [OF s6(3), of ?r 0] r5 pl(1) pr(1) by auto
  obtain s7 where s7: "relink s6 (rp ?r) b = Some s7" "rep s7 b ?r" "same_but (set (ptrs ?r)) s6 s7"
    using set_parent_ok [OF r6 nz(2) pr(2), of b] by blast
  have l7: "rep s7 b ?l" using same_but_rep [OF s7(3), of ?l b] s6(2) pl(1) pr(1) by auto
  have at: "s7 p = ?s5 p" if "p < b + 1" for p
    using same_but_at [OF s7(3), of p] same_but_at [OF s6(3), of p] that pl(1) pr(1) by simp
  have "copyNodes other q s b = Some (s7, b + length (ents (Nd l q c n v r)), b)"
    using o(1) z(3) s2(1) b2 s4(1) b4 s6(1) s7(1)
    by (subst copyNodes.simps) (simp add: nodeat_sides nodeat_fold Let_def)
  moreover have "rep s7 0 (renum b (Nd l q c n v r))" using at [of b] l7 s7(2) by simp
  moreover have "\<forall>p < b. s7 p = s p" using at s4(3) s2(3) by simp
  moreover have "dom s7 = dom s \<union> {b..<b + length (ents (Nd l q c n v r))}"
  proof -
    have "dom s7 = dom ?s5" using s6(3) s7(3) by (simp add: same_but_def)
    also have "\<dots> = dom s \<union> {b} \<union> {b + 1..<?b2} \<union> {?b2..<?b2 + length (ents r)}" using s4(4) d3 by auto
    also have "\<dots> = dom s \<union> {b..<b + length (ents (Nd l q c n v r))}" by auto
    finally show ?thesis .
  qed
  ultimately show ?case by auto
qed

context strict_weak
begin

lemma sorted_values: "map snd es' = map snd es \<Longrightarrow> sorted_ents lt es' = sorted_ents lt es"
  by (simp add: sorted_ents_def)

lemma rs_copy_ok:
  assumes hl: "holds lt r es"
  shows "\<exists>r' es'. rs_copy dflt r = Some r' \<and> holds lt r' es' \<and> map snd es' = map snd es"
proof -
  obtain t H where t: "rset lt r t" "ents t = es" "rs_store r (rs_header r) = Some (H\<lparr>n_parent := rp t\<rparr>)" "0 \<notin> set (ptrs t)"
      "rep (rs_store r) (rs_header r) t" "header_ok (rs_header r) H es"
    using holds_open [OF hl] by metis
  have inv: "cnt_ok t" "\<exists>m. rb t m" "\<not> isred t" "sorted_ents lt es" using t(1,2) by (auto simp: rset_def)
  let ?t = "renum 2 t"
  let ?s0 = "rs_store (rs_new dflt)"
  let ?H = "\<lparr>n_red = True, n_parent = 0, n_left = 1, n_right = 1, n_count = 0, n_value = dflt\<rparr>"
  have s0: "?s0 1 = Some ?H" "dom ?s0 = {1}" by (simp_all add: rs_new_def)
  have bound: "\<forall>p \<in> dom ?s0. p < 2" and two: "(0::nat) < 2" using s0(2) by simp_all
  obtain s1 where s1: "copyNodes (rs_store r) (rp t) ?s0 2 = Some (s1, 2 + length (ents t), rp ?t)" "rep s1 0 ?t"
      "\<forall>p < 2. s1 p = ?s0 p" "dom s1 = dom ?s0 \<union> {2..<2 + length (ents t)}"
    using copyNodes_ok [OF t(5,4) two bound] by blast
  have p: "set (ptrs ?t) = {2..<2 + length (ents t)}" "distinct (ptrs ?t)" using renum_ptrs [of 2 t] by blast+
  have h1: "s1 1 = Some ?H" using s1(3) s0(1) by simp
  let ?s2 = "s1(1 \<mapsto> ?H\<lparr>n_parent := rp ?t\<rparr>)"
  have "rep ?s2 0 ?t" using s1(2) p by simp
  moreover have "0 \<notin> set (ptrs ?t)" using p by simp
  ultimately obtain s3 where s3: "relink ?s2 (rp ?t) 1 = Some s3" "rep s3 1 ?t" "same_but (set (ptrs ?t)) ?s2 s3"
    using set_parent_ok [of ?s2 0 ?t 1] p(2) by blast
  have h3: "s3 1 = Some (?H\<lparr>n_parent := rp ?t\<rparr>)" using same_but_at [OF s3(3), of 1] p by simp
  have a3: "at s3 1 ?H ?t []" using s3(2) h3 p by (simp add: at_def own_def)
  have cnt: "n_count H = length es" using t(6) by (simp add: header_ok_def)
  have k: "keeps_root (\<lambda>n. n\<lparr>n_count := length es\<rparr>)" by (simp add: keeps_root_def)
  obtain s4 where s4: "upd s3 1 (\<lambda>n. n\<lparr>n_count := length es\<rparr>) = Some s4" "at s4 1 (?H\<lparr>n_count := length es\<rparr>) ?t []" "dom s4 = dom s3"
    using at_header [OF a3 k] by blast
  let ?ends = "\<lambda>s. if rp ?t = 0 then upd s 1 (\<lambda>n. n\<lparr>n_left := 1, n_right := 1\<rparr>)
     else do { a \<leftarrow> descend True s (rp ?t); s \<leftarrow> upd s 1 (set_child True a); b \<leftarrow> descend False s (rp ?t); upd s 1 (set_child False b) }"
  have z4: "0 \<notin> set (ptrs ?t)" using p by simp
  have "\<exists>s5 H5. ?ends s4 = Some s5 \<and> at s5 1 H5 ?t [] \<and> header_ok 1 H5 (ents ?t) \<and> dom s5 = dom s4"
  proof (cases "t = Lf")
    case True
    then have es: "es = []" using t(2) by simp
    obtain s5 where "upd s4 1 (\<lambda>n. n\<lparr>n_left := 1, n_right := 1\<rparr>) = Some s5" "dom s5 = dom s4"
        "at s5 1 (?H\<lparr>n_count := length es, n_left := 1, n_right := 1\<rparr>) ?t []"
      using at_header [OF s4(2) keeps_root_intros(3)] by blast
    then show ?thesis using True es
      by (intro exI [of _ s5] exI [of _ "?H\<lparr>n_count := length es, n_left := 1, n_right := 1\<rparr>"])
         (simp add: header_ok_def first_def final_def)
  next
    case False
    then have ne: "?t \<noteq> Lf" by simp
    have ents: "ents ?t \<noteq> []" using ne by (cases ?t) auto
    have nz: "rp ?t \<noteq> 0" using z4 ne by (rule rp_nz)
    have d1: "descend True s4 (rp ?t) = Some (first 1 (ents ?t))"
      using descend_ok [OF _ z4 ne, of s4 1 True] s4(2) ents by (simp add: at_def first_def)
    obtain s5 where s5: "upd s4 1 (set_child True (first 1 (ents ?t))) = Some s5" "dom s5 = dom s4"
        "at s5 1 (set_child True (first 1 (ents ?t)) (?H\<lparr>n_count := length es\<rparr>)) ?t []"
      using at_header [OF s4(2) keeps_root_intros(1)] by blast
    have d2: "descend False s5 (rp ?t) = Some (final 1 (ents ?t))"
      using descend_ok [OF _ z4 ne, of s5 1 False] s5(3) ents by (simp add: at_def final_def)
    obtain s6 where s6: "upd s5 1 (set_child False (final 1 (ents ?t))) = Some s6" "dom s6 = dom s5"
        "at s6 1 (set_child False (final 1 (ents ?t)) (set_child True (first 1 (ents ?t)) (?H\<lparr>n_count := length es\<rparr>))) ?t []"
      using at_header [OF s5(3) keeps_root_intros(1)] by blast
    have "?ends s4 = Some s6" using nz d1 s5(1) d2 s6(1) by simp
    then show ?thesis using s6(2,3) s5(2) t(2)
      by (intro exI [of _ s6] exI conjI) (assumption | simp add: header_ok_def set_child_def)+
  qed
  then obtain s5 H5 where s5: "?ends s4 = Some s5" "at s5 1 H5 ?t []" "header_ok 1 H5 (ents ?t)" "dom s5 = dom s4" by blast
  let ?r = "\<lparr>rs_store = s5, rs_brk = 2 + length (ents t), rs_header = 1\<rparr>"
  have "upd s1 1 (set_parent (rp ?t)) = Some ?s2" using h1 by (simp add: set_parent_def)
  then have "rs_copy dflt r = Some ?r"
    using t(3) s1(1) s3(1) s4(1) s5(1) cnt by (simp add: rs_copy_def rs_new_def del: One_nat_def add_2_eq_Suc cong: if_cong)
  moreover have "rset lt ?r ?t"
  proof -
    have "dom s5 = insert 1 (set (ptrs ?t))"
      using s5(4) s4(3) s3(3) s1(4) s0(2) p by (auto simp: same_but_def)
    moreover have "\<forall>q \<in> insert 0 (insert 1 (set (ptrs ?t))). q < 2 + length (ents t)" using p(1) by auto
    moreover have "sorted_ents lt (ents ?t)" using sorted_values [OF renum_ents [of 2 t]] inv(4) t(2) by simp
    ultimately show ?thesis using s5(2,3) inv by (auto simp: rset_def)
  qed
  ultimately show ?thesis using renum_ents [of 2 t] t(2)
    by (intro exI [of _ ?r] exI [of _ "ents ?t"]) (auto simp: holds_def)
qed

end

text \<open>
  Copying a set gives a set of its own nodes that holds the same values in the
  same order; assignment makes the destination such a copy (or leaves it alone when it is the
  source), and moving leaves the nodes in place and the source empty.
\<close>

lemma rank_set_copy:
  assumes "strict_weak lt" "holds lt r es" "holds lt a fs"
  shows "(\<exists>r' es'. rs_copy dflt r = Some r' \<and> rs_assign dflt False a r = Some r' \<and> holds lt r' es' \<and>
      map snd es' = map snd es) \<and>
    rs_assign dflt True r r = Some r \<and>
    (\<exists>x y. rs_assign_move dflt a r = (x, y) \<and> holds lt x es \<and> holds lt y [])"
proof -
  obtain r' es' where r': "rs_copy dflt r = Some r'" "holds lt r' es'" "map snd es' = map snd es"
    using strict_weak.rs_copy_ok [OF assms(1,2)] by blast
  then have "rs_assign dflt False a r = Some r'" by (simp add: rs_assign_def rs_swap_def)
  moreover have "rs_assign_move dflt a r = (r, rs_new dflt)" by (simp add: rs_assign_move_def rs_move_def rs_swap_def)
  ultimately show ?thesis using r' assms(2) holds_new [of lt dflt] by (auto simp: rs_assign_def)
qed

end
