(* ===== verification/IoDevice.thy ===== *)
theory IoDevice
  imports Prelude TimerHeap
begin

text \<open>
  Model of \<open>src/brickred/io_device.cc\<close> and of the device registration in
  \<open>src/brickred/io_service.cc\<close>. The operating system is a parameter: \<open>sys\<close> has one field per
  system call, a function of the arguments that transforms \<open>errno\<close> and the world. Devices live
  in a store of addresses; \<open>None\<close> is the dereference of a null or dangling pointer. The
  callbacks of a device are values of a type \<open>'d\<close>, those of a timer of a type \<open>'c\<close>.
\<close>

section \<open>The operating system\<close>

datatype protocol = UNKNOWN | IP_V4 | IP_V6

datatype sockopt = OPT_REUSEADDR | OPT_TCP_NODELAY

datatype shut_how = SHUT_RD | SHUT_WR | SHUT_RDWR

datatype fcntl_cmd = F_GETFL | F_SETFL | F_GETFD | F_SETFD

datatype epoll_op = EPOLL_CTL_ADD | EPOLL_CTL_DEL | EPOLL_CTL_MOD

text \<open>
  \<open>struct epoll_event\<close>: the pointer, \<open>EPOLLOUT\<close>, one of \<open>EPOLLIN\<close>, \<open>EPOLLPRI\<close>, \<open>EPOLLRDHUP\<close>,
  and one of \<open>EPOLLERR\<close>, \<open>EPOLLHUP\<close>.
\<close>

record epoll_event =
  ev_ptr :: nat
  ev_out :: bool
  ev_in :: bool
  ev_err :: bool

type_synonym ('r, 'w) call = "int \<times> 'w \<Rightarrow> 'r \<times> int \<times> 'w"

record 'w sys =
  sy_malloc :: "nat set \<Rightarrow> 'w \<Rightarrow> nat \<times> 'w"
  sy_now :: "(timestamp, 'w) call"
  sy_socket :: "protocol \<Rightarrow> (int, 'w) call"
  sy_close :: "int \<Rightarrow> (int, 'w) call"
  sy_dup :: "int \<Rightarrow> (int, 'w) call"
  sy_fcntl :: "int \<Rightarrow> fcntl_cmd \<Rightarrow> int \<Rightarrow> (int, 'w) call"
  sy_connect :: "int \<Rightarrow> bytes \<Rightarrow> (int, 'w) call"
  sy_bind :: "int \<Rightarrow> bytes \<Rightarrow> (int, 'w) call"
  sy_listen :: "int \<Rightarrow> int \<Rightarrow> (int, 'w) call"
  sy_accept :: "int \<Rightarrow> (int, 'w) call"
  sy_getsockname :: "int \<Rightarrow> (int \<times> bytes, 'w) call"
  sy_getpeername :: "int \<Rightarrow> (int \<times> bytes, 'w) call"
  sy_fionread :: "int \<Rightarrow> (int \<times> int, 'w) call"
  sy_recv :: "int \<Rightarrow> nat \<Rightarrow> (int \<times> bytes, 'w) call"
  sy_send :: "int \<Rightarrow> bytes \<Rightarrow> (int, 'w) call"
  sy_shutdown :: "int \<Rightarrow> shut_how \<Rightarrow> (int, 'w) call"
  sy_read :: "int \<Rightarrow> nat \<Rightarrow> (int \<times> bytes, 'w) call"
  sy_write :: "int \<Rightarrow> bytes \<Rightarrow> (int, 'w) call"
  sy_so_error :: "int \<Rightarrow> (int \<times> int, 'w) call"
  sy_setsockopt :: "int \<Rightarrow> sockopt \<Rightarrow> (int, 'w) call"
  sy_epoll_ctl :: "epoll_op \<Rightarrow> int \<Rightarrow> epoll_event \<Rightarrow> (int, 'w) call"
  sy_epoll_wait :: "nat \<Rightarrow> int \<Rightarrow> (epoll_event list option, 'w) call"

text \<open>Error numbers and flags of the platform.\<close>

definition EINTR :: int where "EINTR = 4"
definition EAGAIN :: int where "EAGAIN = 11"
definition ENFILE :: int where "ENFILE = 23"
definition EMFILE :: int where "EMFILE = 24"
definition EAFNOSUPPORT :: int where "EAFNOSUPPORT = 97"
definition ECONNABORTED :: int where "ECONNABORTED = 103"
definition ENOBUFS :: int where "ENOBUFS = 105"
definition ETIMEDOUT :: int where "ETIMEDOUT = 110"
definition EINPROGRESS :: int where "EINPROGRESS = 115"
definition O_NONBLOCK :: int where "O_NONBLOCK = 2048"
definition FD_CLOEXEC :: int where "FD_CLOEXEC = 1"

lemmas errno_defs = EINTR_def EAGAIN_def ENFILE_def EMFILE_def EAFNOSUPPORT_def ECONNABORTED_def
  ENOBUFS_def ETIMEDOUT_def EINPROGRESS_def

section \<open>State\<close>

record 'd device =
  dv_attached :: bool
  dv_id :: int
  dv_fd :: int
  dv_read :: "'d option"
  dv_write :: "'d option"
  dv_error :: "'d option"

record ('d, 'c, 'w) io =
  io_world :: 'w
  io_errno :: int
  io_devices :: "nat \<rightharpoonup> 'd device"
  io_removed :: "nat set"
  io_quit :: bool
  io_events_size :: nat
  io_timers :: "'c timer_heap"

definition device_new :: "'d device" where
  "device_new = \<lparr>dv_attached = False, dv_id = 0, dv_fd = -1, dv_read = None, dv_write = None, dv_error = None\<rparr>"

definition syscall :: "('r, 'w) call \<Rightarrow> ('d, 'c, 'w, 'z) io_scheme \<Rightarrow> 'r \<times> ('d, 'c, 'w, 'z) io_scheme" where
  "syscall f s = (case f (io_errno s, io_world s) of (r, e, w) \<Rightarrow> (r, s\<lparr>io_errno := e, io_world := w\<rparr>))"

definition set_device :: "nat \<Rightarrow> ('d device \<Rightarrow> 'd device) \<Rightarrow> ('d, 'c, 'w, 'z) io_scheme \<Rightarrow>
    ('d, 'c, 'w, 'z) io_scheme option" where
  "set_device p f s = do {
     d \<leftarrow> io_devices s p;
     Some (s\<lparr>io_devices := (io_devices s)(p \<mapsto> f d)\<rparr>) }"

text \<open>\<open>new\<close> gives an address that is not in use; it may be one that was in use before.\<close>

definition new_device :: "'w sys \<Rightarrow> ('d, 'c, 'w, 'z) io_scheme \<Rightarrow> nat \<times> ('d, 'c, 'w, 'z) io_scheme" where
  "new_device os s =
     (case sy_malloc os (dom (io_devices s)) (io_world s) of
        (p, w) \<Rightarrow> (p, s\<lparr>io_devices := (io_devices s)(p \<mapsto> device_new), io_world := w\<rparr>))"

section \<open>Registration with the event loop\<close>

definition device_event :: "nat \<Rightarrow> 'd device \<Rightarrow> epoll_event" where
  "device_event p d = \<lparr>ev_ptr = p, ev_out = (dv_write d \<noteq> None), ev_in = (dv_read d \<noteq> None), ev_err = False\<rparr>"

definition empty_event :: epoll_event where
  "empty_event = \<lparr>ev_ptr = 0, ev_out = False, ev_in = False, ev_err = False\<rparr>"

definition addIODevice :: "'w sys \<Rightarrow> nat \<Rightarrow> ('d, 'c, 'w, 'z) io_scheme \<Rightarrow>
    (bool \<times> ('d, 'c, 'w, 'z) io_scheme) option" where
  "addIODevice os p s = do {
     d \<leftarrow> io_devices s p;
     let (r, s) = syscall (sy_epoll_ctl os EPOLL_CTL_ADD (dv_fd d) (device_event p d)) s;
     Some (r = 0, s) }"

definition removeIODevice :: "'w sys \<Rightarrow> nat \<Rightarrow> ('d, 'c, 'w, 'z) io_scheme \<Rightarrow>
    ('d, 'c, 'w, 'z) io_scheme option" where
  "removeIODevice os p s = do {
     d \<leftarrow> io_devices s p;
     let (r, s) = syscall (sy_epoll_ctl os EPOLL_CTL_DEL (dv_fd d) empty_event) s;
     Some (s\<lparr>io_removed := insert p (io_removed s)\<rparr>) }"

definition updateIODevice :: "'w sys \<Rightarrow> nat \<Rightarrow> ('d, 'c, 'w, 'z) io_scheme \<Rightarrow>
    (bool \<times> ('d, 'c, 'w, 'z) io_scheme) option" where
  "updateIODevice os p s = do {
     d \<leftarrow> io_devices s p;
     let (r, s) = syscall (sy_epoll_ctl os EPOLL_CTL_MOD (dv_fd d) (device_event p d)) s;
     Some (r = 0, s) }"

section \<open>Operations of a device\<close>

definition detachIOService :: "'w sys \<Rightarrow> nat \<Rightarrow> ('d, 'c, 'w, 'z) io_scheme \<Rightarrow>
    ('d, 'c, 'w, 'z) io_scheme option" where
  "detachIOService os p s = do {
     d \<leftarrow> io_devices s p;
     if \<not> dv_attached d then Some s
     else do {
       s \<leftarrow> removeIODevice os p s;
       set_device p (dv_attached_update (\<lambda>_. False)) s } }"

definition attachIOService :: "'w sys \<Rightarrow> nat \<Rightarrow> ('d, 'c, 'w, 'z) io_scheme \<Rightarrow>
    (bool \<times> ('d, 'c, 'w, 'z) io_scheme) option" where
  "attachIOService os p s = do {
     d \<leftarrow> io_devices s p;
     s \<leftarrow> (if dv_attached d then detachIOService os p s else Some s);
     (ok, s) \<leftarrow> addIODevice os p s;
     if \<not> ok then Some (False, s)
     else do {
       s \<leftarrow> set_device p (dv_attached_update (\<lambda>_. True)) s;
       Some (True, s) } }"

definition update_if_attached :: "'w sys \<Rightarrow> nat \<Rightarrow> ('d, 'c, 'w, 'z) io_scheme \<Rightarrow>
    ('d, 'c, 'w, 'z) io_scheme option" where
  "update_if_attached os p s = do {
     d \<leftarrow> io_devices s p;
     if dv_attached d then do { (ok, s) \<leftarrow> updateIODevice os p s; Some s } else Some s }"

definition setReadCallback :: "'w sys \<Rightarrow> nat \<Rightarrow> 'd option \<Rightarrow> ('d, 'c, 'w, 'z) io_scheme \<Rightarrow>
    ('d, 'c, 'w, 'z) io_scheme option" where
  "setReadCallback os p cb s = do {
     s \<leftarrow> set_device p (dv_read_update (\<lambda>_. cb)) s;
     update_if_attached os p s }"

definition setWriteCallback :: "'w sys \<Rightarrow> nat \<Rightarrow> 'd option \<Rightarrow> ('d, 'c, 'w, 'z) io_scheme \<Rightarrow>
    ('d, 'c, 'w, 'z) io_scheme option" where
  "setWriteCallback os p cb s = do {
     s \<leftarrow> set_device p (dv_write_update (\<lambda>_. cb)) s;
     update_if_attached os p s }"

definition setErrorCallback :: "nat \<Rightarrow> 'd option \<Rightarrow> ('d, 'c, 'w, 'z) io_scheme \<Rightarrow>
    ('d, 'c, 'w, 'z) io_scheme option" where
  "setErrorCallback p cb s = set_device p (dv_error_update (\<lambda>_. cb)) s"

definition setId :: "nat \<Rightarrow> int \<Rightarrow> ('d, 'c, 'w, 'z) io_scheme \<Rightarrow> ('d, 'c, 'w, 'z) io_scheme option" where
  "setId p i s = set_device p (dv_id_update (\<lambda>_. i)) s"

definition setDescriptor :: "nat \<Rightarrow> int \<Rightarrow> ('d, 'c, 'w, 'z) io_scheme \<Rightarrow> ('d, 'c, 'w, 'z) io_scheme option" where
  "setDescriptor p fd s = set_device p (dv_fd_update (\<lambda>_. fd)) s"

definition dupDescriptor :: "'w sys \<Rightarrow> nat \<Rightarrow> int \<Rightarrow> ('d, 'c, 'w, 'z) io_scheme \<Rightarrow>
    (bool \<times> ('d, 'c, 'w, 'z) io_scheme) option" where
  "dupDescriptor os p fd s =
     (let (dup_fd, s) = syscall (sy_dup os fd) s
      in if dup_fd = -1 then Some (False, s)
         else do { s \<leftarrow> setDescriptor p dup_fd s; Some (True, s) })"

definition set_flag :: "'w sys \<Rightarrow> fcntl_cmd \<Rightarrow> fcntl_cmd \<Rightarrow> int \<Rightarrow> nat \<Rightarrow> ('d, 'c, 'w, 'z) io_scheme \<Rightarrow>
    (bool \<times> ('d, 'c, 'w, 'z) io_scheme) option" where
  "set_flag os get_cmd set_cmd flag p s = do {
     d \<leftarrow> io_devices s p;
     let (flags, s) = syscall (sy_fcntl os (dv_fd d) get_cmd 0) s;
     if flags = -1 then Some (False, s)
     else do {
       let (r, s) = syscall (sy_fcntl os (dv_fd d) set_cmd (flags OR flag)) s;
       Some (r = 0, s) } }"

definition setNonblock :: "'w sys \<Rightarrow> nat \<Rightarrow> ('d, 'c, 'w, 'z) io_scheme \<Rightarrow>
    (bool \<times> ('d, 'c, 'w, 'z) io_scheme) option" where
  "setNonblock os = set_flag os F_GETFL F_SETFL O_NONBLOCK"

definition setCloseOnExec :: "'w sys \<Rightarrow> nat \<Rightarrow> ('d, 'c, 'w, 'z) io_scheme \<Rightarrow>
    (bool \<times> ('d, 'c, 'w, 'z) io_scheme) option" where
  "setCloseOnExec os = set_flag os F_GETFD F_SETFD FD_CLOEXEC"

text \<open>The system calls return \<open>ssize_t\<close>, the methods \<open>int\<close>.\<close>

definition int32 :: "int \<Rightarrow> int" where
  "int32 r = sint (word_of_int r :: 32 word)"

lemma int32_small: "- (2 ^ 31) \<le> r \<Longrightarrow> r < 2 ^ 31 \<Longrightarrow> int32 r = r"
  by (simp add: int32_def signed_of_int signed_take_bit_int_eq_self)

text \<open>\<open>read\<close> gives, next to its result, the bytes the kernel stored at the buffer.\<close>

definition device_read :: "'w sys \<Rightarrow> nat \<Rightarrow> nat \<Rightarrow> ('d, 'c, 'w, 'z) io_scheme \<Rightarrow>
    ((int \<times> bytes) \<times> ('d, 'c, 'w, 'z) io_scheme) option" where
  "device_read os p n s = do {
     d \<leftarrow> io_devices s p;
     let ((r, bs), s) = syscall (sy_read os (dv_fd d) n) s;
     Some ((int32 r, bs), s) }"

definition device_write :: "'w sys \<Rightarrow> nat \<Rightarrow> bytes \<Rightarrow> ('d, 'c, 'w, 'z) io_scheme \<Rightarrow>
    (int \<times> ('d, 'c, 'w, 'z) io_scheme) option" where
  "device_write os p bs s = do {
     d \<leftarrow> io_devices s p;
     let (r, s) = syscall (sy_write os (dv_fd d) bs) s;
     Some (int32 r, s) }"

end
