(* ===== verification/TcpSocket.thy ===== *)
theory TcpSocket
  imports IoDevice
begin

text \<open>
  Model of \<open>src/brickred/tcp_socket.cc\<close>. A \<open>TcpSocket\<close> has no members beyond those of
  \<open>IODevice\<close>, so its methods are operations on the device at an address. A \<open>SocketAddress\<close>
  argument is given by what the code asks of it: its protocol and its native address.
\<close>

record address =
  ad_protocol :: protocol
  ad_native :: bytes

section \<open>Opening and closing\<close>

definition tcp_close :: "'w sys \<Rightarrow> nat \<Rightarrow> ('d, 'c, 'w, 'z) io_scheme \<Rightarrow>
    ('d, 'c, 'w, 'z) io_scheme option" where
  "tcp_close os p s = do {
     s \<leftarrow> detachIOService os p s;
     d \<leftarrow> io_devices s p;
     if dv_fd d \<noteq> -1 then do {
       let (r, s) = syscall (sy_close os (dv_fd d)) s;
       setDescriptor p (-1) s }
     else Some s }"

text \<open>The destructors: \<open>~TcpSocket\<close>, then \<open>~IODevice\<close>; then the storage is released.\<close>

definition delete_socket :: "'w sys \<Rightarrow> nat \<Rightarrow> ('d, 'c, 'w, 'z) io_scheme \<Rightarrow>
    ('d, 'c, 'w, 'z) io_scheme option" where
  "delete_socket os p s = do {
     s \<leftarrow> tcp_close os p s;
     s \<leftarrow> detachIOService os p s;
     Some (s\<lparr>io_devices := (io_devices s)(p := None)\<rparr>) }"

definition tcp_open :: "'w sys \<Rightarrow> protocol \<Rightarrow> nat \<Rightarrow> ('d, 'c, 'w, 'z) io_scheme \<Rightarrow>
    (bool \<times> ('d, 'c, 'w, 'z) io_scheme) option" where
  "tcp_open os protocol p s = do {
     d \<leftarrow> io_devices s p;
     s \<leftarrow> (if dv_fd d \<noteq> -1 then tcp_close os p s else Some s);
     if protocol = UNKNOWN then Some (False, s\<lparr>io_errno := EAFNOSUPPORT\<rparr>)
     else do {
       let (fd, s) = syscall (sy_socket os protocol) s;
       s \<leftarrow> setDescriptor p fd s;
       if fd = -1 then Some (False, s)
       else do {
         (ok, s) \<leftarrow> setCloseOnExec os p s;
         if ok then Some (True, s)
         else do { s \<leftarrow> tcp_close os p s; Some (False, s) } } } }"

section \<open>Calls on the descriptor\<close>

definition on_fd :: "(int \<Rightarrow> (int, 'w) call) \<Rightarrow> nat \<Rightarrow> ('d, 'c, 'w, 'z) io_scheme \<Rightarrow>
    (bool \<times> ('d, 'c, 'w, 'z) io_scheme) option" where
  "on_fd f p s = do {
     d \<leftarrow> io_devices s p;
     let (r, s) = syscall (f (dv_fd d)) s;
     Some (r = 0, s) }"

definition tcp_connect :: "'w sys \<Rightarrow> address \<Rightarrow> nat \<Rightarrow> ('d, 'c, 'w, 'z) io_scheme \<Rightarrow>
    (bool \<times> ('d, 'c, 'w, 'z) io_scheme) option" where
  "tcp_connect os addr p s =
     (if ad_protocol addr = UNKNOWN then Some (False, s\<lparr>io_errno := EAFNOSUPPORT\<rparr>)
      else on_fd (\<lambda>fd. sy_connect os fd (ad_native addr)) p s)"

definition tcp_bind :: "'w sys \<Rightarrow> address \<Rightarrow> nat \<Rightarrow> ('d, 'c, 'w, 'z) io_scheme \<Rightarrow>
    (bool \<times> ('d, 'c, 'w, 'z) io_scheme) option" where
  "tcp_bind os addr p s =
     (if ad_protocol addr = UNKNOWN then Some (False, s\<lparr>io_errno := EAFNOSUPPORT\<rparr>)
      else on_fd (\<lambda>fd. sy_bind os fd (ad_native addr)) p s)"

definition tcp_listen :: "'w sys \<Rightarrow> int \<Rightarrow> nat \<Rightarrow> ('d, 'c, 'w, 'z) io_scheme \<Rightarrow>
    (bool \<times> ('d, 'c, 'w, 'z) io_scheme) option" where
  "tcp_listen os backlog = on_fd (\<lambda>fd. sy_listen os fd backlog)"

definition setReuseAddr :: "'w sys \<Rightarrow> nat \<Rightarrow> ('d, 'c, 'w, 'z) io_scheme \<Rightarrow>
    (bool \<times> ('d, 'c, 'w, 'z) io_scheme) option" where
  "setReuseAddr os = on_fd (\<lambda>fd. sy_setsockopt os fd OPT_REUSEADDR)"

definition setTcpNoDelay :: "'w sys \<Rightarrow> nat \<Rightarrow> ('d, 'c, 'w, 'z) io_scheme \<Rightarrow>
    (bool \<times> ('d, 'c, 'w, 'z) io_scheme) option" where
  "setTcpNoDelay os = on_fd (\<lambda>fd. sy_setsockopt os fd OPT_TCP_NODELAY)"

definition shutdownRead :: "'w sys \<Rightarrow> nat \<Rightarrow> ('d, 'c, 'w, 'z) io_scheme \<Rightarrow>
    (bool \<times> ('d, 'c, 'w, 'z) io_scheme) option" where
  "shutdownRead os = on_fd (\<lambda>fd. sy_shutdown os fd SHUT_RD)"

definition shutdownWrite :: "'w sys \<Rightarrow> nat \<Rightarrow> ('d, 'c, 'w, 'z) io_scheme \<Rightarrow>
    (bool \<times> ('d, 'c, 'w, 'z) io_scheme) option" where
  "shutdownWrite os = on_fd (\<lambda>fd. sy_shutdown os fd SHUT_WR)"

definition shutdownBoth :: "'w sys \<Rightarrow> nat \<Rightarrow> ('d, 'c, 'w, 'z) io_scheme \<Rightarrow>
    (bool \<times> ('d, 'c, 'w, 'z) io_scheme) option" where
  "shutdownBoth os = on_fd (\<lambda>fd. sy_shutdown os fd SHUT_RDWR)"

definition tcp_accept :: "'w sys \<Rightarrow> nat \<Rightarrow> nat \<Rightarrow> ('d, 'c, 'w, 'z) io_scheme \<Rightarrow>
    (bool \<times> ('d, 'c, 'w, 'z) io_scheme) option" where
  "tcp_accept os p peer s = do {
     d \<leftarrow> io_devices s p;
     let (sock_fd, s) = syscall (sy_accept os (dv_fd d)) s;
     if sock_fd = -1 then Some (False, s)
     else do {
       s \<leftarrow> setDescriptor peer sock_fd s;
       (ok, s) \<leftarrow> setCloseOnExec os peer s;
       if ok then Some (True, s)
       else do { s \<leftarrow> tcp_close os peer s; Some (False, s) } } }"

text \<open>\<open>getLocalAddress\<close> and \<open>getPeerAddress\<close>: the native address, if the call succeeds.\<close>

definition getLocalAddress :: "'w sys \<Rightarrow> nat \<Rightarrow> ('d, 'c, 'w, 'z) io_scheme \<Rightarrow>
    (bytes option \<times> ('d, 'c, 'w, 'z) io_scheme) option" where
  "getLocalAddress os p s = do {
     d \<leftarrow> io_devices s p;
     let ((r, native), s) = syscall (sy_getsockname os (dv_fd d)) s;
     Some (if r \<noteq> 0 then None else Some native, s) }"

definition getPeerAddress :: "'w sys \<Rightarrow> nat \<Rightarrow> ('d, 'c, 'w, 'z) io_scheme \<Rightarrow>
    (bytes option \<times> ('d, 'c, 'w, 'z) io_scheme) option" where
  "getPeerAddress os p s = do {
     d \<leftarrow> io_devices s p;
     let ((r, native), s) = syscall (sy_getpeername os (dv_fd d)) s;
     Some (if r \<noteq> 0 then None else Some native, s) }"

definition readableBytes :: "'w sys \<Rightarrow> nat \<Rightarrow> ('d, 'c, 'w, 'z) io_scheme \<Rightarrow>
    (int \<times> ('d, 'c, 'w, 'z) io_scheme) option" where
  "readableBytes os p s = do {
     d \<leftarrow> io_devices s p;
     let ((r, n), s) = syscall (sy_fionread os (dv_fd d)) s;
     Some (if r = -1 then -1 else n, s) }"

text \<open>\<open>recv\<close> gives, next to its result, the bytes the kernel stored at the buffer.\<close>

definition tcp_recv :: "'w sys \<Rightarrow> nat \<Rightarrow> nat \<Rightarrow> ('d, 'c, 'w, 'z) io_scheme \<Rightarrow>
    ((int \<times> bytes) \<times> ('d, 'c, 'w, 'z) io_scheme) option" where
  "tcp_recv os p n s = do {
     d \<leftarrow> io_devices s p;
     let ((r, bs), s) = syscall (sy_recv os (dv_fd d) n) s;
     Some ((int32 r, bs), s) }"

definition tcp_send :: "'w sys \<Rightarrow> nat \<Rightarrow> bytes \<Rightarrow> ('d, 'c, 'w, 'z) io_scheme \<Rightarrow>
    (int \<times> ('d, 'c, 'w, 'z) io_scheme) option" where
  "tcp_send os p bs s = do {
     d \<leftarrow> io_devices s p;
     let (r, s) = syscall (sy_send os (dv_fd d) bs) s;
     Some (int32 r, s) }"

definition getSocketError :: "'w sys \<Rightarrow> nat \<Rightarrow> ('d, 'c, 'w, 'z) io_scheme \<Rightarrow>
    (int \<times> ('d, 'c, 'w, 'z) io_scheme) option" where
  "getSocketError os p s = do {
     d \<leftarrow> io_devices s p;
     let ((r, opt), s) = syscall (sy_so_error os (dv_fd d)) s;
     Some (if r \<noteq> 0 then io_errno s else opt, s) }"

section \<open>Composite operations\<close>

text \<open>The chains \<open>a() == false || b() == false\<close>: the calls in order until one fails.\<close>

fun all_of :: "('s \<Rightarrow> (bool \<times> 's) option) list \<Rightarrow> 's \<Rightarrow> (bool \<times> 's) option" where
  "all_of [] s = Some (True, s)"
| "all_of (f # fs) s = do {
     (ok, s) \<leftarrow> f s;
     if ok then all_of fs s else Some (False, s) }"

definition close_unless :: "'w sys \<Rightarrow> nat \<Rightarrow> bool \<times> ('d, 'c, 'w, 'z) io_scheme \<Rightarrow>
    (bool \<times> ('d, 'c, 'w, 'z) io_scheme) option" where
  "close_unless os p r =
     (case r of (ok, s) \<Rightarrow>
        if ok then Some (True, s) else do { s \<leftarrow> tcp_close os p s; Some (False, s) })"

definition activeOpen :: "'w sys \<Rightarrow> address \<Rightarrow> nat \<Rightarrow> ('d, 'c, 'w, 'z) io_scheme \<Rightarrow>
    (bool \<times> ('d, 'c, 'w, 'z) io_scheme) option" where
  "activeOpen os addr p s = do {
     (ok, s) \<leftarrow> tcp_open os (ad_protocol addr) p s;
     if \<not> ok then Some (False, s)
     else do {
       r \<leftarrow> all_of [setReuseAddr os p, setTcpNoDelay os p, tcp_connect os addr p] s;
       close_unless os p r } }"

definition activeOpenNonblock :: "'w sys \<Rightarrow> address \<Rightarrow> nat \<Rightarrow> ('d, 'c, 'w, 'z) io_scheme \<Rightarrow>
    (bool \<times> ('d, 'c, 'w, 'z) io_scheme) option" where
  "activeOpenNonblock os addr p s = do {
     (ok, s) \<leftarrow> activeOpen os addr p s;
     if \<not> ok then Some (False, s)
     else do {
       r \<leftarrow> setNonblock os p s;
       close_unless os p r } }"

definition passiveOpen :: "'w sys \<Rightarrow> address \<Rightarrow> nat \<Rightarrow> ('d, 'c, 'w, 'z) io_scheme \<Rightarrow>
    (bool \<times> ('d, 'c, 'w, 'z) io_scheme) option" where
  "passiveOpen os addr p s = do {
     (ok, s) \<leftarrow> tcp_open os (ad_protocol addr) p s;
     if \<not> ok then Some (False, s)
     else do {
       r \<leftarrow> all_of [setReuseAddr os p, setTcpNoDelay os p, tcp_bind os addr p, tcp_listen os 128 p] s;
       close_unless os p r } }"

definition passiveOpenNonblock :: "'w sys \<Rightarrow> address \<Rightarrow> nat \<Rightarrow> ('d, 'c, 'w, 'z) io_scheme \<Rightarrow>
    (bool \<times> ('d, 'c, 'w, 'z) io_scheme) option" where
  "passiveOpenNonblock os addr p s = do {
     (ok, s) \<leftarrow> passiveOpen os addr p s;
     if \<not> ok then Some (False, s)
     else do {
       r \<leftarrow> setNonblock os p s;
       close_unless os p r } }"

definition acceptNonblock :: "'w sys \<Rightarrow> nat \<Rightarrow> nat \<Rightarrow> ('d, 'c, 'w, 'z) io_scheme \<Rightarrow>
    (bool \<times> ('d, 'c, 'w, 'z) io_scheme) option" where
  "acceptNonblock os p peer s = do {
     (ok, s) \<leftarrow> tcp_accept os p peer s;
     if \<not> ok then Some (False, s)
     else do {
       r \<leftarrow> all_of [setTcpNoDelay os peer, setNonblock os peer] s;
       close_unless os peer r } }"

end
