(* ===== verification/IoService.thy ===== *)
theory IoService
  imports IoDevice TcpSocket
begin

text \<open>
  Model of \<open>src/brickred/io_service.cc\<close>: the timers and the event loop over \<open>epoll_wait\<close>. What
  the callbacks of devices and timers do is a parameter: \<open>run cb p s\<close> calls a device callback with
  the device at \<open>p\<close>, \<open>fire cb i s\<close> a timer callback with the timer id \<open>i\<close>. Calling an empty
  \<open>Function\<close> is a call through a null pointer, \<open>None\<close>.
\<close>

section \<open>Timers\<close>

definition startTimer :: "'w sys \<Rightarrow> int \<Rightarrow> 'c \<Rightarrow> int \<Rightarrow> ('d, 'c, 'w, 'z) io_scheme \<Rightarrow>
    (int \<times> ('d, 'c, 'w, 'z) io_scheme) option" where
  "startTimer os timeout_ms cb call_times s =
     (let (now, s) = syscall (sy_now os) s
      in do {
        (timer_id, h) \<leftarrow> addTimer (io_timers s) now timeout_ms cb call_times;
        Some (timer_id, s\<lparr>io_timers := h\<rparr>) })"

definition stopTimer :: "int \<Rightarrow> ('d, 'c, 'w, 'z) io_scheme \<Rightarrow> ('d, 'c, 'w, 'z) io_scheme option" where
  "stopTimer timer_id s = do {
     h \<leftarrow> removeTimer (io_timers s) timer_id;
     Some (s\<lparr>io_timers := h\<rparr>) }"

definition quit :: "('d, 'c, 'w, 'z) io_scheme \<Rightarrow> ('d, 'c, 'w, 'z) io_scheme" where
  "quit s = s\<lparr>io_quit := True\<rparr>"

section \<open>Dispatching a batch of events\<close>

type_synonym ('k, 'i, 's) runner = "'k \<Rightarrow> 'i \<Rightarrow> 's \<Rightarrow> 's option"

definition checkIODeviceExist :: "nat \<Rightarrow> ('d, 'c, 'w, 'z) io_scheme \<Rightarrow> bool" where
  "checkIODeviceExist p s \<longleftrightarrow> p \<notin> io_removed s"

definition call_back :: "('d, nat, ('d, 'c, 'w, 'z) io_scheme) runner \<Rightarrow> 'd option \<Rightarrow> nat \<Rightarrow>
    ('d, 'c, 'w, 'z) io_scheme \<Rightarrow> ('d, 'c, 'w, 'z) io_scheme option" where
  "call_back run cb p s = (case cb of None \<Rightarrow> None | Some cb \<Rightarrow> run cb p s)"

text \<open>The three tests of one event; a removed device ends the event (\<open>continue\<close>).\<close>

definition dispatch_event :: "('d, nat, ('d, 'c, 'w, 'z) io_scheme) runner \<Rightarrow> epoll_event \<Rightarrow>
    ('d, 'c, 'w, 'z) io_scheme \<Rightarrow> ('d, 'c, 'w, 'z) io_scheme option" where
  "dispatch_event run e s =
     (let p = ev_ptr e
      in if ev_out e \<and> \<not> checkIODeviceExist p s then Some s
         else do {
           s \<leftarrow> (if ev_out e then do { d \<leftarrow> io_devices s p; call_back run (dv_write d) p s } else Some s);
           if ev_in e \<and> \<not> checkIODeviceExist p s then Some s
           else do {
             s \<leftarrow> (if ev_in e then do { d \<leftarrow> io_devices s p; call_back run (dv_read d) p s } else Some s);
             if ev_err e \<and> \<not> checkIODeviceExist p s then Some s
             else if ev_err e then do {
               d \<leftarrow> io_devices s p;
               if dv_error d \<noteq> None then call_back run (dv_error d) p s else Some s }
             else Some s } })"

fun dispatch :: "('d, nat, ('d, 'c, 'w, 'z) io_scheme) runner \<Rightarrow> epoll_event list \<Rightarrow>
    ('d, 'c, 'w, 'z) io_scheme \<Rightarrow> ('d, 'c, 'w, 'z) io_scheme option" where
  "dispatch run [] s = Some s"
| "dispatch run (e # es) s = do {
     s \<leftarrow> dispatch_event run e s;
     dispatch run es s }"

text \<open>
  A timer callback as \<open>checkTimeout\<close> runs it: the heap is a member of the state the callback
  works on, and undefined behaviour in a callback is undefined behaviour of the whole.
\<close>

definition timer_call :: "('c, int, ('d, 'c, 'w, 'z) io_scheme) runner \<Rightarrow>
    ('c, ('d, 'c, 'w, 'z) io_scheme option) callback_runner" where
  "timer_call fire cb i hs =
     (case hs of
        (h, None) \<Rightarrow> (h, None)
      | (h, Some s) \<Rightarrow>
          (case fire cb i (s\<lparr>io_timers := h\<rparr>) of
             None \<Rightarrow> (h, None)
           | Some s \<Rightarrow> (io_timers s, Some s)))"

definition run_timers :: "('c, int, ('d, 'c, 'w, 'z) io_scheme) runner \<Rightarrow> timestamp \<Rightarrow>
    ('d, 'c, 'w, 'z) io_scheme \<Rightarrow> ('d, 'c, 'w, 'z) io_scheme option" where
  "run_timers fire now s = do {
     (h, s) \<leftarrow> checkTimeout (timer_call fire) now (io_timers s, Some s);
     s \<leftarrow> s;
     Some (s\<lparr>io_timers := h\<rparr>) }"

section \<open>The loop\<close>

definition MAX_EPOLL_TIMEOUT_MSEC :: int where
  "MAX_EPOLL_TIMEOUT_MSEC = 35 * 60 * 1000"

text \<open>One turn; the flag tells whether the loop goes on to test \<open>quit_\<close> (or breaks).\<close>

definition loop_turn :: "'w sys \<Rightarrow> ('d, nat, ('d, 'c, 'w, 'z) io_scheme) runner \<Rightarrow>
    ('c, int, ('d, 'c, 'w, 'z) io_scheme) runner \<Rightarrow> ('d, 'c, 'w, 'z) io_scheme \<Rightarrow>
    (bool \<times> ('d, 'c, 'w, 'z) io_scheme) option" where
  "loop_turn os run fire s =
     (let (now, s) = syscall (sy_now os) s
      in do {
        timer_timeout \<leftarrow> getNextTimeoutMillisecond (io_timers s) now;
        let epoll_timeout = int32 (min timer_timeout MAX_EPOLL_TIMEOUT_MSEC);
        let (events, s) = syscall (sy_epoll_wait os (io_events_size s) epoll_timeout) s;
        case events of
          None \<Rightarrow> Some (io_errno s = EINTR, s)
        | Some events \<Rightarrow> do {
            s \<leftarrow> dispatch run events s;
            let (now, s) = syscall (sy_now os) s;
            s \<leftarrow> run_timers fire now s;
            let s = s\<lparr>io_removed := {}\<rparr>;
            Some (True, if int (length events) \<ge> int32 (int (io_events_size s))
              then s\<lparr>io_events_size := io_events_size s * 2\<rparr> else s) } })"

partial_function (option) loop_while :: "'w sys \<Rightarrow> ('d, nat, ('d, 'c, 'w, 'z) io_scheme) runner \<Rightarrow>
    ('c, int, ('d, 'c, 'w, 'z) io_scheme) runner \<Rightarrow> ('d, 'c, 'w, 'z) io_scheme \<Rightarrow>
    ('d, 'c, 'w, 'z) io_scheme option" where
  "loop_while os run fire s =
     (if io_quit s then Some s
      else do {
        (go, s) \<leftarrow> loop_turn os run fire s;
        if go then loop_while os run fire s else Some s })"

definition loop :: "'w sys \<Rightarrow> ('d, nat, ('d, 'c, 'w, 'z) io_scheme) runner \<Rightarrow>
    ('c, int, ('d, 'c, 'w, 'z) io_scheme) runner \<Rightarrow> ('d, 'c, 'w, 'z) io_scheme \<Rightarrow>
    ('d, 'c, 'w, 'z) io_scheme option" where
  "loop os run fire s = loop_while os run fire (s\<lparr>io_quit := False\<rparr>)"

end
