(* ===== verification/TcpService.thy ===== *)
theory TcpService
  imports DynamicBuffer IoService
begin

text \<open>
  Model of \<open>src/brickred/tcp_service.cc\<close>. The state extends that of the event loop by the members of
  \<open>TcpService::Impl\<close> and the store of \<open>TcpConnection\<close>s. The application's callbacks are the
  parameter \<open>app\<close>: what the call of one of them does to the whole state, in which it may call
  the operations below.
\<close>

section \<open>State\<close>

datatype device_cb = OnListenSocketRead | OnAsyncConnectSocketWrite | OnSocketRead | OnSocketWrite | OnSocketError

text \<open>The last constructor stands for timers the application starts itself.\<close>

datatype timer_cb = OnListenSocketResumeRead | OnAsyncConnectTimeout | OnSendMessageError | AppTimer nat

text \<open>The non-null values of a \<open>SendCompleteCallback\<close>.\<close>

datatype send_cb = SendCompleteClose | SendCompleteUser nat

datatype status = NONE | CONNECTING | CONNECTED | PEER_CLOSED | PENDING_ERROR

record connection =
  cn_socket :: nat
  cn_status :: status
  cn_error :: int
  cn_read :: dynamic_buffer
  cn_write :: dynamic_buffer
  cn_complete :: "send_cb option"

record 'w tcp = "(device_cb, timer_cb, 'w) io" +
  tc_conns :: "nat \<rightharpoonup> connection"
  tc_value :: int
  tc_sockets :: "int \<rightharpoonup> nat"
  tc_connections :: "int \<rightharpoonup> nat"
  tc_contexts :: "int \<rightharpoonup> nat"
  tc_live_contexts :: "nat set"
  tc_socket_timer :: "int \<rightharpoonup> int"
  tc_timer_socket :: "int \<rightharpoonup> int"
  tc_new_conn_cb :: bool
  tc_recv_message_cb :: bool
  tc_peer_close_cb :: bool
  tc_error_cb :: bool
  tc_read_init :: nat
  tc_read_expand :: nat
  tc_read_max :: nat
  tc_write_init :: nat
  tc_write_expand :: nat
  tc_write_max :: nat
  tc_accept_pause :: int

text \<open>
  The calls of the application: the callbacks of the service with their arguments (the buffer
  argument of \<open>RecvMessage\<close> is the read buffer of the connection object), a send-complete callback
  and a timer of its own.
\<close>

datatype app_call =
    NewConnection int int
  | RecvMessage int nat
  | PeerClose int
  | ErrorOccurred int int
  | SendCompleted nat int
  | TimerFired nat int

type_synonym 'w application = "app_call \<Rightarrow> 'w tcp \<Rightarrow> 'w tcp option"

definition INT32_MAX :: int where
  "INT32_MAX = 2 ^ 31 - 1"

text \<open>\<open>SocketIdAllocator::getId\<close>: the counter in the upper, the descriptor in the lower half.\<close>

definition next_value :: "int \<Rightarrow> int" where
  "next_value v = (if v = INT32_MAX then 1 else v + 1)"

definition socket_id_of :: "int \<Rightarrow> int \<Rightarrow> int" where
  "socket_id_of v fd = sint (push_bit 32 (word_of_int v :: 64 word) + word_of_int (int32 fd))"

definition alloc_id :: "int \<Rightarrow> 'w tcp \<Rightarrow> int \<times> 'w tcp" where
  "alloc_id fd s = (let v = next_value (tc_value s) in (socket_id_of v fd, s\<lparr>tc_value := v\<rparr>))"

definition connection_new :: "'w tcp \<Rightarrow> nat \<Rightarrow> connection" where
  "connection_new s p =
     \<lparr>cn_socket = p, cn_status = NONE, cn_error = 0,
      cn_read = db_new (tc_read_init s) (tc_read_expand s),
      cn_write = db_new (tc_write_init s) (tc_write_expand s), cn_complete = None\<rparr>"

definition new_connection :: "'w sys \<Rightarrow> nat \<Rightarrow> status \<Rightarrow> 'w tcp \<Rightarrow> nat \<times> 'w tcp" where
  "new_connection os p st s =
     (case sy_malloc os (dom (tc_conns s)) (io_world s) of
        (c, w) \<Rightarrow> (c, s\<lparr>io_world := w,
          tc_conns := (tc_conns s)(c \<mapsto> (connection_new s p)\<lparr>cn_status := st\<rparr>)\<rparr>))"

definition delete_connection :: "nat \<Rightarrow> 'w tcp \<Rightarrow> 'w tcp option" where
  "delete_connection c s =
     (if tc_conns s c = None then None else Some (s\<lparr>tc_conns := (tc_conns s)(c := None)\<rparr>))"

definition set_conn :: "nat \<Rightarrow> (connection \<Rightarrow> connection) \<Rightarrow> 'w tcp \<Rightarrow> 'w tcp option" where
  "set_conn c f s = do {
     k \<leftarrow> tc_conns s c;
     Some (s\<lparr>tc_conns := (tc_conns s)(c \<mapsto> f k)\<rparr>) }"

definition setStatus :: "nat \<Rightarrow> status \<Rightarrow> 'w tcp \<Rightarrow> 'w tcp option" where
  "setStatus c st = set_conn c (cn_status_update (\<lambda>_. st))"

definition setError :: "nat \<Rightarrow> int \<Rightarrow> 'w tcp \<Rightarrow> 'w tcp option" where
  "setError c code = set_conn c (\<lambda>k. k\<lparr>cn_status := PENDING_ERROR, cn_error := code\<rparr>)"

definition set_read_buffer :: "nat \<Rightarrow> dynamic_buffer \<Rightarrow> 'w tcp \<Rightarrow> 'w tcp option" where
  "set_read_buffer c b = set_conn c (cn_read_update (\<lambda>_. b))"

definition set_write_buffer :: "nat \<Rightarrow> dynamic_buffer \<Rightarrow> 'w tcp \<Rightarrow> 'w tcp option" where
  "set_write_buffer c b = set_conn c (cn_write_update (\<lambda>_. b))"

definition setSendCompleteCallback :: "nat \<Rightarrow> send_cb option \<Rightarrow> 'w tcp \<Rightarrow> 'w tcp option" where
  "setSendCompleteCallback c cb = set_conn c (cn_complete_update (\<lambda>_. cb))"

text \<open>\<open>new TcpService\<close>: the constructor calls the setters with their defaults.\<close>

definition setRecvBufferInitSize :: "nat \<Rightarrow> 'w tcp \<Rightarrow> 'w tcp" where
  "setRecvBufferInitSize n s = (if n = 0 then s else s\<lparr>tc_read_init := n\<rparr>)"

definition setRecvBufferExpandSize :: "nat \<Rightarrow> 'w tcp \<Rightarrow> 'w tcp" where
  "setRecvBufferExpandSize n s = (if n = 0 then s else s\<lparr>tc_read_expand := n\<rparr>)"

definition setRecvBufferMaxSize :: "nat \<Rightarrow> 'w tcp \<Rightarrow> 'w tcp" where
  "setRecvBufferMaxSize n s = (if n = 0 then s else s\<lparr>tc_read_max := n\<rparr>)"

definition setSendBufferInitSize :: "nat \<Rightarrow> 'w tcp \<Rightarrow> 'w tcp" where
  "setSendBufferInitSize n s = (if n = 0 then s else s\<lparr>tc_write_init := n\<rparr>)"

definition setSendBufferExpandSize :: "nat \<Rightarrow> 'w tcp \<Rightarrow> 'w tcp" where
  "setSendBufferExpandSize n s = (if n = 0 then s else s\<lparr>tc_write_expand := n\<rparr>)"

definition setSendBufferMaxSize :: "nat \<Rightarrow> 'w tcp \<Rightarrow> 'w tcp" where
  "setSendBufferMaxSize n s = (if n = 0 then s else s\<lparr>tc_write_max := n\<rparr>)"

definition setAcceptPauseTimeWhenExceedOpenFileLimit :: "int \<Rightarrow> 'w tcp \<Rightarrow> 'w tcp" where
  "setAcceptPauseTimeWhenExceedOpenFileLimit ms s = (if ms < 0 then s else s\<lparr>tc_accept_pause := ms\<rparr>)"

definition io_new :: "'w \<Rightarrow> 'w tcp" where
  "io_new w =
     \<lparr>io_world = w, io_errno = 0, io_devices = Map.empty, io_removed = {}, io_quit = False,
      io_events_size = 32, io_timers = th_new,
      tc_conns = Map.empty, tc_value = 0, tc_sockets = Map.empty, tc_connections = Map.empty,
      tc_contexts = Map.empty, tc_live_contexts = {}, tc_socket_timer = Map.empty, tc_timer_socket = Map.empty,
      tc_new_conn_cb = False, tc_recv_message_cb = False, tc_peer_close_cb = False, tc_error_cb = False,
      tc_read_init = 0, tc_read_expand = 0, tc_read_max = 0,
      tc_write_init = 0, tc_write_expand = 0, tc_write_max = 0, tc_accept_pause = 0\<rparr>"

definition tcp_new :: "'w \<Rightarrow> 'w tcp" where
  "tcp_new w =
     setAcceptPauseTimeWhenExceedOpenFileLimit 0 (setSendBufferMaxSize 0 (setSendBufferExpandSize 1024
       (setSendBufferInitSize 1024 (setRecvBufferMaxSize 0 (setRecvBufferExpandSize 1024
         (setRecvBufferInitSize 1024 (io_new w)))))))"

text \<open>The setters of the application's callbacks; the flag is whether the argument is not null.\<close>

definition setNewConnectionCallback :: "bool \<Rightarrow> 'w tcp \<Rightarrow> 'w tcp" where
  "setNewConnectionCallback cb s = s\<lparr>tc_new_conn_cb := cb\<rparr>"

definition setRecvMessageCallback :: "bool \<Rightarrow> 'w tcp \<Rightarrow> 'w tcp" where
  "setRecvMessageCallback cb s = s\<lparr>tc_recv_message_cb := cb\<rparr>"

definition setPeerCloseCallback :: "bool \<Rightarrow> 'w tcp \<Rightarrow> 'w tcp" where
  "setPeerCloseCallback cb s = s\<lparr>tc_peer_close_cb := cb\<rparr>"

definition setServiceErrorCallback :: "bool \<Rightarrow> 'w tcp \<Rightarrow> 'w tcp" where
  "setServiceErrorCallback cb s = s\<lparr>tc_error_cb := cb\<rparr>"

definition app_if :: "bool \<Rightarrow> 'w application \<Rightarrow> app_call \<Rightarrow> 'w tcp \<Rightarrow> 'w tcp option" where
  "app_if given app e s = (if given then app e s else Some s)"

section \<open>Timers of sockets\<close>

definition addSocketTimer :: "'w sys \<Rightarrow> int \<Rightarrow> int \<Rightarrow> timer_cb \<Rightarrow> 'w tcp \<Rightarrow> 'w tcp option" where
  "addSocketTimer os socket_id timeout_ms cb s = do {
     (timer_id, s) \<leftarrow> startTimer os timeout_ms cb 1 s;
     Some (s\<lparr>tc_socket_timer := (tc_socket_timer s)(socket_id \<mapsto> timer_id),
             tc_timer_socket := (tc_timer_socket s)(timer_id \<mapsto> socket_id)\<rparr>) }"

definition removeSocketTimer :: "int \<Rightarrow> 'w tcp \<Rightarrow> 'w tcp option" where
  "removeSocketTimer socket_id s =
     (case tc_socket_timer s socket_id of
        None \<Rightarrow> Some s
      | Some timer_id \<Rightarrow>
          stopTimer timer_id
            (s\<lparr>tc_socket_timer := (tc_socket_timer s)(socket_id := None),
               tc_timer_socket := (tc_timer_socket s)(timer_id := None)\<rparr>))"

text \<open>The beginning of the three timer callbacks: which socket, and forget the timer.\<close>

definition take_timer :: "int \<Rightarrow> 'w tcp \<Rightarrow> int option \<times> 'w tcp" where
  "take_timer timer_id s =
     (case tc_timer_socket s timer_id of
        None \<Rightarrow> (None, s)
      | Some socket_id \<Rightarrow>
          (Some socket_id,
           s\<lparr>tc_timer_socket := (tc_timer_socket s)(timer_id := None),
             tc_socket_timer := (tc_socket_timer s)(socket_id := None)\<rparr>))"

section \<open>Registering sockets\<close>

text \<open>
  The three \<open>build\<close> functions return the socket id, or -1. They release the caller's
  \<open>UniquePtr\<close> exactly when they do not return -1, so the caller deletes the socket in that case;
  the connection object is deleted here.
\<close>

definition buildListenSocket :: "'w sys \<Rightarrow> nat \<Rightarrow> 'w tcp \<Rightarrow> (int \<times> 'w tcp) option" where
  "buildListenSocket os p s = do {
     d \<leftarrow> io_devices s p;
     let (socket_id, s) = alloc_id (dv_fd d) s;
     s \<leftarrow> setId p socket_id s;
     s \<leftarrow> setReadCallback os p (Some OnListenSocketRead) s;
     s \<leftarrow> setErrorCallback p (Some OnSocketError) s;
     (ok, s) \<leftarrow> attachIOService os p s;
     if \<not> ok then Some (-1, s)
     else if tc_sockets s socket_id \<noteq> None then Some (-1, s)
     else Some (socket_id, s\<lparr>tc_sockets := (tc_sockets s)(socket_id \<mapsto> p)\<rparr>) }"

definition buildConnectedSocket :: "'w sys \<Rightarrow> nat \<Rightarrow> 'w tcp \<Rightarrow> (int \<times> 'w tcp) option" where
  "buildConnectedSocket os p s = do {
     d \<leftarrow> io_devices s p;
     let (socket_id, s) = alloc_id (dv_fd d) s;
     s \<leftarrow> setId p socket_id s;
     s \<leftarrow> setReadCallback os p (Some OnSocketRead) s;
     s \<leftarrow> setErrorCallback p (Some OnSocketError) s;
     (ok, s) \<leftarrow> attachIOService os p s;
     if \<not> ok then Some (-1, s)
     else do {
       let (c, s) = new_connection os p CONNECTED s;
       if tc_sockets s socket_id \<noteq> None \<or> tc_connections s socket_id \<noteq> None
       then do { s \<leftarrow> delete_connection c s; Some (-1, s) }
       else Some (socket_id, s\<lparr>tc_sockets := (tc_sockets s)(socket_id \<mapsto> p),
              tc_connections := (tc_connections s)(socket_id \<mapsto> c)\<rparr>) } }"

definition buildAsyncConnectSocket :: "'w sys \<Rightarrow> nat \<Rightarrow> int \<Rightarrow> 'w tcp \<Rightarrow> (int \<times> 'w tcp) option" where
  "buildAsyncConnectSocket os p timeout_ms s = do {
     d \<leftarrow> io_devices s p;
     let (socket_id, s) = alloc_id (dv_fd d) s;
     s \<leftarrow> setId p socket_id s;
     s \<leftarrow> setWriteCallback os p (Some OnAsyncConnectSocketWrite) s;
     s \<leftarrow> setErrorCallback p (Some OnSocketError) s;
     (ok, s) \<leftarrow> attachIOService os p s;
     if \<not> ok then Some (-1, s)
     else do {
       let (c, s) = new_connection os p CONNECTING s;
       if tc_sockets s socket_id \<noteq> None \<or> tc_connections s socket_id \<noteq> None
       then do { s \<leftarrow> delete_connection c s; Some (-1, s) }
       else do {
         s \<leftarrow> (if timeout_ms > 0 then addSocketTimer os socket_id timeout_ms OnAsyncConnectTimeout s else Some s);
         Some (socket_id, s\<lparr>tc_sockets := (tc_sockets s)(socket_id \<mapsto> p),
           tc_connections := (tc_connections s)(socket_id \<mapsto> c)\<rparr>) } } }"

text \<open>The scope of the \<open>UniquePtr\<close> ends: the socket is deleted unless it was released.\<close>

definition unless_released :: "'w sys \<Rightarrow> nat \<Rightarrow> int \<times> 'w tcp \<Rightarrow> (int \<times> 'w tcp) option" where
  "unless_released os p r =
     (case r of (socket_id, s) \<Rightarrow>
        if socket_id = -1 then do { s \<leftarrow> delete_socket os p s; Some (-1, s) } else Some (socket_id, s))"

definition service_listen :: "'w sys \<Rightarrow> address \<Rightarrow> 'w tcp \<Rightarrow> (int \<times> 'w tcp) option" where
  "service_listen os addr s = do {
     let (p, s) = new_device os s;
     (ok, s) \<leftarrow> passiveOpenNonblock os addr p s;
     r \<leftarrow> (if ok then buildListenSocket os p s else Some (-1, s));
     unless_released os p r }"

definition shareListen :: "'w sys \<Rightarrow> int \<Rightarrow> 'w tcp \<Rightarrow> (int \<times> 'w tcp) option" where
  "shareListen os shared_fd s = do {
     let (p, s) = new_device os s;
     (ok, s) \<leftarrow> dupDescriptor os p shared_fd s;
     r \<leftarrow> (if ok then buildListenSocket os p s else Some (-1, s));
     unless_released os p r }"

definition service_connect :: "'w sys \<Rightarrow> address \<Rightarrow> 'w tcp \<Rightarrow> (int \<times> 'w tcp) option" where
  "service_connect os addr s = do {
     let (p, s) = new_device os s;
     (ok, s) \<leftarrow> activeOpenNonblock os addr p s;
     r \<leftarrow> (if ok then buildConnectedSocket os p s else Some (-1, s));
     unless_released os p r }"

text \<open>
  The second component of the result is what \<open>*complete\<close> is set to, if it is set.
\<close>

definition asyncConnect :: "'w sys \<Rightarrow> address \<Rightarrow> int \<Rightarrow> 'w tcp \<Rightarrow> ((int \<times> bool option) \<times> 'w tcp) option" where
  "asyncConnect os addr timeout_ms s = do {
     let (p, s) = new_device os s;
     (ok, s) \<leftarrow> tcp_open os (ad_protocol addr) p s;
     (ok, s) \<leftarrow> (if ok then all_of [setReuseAddr os p, setTcpNoDelay os p, setNonblock os p] s else Some (False, s));
     if \<not> ok then do { (i, s) \<leftarrow> unless_released os p (-1, s); Some ((i, None), s) }
     else do {
       (connected, s) \<leftarrow> tcp_connect os addr p s;
       if connected then do {
         r \<leftarrow> buildConnectedSocket os p s;
         (i, s) \<leftarrow> unless_released os p r;
         Some ((i, if i = -1 then None else Some True), s) }
       else if io_errno s = EINPROGRESS then do {
         r \<leftarrow> buildAsyncConnectSocket os p timeout_ms s;
         (i, s) \<leftarrow> unless_released os p r;
         Some ((i, if i = -1 then None else Some False), s) }
       else do { (i, s) \<leftarrow> unless_released os p (-1, s); Some ((i, None), s) } } }"

definition isConnected :: "int \<Rightarrow> 'w tcp \<Rightarrow> bool option" where
  "isConnected socket_id s =
     (case tc_connections s socket_id of
        None \<Rightarrow> Some False
      | Some c \<Rightarrow> do { k \<leftarrow> tc_conns s c; Some (cn_status k = CONNECTED) })"

definition service_getLocalAddress :: "'w sys \<Rightarrow> int \<Rightarrow> 'w tcp \<Rightarrow> (bytes option \<times> 'w tcp) option" where
  "service_getLocalAddress os socket_id s =
     (case tc_sockets s socket_id of None \<Rightarrow> Some (None, s) | Some p \<Rightarrow> getLocalAddress os p s)"

definition service_getPeerAddress :: "'w sys \<Rightarrow> int \<Rightarrow> 'w tcp \<Rightarrow> (bytes option \<times> 'w tcp) option" where
  "service_getPeerAddress os socket_id s =
     (case tc_sockets s socket_id of None \<Rightarrow> Some (None, s) | Some p \<Rightarrow> getPeerAddress os p s)"

section \<open>Closing sockets, contexts\<close>

text \<open>\<open>delete\<close> of a context: of a null pointer nothing, of a dead one undefined.\<close>

definition delete_context :: "nat \<Rightarrow> 'w tcp \<Rightarrow> 'w tcp option" where
  "delete_context x s =
     (if x = 0 then Some s
      else if x \<notin> tc_live_contexts s then None
      else Some (s\<lparr>tc_live_contexts := tc_live_contexts s - {x}\<rparr>))"

definition closeSocket :: "'w sys \<Rightarrow> int \<Rightarrow> 'w tcp \<Rightarrow> 'w tcp option" where
  "closeSocket os socket_id s = do {
     s \<leftarrow> removeSocketTimer socket_id s;
     s \<leftarrow> (case tc_connections s socket_id of
             None \<Rightarrow> Some s
           | Some c \<Rightarrow> do {
               s \<leftarrow> delete_connection c s;
               Some (s\<lparr>tc_connections := (tc_connections s)(socket_id := None)\<rparr>) });
     s \<leftarrow> (case tc_sockets s socket_id of
             None \<Rightarrow> Some s
           | Some p \<Rightarrow> do {
               s \<leftarrow> delete_socket os p s;
               Some (s\<lparr>tc_sockets := (tc_sockets s)(socket_id := None)\<rparr>) });
     (case tc_contexts s socket_id of
        None \<Rightarrow> Some s
      | Some x \<Rightarrow> do {
          s \<leftarrow> delete_context x s;
          Some (s\<lparr>tc_contexts := (tc_contexts s)(socket_id := None)\<rparr>) }) }"

text \<open>
  The destructor: three loops over the values of the maps. The lists are these values, in the order in
  which the maps list them.
\<close>

fun delete_connections :: "nat list \<Rightarrow> 'w tcp \<Rightarrow> 'w tcp option" where
  "delete_connections [] s = Some s"
| "delete_connections (c # cs) s = do {
     s \<leftarrow> delete_connection c s;
     delete_connections cs s }"

fun delete_sockets :: "'w sys \<Rightarrow> nat list \<Rightarrow> 'w tcp \<Rightarrow> 'w tcp option" where
  "delete_sockets os [] s = Some s"
| "delete_sockets os (p # ps) s = do {
     s \<leftarrow> delete_socket os p s;
     delete_sockets os ps s }"

fun delete_contexts :: "nat list \<Rightarrow> 'w tcp \<Rightarrow> 'w tcp option" where
  "delete_contexts [] s = Some s"
| "delete_contexts (x # xs) s = do {
     s \<leftarrow> delete_context x s;
     delete_contexts xs s }"

definition tcp_delete :: "'w sys \<Rightarrow> nat list \<Rightarrow> nat list \<Rightarrow> nat list \<Rightarrow> 'w tcp \<Rightarrow> 'w tcp option" where
  "tcp_delete os cs ps xs s = do {
     s \<leftarrow> delete_connections cs s;
     s \<leftarrow> delete_sockets os ps s;
     delete_contexts xs s }"

definition getContext :: "int \<Rightarrow> 'w tcp \<Rightarrow> nat" where
  "getContext socket_id s = (case tc_contexts s socket_id of None \<Rightarrow> 0 | Some x \<Rightarrow> x)"

definition setContext :: "int \<Rightarrow> nat \<Rightarrow> 'w tcp \<Rightarrow> (bool \<times> 'w tcp) option" where
  "setContext socket_id context s =
     (if tc_sockets s socket_id = None then Some (False, s)
      else
        case tc_contexts s socket_id of
          None \<Rightarrow> Some (True, s\<lparr>tc_contexts := (tc_contexts s)(socket_id \<mapsto> context)\<rparr>)
        | Some old \<Rightarrow>
            if old = context then Some (True, s)
            else do {
              s \<leftarrow> delete_context old s;
              Some (True, s\<lparr>tc_contexts := (tc_contexts s)(socket_id \<mapsto> context)\<rparr>) })"

section \<open>Sending\<close>

definition complete :: "'w sys \<Rightarrow> 'w application \<Rightarrow> send_cb \<Rightarrow> int \<Rightarrow> 'w tcp \<Rightarrow> 'w tcp option" where
  "complete os app cb socket_id s =
     (case cb of
        SendCompleteClose \<Rightarrow> closeSocket os socket_id s
      | SendCompleteUser n \<Rightarrow> app (SendCompleted n socket_id) s)"

text \<open>The error branches of \<open>sendMessage\<close>: mark the connection, report from a timer.\<close>

definition send_failed :: "'w sys \<Rightarrow> nat \<Rightarrow> int \<Rightarrow> 'w tcp \<Rightarrow> (bool \<times> 'w tcp) option" where
  "send_failed os c code s = do {
     s \<leftarrow> setError c code s;
     k \<leftarrow> tc_conns s c;
     d \<leftarrow> io_devices s (cn_socket k);
     s \<leftarrow> addSocketTimer os (dv_id d) 0 OnSendMessageError s;
     Some (False, s) }"

text \<open>Reserve, \<open>memcpy\<close>, \<open>write\<close>, and the send-complete callback.\<close>

definition buffer_message :: "nat \<Rightarrow> bytes \<Rightarrow> send_cb option \<Rightarrow> 'w tcp \<Rightarrow> 'w tcp option" where
  "buffer_message c bs cb s = do {
     k \<leftarrow> tc_conns s c;
     b \<leftarrow> db_append (cn_write k) bs;
     s \<leftarrow> set_write_buffer c b s;
     setSendCompleteCallback c cb s }"

definition write_overflow :: "'w tcp \<Rightarrow> nat \<Rightarrow> dynamic_buffer \<Rightarrow> bool" where
  "write_overflow s n b \<longleftrightarrow> tc_write_max s > 0 \<and> sz (n + db_readableBytes b) > tc_write_max s"

definition send_connection :: "'w sys \<Rightarrow> 'w application \<Rightarrow> nat \<Rightarrow> bytes \<Rightarrow> send_cb option \<Rightarrow> 'w tcp \<Rightarrow>
    (bool \<times> 'w tcp) option" where
  "send_connection os app c bs cb s = do {
     k \<leftarrow> tc_conns s c;
     if cn_status k \<noteq> CONNECTED then Some (False, s)
     else if db_readableBytes (cn_write k) = 0 then do {
       (write_size, s) \<leftarrow> tcp_send os (cn_socket k) bs s;
       if write_size < 0 \<and> io_errno s \<noteq> EAGAIN then send_failed os c (io_errno s) s
       else do {
         let sent = nat (max 0 write_size);
         let remain_size = length bs - sent;
         if remain_size > 0 then do {
           if write_overflow s remain_size (cn_write k) then send_failed os c ENOBUFS s
           else do {
             s \<leftarrow> buffer_message c (drop sent bs) cb s;
             s \<leftarrow> setWriteCallback os (cn_socket k) (Some OnSocketWrite) s;
             Some (True, s) } }
         else do {
           d \<leftarrow> io_devices s (cn_socket k);
           s \<leftarrow> (case cb of None \<Rightarrow> Some s | Some cb \<Rightarrow> complete os app cb (dv_id d) s);
           Some (True, s) } } }
     else if write_overflow s (length bs) (cn_write k) then send_failed os c ENOBUFS s
     else do {
       s \<leftarrow> buffer_message c bs cb s;
       Some (True, s) } }"

definition sendMessage :: "'w sys \<Rightarrow> 'w application \<Rightarrow> int \<Rightarrow> bytes \<Rightarrow> send_cb option \<Rightarrow> 'w tcp \<Rightarrow>
    (bool \<times> 'w tcp) option" where
  "sendMessage os app socket_id bs cb s =
     (case tc_connections s socket_id of
        None \<Rightarrow> Some (False, s)
      | Some c \<Rightarrow> send_connection os app c bs cb s)"

definition sendMessageThenClose :: "'w sys \<Rightarrow> 'w application \<Rightarrow> int \<Rightarrow> bytes \<Rightarrow> 'w tcp \<Rightarrow> (bool \<times> 'w tcp) option" where
  "sendMessageThenClose os app socket_id bs = sendMessage os app socket_id bs (Some SendCompleteClose)"

text \<open>
  \<open>broadcastMessage\<close> walks an unordered map; \<open>ids\<close> is the order in which it lists the keys.
\<close>

fun broadcastMessage :: "'w sys \<Rightarrow> 'w application \<Rightarrow> int list \<Rightarrow> bytes \<Rightarrow> 'w tcp \<Rightarrow> 'w tcp option" where
  "broadcastMessage os app [] bs s = Some s"
| "broadcastMessage os app (i # ids) bs s = do {
     c \<leftarrow> tc_connections s i;
     (ok, s) \<leftarrow> send_connection os app c bs None s;
     broadcastMessage os app ids bs s }"

section \<open>Callbacks of timers\<close>

definition onListenSocketResumeRead :: "'w sys \<Rightarrow> int \<Rightarrow> 'w tcp \<Rightarrow> 'w tcp option" where
  "onListenSocketResumeRead os timer_id s =
     (case take_timer timer_id s of
        (None, s) \<Rightarrow> Some s
      | (Some socket_id, s) \<Rightarrow>
          (case tc_sockets s socket_id of
             None \<Rightarrow> Some s
           | Some p \<Rightarrow> setReadCallback os p (Some OnListenSocketRead) s))"

definition report_error :: "'w application \<Rightarrow> nat \<Rightarrow> nat \<Rightarrow> 'w tcp \<Rightarrow> 'w tcp option" where
  "report_error app p c s = do {
     d \<leftarrow> io_devices s p;
     k \<leftarrow> tc_conns s c;
     app_if (tc_error_cb s) app (ErrorOccurred (dv_id d) (cn_error k)) s }"

definition onAsyncConnectTimeout :: "'w application \<Rightarrow> int \<Rightarrow> 'w tcp \<Rightarrow> 'w tcp option" where
  "onAsyncConnectTimeout app timer_id s =
     (case take_timer timer_id s of
        (None, s) \<Rightarrow> Some s
      | (Some socket_id, s) \<Rightarrow>
          (case (tc_sockets s socket_id, tc_connections s socket_id) of
             (Some p, Some c) \<Rightarrow> do {
               s \<leftarrow> setError c ETIMEDOUT s;
               report_error app p c s }
           | _ \<Rightarrow> Some s))"

definition onSendMessageError :: "'w application \<Rightarrow> int \<Rightarrow> 'w tcp \<Rightarrow> 'w tcp option" where
  "onSendMessageError app timer_id s =
     (case take_timer timer_id s of
        (None, s) \<Rightarrow> Some s
      | (Some socket_id, s) \<Rightarrow>
          (case (tc_sockets s socket_id, tc_connections s socket_id) of
             (Some p, Some c) \<Rightarrow> report_error app p c s
           | _ \<Rightarrow> Some s))"

definition fire_timer :: "'w sys \<Rightarrow> 'w application \<Rightarrow> timer_cb \<Rightarrow> int \<Rightarrow> 'w tcp \<Rightarrow> 'w tcp option" where
  "fire_timer os app cb timer_id s =
     (case cb of
        OnListenSocketResumeRead \<Rightarrow> onListenSocketResumeRead os timer_id s
      | OnAsyncConnectTimeout \<Rightarrow> onAsyncConnectTimeout app timer_id s
      | OnSendMessageError \<Rightarrow> onSendMessageError app timer_id s
      | AppTimer n \<Rightarrow> app (TimerFired n timer_id) s)"

section \<open>Callbacks of devices\<close>

text \<open>
  One turn of the accept loop: \<open>Inl\<close> leaves the handler, \<open>Inr\<close> goes round. The new socket is
  deleted at the end of its scope unless it was released.
\<close>

definition accept_step :: "'w sys \<Rightarrow> 'w application \<Rightarrow> nat \<Rightarrow> 'w tcp \<Rightarrow> ('w tcp + 'w tcp) option" where
  "accept_step os app p s = do {
     let (q, s) = new_device os s;
     (ok, s) \<leftarrow> acceptNonblock os p q s;
     if \<not> ok then
       if io_errno s = EAGAIN then do { s \<leftarrow> delete_socket os q s; Some (Inl s) }
       else if io_errno s = ECONNABORTED then do { s \<leftarrow> delete_socket os q s; Some (Inr s) }
       else do {
         s \<leftarrow> (if (io_errno s = EMFILE \<or> io_errno s = ENFILE) \<and> tc_accept_pause s > 0
               then do {
                 s \<leftarrow> setReadCallback os p None s;
                 d \<leftarrow> io_devices s p;
                 addSocketTimer os (dv_id d) (tc_accept_pause s) OnListenSocketResumeRead s }
               else Some s);
         s \<leftarrow> delete_socket os q s;
         Some (Inl s) }
     else do {
       r \<leftarrow> buildConnectedSocket os q s;
       (socket_id, s) \<leftarrow> unless_released os q r;
       if socket_id = -1 then Some (Inl s)
       else do {
         d \<leftarrow> io_devices s p;
         s \<leftarrow> app_if (tc_new_conn_cb s) app (NewConnection (dv_id d) socket_id) s;
         Some (Inr s) } } }"

partial_function (option) onListenSocketRead :: "'w sys \<Rightarrow> 'w application \<Rightarrow> nat \<Rightarrow> 'w tcp \<Rightarrow> 'w tcp option" where
  "onListenSocketRead os app p s = do {
     r \<leftarrow> accept_step os app p s;
     case r of Inl s \<Rightarrow> Some s | Inr s \<Rightarrow> onListenSocketRead os app p s }"

definition onAsyncConnectSocketWrite :: "'w sys \<Rightarrow> 'w application \<Rightarrow> nat \<Rightarrow> 'w tcp \<Rightarrow> 'w tcp option" where
  "onAsyncConnectSocketWrite os app p s = do {
     d \<leftarrow> io_devices s p;
     let socket_id = dv_id d;
     s \<leftarrow> removeSocketTimer socket_id s;
     case tc_connections s socket_id of
       None \<Rightarrow> Some s
     | Some c \<Rightarrow> do {
         (socket_error, s) \<leftarrow> getSocketError os p s;
         if socket_error \<noteq> 0 then do {
           s \<leftarrow> setError c socket_error s;
           report_error app p c s }
         else do {
           s \<leftarrow> setReadCallback os p (Some OnSocketRead) s;
           s \<leftarrow> setWriteCallback os p None s;
           s \<leftarrow> setStatus c CONNECTED s;
           app_if (tc_new_conn_cb s) app (NewConnection socket_id socket_id) s } } }"

text \<open>
  One turn of the receive loop. \<open>Again\<close> is a turn that stored data, \<open>Break\<close> leaves the loop with
  \<open>peer_close\<close>, \<open>Error\<close> returns from the handler with the error.
\<close>

datatype 's read_turn = Again 's | Break bool 's | Error 's

definition read_step :: "'w sys \<Rightarrow> nat \<Rightarrow> nat \<Rightarrow> 'w tcp \<Rightarrow> 'w tcp read_turn option" where
  "read_step os p c s = do {
     (readable, s) \<leftarrow> readableBytes os p s;
     let bytes_to_read = nat (max 1 readable);
     k \<leftarrow> tc_conns s c;
     if tc_read_max s > 0 \<and> sz (bytes_to_read + db_readableBytes (cn_read k)) > tc_read_max s
     then Some (Break True s)
     else do {
       b \<leftarrow> db_reserveWritableBytes (cn_read k) bytes_to_read;
       ((ret, bs), s) \<leftarrow> tcp_recv os p bytes_to_read s;
       b \<leftarrow> db_writeBegin b 0 bs;
       s \<leftarrow> set_read_buffer c b s;
       if ret > 0 then do {
         s \<leftarrow> set_read_buffer c (db_write b (nat ret)) s;
         Some (Again s) }
       else if ret < 0 then
         if io_errno s = EAGAIN then Some (Break False s)
         else do {
           s \<leftarrow> setError c (io_errno s) s;
           Some (Error s) }
       else Some (Break True s) } }"

text \<open>The loop, with \<open>data_arrive\<close>; the result is that flag and the way out.\<close>

partial_function (option) read_loop :: "'w sys \<Rightarrow> nat \<Rightarrow> nat \<Rightarrow> bool \<Rightarrow> 'w tcp \<Rightarrow> (bool \<times> 'w tcp read_turn) option" where
  "read_loop os p c data_arrive s = do {
     r \<leftarrow> read_step os p c s;
     case r of
       Again s \<Rightarrow> read_loop os p c True s
     | _ \<Rightarrow> Some (data_arrive, r) }"

definition onSocketRead :: "'w sys \<Rightarrow> 'w application \<Rightarrow> nat \<Rightarrow> 'w tcp \<Rightarrow> 'w tcp option" where
  "onSocketRead os app p s = do {
     d \<leftarrow> io_devices s p;
     let socket_id = dv_id d;
     case tc_connections s socket_id of
       None \<Rightarrow> Some s
     | Some c \<Rightarrow> do {
         (data_arrive, r) \<leftarrow> read_loop os p c False s;
         case r of
           Again s \<Rightarrow> Some s
         | Error s \<Rightarrow> do {
             k \<leftarrow> tc_conns s c;
             app_if (tc_error_cb s) app (ErrorOccurred socket_id (cn_error k)) s }
         | Break peer_close s \<Rightarrow> do {
             s \<leftarrow> app_if (data_arrive \<and> tc_recv_message_cb s) app (RecvMessage socket_id c) s;
             if \<not> peer_close \<or> data_arrive \<and> tc_connections s socket_id = None then Some s
             else do {
               s \<leftarrow> setStatus c PEER_CLOSED s;
               app_if (tc_peer_close_cb s) app (PeerClose socket_id) s } } } }"

definition onSocketWrite :: "'w sys \<Rightarrow> 'w application \<Rightarrow> nat \<Rightarrow> 'w tcp \<Rightarrow> 'w tcp option" where
  "onSocketWrite os app p s = do {
     d \<leftarrow> io_devices s p;
     let socket_id = dv_id d;
     case tc_connections s socket_id of
       None \<Rightarrow> Some s
     | Some c \<Rightarrow> do {
         k \<leftarrow> tc_conns s c;
         bs \<leftarrow> db_readBegin (cn_write k) 0 (db_readableBytes (cn_write k));
         (write_size, s) \<leftarrow> tcp_send os p bs s;
         if write_size < 0 then
           if io_errno s \<noteq> EAGAIN then do {
             s \<leftarrow> setError c (io_errno s) s;
             report_error app p c s }
           else Some s
         else do {
           let b = db_read (cn_write k) (nat write_size);
           s \<leftarrow> set_write_buffer c b s;
           if db_readableBytes b = 0 then do {
             s \<leftarrow> setWriteCallback os p None s;
             s \<leftarrow> setSendCompleteCallback c None s;
             case cn_complete k of
               None \<Rightarrow> Some s
             | Some cb \<Rightarrow> complete os app cb socket_id s }
           else Some s } } }"

definition onSocketError :: "'w sys \<Rightarrow> 'w application \<Rightarrow> nat \<Rightarrow> 'w tcp \<Rightarrow> 'w tcp option" where
  "onSocketError os app p s = do {
     d \<leftarrow> io_devices s p;
     case tc_connections s (dv_id d) of
       None \<Rightarrow> Some s
     | Some c \<Rightarrow> do {
         (socket_error, s) \<leftarrow> getSocketError os p s;
         let socket_error = (if socket_error = 0 then io_errno s else socket_error);
         s \<leftarrow> setError c socket_error s;
         report_error app p c s } }"

definition run_device :: "'w sys \<Rightarrow> 'w application \<Rightarrow> device_cb \<Rightarrow> nat \<Rightarrow> 'w tcp \<Rightarrow> 'w tcp option" where
  "run_device os app cb p s =
     (case cb of
        OnListenSocketRead \<Rightarrow> onListenSocketRead os app p s
      | OnAsyncConnectSocketWrite \<Rightarrow> onAsyncConnectSocketWrite os app p s
      | OnSocketRead \<Rightarrow> onSocketRead os app p s
      | OnSocketWrite \<Rightarrow> onSocketWrite os app p s
      | OnSocketError \<Rightarrow> onSocketError os app p s)"

text \<open>The event loop of a program that uses the service.\<close>

definition service_loop :: "'w sys \<Rightarrow> 'w application \<Rightarrow> 'w tcp \<Rightarrow> 'w tcp option" where
  "service_loop os app = loop os (run_device os app) (fire_timer os app)"

end
