(* ===== verification/TcpKernel.thy ===== *)
theory TcpKernel
  imports TcpService
begin

text \<open>
  What the service relies on in the operating system, \<open>kernel_ok\<close>, and what the operations of
  devices and sockets (\<open>io_device.cc\<close>, \<open>tcp_socket.cc\<close>) do to the state under these laws: only
  \<open>errno\<close>, the world, the set of removed devices and the one device they work on change.
\<close>

section \<open>Laws of the system calls\<close>

text \<open>
  \<open>pending w\<close> counts the connections that wait to be accepted. No call increases it and an \<open>accept\<close>
  that yields or aborts a connection decreases it. \<open>send\<close> and \<open>recv\<close> move at most what they were
  asked to move, memory is allocated at unused addresses, and the clock is normalised.
\<close>

definition quiet :: "('w \<Rightarrow> nat) \<Rightarrow> ('r, 'w) call \<Rightarrow> bool" where
  "quiet pending f \<longleftrightarrow> (\<forall>e w r e' w'. f (e, w) = (r, e', w') \<longrightarrow> pending w' \<le> pending w)"

definition memory_ok :: "'w sys \<Rightarrow> ('w \<Rightarrow> nat) \<Rightarrow> bool" where
  "memory_ok os pending \<longleftrightarrow> (\<forall>A w p w'. finite A \<and> sy_malloc os A w = (p, w') \<longrightarrow> p \<notin> A \<and> pending w' \<le> pending w)"

definition quiet_ok :: "'w sys \<Rightarrow> ('w \<Rightarrow> nat) \<Rightarrow> bool" where
  "quiet_ok os pending \<longleftrightarrow> quiet pending (sy_now os) \<and>
     (\<forall>a. quiet pending (sy_socket os a)) \<and> (\<forall>a. quiet pending (sy_close os a)) \<and>
     (\<forall>a. quiet pending (sy_dup os a)) \<and> (\<forall>a b c. quiet pending (sy_fcntl os a b c)) \<and>
     (\<forall>a b. quiet pending (sy_connect os a b)) \<and> (\<forall>a b. quiet pending (sy_bind os a b)) \<and>
     (\<forall>a b. quiet pending (sy_listen os a b)) \<and> (\<forall>a. quiet pending (sy_fionread os a)) \<and>
     (\<forall>a b. quiet pending (sy_recv os a b)) \<and> (\<forall>a b. quiet pending (sy_send os a b)) \<and>
     (\<forall>a. quiet pending (sy_so_error os a)) \<and> (\<forall>a b. quiet pending (sy_setsockopt os a b)) \<and>
     (\<forall>a b c. quiet pending (sy_epoll_ctl os a b c))"

definition accept_ok :: "'w sys \<Rightarrow> ('w \<Rightarrow> nat) \<Rightarrow> bool" where
  "accept_ok os pending \<longleftrightarrow> (\<forall>fd e w r e' w'. sy_accept os fd (e, w) = (r, e', w') \<longrightarrow>
     pending w' \<le> pending w \<and> (r \<noteq> -1 \<or> e' = ECONNABORTED \<longrightarrow> pending w' < pending w))"

definition transfer_ok :: "'w sys \<Rightarrow> bool" where
  "transfer_ok os \<longleftrightarrow>
     (\<forall>fd n e w r bs e' w'. sy_recv os fd n (e, w) = ((r, bs), e', w') \<longrightarrow>
        -1 \<le> r \<and> r \<le> int n \<and> r < 2 ^ 31 \<and> length bs = nat r) \<and>
     (\<forall>fd bs e w r e' w'. sy_send os fd bs (e, w) = (r, e', w') \<longrightarrow> -1 \<le> r \<and> r \<le> int (length bs) \<and> r < 2 ^ 31) \<and>
     (\<forall>fd e w r n e' w'. sy_fionread os fd (e, w) = ((r, n), e', w') \<longrightarrow> n < 2 ^ 31) \<and>
     (\<forall>e w t e' w'. sy_now os (e, w) = (t, e', w') \<longrightarrow> ts_normal t)"

definition kernel_ok :: "'w sys \<Rightarrow> ('w \<Rightarrow> nat) \<Rightarrow> bool" where
  "kernel_ok os pending \<longleftrightarrow> memory_ok os pending \<and> quiet_ok os pending \<and> accept_ok os pending \<and> transfer_ok os"

lemma kernel_quiet:
  assumes "kernel_ok os pending"
  shows "quiet pending (sy_now os)" "quiet pending (sy_socket os p)" "quiet pending (sy_close os fd)"
    "quiet pending (sy_dup os fd)" "quiet pending (sy_fcntl os fd b c)" "quiet pending (sy_connect os fd bs)"
    "quiet pending (sy_bind os fd bs)" "quiet pending (sy_listen os fd k)" "quiet pending (sy_fionread os fd)"
    "quiet pending (sy_recv os fd n)" "quiet pending (sy_send os fd bs)" "quiet pending (sy_so_error os fd)"
    "quiet pending (sy_setsockopt os fd opt)" "quiet pending (sy_epoll_ctl os x fd ev)"
  using assms by (simp_all add: kernel_ok_def quiet_ok_def)

section \<open>System calls\<close>

text \<open>\<open>called\<close>: a state whose system calls went on to \<open>errno\<close> and world \<open>w\<close>.\<close>

abbreviation called :: "int \<Rightarrow> 'w \<Rightarrow> ('d, 'c, 'w, 'z) io_scheme \<Rightarrow> ('d, 'c, 'w, 'z) io_scheme" where
  "called e w s \<equiv> s\<lparr>io_world := w, io_errno := e\<rparr>"

lemma syscall_quiet:
  assumes "quiet pending f"
  obtains r e w where "syscall f s = (r, called e w s)" "f (io_errno s, io_world s) = (r, e, w)"
    "pending w \<le> pending (io_world s)"
proof -
  obtain r e w where f: "f (io_errno s, io_world s) = (r, e, w)" by (metis prod_cases3)
  with assms have "pending w \<le> pending (io_world s)" by (simp add: quiet_def)
  with f show thesis by (intro that [of r e w]) (simp_all add: syscall_def)
qed

lemma syscall_step:
  assumes "quiet pending f"
  obtains r e w where "syscall f s = (r, called e w s)" "pending w \<le> pending (io_world s)"
  by (rule syscall_quiet [OF assms, of s]) (rule that)

lemma devices_same [simp]: "io_devices s p = Some d \<Longrightarrow> (io_devices s)(p \<mapsto> d) = io_devices s"
  by (simp add: fun_upd_idem)

lemma device_same [simp]:
  "d\<lparr>dv_fd := dv_fd d\<rparr> = d" "\<not> dv_attached d \<Longrightarrow> d\<lparr>dv_attached := False\<rparr> = d"
  by simp_all

lemma called_same [simp]: "called (io_errno s) (io_world s) s = s"
  by simp

section \<open>Devices\<close>

lemma detachIOService_spec:
  assumes "kernel_ok os pending" "io_devices s p = Some d"
  obtains e w where "detachIOService os p s =
      Some (called e w s\<lparr>io_devices := (io_devices s)(p \<mapsto> d\<lparr>dv_attached := False\<rparr>),
        io_removed := (if dv_attached d then insert p (io_removed s) else io_removed s)\<rparr>)"
    "pending w \<le> pending (io_world s)"
proof (cases "dv_attached d")
  case True
  obtain r e w where "syscall (sy_epoll_ctl os EPOLL_CTL_DEL (dv_fd d) empty_event) s = (r, called e w s)"
      "pending w \<le> pending (io_world s)"
    using syscall_quiet [OF kernel_quiet(14) [OF assms(1)]] by metis
  with True assms(2) show thesis
    by (intro that [of e w]) (simp_all add: detachIOService_def removeIODevice_def set_device_def)
next
  case False
  then have "d\<lparr>dv_attached := False\<rparr> = d" by simp
  with False assms(2) show thesis
    by (intro that [of "io_errno s" "io_world s"]) (simp_all add: detachIOService_def)
qed

lemma tcp_close_spec:
  assumes "kernel_ok os pending" "io_devices s p = Some d"
  obtains e w where "tcp_close os p s =
      Some (called e w s\<lparr>io_devices := (io_devices s)(p \<mapsto> d\<lparr>dv_attached := False, dv_fd := -1\<rparr>),
        io_removed := (if dv_attached d then insert p (io_removed s) else io_removed s)\<rparr>)"
    "pending w \<le> pending (io_world s)"
proof -
  obtain e w where s1: "detachIOService os p s =
      Some (called e w s\<lparr>io_devices := (io_devices s)(p \<mapsto> d\<lparr>dv_attached := False\<rparr>),
        io_removed := (if dv_attached d then insert p (io_removed s) else io_removed s)\<rparr>)"
      "pending w \<le> pending (io_world s)" by (rule detachIOService_spec [OF assms])
  show thesis
  proof (cases "dv_fd d = -1")
    case True
    then have "d\<lparr>dv_attached := False\<rparr> = d\<lparr>dv_attached := False, dv_fd := -1\<rparr>" by simp
    with True s1 show thesis by (intro that [of e w]) (simp_all only: tcp_close_def bind.bind_lunit io.simps fun_upd_same, simp_all)
  next
    case False
    let ?s1 = "called e w s\<lparr>io_devices := (io_devices s)(p \<mapsto> d\<lparr>dv_attached := False\<rparr>),
        io_removed := (if dv_attached d then insert p (io_removed s) else io_removed s)\<rparr>"
    obtain r e' w' where "syscall (sy_close os (dv_fd d)) ?s1 = (r, called e' w' ?s1)" "pending w' \<le> pending (io_world ?s1)"
      by (rule syscall_step [OF kernel_quiet(3) [OF assms(1)]])
    with False s1 show thesis
      by (intro that [of e' w']) (simp_all add: tcp_close_def setDescriptor_def set_device_def)
  qed
qed

lemma delete_socket_spec:
  assumes "kernel_ok os pending" "io_devices s p = Some d"
  obtains e w where "delete_socket os p s =
      Some (called e w s\<lparr>io_devices := (io_devices s)(p := None),
        io_removed := (if dv_attached d then insert p (io_removed s) else io_removed s)\<rparr>)"
    "pending w \<le> pending (io_world s)"
proof -
  obtain e w where "tcp_close os p s =
      Some (called e w s\<lparr>io_devices := (io_devices s)(p \<mapsto> d\<lparr>dv_attached := False, dv_fd := -1\<rparr>),
        io_removed := (if dv_attached d then insert p (io_removed s) else io_removed s)\<rparr>)"
      "pending w \<le> pending (io_world s)" by (rule tcp_close_spec [OF assms])
  then show thesis
    by (intro that [of e w]) (simp_all add: delete_socket_def detachIOService_def)
qed

lemma update_if_attached_spec:
  assumes "kernel_ok os pending" "io_devices s p = Some d"
  obtains e w where "update_if_attached os p s = Some (called e w s)" "pending w \<le> pending (io_world s)"
proof (cases "dv_attached d")
  case True
  obtain r e w where "syscall (sy_epoll_ctl os EPOLL_CTL_MOD (dv_fd d) (device_event p d)) s = (r, called e w s)"
      "pending w \<le> pending (io_world s)"
    using syscall_quiet [OF kernel_quiet(14) [OF assms(1)]] by metis
  with True assms(2) show thesis
    by (intro that [of e w]) (simp_all add: update_if_attached_def updateIODevice_def)
next
  case False
  with assms(2) show thesis
    by (intro that [of "io_errno s" "io_world s"]) (simp_all add: update_if_attached_def)
qed

lemma setReadCallback_spec:
  assumes "kernel_ok os pending" "io_devices s p = Some d"
  obtains e w where "setReadCallback os p cb s =
      Some (called e w s\<lparr>io_devices := (io_devices s)(p \<mapsto> d\<lparr>dv_read := cb\<rparr>)\<rparr>)"
    "pending w \<le> pending (io_world s)"
proof -
  let ?s = "s\<lparr>io_devices := (io_devices s)(p \<mapsto> d\<lparr>dv_read := cb\<rparr>)\<rparr>"
  obtain e w where "update_if_attached os p ?s = Some (called e w ?s)" "pending w \<le> pending (io_world ?s)"
    by (rule update_if_attached_spec [OF assms(1), of ?s p "d\<lparr>dv_read := cb\<rparr>"]) simp
  with assms(2) show thesis by (intro that [of e w]) (simp_all add: setReadCallback_def set_device_def)
qed

lemma setWriteCallback_spec:
  assumes "kernel_ok os pending" "io_devices s p = Some d"
  obtains e w where "setWriteCallback os p cb s =
      Some (called e w s\<lparr>io_devices := (io_devices s)(p \<mapsto> d\<lparr>dv_write := cb\<rparr>)\<rparr>)"
    "pending w \<le> pending (io_world s)"
proof -
  let ?s = "s\<lparr>io_devices := (io_devices s)(p \<mapsto> d\<lparr>dv_write := cb\<rparr>)\<rparr>"
  obtain e w where "update_if_attached os p ?s = Some (called e w ?s)" "pending w \<le> pending (io_world ?s)"
    by (rule update_if_attached_spec [OF assms(1), of ?s p "d\<lparr>dv_write := cb\<rparr>"]) simp
  with assms(2) show thesis by (intro that [of e w]) (simp_all add: setWriteCallback_def set_device_def)
qed

lemma attachIOService_spec:
  assumes "kernel_ok os pending" "io_devices s p = Some d" "\<not> dv_attached d"
  obtains ok e w where "attachIOService os p s =
      Some (ok, called e w s\<lparr>io_devices := (io_devices s)(p \<mapsto> d\<lparr>dv_attached := ok\<rparr>)\<rparr>)"
    "pending w \<le> pending (io_world s)"
proof -
  obtain r e w where r: "syscall (sy_epoll_ctl os EPOLL_CTL_ADD (dv_fd d) (device_event p d)) s = (r, called e w s)"
      "pending w \<le> pending (io_world s)"
    using syscall_quiet [OF kernel_quiet(14) [OF assms(1)]] by metis
  have d: "d\<lparr>dv_attached := False\<rparr> = d" using assms(3) by simp
  show thesis
    using r assms(2,3) d
    by (intro that [of "r = 0" e w]) (auto simp: attachIOService_def addIODevice_def set_device_def)
qed

section \<open>A socket under construction\<close>

text \<open>Operations that open a socket change its descriptor only.\<close>

definition opens :: "('w \<Rightarrow> nat) \<Rightarrow> nat \<Rightarrow> 'd device \<Rightarrow> ('d, 'c, 'w, 'z) io_scheme \<Rightarrow> ('d, 'c, 'w, 'z) io_scheme \<Rightarrow> bool" where
  "opens pending p d s s' \<longleftrightarrow> (\<exists>e w fd. s' = called e w s\<lparr>io_devices := (io_devices s)(p \<mapsto> d\<lparr>dv_fd := fd\<rparr>)\<rparr> \<and>
     pending w \<le> pending (io_world s))"

definition opener :: "('w \<Rightarrow> nat) \<Rightarrow> nat \<Rightarrow> (('d, 'c, 'w, 'z) io_scheme \<Rightarrow> (bool \<times> ('d, 'c, 'w, 'z) io_scheme) option) \<Rightarrow> bool" where
  "opener pending p f \<longleftrightarrow> (\<forall>s d. io_devices s p = Some d \<and> \<not> dv_attached d \<longrightarrow>
     (\<exists>ok s'. f s = Some (ok, s') \<and> opens pending p d s s'))"

lemma opens_refl [simp]: "io_devices s p = Some d \<Longrightarrow> opens pending p d s s"
  unfolding opens_def by (rule exI [of _ "io_errno s"], rule exI [of _ "io_world s"], rule exI [of _ "dv_fd d"]) simp

lemma opens_trans:
  assumes "opens pending p d s s'" "\<And>d'. io_devices s' p = Some d' \<Longrightarrow> \<not> dv_attached d \<Longrightarrow> \<not> dv_attached d' \<Longrightarrow> opens pending p d' s' s''"
    "\<not> dv_attached d"
  shows "opens pending p d s s''"
proof -
  obtain e w fd where s': "s' = called e w s\<lparr>io_devices := (io_devices s)(p \<mapsto> d\<lparr>dv_fd := fd\<rparr>)\<rparr>"
      "pending w \<le> pending (io_world s)" using assms(1) by (auto simp: opens_def)
  from assms(2,3) s'(1) obtain e' w' fd' where
      "s'' = called e' w' s'\<lparr>io_devices := (io_devices s')(p \<mapsto> d\<lparr>dv_fd := fd\<rparr>\<lparr>dv_fd := fd'\<rparr>)\<rparr>"
      "pending w' \<le> pending (io_world s')" by (force simp: opens_def)
  with s' have "s'' = called e' w' s\<lparr>io_devices := (io_devices s)(p \<mapsto> d\<lparr>dv_fd := fd'\<rparr>)\<rparr> \<and> pending w' \<le> pending (io_world s)"
    by simp
  then show ?thesis unfolding opens_def by blast
qed

lemma opens_dev: "opens pending p d s s' \<Longrightarrow> \<exists>fd. io_devices s' p = Some (d\<lparr>dv_fd := fd\<rparr>)"
  by (auto simp: opens_def)

lemma opensI:
  "pending w \<le> pending (io_world s) \<Longrightarrow> io_devices s p = Some d \<Longrightarrow> opens pending p d s (called e w s)"
  unfolding opens_def by (rule exI [of _ e], rule exI [of _ w], rule exI [of _ "dv_fd d"]) simp

lemma opensE:
  assumes "opener pending p f" "io_devices s p = Some d" "\<not> dv_attached d"
  obtains ok s' d' where "f s = Some (ok, s')" "opens pending p d s s'" "io_devices s' p = Some d'" "\<not> dv_attached d'"
  using assms unfolding opener_def by (metis opens_dev device.select_convs(1) device.simps(9) device.surjective device.update_convs(3))

lemma opener_bind:
  assumes "opener pending p f" "\<And>ok. opener pending p (g ok)"
  shows "opener pending p (\<lambda>s. do { (ok, s) \<leftarrow> f s; g ok s })"
  unfolding opener_def
proof (intro allI impI)
  fix s :: "('b, 'c, 'a, 'd) io_scheme" and d
  assume s: "io_devices s p = Some d \<and> \<not> dv_attached d"
  obtain ok s' d' where 1: "f s = Some (ok, s')" "opens pending p d s s'" "io_devices s' p = Some d'" "\<not> dv_attached d'"
    using opensE [OF assms(1)] s by metis
  obtain ok2 s2 where 2: "g ok s' = Some (ok2, s2)" "opens pending p d' s' s2"
    using assms(2) [of ok] 1(3,4) unfolding opener_def by metis
  have "opens pending p d s s2" using opens_trans [OF 1(2)] 2(2) 1(3) s by simp
  with 1 2 show "\<exists>ok s'. (do { (ok, s) \<leftarrow> f s; g ok s }) = Some (ok, s') \<and> opens pending p d s s'" by simp
qed

lemma opener_return: "opener pending p (\<lambda>s. Some (b, s))"
  by (simp add: opener_def)

lemma opener_errno: "opener pending p (\<lambda>s. Some (b, s\<lparr>io_errno := e\<rparr>))"
  unfolding opener_def
proof (intro allI impI)
  fix s :: "('b, 'c, 'a, 'd) io_scheme" and d
  assume "io_devices s p = Some d \<and> \<not> dv_attached d"
  then have "opens pending p d s (called e (io_world s) s)" by (intro opensI) simp_all
  then show "\<exists>ok s'. Some (b, s\<lparr>io_errno := e\<rparr>) = Some (ok, s') \<and> opens pending p d s s'" by simp
qed

lemma opener_if: "opener pending p f \<Longrightarrow> opener pending p g \<Longrightarrow> opener pending p (\<lambda>s. if b then f s else g s)"
  by (cases b) simp_all

lemma opener_on_fd:
  assumes "\<And>fd. quiet pending (f fd)"
  shows "opener pending p (on_fd f p)"
  unfolding opener_def
proof (intro allI impI)
  fix s :: "('b, 'c, 'a, 'd) io_scheme" and d
  assume s: "io_devices s p = Some d \<and> \<not> dv_attached d"
  obtain r e w where "syscall (f (dv_fd d)) s = (r, called e w s)" "pending w \<le> pending (io_world s)"
    using syscall_quiet [OF assms, of "dv_fd d" s] by metis
  with s show "\<exists>ok s'. on_fd f p s = Some (ok, s') \<and> opens pending p d s s'" by (simp add: on_fd_def opensI)
qed

lemma opener_set_flag:
  assumes "kernel_ok os pending"
  shows "opener pending p (set_flag os a b c p)"
  unfolding opener_def
proof (intro allI impI)
  fix s :: "('b, 'c, 'a, 'd) io_scheme" and d
  assume s: "io_devices s p = Some d \<and> \<not> dv_attached d"
  obtain r e w where 1: "syscall (sy_fcntl os (dv_fd d) a 0) s = (r, called e w s)" "pending w \<le> pending (io_world s)"
    using syscall_quiet [OF kernel_quiet(5) [OF assms]] by metis
  obtain r' e' w' where 2: "syscall (sy_fcntl os (dv_fd d) b (r OR c)) (called e w s) = (r', called e' w' (called e w s))" "pending w' \<le> pending (io_world (called e w s))"
    by (rule syscall_step [OF kernel_quiet(5) [OF assms]])
  show "\<exists>ok s'. set_flag os a b c p s = Some (ok, s') \<and> opens pending p d s s'"
    using 1 2 s by (auto simp: set_flag_def opensI)
qed

lemma opener_all_of: "(\<And>f. f \<in> set fs \<Longrightarrow> opener pending p f) \<Longrightarrow> opener pending p (all_of fs)"
proof (induction fs)
  case Nil
  then show ?case by (auto simp: opener_def)
next
  case (Cons f fs)
  have "opener pending p (\<lambda>s. do { (ok, s) \<leftarrow> f s; (\<lambda>ok s. if ok then all_of fs s else Some (False, s)) ok s })"
    using Cons by (intro opener_bind opener_if opener_return) auto
  then show ?case by (auto simp: opener_def)
qed

lemma opener_close:
  assumes "kernel_ok os pending"
  shows "opener pending p (\<lambda>s. do { s \<leftarrow> tcp_close os p s; Some (b, s) })"
  unfolding opener_def
proof (intro allI impI)
  fix s :: "('b, 'c, 'a, 'd) io_scheme" and d
  assume s: "io_devices s p = Some d \<and> \<not> dv_attached d"
  then have d: "io_devices s p = Some d" "d\<lparr>dv_attached := False, dv_fd := -1\<rparr> = d\<lparr>dv_fd := -1\<rparr>" by simp_all
  obtain e w where "tcp_close os p s = Some (called e w s\<lparr>io_devices := (io_devices s)(p \<mapsto> d\<lparr>dv_fd := -1\<rparr>)\<rparr>)"
      "pending w \<le> pending (io_world s)"
    by (rule tcp_close_spec [OF assms d(1), unfolded d(2)]) (use s in simp)
  then show "\<exists>ok s'. (do { s \<leftarrow> tcp_close os p s; Some (b, s) }) = Some (ok, s') \<and> opens pending p d s s'"
    by (auto simp: opens_def)
qed

lemma opener_close_unless:
  assumes "kernel_ok os pending" "opener pending p f"
  shows "opener pending p (\<lambda>s. do { r \<leftarrow> f s; close_unless os p r })"
proof -
  have "(do { r \<leftarrow> f s; close_unless os p r }) = (do { (ok, s) \<leftarrow> f s;
      if ok then Some (True, s) else do { s \<leftarrow> tcp_close os p s; Some (False, s) } })" for s
    by (cases "f s") (auto simp: close_unless_def)
  moreover have "opener pending p (\<lambda>s. do { (ok, s) \<leftarrow> f s;
      if ok then Some (True, s) else do { s \<leftarrow> tcp_close os p s; Some (False, s) } })"
    by (rule opener_bind [OF assms(2) opener_if [OF opener_return opener_close [OF assms(1)]]])
  ultimately show ?thesis by simp
qed

lemma opener_socket_options:
  assumes "kernel_ok os pending"
  shows "opener pending p (setReuseAddr os p)" "opener pending p (setTcpNoDelay os p)"
    "opener pending p (setNonblock os p)" "opener pending p (setCloseOnExec os p)"
    "opener pending p (tcp_listen os n p)" "opener pending p (tcp_connect os addr p)" "opener pending p (tcp_bind os addr p)"
  unfolding setReuseAddr_def setTcpNoDelay_def setNonblock_def setCloseOnExec_def tcp_listen_def tcp_connect_def tcp_bind_def
  by (intro opener_on_fd opener_set_flag assms opener_if opener_errno kernel_quiet [OF assms])+

lemma opener_setDescriptor:
  assumes "\<And>fd. opener pending p (g fd)" "quiet pending f"
  shows "opener pending p (\<lambda>s. let (fd, s) = syscall f s in do { s \<leftarrow> setDescriptor p fd s; g fd s })"
  unfolding opener_def
proof (intro allI impI)
  fix s :: "('b, 'c, 'a, 'd) io_scheme" and d
  assume s: "io_devices s p = Some d \<and> \<not> dv_attached d"
  obtain fd e w where 1: "syscall f s = (fd, called e w s)" "pending w \<le> pending (io_world s)"
    by (rule syscall_step [OF assms(2)])
  let ?s = "called e w s\<lparr>io_devices := (io_devices s)(p \<mapsto> d\<lparr>dv_fd := fd\<rparr>)\<rparr>"
  have 2: "opens pending p d s ?s" using 1(2) unfolding opens_def by blast
  have "io_devices ?s p = Some (d\<lparr>dv_fd := fd\<rparr>)" "\<not> dv_attached (d\<lparr>dv_fd := fd\<rparr>)" using s by simp_all
  then obtain ok s' where 3: "g fd ?s = Some (ok, s')" "opens pending p (d\<lparr>dv_fd := fd\<rparr>) ?s s'"
    using assms(1) [of fd] unfolding opener_def by blast
  have "opens pending p d s s'" by (rule opens_trans [OF 2]) (use 3(2) s in auto)
  with 1 3 s show "\<exists>ok s'. (let (fd, s) = syscall f s in do { s \<leftarrow> setDescriptor p fd s; g fd s }) = Some (ok, s') \<and> opens pending p d s s'"
    by (simp add: setDescriptor_def set_device_def)
qed

lemma opener_dupDescriptor:
  assumes "kernel_ok os pending"
  shows "opener pending p (dupDescriptor os p fd)"
  unfolding opener_def
proof (intro allI impI)
  fix s :: "('b, 'c, 'a, 'd) io_scheme" and d
  assume s: "io_devices s p = Some d \<and> \<not> dv_attached d"
  obtain r e w where 1: "syscall (sy_dup os fd) s = (r, called e w s)" "pending w \<le> pending (io_world s)"
    by (rule syscall_step [OF kernel_quiet(4) [OF assms(1)]])
  have "opens pending p d s (called e w s\<lparr>io_devices := (io_devices s)(p \<mapsto> d\<lparr>dv_fd := r\<rparr>)\<rparr>)"
    using 1(2) unfolding opens_def by blast
  with 1 s show "\<exists>ok s'. dupDescriptor os p fd s = Some (ok, s') \<and> opens pending p d s s'"
    by (auto simp: dupDescriptor_def setDescriptor_def set_device_def opensI)
qed

lemma opener_tcp_open:
  assumes "kernel_ok os pending"
  shows "opener pending p (tcp_open os protocol p)"
proof -
  let ?mk = "\<lambda>s. let (fd, s) = syscall (sy_socket os protocol) s in do {
       s \<leftarrow> setDescriptor p fd s;
       if fd = -1 then Some (False, s)
       else do {
         (ok, s) \<leftarrow> setCloseOnExec os p s;
         if ok then Some (True, s)
         else do { s \<leftarrow> tcp_close os p s; Some (False, s) } } }"
  let ?body = "\<lambda>s. if protocol = UNKNOWN then Some (False, s\<lparr>io_errno := EAFNOSUPPORT\<rparr>) else ?mk s"
  have "opener pending p ?mk"
    by (intro opener_setDescriptor opener_if opener_return opener_bind opener_socket_options(4) [OF assms] opener_close [OF assms] assms kernel_quiet(2) [OF assms])
  then have body: "opener pending p ?body" by (intro opener_if opener_errno)
  have "opener pending p (\<lambda>s. do { (b, s) \<leftarrow> do { s \<leftarrow> tcp_close os p s; Some (False, s) }; ?body s })"
    by (rule opener_bind [OF opener_close [OF assms] body])
  then have closed: "opener pending p (\<lambda>s. do { s \<leftarrow> tcp_close os p s; ?body s })" by simp
  have "\<exists>ok s'. tcp_open os protocol p s = Some (ok, s') \<and> opens pending p d s s'"
    if s: "io_devices s p = Some d \<and> \<not> dv_attached d" for s :: "('b, 'c, 'a, 'd) io_scheme" and d
  proof -
    have eq: "tcp_open os protocol p s = (if dv_fd d \<noteq> -1 then do { s \<leftarrow> tcp_close os p s; ?body s } else ?body s)"
      using s by (simp add: tcp_open_def)
    show ?thesis
      unfolding eq using body [unfolded opener_def, rule_format, OF s] closed [unfolded opener_def, rule_format, OF s]
      by (cases "dv_fd d \<noteq> -1") (simp_all only: if_True if_False simp_thms)
  qed
  then show ?thesis unfolding opener_def by blast
qed

lemma opener_open_address:
  assumes "kernel_ok os pending"
  shows "opener pending p (activeOpenNonblock os addr p)" "opener pending p (passiveOpenNonblock os addr p)"
proof -
  have a: "opener pending p (activeOpen os addr p)"
    unfolding activeOpen_def
    by (intro opener_bind opener_tcp_open opener_if opener_return opener_close_unless opener_all_of assms)
      (auto intro: opener_socket_options [OF assms])
  have b: "opener pending p (passiveOpen os addr p)"
    unfolding passiveOpen_def
    by (intro opener_bind opener_tcp_open opener_if opener_return opener_close_unless opener_all_of assms)
      (auto intro: opener_socket_options [OF assms])
  show "opener pending p (activeOpenNonblock os addr p)" "opener pending p (passiveOpenNonblock os addr p)"
    unfolding activeOpenNonblock_def passiveOpenNonblock_def
    by (intro opener_bind a b opener_if opener_return opener_close_unless opener_socket_options assms)+
qed

lemma acceptNonblock_spec:
  assumes k: "kernel_ok os pending" and p: "io_devices s p = Some dp" and q: "io_devices s q = Some d" "\<not> dv_attached d"
  obtains ok s' where "acceptNonblock os p q s = Some (ok, s')" "opens pending q d s s'"
    "ok \<or> io_errno s' = ECONNABORTED \<Longrightarrow> pending (io_world s') < pending (io_world s)"
proof -
  obtain r e w where 1: "sy_accept os (dv_fd dp) (io_errno s, io_world s) = (r, e, w)" by (metis prod_cases3)
  then have 2: "pending w \<le> pending (io_world s)" "r \<noteq> -1 \<or> e = ECONNABORTED \<Longrightarrow> pending w < pending (io_world s)"
    using k unfolding kernel_ok_def accept_ok_def by blast+
  have sys: "syscall (sy_accept os (dv_fd dp)) s = (r, called e w s)" using 1 by (simp add: syscall_def)
  show thesis
  proof (cases "r = -1")
    case True
    then have "acceptNonblock os p q s = Some (False, called e w s)"
      using sys p by (simp add: acceptNonblock_def tcp_accept_def)
    then show thesis using 2 q by (intro that [of False "called e w s"]) (simp_all add: opensI)
  next
    case False
    let ?s = "called e w s\<lparr>io_devices := (io_devices s)(q \<mapsto> d\<lparr>dv_fd := r\<rparr>)\<rparr>"
    let ?cloexec = "\<lambda>s. do { (ok, s) \<leftarrow> setCloseOnExec os q s; if ok then Some (True, s) else do { s \<leftarrow> tcp_close os q s; Some (False, s) } }"
    let ?rest = "\<lambda>s. do { (ok, s) \<leftarrow> ?cloexec s;
      if ok then do { r \<leftarrow> all_of [setTcpNoDelay os q, setNonblock os q] s; close_unless os q r } else Some (False, s) }"
    have eq: "acceptNonblock os p q s = ?rest ?s"
      using False sys p q by (simp add: acceptNonblock_def tcp_accept_def setDescriptor_def set_device_def Let_def cong: if_cong)
        (intro Option.bind_cong refl, auto)
    have op: "opener pending q ?rest"
      by (intro opener_bind opener_if opener_return opener_close opener_close_unless opener_all_of opener_socket_options(4) [OF k] k)
        (auto intro: opener_socket_options [OF k])
    have d: "io_devices ?s q = Some (d\<lparr>dv_fd := r\<rparr>)" "\<not> dv_attached (d\<lparr>dv_fd := r\<rparr>)" using q by simp_all
    have "\<exists>ok s'. ?rest ?s = Some (ok, s') \<and> opens pending q (d\<lparr>dv_fd := r\<rparr>) ?s s'"
      by (rule op [unfolded opener_def, rule_format, OF conjI [OF d]])
    then obtain ok s' where 3: "acceptNonblock os p q s = Some (ok, s')" "opens pending q (d\<lparr>dv_fd := r\<rparr>) ?s s'"
      unfolding eq by blast
    have "opens pending q d s ?s" using 2 unfolding opens_def by blast
    then have "opens pending q d s s'" by (rule opens_trans) (use 3(2) q d in auto)
    moreover have "pending (io_world s') < pending (io_world s)"
      using 3(2) 2(2) False by (auto simp: opens_def)
    ultimately show thesis using 3(1) by (intro that) auto
  qed
qed

end
