(* ===== verification/TcpInvariant.thy ===== *)
theory TcpInvariant
  imports TcpKernel TimerQueue
begin

text \<open>
  The invariant of \<open>TcpService\<close> and how the elementary changes of the state keep it: a socket
  or connection changes, appears or disappears, a timer starts or ends.
\<close>

section \<open>Buffers\<close>

definition buf_ok :: "dynamic_buffer \<Rightarrow> bool" where
  "buf_ok b \<longleftrightarrow> db_wf b \<and> db_readableBytes b \<le> 2 ^ 61 \<and> db_expand_size b < 2 ^ 61 \<and> length (db_buffer b) < 2 ^ 62"

lemma buf_ok_room: "buf_ok b \<Longrightarrow> n \<le> 2 ^ 62 \<Longrightarrow> db_room b n"
  by (auto simp: buf_ok_def db_room_def)

lemma buf_ok_new: "i < 2 ^ 62 \<Longrightarrow> e < 2 ^ 61 \<Longrightarrow> buf_ok (db_new i e)"
  by (auto simp: buf_ok_def db_wf_new) (auto simp: db_new_def db_readableBytes_def Let_def)

lemma buf_ok_append:
  assumes "buf_ok b" "db_readableBytes b + length bs \<le> 2 ^ 61"
  obtains b' where "db_append b bs = Some b'" "buf_ok b'" "db_data b' = db_data b @ bs"
proof -
  have b: "db_wf b" "db_room b (length bs + 0)" using assms buf_ok_room by (auto simp: buf_ok_def)
  obtain b' where b': "db_append b bs = Some b'" "db_wf b'" "db_data b' = db_data b @ bs" "db_expand_size b' = db_expand_size b"
    using db_append_spec [OF b] by metis
  have "length (db_buffer b') \<le> max (length (db_buffer b)) (db_readableBytes b + length bs + db_expand_size b)"
    using db_append_length(1) [OF b(1) _ b'(1)] b(2) by simp
  then have "buf_ok b'"
    using b' assms length_db_data [OF b'(2)] length_db_data [OF b(1)] by (auto simp: buf_ok_def)
  with b' show thesis using that by blast
qed

lemma buf_ok_read: "buf_ok b \<Longrightarrow> buf_ok (db_read b n)"
proof -
  assume b: "buf_ok b"
  then have wf: "db_wf b" by (simp add: buf_ok_def)
  have "db_readableBytes (db_read b n) \<le> db_readableBytes b"
    using length_db_data [OF db.consume_inv [OF wf, of n]] length_db_data [OF wf] db.consume_data [OF wf, of n] by simp
  moreover have "db_expand_size (db_read b n) = db_expand_size b" "db_buffer (db_read b n) = db_buffer b"
    by (simp_all add: db_read_def db_clear_def Let_def)
  ultimately show ?thesis using b db.consume_inv [OF wf, of n] by (simp add: buf_ok_def)
qed

lemma buf_empty: "buf_ok b \<Longrightarrow> db_readableBytes b = 0 \<longleftrightarrow> db_data b = []"
  using length_db_data [of b] by (auto simp: buf_ok_def)

section \<open>The invariant\<close>

text \<open>
  A connection: its callbacks are those of its state. While a connect is in progress the socket
  waits to be writable; afterwards it is read, and it waits to be writable exactly while
  bytes are buffered. A connected socket has no timer. A completion callback belongs to buffered bytes.
\<close>

definition conn_state :: "int option \<Rightarrow> device_cb device \<Rightarrow> connection \<Rightarrow> bool" where
  "conn_state timer d k \<longleftrightarrow> buf_ok (cn_read k) \<and> buf_ok (cn_write k) \<and> cn_status k \<noteq> NONE \<and>
     (if dv_write d = Some OnAsyncConnectSocketWrite
      then dv_read d = None \<and> db_data (cn_write k) = [] \<and> cn_status k \<noteq> CONNECTED
      else dv_read d = Some OnSocketRead \<and> cn_status k \<noteq> CONNECTING \<and>
        dv_write d = (if db_data (cn_write k) = [] then None else Some OnSocketWrite)) \<and>
     (cn_status k = CONNECTED \<longrightarrow> timer = None) \<and>
     (db_data (cn_write k) = [] \<longrightarrow> cn_complete k = None)"

text \<open>A listening socket: read, unless a timer is set to resume it.\<close>

definition listen_state :: "int option \<Rightarrow> device_cb device \<Rightarrow> bool" where
  "listen_state timer d \<longleftrightarrow> dv_write d = None \<and> dv_read d = (if timer = None then Some OnListenSocketRead else None)"

definition device_ok :: "int \<Rightarrow> device_cb device \<Rightarrow> bool" where
  "device_ok i d \<longleftrightarrow> dv_id d = i \<and> dv_attached d \<and> dv_error d = Some OnSocketError"

definition socket_ok :: "'w tcp \<Rightarrow> int \<Rightarrow> nat \<Rightarrow> bool" where
  "socket_ok s i p \<longleftrightarrow> (\<exists>d. io_devices s p = Some d \<and> device_ok i d \<and>
     (case tc_connections s i of
        None \<Rightarrow> listen_state (tc_socket_timer s i) d
      | Some c \<Rightarrow> \<exists>k. tc_conns s c = Some k \<and> cn_socket k = p \<and> conn_state (tc_socket_timer s i) d k))"

text \<open>
  The tables: every socket and connection in the tables is alive and in its state, and every
  object that is alive is in a table, so none is leaked.
\<close>

definition tables_ok :: "'w tcp \<Rightarrow> bool" where
  "tables_ok s \<longleftrightarrow> (\<forall>i p. tc_sockets s i = Some p \<longrightarrow> socket_ok s i p) \<and>
     dom (tc_connections s) \<subseteq> dom (tc_sockets s) \<and> finite (dom (tc_sockets s)) \<and>
     dom (io_devices s) = ran (tc_sockets s) \<and> dom (tc_conns s) = ran (tc_connections s)"

definition contexts_ok :: "'w tcp \<Rightarrow> bool" where
  "contexts_ok s \<longleftrightarrow> dom (tc_contexts s) \<subseteq> dom (tc_sockets s) \<and>
     (\<forall>i x. tc_contexts s i = Some x \<and> x \<noteq> 0 \<longrightarrow> x \<in> tc_live_contexts s \<and>
        (\<forall>j. tc_contexts s j = Some x \<longrightarrow> j = i))"

definition timers_ok :: "'w tcp \<Rightarrow> bool" where
  "timers_ok s \<longleftrightarrow> th_inv (io_timers s) \<and>
     (\<forall>t i. tc_timer_socket s t = Some i \<longrightarrow> tc_socket_timer s i = Some t) \<and>
     (\<forall>i t. tc_socket_timer s i = Some t \<longrightarrow> i \<in> dom (tc_sockets s) \<and> (t \<noteq> -1 \<longrightarrow> tc_timer_socket s t = Some i))"

text \<open>
  The timers of sockets are pending one-shot timers whose callback fits the socket, except those in
  \<open>X\<close>, that is, the one whose callback is about to run. (-1 is the id of a timer that could not be started.)
\<close>

fun timer_cb_ok :: "nat option \<Rightarrow> timer_cb \<Rightarrow> bool" where
  "timer_cb_ok None cb \<longleftrightarrow> cb = OnListenSocketResumeRead"
| "timer_cb_ok (Some c) cb \<longleftrightarrow> cb = OnAsyncConnectTimeout \<or> cb = OnSendMessageError"

definition timers_live :: "int set \<Rightarrow> 'w tcp \<Rightarrow> bool" where
  "timers_live X s \<longleftrightarrow> (\<forall>t i. tc_timer_socket s t = Some i \<and> t \<notin> X \<and> t \<noteq> -1 \<longrightarrow>
     (\<exists>tm. timers_of (io_timers s) t = Some tm \<and> t_call_times tm = 1 \<and> timer_cb_ok (tc_connections s i) (t_cb tm)))"

definition limits_ok :: "'w tcp \<Rightarrow> bool" where
  "limits_ok s \<longleftrightarrow> 0 < tc_read_max s \<and> tc_read_max s \<le> 2 ^ 61 \<and> 0 < tc_write_max s \<and> tc_write_max s \<le> 2 ^ 61 \<and>
     tc_read_init s < 2 ^ 62 \<and> tc_read_expand s < 2 ^ 61 \<and> tc_write_init s < 2 ^ 62 \<and> tc_write_expand s < 2 ^ 61"

definition value_ok :: "'w tcp \<Rightarrow> bool" where
  "value_ok s \<longleftrightarrow> 0 \<le> tc_value s \<and> tc_value s \<le> INT32_MAX"

definition tcp_invx :: "int set \<Rightarrow> 'w tcp \<Rightarrow> bool" where
  "tcp_invx X s \<longleftrightarrow> tables_ok s \<and> contexts_ok s \<and> timers_ok s \<and> timers_live X s \<and> limits_ok s \<and> value_ok s"

definition tcp_inv :: "'w tcp \<Rightarrow> bool" where
  "tcp_inv s \<longleftrightarrow> tcp_invx {} s"

section \<open>Reading the invariant\<close>

lemma socket_device:
  assumes "tcp_invx X s" "tc_sockets s i = Some p"
  obtains d where "io_devices s p = Some d" "device_ok i d"
proof -
  have "socket_ok s i p" using assms by (simp add: tcp_invx_def tables_ok_def)
  then show thesis using that by (auto simp: socket_ok_def)
qed

lemma device_socket:
  assumes "tcp_invx X s" "io_devices s p = Some d"
  shows "tc_sockets s (dv_id d) = Some p \<and> device_ok (dv_id d) d"
proof -
  have "p \<in> dom (io_devices s)" using assms(2) by blast
  then have "p \<in> ran (tc_sockets s)" using assms(1) by (simp add: tcp_invx_def tables_ok_def)
  then obtain i where i: "tc_sockets s i = Some p" by (auto simp: ran_def)
  obtain d' where "io_devices s p = Some d'" "device_ok i d'" by (rule socket_device [OF assms(1) i])
  with assms(2) i show ?thesis by (auto simp: device_ok_def)
qed

lemma listening:
  assumes "tcp_invx X s" "tc_sockets s i = Some p" "tc_connections s i = None"
  obtains d where "io_devices s p = Some d" "device_ok i d" "listen_state (tc_socket_timer s i) d"
proof -
  have "socket_ok s i p" using assms by (simp add: tcp_invx_def tables_ok_def)
  then show thesis using assms(3) that by (auto simp: socket_ok_def)
qed

lemma connection_parts:
  assumes "tcp_invx X s" "tc_connections s i = Some c"
  obtains p d k where "tc_sockets s i = Some p" "io_devices s p = Some d" "device_ok i d"
    "tc_conns s c = Some k" "cn_socket k = p" "conn_state (tc_socket_timer s i) d k"
proof -
  have "i \<in> dom (tc_connections s)" "dom (tc_connections s) \<subseteq> dom (tc_sockets s)"
    using assms by (auto simp: tcp_invx_def tables_ok_def)
  then obtain p where p: "tc_sockets s i = Some p" by blast
  then have "socket_ok s i p" using assms(1) by (simp add: tcp_invx_def tables_ok_def)
  then obtain d k where "io_devices s p = Some d" "device_ok i d"
    "tc_conns s c = Some k" "cn_socket k = p" "conn_state (tc_socket_timer s i) d k"
    using assms(2) by (auto simp: socket_ok_def)
  with p show thesis by (rule that)
qed

lemma socket_inj:
  assumes "tcp_invx X s" "tc_sockets s i = Some p" "tc_sockets s j = Some p"
  shows "i = j"
proof -
  obtain d d' where "io_devices s p = Some d" "device_ok i d" "io_devices s p = Some d'" "device_ok j d'"
    using socket_device [OF assms(1,2)] socket_device [OF assms(1,3)] by metis
  then show ?thesis by (simp add: device_ok_def)
qed

lemma connection_inj:
  assumes "tcp_invx X s" "tc_connections s i = Some c" "tc_connections s j = Some c"
  shows "i = j"
proof -
  obtain p k where "tc_sockets s i = Some p" "tc_conns s c = Some k" "cn_socket k = p"
    using connection_parts [OF assms(1,2)] by metis
  moreover obtain p' k' where "tc_sockets s j = Some p'" "tc_conns s c = Some k'" "cn_socket k' = p'"
    using connection_parts [OF assms(1,3)] by metis
  ultimately show ?thesis using socket_inj [OF assms(1)] by simp
qed

lemma finite_objects:
  assumes "tcp_invx X s"
  shows "finite (dom (io_devices s))" "finite (dom (tc_conns s))"
proof -
  have "finite (dom (tc_sockets s))" "dom (tc_connections s) \<subseteq> dom (tc_sockets s)"
    "dom (io_devices s) = ran (tc_sockets s)" "dom (tc_conns s) = ran (tc_connections s)"
    using assms by (auto simp: tcp_invx_def tables_ok_def)
  then show "finite (dom (io_devices s))" "finite (dom (tc_conns s))"
    by (simp_all add: finite_ran finite_subset)
qed

lemma socket_ok_frame:
  assumes "socket_ok s i p" "io_devices s' p = io_devices s p" "tc_connections s' i = tc_connections s i"
    "\<And>c. tc_connections s i = Some c \<Longrightarrow> tc_conns s' c = tc_conns s c" "tc_socket_timer s' i = tc_socket_timer s i"
  shows "socket_ok s' i p"
  using assms by (cases "tc_connections s i") (auto simp: socket_ok_def)

section \<open>Elementary changes\<close>

text \<open>Contexts, timers and limits depend on these members only.\<close>

definition misc :: "'w tcp \<Rightarrow> _" where
  "misc s = (tc_contexts s, tc_live_contexts s, tc_socket_timer s, tc_timer_socket s, io_timers s,
     (tc_read_init s, tc_read_expand s, tc_read_max s, tc_write_init s, tc_write_expand s, tc_write_max s))"

definition tables :: "'w tcp \<Rightarrow> _" where
  "tables s = (io_devices s, tc_conns s, tc_sockets s, tc_connections s)"

lemma misc_ok:
  assumes "misc s' = misc s" "tc_sockets s' = tc_sockets s" "tc_connections s' = tc_connections s"
  shows "contexts_ok s' = contexts_ok s" "timers_ok s' = timers_ok s" "timers_live X s' = timers_live X s" "limits_ok s' = limits_ok s"
proof -
  have eq: "tc_contexts s' = tc_contexts s" "tc_live_contexts s' = tc_live_contexts s" "tc_socket_timer s' = tc_socket_timer s"
    "tc_timer_socket s' = tc_timer_socket s" "io_timers s' = io_timers s" "tc_read_init s' = tc_read_init s"
    "tc_read_expand s' = tc_read_expand s" "tc_read_max s' = tc_read_max s" "tc_write_init s' = tc_write_init s"
    "tc_write_expand s' = tc_write_expand s" "tc_write_max s' = tc_write_max s"
    using assms(1) by (simp_all add: misc_def)
  show "contexts_ok s' = contexts_ok s" unfolding contexts_ok_def eq assms(2) ..
  show "timers_ok s' = timers_ok s" unfolding timers_ok_def eq assms(2) ..
  show "timers_live X s' = timers_live X s" unfolding timers_live_def eq assms(3) ..
  show "limits_ok s' = limits_ok s" unfolding limits_ok_def eq ..
qed

text \<open>The invariant does not mention the other members.\<close>

lemma tcp_invx_same:
  assumes "tcp_invx X s" "tables s' = tables s" "misc s' = misc s" "value_ok s'"
  shows "tcp_invx X s'"
proof -
  have eq: "io_devices s' = io_devices s" "tc_conns s' = tc_conns s" "tc_sockets s' = tc_sockets s"
    "tc_connections s' = tc_connections s" "tc_socket_timer s' = tc_socket_timer s"
    using assms(2,3) by (simp_all add: tables_def misc_def)
  have "tables_ok s' = tables_ok s" unfolding tables_ok_def socket_ok_def eq ..
  then show ?thesis using assms(1) misc_ok [OF assms(3) eq(3,4)] assms(4) by (simp add: tcp_invx_def)
qed

text \<open>A socket and its connection change.\<close>

definition upd_socket :: "nat \<Rightarrow> device_cb device \<Rightarrow> 'w tcp \<Rightarrow> 'w tcp" where
  "upd_socket p d s = s\<lparr>io_devices := (io_devices s)(p \<mapsto> d)\<rparr>"

definition upd_conn :: "nat \<Rightarrow> connection \<Rightarrow> 'w tcp \<Rightarrow> 'w tcp" where
  "upd_conn c k s = s\<lparr>tc_conns := (tc_conns s)(c \<mapsto> k)\<rparr>"

lemma tcp_invx_conn:
  assumes inv: "tcp_invx X s" and c: "tc_connections s i = Some c" and p: "tc_sockets s i = Some p"
    and new: "device_ok i d" "cn_socket k = p" "conn_state (tc_socket_timer s i) d k"
  shows "tcp_invx X (upd_conn c k (upd_socket p d s))"
proof -
  let ?s = "upd_conn c k (upd_socket p d s)"
  have "socket_ok ?s j q" if "tc_sockets s j = Some q" for j q
  proof (cases "j = i")
    case True
    with that c p new show ?thesis by (simp add: socket_ok_def upd_conn_def upd_socket_def)
  next
    case False
    have "socket_ok s j q" using inv that by (simp add: tcp_invx_def tables_ok_def)
    then show ?thesis
    proof (rule socket_ok_frame)
      show "io_devices ?s q = io_devices s q"
        using False that p socket_inj [OF inv, of i q j] by (auto simp: upd_conn_def upd_socket_def)
      show "tc_conns ?s e = tc_conns s e" if "tc_connections s j = Some e" for e
        using False that c connection_inj [OF inv, of i c j] by (auto simp: upd_conn_def upd_socket_def)
    qed (simp_all add: upd_conn_def upd_socket_def)
  qed
  moreover have "dom (io_devices ?s) = dom (io_devices s)" "dom (tc_conns ?s) = dom (tc_conns s)"
    using connection_parts [OF inv c] p by (auto simp: upd_conn_def upd_socket_def)
  moreover have "misc ?s = misc s" "tc_sockets ?s = tc_sockets s" "tc_connections ?s = tc_connections s"
    by (simp_all add: misc_def upd_conn_def upd_socket_def)
  ultimately show ?thesis using inv misc_ok [of ?s s] by (simp add: tcp_invx_def tables_ok_def value_ok_def upd_conn_def upd_socket_def)
qed

lemma tcp_invx_listen:
  assumes inv: "tcp_invx X s" and c: "tc_connections s i = None" and p: "tc_sockets s i = Some p"
    and new: "device_ok i d" "listen_state (tc_socket_timer s i) d"
  shows "tcp_invx X (upd_socket p d s)"
proof -
  let ?s = "upd_socket p d s"
  have "socket_ok ?s j q" if "tc_sockets s j = Some q" for j q
  proof (cases "j = i")
    case True
    with that c p new show ?thesis by (simp add: socket_ok_def upd_socket_def)
  next
    case False
    have "socket_ok s j q" using inv that by (simp add: tcp_invx_def tables_ok_def)
    then show ?thesis
    proof (rule socket_ok_frame)
      show "io_devices ?s q = io_devices s q"
        using False that p socket_inj [OF inv, of i q j] by (auto simp: upd_socket_def)
    qed (simp_all add: upd_socket_def)
  qed
  moreover have "dom (io_devices ?s) = dom (io_devices s)" using socket_device [OF inv p] by (auto simp: upd_socket_def)
  moreover have "misc ?s = misc s" "tc_sockets ?s = tc_sockets s" "tc_connections ?s = tc_connections s" "tc_conns ?s = tc_conns s"
    by (simp_all add: misc_def upd_socket_def)
  ultimately show ?thesis using inv misc_ok [of ?s s] by (simp add: tcp_invx_def tables_ok_def value_ok_def upd_socket_def)
qed

text \<open>More generally: one socket, its connection and its timer change.\<close>

lemma tables_at:
  assumes inv: "tcp_invx X s" and p: "tc_sockets s i = Some p"
    and s': "tc_sockets s' = tc_sockets s" "tc_connections s' = tc_connections s" "io_devices s' = (io_devices s)(p \<mapsto> d')"
      "(case tc_connections s i of None \<Rightarrow> tc_conns s' = tc_conns s | Some c \<Rightarrow> \<exists>k'. tc_conns s' = (tc_conns s)(c \<mapsto> k'))"
      "\<And>j. j \<noteq> i \<Longrightarrow> tc_socket_timer s' j = tc_socket_timer s j"
    and new: "socket_ok s' i p"
  shows "tables_ok s'"
proof -
  have ok: "tables_ok s" using inv by (simp add: tcp_invx_def)
  have "socket_ok s' j q" if "tc_sockets s' j = Some q" for j q
  proof (cases "j = i")
    case True
    with that p s'(1) new show ?thesis by simp
  next
    case False
    have q: "tc_sockets s j = Some q" using that s'(1) by simp
    then have "socket_ok s j q" using ok by (simp add: tables_ok_def)
    then show ?thesis
    proof (rule socket_ok_frame)
      show "io_devices s' q = io_devices s q"
        using False q p(1) s'(3) socket_inj [OF inv, of i q j] by auto
      show "tc_conns s' x = tc_conns s x" if "tc_connections s j = Some x" for x
        using False that s'(4) connection_inj [OF inv, of i x j] by (auto split: option.splits)
    qed (use s' False in simp_all)
  qed
  moreover have "dom (io_devices s') = dom (io_devices s)"
    using socket_device [OF inv p] s'(3) by auto
  moreover have "dom (tc_conns s') = dom (tc_conns s)"
  proof (cases "tc_connections s i")
    case None
    then show ?thesis using s'(4) by simp
  next
    case (Some c)
    then obtain k' where "tc_conns s' = (tc_conns s)(c \<mapsto> k')" using s'(4) by auto
    moreover have "c \<in> dom (tc_conns s)" using connection_parts [OF inv Some] by blast
    ultimately show ?thesis by (simp add: insert_absorb)
  qed
  ultimately show ?thesis using ok s'(1,2) by (simp add: tables_ok_def)
qed

section \<open>Timers\<close>

lemma timers_okD:
  assumes "timers_ok s"
  shows "th_inv (io_timers s)" "tc_timer_socket s t = Some i \<Longrightarrow> tc_socket_timer s i = Some t"
    "tc_socket_timer s i = Some t \<Longrightarrow> i \<in> dom (tc_sockets s)"
    "tc_socket_timer s i = Some t \<Longrightarrow> t \<noteq> -1 \<Longrightarrow> tc_timer_socket s t = Some i"
  using assms unfolding timers_ok_def by blast+

lemma timers_okI:
  assumes "th_inv (io_timers s)" "\<And>t i. tc_timer_socket s t = Some i \<Longrightarrow> tc_socket_timer s i = Some t"
    "\<And>t i. tc_socket_timer s i = Some t \<Longrightarrow> i \<in> dom (tc_sockets s) \<and> (t \<noteq> -1 \<longrightarrow> tc_timer_socket s t = Some i)"
  shows "timers_ok s"
  using assms unfolding timers_ok_def by blast

lemma timers_liveD:
  "timers_live X s \<Longrightarrow> tc_timer_socket s t = Some i \<Longrightarrow> t \<notin> X \<Longrightarrow> t \<noteq> -1 \<Longrightarrow>
     \<exists>tm. timers_of (io_timers s) t = Some tm \<and> t_call_times tm = 1 \<and> timer_cb_ok (tc_connections s i) (t_cb tm)"
  unfolding timers_live_def by blast

lemma timers_liveI:
  "(\<And>t i. tc_timer_socket s t = Some i \<Longrightarrow> t \<notin> X \<Longrightarrow> t \<noteq> -1 \<Longrightarrow>
     \<exists>tm. timers_of (io_timers s) t = Some tm \<and> t_call_times tm = 1 \<and> timer_cb_ok (tc_connections s i) (t_cb tm)) \<Longrightarrow> timers_live X s"
  unfolding timers_live_def by blast

lemma timers_add:
  assumes ok: "timers_ok s" "timers_live {} s" and i: "tc_socket_timer s i = None" "i \<in> dom (tc_sockets s')"
    and s': "tc_socket_timer s' = (tc_socket_timer s)(i \<mapsto> t)" "tc_timer_socket s' = (tc_timer_socket s)(t \<mapsto> i)"
      "dom (tc_sockets s) \<subseteq> dom (tc_sockets s')"
    and h: "th_inv (io_timers s')" "t \<noteq> -1 \<Longrightarrow> timers_of (io_timers s) t = None"
      "timers_of (io_timers s') = (if t = -1 then timers_of (io_timers s) else (timers_of (io_timers s))(t \<mapsto> tm))"
      "t_call_times tm = 1" "timer_cb_ok (tc_connections s' i) (t_cb tm)"
    and c: "\<And>j. j \<noteq> i \<Longrightarrow> tc_connections s' j = tc_connections s j"
  shows "timers_ok s' \<and> timers_live {} s'"
proof
  have fresh: "tc_timer_socket s t = None" if "t \<noteq> -1"
  proof (rule ccontr)
    assume "tc_timer_socket s t \<noteq> None"
    then obtain j where "tc_timer_socket s t = Some j" by blast
    from timers_liveD [OF ok(2) this] h(2) that show False by auto
  qed
  show "timers_ok s'"
  proof (rule timers_okI [OF h(1)])
    fix u j
    assume u: "tc_timer_socket s' u = Some j"
    show "tc_socket_timer s' j = Some u"
    proof (cases "u = t")
      case False
      with u s' have "tc_socket_timer s j = Some u" using timers_okD(2) [OF ok(1)] by simp
      with i(1) s'(1) show ?thesis by auto
    qed (use u s' in auto)
  next
    fix u j
    assume u: "tc_socket_timer s' j = Some u"
    show "j \<in> dom (tc_sockets s') \<and> (u \<noteq> -1 \<longrightarrow> tc_timer_socket s' u = Some j)"
    proof (cases "j = i")
      case False
      with u s' have j: "tc_socket_timer s j = Some u" by simp
      have "j \<in> dom (tc_sockets s')" using timers_okD(3) [OF ok(1) j] s'(3) by blast
      moreover have "u \<noteq> -1 \<longrightarrow> tc_timer_socket s' u = Some j" using timers_okD(4) [OF ok(1) j] fresh s'(2) by auto
      ultimately show ?thesis by blast
    qed (use u s' i in auto)
  qed
  show "timers_live {} s'"
  proof (rule timers_liveI)
    fix u j
    assume u: "tc_timer_socket s' u = Some j" "u \<noteq> -1"
    show "\<exists>tm. timers_of (io_timers s') u = Some tm \<and> t_call_times tm = 1 \<and> timer_cb_ok (tc_connections s' j) (t_cb tm)"
    proof (cases "u = t")
      case False
      with u s' have v: "tc_timer_socket s u = Some j" by simp
      have "j \<noteq> i" using timers_okD(2) [OF ok(1) v] i(1) by auto
      then show ?thesis using timers_liveD [OF ok(2) v _ u(2)] False h(3) c by auto
    qed (use u h s' in auto)
  qed
qed

lemma timers_del:
  assumes ok: "timers_ok s" "timers_live X s" and i: "tc_socket_timer s i = Some t"
    and s': "tc_socket_timer s' = (tc_socket_timer s)(i := None)" "tc_timer_socket s' = (tc_timer_socket s)(t := None)"
      "dom (tc_sockets s) - {i} \<subseteq> dom (tc_sockets s')"
    and h: "th_inv (io_timers s')" "timers_of (io_timers s') = (timers_of (io_timers s))(t := x)"
    and X: "X \<subseteq> {t}" and c: "\<And>j. j \<noteq> i \<Longrightarrow> tc_connections s' j = tc_connections s j"
  shows "timers_ok s' \<and> timers_live {} s'"
proof
  show "timers_ok s'"
  proof (rule timers_okI [OF h(1)])
    fix u j
    assume u: "tc_timer_socket s' u = Some j"
    with s' have ut: "u \<noteq> t" "tc_timer_socket s u = Some j" by (auto split: if_splits)
    have "tc_socket_timer s j = Some u" by (rule timers_okD(2) [OF ok(1) ut(2)])
    with i ut(1) s'(1) show "tc_socket_timer s' j = Some u" by auto
  next
    fix u j
    assume u: "tc_socket_timer s' j = Some u"
    with s'(1) have j: "j \<noteq> i" "tc_socket_timer s j = Some u" by (auto split: if_splits)
    have "j \<in> dom (tc_sockets s')" using timers_okD(3) [OF ok(1) j(2)] j(1) s'(3) by blast
    moreover have "tc_timer_socket s' u = Some j" if "u \<noteq> -1"
    proof -
      have "tc_timer_socket s u = Some j" by (rule timers_okD(4) [OF ok(1) j(2) that])
      moreover have "u \<noteq> t"
      proof
        assume "u = t"
        with calculation timers_okD(4) [OF ok(1) i] that j(1) show False by auto
      qed
      ultimately show ?thesis using s'(2) by simp
    qed
    ultimately show "j \<in> dom (tc_sockets s') \<and> (u \<noteq> -1 \<longrightarrow> tc_timer_socket s' u = Some j)" by blast
  qed
  show "timers_live {} s'"
  proof (rule timers_liveI)
    fix u j
    assume u: "tc_timer_socket s' u = Some j" "u \<noteq> -1"
    with s'(2) have ut: "u \<noteq> t" "tc_timer_socket s u = Some j" by (auto split: if_splits)
    with X have "u \<notin> X" by blast
    moreover have "j \<noteq> i" using timers_okD(2) [OF ok(1) ut(2)] i ut(1) by auto
    ultimately show "\<exists>tm. timers_of (io_timers s') u = Some tm \<and> t_call_times tm = 1 \<and> timer_cb_ok (tc_connections s' j) (t_cb tm)"
      using timers_liveD [OF ok(2) ut(2) _ u(2)] h(2) ut(1) c by simp
  qed
qed

lemma timers_keep:
  assumes "timers_ok s" "timers_live X s" "tc_socket_timer s' = tc_socket_timer s" "tc_timer_socket s' = tc_timer_socket s"
    "io_timers s' = io_timers s" "dom (tc_socket_timer s) \<subseteq> dom (tc_sockets s')"
    "\<And>j. j \<in> dom (tc_socket_timer s) \<Longrightarrow> tc_connections s' j = tc_connections s j"
  shows "timers_ok s' \<and> timers_live X s'"
proof
  show "timers_ok s'"
  proof (rule timers_okI)
    show "j \<in> dom (tc_sockets s') \<and> (u \<noteq> -1 \<longrightarrow> tc_timer_socket s' u = Some j)" if u: "tc_socket_timer s' j = Some u" for u j
    proof
      show "j \<in> dom (tc_sockets s')" using u assms(3,6) by (auto dest: subsetD)
      show "u \<noteq> -1 \<longrightarrow> tc_timer_socket s' u = Some j" using timers_okD(4) [OF assms(1)] u assms(3,4) by simp
    qed
  qed (use timers_okD(1,2) [OF assms(1)] assms(3-5) in simp_all)
  show "timers_live X s'"
  proof (rule timers_liveI)
    fix u j
    assume u: "tc_timer_socket s' u = Some j" "u \<notin> X" "u \<noteq> -1"
    with assms(4) have v: "tc_timer_socket s u = Some j" by simp
    have "tc_connections s' j = tc_connections s j" using assms(7) timers_okD(2) [OF assms(1) v] by blast
    with timers_liveD [OF assms(2) v u(2,3)] assms(5)
    show "\<exists>tm. timers_of (io_timers s') u = Some tm \<and> t_call_times tm = 1 \<and> timer_cb_ok (tc_connections s' j) (t_cb tm)" by simp
  qed
qed

section \<open>Sockets come and go\<close>

lemma ran_delete:
  assumes "m i = Some p" "\<And>j. m j = Some p \<Longrightarrow> j = i"
  shows "ran (m(i := None)) = ran m - {p}"
proof
  show "ran (m(i := None)) \<subseteq> ran m - {p}" using assms(2) by (auto simp: ran_def split: if_splits)
  show "ran m - {p} \<subseteq> ran (m(i := None))"
  proof
    fix q
    assume "q \<in> ran m - {p}"
    then obtain j where "m j = Some q" "q \<noteq> p" by (auto simp: ran_def)
    with assms(1) have "(m(i := None)) j = Some q" by auto
    then show "q \<in> ran (m(i := None))" by (rule ranI)
  qed
qed

lemma contexts_fresh:
  assumes "contexts_ok s" "tc_contexts s' = tc_contexts s" "tc_live_contexts s' = tc_live_contexts s"
    "dom (tc_sockets s) \<subseteq> dom (tc_sockets s')"
  shows "contexts_ok s'"
  using assms(1) subset_trans [OF _ assms(4), of "dom (tc_contexts s)"] unfolding contexts_ok_def assms(2,3) by blast

text \<open>A new socket, listening (\<open>x = None\<close>) or with a connection.\<close>

lemma tables_add:
  assumes ok: "tables_ok s" and fresh: "tc_sockets s i = None" "io_devices s p = None"
    and s': "tc_sockets s' = (tc_sockets s)(i \<mapsto> p)" "io_devices s' = (io_devices s)(p \<mapsto> d)"
      "\<And>j. j \<noteq> i \<Longrightarrow> tc_socket_timer s' j = tc_socket_timer s j"
    and x: "(case x of None \<Rightarrow> tc_connections s' = tc_connections s \<and> tc_conns s' = tc_conns s
      | Some (c, k) \<Rightarrow> tc_connections s' = (tc_connections s)(i \<mapsto> c) \<and> tc_conns s' = (tc_conns s)(c \<mapsto> k) \<and> tc_conns s c = None)"
    and new: "socket_ok s' i p"
  shows "tables_ok s'"
proof -
  have ci: "tc_connections s i = None" using ok fresh(1) by (auto simp: tables_ok_def)
  have "socket_ok s' j q" if j: "tc_sockets s' j = Some q" for j q
  proof (cases "j = i")
    case True
    with j s'(1) new show ?thesis by simp
  next
    case False
    with j s'(1) have q: "tc_sockets s j = Some q" by simp
    with ok have o: "socket_ok s j q" by (simp add: tables_ok_def)
    then show ?thesis
    proof (rule socket_ok_frame)
      show "io_devices s' q = io_devices s q" using o fresh(2) s'(2) by (auto simp: socket_ok_def)
      show "tc_connections s' j = tc_connections s j" using x False by (auto split: option.splits)
      show "tc_conns s' e = tc_conns s e" if e: "tc_connections s j = Some e" for e
      proof -
        have "tc_conns s e \<noteq> None" using o e by (auto simp: socket_ok_def)
        with x show ?thesis by (auto split: option.splits)
      qed
      show "tc_socket_timer s' j = tc_socket_timer s j" using s'(3) False by simp
    qed
  qed
  moreover have "dom (tc_connections s') \<subseteq> dom (tc_sockets s')"
  proof -
    have "dom (tc_connections s') \<subseteq> insert i (dom (tc_connections s))" using x by (auto split: option.splits prod.splits)
    moreover have "dom (tc_connections s) \<subseteq> dom (tc_sockets s)" using ok by (simp add: tables_ok_def)
    moreover have "dom (tc_sockets s') = insert i (dom (tc_sockets s))" using s'(1) by simp
    ultimately show ?thesis by blast
  qed
  moreover have "finite (dom (tc_sockets s'))" using ok s'(1) by (simp add: tables_ok_def)
  moreover have "dom (io_devices s') = ran (tc_sockets s')"
    using ok s' fresh by (simp add: tables_ok_def ran_map_upd)
  moreover have "dom (tc_conns s') = ran (tc_connections s')"
  proof (cases x)
    case None
    then show ?thesis using ok x by (simp add: tables_ok_def)
  next
    case (Some ck)
    then obtain c k where "tc_connections s' = (tc_connections s)(i \<mapsto> c)" "tc_conns s' = (tc_conns s)(c \<mapsto> k)"
      using x by (cases ck) auto
    then show ?thesis using ok ran_map_upd [where m = "tc_connections s", OF ci] by (simp add: tables_ok_def)
  qed
  ultimately show ?thesis by (simp add: tables_ok_def)
qed

lemma tables_del:
  assumes inv: "tcp_invx X s" and p: "tc_sockets s i = Some p"
    and s': "tc_sockets s' = (tc_sockets s)(i := None)" "io_devices s' = (io_devices s)(p := None)"
      "tc_connections s' = (tc_connections s)(i := None)"
      "tc_conns s' = (case tc_connections s i of None \<Rightarrow> tc_conns s | Some c \<Rightarrow> (tc_conns s)(c := None))"
      "tc_socket_timer s' = (tc_socket_timer s)(i := None)"
  shows "tables_ok s'"
proof -
  have ok: "tables_ok s" using inv by (simp add: tcp_invx_def)
  have "socket_ok s' j q" if j: "tc_sockets s' j = Some q" for j q
  proof -
    from j s'(1) have q: "j \<noteq> i" "tc_sockets s j = Some q" by (auto split: if_splits)
    then have "socket_ok s j q" using ok by (simp add: tables_ok_def)
    then show ?thesis
    proof (rule socket_ok_frame)
      show "io_devices s' q = io_devices s q" using s'(2) socket_inj [OF inv p, of j] q by auto
      show "tc_conns s' e = tc_conns s e" if e: "tc_connections s j = Some e" for e
        using s'(4) connection_inj [OF inv e, of i] q(1) by (auto split: option.splits)
    qed (use s' q(1) in simp_all)
  qed
  moreover have "dom (tc_connections s') \<subseteq> dom (tc_sockets s')"
  proof -
    have "dom (tc_connections s) \<subseteq> dom (tc_sockets s)" using ok by (simp add: tables_ok_def)
    then show ?thesis unfolding s'(1,3) dom_fun_upd by auto
  qed
  moreover have "finite (dom (tc_sockets s'))" using ok s'(1) by (simp add: tables_ok_def)
  moreover have "dom (io_devices s') = ran (tc_sockets s')"
  proof -
    have "ran (tc_sockets s') = ran (tc_sockets s) - {p}"
      unfolding s'(1) by (rule ran_delete [where m = "tc_sockets s", OF p socket_inj [OF inv _ p]])
    then show ?thesis using ok s'(2) by (simp add: tables_ok_def)
  qed
  moreover have "dom (tc_conns s') = ran (tc_connections s')"
  proof (cases "tc_connections s i")
    case None
    then show ?thesis using ok s'(3,4) by (simp add: tables_ok_def fun_upd_idem)
  next
    case (Some c)
    have "ran (tc_connections s') = ran (tc_connections s) - {c}"
      unfolding s'(3) by (rule ran_delete [where m = "tc_connections s", OF Some connection_inj [OF inv _ Some]])
    then show ?thesis using ok s'(4) Some by (simp add: tables_ok_def)
  qed
  ultimately show ?thesis by (simp add: tables_ok_def)
qed

end
