(* ===== verification/EventLoop.thy ===== *)
theory EventLoop
  imports IoService TimerQueue
begin

text \<open>
  The contract between \<open>IOService\<close> and the owner of the callbacks, as the locale
  \<open>event_handlers\<close>, and what the event loop guarantees under it: a batch of events is dispatched and a
  turn of the timers taken without a call through a null or dangling pointer.
\<close>

section \<open>What callbacks do to devices\<close>

text \<open>
  A device that was alive is marked as removed, or is still alive and has the callbacks it had,
  except the read callbacks of the devices in \<open>R\<close> and the write callbacks of those in \<open>W\<close>.
\<close>

definition keeps :: "nat set \<Rightarrow> nat set \<Rightarrow> ('d, 'c, 'w, 'z) io_scheme \<Rightarrow> ('d, 'c, 'w, 'z) io_scheme \<Rightarrow> bool" where
  "keeps R W s s' \<longleftrightarrow> io_removed s \<subseteq> io_removed s' \<and>
     (\<forall>p d. io_devices s p = Some d \<longrightarrow> p \<in> io_removed s' \<or>
        (\<exists>d'. io_devices s' p = Some d' \<and> (p \<notin> R \<and> dv_read d \<noteq> None \<longrightarrow> dv_read d' \<noteq> None) \<and>
           (p \<notin> W \<and> dv_write d \<noteq> None \<longrightarrow> dv_write d' \<noteq> None)))"

lemma keepsI:
  assumes "io_removed s \<subseteq> io_removed s'"
    and "\<And>p d. io_devices s p = Some d \<Longrightarrow> p \<notin> io_removed s' \<Longrightarrow> \<exists>d'. io_devices s' p = Some d' \<and>
      (p \<notin> R \<and> dv_read d \<noteq> None \<longrightarrow> dv_read d' \<noteq> None) \<and> (p \<notin> W \<and> dv_write d \<noteq> None \<longrightarrow> dv_write d' \<noteq> None)"
  shows "keeps R W s s'"
  using assms unfolding keeps_def by blast

lemma keepsD:
  assumes "keeps R W s s'" "io_devices s p = Some d" "p \<notin> io_removed s'"
  obtains d' where "io_devices s' p = Some d'" "p \<notin> R \<and> dv_read d \<noteq> None \<longrightarrow> dv_read d' \<noteq> None"
    "p \<notin> W \<and> dv_write d \<noteq> None \<longrightarrow> dv_write d' \<noteq> None"
  using assms unfolding keeps_def by blast

lemma keeps_removed: "keeps R W s s' \<Longrightarrow> p \<in> io_removed s \<Longrightarrow> p \<in> io_removed s'"
  unfolding keeps_def by blast

lemma keeps_same: "io_devices s' = io_devices s \<Longrightarrow> io_removed s \<subseteq> io_removed s' \<Longrightarrow> keeps R W s s'"
  by (rule keepsI) auto

lemma keeps_refl [simp]: "keeps R W s s"
  by (rule keeps_same) simp_all

lemma keeps_trans:
  assumes "keeps R W s s'" "keeps R W s' s''"
  shows "keeps R W s s''"
proof (rule keepsI)
  show "io_removed s \<subseteq> io_removed s''" using assms unfolding keeps_def by blast
  fix p d
  assume p: "io_devices s p = Some d" "p \<notin> io_removed s''"
  then have "p \<notin> io_removed s'" using keeps_removed [OF assms(2)] by blast
  then obtain d' where d': "io_devices s' p = Some d'" "p \<notin> R \<and> dv_read d \<noteq> None \<longrightarrow> dv_read d' \<noteq> None"
    "p \<notin> W \<and> dv_write d \<noteq> None \<longrightarrow> dv_write d' \<noteq> None"
    by (rule keepsD [OF assms(1) p(1)])
  obtain d'' where "io_devices s'' p = Some d''" "p \<notin> R \<and> dv_read d' \<noteq> None \<longrightarrow> dv_read d'' \<noteq> None"
    "p \<notin> W \<and> dv_write d' \<noteq> None \<longrightarrow> dv_write d'' \<noteq> None"
    by (rule keepsD [OF assms(2) d'(1) p(2)])
  with d' show "\<exists>d''. io_devices s'' p = Some d'' \<and> (p \<notin> R \<and> dv_read d \<noteq> None \<longrightarrow> dv_read d'' \<noteq> None) \<and>
      (p \<notin> W \<and> dv_write d \<noteq> None \<longrightarrow> dv_write d'' \<noteq> None)" by blast
qed

lemma keeps_mono: "keeps R W s s' \<Longrightarrow> R \<subseteq> R' \<Longrightarrow> W \<subseteq> W' \<Longrightarrow> keeps R' W' s s'"
  unfolding keeps_def by blast

lemma keeps_update:
  assumes "io_devices s p = Some d" "io_devices s' = (io_devices s)(p \<mapsto> d')" "io_removed s' = io_removed s"
    and "p \<notin> R \<Longrightarrow> dv_read d \<noteq> None \<Longrightarrow> dv_read d' \<noteq> None" "p \<notin> W \<Longrightarrow> dv_write d \<noteq> None \<Longrightarrow> dv_write d' \<noteq> None"
  shows "keeps R W s s'"
  by (rule keepsI) (use assms in auto)

section \<open>Events of a batch\<close>

text \<open>
  What \<open>epoll_wait\<close> reports: every device at most once, and only events the device was registered
  for, which are those it has a callback for.
\<close>

definition event_ok :: "('d, 'c, 'w, 'z) io_scheme \<Rightarrow> epoll_event \<Rightarrow> bool" where
  "event_ok s e \<longleftrightarrow> ev_ptr e \<in> io_removed s \<or>
     (\<exists>d. io_devices s (ev_ptr e) = Some d \<and> (ev_in e \<longrightarrow> dv_read d \<noteq> None) \<and> (ev_out e \<longrightarrow> dv_write d \<noteq> None))"

definition events_ok :: "('d, 'c, 'w, 'z) io_scheme \<Rightarrow> epoll_event list \<Rightarrow> bool" where
  "events_ok s es \<longleftrightarrow> distinct (map ev_ptr es) \<and> (\<forall>e \<in> set es. event_ok s e)"

lemma event_ok_keeps:
  assumes "event_ok s e" "keeps R W s s'" "ev_in e \<Longrightarrow> ev_ptr e \<notin> R" "ev_out e \<Longrightarrow> ev_ptr e \<notin> W"
  shows "event_ok s' e"
proof (cases "ev_ptr e \<in> io_removed s'")
  case True
  then show ?thesis by (simp add: event_ok_def)
next
  case False
  then have "ev_ptr e \<notin> io_removed s" using keeps_removed [OF assms(2)] by blast
  with assms(1) obtain d where d: "io_devices s (ev_ptr e) = Some d" "ev_in e \<longrightarrow> dv_read d \<noteq> None" "ev_out e \<longrightarrow> dv_write d \<noteq> None"
    by (auto simp: event_ok_def)
  obtain d' where "io_devices s' (ev_ptr e) = Some d'" "ev_ptr e \<notin> R \<and> dv_read d \<noteq> None \<longrightarrow> dv_read d' \<noteq> None"
    "ev_ptr e \<notin> W \<and> dv_write d \<noteq> None \<longrightarrow> dv_write d' \<noteq> None"
    by (rule keepsD [OF assms(2) d(1) False])
  with d assms(3,4) show ?thesis unfolding event_ok_def by blast
qed

section \<open>Timers of a turn\<close>

definition fires :: "('c, int, ('d, 'c, 'w, 'z) io_scheme) runner \<Rightarrow> timestamp \<Rightarrow> ('d, 'c, 'w, 'z) io_scheme \<Rightarrow>
    ('d, 'c, 'w, 'z) io_scheme \<Rightarrow> bool" where
  "fires fire now s s' \<longleftrightarrow> checkTimeout_step (timer_call fire) now (io_timers s, Some s) = Some (Inr (io_timers s', Some s'))"

text \<open>The only way not to return: timers that keep firing, without end.\<close>

definition fires_forever :: "('c, int, ('d, 'c, 'w, 'z) io_scheme) runner \<Rightarrow> timestamp \<Rightarrow> ('d, 'c, 'w, 'z) io_scheme \<Rightarrow> bool" where
  "fires_forever fire now s \<longleftrightarrow> (\<exists>f. f 0 = s \<and> (\<forall>n. fires fire now (f n) (f (Suc n))))"

lemma next_timeout_some: "th_inv h \<Longrightarrow> \<exists>v. getNextTimeoutMillisecond h now = Some v"
  using top_ok [of h] by (cases "minHeapTop h = 0") (auto simp: getNextTimeoutMillisecond_def timers_of_Some)

section \<open>The contract\<close>

text \<open>
  \<open>inv\<close> is the invariant of the owner of the callbacks. A callback keeps it, and resets no callback
  of another device: a write callback at most its own, a read callback at most the read
  callback of its device, an error callback none. The event loop changes only members of its own.
\<close>

locale event_handlers =
  fixes run :: "('d, nat, ('d, 'c, 'w, 'z) io_scheme) runner"
    and fire :: "('c, int, ('d, 'c, 'w, 'z) io_scheme) runner"
    and inv :: "('d, 'c, 'w, 'z) io_scheme \<Rightarrow> bool"
  assumes write_law: "inv s \<Longrightarrow> io_devices s p = Some d \<Longrightarrow> dv_write d = Some cb \<Longrightarrow>
      \<exists>s'. run cb p s = Some s' \<and> inv s' \<and> keeps {} {p} s s'"
    and read_law: "inv s \<Longrightarrow> io_devices s p = Some d \<Longrightarrow> dv_read d = Some cb \<Longrightarrow>
      \<exists>s'. run cb p s = Some s' \<and> inv s' \<and> keeps {p} {} s s'"
    and error_law: "inv s \<Longrightarrow> io_devices s p = Some d \<Longrightarrow> dv_error d = Some cb \<Longrightarrow>
      \<exists>s'. run cb p s = Some s' \<and> inv s' \<and> keeps {} {} s s'"
    and members_law: "inv s \<Longrightarrow> inv (s\<lparr>io_errno := e, io_world := w, io_removed := X, io_events_size := n\<rparr>)"
    and timers_law: "inv s \<Longrightarrow> th_inv (io_timers s)"
    and fire_law: "inv s \<Longrightarrow> timers_of (io_timers s) t = Some tm \<Longrightarrow>
      th_inv h \<Longrightarrow> timers_of h = (timers_of (io_timers s))(t := rearm tm) \<Longrightarrow>
      \<exists>s'. fire (t_cb tm) t (s\<lparr>io_timers := h\<rparr>) = Some s' \<and> inv s'"
begin

lemma dispatch_event_safe:
  assumes "inv s" "event_ok s e"
  shows "\<exists>s'. dispatch_event run e s = Some s' \<and> inv s' \<and> keeps {ev_ptr e} {ev_ptr e} s s'"
proof -
  let ?p = "ev_ptr e"
  consider (gone) "?p \<in> io_removed s"
    | (live) d where "?p \<notin> io_removed s" "io_devices s ?p = Some d" "ev_in e \<longrightarrow> dv_read d \<noteq> None" "ev_out e \<longrightarrow> dv_write d \<noteq> None"
    using assms(2) by (auto simp: event_ok_def)
  then show ?thesis
  proof cases
    case gone
    then have "dispatch_event run e s = Some s"
      by (auto simp: dispatch_event_def checkIODeviceExist_def Let_def)
    with assms(1) show ?thesis by simp
  next
    case live
    have out: "\<exists>s1. (if ev_out e then do { d \<leftarrow> io_devices s ?p; call_back run (dv_write d) ?p s } else Some s) = Some s1 \<and>
        inv s1 \<and> keeps {} {?p} s s1"
    proof (cases "ev_out e")
      case True
      with live(4) obtain cb where cb: "dv_write d = Some cb" by blast
      show ?thesis using write_law [OF assms(1) live(2) cb] live(2) cb True by (simp add: call_back_def)
    qed (use assms(1) in simp)
    then obtain s1 where s1: "(if ev_out e then do { d \<leftarrow> io_devices s ?p; call_back run (dv_write d) ?p s } else Some s) = Some s1"
        "inv s1" "keeps {} {?p} s s1" by blast
    let ?rest = "\<lambda>s. if ev_err e \<and> \<not> checkIODeviceExist ?p s then Some s
       else if ev_err e then do {
         d \<leftarrow> io_devices s ?p;
         if dv_error d \<noteq> None then call_back run (dv_error d) ?p s else Some s }
       else Some s"
    let ?mid = "\<lambda>s. if ev_in e \<and> \<not> checkIODeviceExist ?p s then Some s
       else do {
         s \<leftarrow> (if ev_in e then do { d \<leftarrow> io_devices s ?p; call_back run (dv_read d) ?p s } else Some s);
         ?rest s }"
    have rest: "\<exists>s'. ?rest s2 = Some s' \<and> inv s' \<and> keeps {?p} {?p} s s'" if s2: "inv s2" "keeps {?p} {?p} s s2" for s2
    proof (cases "?p \<in> io_removed s2 \<or> \<not> ev_err e")
      case True
      with s2 show ?thesis by (auto simp: checkIODeviceExist_def)
    next
      case False
      obtain d2 where d2: "io_devices s2 ?p = Some d2" by (rule keepsD [OF s2(2) live(2)]) (use False in auto)
      show ?thesis
      proof (cases "dv_error d2")
        case None
        with False d2 s2 show ?thesis by (simp add: checkIODeviceExist_def)
      next
        case (Some cb)
        obtain s' where s': "run cb ?p s2 = Some s'" "inv s'" "keeps {} {} s2 s'"
          using error_law [OF s2(1) d2 Some] by blast
        have "keeps {?p} {?p} s s'" by (rule keeps_trans [OF s2(2) keeps_mono [OF s'(3)]]) simp_all
        with False d2 Some s' show ?thesis by (simp add: checkIODeviceExist_def call_back_def)
      qed
    qed
    have k1: "keeps {?p} {?p} s s1" by (rule keeps_mono [OF s1(3)]) simp_all
    have "\<exists>s'. ?mid s1 = Some s' \<and> inv s' \<and> keeps {?p} {?p} s s'"
    proof (cases "ev_in e")
      case False
      then show ?thesis using rest [OF s1(2) k1] by simp
    next
      case True
      show ?thesis
      proof (cases "?p \<in> io_removed s1")
        case gone1: True
        with True s1(2) k1 show ?thesis by (simp add: checkIODeviceExist_def)
      next
        case here: False
        obtain d1 where d1: "io_devices s1 ?p = Some d1" "dv_read d \<noteq> None \<longrightarrow> dv_read d1 \<noteq> None"
          by (rule keepsD [OF s1(3) live(2) here]) simp
        then obtain cb where cb: "dv_read d1 = Some cb" using True live(3) by blast
        obtain s2 where s2: "run cb ?p s1 = Some s2" "inv s2" "keeps {?p} {} s1 s2"
          using read_law [OF s1(2) d1(1) cb] by blast
        have "keeps {?p} {?p} s s2" by (rule keeps_trans [OF k1 keeps_mono [OF s2(3)]]) simp_all
        from rest [OF s2(2) this] True here d1 cb s2(1) show ?thesis
          by (simp add: checkIODeviceExist_def call_back_def)
      qed
    qed
    moreover have "dispatch_event run e s = ?mid s1"
      using live(1) s1(1) by (simp add: dispatch_event_def checkIODeviceExist_def Let_def)
    ultimately show ?thesis by simp
  qed
qed

theorem dispatch_safe:
  assumes "inv s" "events_ok s es"
  shows "\<exists>s'. dispatch run es s = Some s' \<and> inv s'"
  using assms
proof (induction es arbitrary: s)
  case Nil
  then show ?case by simp
next
  case (Cons e es)
  obtain s1 where s1: "dispatch_event run e s = Some s1" "inv s1" "keeps {ev_ptr e} {ev_ptr e} s s1"
    using dispatch_event_safe [OF Cons.prems(1), of e] Cons.prems(2) by (auto simp: events_ok_def)
  have "event_ok s1 x" if "x \<in> set es" for x
  proof (rule event_ok_keeps [OF _ s1(3)])
    show "event_ok s x" using Cons.prems(2) that by (simp add: events_ok_def)
    have "ev_ptr x \<noteq> ev_ptr e" using Cons.prems(2) that unfolding events_ok_def by (metis distinct.simps(2) imageI list.set_map list.simps(9))
    then show "ev_ptr x \<notin> {ev_ptr e}" "ev_ptr x \<notin> {ev_ptr e}" by simp_all
  qed
  then have "events_ok s1 es" using Cons.prems(2) by (simp add: events_ok_def)
  from Cons.IH [OF s1(2) this] s1(1) show ?case by simp
qed

text \<open>
  One turn of \<open>checkTimeout\<close> over the callbacks: it ends with nothing due, or runs one callback
  and the invariant holds again.
\<close>

theorem timer_turn_safe:
  assumes "inv s" "ts_normal now"
  shows "checkTimeout_step (timer_call fire) now (io_timers s, Some s) = Some (Inl (io_timers s, Some s)) \<and> none_due now (io_timers s) \<or>
    (\<exists>s'. checkTimeout_step (timer_call fire) now (io_timers s, Some s) = Some (Inr (io_timers s', Some s')) \<and> inv s')"
  using step_cases [OF timers_law [OF assms(1)] assms(2), of "timer_call fire" "Some s"]
proof
  assume "\<exists>t tm h'. checkTimeout_step (timer_call fire) now (io_timers s, Some s) = Some (Inr (timer_call fire (t_cb tm) t (h', Some s))) \<and>
    timers_of (io_timers s) t = Some tm \<and> due now tm \<and>
    (\<forall>q t'. timers_of (io_timers s) q = Some t' \<longrightarrow> t_timestamp tm \<le> t_timestamp t') \<and>
    expire (io_timers s) t = Some h' \<and> th_inv h' \<and> timers_of h' = (timers_of (io_timers s))(t := rearm tm)"
  then obtain t tm h' where t: "checkTimeout_step (timer_call fire) now (io_timers s, Some s) = Some (Inr (timer_call fire (t_cb tm) t (h', Some s)))"
    "timers_of (io_timers s) t = Some tm" "th_inv h'"
    "timers_of h' = (timers_of (io_timers s))(t := rearm tm)" by blast
  obtain s' where "fire (t_cb tm) t (s\<lparr>io_timers := h'\<rparr>) = Some s'" "inv s'"
    using fire_law [OF assms(1) t(2-4)] by blast
  with t(1) show ?thesis by (simp add: timer_call_def)
qed simp

lemma run_timers_safe:
  assumes "inv s" "ts_normal now"
  shows "(\<exists>s'. run_timers fire now s = Some s' \<and> inv s' \<and> none_due now (io_timers s')) \<or> fires_forever fire now s"
proof -
  define bad where "bad x \<longleftrightarrow> inv x \<and> \<not> (\<exists>s'. run_timers fire now x = Some s' \<and> inv s' \<and> none_due now (io_timers s'))" for x
  have "fires_forever fire now s" if "\<not> (\<exists>s'. run_timers fire now s = Some s' \<and> inv s' \<and> none_due now (io_timers s'))"
  proof -
  have start: "bad s" using that assms(1) by (simp add: bad_def)
  have go: "\<exists>y. bad y \<and> fires fire now x y" if "bad x" for x
  proof -
    have x: "inv x" "\<not> (\<exists>s'. run_timers fire now x = Some s' \<and> inv s' \<and> none_due now (io_timers s'))" using that by (simp_all add: bad_def)
    from timer_turn_safe [OF x(1) assms(2)] show ?thesis
    proof (elim disjE exE conjE)
      assume "checkTimeout_step (timer_call fire) now (io_timers x, Some x) = Some (Inl (io_timers x, Some x))" "none_due now (io_timers x)"
      then have "run_timers fire now x = Some x" by (simp add: run_timers_def checkTimeout_unfold)
      with x \<open>none_due now (io_timers x)\<close> show ?thesis by blast
    next
      fix y
      assume y: "checkTimeout_step (timer_call fire) now (io_timers x, Some x) = Some (Inr (io_timers y, Some y))" "inv y"
      then have "run_timers fire now x = run_timers fire now y" by (simp add: run_timers_def checkTimeout_unfold)
      with x(2) y have "bad y" by (simp add: bad_def)
      with y(1) show ?thesis unfolding fires_def by blast
    qed
  qed
  obtain f where "f 0 = s" "\<forall>n. bad (f n)" "\<forall>n. fires fire now (f n) (f (Suc n))"
    using dependent_nat_choice [of "\<lambda>n x. bad x \<and> (n = 0 \<longrightarrow> x = s)" "\<lambda>n x y. fires fire now x y"] start go by auto
  then show ?thesis unfolding fires_forever_def by blast
  qed
  then show ?thesis by blast
qed

text \<open>
  A turn of the loop. \<open>epoll_wait\<close> reports events as \<open>events_ok\<close> says; then the whole batch is dispatched, the
  timers run, and the set of removed devices is empty again; or timers fire without end.
\<close>

theorem loop_turn_safe:
  assumes inv: "inv s" and clock: "\<And>ew t ew'. sy_now os ew = (t, ew') \<Longrightarrow> ts_normal t"
    and events: "\<And>n ms es s2. syscall (sy_epoll_wait os n ms) (snd (syscall (sy_now os) s)) = (Some es, s2) \<Longrightarrow> events_ok s2 es"
  shows "(\<exists>go s'. loop_turn os run fire s = Some (go, s') \<and> inv s') \<or>
    (\<exists>n ms es s2 s3. syscall (sy_epoll_wait os n ms) (snd (syscall (sy_now os) s)) = (Some es, s2) \<and>
       dispatch run es s2 = Some s3 \<and> inv s3 \<and> fires_forever fire (fst (syscall (sy_now os) s3)) (snd (syscall (sy_now os) s3)))"
proof -
  have call: "inv (snd (syscall g x))" if "inv x" for g :: "('r, 'w) call" and x
    using members_law [OF that, where X = "io_removed x" and n = "io_events_size x"] by (auto simp: syscall_def split: prod.splits)
  obtain t s1 where 1: "syscall (sy_now os) s = (t, s1)" by (cases "syscall (sy_now os) s")
  have inv1: "inv s1" using call [OF inv, of "sy_now os"] 1 by simp
  obtain v where v: "getNextTimeoutMillisecond (io_timers s1) t = Some v" using next_timeout_some [OF timers_law [OF inv1]] by blast
  let ?n = "io_events_size s1" and ?ms = "int32 (min v MAX_EPOLL_TIMEOUT_MSEC)"
  obtain es s2 where 2: "syscall (sy_epoll_wait os ?n ?ms) s1 = (es, s2)" by (cases "syscall (sy_epoll_wait os ?n ?ms) s1")
  have inv2: "inv s2" using call [OF inv1, of "sy_epoll_wait os ?n ?ms"] 2 by simp
  show ?thesis
  proof (cases es)
    case None
    then have "loop_turn os run fire s = Some (io_errno s2 = EINTR, s2)" using 1 v 2 by (simp add: loop_turn_def)
    with inv2 show ?thesis by blast
  next
    case (Some evs)
    have "events_ok s2 evs" using events [of ?n ?ms evs s2] 1 2 Some by simp
    then obtain s3 where 3: "dispatch run evs s2 = Some s3" "inv s3" using dispatch_safe [OF inv2] by blast
    obtain t4 s4 where 4: "syscall (sy_now os) s3 = (t4, s4)" by (cases "syscall (sy_now os) s3")
    have inv4: "inv s4" using call [OF 3(2), of "sy_now os"] 4 by simp
    have norm: "ts_normal t4" using clock [of "(io_errno s3, io_world s3)" t4] 4 by (auto simp: syscall_def split: prod.splits)
    from run_timers_safe [OF inv4 norm] show ?thesis
    proof (elim disjE exE conjE)
      fix s5
      assume 5: "run_timers fire t4 s4 = Some s5" "inv s5"
      let ?s = "s5\<lparr>io_removed := {}\<rparr>"
      let ?s' = "if int (length evs) \<ge> int32 (int (io_events_size ?s)) then ?s\<lparr>io_events_size := io_events_size ?s * 2\<rparr> else ?s"
      have "loop_turn os run fire s = Some (True, ?s')" using 1 v 2 Some 3(1) 4 5(1) by (simp add: loop_turn_def Let_def)
      moreover have "inv ?s'"
        using members_law [OF 5(2), where w = "io_world s5" and e = "io_errno s5" and X = "{}" and n = "io_events_size s5"]
          members_law [OF 5(2), where w = "io_world s5" and e = "io_errno s5" and X = "{}" and n = "io_events_size s5 * 2"] by simp
      ultimately show ?thesis by blast
    next
      assume "fires_forever fire t4 s4"
      then show ?thesis using 1 2 Some 3 4 by (intro disjI2 exI [of _ ?n] exI [of _ ?ms] exI [of _ evs] exI [of _ s2] exI [of _ s3]) simp
    qed
  qed
qed

end

end
