(* ===== verification/TcpRegister.thy ===== *)
theory TcpRegister
  imports TcpInvariant EventLoop
begin

text \<open>
  The operations of \<open>TcpService\<close> keep its invariant, touch no dead object and reset no callback of a
  live device, on every outcome of the system calls.
\<close>

section \<open>Outcomes\<close>

definition fine :: "('w \<Rightarrow> nat) \<Rightarrow> nat set \<Rightarrow> nat set \<Rightarrow> 'w tcp \<Rightarrow> 'w tcp \<Rightarrow> bool" where
  "fine pending R W s s' \<longleftrightarrow> tcp_inv s' \<and> keeps R W s s' \<and> pending (io_world s') \<le> pending (io_world s)"

lemma fine_refl [simp]: "tcp_inv s \<Longrightarrow> fine pending R W s s"
  by (simp add: fine_def)

lemma fine_trans: "fine pending R W s s' \<Longrightarrow> fine pending R W s' s'' \<Longrightarrow> fine pending R W s s''"
  unfolding fine_def by (auto intro: keeps_trans)

lemma fine_mono: "fine pending R W s s' \<Longrightarrow> R \<subseteq> R' \<Longrightarrow> W \<subseteq> W' \<Longrightarrow> fine pending R' W' s s'"
  unfolding fine_def by (auto intro: keeps_mono)

lemma fine_same:
  assumes "tcp_inv s" "tables s' = tables s" "misc s' = misc s" "value_ok s'"
    "io_removed s \<subseteq> io_removed s'" "pending (io_world s') \<le> pending (io_world s)"
  shows "fine pending R W s s'"
proof -
  have "tcp_inv s'" using tcp_invx_same [OF _ assms(2-4)] assms(1) by (simp add: tcp_inv_def)
  moreover have "keeps R W s s'" by (rule keeps_same) (use assms in \<open>simp_all add: tables_def\<close>)
  ultimately show ?thesis using assms(6) by (simp add: fine_def)
qed

section \<open>Socket ids\<close>

lemma next_value_range: "value_ok s \<Longrightarrow> 1 \<le> next_value (tc_value s) \<and> next_value (tc_value s) \<le> INT32_MAX"
  by (auto simp: value_ok_def next_value_def INT32_MAX_def)

lemma int32_range: "- (2 ^ 31) \<le> int32 x \<and> int32 x < 2 ^ 31"
  using sint_range_size [of "word_of_int x :: 32 word"] by (simp add: int32_def word_size)

lemma sint64: "- (2 ^ 63) \<le> n \<Longrightarrow> n < 2 ^ 63 \<Longrightarrow> sint (word_of_int n :: 64 word) = n"
  by (simp add: signed_of_int signed_take_bit_int_eq_self)

lemma socket_id_value:
  assumes "1 \<le> v" "v \<le> INT32_MAX"
  shows "socket_id_of v fd = v * 2 ^ 32 + int32 fd"
proof -
  let ?n = "v * 2 ^ 32 + int32 fd"
  have eq: "(push_bit 32 (word_of_int v :: 64 word) + word_of_int (int32 fd)) = word_of_int ?n"
    by (simp add: push_bit_eq_mult)
  have "- (2 ^ 63) \<le> ?n" "?n < 2 ^ 63" using assms int32_range [of fd] by (simp_all add: INT32_MAX_def)
  then show ?thesis unfolding socket_id_of_def eq by (rule sint64)
qed

lemma socket_id_pos: "1 \<le> v \<Longrightarrow> v \<le> INT32_MAX \<Longrightarrow> 0 < socket_id_of v fd"
  using socket_id_value [of v fd] int32_range [of fd] by simp

section \<open>A socket before it is registered\<close>

definition draft :: "('w \<Rightarrow> nat) \<Rightarrow> nat \<Rightarrow> device_cb device \<Rightarrow> 'w tcp \<Rightarrow> 'w tcp \<Rightarrow> bool" where
  "draft pending p d s s1 \<longleftrightarrow> (\<exists>e w fd. s1 = called e w s\<lparr>io_devices := (io_devices s)(p \<mapsto> d)\<rparr> \<and>
     d = device_new\<lparr>dv_fd := fd\<rparr> \<and> pending w \<le> pending (io_world s))"

lemma new_device_draft:
  assumes "kernel_ok os pending" "tcp_inv s"
  obtains p s1 where "new_device os s = (p, s1)" "draft pending p device_new s s1" "io_devices s p = None"
proof -
  obtain p w where p: "sy_malloc os (dom (io_devices s)) (io_world s) = (p, w)" by (metis surj_pair)
  have "finite (dom (io_devices s))" using finite_objects(1) assms(2) by (simp add: tcp_inv_def)
  then have "p \<notin> dom (io_devices s)" "pending w \<le> pending (io_world s)"
    using assms(1) p unfolding kernel_ok_def memory_ok_def by blast+
  moreover have "device_new = device_new\<lparr>dv_fd := -1\<rparr>" by (simp add: device_new_def)
  ultimately show thesis
  proof (intro that)
    let ?s = "called (io_errno s) w s\<lparr>io_devices := (io_devices s)(p \<mapsto> device_new)\<rparr>"
    show "new_device os s = (p, ?s)" using p by (simp add: new_device_def)
    show "draft pending p device_new s ?s"
      using \<open>pending w \<le> _\<close> \<open>device_new = _\<close> unfolding draft_def by blast
    show "io_devices s p = None" using \<open>p \<notin> _\<close> by blast
  qed
qed

lemma draft_device: "draft pending p d s s1 \<Longrightarrow> io_devices s1 p = Some d \<and> \<not> dv_attached d"
  by (auto simp: draft_def device_new_def)

lemma draft_opens: "draft pending p d s s1 \<Longrightarrow> opens pending p d s1 s2 \<Longrightarrow> \<exists>d2. draft pending p d2 s s2"
  unfolding draft_def opens_def by force

lemma draft_opener:
  assumes "opener pending p f" "draft pending p d s s1"
  obtains ok s2 d2 where "f s1 = Some (ok, s2)" "draft pending p d2 s s2"
proof -
  obtain ok s2 where "f s1 = Some (ok, s2)" "opens pending p d s1 s2"
    using opensE [OF assms(1)] draft_device [OF assms(2)] by metis
  with draft_opens [OF assms(2)] that show thesis by blast
qed

lemma delete_draft:
  assumes k: "kernel_ok os pending" and inv: "tcp_inv s" and p: "io_devices s p = None"
    and s1: "s1 = called e w s\<lparr>tc_value := v, io_devices := (io_devices s)(p \<mapsto> d)\<rparr>"
      "pending w \<le> pending (io_world s)" "0 \<le> v" "v \<le> INT32_MAX"
  obtains s2 where "delete_socket os p s1 = Some s2" "fine pending R W s s2" "io_errno s2 = io_errno s2"
    "pending (io_world s2) \<le> pending w" "tc_sockets s2 = tc_sockets s" "tc_connections s2 = tc_connections s"
    "io_devices s2 = io_devices s"
proof -
  have "io_devices s1 p = Some d" using s1 by simp
  then obtain e' w' where del: "delete_socket os p s1 = Some (called e' w' s1\<lparr>io_devices := (io_devices s1)(p := None),
      io_removed := (if dv_attached d then insert p (io_removed s1) else io_removed s1)\<rparr>)"
    "pending w' \<le> pending (io_world s1)" by (rule delete_socket_spec [OF k])
  let ?s2 = "called e' w' s1\<lparr>io_devices := (io_devices s1)(p := None),
      io_removed := (if dv_attached d then insert p (io_removed s1) else io_removed s1)\<rparr>"
  have dev: "io_devices ?s2 = io_devices s" using p s1 by (simp add: fun_upd_idem)
  have "fine pending R W s ?s2"
    by (rule fine_same [OF inv]) (use dev s1 del(2) in \<open>auto simp: tables_def misc_def value_ok_def\<close>)
  then show thesis by (rule that [OF del(1)]) (use dev s1 del(2) in simp_all)
qed

lemma unless_released_fail:
  assumes k: "kernel_ok os pending" and inv: "tcp_inv s" and p: "io_devices s p = None" and s1: "draft pending p d s s1"
  obtains s2 where "unless_released os p (-1, s1) = Some (-1, s2)" "fine pending R W s s2"
proof -
  obtain e w where e: "s1 = called e w s\<lparr>io_devices := (io_devices s)(p \<mapsto> d)\<rparr>" "pending w \<le> pending (io_world s)"
    using s1 by (auto simp: draft_def)
  then have "s1 = called e w s\<lparr>tc_value := tc_value s, io_devices := (io_devices s)(p \<mapsto> d)\<rparr>" by simp
  moreover have "0 \<le> tc_value s" "tc_value s \<le> INT32_MAX" using inv by (simp_all add: tcp_inv_def tcp_invx_def value_ok_def)
  ultimately obtain s2 where "delete_socket os p s1 = Some s2" "fine pending R W s s2"
    using delete_draft [OF k inv p _ e(2), of s1] by metis
  then show thesis by (intro that) (simp_all add: unless_released_def)
qed

section \<open>Registering a socket\<close>

lemma set_callback_unattached:
  assumes "io_devices s p = Some d" "\<not> dv_attached d"
  shows "setReadCallback os p cb s = Some (s\<lparr>io_devices := (io_devices s)(p \<mapsto> d\<lparr>dv_read := cb\<rparr>)\<rparr>)"
    "setWriteCallback os p cb s = Some (s\<lparr>io_devices := (io_devices s)(p \<mapsto> d\<lparr>dv_write := cb\<rparr>)\<rparr>)"
  using assms by (simp_all add: setReadCallback_def setWriteCallback_def set_device_def update_if_attached_def)

definition registered :: "int \<Rightarrow> int \<Rightarrow> device_cb option \<Rightarrow> device_cb option \<Rightarrow> bool \<Rightarrow> device_cb device" where
  "registered i fd rd wr ok = \<lparr>dv_attached = ok, dv_id = i, dv_fd = fd, dv_read = rd, dv_write = wr, dv_error = Some OnSocketError\<rparr>"

lemma registered_sel [simp]:
  "dv_attached (registered i fd rd wr ok) = ok" "dv_id (registered i fd rd wr ok) = i" "dv_fd (registered i fd rd wr ok) = fd"
  "dv_read (registered i fd rd wr ok) = rd" "dv_write (registered i fd rd wr ok) = wr"
  "dv_error (registered i fd rd wr ok) = Some OnSocketError" "(registered i fd rd wr ok)\<lparr>dv_attached := ok'\<rparr> = registered i fd rd wr ok'"
  by (simp_all add: registered_def)

text \<open>The common beginning of the three functions: identifier, callbacks, registration.\<close>

definition register :: "'w sys \<Rightarrow> nat \<Rightarrow> device_cb option \<Rightarrow> device_cb option \<Rightarrow> 'w tcp \<Rightarrow> (int \<times> bool \<times> 'w tcp) option" where
  "register os p rd wr s = do {
     d \<leftarrow> io_devices s p;
     let (i, s) = alloc_id (dv_fd d) s;
     s \<leftarrow> setId p i s;
     s \<leftarrow> (if rd \<noteq> None then setReadCallback os p rd s else setWriteCallback os p wr s);
     s \<leftarrow> setErrorCallback p (Some OnSocketError) s;
     (ok, s) \<leftarrow> attachIOService os p s;
     Some (i, ok, s) }"

lemma register_spec:
  assumes k: "kernel_ok os pending" and inv: "tcp_inv s" and s1: "draft pending p d s s1" and rw: "rd = None \<longleftrightarrow> wr \<noteq> None"
  obtains i fd ok e w where
    "register os p rd wr s1 = Some (i, ok, called e w s\<lparr>tc_value := next_value (tc_value s),
       io_devices := (io_devices s)(p \<mapsto> registered i fd rd wr ok)\<rparr>)"
    "i = socket_id_of (next_value (tc_value s)) fd" "pending w \<le> pending (io_world s)"
proof -
  obtain e w fd where s1': "s1 = called e w s\<lparr>io_devices := (io_devices s)(p \<mapsto> d)\<rparr>" "d = device_new\<lparr>dv_fd := fd\<rparr>"
      "pending w \<le> pending (io_world s)" using s1 by (auto simp: draft_def)
  let ?v = "next_value (tc_value s)"
  let ?i = "socket_id_of ?v fd"
  let ?s2 = "called e w s\<lparr>tc_value := ?v, io_devices := (io_devices s)(p \<mapsto> registered ?i fd rd wr False)\<rparr>"
  have "io_devices ?s2 p = Some (registered ?i fd rd wr False)" "\<not> dv_attached (registered ?i fd rd wr False)" by simp_all
  then obtain ok e' w' where a: "attachIOService os p ?s2 = Some (ok, called e' w' ?s2\<lparr>io_devices := (io_devices ?s2)(p \<mapsto> (registered ?i fd rd wr False)\<lparr>dv_attached := ok\<rparr>)\<rparr>)"
      "pending w' \<le> pending (io_world ?s2)" by (rule attachIOService_spec [OF k])
  have "register os p rd wr s1 = do { (ok, s) \<leftarrow> attachIOService os p ?s2; Some (?i, ok, s) }"
    using rw s1'(1,2)
    by (cases rd; cases wr) (simp_all add: register_def alloc_id_def Let_def setId_def set_device_def setErrorCallback_def
        set_callback_unattached device_new_def registered_def)
  with a s1'(3) show thesis by (intro that [where i = ?i and fd = fd and e = e' and w = w' and ok = ok]) simp_all
qed

lemma build_register:
  "buildListenSocket os p s = do {
     (i, ok, s) \<leftarrow> register os p (Some OnListenSocketRead) None s;
     if \<not> ok then Some (-1, s)
     else if tc_sockets s i \<noteq> None then Some (-1, s)
     else Some (i, s\<lparr>tc_sockets := (tc_sockets s)(i \<mapsto> p)\<rparr>) }"
  "buildConnectedSocket os p s = do {
     (i, ok, s) \<leftarrow> register os p (Some OnSocketRead) None s;
     if \<not> ok then Some (-1, s)
     else do {
       let (c, s) = new_connection os p CONNECTED s;
       if tc_sockets s i \<noteq> None \<or> tc_connections s i \<noteq> None
       then do { s \<leftarrow> delete_connection c s; Some (-1, s) }
       else Some (i, s\<lparr>tc_sockets := (tc_sockets s)(i \<mapsto> p), tc_connections := (tc_connections s)(i \<mapsto> c)\<rparr>) } }"
  "buildAsyncConnectSocket os p ms s = do {
     (i, ok, s) \<leftarrow> register os p None (Some OnAsyncConnectSocketWrite) s;
     if \<not> ok then Some (-1, s)
     else do {
       let (c, s) = new_connection os p CONNECTING s;
       if tc_sockets s i \<noteq> None \<or> tc_connections s i \<noteq> None
       then do { s \<leftarrow> delete_connection c s; Some (-1, s) }
       else do {
         s \<leftarrow> (if ms > 0 then addSocketTimer os i ms OnAsyncConnectTimeout s else Some s);
         Some (i, s\<lparr>tc_sockets := (tc_sockets s)(i \<mapsto> p), tc_connections := (tc_connections s)(i \<mapsto> c)\<rparr>) } } }"
  by (auto simp: buildListenSocket_def buildConnectedSocket_def buildAsyncConnectSocket_def register_def alloc_id_def Let_def
      intro!: Option.bind_cong)

lemma new_connection_spec:
  assumes "kernel_ok os pending" "finite (dom (tc_conns s))"
  obtains c w where "new_connection os p st s = (c, s\<lparr>io_world := w, tc_conns := (tc_conns s)(c \<mapsto> (connection_new s p)\<lparr>cn_status := st\<rparr>)\<rparr>)"
    "tc_conns s c = None" "pending w \<le> pending (io_world s)"
proof -
  obtain c w where c: "sy_malloc os (dom (tc_conns s)) (io_world s) = (c, w)" by (metis surj_pair)
  then have "c \<notin> dom (tc_conns s)" "pending w \<le> pending (io_world s)"
    using assms unfolding kernel_ok_def memory_ok_def by blast+
  with c show thesis by (intro that [of c w]) (auto simp: new_connection_def)
qed

text \<open>Starting the timer of a socket.\<close>

lemma addSocketTimer_spec:
  assumes k: "kernel_ok os pending" and t: "th_inv (io_timers s)"
  obtains t tm h e w where "addSocketTimer os i ms cb s =
      Some (called e w s\<lparr>io_timers := h, tc_socket_timer := (tc_socket_timer s)(i \<mapsto> t), tc_timer_socket := (tc_timer_socket s)(t \<mapsto> i)\<rparr>)"
    "th_inv h" "t \<noteq> -1 \<longrightarrow> timers_of (io_timers s) t = None"
    "timers_of h = (if t = -1 then timers_of (io_timers s) else (timers_of (io_timers s))(t \<mapsto> tm))"
    "t_call_times tm = 1" "t_cb tm = cb" "pending w \<le> pending (io_world s)"
proof -
  obtain now e w where now: "syscall (sy_now os) s = (now, called e w s)" "sy_now os (io_errno s, io_world s) = (now, e, w)" "pending w \<le> pending (io_world s)"
    by (rule syscall_quiet [OF kernel_quiet(1) [OF k]])
  then have "ts_normal now" using k unfolding kernel_ok_def transfer_ok_def by blast
  let ?p = "getId (th_value (io_timers s))"
  let ?tm = "new_timer ?p now ms cb 1"
  obtain h where h: "addTimer (io_timers s) now ms cb 1 = Some (if timers_of (io_timers s) ?p = None then ?p else -1, h)" "th_inv h"
      "timers_of h = (if timers_of (io_timers s) ?p = None then (timers_of (io_timers s))(?p \<mapsto> ?tm) else timers_of (io_timers s))"
    using addTimer_ok [OF t \<open>ts_normal now\<close>, of ms cb 1] by blast
  let ?t = "if timers_of (io_timers s) ?p = None then ?p else -1"
  have "0 \<le> th_value (io_timers s)" "th_value (io_timers s) \<le> INT64_MAX" using t by (simp_all add: th_inv_def th_mid_def)
  then have pos: "?p \<noteq> -1" using getId_range [of "th_value (io_timers s)"] by auto
  have tm: "t_call_times ?tm = 1" "t_cb ?tm = cb" by (simp_all add: new_timer_def timer_new_def)
  show thesis
  proof (rule that [where e = e and w = w and h = h and t = ?t and tm = ?tm])
    show "addSocketTimer os i ms cb s = Some (called e w s\<lparr>io_timers := h, tc_socket_timer := (tc_socket_timer s)(i \<mapsto> ?t),
        tc_timer_socket := (tc_timer_socket s)(?t \<mapsto> i)\<rparr>)"
      using now(1) h(1) by (simp add: addSocketTimer_def startTimer_def)
    show "timers_of h = (if ?t = -1 then timers_of (io_timers s) else (timers_of (io_timers s))(?t \<mapsto> ?tm))"
      using h(3) pos by (simp del: timers_of_None)
  qed (use h(2) pos tm now(3) in \<open>simp_all split: if_splits\<close>)
qed

text \<open>What was there before is unchanged.\<close>

definition extends :: "'w tcp \<Rightarrow> 'w tcp \<Rightarrow> bool" where
  "extends s s' \<longleftrightarrow> io_removed s \<subseteq> io_removed s' \<and> io_devices s \<subseteq>\<^sub>m io_devices s' \<and> tc_sockets s \<subseteq>\<^sub>m tc_sockets s' \<and>
     (\<forall>i \<in> dom (tc_sockets s). tc_connections s' i = tc_connections s i \<and> tc_socket_timer s' i = tc_socket_timer s i)"

lemma extends_keeps: "extends s s' \<Longrightarrow> keeps R W s s'"
proof (rule keepsI)
  fix p d
  assume "extends s s'" "io_devices s p = Some d"
  then have "io_devices s' p = Some d" unfolding extends_def map_le_def by (metis domI)
  then show "\<exists>d'. io_devices s' p = Some d' \<and> (p \<notin> R \<and> dv_read d \<noteq> None \<longrightarrow> dv_read d' \<noteq> None) \<and>
    (p \<notin> W \<and> dv_write d \<noteq> None \<longrightarrow> dv_write d' \<noteq> None)" by simp
qed (simp add: extends_def)

lemma limits_same:
  "limits_ok s \<Longrightarrow> tc_read_init s' = tc_read_init s \<Longrightarrow> tc_read_expand s' = tc_read_expand s \<Longrightarrow> tc_read_max s' = tc_read_max s \<Longrightarrow>
   tc_write_init s' = tc_write_init s \<Longrightarrow> tc_write_expand s' = tc_write_expand s \<Longrightarrow> tc_write_max s' = tc_write_max s \<Longrightarrow> limits_ok s'"
  by (simp add: limits_ok_def)

lemma conn_state_new:
  assumes "limits_ok s"
  shows "conn_state None (registered i fd (Some OnSocketRead) None True) ((connection_new s p)\<lparr>cn_status := CONNECTED\<rparr>)"
    "conn_state t (registered i fd None (Some OnAsyncConnectSocketWrite) True) ((connection_new s p)\<lparr>cn_status := CONNECTING\<rparr>)"
  using assms by (simp_all add: conn_state_def connection_new_def buf_ok_new limits_ok_def db_data_new)

lemma added_inv:
  assumes inv: "tcp_inv s" and fresh: "tc_sockets s i = None" "io_devices s p = None"
    and s': "tc_sockets s' = (tc_sockets s)(i \<mapsto> p)" "io_devices s' = (io_devices s)(p \<mapsto> d)" "io_removed s' = io_removed s"
      "tc_contexts s' = tc_contexts s" "tc_live_contexts s' = tc_live_contexts s" "limits_ok s'" "value_ok s'"
    and t: "tc_socket_timer s' = tc_socket_timer s \<and> tc_timer_socket s' = tc_timer_socket s \<and> io_timers s' = io_timers s \<or>
      (\<exists>t tm. tc_socket_timer s' = (tc_socket_timer s)(i \<mapsto> t) \<and> tc_timer_socket s' = (tc_timer_socket s)(t \<mapsto> i) \<and>
        th_inv (io_timers s') \<and> (t \<noteq> -1 \<longrightarrow> timers_of (io_timers s) t = None) \<and>
        timers_of (io_timers s') = (if t = -1 then timers_of (io_timers s) else (timers_of (io_timers s))(t \<mapsto> tm)) \<and> t_call_times tm = 1 \<and>
        timer_cb_ok (tc_connections s' i) (t_cb tm))"
    and x: "(case x of None \<Rightarrow> tc_connections s' = tc_connections s \<and> tc_conns s' = tc_conns s
      | Some (c, k) \<Rightarrow> tc_connections s' = (tc_connections s)(i \<mapsto> c) \<and> tc_conns s' = (tc_conns s)(c \<mapsto> k) \<and> tc_conns s c = None)"
    and new: "device_ok i d" "(case x of None \<Rightarrow> listen_state (tc_socket_timer s' i) d
      | Some (c, k) \<Rightarrow> cn_socket k = p \<and> conn_state (tc_socket_timer s' i) d k)"
  shows "tcp_inv s'" "extends s s'"
proof -
  have ok: "tables_ok s" "contexts_ok s" "timers_ok s" "timers_live {} s" using inv by (simp_all add: tcp_inv_def tcp_invx_def)
  have ci: "tc_connections s i = None" using ok(1) fresh(1) by (auto simp: tables_ok_def)
  have ti: "tc_socket_timer s i = None"
  proof (rule ccontr)
    assume "tc_socket_timer s i \<noteq> None"
    then obtain u where "tc_socket_timer s i = Some u" by blast
    from timers_okD(3) [OF ok(3) this] fresh(1) show False by auto
  qed
  have cj: "tc_connections s' j = tc_connections s j" if "j \<noteq> i" for j using x that by (cases x) auto
  have sub: "dom (tc_sockets s) \<subseteq> dom (tc_sockets s')" using s'(1) by auto
  have tj: "tc_socket_timer s' j = tc_socket_timer s j" if "j \<noteq> i" for j using t that by auto
  have new': "socket_ok s' i p" using x new s'(2) ci by (cases x) (auto simp: socket_ok_def)
  have "tables_ok s'"
  proof (rule tables_add [where x = x, OF ok(1) fresh s'(1,2)])
    show "\<And>j. j \<noteq> i \<Longrightarrow> tc_socket_timer s' j = tc_socket_timer s j" by (rule tj)
  qed (rule x new')+
  moreover have "contexts_ok s'" by (rule contexts_fresh [OF ok(2) s'(4,5) sub])
  moreover have "timers_ok s' \<and> timers_live {} s'"
    using t
  proof
    assume "tc_socket_timer s' = tc_socket_timer s \<and> tc_timer_socket s' = tc_timer_socket s \<and> io_timers s' = io_timers s"
    moreover have "dom (tc_socket_timer s) \<subseteq> dom (tc_sockets s')"
      using timers_okD(3) [OF ok(3)] sub by blast
    moreover have "tc_connections s' j = tc_connections s j" if "j \<in> dom (tc_socket_timer s)" for j
      using that ti cj [of j] by (cases "j = i") auto
    ultimately show ?thesis by (intro timers_keep [OF ok(3,4)]) simp_all
  next
    assume "\<exists>t tm. tc_socket_timer s' = (tc_socket_timer s)(i \<mapsto> t) \<and> tc_timer_socket s' = (tc_timer_socket s)(t \<mapsto> i) \<and>
        th_inv (io_timers s') \<and> (t \<noteq> -1 \<longrightarrow> timers_of (io_timers s) t = None) \<and>
        timers_of (io_timers s') = (if t = -1 then timers_of (io_timers s) else (timers_of (io_timers s))(t \<mapsto> tm)) \<and> t_call_times tm = 1 \<and>
        timer_cb_ok (tc_connections s' i) (t_cb tm)"
    then obtain t tm where "tc_socket_timer s' = (tc_socket_timer s)(i \<mapsto> t)" "tc_timer_socket s' = (tc_timer_socket s)(t \<mapsto> i)"
        "th_inv (io_timers s')" "t \<noteq> -1 \<Longrightarrow> timers_of (io_timers s) t = None"
        "timers_of (io_timers s') = (if t = -1 then timers_of (io_timers s) else (timers_of (io_timers s))(t \<mapsto> tm))" "t_call_times tm = 1"
        "timer_cb_ok (tc_connections s' i) (t_cb tm)" by blast
    from timers_add [OF ok(3,4) ti _ this(1,2) sub this(3-7) cj] s'(1) show ?thesis by simp
  qed
  ultimately show "tcp_inv s'" using s'(6,7) by (simp add: tcp_inv_def tcp_invx_def)
  have "\<forall>j \<in> dom (tc_sockets s). tc_connections s' j = tc_connections s j \<and> tc_socket_timer s' j = tc_socket_timer s j"
    using tj cj fresh(1) by (metis domIff)
  moreover have "io_devices s \<subseteq>\<^sub>m io_devices s'" "tc_sockets s \<subseteq>\<^sub>m tc_sockets s'"
    using s'(1,2) fresh by (auto simp: map_le_def)
  ultimately show "extends s s'" using s'(3) by (simp add: extends_def)
qed

text \<open>
  The result of registering a socket: -1 and nothing new, or a new socket in the tables, with
  a connection or without.
\<close>

definition opened :: "('w \<Rightarrow> nat) \<Rightarrow> status option \<Rightarrow> 'w tcp \<Rightarrow> int \<Rightarrow> 'w tcp \<Rightarrow> bool" where
  "opened pending st s i s' \<longleftrightarrow> tcp_inv s' \<and> extends s s' \<and> pending (io_world s') \<le> pending (io_world s) \<and>
     (if i = -1 then tc_sockets s' = tc_sockets s \<and> tc_connections s' = tc_connections s \<and> io_devices s' = io_devices s
      else 0 < i \<and> tc_sockets s i = None \<and> (\<exists>p. io_devices s p = None \<and> tc_sockets s' = (tc_sockets s)(i \<mapsto> p)) \<and>
        (case st of None \<Rightarrow> tc_connections s' = tc_connections s
         | Some st \<Rightarrow> \<exists>c k. tc_conns s c = None \<and> tc_connections s' = (tc_connections s)(i \<mapsto> c) \<and> tc_conns s' c = Some k \<and> cn_status k = st))"

lemma opened_fine: "opened pending st s i s' \<Longrightarrow> fine pending R W s s'"
  by (simp add: opened_def fine_def extends_keeps)

lemma opened_fail:
  assumes k: "kernel_ok os pending" and inv: "tcp_inv s" and p: "io_devices s p = None"
    and s1: "s1 = called e w s\<lparr>tc_value := v, io_devices := (io_devices s)(p \<mapsto> d)\<rparr>"
      "pending w \<le> pending (io_world s)" "0 \<le> v" "v \<le> INT32_MAX"
  obtains s2 where "unless_released os p (-1, s1) = Some (-1, s2)" "opened pending st s (-1) s2"
    "pending (io_world s2) \<le> pending w"
proof -
  have "io_devices s1 p = Some d" using s1 by simp
  then obtain e' w' where del: "delete_socket os p s1 = Some (called e' w' s1\<lparr>io_devices := (io_devices s1)(p := None),
      io_removed := (if dv_attached d then insert p (io_removed s1) else io_removed s1)\<rparr>)"
    "pending w' \<le> pending (io_world s1)" by (rule delete_socket_spec [OF k])
  let ?s2 = "called e' w' s1\<lparr>io_devices := (io_devices s1)(p := None),
      io_removed := (if dv_attached d then insert p (io_removed s1) else io_removed s1)\<rparr>"
  have dev: "io_devices ?s2 = io_devices s" using p s1 by (simp add: fun_upd_idem)
  have "tcp_inv ?s2" unfolding tcp_inv_def
    by (rule tcp_invx_same [OF inv [unfolded tcp_inv_def]]) (use dev s1 in \<open>simp_all add: tables_def misc_def value_ok_def\<close>)
  moreover have "extends s ?s2" using dev s1 by (auto simp: extends_def map_le_def)
  ultimately have "opened pending st s (-1) ?s2" using dev s1 del(2) by (simp add: opened_def)
  then show thesis by (intro that [of ?s2]) (use del s1 in \<open>simp_all add: unless_released_def\<close>)
qed

lemma draft_fail:
  assumes k: "kernel_ok os pending" and inv: "tcp_inv s" and p: "io_devices s p = None" and s1: "draft pending p d s s1"
  obtains s2 where "unless_released os p (-1, s1) = Some (-1, s2)" "opened pending st s (-1) s2"
    "pending (io_world s2) \<le> pending (io_world s1)"
proof -
  obtain e w where e: "s1 = called e w s\<lparr>io_devices := (io_devices s)(p \<mapsto> d)\<rparr>" "pending w \<le> pending (io_world s)"
    using s1 by (auto simp: draft_def)
  then have s1': "s1 = called e w s\<lparr>tc_value := tc_value s, io_devices := (io_devices s)(p \<mapsto> d)\<rparr>" by simp
  have "0 \<le> tc_value s" "tc_value s \<le> INT32_MAX" using inv by (simp_all add: tcp_inv_def tcp_invx_def value_ok_def)
  then show thesis
    using opened_fail [OF k inv p s1' e(2), of st] that e(1) by auto
qed

lemma inv_parts:
  assumes "tcp_inv s"
  shows "limits_ok s" "value_ok s" "th_inv (io_timers s)" "finite (dom (io_devices s))" "finite (dom (tc_conns s))"
    "tables_ok s" "timers_ok s" "timers_live {} s" "contexts_ok s"
proof -
  show t: "limits_ok s" "value_ok s" "tables_ok s" "timers_ok s" "timers_live {} s" "contexts_ok s"
    using assms by (simp_all add: tcp_inv_def tcp_invx_def)
  show "th_inv (io_timers s)" by (rule timers_okD(1) [OF t(4)])
  show "finite (dom (io_devices s))" "finite (dom (tc_conns s))"
    using finite_objects assms by (simp_all add: tcp_inv_def)
qed

lemma unless_released_pos: "0 < i \<Longrightarrow> unless_released os p (i, s) = Some (i, s)"
  by (simp add: unless_released_def)

lemma buildListenSocket_opened:
  assumes k: "kernel_ok os pending" and inv: "tcp_inv s" and p: "io_devices s p = None" and s1: "draft pending p d s s1"
  obtains i s2 where "(do { r \<leftarrow> buildListenSocket os p s1; unless_released os p r }) = Some (i, s2)" "opened pending None s i s2"
proof -
  let ?v = "next_value (tc_value s)"
  have v: "1 \<le> ?v" "?v \<le> INT32_MAX" "0 \<le> ?v" using next_value_range [OF inv_parts(2) [OF inv]] by simp_all
  obtain i fd ok e w where r: "register os p (Some OnListenSocketRead) None s1 = Some (i, ok, called e w s\<lparr>tc_value := ?v,
       io_devices := (io_devices s)(p \<mapsto> registered i fd (Some OnListenSocketRead) None ok)\<rparr>)"
    "i = socket_id_of ?v fd" "pending w \<le> pending (io_world s)"
    by (rule register_spec [OF k inv s1, of "Some OnListenSocketRead" None]) simp
  let ?s = "called e w s\<lparr>tc_value := ?v, io_devices := (io_devices s)(p \<mapsto> registered i fd (Some OnListenSocketRead) None ok)\<rparr>"
  have i: "0 < i" using r(2) socket_id_pos v by blast
  show thesis
  proof (cases "ok \<and> tc_sockets s i = None")
    case False
    then have "buildListenSocket os p s1 = Some (-1, ?s)" using r(1) by (auto simp: build_register)
    moreover obtain s2 where "unless_released os p (-1, ?s) = Some (-1, s2)" "opened pending None s (-1) s2"
      by (rule opened_fail [OF k inv p refl r(3) v(3,2)])
    ultimately show thesis by (intro that) simp_all
  next
    case True
    let ?s2 = "?s\<lparr>tc_sockets := (tc_sockets s)(i \<mapsto> p)\<rparr>"
    have "buildListenSocket os p s1 = Some (i, ?s2)" using r(1) True by (simp add: build_register)
    moreover have "tcp_inv ?s2 \<and> extends s ?s2"
    proof -
      have ti: "tc_socket_timer s i = None"
        using timers_okD(3) [OF inv_parts(7) [OF inv], of i] True by (cases "tc_socket_timer s i") auto
      show ?thesis
        using True p inv_parts(1) [OF inv] v ti
        by (intro conjI added_inv [OF inv, where x = None and i = i and p = p and
            d = "registered i fd (Some OnListenSocketRead) None True"])
          (simp_all add: limits_ok_def value_ok_def device_ok_def listen_state_def)
    qed
    ultimately show thesis
      using True i r(3) p by (intro that [of i ?s2]) (auto simp: unless_released_pos opened_def)
  qed
qed

lemma buildConnectedSocket_opened:
  assumes k: "kernel_ok os pending" and inv: "tcp_inv s" and p: "io_devices s p = None" and s1: "draft pending p d s s1"
  obtains i s2 where "(do { r \<leftarrow> buildConnectedSocket os p s1; unless_released os p r }) = Some (i, s2)"
    "opened pending (Some CONNECTED) s i s2"
proof -
  let ?v = "next_value (tc_value s)"
  have v: "1 \<le> ?v" "?v \<le> INT32_MAX" "0 \<le> ?v" using next_value_range [OF inv_parts(2) [OF inv]] by simp_all
  obtain i fd ok e w where r: "register os p (Some OnSocketRead) None s1 = Some (i, ok, called e w s\<lparr>tc_value := ?v,
       io_devices := (io_devices s)(p \<mapsto> registered i fd (Some OnSocketRead) None ok)\<rparr>)"
    "i = socket_id_of ?v fd" "pending w \<le> pending (io_world s)"
    by (rule register_spec [OF k inv s1, of "Some OnSocketRead" None]) simp
  let ?s = "called e w s\<lparr>tc_value := ?v, io_devices := (io_devices s)(p \<mapsto> registered i fd (Some OnSocketRead) None ok)\<rparr>"
  have i: "0 < i" using r(2) socket_id_pos v by blast
  have "finite (dom (tc_conns ?s))" using inv_parts(5) [OF inv] by simp
  then obtain c w' where c: "new_connection os p CONNECTED ?s = (c, ?s\<lparr>io_world := w',
      tc_conns := (tc_conns ?s)(c \<mapsto> (connection_new ?s p)\<lparr>cn_status := CONNECTED\<rparr>)\<rparr>)"
    "tc_conns ?s c = None" "pending w' \<le> pending (io_world ?s)" by (rule new_connection_spec [OF k])
  have c0: "connection_new ?s p = connection_new s p" by (simp add: connection_new_def)
  have w': "pending w' \<le> pending (io_world s)" using c(3) r(3) by simp
  show thesis
  proof (cases "ok \<and> tc_sockets s i = None")
    case False
    then obtain w2 where w2: "buildConnectedSocket os p s1 = Some (-1, called e w2 s\<lparr>tc_value := ?v,
        io_devices := (io_devices s)(p \<mapsto> registered i fd (Some OnSocketRead) None ok)\<rparr>)" "pending w2 \<le> pending (io_world s)"
    proof (cases ok)
      case False
      then show thesis using that [of w] r by (simp add: build_register)
    next
      case True
      with False have "tc_sockets s i \<noteq> None" by simp
      then have "buildConnectedSocket os p s1 = Some (-1, ?s\<lparr>io_world := w', tc_conns := (tc_conns s)(c := None)\<rparr>)"
        using True r(1) c by (simp add: build_register delete_connection_def)
      moreover have "(tc_conns s)(c := None) = tc_conns s" using c(2) by (simp add: fun_upd_idem)
      ultimately show thesis using that [of w'] w' by simp
    qed
    obtain s2 where "unless_released os p (-1, called e w2 s\<lparr>tc_value := ?v,
        io_devices := (io_devices s)(p \<mapsto> registered i fd (Some OnSocketRead) None ok)\<rparr>) = Some (-1, s2)" "opened pending (Some CONNECTED) s (-1) s2"
      by (rule opened_fail [OF k inv p refl w2(2) v(3,2)])
    with w2(1) show thesis by (intro that) simp_all
  next
    case True
    have ci: "tc_connections s i = None" using inv_parts(6) [OF inv] True by (auto simp: tables_ok_def)
    let ?k = "(connection_new s p)\<lparr>cn_status := CONNECTED\<rparr>"
    let ?s2 = "?s\<lparr>io_world := w', tc_conns := (tc_conns s)(c \<mapsto> ?k), tc_sockets := (tc_sockets s)(i \<mapsto> p),
        tc_connections := (tc_connections s)(i \<mapsto> c)\<rparr>"
    have "buildConnectedSocket os p s1 = Some (i, ?s2)" using r(1) c(1) True ci c0 by (simp add: build_register)
    moreover have "tcp_inv ?s2 \<and> extends s ?s2"
    proof -
      have ti: "tc_socket_timer s i = None"
        using timers_okD(3) [OF inv_parts(7) [OF inv], of i] True by (cases "tc_socket_timer s i") auto
      show ?thesis
        using True p inv_parts(1) [OF inv] v c(2) ti conn_state_new(1) [OF inv_parts(1) [OF inv], of i fd p]
        by (intro conjI added_inv [OF inv, where x = "Some (c, ?k)" and i = i and p = p and
            d = "registered i fd (Some OnSocketRead) None True"])
          (simp_all add: limits_ok_def value_ok_def device_ok_def, simp_all add: connection_new_def)
    qed
    ultimately show thesis
      using True i w' p c(2) by (intro that [of i ?s2]) (auto simp: unless_released_pos opened_def)
  qed
qed

end
