(* ===== verification/TcpClose.thy ===== *)
theory TcpClose
  imports TcpRegister
begin

text \<open>
  Opening by an asynchronous connect, the operations that open sockets, and \<open>closeSocket\<close>: the socket and every trace of it are gone.
\<close>

section \<open>Connecting\<close>

lemma buildAsyncConnectSocket_opened:
  assumes k: "kernel_ok os pending" and inv: "tcp_inv s" and p: "io_devices s p = None" and s1: "draft pending p d s s1"
  obtains i s2 where "(do { r \<leftarrow> buildAsyncConnectSocket os p ms s1; unless_released os p r }) = Some (i, s2)"
    "opened pending (Some CONNECTING) s i s2"
proof -
  let ?v = "next_value (tc_value s)"
  have v: "1 \<le> ?v" "?v \<le> INT32_MAX" "0 \<le> ?v" using next_value_range [OF inv_parts(2) [OF inv]] by simp_all
  let ?dev = "\<lambda>i fd ok. registered i fd None (Some OnAsyncConnectSocketWrite) ok"
  obtain i fd ok e w where r: "register os p None (Some OnAsyncConnectSocketWrite) s1 = Some (i, ok, called e w s\<lparr>tc_value := ?v,
       io_devices := (io_devices s)(p \<mapsto> ?dev i fd ok)\<rparr>)"
    "i = socket_id_of ?v fd" "pending w \<le> pending (io_world s)"
    by (rule register_spec [OF k inv s1, of None "Some OnAsyncConnectSocketWrite"]) simp
  let ?s = "called e w s\<lparr>tc_value := ?v, io_devices := (io_devices s)(p \<mapsto> ?dev i fd ok)\<rparr>"
  have i: "0 < i" using r(2) socket_id_pos v by blast
  have "finite (dom (tc_conns ?s))" using inv_parts(5) [OF inv] by simp
  then obtain c w' where c: "new_connection os p CONNECTING ?s = (c, ?s\<lparr>io_world := w',
      tc_conns := (tc_conns ?s)(c \<mapsto> (connection_new ?s p)\<lparr>cn_status := CONNECTING\<rparr>)\<rparr>)"
    "tc_conns ?s c = None" "pending w' \<le> pending (io_world ?s)" by (rule new_connection_spec [OF k])
  have c0: "connection_new ?s p = connection_new s p" by (simp add: connection_new_def)
  have w': "pending w' \<le> pending (io_world s)" using c(3) r(3) by simp
  show thesis
  proof (cases "ok \<and> tc_sockets s i = None")
    case False
    then obtain w2 where w2: "buildAsyncConnectSocket os p ms s1 = Some (-1, called e w2 s\<lparr>tc_value := ?v,
        io_devices := (io_devices s)(p \<mapsto> ?dev i fd ok)\<rparr>)" "pending w2 \<le> pending (io_world s)"
    proof (cases ok)
      case False
      then show thesis using that [of w] r by (simp add: build_register)
    next
      case True
      with False have "tc_sockets s i \<noteq> None" by simp
      then have "buildAsyncConnectSocket os p ms s1 = Some (-1, ?s\<lparr>io_world := w', tc_conns := (tc_conns s)(c := None)\<rparr>)"
        using True r(1) c by (simp add: build_register delete_connection_def)
      moreover have "(tc_conns s)(c := None) = tc_conns s" using c(2) by (simp add: fun_upd_idem)
      ultimately show thesis using that [of w'] w' by simp
    qed
    obtain s2 where "unless_released os p (-1, called e w2 s\<lparr>tc_value := ?v,
        io_devices := (io_devices s)(p \<mapsto> ?dev i fd ok)\<rparr>) = Some (-1, s2)" "opened pending (Some CONNECTING) s (-1) s2"
      by (rule opened_fail [OF k inv p refl w2(2) v(3,2)])
    with w2(1) show thesis by (intro that) simp_all
  next
    case True
    have ci: "tc_connections s i = None" using inv_parts(6) [OF inv] True by (auto simp: tables_ok_def)
    have ti: "tc_socket_timer s i = None"
      using timers_okD(3) [OF inv_parts(7) [OF inv], of i] True by (cases "tc_socket_timer s i") auto
    let ?k = "(connection_new s p)\<lparr>cn_status := CONNECTING\<rparr>"
    let ?s1 = "?s\<lparr>io_world := w', tc_conns := (tc_conns s)(c \<mapsto> ?k)\<rparr>"
    let ?fin = "\<lambda>s2. s2\<lparr>tc_sockets := (tc_sockets s)(i \<mapsto> p), tc_connections := (tc_connections s)(i \<mapsto> c)\<rparr>"
    have dev: "device_ok i (?dev i fd True)" by (simp add: device_ok_def)
    show thesis
    proof (cases "ms > 0")
      case False
      then have b: "buildAsyncConnectSocket os p ms s1 = Some (i, ?fin ?s1)" using r(1) c(1) True ci c0 by (simp add: build_register)
      have "tcp_inv (?fin ?s1) \<and> extends s (?fin ?s1)"
        using True p inv_parts(1) [OF inv] v c(2) ti conn_state_new(2) [OF inv_parts(1) [OF inv], of None i fd p] dev
        by (intro conjI added_inv [OF inv, where x = "Some (c, ?k)" and i = i and p = p and d = "?dev i fd True"])
          (simp_all add: limits_ok_def value_ok_def, simp_all add: connection_new_def)
      then show thesis
        using b True i w' p c(2) by (intro that [of i "?fin ?s1"]) (auto simp: unless_released_pos opened_def)
    next
      case ms: True
      have "th_inv (io_timers ?s1)" using inv_parts(3) [OF inv] by simp
      then obtain t tm h e' w'' where a: "addSocketTimer os i ms OnAsyncConnectTimeout ?s1 =
          Some (called e' w'' ?s1\<lparr>io_timers := h, tc_socket_timer := (tc_socket_timer ?s1)(i \<mapsto> t), tc_timer_socket := (tc_timer_socket ?s1)(t \<mapsto> i)\<rparr>)"
        "th_inv h" "t \<noteq> -1 \<longrightarrow> timers_of (io_timers ?s1) t = None"
        "timers_of h = (if t = -1 then timers_of (io_timers ?s1) else (timers_of (io_timers ?s1))(t \<mapsto> tm))"
        "t_call_times tm = 1" "t_cb tm = OnAsyncConnectTimeout" "pending w'' \<le> pending (io_world ?s1)"
        by (rule addSocketTimer_spec [OF k])
      let ?s2 = "called e' w'' ?s1\<lparr>io_timers := h, tc_socket_timer := (tc_socket_timer s)(i \<mapsto> t), tc_timer_socket := (tc_timer_socket s)(t \<mapsto> i)\<rparr>"
      have b: "buildAsyncConnectSocket os p ms s1 = Some (i, ?fin ?s2)" using r(1) c(1) True ci c0 ms a(1) by (simp add: build_register)
      have t: "\<exists>t' tm. tc_socket_timer (?fin ?s2) = (tc_socket_timer s)(i \<mapsto> t') \<and> tc_timer_socket (?fin ?s2) = (tc_timer_socket s)(t' \<mapsto> i) \<and>
          th_inv (io_timers (?fin ?s2)) \<and> (t' \<noteq> -1 \<longrightarrow> timers_of (io_timers s) t' = None) \<and>
          timers_of (io_timers (?fin ?s2)) = (if t' = -1 then timers_of (io_timers s) else (timers_of (io_timers s))(t' \<mapsto> tm)) \<and> t_call_times tm = 1 \<and>
          timer_cb_ok (tc_connections (?fin ?s2) i) (t_cb tm)"
        using a(2-6) by (intro exI [of _ t] exI [of _ tm]) simp
      have "tcp_inv (?fin ?s2) \<and> extends s (?fin ?s2)"
        using True p inv_parts(1) [OF inv] v c(2) conn_state_new(2) [OF inv_parts(1) [OF inv], of "Some t" i fd p] dev
        by (intro conjI added_inv [OF inv, where x = "Some (c, ?k)" and i = i and p = p and d = "?dev i fd True"] disjI2 t)
          (simp_all add: limits_ok_def value_ok_def, simp_all add: connection_new_def)
      then show thesis
        using b True i w' p c(2) a(7) by (intro that [of i "?fin ?s2"]) (auto simp: unless_released_pos opened_def)
    qed
  qed
qed

section \<open>Opening sockets\<close>

text \<open>Every way to open a socket gives -1 and no new object, or a socket in the right state.\<close>

lemma open_with:
  assumes k: "kernel_ok os pending" and inv: "tcp_inv s" and f: "\<And>p. opener pending p (f p)"
    and build: "\<And>p d s1. io_devices s p = None \<Longrightarrow> draft pending p d s s1 \<Longrightarrow>
      \<exists>i s2. (do { r \<leftarrow> build p s1; unless_released os p r }) = Some (i, s2) \<and> opened pending st s i s2"
  shows "\<exists>i s2. (do { let (p, s) = new_device os s; (ok, s) \<leftarrow> f p s;
      r \<leftarrow> (if ok then build p s else Some (-1, s)); unless_released os p r }) = Some (i, s2) \<and> opened pending st s i s2"
proof -
  obtain p s1 where p: "new_device os s = (p, s1)" "draft pending p device_new s s1" "io_devices s p = None"
    by (rule new_device_draft [OF k inv])
  obtain ok s2 d2 where s2: "f p s1 = Some (ok, s2)" "draft pending p d2 s s2" by (rule draft_opener [OF f p(2)])
  show ?thesis
  proof (cases ok)
    case True
    then show ?thesis using build [OF p(3) s2(2)] p(1) s2(1) by simp
  next
    case False
    obtain s3 where "unless_released os p (-1, s2) = Some (-1, s3)" "opened pending st s (-1) s3"
      using draft_fail [OF k inv p(3) s2(2)] by metis
    with False p(1) s2(1) show ?thesis by simp
  qed
qed

lemma opening_ops:
  assumes k: "kernel_ok os pending" and inv: "tcp_inv s"
  shows "\<exists>i s2. service_listen os addr s = Some (i, s2) \<and> opened pending None s i s2"
    and "\<exists>i s2. shareListen os fd s = Some (i, s2) \<and> opened pending None s i s2"
    and "\<exists>i s2. service_connect os addr s = Some (i, s2) \<and> opened pending (Some CONNECTED) s i s2"
proof -
  have bl: "\<exists>i s2. (do { r \<leftarrow> buildListenSocket os p s1; unless_released os p r }) = Some (i, s2) \<and> opened pending None s i s2"
    if "io_devices s p = None" "draft pending p d s s1" for p d s1
    by (rule buildListenSocket_opened [OF k inv that]) blast
  have bc: "\<exists>i s2. (do { r \<leftarrow> buildConnectedSocket os p s1; unless_released os p r }) = Some (i, s2) \<and> opened pending (Some CONNECTED) s i s2"
    if "io_devices s p = None" "draft pending p d s s1" for p d s1
    by (rule buildConnectedSocket_opened [OF k inv that]) blast
  show "\<exists>i s2. service_listen os addr s = Some (i, s2) \<and> opened pending None s i s2"
    unfolding service_listen_def by (rule open_with [OF k inv opener_open_address(2) [OF k] bl])
  show "\<exists>i s2. shareListen os fd s = Some (i, s2) \<and> opened pending None s i s2"
    unfolding shareListen_def by (rule open_with [OF k inv opener_dupDescriptor [OF k] bl])
  show "\<exists>i s2. service_connect os addr s = Some (i, s2) \<and> opened pending (Some CONNECTED) s i s2"
    unfolding service_connect_def by (rule open_with [OF k inv opener_open_address(1) [OF k] bc])
qed

lemma asyncConnect_opened:
  assumes k: "kernel_ok os pending" and inv: "tcp_inv s"
  shows "\<exists>i b s2. asyncConnect os addr ms s = Some ((i, b), s2) \<and>
    (i = -1 \<longrightarrow> b = None) \<and> (i \<noteq> -1 \<longrightarrow> b \<noteq> None) \<and>
    opened pending (Some (if b = Some True then CONNECTED else CONNECTING)) s i s2"
proof -
  obtain p s1 where p: "new_device os s = (p, s1)" "draft pending p device_new s s1" "io_devices s p = None"
    by (rule new_device_draft [OF k inv])
  let ?open = "\<lambda>s. do { (ok, s) \<leftarrow> tcp_open os (ad_protocol addr) p s;
     if ok then all_of [setReuseAddr os p, setTcpNoDelay os p, setNonblock os p] s else Some (False, s) }"
  have "opener pending p ?open"
    by (intro opener_bind opener_tcp_open opener_if opener_return opener_all_of k) (auto intro: opener_socket_options [OF k])
  then obtain ok s2 d2 where s2: "?open s1 = Some (ok, s2)" "draft pending p d2 s s2" by (rule draft_opener [OF _ p(2)])
  define rest where "rest = (\<lambda>ok s. if \<not> ok then do { (i, s) \<leftarrow> unless_released os p (-1, s); Some ((i, None), s) }
     else do {
       (connected, s) \<leftarrow> tcp_connect os addr p s;
       if connected then do {
         r \<leftarrow> buildConnectedSocket os p s;
         (i, s) \<leftarrow> unless_released os p r;
         Some ((i, if i = -1 then None else Some True), s) }
       else if io_errno s = EINPROGRESS then do {
         r \<leftarrow> buildAsyncConnectSocket os p ms s;
         (i, s) \<leftarrow> unless_released os p r;
         Some ((i, if i = -1 then None else Some False), s) }
       else do { (i, s) \<leftarrow> unless_released os p (-1, s); Some ((i, None), s) } })"
  have eq: "asyncConnect os addr ms s = do { (ok, s) \<leftarrow> ?open s1; rest ok s }"
    using p(1) by (simp add: asyncConnect_def rest_def) (auto intro!: Option.bind_cong)
  have "\<exists>i b s3. rest ok s2 = Some ((i, b), s3) \<and> (i = -1 \<longrightarrow> b = None) \<and> (i \<noteq> -1 \<longrightarrow> b \<noteq> None) \<and>
      opened pending (Some (if b = Some True then CONNECTED else CONNECTING)) s i s3"
  proof (cases ok)
    case False
    obtain s3 where "unless_released os p (-1, s2) = Some (-1, s3)" "opened pending (Some CONNECTING) s (-1) s3"
      using draft_fail [OF k inv p(3) s2(2)] by metis
    with False show ?thesis by (simp add: rest_def)
  next
    case True
    obtain con s3 d3 where s3: "tcp_connect os addr p s2 = Some (con, s3)" "draft pending p d3 s s3"
      by (rule draft_opener [OF opener_socket_options(6) [OF k] s2(2)])
    consider "con" | "\<not> con" "io_errno s3 = EINPROGRESS" | "\<not> con" "io_errno s3 \<noteq> EINPROGRESS" by blast
    then show ?thesis
    proof cases
      case 1
      obtain i s4 where s4: "(do { r \<leftarrow> buildConnectedSocket os p s3; unless_released os p r }) = Some (i, s4)" "opened pending (Some CONNECTED) s i s4"
        by (rule buildConnectedSocket_opened [OF k inv p(3) s3(2)])
      then obtain r where "buildConnectedSocket os p s3 = Some r" "unless_released os p r = Some (i, s4)" by (auto simp: bind_eq_Some_conv)
      with 1 True s3(1) s4(2) show ?thesis by (auto simp: rest_def opened_def)
    next
      case 2
      obtain i s4 where s4: "(do { r \<leftarrow> buildAsyncConnectSocket os p ms s3; unless_released os p r }) = Some (i, s4)" "opened pending (Some CONNECTING) s i s4"
        by (rule buildAsyncConnectSocket_opened [OF k inv p(3) s3(2)])
      then obtain r where "buildAsyncConnectSocket os p ms s3 = Some r" "unless_released os p r = Some (i, s4)" by (auto simp: bind_eq_Some_conv)
      with 2 True s3(1) s4(2) show ?thesis by (auto simp: rest_def)
    next
      case 3
      obtain s4 where "unless_released os p (-1, s3) = Some (-1, s4)" "opened pending (Some CONNECTING) s (-1) s4"
        using draft_fail [OF k inv p(3) s3(2)] by metis
      with 3 True s3(1) show ?thesis by (simp add: rest_def)
    qed
  qed
  with s2(1) show ?thesis unfolding eq by simp
qed

section \<open>Closing a socket\<close>

text \<open>The timer of a socket is gone, here and in the heap.\<close>

definition no_timer :: "int \<Rightarrow> 'w tcp \<Rightarrow> 'w tcp \<Rightarrow> bool" where
  "no_timer i s s' \<longleftrightarrow> th_inv (io_timers s') \<and> tc_socket_timer s' = (tc_socket_timer s)(i := None) \<and>
     (case tc_socket_timer s i of
        None \<Rightarrow> tc_timer_socket s' = tc_timer_socket s \<and> io_timers s' = io_timers s
      | Some t \<Rightarrow> tc_timer_socket s' = (tc_timer_socket s)(t := None) \<and> timers_of (io_timers s') = (timers_of (io_timers s))(t := None))"

lemma removeSocketTimer_spec:
  assumes "th_inv (io_timers s)"
  obtains h ts where "removeSocketTimer i s = Some (s\<lparr>tc_socket_timer := (tc_socket_timer s)(i := None), tc_timer_socket := ts, io_timers := h\<rparr>)"
    "no_timer i s (s\<lparr>tc_socket_timer := (tc_socket_timer s)(i := None), tc_timer_socket := ts, io_timers := h\<rparr>)"
proof (cases "tc_socket_timer s i")
  case None
  then show thesis
    using assms by (intro that [where ts = "tc_timer_socket s" and h = "io_timers s"])
      (simp_all add: removeSocketTimer_def no_timer_def fun_upd_idem)
next
  case (Some t)
  obtain h where h: "removeTimer (io_timers s) t = Some h" "th_inv h" "timers_of h = (timers_of (io_timers s))(t := None)"
    using removeTimer_ok [OF assms] by metis
  then show thesis
    using Some by (intro that [where ts = "(tc_timer_socket s)(t := None)" and h = h])
      (simp_all add: removeSocketTimer_def stopTimer_def no_timer_def)
qed

lemma no_timer_ok:
  assumes "timers_ok s" "timers_live {} s" "no_timer i s s'" "dom (tc_sockets s) - {i} \<subseteq> dom (tc_sockets s')"
    and c: "\<And>j. j \<noteq> i \<Longrightarrow> tc_connections s' j = tc_connections s j"
  shows "timers_ok s' \<and> timers_live {} s'"
proof (cases "tc_socket_timer s i")
  case None
  with assms(3) have eq: "tc_socket_timer s' = tc_socket_timer s" "tc_timer_socket s' = tc_timer_socket s" "io_timers s' = io_timers s"
    by (simp_all add: no_timer_def fun_upd_idem)
  have "dom (tc_socket_timer s) \<subseteq> dom (tc_sockets s) - {i}" using timers_okD(3) [OF assms(1)] None by auto
  with assms(4) have "dom (tc_socket_timer s) \<subseteq> dom (tc_sockets s')" by blast
  moreover have "tc_connections s' j = tc_connections s j" if "j \<in> dom (tc_socket_timer s)" for j
    using that None by (intro c) auto
  ultimately show ?thesis by (rule timers_keep [OF assms(1,2) eq])
next
  case (Some t)
  then have "tc_socket_timer s' = (tc_socket_timer s)(i := None)" "tc_timer_socket s' = (tc_timer_socket s)(t := None)"
    "th_inv (io_timers s')" "timers_of (io_timers s') = (timers_of (io_timers s))(t := None)"
    using assms(3) by (simp_all add: no_timer_def)
  then show ?thesis using timers_del [OF assms(1,2) Some _ _ assms(4) _ _ _ c] by blast
qed

text \<open>Every trace of socket \<open>i\<close>, whose object was at \<open>p\<close>, is gone, and nothing else.\<close>

definition closed :: "int \<Rightarrow> nat \<Rightarrow> 'w tcp \<Rightarrow> 'w tcp \<Rightarrow> bool" where
  "closed i p s s' \<longleftrightarrow> io_devices s' = (io_devices s)(p := None) \<and> io_removed s' = insert p (io_removed s) \<and>
     tc_sockets s' = (tc_sockets s)(i := None) \<and> tc_connections s' = (tc_connections s)(i := None) \<and>
     tc_conns s' = (case tc_connections s i of None \<Rightarrow> tc_conns s | Some c \<Rightarrow> (tc_conns s)(c := None)) \<and>
     tc_contexts s' = (tc_contexts s)(i := None) \<and>
     tc_live_contexts s' = (case tc_contexts s i of None \<Rightarrow> tc_live_contexts s | Some x \<Rightarrow> tc_live_contexts s - ({x} - {0})) \<and>
     no_timer i s s'"

lemma closed_inv:
  assumes inv: "tcp_inv s" and p: "tc_sockets s i = Some p" and c: "closed i p s s'" and rest: "limits_ok s'" "value_ok s'"
  shows "tcp_inv s'" "keeps R W s s'"
proof -
  note c' = c [unfolded closed_def]
  have "tables_ok s'"
    by (rule tables_del [OF inv [unfolded tcp_inv_def] p]) (use c' in \<open>simp_all add: no_timer_def\<close>)
  moreover have "contexts_ok s'"
    unfolding contexts_ok_def
  proof (intro conjI allI impI)
    have ctx: "contexts_ok s" by (rule inv_parts(9) [OF inv])
    then show "dom (tc_contexts s') \<subseteq> dom (tc_sockets s')" using c' by (auto simp: contexts_ok_def)
    fix j x
    assume x: "tc_contexts s' j = Some x \<and> x \<noteq> 0"
    with c' have j: "j \<noteq> i" "tc_contexts s j = Some x" by (auto split: if_splits)
    have live: "x \<in> tc_live_contexts s" "\<And>j'. tc_contexts s j' = Some x \<Longrightarrow> j' = j"
      using ctx x j(2) unfolding contexts_ok_def by blast+
    have "tc_contexts s i \<noteq> Some x" using live(2) [of i] j(1) by auto
    then show "x \<in> tc_live_contexts s'" using c' live(1) by (auto split: option.splits)
    show "j' = j" if "tc_contexts s' j' = Some x" for j'
    proof -
      have "tc_contexts s j' = Some x" using that c' by (auto split: if_splits)
      then show ?thesis by (rule live(2))
    qed
  qed
  moreover have sub: "timers_ok s' \<and> timers_live {} s'"
  proof (rule no_timer_ok [OF inv_parts(7,8) [OF inv]])
    show "no_timer i s s'" using c' by blast
    show "dom (tc_sockets s) - {i} \<subseteq> dom (tc_sockets s')" using c' by auto
    show "\<And>j. j \<noteq> i \<Longrightarrow> tc_connections s' j = tc_connections s j" using c' by simp
  qed
  ultimately show "tcp_inv s'" using rest by (simp add: tcp_inv_def tcp_invx_def)
  show "keeps R W s s'" by (rule keepsI) (use c' in auto)
qed

lemma closeSocket_spec:
  assumes k: "kernel_ok os pending" and inv: "tcp_inv s"
  obtains "tc_sockets s i = None" "closeSocket os i s = Some s"
  | p s' where "tc_sockets s i = Some p" "closeSocket os i s = Some s'" "closed i p s s'" "fine pending R W s s'"
proof (cases "tc_sockets s i")
  case None
  have "tc_connections s i = None" "tc_contexts s i = None"
    using inv_parts(6,9) [OF inv] None by (auto simp: tables_ok_def contexts_ok_def)
  moreover have "tc_socket_timer s i = None"
    using timers_okD(3) [OF inv_parts(7) [OF inv], of i] None by (cases "tc_socket_timer s i") auto
  ultimately have "closeSocket os i s = Some s" using None by (simp add: closeSocket_def removeSocketTimer_def)
  with None show thesis by (rule that(1))
next
  case (Some p)
  obtain h ts where t: "removeSocketTimer i s = Some (s\<lparr>tc_socket_timer := (tc_socket_timer s)(i := None), tc_timer_socket := ts, io_timers := h\<rparr>)"
    "no_timer i s (s\<lparr>tc_socket_timer := (tc_socket_timer s)(i := None), tc_timer_socket := ts, io_timers := h\<rparr>)"
    by (rule removeSocketTimer_spec [OF inv_parts(3) [OF inv]])
  let ?s1 = "s\<lparr>tc_socket_timer := (tc_socket_timer s)(i := None), tc_timer_socket := ts, io_timers := h\<rparr>"
  let ?conns = "case tc_connections s i of None \<Rightarrow> tc_conns s | Some c \<Rightarrow> (tc_conns s)(c := None)"
  let ?s2 = "?s1\<lparr>tc_conns := ?conns, tc_connections := (tc_connections s)(i := None)\<rparr>"
  obtain d where d: "io_devices s p = Some d" "device_ok i d" by (rule socket_device [OF inv [unfolded tcp_inv_def] Some])
  have 2: "(case tc_connections ?s1 i of
             None \<Rightarrow> Some ?s1
           | Some c \<Rightarrow> do {
               s \<leftarrow> delete_connection c ?s1;
               Some (s\<lparr>tc_connections := (tc_connections s)(i := None)\<rparr>) }) = Some ?s2"
  proof (cases "tc_connections s i")
    case None
    then show ?thesis by (simp add: fun_upd_idem)
  next
    case (Some c)
    obtain kk where "tc_conns s c = Some kk" using connection_parts [OF inv [unfolded tcp_inv_def] Some] by metis
    with Some show ?thesis by (simp add: delete_connection_def)
  qed
  have "io_devices ?s2 p = Some d" using d(1) by simp
  then obtain e w where 3: "delete_socket os p ?s2 = Some (called e w ?s2\<lparr>io_devices := (io_devices ?s2)(p := None),
        io_removed := (if dv_attached d then insert p (io_removed ?s2) else io_removed ?s2)\<rparr>)" "pending w \<le> pending (io_world ?s2)"
    by (rule delete_socket_spec [OF k])
  let ?s3 = "called e w ?s2\<lparr>io_devices := (io_devices s)(p := None), io_removed := insert p (io_removed s), tc_sockets := (tc_sockets s)(i := None)\<rparr>"
  let ?live = "case tc_contexts s i of None \<Rightarrow> tc_live_contexts s | Some x \<Rightarrow> tc_live_contexts s - ({x} - {0})"
  let ?s4 = "?s3\<lparr>tc_contexts := (tc_contexts s)(i := None), tc_live_contexts := ?live\<rparr>"
  have 4: "(case tc_contexts ?s3 i of
        None \<Rightarrow> Some ?s3
      | Some x \<Rightarrow> do {
          s \<leftarrow> delete_context x ?s3;
          Some (s\<lparr>tc_contexts := (tc_contexts s)(i := None)\<rparr>) }) = Some ?s4"
  proof (cases "tc_contexts s i")
    case None
    then show ?thesis by (simp add: fun_upd_idem)
  next
    case (Some x)
    then show ?thesis using inv_parts(9) [OF inv] by (cases "x = 0") (auto simp: delete_context_def contexts_ok_def)
  qed
  have "closeSocket os i s = Some ?s4"
    using t(1) 2 3(1) 4 Some d(2) by (simp add: closeSocket_def device_ok_def)
  moreover have "closed i p s ?s4" using t(2) by (cases "tc_socket_timer s i") (auto simp: closed_def no_timer_def)
  moreover from this have "fine pending R W s ?s4"
    using closed_inv(1) [OF inv Some, of ?s4] closed_inv(2) [OF inv Some, where s' = ?s4 and R = R and W = W] inv_parts(1,2) [OF inv] 3(2)
    by (simp add: fine_def limits_ok_def value_ok_def)
  ultimately show thesis using that(2) Some by blast
qed

lemma closeSocket_fine:
  assumes "kernel_ok os pending" "tcp_inv s"
  shows "\<exists>s'. closeSocket os i s = Some s' \<and> fine pending R W s s'"
  by (rule closeSocket_spec [where i = i and R = R and W = W, OF assms]) (use assms(2) in auto)

section \<open>The destructor\<close>

lemma restrict_map_all: "m |` UNIV = m"
  by (rule ext) (simp add: restrict_map_def)

lemma delete_connections_ok:
  "distinct cs \<Longrightarrow> set cs \<subseteq> dom (tc_conns s) \<Longrightarrow>
     delete_connections cs s = Some (s\<lparr>tc_conns := tc_conns s |` (- set cs)\<rparr>)"
proof (induction cs arbitrary: s)
  case (Cons c cs)
  let ?s = "s\<lparr>tc_conns := (tc_conns s)(c := None)\<rparr>"
  have "delete_connections cs ?s = Some (?s\<lparr>tc_conns := tc_conns ?s |` (- set cs)\<rparr>)" by (rule Cons.IH) (use Cons.prems in auto)
  moreover have "(tc_conns s)(c := None) |` (- set cs) = tc_conns s |` (- set (c # cs))" by (auto simp: restrict_map_def)
  ultimately show ?case using Cons.prems(2) by (auto simp: delete_connection_def)
qed (simp add: restrict_map_all)

lemma delete_contexts_ok:
  "distinct (filter (\<lambda>x. x \<noteq> 0) xs) \<Longrightarrow> set xs - {0} \<subseteq> tc_live_contexts s \<Longrightarrow>
     delete_contexts xs s = Some (s\<lparr>tc_live_contexts := tc_live_contexts s - (set xs - {0})\<rparr>)"
proof (induction xs arbitrary: s)
  case (Cons x xs)
  show ?case
  proof (cases "x = 0")
    case True
    then show ?thesis using Cons.IH [of s] Cons.prems by (simp add: delete_context_def)
  next
    case False
    let ?s = "s\<lparr>tc_live_contexts := tc_live_contexts s - {x}\<rparr>"
    have "delete_contexts xs ?s = Some (?s\<lparr>tc_live_contexts := tc_live_contexts ?s - (set xs - {0})\<rparr>)"
      by (rule Cons.IH) (use Cons.prems False in auto)
    moreover have "tc_live_contexts s - {x} - (set xs - {0}) = tc_live_contexts s - (set (x # xs) - {0})" using False by auto
    ultimately show ?thesis using Cons.prems(2) False by (auto simp: delete_context_def)
  qed
qed simp

lemma delete_sockets_ok:
  assumes k: "kernel_ok os pending"
  shows "distinct ps \<Longrightarrow> set ps \<subseteq> dom (io_devices s) \<Longrightarrow> \<exists>s'. delete_sockets os ps s = Some s' \<and>
     io_devices s' = io_devices s |` (- set ps) \<and> tc_conns s' = tc_conns s \<and> tc_live_contexts s' = tc_live_contexts s"
proof (induction ps arbitrary: s)
  case (Cons p ps)
  then obtain d where d: "io_devices s p = Some d" by auto
  obtain e w where 1: "delete_socket os p s = Some (called e w s\<lparr>io_devices := (io_devices s)(p := None),
        io_removed := (if dv_attached d then insert p (io_removed s) else io_removed s)\<rparr>)"
    by (rule delete_socket_spec [OF k d])
  let ?s = "called e w s\<lparr>io_devices := (io_devices s)(p := None),
        io_removed := (if dv_attached d then insert p (io_removed s) else io_removed s)\<rparr>"
  have "\<exists>s'. delete_sockets os ps ?s = Some s' \<and> io_devices s' = io_devices ?s |` (- set ps) \<and> tc_conns s' = tc_conns ?s \<and>
      tc_live_contexts s' = tc_live_contexts ?s" by (rule Cons.IH) (use Cons.prems in auto)
  moreover have "(io_devices s)(p := None) |` (- set ps) = io_devices s |` (- set (p # ps))" by (auto simp: restrict_map_def)
  ultimately show ?case using 1 by auto
qed (simp add: restrict_map_all)

lemma tcp_delete_spec:
  assumes k: "kernel_ok os pending" and inv: "tcp_inv s" and cs: "distinct cs" "set cs = ran (tc_connections s)"
    and ps: "distinct ps" "set ps = ran (tc_sockets s)"
    and xs: "distinct (filter (\<lambda>x. x \<noteq> 0) xs)" "set xs = ran (tc_contexts s)"
  shows "\<exists>s'. tcp_delete os cs ps xs s = Some s' \<and> tc_conns s' = Map.empty \<and> io_devices s' = Map.empty \<and>
    tc_live_contexts s' = tc_live_contexts s - (ran (tc_contexts s) - {0})"
proof -
  have t: "dom (io_devices s) = ran (tc_sockets s)" "dom (tc_conns s) = ran (tc_connections s)"
    using inv_parts(6) [OF inv] by (simp_all add: tables_ok_def)
  have x: "set xs - {0} \<subseteq> tc_live_contexts s" using inv_parts(9) [OF inv] xs(2) by (auto simp: contexts_ok_def ran_def)
  let ?s = "s\<lparr>tc_conns := tc_conns s |` (- set cs)\<rparr>"
  have none: "m |` (- dom m) = Map.empty" for m :: "nat \<rightharpoonup> 'b" by (auto simp: restrict_map_def)
  have 1: "delete_connections cs s = Some ?s" by (rule delete_connections_ok [OF cs(1)]) (use cs(2) t in simp)
  have ps': "set ps \<subseteq> dom (io_devices ?s)" using ps(2) t by simp
  obtain s2 where 2: "delete_sockets os ps ?s = Some s2" "io_devices s2 = io_devices s |` (- set ps)" "tc_conns s2 = tc_conns s |` (- set cs)"
    "tc_live_contexts s2 = tc_live_contexts s"
    using delete_sockets_ok [OF k ps(1) ps'] by auto
  have "delete_contexts xs s2 = Some (s2\<lparr>tc_live_contexts := tc_live_contexts s2 - (set xs - {0})\<rparr>)"
    by (rule delete_contexts_ok [OF xs(1)]) (use x 2(4) in simp)
  then show ?thesis using 1 2 none [of "tc_conns s"] none [of "io_devices s"] cs(2) ps(2) xs(2) t by (simp add: tcp_delete_def)
qed

end
