(* ===== verification/TcpSend.thy ===== *)
theory TcpSend
  imports TcpClose
begin

text \<open>
  Sending: what \<open>sendMessage\<close> does on every outcome of the \<open>send\<close> call, and that it keeps the
  invariant; the contract of the application's callbacks.
\<close>

section \<open>The contract of the application\<close>

text \<open>
  When a callback runs, its socket is in the tables. It may use the operations of the service as it
  likes, with one exception each: the callback for a new connection leaves the listening socket
  alone, and the callback for received data may close its connection but not exchange it.
\<close>

fun app_pre :: "app_call \<Rightarrow> 'w tcp \<Rightarrow> bool" where
  "app_pre (NewConnection l i) s \<longleftrightarrow> tc_connections s i \<noteq> None"
| "app_pre (RecvMessage i c) s \<longleftrightarrow> tc_connections s i = Some c"
| "app_pre (PeerClose i) s \<longleftrightarrow> tc_connections s i \<noteq> None"
| "app_pre (ErrorOccurred i code) s \<longleftrightarrow> tc_connections s i \<noteq> None"
| "app_pre (SendCompleted n i) s \<longleftrightarrow> tc_connections s i \<noteq> None"
| "app_pre (TimerFired n t) s \<longleftrightarrow> True"

fun app_post :: "app_call \<Rightarrow> 'w tcp \<Rightarrow> 'w tcp \<Rightarrow> bool" where
  "app_post (NewConnection l i) s s' \<longleftrightarrow> (l \<noteq> i \<longrightarrow>
     tc_sockets s' l = tc_sockets s l \<and> tc_connections s' l = tc_connections s l \<and> tc_socket_timer s' l = tc_socket_timer s l \<and>
     (\<forall>p. tc_sockets s l = Some p \<longrightarrow> io_devices s' p = io_devices s p))"
| "app_post (RecvMessage i c) s s' \<longleftrightarrow> tc_connections s' i = None \<or> tc_connections s' i = Some c"
| "app_post _ s s' \<longleftrightarrow> True"

definition good_app :: "('w \<Rightarrow> nat) \<Rightarrow> 'w application \<Rightarrow> bool" where
  "good_app pending app \<longleftrightarrow> (\<forall>e s. tcp_inv s \<and> app_pre e s \<longrightarrow>
     (\<exists>s'. app e s = Some s' \<and> fine pending {} {} s s' \<and> app_post e s s'))"

lemma good_appD:
  "good_app pending app \<Longrightarrow> tcp_inv s \<Longrightarrow> app_pre e s \<Longrightarrow>
     \<exists>s'. app e s = Some s' \<and> fine pending {} {} s s' \<and> app_post e s s'"
  unfolding good_app_def by blast

lemma app_if_fine:
  assumes "good_app pending app" "tcp_inv s" "b \<Longrightarrow> app_pre e s"
  obtains s' where "app_if b app e s = Some s'" "fine pending {} {} s s'" "b \<Longrightarrow> app_post e s s'" "\<not> b \<Longrightarrow> s' = s"
  using assms good_appD [OF assms(1,2), of e] by (cases b) (auto simp: app_if_def)

lemma complete_fine:
  assumes "kernel_ok os pending" "cb = SendCompleteClose \<or> good_app pending app" "tcp_inv s" "tc_connections s i \<noteq> None"
  shows "\<exists>s'. complete os app cb i s = Some s' \<and> fine pending {} {} s s'"
proof (cases cb)
  case SendCompleteClose
  then show ?thesis using closeSocket_fine [OF assms(1,3)] by (simp add: complete_def)
next
  case (SendCompleteUser n)
  have "\<exists>s'. app (SendCompleted n i) s = Some s' \<and> fine pending {} {} s s'"
    using good_appD [OF _ assms(3), of pending app "SendCompleted n i"] assms(2,4) SendCompleteUser by auto
  with SendCompleteUser show ?thesis by (simp add: complete_def)
qed

section \<open>A connection changes\<close>

definition conn_at :: "'w tcp \<Rightarrow> int \<Rightarrow> nat \<Rightarrow> nat \<Rightarrow> device_cb device \<Rightarrow> connection \<Rightarrow> bool" where
  "conn_at s i c p d k \<longleftrightarrow> tc_connections s i = Some c \<and> tc_sockets s i = Some p \<and> io_devices s p = Some d \<and> device_ok i d \<and>
     tc_conns s c = Some k \<and> cn_socket k = p \<and> conn_state (tc_socket_timer s i) d k"

lemma conn_atE:
  assumes "tcp_inv s" "tc_connections s i = Some c"
  obtains p d k where "conn_at s i c p d k"
  using connection_parts [OF assms(1) [unfolded tcp_inv_def] assms(2)] assms(2) unfolding conn_at_def by metis

lemma conn_update_fine:
  assumes inv: "tcp_inv s" and at: "conn_at s i c p d k"
    and s': "s' = called e w (upd_conn c k' (upd_socket p d' s))" "pending w \<le> pending (io_world s)"
    and new: "device_ok i d'" "cn_socket k' = p" "conn_state (tc_socket_timer s i) d' k'"
    and cbs: "p \<in> R \<or> dv_read d = None \<or> dv_read d' \<noteq> None" "p \<in> W \<or> dv_write d = None \<or> dv_write d' \<noteq> None"
  shows "fine pending R W s s'" "conn_at s' i c p d' k'"
proof -
  let ?s = "upd_conn c k' (upd_socket p d' s)"
  have "tcp_invx {} ?s"
    by (rule tcp_invx_conn [OF inv [unfolded tcp_inv_def] _ _ new]) (use at in \<open>simp_all add: conn_at_def\<close>)
  then have "tcp_invx {} s'"
    by (rule tcp_invx_same)
      (use inv_parts(2) [OF inv] in \<open>simp_all add: s'(1) tables_def misc_def value_ok_def upd_conn_def upd_socket_def\<close>)
  moreover have "keeps R W s s'"
    by (rule keeps_update [where p = p and d = d and d' = d'])
      (use at s'(1) cbs in \<open>auto simp: conn_at_def upd_conn_def upd_socket_def\<close>)
  ultimately show "fine pending R W s s'" using s' by (simp add: fine_def tcp_inv_def)
  show "conn_at s' i c p d' k'"
    using at new s'(1) by (simp add: conn_at_def upd_conn_def upd_socket_def)
qed

lemma upd_socket_same: "conn_at s i c p d k \<Longrightarrow> upd_conn c k' (upd_socket p d s) = upd_conn c k' s"
  by (simp add: conn_at_def upd_conn_def upd_socket_def)

lemma set_conn_at: "conn_at s i c p d k \<Longrightarrow> set_conn c f s = Some (upd_conn c (f k) s)"
  by (simp add: conn_at_def set_conn_def upd_conn_def)

text \<open>A timer is started for a socket that has none.\<close>

lemma timer_started:
  assumes inv: "tcp_inv s" and p: "tc_sockets s i = Some p" "tc_socket_timer s i = None"
    and s': "tc_sockets s' = tc_sockets s" "tc_connections s' = tc_connections s" "io_devices s' = (io_devices s)(p \<mapsto> d')"
      "(case tc_connections s i of None \<Rightarrow> tc_conns s' = tc_conns s | Some c \<Rightarrow> \<exists>k'. tc_conns s' = (tc_conns s)(c \<mapsto> k'))"
      "tc_contexts s' = tc_contexts s" "tc_live_contexts s' = tc_live_contexts s" "limits_ok s'" "value_ok s'"
    and t: "tc_socket_timer s' = (tc_socket_timer s)(i \<mapsto> t)" "tc_timer_socket s' = (tc_timer_socket s)(t \<mapsto> i)"
      "th_inv (io_timers s')" "t \<noteq> -1 \<longrightarrow> timers_of (io_timers s) t = None"
      "timers_of (io_timers s') = (if t = -1 then timers_of (io_timers s) else (timers_of (io_timers s))(t \<mapsto> tm))" "t_call_times tm = 1"
      "timer_cb_ok (tc_connections s i) (t_cb tm)"
    and new: "socket_ok s' i p"
  shows "tcp_inv s'"
proof -
  have "tables_ok s'"
    by (rule tables_at [OF inv [unfolded tcp_inv_def] p(1) s'(1-4) _ new]) (simp add: t(1))
  moreover have "contexts_ok s'" by (rule contexts_fresh [OF inv_parts(9) [OF inv] s'(5,6)]) (simp add: s'(1))
  moreover have "timers_ok s' \<and> timers_live {} s'"
    by (rule timers_add [OF inv_parts(7,8) [OF inv] p(2) _ t(1,2) _ t(3) _ t(5,6)]) (use p s'(1,2) t(4,7) in auto)
  ultimately show ?thesis using s'(7,8) by (simp add: tcp_inv_def tcp_invx_def)
qed

section \<open>Failing to send\<close>

definition failed :: "('w \<Rightarrow> nat) \<Rightarrow> int \<Rightarrow> nat \<Rightarrow> nat \<Rightarrow> device_cb device \<Rightarrow> connection \<Rightarrow> int \<Rightarrow> 'w tcp \<Rightarrow> 'w tcp \<Rightarrow> bool" where
  "failed pending i c p d k code s s' \<longleftrightarrow> fine pending {} {} s s' \<and> tc_connections s' = tc_connections s \<and>
     conn_at s' i c p d (k\<lparr>cn_status := PENDING_ERROR, cn_error := code\<rparr>) \<and> tc_socket_timer s' i \<noteq> None \<and>
     (\<forall>t. tc_socket_timer s' i = Some t \<and> t \<noteq> -1 \<longrightarrow>
        (\<exists>tm. timers_of (io_timers s') t = Some tm \<and> t_cb tm = OnSendMessageError \<and> t_call_times tm = 1))"

lemma send_failed_spec:
  assumes k: "kernel_ok os pending" and inv: "tcp_inv s" and at: "conn_at s i c p d kk" and st: "cn_status kk = CONNECTED"
  obtains s' where "send_failed os c code s = Some (False, s')" "failed pending i c p d kk code s s'"
proof -
  let ?k = "kk\<lparr>cn_status := PENDING_ERROR, cn_error := code\<rparr>"
  let ?s1 = "upd_conn c ?k s"
  have e: "setError c code s = Some ?s1" using set_conn_at [OF at] by (simp add: setError_def)
  have at': "tc_connections s i = Some c" "tc_sockets s i = Some p" "io_devices s p = Some d" "device_ok i d" "cn_socket kk = p"
    "conn_state (tc_socket_timer s i) d kk" "dv_id d = i" using at by (simp_all add: conn_at_def device_ok_def)
  have no: "tc_socket_timer s i = None" using at'(6) st by (simp add: conn_state_def)
  have cs: "conn_state x d ?k" for x using at'(6) st by (auto simp: conn_state_def)
  have "th_inv (io_timers ?s1)" using inv_parts(3) [OF inv] by (simp add: upd_conn_def)
  then obtain t tm h e' w' where a: "addSocketTimer os i 0 OnSendMessageError ?s1 =
      Some (called e' w' ?s1\<lparr>io_timers := h, tc_socket_timer := (tc_socket_timer ?s1)(i \<mapsto> t), tc_timer_socket := (tc_timer_socket ?s1)(t \<mapsto> i)\<rparr>)"
    "th_inv h" "t \<noteq> -1 \<longrightarrow> timers_of (io_timers ?s1) t = None"
    "timers_of h = (if t = -1 then timers_of (io_timers ?s1) else (timers_of (io_timers ?s1))(t \<mapsto> tm))"
    "t_call_times tm = 1" "t_cb tm = OnSendMessageError" "pending w' \<le> pending (io_world ?s1)"
    by (rule addSocketTimer_spec [OF k])
  let ?s2 = "called e' w' ?s1\<lparr>io_timers := h, tc_socket_timer := (tc_socket_timer ?s1)(i \<mapsto> t), tc_timer_socket := (tc_timer_socket ?s1)(t \<mapsto> i)\<rparr>"
  have at2: "conn_at ?s2 i c p d ?k" using at'(1-5) cs by (simp add: conn_at_def upd_conn_def)
  then have "socket_ok ?s2 i p" by (auto simp: conn_at_def socket_ok_def)
  then have "tcp_inv ?s2"
    using at'(1-3) no a(2-6) inv_parts(1,2) [OF inv]
    by (intro timer_started [OF inv at'(2) no, where t = t and tm = tm and d' = d])
      (auto simp: upd_conn_def limits_ok_def value_ok_def)
  moreover have "keeps {} {} s ?s2" by (rule keeps_same) (simp_all add: upd_conn_def)
  ultimately have "fine pending {} {} s ?s2" using a(7) by (simp add: fine_def upd_conn_def)
  with at2 a(4-6) have "failed pending i c p d kk code s ?s2" by (simp add: failed_def upd_conn_def)
  moreover have "send_failed os c code s = Some (False, ?s2)"
    using e a(1) at'(3,5,7) by (simp add: send_failed_def upd_conn_def)
  ultimately show thesis by (intro that)
qed

section \<open>Sending\<close>

lemma tcp_send_spec:
  assumes k: "kernel_ok os pending" and d: "io_devices s p = Some d"
  obtains r e w where "sy_send os (dv_fd d) bs (io_errno s, io_world s) = (r, e, w)"
    "tcp_send os p bs s = Some (r, called e w s)" "-1 \<le> r" "r \<le> int (length bs)" "pending w \<le> pending (io_world s)"
proof -
  obtain r e w where r: "syscall (sy_send os (dv_fd d) bs) s = (r, called e w s)"
      "sy_send os (dv_fd d) bs (io_errno s, io_world s) = (r, e, w)" "pending w \<le> pending (io_world s)"
    by (rule syscall_quiet [OF kernel_quiet(11) [OF k]])
  moreover have b: "-1 \<le> r" "r \<le> int (length bs)" "r < 2 ^ 31" using k r(2) unfolding kernel_ok_def transfer_ok_def by blast+
  ultimately show thesis using d int32_small [of r] by (intro that) (simp_all add: tcp_send_def)
qed

lemma called_conn_at:
  assumes inv: "tcp_inv s" and at: "conn_at s i c p d k" and w: "pending w \<le> pending (io_world s)"
  shows "fine pending R W s (called e w s)" "conn_at (called e w s) i c p d k"
proof -
  show "fine pending R W s (called e w s)"
    using inv_parts(2) [OF inv] w by (intro fine_same [OF inv]) (simp_all add: tables_def misc_def value_ok_def)
  show "conn_at (called e w s) i c p d k" using at by (simp add: conn_at_def)
qed

text \<open>
  \<open>queued\<close>: the message is accepted, \<open>q\<close> are the bytes waiting in the write buffer afterwards.
\<close>

definition queued :: "('w \<Rightarrow> nat) \<Rightarrow> int \<Rightarrow> nat \<Rightarrow> nat \<Rightarrow> device_cb device \<Rightarrow> connection \<Rightarrow> send_cb option \<Rightarrow> bytes \<Rightarrow>
    'w tcp \<Rightarrow> 'w tcp \<Rightarrow> bool" where
  "queued pending i c p d k cb q s s' \<longleftrightarrow> q \<noteq> [] \<and> fine pending {} {} s s' \<and> tc_connections s' = tc_connections s \<and>
     (\<exists>b. db_data b = q \<and> conn_at s' i c p (d\<lparr>dv_write := Some OnSocketWrite\<rparr>) (k\<lparr>cn_write := b, cn_complete := cb\<rparr>))"

lemma buffer_message_spec:
  assumes k: "kernel_ok os pending" and inv: "tcp_inv s" and at: "conn_at s i c p d kk" and st: "cn_status kk = CONNECTED"
    and room: "db_readableBytes (cn_write kk) + length bs \<le> 2 ^ 61" and ne: "db_data (cn_write kk) @ bs \<noteq> []"
  obtains s' where "(do { s \<leftarrow> buffer_message c bs cb s;
      if db_data (cn_write kk) = [] then setWriteCallback os p (Some OnSocketWrite) s else Some s }) = Some s'"
    "queued pending i c p d kk cb (db_data (cn_write kk) @ bs) s s'"
proof -
  have at': "io_devices s p = Some d" "tc_conns s c = Some kk" "device_ok i d" "cn_socket kk = p" "conn_state (tc_socket_timer s i) d kk"
    using at by (simp_all add: conn_at_def)
  then have buf: "buf_ok (cn_write kk)" by (simp add: conn_state_def)
  obtain b where b: "db_append (cn_write kk) bs = Some b" "buf_ok b" "db_data b = db_data (cn_write kk) @ bs"
    by (rule buf_ok_append [OF buf room])
  let ?k = "kk\<lparr>cn_write := b, cn_complete := cb\<rparr>"
  let ?d = "d\<lparr>dv_write := Some OnSocketWrite\<rparr>"
  have m: "buffer_message c bs cb s = Some (upd_conn c ?k s)"
    using b(1) at'(2) by (simp add: buffer_message_def set_write_buffer_def setSendCompleteCallback_def set_conn_def upd_conn_def)
  have cs: "conn_state (tc_socket_timer s i) ?d ?k" "device_ok i ?d"
    using at'(3,5) st b ne by (auto simp: conn_state_def device_ok_def split: if_splits)
  have "\<exists>e w. (if db_data (cn_write kk) = [] then setWriteCallback os p (Some OnSocketWrite) (upd_conn c ?k s) else Some (upd_conn c ?k s)) =
      Some (called e w (upd_conn c ?k (upd_socket p ?d s))) \<and> pending w \<le> pending (io_world s)"
  proof (cases "db_data (cn_write kk) = []")
    case True
    have "io_devices (upd_conn c ?k s) p = Some d" using at'(1) by (simp add: upd_conn_def)
    then obtain e w where "setWriteCallback os p (Some OnSocketWrite) (upd_conn c ?k s) =
        Some (called e w (upd_conn c ?k s)\<lparr>io_devices := (io_devices (upd_conn c ?k s))(p \<mapsto> ?d)\<rparr>)"
      "pending w \<le> pending (io_world (upd_conn c ?k s))" by (rule setWriteCallback_spec [OF k])
    then show ?thesis using True by (intro exI [of _ e] exI [of _ w]) (simp add: upd_conn_def upd_socket_def)
  next
    case False
    then have "?d = d" using at'(5) st by (auto simp: conn_state_def split: if_splits)
    then have "upd_socket p ?d s = s" using at'(1) by (simp add: upd_socket_def)
    then have "Some (upd_conn c ?k s) = Some (called (io_errno s) (io_world s) (upd_conn c ?k (upd_socket p ?d s)))"
      by (simp add: upd_conn_def)
    then show ?thesis using False by (metis order_refl)
  qed
  then obtain e w where s': "(if db_data (cn_write kk) = [] then setWriteCallback os p (Some OnSocketWrite) (upd_conn c ?k s) else Some (upd_conn c ?k s)) =
      Some (called e w (upd_conn c ?k (upd_socket p ?d s)))" "pending w \<le> pending (io_world s)" by blast
  have "fine pending {} {} s (called e w (upd_conn c ?k (upd_socket p ?d s)))" "conn_at (called e w (upd_conn c ?k (upd_socket p ?d s))) i c p ?d ?k"
    by (rule conn_update_fine [OF inv at refl s'(2) cs(2) _ cs(1)]; use at'(4) in auto)+
  then have "queued pending i c p d kk cb (db_data (cn_write kk) @ bs) s (called e w (upd_conn c ?k (upd_socket p ?d s)))"
    using ne b(3) unfolding queued_def by (auto simp: upd_conn_def upd_socket_def)
  then show thesis using m s'(1) by (intro that) simp_all
qed

text \<open>
  The outcomes of sending on a connected socket: an error, marked and reported from a timer; the rest
  after \<open>n\<close> bytes waits in the buffer; all is sent and the completion callback runs at once.
\<close>

lemma send_connection_spec:
  assumes k: "kernel_ok os pending" and inv: "tcp_inv s" and at: "conn_at s i c p d kk" and st: "cn_status kk = CONNECTED"
    and small: "length bs < 2 ^ 62"
  obtains
    (error) s0 code s' where "send_connection os app c bs cb s = Some (False, s')" "failed pending i c p d kk code s0 s'"
      "s0 = s \<or> (\<exists>r e w. sy_send os (dv_fd d) bs (io_errno s, io_world s) = (r, e, w) \<and> s0 = called e w s \<and> db_data (cn_write kk) = [])"
      "fine pending {} {} s s0" "send_failed os c code s0 = Some (False, s')"
  | (buffered) s0 n s' where "send_connection os app c bs cb s = Some (True, s')"
      "queued pending i c p d kk cb (db_data (cn_write kk) @ drop n bs) s0 s'"
      "s0 = s \<and> n = 0 \<or> (\<exists>r e w. sy_send os (dv_fd d) bs (io_errno s, io_world s) = (r, e, w) \<and> s0 = called e w s \<and> n = nat r \<and> db_data (cn_write kk) = [])"
      "fine pending {} {} s s0" "(do { s \<leftarrow> buffer_message c (drop n bs) cb s0;
      if db_data (cn_write kk) = [] then setWriteCallback os p (Some OnSocketWrite) s else Some s }) = Some s'"
  | (sent) r e w where "db_data (cn_write kk) = []" "sy_send os (dv_fd d) bs (io_errno s, io_world s) = (r, e, w)"
      "length bs = nat r" "fine pending {} {} s (called e w s)"
      "send_connection os app c bs cb s = do {
         s \<leftarrow> (case cb of None \<Rightarrow> Some (called e w s) | Some cb \<Rightarrow> complete os app cb i (called e w s));
         Some (True, s) }"
proof -
  have at': "io_devices s p = Some d" "tc_conns s c = Some kk" "device_ok i d" "cn_socket kk = p" "conn_state (tc_socket_timer s i) d kk" "dv_id d = i"
    using at by (simp_all add: conn_at_def device_ok_def)
  then have buf: "buf_ok (cn_write kk)" by (simp add: conn_state_def)
  then have rd: "db_readableBytes (cn_write kk) \<le> 2 ^ 61" by (simp add: buf_ok_def)
  have max: "0 < tc_write_max s" "tc_write_max s \<le> 2 ^ 61" using inv_parts(1) [OF inv] by (simp_all add: limits_ok_def)
  have over: "\<not> write_overflow s1 n (cn_write kk) \<longleftrightarrow> n + db_readableBytes (cn_write kk) \<le> tc_write_max s"
    if "tc_write_max s1 = tc_write_max s" "n < 2 ^ 62" for s1 n
    using max rd that by (auto simp: write_overflow_def)
  show thesis
  proof (cases "db_readableBytes (cn_write kk) = 0")
    case False
    then have ne: "db_data (cn_write kk) \<noteq> []" using buf_empty [OF buf] by simp
    show thesis
    proof (cases "write_overflow s (length bs) (cn_write kk)")
      case True
      obtain s' where s': "send_failed os c ENOBUFS s = Some (False, s')" "failed pending i c p d kk ENOBUFS s s'"
        by (rule send_failed_spec [OF k inv at st])
      have "send_connection os app c bs cb s = Some (False, s')"
        using True False at'(2) st s'(1) by (simp add: send_connection_def)
      then show thesis by (rule error [OF _ s'(2)]) (use inv s'(1) in simp_all)
    next
      case fits: False
      have room: "db_readableBytes (cn_write kk) + length bs \<le> 2 ^ 61"
        using fits over [OF refl small] max by simp
      obtain s' where s': "(do { s \<leftarrow> buffer_message c bs cb s;
          if db_data (cn_write kk) = [] then setWriteCallback os p (Some OnSocketWrite) s else Some s }) = Some s'"
        "queued pending i c p d kk cb (db_data (cn_write kk) @ bs) s s'"
        by (rule buffer_message_spec [OF k inv at st room]) (use ne in auto)
      have "send_connection os app c bs cb s = Some (True, s')"
        using fits False at'(2) st s'(1) ne by (auto simp: send_connection_def bind_eq_Some_conv)
      then show thesis by (rule buffered [where n = 0 and ?s0.0 = s]) (use inv s' in simp_all)
    qed
  next
    case True
    then have e0: "db_data (cn_write kk) = []" using buf_empty [OF buf] by simp
    obtain r e w where r: "sy_send os (dv_fd d) bs (io_errno s, io_world s) = (r, e, w)"
      "tcp_send os p bs s = Some (r, called e w s)" "-1 \<le> r" "r \<le> int (length bs)" "pending w \<le> pending (io_world s)"
      by (rule tcp_send_spec [OF k at'(1)])
    let ?s = "called e w s"
    have s1: "fine pending {} {} s ?s" "conn_at ?s i c p d kk" by (rule called_conn_at [OF inv at r(5)])+
    have inv1: "tcp_inv ?s" using s1(1) by (simp add: fine_def)
    have n: "nat (max 0 r) = nat r" by simp
    have s0: "\<exists>r' e' w'. sy_send os (dv_fd d) bs (io_errno s, io_world s) = (r', e', w') \<and> ?s = called e' w' s \<and> db_data (cn_write kk) = []"
      using r(1) e0 by blast
    consider "r < 0" "e \<noteq> EAGAIN" | "\<not> (r < 0 \<and> e \<noteq> EAGAIN)" "nat r < length bs" | "\<not> (r < 0 \<and> e \<noteq> EAGAIN)" "nat r = length bs"
      using r(4) by linarith
    then show thesis
    proof cases
      case 1
      obtain s' where s': "send_failed os c e ?s = Some (False, s')" "failed pending i c p d kk e ?s s'"
        by (rule send_failed_spec [OF k inv1 s1(2) st])
      have "send_connection os app c bs cb s = Some (False, s')"
        using 1 True at'(2,4) st r(2) s'(1) by (simp add: send_connection_def)
      then show thesis by (rule error [OF _ s'(2)]) (use s0 s1(1) s'(1) in blast)+
    next
      case 2
      show thesis
      proof (cases "write_overflow ?s (length bs - nat r) (cn_write kk)")
        case over1: True
        obtain s' where s': "send_failed os c ENOBUFS ?s = Some (False, s')" "failed pending i c p d kk ENOBUFS ?s s'"
          by (rule send_failed_spec [OF k inv1 s1(2) st])
        have "send_connection os app c bs cb s = Some (False, s')"
          using 2 True at'(2,4) st r(2) s'(1) over1 n by (auto simp: send_connection_def Let_def)
        then show thesis by (rule error [OF _ s'(2)]) (use s0 s1(1) s'(1) in blast)+
      next
        case fits: False
        have room: "db_readableBytes (cn_write kk) + length (drop (nat r) bs) \<le> 2 ^ 61"
        proof -
          have "length bs - nat r < 2 ^ 62" using small by linarith
          from over [of ?s, OF _ this] fits max show ?thesis by simp
        qed
        obtain s' where s': "(do { s \<leftarrow> buffer_message c (drop (nat r) bs) cb ?s;
            if db_data (cn_write kk) = [] then setWriteCallback os p (Some OnSocketWrite) s else Some s }) = Some s'"
          "queued pending i c p d kk cb (db_data (cn_write kk) @ drop (nat r) bs) ?s s'"
          by (rule buffer_message_spec [OF k inv1 s1(2) st room]) (use 2 in auto)
        have "send_connection os app c bs cb s = Some (True, s')"
          using 2 fits True at'(2,4) st r(2) s'(1) e0 n by (auto simp: send_connection_def Let_def bind_eq_Some_conv)
        then show thesis by (rule buffered [where n = "nat r" and ?s0.0 = ?s]) (use s0 s1(1) s' r(1) in auto)
      qed
    next
      case 3
      have "send_connection os app c bs cb s = do {
         s \<leftarrow> (case cb of None \<Rightarrow> Some ?s | Some cb \<Rightarrow> complete os app cb i ?s); Some (True, s) }"
        using 3 True at' st r(2) n by (auto simp: send_connection_def Let_def)
      then show thesis by (rule sent [OF e0 r(1)  3(2) [symmetric] s1(1)])
    qed
  qed
qed

text \<open>
  The remaining operations and the callbacks of devices and timers keep the invariant, with every
  application that keeps to its contract.
\<close>

lemma tables_same:
  assumes "tables s' = tables s" "tc_socket_timer s' = tc_socket_timer s"
  shows "tables_ok s' = tables_ok s"
proof -
  have eq: "io_devices s' = io_devices s" "tc_conns s' = tc_conns s" "tc_sockets s' = tc_sockets s"
    "tc_connections s' = tc_connections s" using assms(1) by (simp_all add: tables_def)
  show ?thesis unfolding tables_ok_def socket_ok_def eq assms(2) ..
qed

section \<open>Sending messages\<close>

lemma send_connection_fine:
  assumes k: "kernel_ok os pending" and app: "cb \<in> {None, Some SendCompleteClose} \<or> good_app pending app" and inv: "tcp_inv s"
    and c: "tc_connections s i = Some c" and small: "length bs < 2 ^ 62"
  shows "\<exists>b s'. send_connection os app c bs cb s = Some (b, s') \<and> fine pending {} {} s s' \<and>
    (cb = None \<longrightarrow> tc_connections s' = tc_connections s)"
proof -
  obtain p d kk where at: "conn_at s i c p d kk" by (rule conn_atE [OF inv c])
  show ?thesis
  proof (cases "cn_status kk = CONNECTED")
    case False
    then have "send_connection os app c bs cb s = Some (False, s)" using at by (simp add: conn_at_def send_connection_def)
    with inv show ?thesis by auto
  next
    case True
    show ?thesis
    proof (rule send_connection_spec [where app = app and cb = cb, OF k inv at True small], goal_cases)
      case (1 s0 code s')
      then have "fine pending {} {} s s'" "tc_connections s' = tc_connections s"
        by (auto simp: failed_def intro: fine_trans)
      with 1 show ?thesis by blast
    next
      case (2 s0 n s')
      then have "fine pending {} {} s s'" "tc_connections s' = tc_connections s"
        by (auto simp: queued_def intro: fine_trans)
      with 2 show ?thesis by blast
    next
      case (3 r e w)
      show ?thesis
      proof (cases cb)
        case None
        with 3 show ?thesis by auto
      next
        case (Some f)
        have "tcp_inv (called e w s)" using 3(4) by (simp add: fine_def)
        then obtain s' where "complete os app f i (called e w s) = Some s'" "fine pending {} {} (called e w s) s'"
          using complete_fine [where app = app and s = "called e w s" and i = i and cb = f, OF k] app Some c by auto
        with 3 Some show ?thesis by (auto intro: fine_trans)
      qed
    qed
  qed
qed

lemma sendMessage_fine:
  assumes "kernel_ok os pending" "cb \<in> {None, Some SendCompleteClose} \<or> good_app pending app" "tcp_inv s" "length bs < 2 ^ 62"
  shows "\<exists>b s'. sendMessage os app i bs cb s = Some (b, s') \<and> fine pending {} {} s s'"
proof (cases "tc_connections s i")
  case None
  with assms(3) show ?thesis by (auto simp: sendMessage_def)
next
  case (Some c)
  then show ?thesis using send_connection_fine [OF assms(1-3) Some assms(4)] by (auto simp: sendMessage_def)
qed

lemma sendMessageThenClose_fine:
  assumes "kernel_ok os pending" "tcp_inv s" "length bs < 2 ^ 62"
  shows "\<exists>b s'. sendMessageThenClose os app i bs s = Some (b, s') \<and> fine pending {} {} s s'"
  unfolding sendMessageThenClose_def by (rule sendMessage_fine [OF assms(1) _ assms(2,3)]) simp

lemma broadcastMessage_fine:
  assumes "kernel_ok os pending" "length bs < 2 ^ 62"
  shows "tcp_inv s \<Longrightarrow> set ids \<subseteq> dom (tc_connections s) \<Longrightarrow>
    \<exists>s'. broadcastMessage os app ids bs s = Some s' \<and> fine pending {} {} s s' \<and> tc_connections s' = tc_connections s"
proof (induction ids arbitrary: s)
  case Nil
  then show ?case by simp
next
  case (Cons i ids)
  then obtain c where c: "tc_connections s i = Some c" by auto
  obtain b s1 where s1: "send_connection os app c bs None s = Some (b, s1)" "fine pending {} {} s s1" "tc_connections s1 = tc_connections s"
    using send_connection_fine [OF assms(1) _ Cons.prems(1) c assms(2), of None app] by auto
  obtain s' where "broadcastMessage os app ids bs s1 = Some s'" "fine pending {} {} s1 s'" "tc_connections s' = tc_connections s1"
    using Cons.IH [of s1] s1(2,3) Cons.prems(2) by (auto simp: fine_def)
  with s1 c show ?case by (auto intro: fine_trans)
qed

lemma setContext_fine:
  assumes inv: "tcp_inv s" and x: "x \<noteq> 0 \<Longrightarrow> x \<in> tc_live_contexts s \<and> (\<forall>j. tc_contexts s j = Some x \<longrightarrow> j = i)"
  shows "\<exists>b s'. setContext i x s = Some (b, s') \<and> fine pending R W s s' \<and> (b \<longrightarrow> getContext i s' = x)"
proof (cases "tc_sockets s i")
  case None
  with inv show ?thesis by (auto simp: setContext_def)
next
  case (Some p)
  have ctx: "contexts_ok s" by (rule inv_parts(9) [OF inv])
  have fine: "fine pending R W s (s\<lparr>tc_live_contexts := L, tc_contexts := (tc_contexts s)(i \<mapsto> x)\<rparr>)"
    if L: "L = tc_live_contexts s - D" "\<And>z j. z \<in> D \<Longrightarrow> tc_contexts s j = Some z \<Longrightarrow> j = i" "x \<notin> D" for L D
  proof -
    let ?s = "s\<lparr>tc_live_contexts := L, tc_contexts := (tc_contexts s)(i \<mapsto> x)\<rparr>"
    have "contexts_ok ?s"
      unfolding contexts_ok_def
    proof (intro conjI allI impI)
      show "dom (tc_contexts ?s) \<subseteq> dom (tc_sockets ?s)" using ctx Some by (auto simp: contexts_ok_def)
      fix j z
      assume z: "tc_contexts ?s j = Some z \<and> z \<noteq> 0"
      show "z \<in> tc_live_contexts ?s"
      proof (cases "j = i")
        case True
        with z x L show ?thesis by auto
      next
        case False
        with z have "tc_contexts s j = Some z" "z \<noteq> 0" by auto
        with ctx L(1) L(2) [of z j] False show ?thesis unfolding contexts_ok_def by auto
      qed
      show "j' = j" if j': "tc_contexts ?s j' = Some z" for j'
      proof (cases "j = i \<or> j' = i")
        case True
        with z j' x show ?thesis by (auto split: if_splits)
      next
        case False
        with z j' have "tc_contexts s j = Some z" "tc_contexts s j' = Some z" "z \<noteq> 0" by auto
        with ctx show ?thesis unfolding contexts_ok_def by blast
      qed
    qed
    moreover have "tables_ok ?s" using inv_parts(6) [OF inv] tables_same [of ?s s] by (simp add: tables_def)
    moreover have "timers_ok ?s \<and> timers_live {} ?s"
      by (rule timers_keep [OF inv_parts(7,8) [OF inv]]) (use timers_okD(3) [OF inv_parts(7) [OF inv]] in auto)
    ultimately have "tcp_inv ?s"
      using inv_parts(1,2) [OF inv] by (simp add: tcp_inv_def tcp_invx_def limits_ok_def value_ok_def)
    moreover have "keeps R W s ?s" by (rule keeps_same) simp_all
    ultimately show ?thesis by (simp add: fine_def)
  qed
  show ?thesis
  proof (cases "tc_contexts s i")
    case None
    have "fine pending R W s (s\<lparr>tc_live_contexts := tc_live_contexts s, tc_contexts := (tc_contexts s)(i \<mapsto> x)\<rparr>)"
      by (rule fine [where D = "{}"]) simp_all
    with None Some show ?thesis by (auto simp: setContext_def getContext_def)
  next
    case old: (Some y)
    show ?thesis
    proof (cases "y = x")
      case True
      with old Some inv show ?thesis by (auto simp: setContext_def getContext_def)
    next
      case False
      have y: "y \<noteq> 0 \<Longrightarrow> y \<in> tc_live_contexts s" "\<And>j. y \<noteq> 0 \<Longrightarrow> tc_contexts s j = Some y \<Longrightarrow> j = i"
        using ctx old unfolding contexts_ok_def by blast+
      have "fine pending R W s (s\<lparr>tc_live_contexts := tc_live_contexts s - ({y} - {0}), tc_contexts := (tc_contexts s)(i \<mapsto> x)\<rparr>)"
        by (rule fine [OF refl]) (use y False in auto)
      then show ?thesis
        using old Some False y(1) by (cases "y = 0") (auto simp: setContext_def getContext_def delete_context_def)
    qed
  qed
qed

end
