(* ===== verification/TcpTimers.thy ===== *)
theory TcpTimers
  imports TcpSend
begin

text \<open>The callbacks of timers keep the invariant, with every application that keeps to its contract.\<close>

section \<open>Callbacks of timers\<close>

lemma fire_unknown:
  assumes inv: "tcp_inv s" and h: "th_inv h" "timers_of h = (timers_of (io_timers s))(t := x)" and t: "tc_timer_socket s t = None"
  shows "tcp_inv (s\<lparr>io_timers := h\<rparr>)"
proof -
  let ?s = "s\<lparr>io_timers := h\<rparr>"
  note ok = inv_parts [OF inv]
  have "timers_ok ?s"
  proof (rule timers_okI)
    show "th_inv (io_timers ?s)" using h(1) by simp
    show "tc_socket_timer ?s j = Some u" if "tc_timer_socket ?s u = Some j" for u j
      using timers_okD(2) [OF ok(7)] that by simp
    show "j \<in> dom (tc_sockets ?s) \<and> (u \<noteq> -1 \<longrightarrow> tc_timer_socket ?s u = Some j)" if u: "tc_socket_timer ?s j = Some u" for u j
    proof -
      have v: "tc_socket_timer s j = Some u" using u by simp
      show ?thesis using timers_okD(3) [OF ok(7) v] timers_okD(4) [OF ok(7) v] by simp
    qed
  qed
  moreover have "timers_live {} ?s"
  proof (rule timers_liveI)
    fix u j
    assume u: "tc_timer_socket ?s u = Some j" "u \<noteq> -1"
    with t have "u \<noteq> t" by auto
    with timers_liveD [OF ok(8), of u j] u h(2)
    show "\<exists>tm. timers_of (io_timers ?s) u = Some tm \<and> t_call_times tm = 1 \<and> timer_cb_ok (tc_connections ?s j) (t_cb tm)" by simp
  qed
  moreover have "tables_ok ?s" using ok(6) tables_same [of ?s s] by (simp add: tables_def)
  moreover have "contexts_ok ?s" by (rule contexts_fresh [OF ok(9)]) simp_all
  ultimately show ?thesis using ok(1,2) by (simp add: tcp_inv_def tcp_invx_def limits_ok_def value_ok_def)
qed

text \<open>The state in which a timer callback of the service starts to work.\<close>

definition untimed :: "int \<Rightarrow> int \<Rightarrow> timer_cb timer_heap \<Rightarrow> 'w tcp \<Rightarrow> 'w tcp" where
  "untimed t i h s = s\<lparr>io_timers := h, tc_timer_socket := (tc_timer_socket s)(t := None), tc_socket_timer := (tc_socket_timer s)(i := None)\<rparr>"

lemma take_timer_cases:
  "tc_timer_socket s t = None \<Longrightarrow> take_timer t (s\<lparr>io_timers := h\<rparr>) = (None, s\<lparr>io_timers := h\<rparr>)"
  "tc_timer_socket s t = Some i \<Longrightarrow> take_timer t (s\<lparr>io_timers := h\<rparr>) = (Some i, untimed t i h s)"
  by (simp_all add: take_timer_def untimed_def)

lemma untimed_sel [simp]:
  "io_devices (untimed t i h s) = io_devices s" "tc_sockets (untimed t i h s) = tc_sockets s"
  "tc_connections (untimed t i h s) = tc_connections s" "tc_conns (untimed t i h s) = tc_conns s"
  "tc_socket_timer (untimed t i h s) = (tc_socket_timer s)(i := None)" "io_removed (untimed t i h s) = io_removed s"
  "io_world (untimed t i h s) = io_world s" "io_errno (untimed t i h s) = io_errno s" "tc_error_cb (untimed t i h s) = tc_error_cb s"
  by (simp_all add: untimed_def)

lemma untimed_ok:
  assumes inv: "tcp_inv s" and h: "th_inv h" "timers_of h = (timers_of (io_timers s))(t := x)" and i: "tc_timer_socket s t = Some i"
  shows "timers_ok (untimed t i h s) \<and> timers_live {} (untimed t i h s)" "contexts_ok (untimed t i h s)"
    "limits_ok (untimed t i h s)" "value_ok (untimed t i h s)" "tc_sockets s i \<noteq> None"
proof -
  note ok = inv_parts [OF inv]
  have ti: "tc_socket_timer s i = Some t" by (rule timers_okD(2) [OF ok(7) i])
  show "timers_ok (untimed t i h s) \<and> timers_live {} (untimed t i h s)"
    by (rule timers_del [OF ok(7,8) ti]) (use h in \<open>simp_all add: untimed_def\<close>)
  show "contexts_ok (untimed t i h s)" by (rule contexts_fresh [OF ok(9)]) (simp_all add: untimed_def)
  show "limits_ok (untimed t i h s)" "value_ok (untimed t i h s)"
    using ok(1,2) by (simp_all add: untimed_def limits_ok_def value_ok_def)
  show "tc_sockets s i \<noteq> None" using timers_okD(3) [OF ok(7) ti] by blast
qed

lemma untimed_conn:
  assumes inv: "tcp_inv s" and h: "th_inv h" "timers_of h = (timers_of (io_timers s))(t := x)" and i: "tc_timer_socket s t = Some i"
    and at: "conn_at s i c p d k"
  shows "tcp_inv (untimed t i h s)" "conn_at (untimed t i h s) i c p d k"
proof -
  show at': "conn_at (untimed t i h s) i c p d k" using at by (auto simp: conn_at_def conn_state_def)
  have "tables_ok (untimed t i h s)"
  proof (rule tables_at [OF inv [unfolded tcp_inv_def], where i = i and p = p and d' = d])
    show "socket_ok (untimed t i h s) i p" using at' by (auto simp: conn_at_def socket_ok_def)
    show "(case tc_connections s i of None \<Rightarrow> tc_conns (untimed t i h s) = tc_conns s
      | Some c \<Rightarrow> \<exists>k'. tc_conns (untimed t i h s) = (tc_conns s)(c \<mapsto> k'))"
      using at by (auto simp: conn_at_def intro!: exI [of _ k])
  qed (use at in \<open>auto simp: conn_at_def\<close>)
  with untimed_ok [OF inv h i] show "tcp_inv (untimed t i h s)" by (simp add: tcp_inv_def tcp_invx_def)
qed

lemma report_error_fine:
  assumes app: "good_app pending app" and inv: "tcp_inv s" and at: "conn_at s i c p d k"
  obtains s' where "report_error app p c s = Some s'" "fine pending {} {} s s'"
    "report_error app p c s = app_if (tc_error_cb s) app (ErrorOccurred i (cn_error k)) s"
proof -
  have eq: "report_error app p c s = app_if (tc_error_cb s) app (ErrorOccurred i (cn_error k)) s"
    using at by (simp add: report_error_def conn_at_def device_ok_def)
  have "app_pre (ErrorOccurred i (cn_error k)) s" using at by (simp add: conn_at_def)
  then obtain s' where "app_if (tc_error_cb s) app (ErrorOccurred i (cn_error k)) s = Some s'" "fine pending {} {} s s'"
    by (rule app_if_fine [OF app inv])
  with eq show thesis by (intro that) simp_all
qed

text \<open>Marking a connection as failed.\<close>

lemma setError_fine:
  assumes inv: "tcp_inv s" and at: "conn_at s i c p d k"
  obtains s' where "setError c code s = Some s'" "fine pending {} {} s s'"
    "conn_at s' i c p d (k\<lparr>cn_status := PENDING_ERROR, cn_error := code\<rparr>)"
    "s' = upd_conn c (k\<lparr>cn_status := PENDING_ERROR, cn_error := code\<rparr>) s"
proof -
  let ?k = "k\<lparr>cn_status := PENDING_ERROR, cn_error := code\<rparr>"
  have cs: "conn_state (tc_socket_timer s i) d ?k" "cn_socket ?k = p" "device_ok i d"
    using at by (auto simp: conn_at_def conn_state_def)
  have eq: "upd_conn c ?k s = called (io_errno s) (io_world s) (upd_conn c ?k (upd_socket p d s))"
    using at by (simp add: upd_conn_def upd_socket_def conn_at_def)
  show thesis
  proof (rule that)
    show "setError c code s = Some (upd_conn c ?k s)" using set_conn_at [OF at] by (simp add: setError_def)
    show "fine pending {} {} s (upd_conn c ?k s)" "conn_at (upd_conn c ?k s) i c p d ?k"
      by (rule conn_update_fine [OF inv at eq _ cs(3,2,1)]; auto)+
  qed simp
qed

lemma fire_timer_safe:
  assumes k: "kernel_ok os pending" and app: "good_app pending app" and inv: "tcp_inv s"
    and t: "timers_of (io_timers s) t = Some tm" and h: "th_inv h" "timers_of h = (timers_of (io_timers s))(t := rearm tm)"
  shows "\<exists>s'. fire_timer os app (t_cb tm) t (s\<lparr>io_timers := h\<rparr>) = Some s' \<and> tcp_inv s' \<and> keeps {} {} s s'"
proof (cases "tc_timer_socket s t")
  case None
  have inv1: "tcp_inv (s\<lparr>io_timers := h\<rparr>)" by (rule fire_unknown [OF inv h None])
  have kp: "keeps {} {} s (s\<lparr>io_timers := h\<rparr>)" by (rule keeps_same) simp_all
  show ?thesis
  proof (cases "t_cb tm")
    case (AppTimer n)
    obtain s' where "app (TimerFired n t) (s\<lparr>io_timers := h\<rparr>) = Some s'" "fine pending {} {} (s\<lparr>io_timers := h\<rparr>) s'"
      using good_appD [OF app inv1, of "TimerFired n t"] by auto
    with AppTimer kp show ?thesis by (auto simp: fire_timer_def fine_def intro: keeps_trans)
  qed (use inv1 kp take_timer_cases(1) [OF None, of h] in
      \<open>simp_all add: fire_timer_def onListenSocketResumeRead_def onAsyncConnectTimeout_def onSendMessageError_def\<close>)
next
  case (Some i)
  have pos: "t \<noteq> -1" using timer_ok_of [OF inv_parts(3) [OF inv] t] by (simp add: timer_ok_def)
  have cb: "timer_cb_ok (tc_connections s i) (t_cb tm)"
    using timers_liveD [OF inv_parts(8) [OF inv] Some _ pos] t by auto
  note u = untimed_ok [OF inv h Some] and take = take_timer_cases(2) [OF Some, of h]
  obtain p where p: "tc_sockets s i = Some p" using u(5) by blast
  have kp: "keeps {} {} s (untimed t i h s)" by (rule keeps_same) simp_all
  show ?thesis
  proof (cases "tc_connections s i")
    case None
    obtain d where d: "io_devices s p = Some d" "device_ok i d" "listen_state (tc_socket_timer s i) d"
      by (rule listening [OF inv [unfolded tcp_inv_def] p None])
    have "io_devices (untimed t i h s) p = Some d" using d(1) by simp
    then obtain e w where r: "setReadCallback os p (Some OnListenSocketRead) (untimed t i h s) =
        Some (called e w (untimed t i h s)\<lparr>io_devices := (io_devices (untimed t i h s))(p \<mapsto> d\<lparr>dv_read := Some OnListenSocketRead\<rparr>)\<rparr>)"
      "pending w \<le> pending (io_world (untimed t i h s))" by (rule setReadCallback_spec [OF k])
    let ?d = "d\<lparr>dv_read := Some OnListenSocketRead\<rparr>"
    let ?s = "called e w (untimed t i h s)\<lparr>io_devices := (io_devices s)(p \<mapsto> ?d)\<rparr>"
    have new: "socket_ok ?s i p" using d None by (auto simp: socket_ok_def device_ok_def listen_state_def)
    have "tables_ok ?s"
      by (rule tables_at [OF inv [unfolded tcp_inv_def] p, where d' = ?d]) (use None new in auto)
    moreover have "contexts_ok ?s" by (rule contexts_fresh [OF u(2)]) simp_all
    moreover have "timers_ok ?s \<and> timers_live {} ?s"
    proof (rule timers_keep [OF conjunct1 [OF u(1)] conjunct2 [OF u(1)]])
      have "dom (tc_socket_timer (untimed t i h s)) \<subseteq> dom (tc_sockets (untimed t i h s))"
        using timers_okD(3) [OF conjunct1 [OF u(1)]] by blast
      then show "dom (tc_socket_timer (untimed t i h s)) \<subseteq> dom (tc_sockets ?s)" by simp
    qed (simp_all add: untimed_def)
    ultimately have "tcp_inv ?s" using u(3,4) by (simp add: tcp_inv_def tcp_invx_def limits_ok_def value_ok_def)
    moreover have "keeps {} {} s ?s" by (rule keeps_update [OF d(1), where d' = ?d]) simp_all
    ultimately show ?thesis using cb None take p r(1) by (simp add: fire_timer_def onListenSocketResumeRead_def)
  next
    case c: (Some c)
    obtain p' d kk where at0: "conn_at s i c p' d kk" by (rule conn_atE [OF inv c])
    then have at: "conn_at s i c p d kk" using p by (simp add: conn_at_def)
    note inv1 = untimed_conn(1) [OF inv h Some at] and at1 = untimed_conn(2) [OF inv h Some at]
    have "t_cb tm = OnAsyncConnectTimeout \<or> t_cb tm = OnSendMessageError" using cb c by simp
    then show ?thesis
    proof
      assume a: "t_cb tm = OnAsyncConnectTimeout"
      obtain s2 where s2: "setError c ETIMEDOUT (untimed t i h s) = Some s2" "fine pending {} {} (untimed t i h s) s2"
        "conn_at s2 i c p d (kk\<lparr>cn_status := PENDING_ERROR, cn_error := ETIMEDOUT\<rparr>)"
        by (rule setError_fine [OF inv1 at1])
      obtain s3 where s3: "report_error app p c s2 = Some s3" "fine pending {} {} s2 s3"
        by (rule report_error_fine [OF app _ s2(3)]) (use s2(2) in \<open>simp_all add: fine_def\<close>)
      have "fine pending {} {} (untimed t i h s) s3" by (rule fine_trans [OF s2(2) s3(2)])
      then have "tcp_inv s3 \<and> keeps {} {} s s3" using keeps_trans [OF kp] by (auto simp: fine_def)
      then show ?thesis using a take p c s2(1) s3(1) by (simp add: fire_timer_def onAsyncConnectTimeout_def)
    next
      assume a: "t_cb tm = OnSendMessageError"
      obtain s3 where s3: "report_error app p c (untimed t i h s) = Some s3" "fine pending {} {} (untimed t i h s) s3"
        by (rule report_error_fine [OF app inv1 at1])
      then have "tcp_inv s3 \<and> keeps {} {} s s3" using keeps_trans [OF kp] by (auto simp: fine_def)
      then show ?thesis using a take p c s3(1) by (simp add: fire_timer_def onSendMessageError_def)
    qed
  qed
qed

end
