(* ===== verification/TcpWrite.thy ===== *)
theory TcpWrite
  imports TcpTimers
begin

text \<open>
  The callbacks \<open>onSocketError\<close>, \<open>onAsyncConnectSocketWrite\<close> and \<open>onSocketWrite\<close> keep the invariant.
\<close>

section \<open>Callbacks of devices\<close>

lemma device_cases:
  assumes inv: "tcp_inv s" and d: "io_devices s p = Some d"
  obtains (listen) "tc_sockets s (dv_id d) = Some p" "device_ok (dv_id d) d" "tc_connections s (dv_id d) = None"
      "listen_state (tc_socket_timer s (dv_id d)) d"
    | (conn) c k where "conn_at s (dv_id d) c p d k"
proof -
  have s: "tc_sockets s (dv_id d) = Some p" "device_ok (dv_id d) d"
    using device_socket [OF inv [unfolded tcp_inv_def] d] by simp_all
  show thesis
  proof (cases "tc_connections s (dv_id d)")
    case None
    obtain d' where "io_devices s p = Some d'" "listen_state (tc_socket_timer s (dv_id d)) d'"
      by (rule listening [OF inv [unfolded tcp_inv_def] s(1) None])
    with d s None show thesis by (intro listen) simp_all
  next
    case (Some c)
    obtain p' d' k where "conn_at s (dv_id d) c p' d' k" by (rule conn_atE [OF inv Some])
    with d s(1) show thesis by (intro conn [of c k]) (simp add: conn_at_def)
  qed
qed

lemma getSocketError_spec:
  assumes k: "kernel_ok os pending" and d: "io_devices s p = Some d"
  obtains r e w where "getSocketError os p s = Some (r, called e w s)" "pending w \<le> pending (io_world s)"
proof -
  obtain r e w where r: "syscall (sy_so_error os (dv_fd d)) s = (r, called e w s)" "pending w \<le> pending (io_world s)"
    by (rule syscall_step [OF kernel_quiet(12) [OF k]])
  with d show thesis by (intro that [of "if fst r \<noteq> 0 then e else snd r" e w]) (auto simp: getSocketError_def split: prod.splits)
qed

lemma onSocketError_fine:
  assumes k: "kernel_ok os pending" and app: "good_app pending app" and inv: "tcp_inv s" and d: "io_devices s p = Some d"
  shows "\<exists>s'. onSocketError os app p s = Some s' \<and> fine pending {} {} s s'"
proof (rule device_cases [OF inv d])
  assume "tc_connections s (dv_id d) = None"
  with d inv show ?thesis by (simp add: onSocketError_def)
next
  fix c kk
  assume at: "conn_at s (dv_id d) c p d kk"
  obtain r e w where r: "getSocketError os p s = Some (r, called e w s)" "pending w \<le> pending (io_world s)"
    by (rule getSocketError_spec [OF k d])
  have 1: "fine pending {} {} s (called e w s)" "conn_at (called e w s) (dv_id d) c p d kk"
    by (rule called_conn_at [OF inv at r(2)])+
  let ?code = "if r = 0 then e else r"
  obtain s2 where s2: "setError c ?code (called e w s) = Some s2" "fine pending {} {} (called e w s) s2"
    "conn_at s2 (dv_id d) c p d (kk\<lparr>cn_status := PENDING_ERROR, cn_error := ?code\<rparr>)"
    by (rule setError_fine [OF _ 1(2)]) (use 1(1) in \<open>simp add: fine_def\<close>)
  obtain s3 where s3: "report_error app p c s2 = Some s3" "fine pending {} {} s2 s3"
    by (rule report_error_fine [OF app _ s2(3)]) (use s2(2) in \<open>simp_all add: fine_def\<close>)
  have "fine pending {} {} s s3" using 1(1) s2(2) s3(2) by (blast intro: fine_trans)
  moreover have "onSocketError os app p s = Some s3"
    using d at r(1) s2(1) s3(1) by (cases "r = 0") (simp_all add: onSocketError_def conn_at_def Let_def)
  ultimately show ?thesis by blast
qed

lemma removeSocketTimer_conn:
  assumes inv: "tcp_inv s" and at: "conn_at s i c p d k"
  obtains s' where "removeSocketTimer i s = Some s'" "fine pending {} {} s s'" "conn_at s' i c p d k"
    "tc_socket_timer s' i = None" "no_timer i s s'" "io_world s' = io_world s" "io_errno s' = io_errno s" "tc_conns s' = tc_conns s"
    "tc_new_conn_cb s' = tc_new_conn_cb s"
proof -
  obtain h ts where t: "removeSocketTimer i s = Some (s\<lparr>tc_socket_timer := (tc_socket_timer s)(i := None), tc_timer_socket := ts, io_timers := h\<rparr>)"
    "no_timer i s (s\<lparr>tc_socket_timer := (tc_socket_timer s)(i := None), tc_timer_socket := ts, io_timers := h\<rparr>)"
    by (rule removeSocketTimer_spec [OF inv_parts(3) [OF inv]])
  let ?s = "s\<lparr>tc_socket_timer := (tc_socket_timer s)(i := None), tc_timer_socket := ts, io_timers := h\<rparr>"
  have at': "conn_at ?s i c p d k" using at by (auto simp: conn_at_def conn_state_def)
  have "tables_ok ?s"
  proof (rule tables_at [OF inv [unfolded tcp_inv_def], where i = i and p = p and d' = d])
    show "socket_ok ?s i p" using at' by (auto simp: conn_at_def socket_ok_def)
    show "(case tc_connections s i of None \<Rightarrow> tc_conns ?s = tc_conns s | Some c \<Rightarrow> \<exists>k'. tc_conns ?s = (tc_conns s)(c \<mapsto> k'))"
      using at by (auto simp: conn_at_def intro!: exI [of _ k])
  qed (use at in \<open>auto simp: conn_at_def\<close>)
  moreover have "timers_ok ?s \<and> timers_live {} ?s"
    by (rule no_timer_ok [OF inv_parts(7,8) [OF inv] t(2)]) auto
  moreover have "contexts_ok ?s" by (rule contexts_fresh [OF inv_parts(9) [OF inv]]) simp_all
  ultimately have "tcp_inv ?s"
    using inv_parts(1,2) [OF inv] by (simp add: tcp_inv_def tcp_invx_def limits_ok_def value_ok_def)
  moreover have "keeps {} {} s ?s" by (rule keeps_same) simp_all
  ultimately have "fine pending {} {} s ?s" by (simp add: fine_def)
  then show thesis using t at' by (intro that [of ?s]) simp_all
qed

lemma onAsyncConnectSocketWrite_fine:
  assumes k: "kernel_ok os pending" and app: "good_app pending app" and inv: "tcp_inv s" and d: "io_devices s p = Some d"
    and wr: "dv_write d = Some OnAsyncConnectSocketWrite"
  shows "\<exists>s'. onAsyncConnectSocketWrite os app p s = Some s' \<and> fine pending {} {p} s s'"
proof (rule device_cases [OF inv d])
  assume "listen_state (tc_socket_timer s (dv_id d)) d"
  with wr show ?thesis by (simp add: listen_state_def)
next
  fix c kk
  let ?i = "dv_id d"
  assume at0: "conn_at s ?i c p d kk"
  obtain s1 where s1: "removeSocketTimer ?i s = Some s1" "fine pending {} {} s s1" "conn_at s1 ?i c p d kk" "tc_socket_timer s1 ?i = None"
    by (rule removeSocketTimer_conn [OF inv at0])
  have inv1: "tcp_inv s1" using s1(2) by (simp add: fine_def)
  have d1: "io_devices s1 p = Some d" "tc_connections s1 ?i = Some c" using s1(3) by (simp_all add: conn_at_def)
  obtain r e w where r: "getSocketError os p s1 = Some (r, called e w s1)" "pending w \<le> pending (io_world s1)"
    by (rule getSocketError_spec [OF k d1(1)])
  have 2: "fine pending {} {} s1 (called e w s1)" "conn_at (called e w s1) ?i c p d kk"
    by (rule called_conn_at [OF inv1 s1(3) r(2)])+
  then have inv2: "tcp_inv (called e w s1)" by (simp add: fine_def)
  have f2: "fine pending {} {p} s (called e w s1)"
    using fine_trans [OF s1(2) 2(1)] by (rule fine_mono) auto
  show ?thesis
  proof (cases "r = 0")
    case False
    obtain s3 where s3: "setError c r (called e w s1) = Some s3" "fine pending {} {} (called e w s1) s3"
      "conn_at s3 ?i c p d (kk\<lparr>cn_status := PENDING_ERROR, cn_error := r\<rparr>)" by (rule setError_fine [OF inv2 2(2)])
    obtain s4 where s4: "report_error app p c s3 = Some s4" "fine pending {} {} s3 s4"
      by (rule report_error_fine [OF app _ s3(3)]) (use s3(2) in \<open>simp_all add: fine_def\<close>)
    have "fine pending {} {p} (called e w s1) s4" by (rule fine_mono [OF fine_trans [OF s3(2) s4(2)]]) auto
    with f2 have "fine pending {} {p} s s4" by (rule fine_trans)
    then show ?thesis using False d s1(1) d1(2) r(1) s3(1) s4(1) by (simp add: onAsyncConnectSocketWrite_def Let_def)
  next
    case True
    let ?s2 = "called e w s1"
    have "io_devices ?s2 p = Some d" using d1(1) by simp
    then obtain e' w' where a: "setReadCallback os p (Some OnSocketRead) ?s2 =
        Some (called e' w' ?s2\<lparr>io_devices := (io_devices ?s2)(p \<mapsto> d\<lparr>dv_read := Some OnSocketRead\<rparr>)\<rparr>)" "pending w' \<le> pending (io_world ?s2)"
      by (rule setReadCallback_spec [OF k])
    let ?s3 = "called e' w' ?s2\<lparr>io_devices := (io_devices ?s2)(p \<mapsto> d\<lparr>dv_read := Some OnSocketRead\<rparr>)\<rparr>"
    have "io_devices ?s3 p = Some (d\<lparr>dv_read := Some OnSocketRead\<rparr>)" by simp
    then obtain e'' w'' where b: "setWriteCallback os p None ?s3 =
        Some (called e'' w'' ?s3\<lparr>io_devices := (io_devices ?s3)(p \<mapsto> d\<lparr>dv_read := Some OnSocketRead\<rparr>\<lparr>dv_write := None\<rparr>)\<rparr>)" "pending w'' \<le> pending (io_world ?s3)"
      by (rule setWriteCallback_spec [OF k])
    let ?d = "d\<lparr>dv_read := Some OnSocketRead, dv_write := None\<rparr>" and ?k = "kk\<lparr>cn_status := CONNECTED\<rparr>"
    let ?s4 = "called e'' w'' ?s3\<lparr>io_devices := (io_devices ?s3)(p \<mapsto> ?d)\<rparr>"
    have c: "setStatus c CONNECTED ?s4 = Some (upd_conn c ?k ?s4)"
      using s1(3) by (simp add: setStatus_def set_conn_def upd_conn_def conn_at_def)
    have eq: "upd_conn c ?k ?s4 = called e'' w'' (upd_conn c ?k (upd_socket p ?d s1))" by (simp add: upd_conn_def upd_socket_def)
    have pw: "pending w'' \<le> pending (io_world s1)" using a(2) b(2) r(2) by simp
    have new: "device_ok ?i ?d" "cn_socket ?k = p" "conn_state (tc_socket_timer s1 ?i) ?d ?k"
      using s1(3,4) wr by (simp_all add: conn_at_def device_ok_def conn_state_def)
    have 3: "fine pending {} {p} s1 (upd_conn c ?k ?s4)" "conn_at (upd_conn c ?k ?s4) ?i c p ?d ?k"
      by (rule conn_update_fine [where R = "{}" and W = "{p}", OF inv1 s1(3) eq pw new]; simp)+
    let ?s5 = "upd_conn c ?k ?s4"
    have inv5: "tcp_inv ?s5" using 3(1) by (simp add: fine_def)
    have "app_pre (NewConnection ?i ?i) ?s5" using 3(2) by (simp add: conn_at_def)
    then obtain s6 where s6: "app_if (tc_new_conn_cb ?s5) app (NewConnection ?i ?i) ?s5 = Some s6" "fine pending {} {} ?s5 s6"
      by (rule app_if_fine [OF app inv5])
    have "fine pending {} {p} s s6"
      using fine_mono [OF s1(2)] 3(1) fine_mono [OF s6(2)] by (meson empty_subsetI fine_trans order_refl)
    then show ?thesis
      using True d s1(1) d1(2) r(1) a(1) b(1) c s6(1) by (simp add: onAsyncConnectSocketWrite_def Let_def)
  qed
qed

text \<open>
  What one \<open>onSocketWrite\<close> does before it calls the application: after \<open>send\<close> returned \<open>r\<close>, the first \<open>r\<close> bytes leave
  the write buffer; when it is empty the write callback and the completion callback are reset.
\<close>

lemma onSocketWrite_spec:
  assumes k: "kernel_ok os pending" and inv: "tcp_inv s" and at: "conn_at s i c p d kk" and wr: "dv_write d = Some OnSocketWrite"
  obtains (error) e w s1 where "sy_send os (dv_fd d) (db_data (cn_write kk)) (io_errno s, io_world s) = (-1, e, w)" "e \<noteq> EAGAIN"
      "fine pending {} {} s s1" "conn_at s1 i c p d (kk\<lparr>cn_status := PENDING_ERROR, cn_error := e\<rparr>)"
      "onSocketWrite os app p s = report_error app p c s1" "s1 = upd_conn c (kk\<lparr>cn_status := PENDING_ERROR, cn_error := e\<rparr>) (called e w s)"
    | (again) w where "sy_send os (dv_fd d) (db_data (cn_write kk)) (io_errno s, io_world s) = (-1, EAGAIN, w)"
      "fine pending {} {} s (called EAGAIN w s)" "onSocketWrite os app p s = Some (called EAGAIN w s)"
    | (some) r e w b s1 where "sy_send os (dv_fd d) (db_data (cn_write kk)) (io_errno s, io_world s) = (int r, e, w)"
      "db_data b = drop r (db_data (cn_write kk))" "db_data b \<noteq> []" "r \<le> length (db_data (cn_write kk))"
      "fine pending {} {p} s s1" "conn_at s1 i c p d (kk\<lparr>cn_write := b\<rparr>)"
      "onSocketWrite os app p s = Some s1" "s1 = called e w (upd_conn c (kk\<lparr>cn_write := b\<rparr>) s)"
    | (all) e w e' w' b s1 where "sy_send os (dv_fd d) (db_data (cn_write kk)) (io_errno s, io_world s) = (int (length (db_data (cn_write kk))), e, w)"
      "db_data b = []" "fine pending {} {p} s s1" "conn_at s1 i c p (d\<lparr>dv_write := None\<rparr>) (kk\<lparr>cn_write := b, cn_complete := None\<rparr>)"
      "onSocketWrite os app p s = (case cn_complete kk of None \<Rightarrow> Some s1 | Some cb \<Rightarrow> complete os app cb i s1)"
      "setWriteCallback os p None (upd_conn c (kk\<lparr>cn_write := b\<rparr>) (called e w s)) = Some (called e' w' (upd_conn c (kk\<lparr>cn_write := b\<rparr>) (upd_socket p (d\<lparr>dv_write := None\<rparr>) s)))"
      "s1 = called e' w' (upd_conn c (kk\<lparr>cn_write := b, cn_complete := None\<rparr>) (upd_socket p (d\<lparr>dv_write := None\<rparr>) s))"
proof -
  have at': "io_devices s p = Some d" "tc_connections s i = Some c" "tc_conns s c = Some kk" "device_ok i d" "dv_id d = i" "cn_socket kk = p"
    "conn_state (tc_socket_timer s i) d kk" using at by (simp_all add: conn_at_def device_ok_def)
  let ?q = "db_data (cn_write kk)"
  have buf: "buf_ok (cn_write kk)" and wf: "db_wf (cn_write kk)" using at'(7) by (simp_all add: conn_state_def buf_ok_def)
  have ne: "?q \<noteq> []" using at'(7) wr by (auto simp: conn_state_def split: if_splits)
  have len: "db_readableBytes (cn_write kk) = length ?q" using length_db_data [OF wf] by simp
  have data: "db_readBegin (cn_write kk) 0 (db_readableBytes (cn_write kk)) = Some ?q"
    using db_readBegin_data [OF wf, of 0 "db_readableBytes (cn_write kk)"] len by simp
  obtain r e w where r: "sy_send os (dv_fd d) ?q (io_errno s, io_world s) = (r, e, w)" "tcp_send os p ?q s = Some (r, called e w s)"
    "-1 \<le> r" "r \<le> int (length ?q)" "pending w \<le> pending (io_world s)" by (rule tcp_send_spec [OF k at'(1)])
  let ?s = "called e w s"
  have 1: "fine pending {} {} s ?s" "conn_at ?s i c p d kk" by (rule called_conn_at [OF inv at r(5)])+
  have start: "onSocketWrite os app p s = (if r < 0 then
           if e \<noteq> EAGAIN then do { s \<leftarrow> setError c e ?s; report_error app p c s }
           else Some ?s
         else do {
           let b = db_read (cn_write kk) (nat r);
           s \<leftarrow> set_write_buffer c b ?s;
           if db_readableBytes b = 0 then do {
             s \<leftarrow> setWriteCallback os p None s;
             s \<leftarrow> setSendCompleteCallback c None s;
             case cn_complete kk of None \<Rightarrow> Some s | Some cb \<Rightarrow> complete os app cb i s }
           else Some s })"
    using at'(1-3,5,6) data r(2) by (simp add: onSocketWrite_def Let_def cong: if_cong option.case_cong)
  show thesis
  proof (cases "r < 0")
    case True
    then have rm: "r = -1" using r(3) by simp
    show thesis
    proof (cases "e = EAGAIN")
      case True
      with rm r(1) 1(1) start show thesis by (intro again) simp_all
    next
      case False
      have inv1: "tcp_inv ?s" using 1(1) by (simp add: fine_def)
      obtain s1 where s1: "setError c e ?s = Some s1" "fine pending {} {} ?s s1"
        "conn_at s1 i c p d (kk\<lparr>cn_status := PENDING_ERROR, cn_error := e\<rparr>)" "s1 = upd_conn c (kk\<lparr>cn_status := PENDING_ERROR, cn_error := e\<rparr>) ?s"
        by (rule setError_fine [OF inv1 1(2)])
      show thesis
        by (rule error [of e w s1]) (use False rm r(1) start s1 fine_trans [OF 1(1) s1(2)] in simp_all)
    qed
  next
    case False
    then obtain n where n: "r = int n" by (metis nonneg_int_cases not_less)
    define b where "b = db_read (cn_write kk) n"
    have b: "db_data b = drop n ?q" "buf_ok b" using db.consume_data [OF wf] buf_ok_read [OF buf] by (simp_all add: b_def)
    have swb: "set_write_buffer c b ?s = Some (upd_conn c (kk\<lparr>cn_write := b\<rparr>) ?s)"
      using at'(3) by (simp add: set_write_buffer_def set_conn_def upd_conn_def)
    have nl: "n \<le> length ?q" using r(4) n by simp
    show thesis
    proof (cases "db_data b = []")
      case ne': False
      let ?k = "kk\<lparr>cn_write := b\<rparr>"
      let ?s1 = "called e w (upd_conn c ?k s)"
      have eq: "?s1 = called e w (upd_conn c ?k (upd_socket p d s))" using at'(1) by (simp add: upd_socket_def)
      have new: "device_ok i d" "cn_socket ?k = p" "conn_state (tc_socket_timer s i) d ?k"
        using at' b ne' ne wr by (auto simp: conn_state_def split: if_splits)
      have 2: "fine pending {} {p} s ?s1" "conn_at ?s1 i c p d ?k"
        by (rule conn_update_fine [where R = "{}" and W = "{p}", OF inv at eq r(5) new]; auto)+
      have "onSocketWrite os app p s = Some ?s1"
        using start n swb ne' b buf_empty [OF b(2)] by (simp add: Let_def upd_conn_def b_def [symmetric])
      then show thesis by (intro some [of n e w b ?s1]) (use r(1) n b ne' nl 2 in simp_all)
    next
      case em: True
      then have n_all: "n = length ?q" using b(1) nl by simp
      let ?sb = "upd_conn c (kk\<lparr>cn_write := b\<rparr>) ?s"
      have "io_devices ?sb p = Some d" using at'(1) by (simp add: upd_conn_def)
      then obtain e' w' where a: "setWriteCallback os p None ?sb = Some (called e' w' ?sb\<lparr>io_devices := (io_devices ?sb)(p \<mapsto> d\<lparr>dv_write := None\<rparr>)\<rparr>)"
        "pending w' \<le> pending (io_world ?sb)" by (rule setWriteCallback_spec [OF k])
      let ?d = "d\<lparr>dv_write := None\<rparr>" and ?k = "kk\<lparr>cn_write := b, cn_complete := None\<rparr>"
      let ?s1 = "called e' w' (upd_conn c ?k (upd_socket p ?d s))"
      have pw: "pending w' \<le> pending (io_world s)" using a(2) r(5) by (simp add: upd_conn_def)
      have new: "device_ok i ?d" "cn_socket ?k = p" "conn_state (tc_socket_timer s i) ?d ?k"
        using at' b em wr by (auto simp: conn_state_def device_ok_def split: if_splits)
      have 2: "fine pending {} {p} s ?s1" "conn_at ?s1 i c p ?d ?k"
        by (rule conn_update_fine [where R = "{}" and W = "{p}", OF inv at refl pw new]; auto)+
      have a': "setWriteCallback os p None ?sb = Some (called e' w' (upd_conn c (kk\<lparr>cn_write := b\<rparr>) (upd_socket p ?d s)))"
        using a(1) by (simp add: upd_conn_def upd_socket_def)
      have sc: "setSendCompleteCallback c None (called e' w' (upd_conn c (kk\<lparr>cn_write := b\<rparr>) (upd_socket p ?d s))) = Some ?s1"
        by (simp add: setSendCompleteCallback_def set_conn_def upd_conn_def upd_socket_def)
      have "onSocketWrite os app p s = (case cn_complete kk of None \<Rightarrow> Some ?s1 | Some cb \<Rightarrow> complete os app cb i ?s1)"
        using start n swb em buf_empty [OF b(2)] a' sc by (simp add: Let_def b_def [symmetric])
      then show thesis by (intro all [of e w b ?s1 e' w']) (use r(1) n n_all em 2 a' in simp_all)
    qed
  qed
qed

lemma onSocketWrite_fine:
  assumes k: "kernel_ok os pending" and app: "good_app pending app" and inv: "tcp_inv s" and d: "io_devices s p = Some d"
    and wr: "dv_write d = Some OnSocketWrite"
  shows "\<exists>s'. onSocketWrite os app p s = Some s' \<and> fine pending {} {p} s s'"
proof (rule device_cases [OF inv d])
  assume "listen_state (tc_socket_timer s (dv_id d)) d"
  with wr show ?thesis by (simp add: listen_state_def)
next
  fix c kk
  assume at: "conn_at s (dv_id d) c p d kk"
  show ?thesis
  proof (rule onSocketWrite_spec [where app = app, OF k inv at wr], goal_cases)
    case (1 e w s1)
    obtain s2 where s2: "report_error app p c s1 = Some s2" "fine pending {} {} s1 s2"
      by (rule report_error_fine [OF app _ 1(4)]) (use 1(3) in \<open>simp_all add: fine_def\<close>)
    have "fine pending {} {p} s s2" by (rule fine_mono [OF fine_trans [OF 1(3) s2(2)]]) auto
    then show ?case using 1(5) s2(1) by simp
  next
    case (2 w)
    have "fine pending {} {p} s (called EAGAIN w s)" by (rule fine_mono [OF 2(2)]) auto
    then show ?case using 2(3) by simp
  next
    case (3 r e w b s1)
    then show ?case by simp
  next
    case (4 e w e' w' b s1)
    show ?case
    proof (cases "cn_complete kk")
      case None
      then show ?thesis using 4(3,5) by simp
    next
      case (Some cb)
      have "tcp_inv s1" "tc_connections s1 (dv_id d) \<noteq> None" using 4(3,4) by (simp_all add: fine_def conn_at_def)
      then obtain s2 where s2: "complete os app cb (dv_id d) s1 = Some s2" "fine pending {} {} s1 s2"
        using complete_fine [where app = app and cb = cb, OF k] app by blast
      have "fine pending {} {p} s1 s2" by (rule fine_mono [OF s2(2)]) auto
      then have "fine pending {} {p} s s2" by (rule fine_trans [OF 4(3)])
      then show ?thesis using Some 4(5) s2(1) by simp
    qed
  qed
qed

end
