(* ===== verification/TcpAccept.thy ===== *)
theory TcpAccept
  imports TcpWrite
begin

text \<open>\<open>onListenSocketRead\<close>: the loop ends, and keeps the invariant on every outcome of \<open>accept\<close>.\<close>

section \<open>Accepting\<close>

definition listens :: "'w tcp \<Rightarrow> nat \<Rightarrow> device_cb device \<Rightarrow> bool" where
  "listens s p d \<longleftrightarrow> io_devices s p = Some d \<and> tc_sockets s (dv_id d) = Some p \<and> device_ok (dv_id d) d \<and>
     tc_connections s (dv_id d) = None \<and> dv_read d = Some OnListenSocketRead \<and> dv_write d = None \<and> tc_socket_timer s (dv_id d) = None"

lemma listensI:
  assumes "tcp_inv s" "io_devices s p = Some d" "dv_read d = Some OnListenSocketRead"
  shows "listens s p d"
proof (rule device_cases [OF assms(1,2)])
  assume "tc_sockets s (dv_id d) = Some p" "device_ok (dv_id d) d" "tc_connections s (dv_id d) = None"
    "listen_state (tc_socket_timer s (dv_id d)) d"
  then show ?thesis using assms(2,3) by (simp add: listens_def listen_state_def split: if_splits)
next
  fix c k
  assume "conn_at s (dv_id d) c p d k"
  then show ?thesis using assms(3) by (auto simp: conn_at_def conn_state_def split: if_splits)
qed

lemma listens_extends:
  assumes l: "listens s p d" and e: "extends s s'"
  shows "listens s' p d"
proof -
  have p: "io_devices s p = Some d" "tc_sockets s (dv_id d) = Some p" using l by (simp_all add: listens_def)
  have "io_devices s' p = Some d" "tc_sockets s' (dv_id d) = Some p"
    using e p domI [of "io_devices s" p d] domI [of "tc_sockets s" "dv_id d" p] unfolding extends_def map_le_def by simp_all
  moreover have "tc_connections s' (dv_id d) = tc_connections s (dv_id d)" "tc_socket_timer s' (dv_id d) = tc_socket_timer s (dv_id d)"
    using e p(2) unfolding extends_def by (simp_all add: domI)
  ultimately show ?thesis using l by (simp add: listens_def)
qed

text \<open>Out of descriptors: the socket stops listening and a timer will resume it.\<close>

lemma pause_spec:
  assumes k: "kernel_ok os pending" and inv: "tcp_inv s" and l: "listens s p d" and q: "io_devices s q = None"
    and s2: "s2 = called e w s\<lparr>io_devices := (io_devices s)(q \<mapsto> d2)\<rparr>" "pending w \<le> pending (io_world s)" "\<not> dv_attached d2"
  obtains s' where "(do { s \<leftarrow> setReadCallback os p None s2; d \<leftarrow> io_devices s p;
      s \<leftarrow> addSocketTimer os (dv_id d) (tc_accept_pause s) OnListenSocketResumeRead s; delete_socket os q s }) = Some s'"
    "fine pending {p} {} s s'"
proof -
  let ?i = "dv_id d" and ?d = "d\<lparr>dv_read := None\<rparr>"
  have p: "io_devices s p = Some d" "tc_sockets s ?i = Some p" "device_ok ?i d" "tc_connections s ?i = None" "dv_write d = None"
    "tc_socket_timer s ?i = None" using l by (simp_all add: listens_def)
  have pq: "p \<noteq> q" using p(1) q by auto
  have "io_devices s2 p = Some d" using s2(1) p(1) pq by simp
  then obtain e3 w3 where 3: "setReadCallback os p None s2 = Some (called e3 w3 s2\<lparr>io_devices := (io_devices s2)(p \<mapsto> ?d)\<rparr>)"
    "pending w3 \<le> pending (io_world s2)" by (rule setReadCallback_spec [OF k])
  let ?s3 = "called e3 w3 s2\<lparr>io_devices := (io_devices s2)(p \<mapsto> ?d)\<rparr>"
  have "th_inv (io_timers ?s3)" using inv_parts(3) [OF inv] s2(1) by simp
  then obtain t tm h e4 w4 where 4: "addSocketTimer os ?i (tc_accept_pause ?s3) OnListenSocketResumeRead ?s3 =
      Some (called e4 w4 ?s3\<lparr>io_timers := h, tc_socket_timer := (tc_socket_timer ?s3)(?i \<mapsto> t), tc_timer_socket := (tc_timer_socket ?s3)(t \<mapsto> ?i)\<rparr>)"
    "th_inv h" "t \<noteq> -1 \<longrightarrow> timers_of (io_timers ?s3) t = None"
    "timers_of h = (if t = -1 then timers_of (io_timers ?s3) else (timers_of (io_timers ?s3))(t \<mapsto> tm))"
    "t_call_times tm = 1" "t_cb tm = OnListenSocketResumeRead" "pending w4 \<le> pending (io_world ?s3)"
    by (rule addSocketTimer_spec [OF k])
  let ?s4 = "called e4 w4 ?s3\<lparr>io_timers := h, tc_socket_timer := (tc_socket_timer ?s3)(?i \<mapsto> t), tc_timer_socket := (tc_timer_socket ?s3)(t \<mapsto> ?i)\<rparr>"
  have "io_devices ?s4 q = Some d2" using s2(1) pq by simp
  then obtain e5 w5 where 5: "delete_socket os q ?s4 = Some (called e5 w5 ?s4\<lparr>io_devices := (io_devices ?s4)(q := None),
        io_removed := (if dv_attached d2 then insert q (io_removed ?s4) else io_removed ?s4)\<rparr>)" "pending w5 \<le> pending (io_world ?s4)"
    by (rule delete_socket_spec [OF k])
  let ?s5 = "called e5 w5 ?s4\<lparr>io_devices := (io_devices ?s4)(q := None),
        io_removed := (if dv_attached d2 then insert q (io_removed ?s4) else io_removed ?s4)\<rparr>"
  have dev: "io_devices ?s5 = (io_devices s)(p \<mapsto> ?d)"
  proof -
    have "((io_devices s)(q \<mapsto> d2, p \<mapsto> ?d))(q := None) = (io_devices s)(p \<mapsto> ?d)"
      using pq q by (simp add: fun_eq_iff)
    then show ?thesis using s2(1) by simp
  qed
  have new: "socket_ok ?s5 ?i p"
    unfolding socket_ok_def dev using p s2(1) by (simp add: device_ok_def listen_state_def)
  have "tcp_inv ?s5"
  proof (rule timer_started [OF inv p(2,6), where d' = ?d and t = t and tm = tm])
    show "t \<noteq> -1 \<longrightarrow> timers_of (io_timers s) t = None" using 4(3) s2(1) by simp
    show "timers_of (io_timers ?s5) = (if t = -1 then timers_of (io_timers s) else (timers_of (io_timers s))(t \<mapsto> tm))"
      using 4(4) s2(1) by simp
  qed (use dev new 4(2,5,6) p(4) s2(1) inv_parts(1,2) [OF inv] in \<open>simp_all add: limits_ok_def value_ok_def\<close>)
  moreover have "keeps {p} {} s ?s5"
    by (rule keeps_update [OF p(1) dev]) (use s2(1,3) in simp_all)
  ultimately have "fine pending {p} {} s ?s5" using 3(2) 4(7) 5(2) s2(1,2) by (simp add: fine_def)
  moreover have "io_devices ?s3 p = Some ?d" by simp
  ultimately show thesis using 3(1) 4(1) 5(1) by (intro that [of ?s5]) simp_all
qed

lemma accept_step_safe:
  assumes k: "kernel_ok os pending" and app: "good_app pending app" and inv: "tcp_inv s" and l: "listens s p d"
  shows "(\<exists>s'. accept_step os app p s = Some (Inl s') \<and> fine pending {p} {} s s') \<or>
    (\<exists>s'. accept_step os app p s = Some (Inr s') \<and> fine pending {p} {} s s' \<and> listens s' p d \<and>
      pending (io_world s') < pending (io_world s))"
proof -
  have p: "io_devices s p = Some d" "tc_sockets s (dv_id d) = Some p" using l by (simp_all add: listens_def)
  obtain q s1 where q: "new_device os s = (q, s1)" "draft pending q device_new s s1" "io_devices s q = None"
    by (rule new_device_draft [OF k inv])
  have pq: "p \<noteq> q" using p(1) q(3) by auto
  have s1: "io_devices s1 p = Some d" "io_devices s1 q = Some device_new" "\<not> dv_attached (device_new :: device_cb device)"
    "pending (io_world s1) \<le> pending (io_world s)"
    using q(2) p(1) pq by (auto simp: draft_def device_new_def)
  obtain ok s2 where s2: "acceptNonblock os p q s1 = Some (ok, s2)" "opens pending q device_new s1 s2"
    "ok \<or> io_errno s2 = ECONNABORTED \<Longrightarrow> pending (io_world s2) < pending (io_world s1)"
    by (rule acceptNonblock_spec [OF k s1(1-3)]) blast
  obtain d2 where dr: "draft pending q d2 s s2" using draft_opens [OF q(2) s2(2)] by blast
  then obtain e w where e: "s2 = called e w s\<lparr>io_devices := (io_devices s)(q \<mapsto> d2)\<rparr>" "pending w \<le> pending (io_world s)"
    by (auto simp: draft_def)
  have att: "\<not> dv_attached d2" using draft_device [OF dr] by simp
  have val: "0 \<le> tc_value s" "tc_value s \<le> INT32_MAX" using inv_parts(2) [OF inv] by (simp_all add: value_ok_def)
  have e': "s2 = called e w s\<lparr>tc_value := tc_value s, io_devices := (io_devices s)(q \<mapsto> d2)\<rparr>" using e(1) by simp
  obtain s3 where s3: "unless_released os q (-1, s2) = Some (-1, s3)" "opened pending (Some CONNECTED) s (-1) s3" "pending (io_world s3) \<le> pending w"
    by (rule opened_fail [OF k inv q(3) e' e(2) val])
  have del: "delete_socket os q s2 = Some s3" using s3(1) by (cases "delete_socket os q s2") (simp_all add: unless_released_def)
  have same: "fine pending {p} {} s s3" by (rule opened_fine [OF s3(2)])
  show ?thesis
  proof (cases ok)
    case False
    consider "io_errno s2 = EAGAIN" | "io_errno s2 = ECONNABORTED" | "io_errno s2 \<noteq> EAGAIN" "io_errno s2 \<noteq> ECONNABORTED" by blast
    then show ?thesis
    proof cases
      case 1
      then have "accept_step os app p s = Some (Inl s3)" using False q(1) s2(1) del by (simp add: accept_step_def)
      with same show ?thesis by blast
    next
      case 2
      then have "accept_step os app p s = Some (Inr s3)" using False q(1) s2(1) del by (simp add: accept_step_def ECONNABORTED_def EAGAIN_def)
      moreover have "listens s3 p d"
        by (rule listens_extends [OF l]) (use s3(2) in \<open>simp add: opened_def\<close>)
      moreover have "pending (io_world s3) < pending (io_world s)" using s2(3) 2 s1(4) s3(3) e(1) by simp
      ultimately show ?thesis using same by blast
    next
      case 3
      show ?thesis
      proof (cases "(io_errno s2 = EMFILE \<or> io_errno s2 = ENFILE) \<and> tc_accept_pause s2 > 0")
        case True
        obtain s' where s': "(do { s \<leftarrow> setReadCallback os p None s2; d \<leftarrow> io_devices s p;
            s \<leftarrow> addSocketTimer os (dv_id d) (tc_accept_pause s) OnListenSocketResumeRead s; delete_socket os q s }) = Some s'"
          "fine pending {p} {} s s'" by (rule pause_spec [OF k inv l q(3) e att])
        then have "accept_step os app p s = Some (Inl s')"
          using 3 True False q(1) s2(1) by (auto simp: accept_step_def bind_eq_Some_conv)
        with s'(2) show ?thesis by blast
      next
        case False
        then have "accept_step os app p s = Some (Inl s3)"
          using 3 False \<open>\<not> ok\<close> q(1) s2(1) del by (auto simp: accept_step_def)
        with same show ?thesis by blast
      qed
    qed
  next
    case True
    have less: "pending w < pending (io_world s)" using s2(3) True s1(4) e(1) by simp
    let ?s = "called (io_errno s) w s"
    have fs: "fine pending {p} {} s ?s"
      using inv_parts(2) [OF inv] e(2) by (intro fine_same [OF inv]) (simp_all add: tables_def misc_def value_ok_def)
    then have inv': "tcp_inv ?s" by (simp add: fine_def)
    have dr': "draft pending q d2 ?s s2" 
    proof -
      obtain fd where "d2 = device_new\<lparr>dv_fd := fd\<rparr>" using dr by (auto simp: draft_def)
      then show ?thesis using e(1) unfolding draft_def by (intro exI [of _ e] exI [of _ w] exI [of _ fd]) simp
    qed
    have q': "io_devices ?s q = None" using q(3) by simp
    obtain i s4 where s4: "(do { r \<leftarrow> buildConnectedSocket os q s2; unless_released os q r }) = Some (i, s4)" "opened pending (Some CONNECTED) ?s i s4"
      by (rule buildConnectedSocket_opened [OF k inv' q' dr'])
    then obtain r where r: "buildConnectedSocket os q s2 = Some r" "unless_released os q r = Some (i, s4)" by (auto simp: bind_eq_Some_conv)
    have f4: "fine pending {p} {} s s4" by (rule fine_trans [OF fs opened_fine [OF s4(2)]])
    have less4: "pending (io_world s4) < pending (io_world s)" using s4(2) less by (simp add: opened_def)
    show ?thesis
    proof (cases "i = -1")
      case im: True
      then have "accept_step os app p s = Some (Inl s4)" using True q(1) s2(1) r by (simp add: accept_step_def)
      with f4 show ?thesis by blast
    next
      case False
      have o: "tcp_inv s4" "extends ?s s4" "tc_sockets s i = None" "tc_connections s4 i \<noteq> None"
        using s4(2) False by (auto simp: opened_def)
      have i: "dv_id d \<noteq> i" using o(3) p(2) by auto
      have l4: "listens s4 p d"
        by (rule listens_extends [OF _ o(2)]) (use l in \<open>simp add: listens_def\<close>)
      have "app_pre (NewConnection (dv_id d) i) s4" using o(4) by simp
      then obtain s5 where s5: "app_if (tc_new_conn_cb s4) app (NewConnection (dv_id d) i) s4 = Some s5" "fine pending {} {} s4 s5"
        "tc_new_conn_cb s4 \<longrightarrow> app_post (NewConnection (dv_id d) i) s4 s5" "\<not> tc_new_conn_cb s4 \<longrightarrow> s5 = s4"
        using app_if_fine [OF app o(1), of "tc_new_conn_cb s4" "NewConnection (dv_id d) i"] by metis
      have "listens s5 p d"
      proof (cases "tc_new_conn_cb s4")
        case True
        then have "app_post (NewConnection (dv_id d) i) s4 s5" using s5(3) by blast
        then show ?thesis using l4 i by (simp add: listens_def)
      next
        case False
        then show ?thesis using s5(4) l4 by simp
      qed
      moreover have "fine pending {p} {} s s5" by (rule fine_trans [OF f4 fine_mono [OF s5(2)]]) simp_all
      moreover have "pending (io_world s5) < pending (io_world s)" using s5(2) less4 by (simp add: fine_def)
      moreover have "accept_step os app p s = Some (Inr s5)"
        using True False q(1) s2(1) r l4 s5(1) by (simp add: accept_step_def listens_def)
      ultimately show ?thesis by blast
    qed
  qed
qed

lemma onListenSocketRead_fine:
  assumes k: "kernel_ok os pending" and app: "good_app pending app"
  shows "tcp_inv s \<Longrightarrow> listens s p d \<Longrightarrow> \<exists>s'. onListenSocketRead os app p s = Some s' \<and> fine pending {p} {} s s'"
proof (induction "pending (io_world s)" arbitrary: s rule: less_induct)
  case less
  note unfold = onListenSocketRead.simps [of os app p s]
  consider s' where "accept_step os app p s = Some (Inl s')" "fine pending {p} {} s s'"
    | s' where "accept_step os app p s = Some (Inr s')" "fine pending {p} {} s s'" "listens s' p d" "pending (io_world s') < pending (io_world s)"
    using accept_step_safe [OF k app less.prems] by blast
  then show ?case
  proof cases
    case 1
    then show ?thesis using unfold by simp
  next
    case 2
    obtain s2 where "onListenSocketRead os app p s' = Some s2" "fine pending {p} {} s' s2"
      using less.hyps [OF 2(4) _ 2(3)] 2(2) by (auto simp: fine_def)
    then show ?thesis using unfold 2(1) fine_trans [OF 2(2)] by auto
  qed
qed

end
