(* ===== verification/TcpRead.thy ===== *)
theory TcpRead
  imports TcpAccept
begin

text \<open>\<open>onSocketRead\<close>: the loop ends, receives what the relation \<open>receives\<close> says, and keeps the invariant.\<close>

section \<open>Receiving\<close>

text \<open>
  The loop of \<open>onSocketRead\<close> as a relation on what the connection holds: the bytes received so
  far, \<open>errno\<close> and the world. It asks how much waits, at least one byte, stops when that would exceed
  the limit, and otherwise receives until the call says that there is no more.
\<close>

datatype read_end = Drained | Full | Eof | Failed int

definition want :: "int \<Rightarrow> int \<Rightarrow> nat" where
  "want r n = nat (max 1 (if r = -1 then -1 else n))"

inductive receives :: "'w sys \<Rightarrow> int \<Rightarrow> nat \<Rightarrow> bytes \<Rightarrow> int \<times> 'w \<Rightarrow> bytes \<Rightarrow> read_end \<Rightarrow> int \<times> 'w \<Rightarrow> bool"
  for os fd limit where
  rc_full: "sy_fionread os fd ew = ((r, n), ew1) \<Longrightarrow> limit < want r n + length q \<Longrightarrow>
    receives os fd limit q ew q Full ew1"
| rc_data: "sy_fionread os fd ew = ((r, n), ew1) \<Longrightarrow> want r n + length q \<le> limit \<Longrightarrow>
    sy_recv os fd (want r n) ew1 = ((m, bs), ew2) \<Longrightarrow> 0 < m \<Longrightarrow>
    receives os fd limit (q @ bs) ew2 q' how ew' \<Longrightarrow> receives os fd limit q ew q' how ew'"
| rc_eof: "sy_fionread os fd ew = ((r, n), ew1) \<Longrightarrow> want r n + length q \<le> limit \<Longrightarrow>
    sy_recv os fd (want r n) ew1 = ((0, bs), ew2) \<Longrightarrow> receives os fd limit q ew q Eof ew2"
| rc_drained: "sy_fionread os fd ew = ((r, n), ew1) \<Longrightarrow> want r n + length q \<le> limit \<Longrightarrow>
    sy_recv os fd (want r n) ew1 = ((m, bs), EAGAIN, w) \<Longrightarrow> m < 0 \<Longrightarrow> receives os fd limit q ew q Drained (EAGAIN, w)"
| rc_failed: "sy_fionread os fd ew = ((r, n), ew1) \<Longrightarrow> want r n + length q \<le> limit \<Longrightarrow>
    sy_recv os fd (want r n) ew1 = ((m, bs), e, w) \<Longrightarrow> m < 0 \<Longrightarrow> e \<noteq> EAGAIN \<Longrightarrow>
    receives os fd limit q ew q (Failed e) (e, w)"

lemma receives_prefix: "receives os fd limit q ew q' how ew' \<Longrightarrow> \<exists>bs. q' = q @ bs"
  by (induction rule: receives.induct) auto

lemma recv_bound:
  assumes "transfer_ok os" "sy_recv os fd n ew = ((m, bs), ew')"
  shows "-1 \<le> m \<and> m \<le> int n \<and> m < 2 ^ 31 \<and> length bs = nat m"
proof -
  have "\<forall>fd n e w r bs e' w'. sy_recv os fd n (e, w) = ((r, bs), e', w') \<longrightarrow>
    -1 \<le> r \<and> r \<le> int n \<and> r < 2 ^ 31 \<and> length bs = nat r"
    using assms(1) unfolding transfer_ok_def by (elim conjE)
  from this [rule_format, of fd n "fst ew" "snd ew" m bs "fst ew'" "snd ew'"] show ?thesis using assms(2) by simp
qed

lemma receives_limit: "receives os fd limit q ew q' how ew' \<Longrightarrow> transfer_ok os \<Longrightarrow> length q \<le> limit \<Longrightarrow> length q' \<le> limit"
proof (induction rule: receives.induct)
  case (rc_data ew r n ew1 q m bs ew2 q' how ew')
  have "length bs = nat m" "m \<le> int (want r n)" using recv_bound [OF rc_data.prems(1) rc_data.hyps(3)] by simp_all
  then show ?case using rc_data by simp
qed simp_all

fun way_out :: "read_end \<Rightarrow> 's \<Rightarrow> 's read_turn" where
  "way_out Drained s = Break False s"
| "way_out Full s = Break True s"
| "way_out Eof s = Break True s"
| "way_out (Failed e) s = Error s"

fun ended :: "read_end \<Rightarrow> connection \<Rightarrow> connection" where
  "ended (Failed e) k = k\<lparr>cn_status := PENDING_ERROR, cn_error := e\<rparr>"
| "ended _ k = k"

lemma ended_other [simp]: "cn_read (ended how k) = cn_read k" "cn_write (ended how k) = cn_write k"
  "cn_socket (ended how k) = cn_socket k" "cn_complete (ended how k) = cn_complete k"
  by (cases how; simp)+

text \<open>Room in the read buffer, and what the call stored there.\<close>

lemma receive_into:
  assumes b: "buf_ok b" and n: "db_readableBytes b + n \<le> 2 ^ 61" and bs: "length bs \<le> n"
  obtains b1 b2 where "db_reserveWritableBytes b n = Some b1" "db_writeBegin b1 0 bs = Some b2"
    "buf_ok b2" "db_data b2 = db_data b" "buf_ok (db_write b2 (length bs))" "db_data (db_write b2 (length bs)) = db_data b @ bs"
proof -
  have wf: "db_wf b" using b by (simp add: buf_ok_def)
  have "db_room b n" by (rule buf_ok_room [OF b]) (use n in simp)
  then obtain b1 where b1: "db_reserveWritableBytes b n = Some b1" "db_wf b1" "db_data b1 = db_data b"
    "n \<le> db_writableBytes b1" "db_expand_size b1 = db_expand_size b"
    "length (db_buffer b1) \<le> max (length (db_buffer b)) (db_readableBytes b + n + db_expand_size b)"
    by (rule db_reserve_spec [OF wf])
  let ?buf = "take (db_write_index b1) (db_buffer b1) @ bs @ drop (db_write_index b1 + length bs) (db_buffer b1)"
  let ?b2 = "b1\<lparr>db_buffer := ?buf\<rparr>"
  let ?b3 = "db_write ?b2 (length bs)"
  have i: "db_read_index b1 \<le> db_write_index b1" "db_write_index b1 + length bs \<le> length (db_buffer b1)"
    "length ?buf = length (db_buffer b1)" using b1(2,4) bs by (auto simp: db_wf_def db_defs)
  have b3: "?b3 = ?b2\<lparr>db_write_index := db_write_index b1 + length bs\<rparr>" using i by (simp add: db_write_def db_defs)
  have len: "db_readableBytes b1 = db_readableBytes b" using length_db_data [OF wf] length_db_data [OF b1(2)] b1(3) by simp
  have small: "length ?buf < 2 ^ 62" "db_expand_size b < 2 ^ 61" using i(3) b1(6) b n by (auto simp: buf_ok_def)
  have wfs: "db_wf ?b2" "db_wf ?b3" using b1(2) i by (auto simp: db_wf_def b3)
  show thesis
  proof (rule that)
    show "db_reserveWritableBytes b n = Some b1" by (rule b1(1))
    show "db_writeBegin b1 0 bs = Some ?b2" using i by (simp add: db_writeBegin_def mem_write_def)
    have "db_readableBytes ?b2 = db_readableBytes b1" "db_readableBytes ?b3 = db_readableBytes b1 + length bs"
      using i by (simp_all add: b3 db_readableBytes_def)
    then show "buf_ok ?b2" "buf_ok ?b3" using wfs small n bs b1(5) len by (simp_all add: buf_ok_def b3)
    show "db_data ?b2 = db_data b" using i by (simp only: b1(3) [symmetric]) (simp add: db_data_def drop_take)
    show "db_data ?b3 = db_data b @ bs" using i by (simp only: b1(3) [symmetric]) (simp add: b3 db_data_def drop_take)
  qed
qed

text \<open>One turn. The read buffer may have been compacted or have grown, its contents are the same.\<close>

lemma read_step_spec:
  assumes k: "kernel_ok os pending" and lim: "tc_read_max s \<le> 2 ^ 61" "0 < tc_read_max s"
    and at: "io_devices s p = Some d" "tc_conns s c = Some kk" "buf_ok (cn_read kk)"
  obtains (stop) how b e w where "read_step os p c s = Some (way_out how (called e w (upd_conn c (ended how (kk\<lparr>cn_read := b\<rparr>)) s)))"
      "buf_ok b" "db_data b = db_data (cn_read kk)" "pending w \<le> pending (io_world s)"
      "receives os (dv_fd d) (tc_read_max s) (db_data (cn_read kk)) (io_errno s, io_world s) (db_data (cn_read kk)) how (e, w)"
    | (data) b e w bs where "read_step os p c s = Some (Again (called e w (upd_conn c (kk\<lparr>cn_read := b\<rparr>) s)))"
      "buf_ok b" "db_data b = db_data (cn_read kk) @ bs" "bs \<noteq> []" "pending w \<le> pending (io_world s)"
      "length (db_data b) \<le> tc_read_max s"
      "\<And>q' how ew'. receives os (dv_fd d) (tc_read_max s) (db_data b) (e, w) q' how ew' \<Longrightarrow>
        receives os (dv_fd d) (tc_read_max s) (db_data (cn_read kk)) (io_errno s, io_world s) q' how ew'"
proof -
  let ?q = "db_data (cn_read kk)" and ?max = "tc_read_max s"
  have len: "db_readableBytes (cn_read kk) = length ?q" using at(3) length_db_data by (simp add: buf_ok_def)
  have trans: "transfer_ok os" using k by (simp add: kernel_ok_def)
  obtain rn e1 w1 where f: "syscall (sy_fionread os (dv_fd d)) s = (rn, called e1 w1 s)"
    "sy_fionread os (dv_fd d) (io_errno s, io_world s) = (rn, e1, w1)" "pending w1 \<le> pending (io_world s)"
    by (rule syscall_quiet [OF kernel_quiet(9) [OF k]])
  obtain r n where rn: "rn = (r, n)" by (cases rn)
  let ?n = "want r n"
  have "n < 2 ^ 31" using trans f(2) rn unfolding transfer_ok_def by blast
  then have "?n \<le> 2 ^ 31" by (simp add: want_def nat_le_iff)
  moreover have "length ?q \<le> 2 ^ 61" using at(3) len by (simp add: buf_ok_def)
  ultimately have nowrap: "sz (?n + length ?q) = ?n + length ?q" by (simp add: sz_def)
  have rd: "readableBytes os p s = Some (if r = -1 then -1 else n, called e1 w1 s)"
    using f(1) rn at(1) by (simp add: readableBytes_def)
  show thesis
  proof (cases "?max < ?n + length ?q")
    case True
    have eq: "called e1 w1 (upd_conn c (ended Full (kk\<lparr>cn_read := cn_read kk\<rparr>)) s) = called e1 w1 s"
      using at(2) by (simp add: upd_conn_def fun_upd_idem)
    have "read_step os p c s = Some (Break True (called e1 w1 s))"
      using rd at(2) lim(2) True len nowrap by (simp add: read_step_def want_def Let_def)
    then show thesis
      by (intro stop [where how = Full and b = "cn_read kk" and e = e1 and w = w1]) (use at(3) f(2,3) rn eq rc_full [OF _ True] in simp_all)
  next
    case False
    let ?s1 = "called e1 w1 s"
    obtain mb e2 w2 where "syscall (sy_recv os (dv_fd d) ?n) ?s1 = (mb, called e2 w2 ?s1)"
      "sy_recv os (dv_fd d) ?n (io_errno ?s1, io_world ?s1) = (mb, e2, w2)" "pending w2 \<le> pending (io_world ?s1)"
      by (rule syscall_quiet [OF kernel_quiet(10) [OF k]])
    then have g: "syscall (sy_recv os (dv_fd d) ?n) ?s1 = (mb, called e2 w2 s)"
      "sy_recv os (dv_fd d) ?n (e1, w1) = (mb, e2, w2)" "pending w2 \<le> pending w1" by simp_all
    obtain m bs where mb: "mb = (m, bs)" by (cases mb)
    have m: "-1 \<le> m" "m \<le> int ?n" "m < 2 ^ 31" "length bs = nat m" using recv_bound [OF trans g(2) [unfolded mb]] by simp_all
    have rv: "tcp_recv os p ?n (called e1 w1 s) = Some ((m, bs), called e2 w2 s)"
      using g(1) mb at(1) int32_small [of m] m by (simp add: tcp_recv_def)
    have "db_readableBytes (cn_read kk) + ?n \<le> 2 ^ 61" using False len lim(1) by simp
    moreover have "length bs \<le> ?n" using m by simp
    ultimately obtain b1 b2 where b: "db_reserveWritableBytes (cn_read kk) ?n = Some b1" "db_writeBegin b1 0 bs = Some b2"
      "buf_ok b2" "db_data b2 = ?q" "buf_ok (db_write b2 (length bs))" "db_data (db_write b2 (length bs)) = ?q @ bs"
      by (rule receive_into [OF at(3)])
    let ?s2 = "called e2 w2 (upd_conn c (kk\<lparr>cn_read := b2\<rparr>) s)"
    have sets: "set_read_buffer c b2 (called e2 w2 s) = Some ?s2"
      "set_read_buffer c (db_write b2 (nat m)) ?s2 = Some (called e2 w2 (upd_conn c (kk\<lparr>cn_read := db_write b2 (nat m)\<rparr>) s))"
      "setError c e2 ?s2 = Some (called e2 w2 (upd_conn c (ended (Failed e2) (kk\<lparr>cn_read := b2\<rparr>)) s))"
      using at(2) by (simp_all add: set_read_buffer_def setError_def set_conn_def upd_conn_def)
    have step: "read_step os p c s = (if m > 0 then Some (Again (called e2 w2 (upd_conn c (kk\<lparr>cn_read := db_write b2 (nat m)\<rparr>) s)))
      else if m < 0 then if e2 = EAGAIN then Some (Break False ?s2)
        else Some (Error (called e2 w2 (upd_conn c (ended (Failed e2) (kk\<lparr>cn_read := b2\<rparr>)) s)))
      else Some (Break True ?s2))"
      using rd at(2) lim(2) False len nowrap rv b(1,2) sets
      by (simp add: read_step_def want_def Let_def cong: if_cong)
    have pend: "pending w2 \<le> pending (io_world s)" using f(3) g(3) by simp
    have f': "sy_fionread os (dv_fd d) (io_errno s, io_world s) = ((r, n), e1, w1)" using f(2) rn by simp
    have g': "sy_recv os (dv_fd d) ?n (e1, w1) = ((m, bs), e2, w2)" using g(2) mb by simp
    have fits: "?n + length ?q \<le> ?max" using False by simp
    consider "0 < m" | "m = 0" | "m < 0" "e2 = EAGAIN" | "m < 0" "e2 \<noteq> EAGAIN" by linarith
    then show thesis
    proof cases
      case 1
      then have eq: "nat m = length bs" "bs \<noteq> []" using m(4) by auto
      show thesis
        by (rule data [where b = "db_write b2 (nat m)" and e = e2 and w = w2 and bs = bs])
          (use step 1 eq b(5,6) pend fits m(1-2) rc_data [OF f' fits g' 1] in simp_all)
    next
      case 2
      show thesis
        by (rule stop [where how = Eof and b = b2 and e = e2 and w = w2])
          (use step 2 b(3,4) pend rc_eof [OF f' fits] g' in simp_all)
    next
      case 3
      show thesis
        by (rule stop [where how = Drained and b = b2 and e = e2 and w = w2])
          (use step 3 b(3,4) pend rc_drained [OF f' fits] g' in simp_all)
    next
      case 4
      show thesis
        by (rule stop [where how = "Failed e2" and b = b2 and e = e2 and w = w2])
          (use step 4 b(3,4) pend rc_failed [OF f' fits g'] in simp_all)
    qed
  qed
qed

text \<open>The loop: it ends, with what \<open>receives\<close> says.\<close>

lemma read_loop_spec:
  assumes k: "kernel_ok os pending"
  shows "tc_read_max s \<le> 2 ^ 61 \<Longrightarrow> 0 < tc_read_max s \<Longrightarrow> io_devices s p = Some d \<Longrightarrow> tc_conns s c = Some kk \<Longrightarrow> buf_ok (cn_read kk) \<Longrightarrow>
    \<exists>how b e w. read_loop os p c arrived s = Some (arrived \<or> db_data b \<noteq> db_data (cn_read kk),
        way_out how (called e w (upd_conn c (ended how (kk\<lparr>cn_read := b\<rparr>)) s))) \<and>
      buf_ok b \<and> pending w \<le> pending (io_world s) \<and>
      receives os (dv_fd d) (tc_read_max s) (db_data (cn_read kk)) (io_errno s, io_world s) (db_data b) how (e, w)"
proof (induction "tc_read_max s - length (db_data (cn_read kk))" arbitrary: s kk arrived rule: less_induct)
  case less
  note unfold = read_loop.simps [of os p c arrived s]
  show ?case
  proof (rule read_step_spec [OF k less.prems], goal_cases)
    case (1 how b e w)
    then have "read_loop os p c arrived s = Some (arrived, way_out how (called e w (upd_conn c (ended how (kk\<lparr>cn_read := b\<rparr>)) s)))"
      using unfold by (cases how) simp_all
    then show ?case using 1 by (intro exI [of _ how] exI [of _ b] exI [of _ e] exI [of _ w]) simp
  next
    case (2 b e w bs)
    let ?k = "kk\<lparr>cn_read := b\<rparr>"
    let ?s = "called e w (upd_conn c ?k s)"
    have same: "tc_read_max ?s = tc_read_max s" "io_devices ?s = io_devices s" "tc_conns ?s c = Some ?k" by (simp_all add: upd_conn_def)
    have "length (db_data (cn_read kk)) < length (db_data b)" using 2(3,4) by simp
    then have "tc_read_max ?s - length (db_data (cn_read ?k)) < tc_read_max s - length (db_data (cn_read kk))"
      unfolding same(1) using 2(6) by simp
    then obtain how b' e' w' where r: "read_loop os p c True ?s = Some (True \<or> db_data b' \<noteq> db_data (cn_read ?k),
        way_out how (called e' w' (upd_conn c (ended how (?k\<lparr>cn_read := b'\<rparr>)) ?s)))"
      "buf_ok b'" "pending w' \<le> pending (io_world ?s)"
      "receives os (dv_fd d) (tc_read_max ?s) (db_data (cn_read ?k)) (io_errno ?s, io_world ?s) (db_data b') how (e', w')"
      using less.hyps [of ?s ?k True] less.prems 2(2) same by auto
    have rcv: "receives os (dv_fd d) (tc_read_max s) (db_data (cn_read kk)) (io_errno s, io_world s) (db_data b') how (e', w')"
      by (rule 2(7)) (use r(4) same(1) in simp)
    obtain bs' where "db_data b' = db_data b @ bs'" using receives_prefix [OF r(4)] by auto
    then have ne: "db_data b' \<noteq> db_data (cn_read kk)" using 2(3,4) by simp
    have eq: "called e' w' (upd_conn c (ended how (?k\<lparr>cn_read := b'\<rparr>)) ?s) = called e' w' (upd_conn c (ended how (kk\<lparr>cn_read := b'\<rparr>)) s)"
      by (simp add: upd_conn_def)
    have "read_loop os p c arrived s = Some (True, way_out how (called e' w' (upd_conn c (ended how (kk\<lparr>cn_read := b'\<rparr>)) s)))"
      using unfold 2(1) r(1) eq by simp
    then show ?case using r(2,3) rcv 2(5) ne
      by (intro exI [of _ how] exI [of _ b'] exI [of _ e'] exI [of _ w']) simp
  qed
qed

text \<open>\<open>onSocketRead\<close>: the connection holds what \<open>receives\<close> says, then the application is called.\<close>

definition after_read :: "'w application \<Rightarrow> int \<Rightarrow> nat \<Rightarrow> bool \<Rightarrow> read_end \<Rightarrow> 'w tcp \<Rightarrow> 'w tcp option" where
  "after_read app i c arrived how s =
     (case how of
        Failed e \<Rightarrow> app_if (tc_error_cb s) app (ErrorOccurred i e) s
      | _ \<Rightarrow> do {
          s \<leftarrow> app_if (arrived \<and> tc_recv_message_cb s) app (RecvMessage i c) s;
          if how = Drained \<or> arrived \<and> tc_connections s i = None then Some s
          else do {
            s \<leftarrow> setStatus c PEER_CLOSED s;
            app_if (tc_peer_close_cb s) app (PeerClose i) s } })"

lemma conn_state_read:
  assumes "conn_state t d kk" "dv_read d = Some OnSocketRead" "buf_ok b"
  shows "conn_state t d (ended how (kk\<lparr>cn_read := b\<rparr>))"
proof -
  have "conn_state t d (kk\<lparr>cn_read := b\<rparr>)" "dv_write d \<noteq> Some OnAsyncConnectSocketWrite"
    using assms by (auto simp: conn_state_def)
  then show ?thesis by (cases how) (auto simp: conn_state_def)
qed

lemma onSocketRead_spec:
  assumes k: "kernel_ok os pending" and inv: "tcp_inv s" and at: "conn_at s i c p d kk" and rd: "dv_read d = Some OnSocketRead"
  obtains how b e w s1 where "onSocketRead os app p s = after_read app i c (db_data b \<noteq> db_data (cn_read kk)) how s1"
    "s1 = called e w (upd_conn c (ended how (kk\<lparr>cn_read := b\<rparr>)) s)"
    "receives os (dv_fd d) (tc_read_max s) (db_data (cn_read kk)) (io_errno s, io_world s) (db_data b) how (e, w)"
    "fine pending {} {} s s1" "conn_at s1 i c p d (ended how (kk\<lparr>cn_read := b\<rparr>))"
proof -
  have at': "io_devices s p = Some d" "tc_connections s i = Some c" "tc_conns s c = Some kk" "device_ok i d" "dv_id d = i" "cn_socket kk = p"
    "conn_state (tc_socket_timer s i) d kk" "buf_ok (cn_read kk)" using at by (simp_all add: conn_at_def device_ok_def conn_state_def)
  have lim: "tc_read_max s \<le> 2 ^ 61" "0 < tc_read_max s" using inv by (simp_all add: tcp_inv_def tcp_invx_def limits_ok_def)
  obtain how b e w where r: "read_loop os p c False s = Some (False \<or> db_data b \<noteq> db_data (cn_read kk),
        way_out how (called e w (upd_conn c (ended how (kk\<lparr>cn_read := b\<rparr>)) s)))"
      "buf_ok b" "pending w \<le> pending (io_world s)"
      "receives os (dv_fd d) (tc_read_max s) (db_data (cn_read kk)) (io_errno s, io_world s) (db_data b) how (e, w)"
    using read_loop_spec [where arrived = False, OF k lim at'(1,3,8)] by blast
  let ?k = "ended how (kk\<lparr>cn_read := b\<rparr>)"
  let ?s = "called e w (upd_conn c ?k s)"
  have eq: "?s = called e w (upd_conn c ?k (upd_socket p d s))" using at'(1) by (simp add: upd_socket_def)
  have new: "device_ok i d" "cn_socket ?k = p" "conn_state (tc_socket_timer s i) d ?k"
    using at'(4,6) conn_state_read [OF at'(7) rd r(2)] by simp_all
  have 1: "fine pending {} {} s ?s" "conn_at ?s i c p d ?k"
    by (rule conn_update_fine [OF inv at eq r(3) new]; auto)+
  have "tc_conns ?s c = Some ?k" by (simp add: upd_conn_def)
  then have "onSocketRead os app p s = after_read app i c (db_data b \<noteq> db_data (cn_read kk)) how ?s"
    using at'(1,2,5) r(1) by (cases how) (simp_all add: onSocketRead_def after_read_def Let_def cong: if_cong)
  then show thesis by (rule that [OF _ refl r(4) 1])
qed

lemma peer_closed_fine:
  assumes app: "good_app pending app" and inv: "tcp_inv s" and at: "conn_at s i c p d kk"
  shows "\<exists>s'. do { s \<leftarrow> setStatus c PEER_CLOSED s; app_if (tc_peer_close_cb s) app (PeerClose i) s } = Some s' \<and> fine pending {} {} s s'"
proof -
  let ?k = "kk\<lparr>cn_status := PEER_CLOSED\<rparr>"
  let ?s = "upd_conn c ?k s"
  have cs: "conn_state (tc_socket_timer s i) d ?k" "cn_socket ?k = p" "device_ok i d"
    using at by (auto simp: conn_at_def conn_state_def)
  have eq: "?s = called (io_errno s) (io_world s) (upd_conn c ?k (upd_socket p d s))"
    using at by (simp add: upd_conn_def upd_socket_def conn_at_def)
  have 1: "fine pending {} {} s ?s" "conn_at ?s i c p d ?k"
    by (rule conn_update_fine [OF inv at eq _ cs(3,2,1)]; auto)+
  have set: "setStatus c PEER_CLOSED s = Some ?s" using set_conn_at [OF at] by (simp add: setStatus_def)
  obtain s' where "app_if (tc_peer_close_cb ?s) app (PeerClose i) ?s = Some s'" "fine pending {} {} ?s s'"
    by (rule app_if_fine [OF app, where s = ?s and b = "tc_peer_close_cb ?s" and e = "PeerClose i"])
      (use 1 in \<open>simp_all add: conn_at_def fine_def\<close>)
  then show ?thesis using set fine_trans [OF 1(1)] by auto
qed

lemma after_read_fine:
  assumes app: "good_app pending app" and inv: "tcp_inv s" and at: "conn_at s i c p d kk" and rd: "dv_read d = Some OnSocketRead"
  shows "\<exists>s'. after_read app i c arrived how s = Some s' \<and> fine pending {} {} s s'"
proof (cases "\<exists>e. how = Failed e")
  case True
  then obtain e where e: "how = Failed e" ..
  obtain s' where "app_if (tc_error_cb s) app (ErrorOccurred i e) s = Some s'" "fine pending {} {} s s'"
    by (rule app_if_fine [OF app inv, where b = "tc_error_cb s" and e = "ErrorOccurred i e"]) (use at in \<open>simp_all add: conn_at_def\<close>)
  then show ?thesis using e by (simp add: after_read_def)
next
  case False
  have pre: "app_pre (RecvMessage i c) s" using at by (simp add: conn_at_def)
  obtain s1 where s1: "app_if (arrived \<and> tc_recv_message_cb s) app (RecvMessage i c) s = Some s1" "fine pending {} {} s s1"
    "arrived \<and> tc_recv_message_cb s \<Longrightarrow> app_post (RecvMessage i c) s s1" "\<not> (arrived \<and> tc_recv_message_cb s) \<Longrightarrow> s1 = s"
    by (rule app_if_fine [OF app inv, where b = "arrived \<and> tc_recv_message_cb s" and e = "RecvMessage i c"]) (use pre in blast)+
  show ?thesis
  proof (cases "how = Drained \<or> arrived \<and> tc_connections s1 i = None")
    case True
    then have "after_read app i c arrived how s = Some s1" using False s1(1) by (cases how) (auto simp: after_read_def)
    with s1(2) show ?thesis by blast
  next
    case go: False
    have c: "tc_connections s1 i = Some c" using s1(3,4) go pre by (cases "arrived \<and> tc_recv_message_cb s") auto
    have inv1: "tcp_inv s1" using s1(2) by (simp add: fine_def)
    obtain p1 d1 k1 where at1: "conn_at s1 i c p1 d1 k1" by (rule conn_atE [OF inv1 c])
    have "\<exists>s'. do { s \<leftarrow> setStatus c PEER_CLOSED s1; app_if (tc_peer_close_cb s) app (PeerClose i) s } = Some s' \<and> fine pending {} {} s1 s'"
      by (rule peer_closed_fine [OF app inv1 at1])
    then obtain s2 where "do { s \<leftarrow> setStatus c PEER_CLOSED s1; app_if (tc_peer_close_cb s) app (PeerClose i) s } = Some s2" "fine pending {} {} s1 s2" by blast
    then show ?thesis using False go s1(1) fine_trans [OF s1(2)] by (cases how) (auto simp: after_read_def)
  qed
qed

lemma onSocketRead_fine:
  assumes k: "kernel_ok os pending" and app: "good_app pending app" and inv: "tcp_inv s" and d: "io_devices s p = Some d"
    and rd: "dv_read d = Some OnSocketRead"
  shows "\<exists>s'. onSocketRead os app p s = Some s' \<and> fine pending {p} {} s s'"
proof (rule device_cases [OF inv d])
  assume "listen_state (tc_socket_timer s (dv_id d)) d"
  with rd show ?thesis by (simp add: listen_state_def split: if_splits)
next
  fix c kk
  assume at: "conn_at s (dv_id d) c p d kk"
  show ?thesis
  proof (rule onSocketRead_spec [where app = app, OF k inv at rd], goal_cases)
    case (1 how b e w s1)
    have inv1: "tcp_inv s1" using 1(4) by (simp add: fine_def)
    obtain s2 where s2: "after_read app (dv_id d) c (db_data b \<noteq> db_data (cn_read kk)) how s1 = Some s2" "fine pending {} {} s1 s2"
      using after_read_fine [OF app inv1 1(5) rd] by blast
    have "fine pending {p} {} s s2" by (rule fine_mono [OF fine_trans [OF 1(4) s2(2)]]) auto
    then show ?case using 1(1) s2(1) by simp
  qed
qed

end
