(* ===== verification/TcpSafety.thy ===== *)
theory TcpSafety
  imports TcpRead
begin

text \<open>
  The service provides what the event loop expects of the owner of its callbacks: the interpretation
  \<open>tcp\<close> of the locale \<open>event_handlers\<close>.
\<close>

section \<open>The service under the event loop\<close>

lemma device_callbacks:
  assumes "tcp_inv s" "io_devices s p = Some d"
  shows "dv_write d \<in> {None, Some OnAsyncConnectSocketWrite, Some OnSocketWrite}" "dv_read d \<in> {None, Some OnListenSocketRead, Some OnSocketRead}"
proof -
  have "dv_write d \<in> {None, Some OnAsyncConnectSocketWrite, Some OnSocketWrite} \<and> dv_read d \<in> {None, Some OnListenSocketRead, Some OnSocketRead}"
  proof (rule device_cases [OF assms])
    assume "listen_state (tc_socket_timer s (dv_id d)) d"
    then show ?thesis by (simp add: listen_state_def)
  next
    fix c k
    assume "conn_at s (dv_id d) c p d k"
    then have "conn_state (tc_socket_timer s (dv_id d)) d k" by (simp add: conn_at_def)
    then show ?thesis unfolding conn_state_def by (cases "db_data (cn_write k) = []"; cases "dv_write d = Some OnAsyncConnectSocketWrite") simp_all
  qed
  then show "dv_write d \<in> {None, Some OnAsyncConnectSocketWrite, Some OnSocketWrite}" "dv_read d \<in> {None, Some OnListenSocketRead, Some OnSocketRead}" by simp_all
qed

definition service_inv :: "'w sys \<Rightarrow> ('w \<Rightarrow> nat) \<Rightarrow> 'w application \<Rightarrow> 'w tcp \<Rightarrow> bool" where
  "service_inv os pending app s \<longleftrightarrow> kernel_ok os pending \<and> good_app pending app \<and> tcp_inv s"

interpretation tcp: event_handlers "run_device os app" "fire_timer os app" "service_inv os pending app"
proof
  fix s :: "'a tcp" and p d cb
  assume inv: "service_inv os pending app s" and d: "io_devices s p = Some d"
  then have i: "kernel_ok os pending" "good_app pending app" "tcp_inv s" by (simp_all add: service_inv_def)
  note k = this
  show "dv_write d = Some cb \<Longrightarrow> \<exists>s'. run_device os app cb p s = Some s' \<and> service_inv os pending app s' \<and> keeps {} {p} s s'"
  proof -
    assume cb: "dv_write d = Some cb"
    then consider "cb = OnAsyncConnectSocketWrite" | "cb = OnSocketWrite" using device_callbacks(1) [OF i(3) d] by auto
    then have "\<exists>s'. run_device os app cb p s = Some s' \<and> fine pending {} {p} s s'"
      using onAsyncConnectSocketWrite_fine [OF i d] onSocketWrite_fine [OF i d] cb by cases (simp_all add: run_device_def)
    then show ?thesis using i unfolding service_inv_def fine_def by blast
  qed
  show "dv_read d = Some cb \<Longrightarrow> \<exists>s'. run_device os app cb p s = Some s' \<and> service_inv os pending app s' \<and> keeps {p} {} s s'"
  proof -
    assume cb: "dv_read d = Some cb"
    then consider "cb = OnListenSocketRead" | "cb = OnSocketRead" using device_callbacks(2) [OF i(3) d] by auto
    then have "\<exists>s'. run_device os app cb p s = Some s' \<and> fine pending {p} {} s s'"
      using onListenSocketRead_fine [OF i listensI [OF i(3) d]] onSocketRead_fine [OF i d] cb by cases (simp_all add: run_device_def)
    then show ?thesis using i unfolding service_inv_def fine_def by blast
  qed
  show "dv_error d = Some cb \<Longrightarrow> \<exists>s'. run_device os app cb p s = Some s' \<and> service_inv os pending app s' \<and> keeps {} {} s s'"
  proof -
    assume "dv_error d = Some cb"
    then have "cb = OnSocketError" using device_socket [OF i(3) [unfolded tcp_inv_def] d] by (simp add: device_ok_def)
    then have "\<exists>s'. run_device os app cb p s = Some s' \<and> fine pending {} {} s s'"
      using onSocketError_fine [OF i d] by (simp add: run_device_def)
    then show ?thesis using i unfolding service_inv_def fine_def by blast
  qed
next
  fix s :: "'a tcp" and w e X n
  assume "service_inv os pending app s"
  moreover from this have "tcp_inv (s\<lparr>io_errno := e, io_world := w, io_removed := X, io_events_size := n\<rparr>)"
    unfolding service_inv_def tcp_inv_def
    by (elim conjE) (rule tcp_invx_same, assumption, simp_all add: tables_def misc_def value_ok_def tcp_invx_def)
  ultimately show "service_inv os pending app (s\<lparr>io_errno := e, io_world := w, io_removed := X, io_events_size := n\<rparr>)"
    by (simp add: service_inv_def)
next
  fix s :: "'a tcp"
  assume "service_inv os pending app s"
  then show "th_inv (io_timers s)" by (simp add: service_inv_def inv_parts)
next
  fix s :: "'a tcp" and t tm h
  assume "service_inv os pending app s" and t: "timers_of (io_timers s) t = Some tm" "th_inv h" "timers_of h = (timers_of (io_timers s))(t := rearm tm)"
  then have i: "kernel_ok os pending" "good_app pending app" "tcp_inv s" by (simp_all add: service_inv_def)
  show "\<exists>s'. fire_timer os app (t_cb tm) t (s\<lparr>io_timers := h\<rparr>) = Some s' \<and> service_inv os pending app s'"
    using fire_timer_safe [OF i t] i unfolding service_inv_def by blast
qed

end
