(* ===== verification/TcpStream.thy ===== *)
theory TcpStream
  imports TcpSafety
begin

text \<open>
  The bytes of a connection in order: what the kernel has taken, followed by what waits in the write buffer.
  \<open>wire w fd\<close> are the bytes taken for descriptor \<open>fd\<close>.
\<close>

section \<open>The stream of a connection\<close>

definition silent :: "('w \<Rightarrow> int \<Rightarrow> bytes) \<Rightarrow> ('r, 'w) call \<Rightarrow> bool" where
  "silent wire f \<longleftrightarrow> (\<forall>ew. wire (snd (snd (f ew))) = wire (snd ew))"

definition sends :: "('w \<Rightarrow> int \<Rightarrow> bytes) \<Rightarrow> int \<Rightarrow> bytes \<Rightarrow> (int, 'w) call \<Rightarrow> bool" where
  "sends wire fd bs f \<longleftrightarrow> (\<forall>ew. wire (snd (snd (f ew))) = (wire (snd ew))(fd := wire (snd ew) fd @ take (nat (fst (f ew))) bs))"

definition wire_ok :: "'w sys \<Rightarrow> ('w \<Rightarrow> int \<Rightarrow> bytes) \<Rightarrow> bool" where
  "wire_ok os wire \<longleftrightarrow> (\<forall>fd bs. sends wire fd bs (sy_send os fd bs)) \<and> (\<forall>op fd ev. silent wire (sy_epoll_ctl os op fd ev)) \<and>
     (\<forall>fd. silent wire (sy_fionread os fd)) \<and> (\<forall>fd n. silent wire (sy_recv os fd n)) \<and> silent wire (sy_now os)"

definition stream :: "('w \<Rightarrow> int \<Rightarrow> bytes) \<Rightarrow> 'w tcp \<Rightarrow> int \<Rightarrow> bytes option" where
  "stream wire s i = do {
     c \<leftarrow> tc_connections s i;
     k \<leftarrow> tc_conns s c;
     d \<leftarrow> io_devices s (cn_socket k);
     Some (wire (io_world s) (dv_fd d) @ db_data (cn_write k)) }"

lemma stream_at: "conn_at s i c p d k \<Longrightarrow> stream wire s i = Some (wire (io_world s) (dv_fd d) @ db_data (cn_write k))"
  by (simp add: stream_def conn_at_def)

lemma silentD: "silent wire f \<Longrightarrow> f ew = (r, ew') \<Longrightarrow> wire (snd ew') = wire (snd ew)"
  unfolding silent_def by (metis snd_conv)

lemma wire_silent:
  assumes "wire_ok os wire"
  shows "silent wire (sy_epoll_ctl os op fd ev)" "silent wire (sy_fionread os fd)" "silent wire (sy_recv os fd n)" "silent wire (sy_now os)"
  using assms by (simp_all add: wire_ok_def)

lemma wire_send:
  assumes "wire_ok os wire" "sy_send os fd bs (e, w) = (r, e', w')"
  shows "wire w' fd = wire w fd @ take (nat r) bs"
proof -
  have "sends wire fd bs (sy_send os fd bs)" using assms(1) by (simp add: wire_ok_def)
  then have "wire (snd (snd (sy_send os fd bs (e, w)))) = (wire (snd (e, w)))(fd := wire (snd (e, w)) fd @ take (nat (fst (sy_send os fd bs (e, w)))) bs)"
    unfolding sends_def by blast
  then show ?thesis using assms(2) by simp
qed

lemma wire_call: "silent wire f \<Longrightarrow> syscall f s = (r, s') \<Longrightarrow> wire (io_world s') = wire (io_world s)"
  using silentD [of wire f "(io_errno s, io_world s)"] by (auto simp: syscall_def split: prod.split_asm)

lemmas wire_epoll = wire_call [OF wire_silent(1)]
lemmas wire_now = wire_call [OF wire_silent(4)]

lemma wire_setWriteCallback:
  assumes "wire_ok os wire" "setWriteCallback os p cb s = Some s'"
  shows "wire (io_world s') = wire (io_world s)"
  using assms(2)
  by (auto simp: setWriteCallback_def set_device_def update_if_attached_def updateIODevice_def bind_eq_Some_conv Let_def
      split: if_split_asm prod.split_asm dest!: wire_epoll [OF assms(1)])

lemma wire_buffer_message: "buffer_message c bs cb s = Some s' \<Longrightarrow> io_world s' = io_world s"
  by (auto simp: buffer_message_def set_write_buffer_def setSendCompleteCallback_def set_conn_def bind_eq_Some_conv)

lemma wire_send_failed:
  assumes "wire_ok os wire" "send_failed os c code s = Some (b, s')"
  shows "wire (io_world s') = wire (io_world s)"
proof -
  obtain k where k: "tc_conns s c = Some k" using assms(2) by (auto simp: send_failed_def setError_def set_conn_def bind_eq_Some_conv)
  let ?s = "s\<lparr>tc_conns := (tc_conns s)(c \<mapsto> k\<lparr>cn_status := PENDING_ERROR, cn_error := code\<rparr>)\<rparr>"
  obtain t s2 where t: "syscall (sy_now os) ?s = (t, s2)" by (cases "syscall (sy_now os) ?s")
  have "io_world s' = io_world s2"
    using assms(2) k t by (auto simp: send_failed_def setError_def set_conn_def addSocketTimer_def startTimer_def bind_eq_Some_conv)
  then show ?thesis using wire_now [OF assms(1) t] by simp
qed

lemma send_stream:
  assumes k: "kernel_ok os pending" and w: "wire_ok os wire" and inv: "tcp_inv s" and c: "tc_connections s i = Some c"
    and small: "length bs < 2 ^ 62"
  shows "\<exists>ok n s'. sendMessage os app i bs None s = Some (ok, s') \<and> stream wire s' i = map_option (\<lambda>q. q @ take n bs) (stream wire s i) \<and>
    (ok \<longrightarrow> n = length bs) \<and> tcp_inv s'"
proof -
  obtain p d kk where at: "conn_at s i c p d kk" by (rule conn_atE [OF inv c])
  then have kk: "tc_conns s c = Some kk" by (simp add: conn_at_def)
  note str = stream_at [OF at, of wire]
  show ?thesis
  proof (cases "cn_status kk = CONNECTED")
    case False
    then have "sendMessage os app i bs None s = Some (False, s)" using c kk by (simp add: sendMessage_def send_connection_def)
    then show ?thesis using str inv by (intro exI [of _ False] exI [of _ 0] exI [of _ s]) simp
  next
    case True
    show ?thesis
    proof (rule send_connection_spec [where app = app and cb = None, OF k inv at True small], goal_cases)
      case (1 s0 code s')
      then have s': "conn_at s' i c p d (kk\<lparr>cn_status := PENDING_ERROR, cn_error := code\<rparr>)" "tcp_inv s'" by (simp_all add: failed_def fine_def)
      have same: "wire (io_world s') = wire (io_world s0)" by (rule wire_send_failed [OF w 1(5)])
      obtain n where "wire (io_world s0) (dv_fd d) @ db_data (cn_write kk) = wire (io_world s) (dv_fd d) @ db_data (cn_write kk) @ take n bs"
        using 1(3)
      proof (elim disjE exE conjE)
        assume "s0 = s"
        then show thesis by (intro that [of 0]) simp
      next
        fix r e wd
        assume "sy_send os (dv_fd d) bs (io_errno s, io_world s) = (r, e, wd)" "s0 = called e wd s" "db_data (cn_write kk) = []"
        then show thesis using wire_send [OF w] by (intro that [of "nat r"]) simp
      qed
      then show ?case using 1(1) c str stream_at [OF s'(1), of wire] same s'(2)
        by (intro exI [of _ False] exI [of _ n] exI [of _ s']) (simp add: sendMessage_def)
    next
      case (2 s0 n s')
      obtain b where b: "db_data b = db_data (cn_write kk) @ drop n bs" "tcp_inv s'"
        "conn_at s' i c p (d\<lparr>dv_write := Some OnSocketWrite\<rparr>) (kk\<lparr>cn_write := b, cn_complete := None\<rparr>)"
        using 2(2) by (auto simp: queued_def fine_def)
      obtain s1 where s1: "buffer_message c (drop n bs) None s0 = Some s1"
        "(if db_data (cn_write kk) = [] then setWriteCallback os p (Some OnSocketWrite) s1 else Some s1) = Some s'"
        using 2(5) by (auto simp: bind_eq_Some_conv)
      have same: "wire (io_world s') = wire (io_world s0)"
        using s1(2) wire_setWriteCallback [OF w, of p _ s1 s'] wire_buffer_message [OF s1(1)] by (auto split: if_splits)
      have "wire (io_world s0) (dv_fd d) @ db_data (cn_write kk) @ drop n bs = wire (io_world s) (dv_fd d) @ db_data (cn_write kk) @ bs"
        using 2(3)
      proof (elim disjE exE conjE)
        fix r e wd
        assume "sy_send os (dv_fd d) bs (io_errno s, io_world s) = (r, e, wd)" "s0 = called e wd s" "n = nat r" "db_data (cn_write kk) = []"
        then show ?thesis using wire_send [OF w] by simp
      qed simp
      then show ?case using 2(1) c str stream_at [OF b(3), of wire] same b(1,2)
        by (intro exI [of _ True] exI [of _ "length bs"] exI [of _ s']) (simp add: sendMessage_def)
    next
      case (3 r e wd)
      have at': "conn_at (called e wd s) i c p d kk" using at by (simp add: conn_at_def)
      have "wire wd (dv_fd d) = wire (io_world s) (dv_fd d) @ bs" using wire_send [OF w 3(2)] 3(3) by simp
      then show ?case using 3(1,4,5) c str stream_at [OF at', of wire]
        by (intro exI [of _ True] exI [of _ "length bs"] exI [of _ "called e wd s"]) (simp add: sendMessage_def fine_def)
    qed
  qed
qed

text \<open>
  Flushing moves bytes from the buffer to the wire, whatever the outcome; the completion callback runs
  when the buffer is empty.
\<close>

lemma flush_stream:
  assumes k: "kernel_ok os pending" and w: "wire_ok os wire" and inv: "tcp_inv s" and p: "io_devices s p = Some d"
    and wr: "dv_write d = Some OnSocketWrite"
  shows "\<exists>c s1. tc_connections s (dv_id d) = Some c \<and> tcp_inv s1 \<and> stream wire s1 (dv_id d) = stream wire s (dv_id d) \<and>
    (onSocketWrite os app p s = Some s1 \<or> onSocketWrite os app p s = report_error app p c s1 \<or>
     (\<exists>cb. onSocketWrite os app p s = complete os app cb (dv_id d) s1 \<and> stream wire s1 (dv_id d) = Some (wire (io_world s1) (dv_fd d))))"
proof (rule device_cases [OF inv p])
  assume "listen_state (tc_socket_timer s (dv_id d)) d"
  with wr show ?thesis by (simp add: listen_state_def)
next
  fix c kk
  assume at: "conn_at s (dv_id d) c p d kk"
  then have c: "tc_connections s (dv_id d) = Some c" by (simp add: conn_at_def)
  note str = stream_at [OF at, of wire]
  show ?thesis
  proof (rule onSocketWrite_spec [where app = app, OF k inv at wr], goal_cases)
    case (1 e w' s1)
    have "io_world s1 = w'" using 1(6) by (simp add: upd_conn_def)
    then have "stream wire s1 (dv_id d) = stream wire s (dv_id d)"
      using str stream_at [OF 1(4), of wire] wire_send [OF w 1(1)] by simp
    then show ?case using c 1(3,5) by (intro exI [of _ c] exI [of _ s1]) (simp add: fine_def)
  next
    case (2 w')
    have at': "conn_at (called EAGAIN w' s) (dv_id d) c p d kk" using at by (simp add: conn_at_def)
    have "stream wire (called EAGAIN w' s) (dv_id d) = stream wire s (dv_id d)"
      using str stream_at [OF at', of wire] wire_send [OF w 2(1)] by simp
    then show ?case using c 2(2,3) by (intro exI [of _ c] exI [of _ "called EAGAIN w' s"]) (simp add: fine_def)
  next
    case (3 r e w' b s1)
    have "io_world s1 = w'" using 3(8) by simp
    moreover have "take r (db_data (cn_write kk)) @ db_data b = db_data (cn_write kk)" using 3(2) by simp
    ultimately have "stream wire s1 (dv_id d) = stream wire s (dv_id d)"
      using str stream_at [OF 3(6), of wire] wire_send [OF w 3(1)] by simp
    then show ?case using c 3(5,7) by (intro exI [of _ c] exI [of _ s1]) (simp add: fine_def)
  next
    case (4 e w' e2 w2 b s1)
    have "wire w2 = wire w'" using wire_setWriteCallback [OF w 4(6)] by (simp add: upd_conn_def upd_socket_def)
    moreover have "io_world s1 = w2" using 4(7) by (simp add: upd_conn_def upd_socket_def)
    ultimately have "stream wire s1 (dv_id d) = stream wire s (dv_id d)" "stream wire s1 (dv_id d) = Some (wire (io_world s1) (dv_fd d))"
      using str stream_at [OF 4(4), of wire] wire_send [OF w 4(1)] 4(2) by simp_all
    then show ?case using c 4(3,5) by (cases "cn_complete kk") (auto simp: fine_def)
  qed
qed

end
