(* ===== verification/TcpDemo.thy ===== *)
theory TcpDemo
  imports TcpSafety
begin

text \<open>
  A small network that meets the laws of the system calls, for concrete runs of the service: it counts
  the connections that wait and the bytes it can take, numbers the descriptors, and holds the bytes to receive
  and the bytes sent.
\<close>

section \<open>The network\<close>

record net =
  nt_backlog :: nat
  nt_room :: nat
  nt_fd :: int
  nt_in :: bytes
  nt_out :: "int \<Rightarrow> bytes"

definition net_new_fd :: "int \<times> net \<Rightarrow> int \<times> int \<times> net" where
  "net_new_fd ew = (nt_fd (snd ew), fst ew, (snd ew)\<lparr>nt_fd := nt_fd (snd ew) + 1\<rparr>)"

definition net_ok :: "'r \<Rightarrow> int \<times> net \<Rightarrow> 'r \<times> int \<times> net" where
  "net_ok r ew = (r, ew)"

definition net_accept :: "int \<times> net \<Rightarrow> int \<times> int \<times> net" where
  "net_accept ew = (if nt_backlog (snd ew) = 0 then (-1, EAGAIN, snd ew)
     else net_new_fd (fst ew, (snd ew)\<lparr>nt_backlog := nt_backlog (snd ew) - 1\<rparr>))"

definition net_recv :: "nat \<Rightarrow> int \<times> net \<Rightarrow> (int \<times> bytes) \<times> int \<times> net" where
  "net_recv n ew = (let bs = take (min n 65536) (nt_in (snd ew))
     in if nt_in (snd ew) = [] then ((-1, []), EAGAIN, snd ew)
        else ((int (length bs), bs), fst ew, (snd ew)\<lparr>nt_in := drop (length bs) (nt_in (snd ew))\<rparr>))"

definition net_send :: "int \<Rightarrow> bytes \<Rightarrow> int \<times> net \<Rightarrow> int \<times> int \<times> net" where
  "net_send fd bs ew = (let bs = take (min (nt_room (snd ew)) 65536) bs
     in if nt_room (snd ew) = 0 then (-1, EAGAIN, snd ew)
        else (int (length bs), fst ew, (snd ew)\<lparr>nt_out := (nt_out (snd ew))(fd := nt_out (snd ew) fd @ bs), nt_room := nt_room (snd ew) - length bs\<rparr>))"

definition net_kernel :: "net sys" where
  "net_kernel =
     \<lparr>sy_malloc = (\<lambda>A w. (Suc (Max (insert 0 A)), w)), sy_now = net_ok (Timestamp 0 0),
      sy_socket = (\<lambda>p. net_new_fd), sy_close = (\<lambda>fd. net_ok 0), sy_dup = (\<lambda>fd. net_new_fd),
      sy_fcntl = (\<lambda>fd cmd x. net_ok 0), sy_connect = (\<lambda>fd a. net_ok 0), sy_bind = (\<lambda>fd a. net_ok 0),
      sy_listen = (\<lambda>fd n. net_ok 0), sy_accept = (\<lambda>fd. net_accept), sy_getsockname = (\<lambda>fd. net_ok (0, [])),
      sy_getpeername = (\<lambda>fd. net_ok (0, [])), sy_fionread = (\<lambda>fd ew. ((0, int (min 65536 (length (nt_in (snd ew))))), ew)),
      sy_recv = (\<lambda>fd. net_recv), sy_send = net_send, sy_shutdown = (\<lambda>fd how. net_ok 0),
      sy_read = (\<lambda>fd. net_recv), sy_write = net_send, sy_so_error = (\<lambda>fd. net_ok (0, 0)), sy_setsockopt = (\<lambda>fd opt. net_ok 0), sy_epoll_ctl = (\<lambda>a fd ev. net_ok 0),
      sy_epoll_wait = (\<lambda>n ms. net_ok (Some []))\<rparr>"

lemma net_kernel_sel [simp]:
  "sy_malloc net_kernel A w = (Suc (Max (insert 0 A)), w)" "sy_now net_kernel = net_ok (Timestamp 0 0)"
  "sy_socket net_kernel p = net_new_fd" "sy_close net_kernel fd = net_ok 0" "sy_dup net_kernel fd = net_new_fd"
  "sy_fcntl net_kernel fd cmd x = net_ok 0" "sy_connect net_kernel fd a = net_ok 0" "sy_bind net_kernel fd a = net_ok 0"
  "sy_listen net_kernel fd n = net_ok 0" "sy_accept net_kernel fd = net_accept"
  "sy_fionread net_kernel fd = (\<lambda>ew. ((0, int (min 65536 (length (nt_in (snd ew))))), ew))"
  "sy_recv net_kernel fd = net_recv" "sy_send net_kernel fd = net_send fd" "sy_so_error net_kernel fd = net_ok (0, 0)"
  "sy_setsockopt net_kernel fd opt = net_ok 0" "sy_epoll_ctl net_kernel op fd ev = net_ok 0" "sy_epoll_wait net_kernel k ms = net_ok (Some [])"
  by (simp_all add: net_kernel_def)

lemma net_kernel_ok: "kernel_ok net_kernel nt_backlog"
  unfolding kernel_ok_def
proof (intro conjI)
  show "memory_ok net_kernel nt_backlog"
    unfolding memory_ok_def
  proof (intro allI impI)
    fix A and w w' :: net and p
    assume "finite A \<and> sy_malloc net_kernel A w = (p, w')"
    then have p: "p = Suc (Max (insert 0 A))" "w' = w" "finite A" by auto
    then have "a \<le> Max (insert 0 A)" if "a \<in> A" for a using that by (intro Max_ge) auto
    then show "p \<notin> A \<and> nt_backlog w' \<le> nt_backlog w" using p by fastforce
  qed
  show "quiet_ok net_kernel nt_backlog"
    by (auto simp: quiet_ok_def quiet_def net_ok_def net_new_fd_def net_recv_def net_send_def Let_def split: if_splits)
  show "accept_ok net_kernel nt_backlog"
    by (auto simp: accept_ok_def net_accept_def net_new_fd_def EAGAIN_def ECONNABORTED_def split: if_splits)
  show "transfer_ok net_kernel"
    by (auto simp: transfer_ok_def net_recv_def net_send_def net_ok_def ts_normal_def Let_def split: if_splits)
qed

section \<open>A configured service\<close>

text \<open>\<open>new TcpService\<close>, blocks of 4 bytes, limits of 4096 bytes on the buffers, and all callbacks.\<close>

definition net_service :: "net tcp" where
  "net_service = setNewConnectionCallback True (setRecvMessageCallback True (setPeerCloseCallback True (setServiceErrorCallback True
     (setRecvBufferInitSize 4 (setSendBufferInitSize 4 (setRecvBufferMaxSize 4096 (setSendBufferMaxSize 4096 (tcp_new \<lparr>nt_backlog = 1, nt_room = 3, nt_fd = 3, nt_in = [1, 2], nt_out = (\<lambda>fd. [])\<rparr>))))))))"

lemma tables_empty:
  assumes "tc_sockets s = Map.empty" "tc_connections s = Map.empty" "io_devices s = Map.empty" "tc_conns s = Map.empty"
    "tc_contexts s = Map.empty" "tc_socket_timer s = Map.empty" "tc_timer_socket s = Map.empty" "io_timers s = th_new" "tc_value s = 0" "limits_ok s"
  shows "tcp_inv s"
  using assms th_inv_new
  by (simp add: tcp_inv_def tcp_invx_def tables_ok_def contexts_ok_def timers_ok_def timers_live_def value_ok_def INT32_MAX_def)

lemmas setter_defs = setNewConnectionCallback_def setRecvMessageCallback_def setPeerCloseCallback_def setServiceErrorCallback_def
  setRecvBufferInitSize_def setRecvBufferExpandSize_def setRecvBufferMaxSize_def setSendBufferInitSize_def setSendBufferExpandSize_def
  setSendBufferMaxSize_def setAcceptPauseTimeWhenExceedOpenFileLimit_def

lemma configured_inv:
  assumes "0 < r" "r \<le> 2 ^ 61" "0 < w" "w \<le> 2 ^ 61" "m < 2 ^ 62" "n < 2 ^ 62"
  shows "tcp_inv (setNewConnectionCallback a (setRecvMessageCallback b (setPeerCloseCallback c (setServiceErrorCallback d
    (setRecvBufferInitSize m (setSendBufferInitSize n (setRecvBufferMaxSize r (setSendBufferMaxSize w (tcp_new world)))))))))"
  by (rule tables_empty) (use assms in \<open>simp_all add: setter_defs tcp_new_def io_new_def limits_ok_def\<close>)

lemma net_service_inv: "tcp_inv net_service"
  unfolding net_service_def by (rule configured_inv) simp_all

definition net_addr :: address where
  "net_addr = \<lparr>ad_protocol = IP_V4, ad_native = []\<rparr>"

lemma net_service_sel [simp]:
  "io_devices net_service = Map.empty" "io_world net_service = \<lparr>nt_backlog = 1, nt_room = 3, nt_fd = 3, nt_in = [1, 2], nt_out = (\<lambda>fd. [])\<rparr>"
  "tc_value net_service = 0" "tc_sockets net_service = Map.empty" "tc_connections net_service = Map.empty" "tc_conns net_service = Map.empty"
  "io_removed net_service = {}" "tc_socket_timer net_service = Map.empty" "io_timers net_service = th_new" "tc_read_max net_service = 4096" "tc_write_max net_service = 4096"
  "io_errno net_service = 0" "tc_new_conn_cb net_service" "tc_recv_message_cb net_service" "tc_write_init net_service = 4" "tc_write_expand net_service = 1024"
  "tc_read_init net_service = 4" "tc_read_expand net_service = 1024"
  by (simp_all add: net_service_def setter_defs tcp_new_def io_new_def)

lemma socket_id_1 [simp]: "socket_id_of 1 3 = 4294967299" "next_value 0 = 1"
  using socket_id_value [of 1 3] int32_small [of 3] by (simp_all add: INT32_MAX_def next_value_def)

lemmas net_defs = net_ok_def net_new_fd_def net_accept_def net_recv_def net_send_def

lemmas tcp_run_defs = syscall_def new_device_def set_device_def addIODevice_def removeIODevice_def updateIODevice_def detachIOService_def
  attachIOService_def update_if_attached_def setReadCallback_def setWriteCallback_def setErrorCallback_def setId_def setDescriptor_def
  set_flag_def setNonblock_def setCloseOnExec_def tcp_close_def delete_socket_def tcp_open_def on_fd_def tcp_connect_def tcp_bind_def
  tcp_listen_def setReuseAddr_def setTcpNoDelay_def tcp_accept_def activeOpen_def passiveOpen_def device_new_def activeOpenNonblock_def close_unless_def new_connection_def delete_connection_def alloc_id_def passiveOpenNonblock_def
  buildListenSocket_def buildConnectedSocket_def unless_released_def service_connect_def service_listen_def net_addr_def

definition net_conn :: "net tcp" where
  "net_conn = snd (the (service_connect net_kernel net_addr net_service))"

lemma net_connect: "service_connect net_kernel net_addr net_service = Some (4294967299, net_conn)"
proof -
  have "\<exists>s. service_connect net_kernel net_addr net_service = Some (4294967299, s)"
    by (simp add: tcp_run_defs net_defs Let_def)

  then show ?thesis by (auto simp: net_conn_def)
qed

lemma net_conn_eq:
  "net_conn = net_service\<lparr>io_world := \<lparr>nt_backlog = 1, nt_room = 3, nt_fd = 4, nt_in = [1, 2], nt_out = (\<lambda>fd. [])\<rparr>, tc_value := 1,
     io_devices := [1 \<mapsto> \<lparr>dv_attached = True, dv_id = 4294967299, dv_fd = 3, dv_read = Some OnSocketRead, dv_write = None, dv_error = Some OnSocketError\<rparr>],
     tc_conns := [1 \<mapsto> (connection_new net_service 1)\<lparr>cn_status := CONNECTED\<rparr>],
     tc_sockets := [4294967299 \<mapsto> 1], tc_connections := [4294967299 \<mapsto> 1]\<rparr>"
  by (simp add: net_conn_def tcp_run_defs net_defs Let_def connection_new_def)

lemma net_conn_inv: "tcp_inv net_conn"
  using opening_ops(3) [OF net_kernel_ok net_service_inv, of net_addr] net_connect by (auto simp: opened_def)

text \<open>A message of 5 bytes, of which the network takes 3.\<close>

lemmas send_run_defs = sendMessageThenClose_def sendMessage_def send_connection_def tcp_send_def syscall_def net_send_def connection_new_def Let_def
  write_overflow_def buffer_message_def set_write_buffer_def setSendCompleteCallback_def set_conn_def db_append_def db_reserveWritableBytes_def
  db_writeBegin_def mem_write_def db_new_def db_readableBytes_def db_writableBytes_def db_discardableBytes_def db_write_def db_data_def
  int32_small sz_def setWriteCallback_def set_device_def update_if_attached_def updateIODevice_def net_ok_def

definition net_sent :: "net tcp" where
  "net_sent = snd (the (sendMessageThenClose net_kernel (\<lambda>e s. None) 4294967299 [5, 6, 7, 8, 9] net_conn))"

lemma net_send_conn:
  "sendMessageThenClose net_kernel (\<lambda>e s. None) 4294967299 [5, 6, 7, 8, 9] net_conn = Some (True, net_sent)"
proof -
  have "\<exists>s. sendMessageThenClose net_kernel (\<lambda>e s. None) 4294967299 [5, 6, 7, 8, 9] net_conn = Some (True, s)"
    by (simp add: send_run_defs net_conn_eq)
  then show ?thesis by (auto simp: net_sent_def)
qed

lemma net_sent_conn:
  "tc_connections net_sent 4294967299 = Some 1" "\<exists>k. tc_conns net_sent 1 = Some k \<and> cn_status k = CONNECTED \<and> cn_complete k = Some SendCompleteClose \<and> db_data (cn_write k) = [8, 9]"
  by (simp_all add: net_sent_def send_run_defs net_conn_eq)

lemma net_sent_inv: "tcp_inv net_sent" "tc_write_max net_sent = 4096"
proof -
  show "tcp_inv net_sent"
    using sendMessageThenClose_fine [OF net_kernel_ok net_conn_inv, of "[5, 6, 7, 8, 9]" "\<lambda>e s. None" 4294967299] net_send_conn by (auto simp: fine_def)
  show "tc_write_max net_sent = 4096" by (simp add: net_sent_def send_run_defs net_conn_eq)
qed

text \<open>A listening socket.\<close>

definition net_listener :: "net tcp" where
  "net_listener = snd (the (service_listen net_kernel net_addr net_service))"

lemma net_listen: "service_listen net_kernel net_addr net_service = Some (4294967299, net_listener)"
proof -
  have "\<exists>s. service_listen net_kernel net_addr net_service = Some (4294967299, s)"
    by (simp add: tcp_run_defs net_defs Let_def)
  then show ?thesis by (auto simp: net_listener_def)
qed

lemma net_listener_eq:
  "net_listener = net_service\<lparr>io_world := \<lparr>nt_backlog = 1, nt_room = 3, nt_fd = 4, nt_in = [1, 2], nt_out = (\<lambda>fd. [])\<rparr>, tc_value := 1,
     io_devices := [1 \<mapsto> \<lparr>dv_attached = True, dv_id = 4294967299, dv_fd = 3, dv_read = Some OnListenSocketRead, dv_write = None, dv_error = Some OnSocketError\<rparr>],
     tc_sockets := [4294967299 \<mapsto> 1]\<rparr>"
  by (simp add: net_listener_def tcp_run_defs net_defs Let_def)

end
