(* ===== verification/TcpEcho.thy ===== *)
theory TcpEcho
  imports TcpStream TcpDemo
begin

text \<open>
  The application of \<open>test/echo_server.cc\<close>: it keeps to the contract of \<open>TcpService\<close>, so everything that
  is proved of the service under \<open>good_app\<close> holds of the server.
\<close>

section \<open>The echo server\<close>

definition echo_onRecvMessage :: "'w sys \<Rightarrow> int \<Rightarrow> nat \<Rightarrow> 'w tcp \<Rightarrow> 'w tcp option" where
  "echo_onRecvMessage os socket_id c s = do {
     k \<leftarrow> tc_conns s c;
     let n = db_readableBytes (cn_read k);
     buffer_string \<leftarrow> db_readBegin (cn_read k) 0 n;
     s \<leftarrow> set_read_buffer c (db_read (cn_read k) n) s;
     (ok, s) \<leftarrow> sendMessage os (\<lambda>e s. None) socket_id buffer_string None s;
     if ok then Some s else closeSocket os socket_id s }"

definition echo_app :: "'w sys \<Rightarrow> 'w application" where
  "echo_app os e s =
     (case e of
        NewConnection from_socket_id socket_id \<Rightarrow> Some s
      | RecvMessage socket_id c \<Rightarrow> echo_onRecvMessage os socket_id c s
      | PeerClose socket_id \<Rightarrow> closeSocket os socket_id s
      | ErrorOccurred socket_id code \<Rightarrow> closeSocket os socket_id s
      | SendCompleted n socket_id \<Rightarrow> Some s
      | TimerFired n timer_id \<Rightarrow> Some s)"

lemma echo_recv:
  assumes k: "kernel_ok os pending" and inv: "tcp_inv s" and at: "conn_at s i c p d kk"
  obtains s1 ok s2 where "fine pending {} {} s s1" "conn_at s1 i c p d (kk\<lparr>cn_read := db_read (cn_read kk) (db_readableBytes (cn_read kk))\<rparr>)"
    "s1 = upd_conn c (kk\<lparr>cn_read := db_read (cn_read kk) (db_readableBytes (cn_read kk))\<rparr>) s"
    "sendMessage os (\<lambda>e s. None) i (db_data (cn_read kk)) None s1 = Some (ok, s2)" "fine pending {} {} s1 s2"
    "tc_connections s2 = tc_connections s"
    "echo_onRecvMessage os i c s = (if ok then Some s2 else closeSocket os i s2)" "length (db_data (cn_read kk)) < 2 ^ 62"
proof -
  let ?b = "db_read (cn_read kk) (db_readableBytes (cn_read kk))"
  let ?k = "kk\<lparr>cn_read := ?b\<rparr>"
  let ?s = "upd_conn c ?k s"
  have at': "io_devices s p = Some d" "tc_connections s i = Some c" "tc_conns s c = Some kk" "device_ok i d" "cn_socket kk = p"
    "conn_state (tc_socket_timer s i) d kk" using at by (simp_all add: conn_at_def)
  have buf: "buf_ok (cn_read kk)" using at'(6) by (simp add: conn_state_def)
  then have wf: "db_wf (cn_read kk)" by (simp add: buf_ok_def)
  have len: "length (db_data (cn_read kk)) = db_readableBytes (cn_read kk)" by (rule length_db_data [OF wf])
  have small: "length (db_data (cn_read kk)) < 2 ^ 62" using buf len by (simp add: buf_ok_def)
  have data: "db_readBegin (cn_read kk) 0 (db_readableBytes (cn_read kk)) = Some (db_data (cn_read kk))"
    using db_readBegin_data [OF wf, of 0 "db_readableBytes (cn_read kk)"] len by simp
  have new: "conn_state (tc_socket_timer s i) d ?k" "cn_socket ?k = p"
    using at'(5,6) buf_ok_read [OF buf] by (simp_all add: conn_state_def)
  have eq: "?s = called (io_errno s) (io_world s) (upd_conn c ?k (upd_socket p d s))"
    using at'(1) by (simp add: upd_conn_def upd_socket_def)
  have 1: "fine pending {} {} s ?s" "conn_at ?s i c p d ?k"
    by (rule conn_update_fine [OF inv at eq _ at'(4) new(2,1)]; auto)+
  have inv1: "tcp_inv ?s" using 1(1) by (simp add: fine_def)
  have c1: "tc_connections ?s i = Some c" using 1(2) by (simp add: conn_at_def)
  have "\<exists>ok s2. send_connection os (\<lambda>e s. None) c (db_data (cn_read kk)) None ?s = Some (ok, s2) \<and> fine pending {} {} ?s s2 \<and>
      ((None :: send_cb option) = None \<longrightarrow> tc_connections s2 = tc_connections ?s)"
    by (rule send_connection_fine [OF k _ inv1 c1 small]) simp
  then obtain ok s2 where s2: "send_connection os (\<lambda>e s. None) c (db_data (cn_read kk)) None ?s = Some (ok, s2)" "fine pending {} {} ?s s2"
    "tc_connections s2 = tc_connections ?s" by auto
  have send: "sendMessage os (\<lambda>e s. None) i (db_data (cn_read kk)) None ?s = Some (ok, s2)" using s2(1) c1 by (simp add: sendMessage_def)
  have "set_read_buffer c ?b s = Some ?s" using set_conn_at [OF at] by (simp add: set_read_buffer_def)
  then have "echo_onRecvMessage os i c s = (if ok then Some s2 else closeSocket os i s2)"
    using at'(3) data send by (simp add: echo_onRecvMessage_def Let_def)
  then show thesis by (intro that [OF 1 refl send s2(2)]) (use s2(3) small in \<open>simp_all add: upd_conn_def\<close>)
qed

lemma echo_good:
  assumes k: "kernel_ok os pending"
  shows "good_app pending (echo_app os)"
  unfolding good_app_def
proof (intro allI impI)
  fix e and s :: "'a tcp"
  assume "tcp_inv s \<and> app_pre e s"
  then have inv: "tcp_inv s" and pre: "app_pre e s" by simp_all
  note close = closeSocket_fine [OF k inv, where R = "{}" and W = "{}"]
  show "\<exists>s'. echo_app os e s = Some s' \<and> fine pending {} {} s s' \<and> app_post e s s'"
  proof (cases e)
    case (RecvMessage i c)
    have c: "tc_connections s i = Some c" using pre RecvMessage by simp
    obtain p d kk where at: "conn_at s i c p d kk" by (rule conn_atE [OF inv c])
    obtain s1 ok s2 where r: "fine pending {} {} s s1" "fine pending {} {} s1 s2" "tc_connections s2 = tc_connections s"
      "echo_onRecvMessage os i c s = (if ok then Some s2 else closeSocket os i s2)" by (rule echo_recv [OF k inv at]) blast
    have f: "fine pending {} {} s s2" by (rule fine_trans [OF r(1,2)])
    then have inv2: "tcp_inv s2" by (simp add: fine_def)
    have "\<exists>s'. (if ok then Some s2 else closeSocket os i s2) = Some s' \<and> fine pending {} {} s2 s' \<and> (tc_connections s' i = None \<or> tc_connections s' i = tc_connections s i)"
    proof (cases ok)
      case True
      then show ?thesis using inv2 r(3) by simp
    next
      case False
      show ?thesis
        by (rule closeSocket_spec [where i = i and R = "{}" and W = "{}", OF k inv2]) (use False inv2 r(3) in \<open>auto simp: closed_def\<close>)
    qed
    then obtain s' where s': "(if ok then Some s2 else closeSocket os i s2) = Some s'" "fine pending {} {} s2 s'"
      "tc_connections s' i = None \<or> tc_connections s' i = tc_connections s i" by blast
    have "echo_app os e s = Some s'" using RecvMessage r(4) s'(1) by (simp add: echo_app_def)
    moreover have "fine pending {} {} s s'" by (rule fine_trans [OF f s'(2)])
    moreover have "app_post e s s'" using RecvMessage s'(3) pre by auto
    ultimately show ?thesis by blast
  qed (use inv close in \<open>simp_all add: echo_app_def\<close>)
qed

lemma receives_unique:
  "receives os fd limit q ew q1 how1 ew1 \<Longrightarrow> receives os fd limit q ew q2 how2 ew2 \<Longrightarrow> q1 = q2 \<and> how1 = how2 \<and> ew1 = ew2"
proof (induction arbitrary: q2 how2 ew2 rule: receives.induct)
  case (rc_data ew r n ew1 q m bs ew3 q' how ew')
  from rc_data.prems show ?case
    by cases (use rc_data.hyps(1-4) rc_data.IH in auto)
qed (erule receives.cases; auto)+

lemma receives_wire:
  assumes w: "wire_ok os wire"
  shows "receives os fd limit q ew q' how ew' \<Longrightarrow> wire (snd ew') = wire (snd ew)"
proof (induction rule: receives.induct)
  case (rc_data ew r n ew1 q m bs ew2 q' how ew')
  then show ?case using silentD [OF wire_silent(2) [OF w] rc_data.hyps(1)] silentD [OF wire_silent(3) [OF w] rc_data.hyps(3)] by simp
qed (use silentD [OF wire_silent(2) [OF w]] silentD [OF wire_silent(3) [OF w]] in fastforce)+

text \<open>What is received goes back: the received bytes leave the read buffer and extend the stream.\<close>

lemma echo_back:
  assumes k: "kernel_ok os pending" and w: "wire_ok os wire" and inv: "tcp_inv s" and at: "conn_at s i c p d kk"
  shows "\<exists>s'. echo_onRecvMessage os i c s = Some s' \<and> tcp_inv s' \<and> (tc_connections s' i = None \<or>
    stream wire s' i = map_option (\<lambda>x. x @ db_data (cn_read kk)) (stream wire s i) \<and> tc_connections s' i = Some c)"
proof -
  have c: "tc_connections s i = Some c" using at by (simp add: conn_at_def)
  obtain s1 ok s2 where r: "fine pending {} {} s s1" "conn_at s1 i c p d (kk\<lparr>cn_read := db_read (cn_read kk) (db_readableBytes (cn_read kk))\<rparr>)"
    "s1 = upd_conn c (kk\<lparr>cn_read := db_read (cn_read kk) (db_readableBytes (cn_read kk))\<rparr>) s"
    "sendMessage os (\<lambda>e s. None) i (db_data (cn_read kk)) None s1 = Some (ok, s2)" "fine pending {} {} s1 s2" "tc_connections s2 = tc_connections s"
    "echo_onRecvMessage os i c s = (if ok then Some s2 else closeSocket os i s2)" "length (db_data (cn_read kk)) < 2 ^ 62"
    by (rule echo_recv [OF k inv at]) blast
  have inv1: "tcp_inv s1" "tcp_inv s2" using r(1,5) by (simp_all add: fine_def)
  have c1: "tc_connections s1 i = Some c" using r(2) by (simp add: conn_at_def)
  show ?thesis
  proof (cases ok)
    case True
    have "stream wire s2 i = map_option (\<lambda>x. x @ db_data (cn_read kk)) (stream wire s1 i)"
      using send_stream [where app = "\<lambda>e s. None", OF k w inv1(1) c1 r(8)] r(4) True by auto
    moreover have "stream wire s1 i = stream wire s i"
      using stream_at [OF r(2), of wire] stream_at [OF at, of wire] r(3) by (simp add: upd_conn_def)
    ultimately show ?thesis using True r(6,7) inv1(2) c by simp
  next
    case False
    show ?thesis
    proof (rule closeSocket_spec [where i = i and R = "{}" and W = "{}", OF k inv1(2)])
      assume "tc_sockets s2 i = None" "closeSocket os i s2 = Some s2"
      moreover have "tc_connections s2 i = None" using inv_parts(6) [OF inv1(2)] \<open>tc_sockets s2 i = None\<close> by (auto simp: tables_ok_def)
      ultimately show ?thesis using False r(7) inv1(2) by simp
    next
      fix q s'
      assume "closeSocket os i s2 = Some s'" "closed i q s2 s'" "fine pending {} {} s2 s'"
      then show ?thesis using False r(7) by (simp add: closed_def fine_def)
    qed
  qed
qed

lemma echo_end_to_end:
  assumes k: "kernel_ok os pending" and w: "wire_ok os wire" and inv: "tcp_inv s" and at: "conn_at s i c p d kk"
    and rd: "dv_read d = Some OnSocketRead" and cb: "tc_recv_message_cb s"
    and rc: "receives os (dv_fd d) (tc_read_max s) (db_data (cn_read kk)) (io_errno s, io_world s) q Drained ew" "q \<noteq> db_data (cn_read kk)"
  shows "\<exists>s'. onSocketRead os (echo_app os) p s = Some s' \<and> tcp_inv s' \<and> (tc_connections s' i = None \<or>
    stream wire s' i = map_option (\<lambda>x. x @ q) (stream wire s i) \<and> tc_connections s' i = Some c)"
proof (rule onSocketRead_spec [where app = "echo_app os", OF k inv at rd])
  fix how b e wd s1
  assume 1: "onSocketRead os (echo_app os) p s = after_read (echo_app os) i c (db_data b \<noteq> db_data (cn_read kk)) how s1"
    "s1 = called e wd (upd_conn c (ended how (kk\<lparr>cn_read := b\<rparr>)) s)"
    "receives os (dv_fd d) (tc_read_max s) (db_data (cn_read kk)) (io_errno s, io_world s) (db_data b) how (e, wd)"
    "fine pending {} {} s s1" "conn_at s1 i c p d (ended how (kk\<lparr>cn_read := b\<rparr>))"
  have u: "db_data b = q" "how = Drained" using receives_unique [OF 1(3) rc(1)] by simp_all
  have inv1: "tcp_inv s1" using 1(4) by (simp add: fine_def)
  obtain s2 where s2: "echo_onRecvMessage os i c s1 = Some s2" "tcp_inv s2" "tc_connections s2 i = None \<or>
    stream wire s2 i = map_option (\<lambda>x. x @ db_data (cn_read (ended how (kk\<lparr>cn_read := b\<rparr>)))) (stream wire s1 i) \<and> tc_connections s2 i = Some c"
    using echo_back [OF k w inv1 1(5)] by blast
  have "wire wd = wire (io_world s)" using receives_wire [OF w 1(3)] by simp
  then have "stream wire s1 i = stream wire s i"
    using stream_at [OF 1(5), of wire] stream_at [OF at, of wire] 1(2) by (simp add: upd_conn_def)
  moreover have "tc_recv_message_cb s1" using 1(2) cb by (simp add: upd_conn_def)
  then have "onSocketRead os (echo_app os) p s = Some s2"
    using 1(1) u rc(2) s2(1) by (simp add: after_read_def app_if_def echo_app_def)
  ultimately show ?thesis using s2(2,3) u(1) by (intro exI [of _ s2]) simp
qed

text \<open>The network of the examples keeps what it was sent, by descriptor.\<close>

lemma take_upto: "take (min (length bs) m) bs = take m bs"
  by (simp add: min_def)

lemma net_wire: "wire_ok net_kernel nt_out"
  by (auto simp: take_upto wire_ok_def sends_def silent_def net_ok_def net_send_def net_recv_def Let_def fun_eq_iff)

end
