(* ===== verification/TcpProperties.thy ===== *)
theory TcpProperties
  imports TcpEcho
begin

text \<open>
  The properties of \<open>TcpService\<close>, each with a run on the network of \<open>TcpDemo\<close> that meets its hypotheses.
\<close>

section \<open>Every operation\<close>



section \<open>The event loop\<close>



section \<open>Reading, writing, closing\<close>

text \<open>
  C3 (refinement): \<open>onSocketRead\<close> is the receive loop \<open>receives\<close>, then the callbacks. The read buffer holds what
  it held and what the kernel delivered, in order and within the limit; the data is announced before
  the end of the stream, and the end is announced only to a connection that is still there.
\<close>

theorem tcp_receive:
  assumes "kernel_ok os pending" "tcp_inv s" "tc_connections s i = Some c" "tc_sockets s i = Some p" "io_devices s p = Some d"
    "tc_conns s c = Some k" "dv_read d = Some OnSocketRead" "length (db_data (cn_read k)) \<le> tc_read_max s"
  shows "\<exists>how b ew s1. receives os (dv_fd d) (tc_read_max s) (db_data (cn_read k)) (io_errno s, io_world s) (db_data b) how ew \<and>
    tcp_inv s1 \<and> tc_conns s1 = (tc_conns s)(c \<mapsto> ended how (k\<lparr>cn_read := b\<rparr>)) \<and> length (db_data b) \<le> tc_read_max s \<and>
    onSocketRead os app p s = after_read app i c (db_data b \<noteq> db_data (cn_read k)) how s1"
proof -
  obtain p' d' k' where at': "conn_at s i c p' d' k'" by (rule conn_atE [OF assms(2,3)])
  with assms(4-6) have at: "conn_at s i c p d k" by (simp add: conn_at_def)
  have t: "transfer_ok os" using assms(1) by (simp add: kernel_ok_def)
  show ?thesis
  proof (rule onSocketRead_spec [where app = app, OF assms(1,2) at assms(7)])
    fix how b e w s1
    assume 1: "onSocketRead os app p s = after_read app i c (db_data b \<noteq> db_data (cn_read k)) how s1"
      "s1 = called e w (upd_conn c (ended how (k\<lparr>cn_read := b\<rparr>)) s)"
      "receives os (dv_fd d) (tc_read_max s) (db_data (cn_read k)) (io_errno s, io_world s) (db_data b) how (e, w)"
      "fine pending {} {} s s1"
    then show ?thesis using receives_limit [OF 1(3) t assms(8)]
      by (intro exI [of _ how] exI [of _ b] exI [of _ "(e, w)"] exI [of _ s1]) (simp add: upd_conn_def fine_def)
  qed
qed

theorem tcp_receive_witness:
  "\<exists>how b ew s1. receives net_kernel 3 4096 [] (0, io_world net_conn) (db_data b) how ew \<and>
    onSocketRead net_kernel (echo_app net_kernel) 1 net_conn = after_read (echo_app net_kernel) 4294967299 1 (db_data b \<noteq> []) how s1"
proof -
  let ?k = "(connection_new net_service 1)\<lparr>cn_status := CONNECTED\<rparr>"
  let ?d = "\<lparr>dv_attached = True, dv_id = 4294967299, dv_fd = 3, dv_read = Some OnSocketRead, dv_write = None, dv_error = Some OnSocketError\<rparr> :: device_cb device"
  have s: "tc_connections net_conn 4294967299 = Some 1" "tc_sockets net_conn 4294967299 = Some 1" "io_devices net_conn 1 = Some ?d"
    "tc_conns net_conn 1 = Some ?k" "dv_read ?d = Some OnSocketRead" "length (db_data (cn_read ?k)) \<le> tc_read_max net_conn"
    by (simp_all add: net_conn_eq connection_new_def db_data_new)
  show ?thesis using tcp_receive [OF net_kernel_ok net_conn_inv s, of "echo_app net_kernel"]
    by (simp add: net_conn_eq connection_new_def db_data_new) blast
qed



text \<open>
  C5 (functional): \<open>closeSocket\<close> removes every trace of a socket and nothing else: the device and the connection are
  deleted, the tables, the timer and its entry in the heap, the context; an unknown id changes nothing. The destructor
  deletes every connection, socket and context exactly once.
\<close>

theorem tcp_close_complete:
  assumes "kernel_ok os pending" "tcp_inv s"
  shows "(\<exists>s'. closeSocket os i s = Some s' \<and> tcp_inv s' \<and>
      (case tc_sockets s i of None \<Rightarrow> s' = s | Some p \<Rightarrow> closed i p s s')) \<and>
    (distinct cs \<and> set cs = ran (tc_connections s) \<and> distinct ps \<and> set ps = ran (tc_sockets s) \<and>
       distinct (filter (\<lambda>x. x \<noteq> 0) xs) \<and> set xs = ran (tc_contexts s) \<longrightarrow>
     (\<exists>s'. tcp_delete os cs ps xs s = Some s' \<and> tc_conns s' = Map.empty \<and> io_devices s' = Map.empty \<and>
        tc_live_contexts s' = tc_live_contexts s - (ran (tc_contexts s) - {0})))"
proof (intro conjI impI)
  show "\<exists>s'. closeSocket os i s = Some s' \<and> tcp_inv s' \<and> (case tc_sockets s i of None \<Rightarrow> s' = s | Some p \<Rightarrow> closed i p s s')"
    by (rule closeSocket_spec [where i = i and R = "{}" and W = "{}", OF assms]) (use assms(2) in \<open>auto simp: fine_def\<close>)
qed (use tcp_delete_spec [OF assms] in blast)

theorem tcp_close_complete_witness:
  "\<exists>s'. closeSocket net_kernel 4294967299 net_conn = Some s' \<and> tcp_inv s' \<and> closed 4294967299 1 net_conn s'"
  using tcp_close_complete [OF net_kernel_ok net_conn_inv, of 4294967299 "[]" "[]" "[]"] by (simp add: net_conn_eq)

text \<open>
  A socket id is positive and holds the counter in the upper and the descriptor in the lower half, so
  that two ids are equal exactly when both are; the counter stays positive when it wraps.
\<close>

lemma socket_id_fields:
  assumes "1 \<le> v" "v \<le> INT32_MAX" "0 \<le> fd" "fd < 2 ^ 31"
  shows "0 < socket_id_of v fd \<and> socket_id_of v fd div 2 ^ 32 = v \<and> socket_id_of v fd mod 2 ^ 32 = fd \<and>
    1 \<le> next_value v \<and> next_value v \<le> INT32_MAX \<and> next_value v \<noteq> v"
proof -
  have id: "socket_id_of v fd = v * 2 ^ 32 + fd"
    using socket_id_value [OF assms(1,2), of fd] int32_small [of fd] assms(3,4) by simp
  have "(v * 2 ^ 32 + fd) div 2 ^ 32 = v" "(v * 2 ^ 32 + fd) mod 2 ^ 32 = fd" using assms(3,4) by simp_all
  then show ?thesis using id assms by (auto simp: next_value_def INT32_MAX_def)
qed

section \<open>What callers have to avoid\<close>

text \<open>
  C6 (error): the accept loop keeps a pointer to the listening socket. When the callback for a new connection closes that
  socket, the next turn of the loop accepts on a deleted object: undefined behaviour, unless the address happens to be used
  again. (The contract \<open>good_app\<close> therefore excludes it.)
\<close>

theorem accept_after_close:
  assumes "accept_step os app p s = Some (Inr s')" "io_devices s' p = None" "fst (new_device os s') \<noteq> p"
  shows "onListenSocketRead os app p s = None"
proof -
  obtain q s1 where q: "new_device os s' = (q, s1)" by (cases "new_device os s'")
  then have "io_devices s1 p = None" using assms(2,3) by (auto simp: new_device_def split: prod.splits)
  then have "accept_step os app p s' = None" using q by (simp add: accept_step_def acceptNonblock_def tcp_accept_def)
  then have "onListenSocketRead os app p s' = None" by (simp add: onListenSocketRead.simps [of os app p s'])
  then show ?thesis using assms(1) by (simp add: onListenSocketRead.simps [of os app p s])
qed

definition close_listener :: "net application" where
  "close_listener e s = (case e of NewConnection l i \<Rightarrow> closeSocket net_kernel l s | _ \<Rightarrow> Some s)"

lemmas close_run_defs = tcp_run_defs net_defs Let_def accept_step_def acceptNonblock_def app_if_def close_listener_def closeSocket_def
  removeSocketTimer_def connection_new_def delete_context_def ECONNABORTED_def EAGAIN_def

lemma socket_id_2: "socket_id_of 2 4 = 8589934596" "next_value 1 = 2" "tc_contexts net_service = Map.empty"
  using socket_id_value [of 2 4] int32_small [of 4]
  by (simp_all add: INT32_MAX_def next_value_def net_service_def setter_defs tcp_new_def io_new_def)

theorem accept_after_close_witness:
  "tcp_inv net_listener \<and> onListenSocketRead net_kernel close_listener 1 net_listener = None"
proof
  show "tcp_inv net_listener"
    using opening_ops(1) [OF net_kernel_ok net_service_inv, of net_addr] net_listen by (auto simp: opened_def)
  have "\<exists>s'. accept_step net_kernel close_listener 1 net_listener = Some (Inr s') \<and> io_devices s' 1 = None \<and> fst (new_device net_kernel s') \<noteq> 1"
    by (simp add: net_listener_eq close_run_defs socket_id_2)
  then show "onListenSocketRead net_kernel close_listener 1 net_listener = None" using accept_after_close by blast
qed

text \<open>
  A message accepted while earlier bytes wait joins the buffer, and its completion callback replaces the
  one that was set. So \<open>sendMessageThenClose\<close> followed by \<open>sendMessage\<close> or \<open>broadcastMessage\<close> never closes the connection.
\<close>

lemma send_replaces_completion:
  assumes "kernel_ok os pending" "tcp_inv s" "tc_connections s i = Some c" "tc_conns s c = Some k" "cn_status k = CONNECTED"
    "db_data (cn_write k) \<noteq> []" "length (db_data (cn_write k)) + length bs \<le> tc_write_max s"
  shows "\<exists>s' k'. sendMessage os app i bs cb s = Some (True, s') \<and> tcp_inv s' \<and> tc_conns s' c = Some k' \<and> cn_complete k' = cb \<and>
    db_data (cn_write k') = db_data (cn_write k) @ bs"
proof -
  obtain p d k' where "conn_at s i c p d k'" by (rule conn_atE [OF assms(2,3)])
  with assms(4) have at: "conn_at s i c p d k" by (simp add: conn_at_def)
  have lim: "tc_write_max s \<le> 2 ^ 61" "0 < tc_write_max s" using inv_parts(1) [OF assms(2)] by (simp_all add: limits_ok_def)
  have len: "db_readableBytes (cn_write k) = length (db_data (cn_write k))"
    using at length_db_data by (simp add: conn_at_def conn_state_def buf_ok_def)
  have room: "db_readableBytes (cn_write k) + length bs \<le> 2 ^ 61" using assms(7) lim len by simp
  obtain s' where s': "(do { s \<leftarrow> buffer_message c bs cb s;
      if db_data (cn_write k) = [] then setWriteCallback os p (Some OnSocketWrite) s else Some s }) = Some s'"
    "queued pending i c p d k cb (db_data (cn_write k) @ bs) s s'"
    by (rule buffer_message_spec [OF assms(1,2) at assms(5) room]) (use assms(6) in simp)
  have "\<not> write_overflow s (length bs) (cn_write k)"
    using assms(7) len lim by (simp add: write_overflow_def sz_def)
  moreover have "db_readableBytes (cn_write k) \<noteq> 0" using len assms(6) by simp
  ultimately have "sendMessage os app i bs cb s = Some (True, s')"
    using assms(3-6) s'(1) by (auto simp: sendMessage_def send_connection_def bind_eq_Some_conv)
  then show ?thesis using s'(2) by (auto simp: queued_def fine_def conn_at_def)
qed

section \<open>The echo server\<close>




end
