(* ===== verification/CommandLineOption.thy ===== *)
theory CommandLineOption
  imports StringUtil
begin

text \<open>
  Model of \<open>src/brickred/command_line_option.cc\<close>: declared options, with or without a parameter, and a parser of
  \<open>argv\<close> that collects parameters per option and the other arguments. The result -1 of the two option
  parsers keeps what was collected before the error, as the code does.
\<close>

section \<open>State\<close>

datatype parameter_type = ParamNone | ParamRequired

record cmd_option =
  co_types :: "bytes \<rightharpoonup> parameter_type"
  co_params :: "bytes \<rightharpoonup> bytes list"
  co_left :: "bytes list"

definition co_new :: cmd_option where
  "co_new = \<lparr>co_types = Map.empty, co_params = Map.empty, co_left = []\<rparr>"

text \<open>\<open>insert\<close> keeps an entry that is there.\<close>

definition insert_new :: "'a \<Rightarrow> 'b \<Rightarrow> ('a \<rightharpoonup> 'b) \<Rightarrow> 'a \<rightharpoonup> 'b" where
  "insert_new k v m = (if m k = None then m(k \<mapsto> v) else m)"

definition addOption :: "bytes \<Rightarrow> parameter_type \<Rightarrow> cmd_option \<Rightarrow> cmd_option" where
  "addOption opt param_type s =
     s\<lparr>co_types := insert_new opt param_type (co_types s), co_params := insert_new opt [] (co_params s)\<rparr>"

text \<open>\<open>option_params[opt].push_back(v)\<close>: the index operator makes an entry where there is none.\<close>

definition push_param :: "bytes \<Rightarrow> bytes \<Rightarrow> cmd_option \<Rightarrow> cmd_option" where
  "push_param opt v s =
     s\<lparr>co_params := (co_params s)(opt \<mapsto> (case co_params s opt of None \<Rightarrow> [] | Some ps \<Rightarrow> ps) @ [v])\<rparr>"

section \<open>Parsing\<close>

definition dash :: byte where
  "dash = 45"

definition isOption :: "bytes \<Rightarrow> bool" where
  "isOption arg \<longleftrightarrow> length arg > 1 \<and> arg ! 0 = dash"

definition isLongOption :: "bytes \<Rightarrow> bool" where
  "isLongOption arg \<longleftrightarrow> length arg > 2 \<and> arg ! 0 = dash \<and> arg ! 1 = dash"

definition processLongOption :: "bytes \<Rightarrow> bytes \<Rightarrow> cmd_option \<Rightarrow> int \<times> cmd_option" where
  "processLongOption arg next_param s =
     (let long_opt_parts = split_cstr (drop 2 arg) (str ''='') 2;
          opt = long_opt_parts ! 0
      in case co_types s opt of
           None \<Rightarrow> (-1, s)
         | Some ParamNone \<Rightarrow>
             if length long_opt_parts > 1 then (-1, s) else (1, push_param opt [] s)
         | Some ParamRequired \<Rightarrow>
             if length long_opt_parts > 1 then (1, push_param opt (long_opt_parts ! 1) s)
             else if next_param = [] then (-1, s)
             else (2, push_param opt next_param s))"

text \<open>The loop over the characters of the argument; \<open>cs\<close> are those from index \<open>i\<close> on.\<close>

fun short_loop :: "bytes \<Rightarrow> bytes \<Rightarrow> cmd_option \<Rightarrow> int \<times> cmd_option" where
  "short_loop [] next_param s = (1, s)"
| "short_loop (c # cs) next_param s =
     (let opt = [c]
      in case co_types s opt of
           None \<Rightarrow> (-1, s)
         | Some ParamNone \<Rightarrow> short_loop cs next_param (push_param opt [] s)
         | Some ParamRequired \<Rightarrow>
             if cs \<noteq> [] then (1, push_param opt cs s)
             else if next_param = [] then (-1, s)
             else (2, push_param opt next_param s))"

definition processShortOption :: "bytes \<Rightarrow> bytes \<Rightarrow> cmd_option \<Rightarrow> int \<times> cmd_option" where
  "processShortOption arg next_param s = short_loop (drop 1 arg) next_param s"

text \<open>
  The loop over \<open>argv\<close>; the list holds the arguments from index \<open>i\<close> on. An option that takes its parameter
  from the next argument consumes two.
\<close>

function parse_loop :: "bytes list \<Rightarrow> cmd_option \<Rightarrow> bool \<times> cmd_option" where
  "parse_loop [] s = (True, s)"
| "parse_loop (a # rest) s =
     (let arg = cstr a;
          next_param = (case rest of [] \<Rightarrow> [] | b # _ \<Rightarrow> cstr b)
      in if arg = [dash, dash] then (True, s\<lparr>co_left := co_left s @ map cstr rest\<rparr>)
         else if \<not> isOption arg then parse_loop rest (s\<lparr>co_left := co_left s @ [arg]\<rparr>)
         else case (if isLongOption arg then processLongOption arg next_param s else processShortOption arg next_param s) of
           (ret, s) \<Rightarrow>
             if ret = -1 then (False, s)
             else if ret = 2 then parse_loop (drop 1 rest) s
             else parse_loop rest s)"
  by pat_completeness auto
termination
  by (relation "measure (\<lambda>(args, s). length args)") auto

definition co_parse :: "bytes list \<Rightarrow> cmd_option \<Rightarrow> bool \<times> cmd_option" where
  "co_parse argv s = parse_loop (drop 1 argv) s"

section \<open>Results\<close>

definition hasOption :: "bytes \<Rightarrow> cmd_option \<Rightarrow> bool" where
  "hasOption opt s = (case co_params s opt of None \<Rightarrow> False | Some params \<Rightarrow> params \<noteq> [])"

definition getParameter :: "bytes \<Rightarrow> cmd_option \<Rightarrow> bytes" where
  "getParameter opt s = (case co_params s opt of None \<Rightarrow> [] | Some params \<Rightarrow> if params = [] then [] else last params)"

definition getParameters :: "bytes \<Rightarrow> cmd_option \<Rightarrow> bytes list" where
  "getParameters opt s = (case co_params s opt of None \<Rightarrow> [] | Some params \<Rightarrow> params)"

section \<open>Command lines\<close>

text \<open>
  The command lines as a grammar: an item is an argument that is no option, a long option without a parameter, with
  one behind \<open>=\<close> or in the next argument, or a group of short options, possibly closed by one with a parameter, behind
  it or in the next argument.
\<close>

datatype item =
    Argument bytes
  | LongFlag bytes
  | LongValue bytes bytes
  | LongNext bytes bytes
  | ShortFlags bytes
  | ShortValue bytes byte bytes
  | ShortNext bytes byte bytes

fun render :: "item \<Rightarrow> bytes list" where
  "render (Argument a) = [a]"
| "render (LongFlag opt) = [[dash, dash] @ opt]"
| "render (LongValue opt v) = [[dash, dash] @ opt @ str ''='' @ v]"
| "render (LongNext opt v) = [[dash, dash] @ opt, v]"
| "render (ShortFlags cs) = [dash # cs]"
| "render (ShortValue cs c v) = [dash # cs @ [c] @ v]"
| "render (ShortNext cs c v) = [dash # cs @ [c], v]"

definition long_name :: "bytes \<Rightarrow> bool" where
  "long_name opt \<longleftrightarrow> opt \<noteq> [] \<and> 61 \<notin> set opt"

fun item_ok :: "(bytes \<rightharpoonup> parameter_type) \<Rightarrow> item \<Rightarrow> bool" where
  "item_ok ts (Argument a) \<longleftrightarrow> \<not> isOption a"
| "item_ok ts (LongFlag opt) \<longleftrightarrow> long_name opt \<and> ts opt = Some ParamNone"
| "item_ok ts (LongValue opt v) \<longleftrightarrow> long_name opt \<and> ts opt = Some ParamRequired"
| "item_ok ts (LongNext opt v) \<longleftrightarrow> long_name opt \<and> ts opt = Some ParamRequired \<and> v \<noteq> []"
| "item_ok ts (ShortFlags cs) \<longleftrightarrow> cs \<noteq> [] \<and> hd cs \<noteq> dash \<and> (\<forall>c \<in> set cs. ts [c] = Some ParamNone)"
| "item_ok ts (ShortValue cs c v) \<longleftrightarrow> hd (cs @ [c]) \<noteq> dash \<and> (\<forall>c \<in> set cs. ts [c] = Some ParamNone) \<and> ts [c] = Some ParamRequired \<and> v \<noteq> []"
| "item_ok ts (ShortNext cs c v) \<longleftrightarrow> hd (cs @ [c]) \<noteq> dash \<and> (\<forall>c \<in> set cs. ts [c] = Some ParamNone) \<and> ts [c] = Some ParamRequired \<and> v \<noteq> []"

text \<open>What an item says: parameters of options, in order, and other arguments.\<close>

fun item_params :: "item \<Rightarrow> (bytes \<times> bytes) list" where
  "item_params (Argument a) = []"
| "item_params (LongFlag opt) = [(opt, [])]"
| "item_params (LongValue opt v) = [(opt, v)]"
| "item_params (LongNext opt v) = [(opt, v)]"
| "item_params (ShortFlags cs) = map (\<lambda>c. ([c], [])) cs"
| "item_params (ShortValue cs c v) = map (\<lambda>c. ([c], [])) cs @ [([c], v)]"
| "item_params (ShortNext cs c v) = map (\<lambda>c. ([c], [])) cs @ [([c], v)]"

fun item_left :: "item \<Rightarrow> bytes list" where
  "item_left (Argument a) = [a]"
| "item_left _ = []"

definition push_all :: "(bytes \<times> bytes) list \<Rightarrow> cmd_option \<Rightarrow> cmd_option" where
  "push_all ps s = fold (\<lambda>(opt, v). push_param opt v) ps s"

section \<open>Parsing renders items back\<close>

lemma push_param_types [simp]: "co_types (push_param opt v s) = co_types s" "co_left (push_param opt v s) = co_left s"
  by (simp_all add: push_param_def)

lemma push_all_simps [simp]:
  "push_all [] s = s" "push_all (p # ps) s = push_all ps (push_param (fst p) (snd p) s)"
  "push_all (ps @ qs) s = push_all qs (push_all ps s)"
  by (simp_all add: push_all_def split: prod.splits)

lemma push_all_types [simp]: "co_types (push_all ps s) = co_types s" "co_left (push_all ps s) = co_left s"
  by (induction ps arbitrary: s) simp_all

lemma left_same: "co_left s = l \<Longrightarrow> s\<lparr>co_left := l\<rparr> = s"
  by auto

lemma push_param_left: "push_param opt v (s\<lparr>co_left := l\<rparr>) = push_param opt v s\<lparr>co_left := l\<rparr>"
  by (simp add: push_param_def)

lemma push_all_left: "push_all ps (s\<lparr>co_left := l\<rparr>) = push_all ps s\<lparr>co_left := l\<rparr>"
  by (induction ps arbitrary: s) (simp_all add: push_param_left)

lemma getParameters_push: "getParameters opt (push_all ps s) = getParameters opt s @ map snd (filter (\<lambda>p. fst p = opt) ps)"
proof (induction ps arbitrary: s)
  case (Cons p ps)
  have "getParameters opt (push_param (fst p) (snd p) s) = getParameters opt s @ (if fst p = opt then [snd p] else [])"
    by (auto simp: getParameters_def push_param_def split: option.splits)
  then show ?case using Cons by simp
qed simp

lemma short_loop_flags:
  "\<forall>c \<in> set cs. co_types s [c] = Some ParamNone \<Longrightarrow>
     short_loop (cs @ ds) np s = short_loop ds np (push_all (map (\<lambda>c. ([c], [])) cs) s)"
  by (induction cs arbitrary: s) simp_all

lemma str_equals [simp]: "str ''='' = [61]"
  by (simp add: str_def)

lemma split_long:
  assumes "0 \<notin> set opt" "61 \<notin> set opt"
  shows "split_cstr opt [61] 2 = [opt]" "0 \<notin> set v \<Longrightarrow> split_cstr (opt @ [61] @ v) [61] 2 = [opt, v]"
proof -
  have n: "cstr [61] = [61]" by (rule cstr_no_nul) simp
  show "split_cstr opt [61] 2 = [opt]"
    using assms search_absent [of 61 opt "[]"] by (simp add: split_cstr_def split_bytes_def n cstr_no_nul split_loop.simps)
  assume v: "0 \<notin> set v"
  have "search (opt @ [61] @ v) [61] = Some (length opt)" using search_after [of 61 opt "[]" v] assms by simp
  moreover have "split_loop [61] 2 1 v = [v]" by (simp add: split_loop.simps)
  ultimately have "split_loop [61] 2 0 (opt @ [61] @ v) = [opt, v]" by (subst split_loop.simps) simp
  moreover have "cstr (opt @ [61] @ v) = opt @ [61] @ v" by (rule cstr_no_nul) (use assms v in auto)
  ultimately show "split_cstr (opt @ [61] @ v) [61] 2 = [opt, v]" by (simp add: split_cstr_def split_bytes_def n)
qed

declare parse_loop.simps(2) [simp del]

text \<open>One long or short option at the head of the arguments.\<close>

lemma parse_long:
  assumes "opt \<noteq> []" "0 \<notin> set opt"
  shows "parse_loop (([dash, dash] @ opt) # rest) s =
    (case processLongOption ([dash, dash] @ opt) (case rest of [] \<Rightarrow> [] | b # _ \<Rightarrow> cstr b) s of
       (ret, s) \<Rightarrow> if ret = -1 then (False, s) else if ret = 2 then parse_loop (drop 1 rest) s else parse_loop rest s)"
proof -
  have "cstr ([dash, dash] @ opt) = [dash, dash] @ opt" by (rule cstr_no_nul) (use assms in \<open>auto simp: dash_def\<close>)
  moreover have "isOption ([dash, dash] @ opt)" "isLongOption ([dash, dash] @ opt)"
    using assms(1) by (cases opt; simp add: isOption_def isLongOption_def)+
  ultimately show ?thesis using assms(1) by (simp add: Let_def parse_loop.simps)
qed

lemma parse_short:
  assumes "cs \<noteq> []" "hd cs \<noteq> dash" "0 \<notin> set cs"
  shows "parse_loop ((dash # cs) # rest) s =
    (case short_loop cs (case rest of [] \<Rightarrow> [] | b # _ \<Rightarrow> cstr b) s of
       (ret, s) \<Rightarrow> if ret = -1 then (False, s) else if ret = 2 then parse_loop (drop 1 rest) s else parse_loop rest s)"
proof -
  obtain x xs where cs: "cs = x # xs" using assms(1) by (cases cs) auto
  have "cstr (dash # cs) = dash # cs" by (rule cstr_no_nul) (use assms in \<open>auto simp: dash_def\<close>)
  moreover have "isOption (dash # cs)" "\<not> isLongOption (dash # cs)" "dash # cs \<noteq> [dash, dash]"
    using assms(2) cs by (auto simp: isOption_def isLongOption_def)
  ultimately show ?thesis by (simp add: Let_def processShortOption_def parse_loop.simps)
qed

lemma parse_item:
  assumes "item_ok (co_types s) it" "0 \<notin> set (concat (render it))"
  shows "parse_loop (render it @ rest) s = parse_loop rest (push_all (item_params it) s\<lparr>co_left := co_left s @ item_left it\<rparr>)"
proof (cases it)
  case (Argument a)
  then have "cstr a = a" "\<not> isOption a" using assms cstr_no_nul by auto
  moreover from this have "a \<noteq> [dash, dash]" by (auto simp: isOption_def)
  ultimately show ?thesis using Argument by (simp add: Let_def parse_loop.simps)
next
  case (LongFlag opt)
  have "parse_loop (([dash, dash] @ opt) # rest) s = parse_loop rest (push_param opt [] s)"
    by (subst parse_long) (use assms LongFlag split_long(1) [of opt] in \<open>auto simp: processLongOption_def long_name_def\<close>)
  with LongFlag show ?thesis by (simp add: left_same)
next
  case (LongValue opt v)
  have "parse_loop (([dash, dash] @ (opt @ [61] @ v)) # rest) s = parse_loop rest (push_param opt v s)"
    by (subst parse_long) (use assms LongValue split_long(2) [of opt v] in \<open>auto simp: processLongOption_def long_name_def\<close>)
  with LongValue show ?thesis by (simp add: left_same)
next
  case (LongNext opt v)
  have "cstr v = v" by (rule cstr_no_nul) (use assms LongNext in simp)
  then have "parse_loop (([dash, dash] @ opt) # v # rest) s = parse_loop rest (push_param opt v s)"
    by (subst parse_long) (use assms LongNext split_long(1) [of opt] in \<open>auto simp: processLongOption_def long_name_def\<close>)
  with LongNext show ?thesis by (simp add: left_same)
next
  case (ShortFlags cs)
  with assms show ?thesis using parse_short [of cs rest s] short_loop_flags [of cs s "[]"] by (simp add: left_same)
next
  case (ShortValue cs c v)
  have "parse_loop ((dash # cs @ [c] @ v) # rest) s = parse_loop rest (push_all (item_params it) s)"
    by (subst parse_short) (use assms ShortValue short_loop_flags [of cs s "[c] @ v"] in \<open>auto simp: hd_append\<close>)
  with ShortValue show ?thesis by (simp add: left_same)
next
  case (ShortNext cs c v)
  have "cstr v = v" by (rule cstr_no_nul) (use assms ShortNext in simp)
  then have "parse_loop ((dash # cs @ [c]) # v # rest) s = parse_loop rest (push_all (item_params it) s)"
    by (subst parse_short) (use assms ShortNext short_loop_flags [of cs s "[c]"] in \<open>auto simp: hd_append\<close>)
  with ShortNext show ?thesis by (simp add: left_same)
qed

lemma parse_items:
  assumes "\<forall>it \<in> set items. item_ok (co_types s) it \<and> 0 \<notin> set (concat (render it))"
  shows "parse_loop (concat (map render items) @ rest) s =
    parse_loop rest (push_all (concat (map item_params items)) s\<lparr>co_left := co_left s @ concat (map item_left items)\<rparr>)"
  using assms
proof (induction items arbitrary: s)
  case (Cons it items)
  let ?s = "push_all (item_params it) s\<lparr>co_left := co_left s @ item_left it\<rparr>"
  have "parse_loop (concat (map render (it # items)) @ rest) s = parse_loop (concat (map render items) @ rest) ?s"
    using parse_item [of s it "concat (map render items) @ rest"] Cons.prems by simp
  also have "\<dots> = parse_loop rest (push_all (concat (map item_params items)) ?s\<lparr>co_left := co_left ?s @ concat (map item_left items)\<rparr>)"
    by (rule Cons.IH) (use Cons.prems in simp)
  finally show ?case by (simp add: push_all_left)
qed simp

section \<open>Properties\<close>

text \<open>
  C34 (roundtrip): a command line written from the grammar is accepted and read back: every option has the parameters that were
  given to it, in order, behind those it had, whatever the notation (\<open>--opt=v\<close>, \<open>--opt v\<close>, \<open>-ov\<close>, \<open>-o v\<close>, grouped flags), also
  values that look like options; the other arguments, and everything behind \<open>--\<close>, are left in order.
\<close>

theorem command_line_roundtrip:
  assumes "\<forall>it \<in> set items. item_ok (co_types s) it \<and> 0 \<notin> set (concat (render it))" "0 \<notin> set (concat rest)"
    "argv = prog # concat (map render items) @ (if closed then [dash, dash] # rest else [])"
  shows "\<exists>s'. co_parse argv s = (True, s') \<and>
    co_left s' = co_left s @ concat (map item_left items) @ (if closed then rest else []) \<and>
    (\<forall>opt. getParameters opt s' = getParameters opt s @ map snd (filter (\<lambda>p. fst p = opt) (concat (map item_params items))))"
proof -
  have "cstr [dash, dash] = [dash, dash]" "map cstr rest = rest"
    using assms(2) by (auto simp: cstr_no_nul dash_def intro!: map_idI)
  moreover have "getParameters opt (x\<lparr>co_left := l\<rparr>) = getParameters opt x" for opt x l by (simp add: getParameters_def)
  ultimately show ?thesis
    using parse_items [OF assms(1), of "if closed then [dash, dash] # rest else []"] assms(3)
    by (auto simp: co_parse_def getParameters_push Let_def parse_loop.simps)
qed

theorem command_line_roundtrip_witness:
  "\<exists>s'. co_parse (map str [''tool'', ''-vofile'', ''--level'', ''-3'', ''input'', ''--name=a=b'', ''--'', ''-v''])
      (addOption (str ''v'') ParamNone (addOption (str ''o'') ParamRequired
        (addOption (str ''level'') ParamRequired (addOption (str ''name'') ParamRequired co_new)))) = (True, s') \<and>
    co_left s' = map str [''input'', ''-v''] \<and> getParameters (str ''v'') s' = [[]] \<and>
    getParameters (str ''o'') s' = [str ''file''] \<and> getParameters (str ''level'') s' = [str ''-3''] \<and>
    getParameters (str ''name'') s' = [str ''a=b'']"
proof -
  let ?s = "addOption (str ''v'') ParamNone (addOption (str ''o'') ParamRequired
    (addOption (str ''level'') ParamRequired (addOption (str ''name'') ParamRequired co_new)))"
  let ?items = "[ShortValue (str ''v'') 111 (str ''file''), LongNext (str ''level'') (str ''-3''), Argument (str ''input''),
    LongValue (str ''name'') (str ''a=b'')]"
  have items: "\<forall>it \<in> set ?items. item_ok (co_types ?s) it \<and> 0 \<notin> set (concat (render it))"
    by (simp add: str_def addOption_def insert_new_def co_new_def long_name_def dash_def isOption_def)
  have argv: "map str [''tool'', ''-vofile'', ''--level'', ''-3'', ''input'', ''--name=a=b'', ''--'', ''-v''] =
      str ''tool'' # concat (map render ?items) @ (if True then [dash, dash] # [str ''-v''] else [])"
    and rest: "0 \<notin> set (concat [str ''-v''])"
    by (simp_all add: str_def dash_def)
  have "\<exists>s'. co_parse (map str [''tool'', ''-vofile'', ''--level'', ''-3'', ''input'', ''--name=a=b'', ''--'', ''-v'']) ?s = (True, s') \<and>
    co_left s' = co_left ?s @ concat (map item_left ?items) @ (if True then [str ''-v''] else []) \<and>
    (\<forall>opt. getParameters opt s' = getParameters opt ?s @ map snd (filter (\<lambda>p. fst p = opt) (concat (map item_params ?items))))"
    by (rule command_line_roundtrip [OF items rest argv])
  then show ?thesis
    by (rule ex_forward) (simp add: str_def getParameters_def addOption_def insert_new_def co_new_def)
qed

text \<open>
  A bad option stops the parser: a command line of correct items is refused as soon as an option that was not declared, a flag
  with a value, or an option without its value follows, and what was read before it is kept.
\<close>

lemma command_line_error:
  assumes "\<forall>it \<in> set items. item_ok (co_types s) it \<and> 0 \<notin> set (concat (render it))"
    "opt \<noteq> []" "0 \<notin> set opt" "61 \<notin> set opt" "0 \<notin> set v"
    "co_types s opt = None \<and> (bad = [dash, dash] @ opt \<or> bad = [dash, dash] @ opt @ [61] @ v) \<or>
     co_types s opt = Some ParamNone \<and> bad = [dash, dash] @ opt @ [61] @ v \<or>
     co_types s opt = Some ParamRequired \<and> bad = [dash, dash] @ opt \<and> others = [] \<or>
     (\<exists>c. opt = [c] \<and> c \<noteq> dash \<and> co_types s opt = None \<and> bad = dash # c # v) \<or>
     (\<exists>c. opt = [c] \<and> c \<noteq> dash \<and> co_types s opt = Some ParamRequired \<and> bad = [dash, c] \<and> others = [])"
  shows "co_parse (prog # concat (map render items) @ bad # others) s =
    (False, push_all (concat (map item_params items)) s\<lparr>co_left := co_left s @ concat (map item_left items)\<rparr>)"
proof -
  let ?t = "push_all (concat (map item_params items)) s\<lparr>co_left := co_left s @ concat (map item_left items)\<rparr>"
  have t: "co_types ?t = co_types s" by simp
  have "parse_loop (bad # others) ?t = (False, ?t)"
    using assms(6)
  proof (elim disjE conjE exE)
    assume "co_types s opt = None" "bad = [dash, dash] @ opt"
    then show ?thesis
      by (subst \<open>bad = _\<close>, subst parse_long) (use assms split_long(1) [of opt] t in \<open>auto simp: processLongOption_def\<close>)
  next
    assume "co_types s opt = None" "bad = [dash, dash] @ opt @ [61] @ v"
    then show ?thesis
      by (subst \<open>bad = _\<close>, subst parse_long) (use assms split_long(2) [of opt v] t in \<open>auto simp: processLongOption_def\<close>)
  next
    assume "co_types s opt = Some ParamNone" "bad = [dash, dash] @ opt @ [61] @ v"
    then show ?thesis
      by (subst \<open>bad = _\<close>, subst parse_long) (use assms split_long(2) [of opt v] t in \<open>auto simp: processLongOption_def\<close>)
  next
    assume "co_types s opt = Some ParamRequired" "bad = [dash, dash] @ opt" "others = []"
    then show ?thesis
      by (subst \<open>bad = _\<close>, subst parse_long) (use assms split_long(1) [of opt] t in \<open>auto simp: processLongOption_def\<close>)
  next
    fix c assume "opt = [c]" "c \<noteq> dash" "co_types s opt = None" "bad = dash # c # v"
    then show ?thesis
      by (subst \<open>bad = _\<close>, subst parse_short) (use assms t in \<open>auto\<close>)
  next
    fix c assume "opt = [c]" "c \<noteq> dash" "co_types s opt = Some ParamRequired" "bad = [dash, c]" "others = []"
    then show ?thesis
      by (subst \<open>bad = _\<close>, subst parse_short) (use assms t in \<open>auto\<close>)
  qed
  then show ?thesis using parse_items [OF assms(1), of "bad # others"] by (simp add: co_parse_def)
qed

end
