(* ===== verification/Mt19937.thy ===== *)
theory Mt19937
  imports Complex_Main Timestamp
begin

text \<open>
  Model of \<open>src/brickred/codec/mt19937.cc\<close> and \<open>src/brickred/random.cc\<close>: the Mersenne Twister, its seeding, and the
  integers and doubles made from it. The array is accessed through \<open>at_index\<close> and \<open>set_index\<close>, \<open>None\<close>
  outside of it.
\<close>

section \<open>State\<close>

definition MT_N :: int where "MT_N = 624"
definition MT_M :: int where "MT_M = 397"
definition MATRIX_A :: u32 where "MATRIX_A = 0x9908b0df"
definition UPPER_MASK :: u32 where "UPPER_MASK = 0x80000000"
definition LOWER_MASK :: u32 where "LOWER_MASK = 0x7fffffff"

record mt19937 =
  mt_words :: "u32 list"
  mt_index :: int

definition at_index :: "'a list \<Rightarrow> int \<Rightarrow> 'a option" where
  "at_index m i = (if 0 \<le> i \<and> i < int (length m) then Some (m ! nat i) else None)"

definition set_index :: "'a list \<Rightarrow> int \<Rightarrow> 'a \<Rightarrow> 'a list option" where
  "set_index m i v = (if 0 \<le> i \<and> i < int (length m) then Some (m[nat i := v]) else None)"

section \<open>Seeding\<close>

text \<open>The members are not initialised by the constructor; \<open>mt\<close> is whatever they hold.\<close>

function seed_loop :: "mt19937 \<Rightarrow> mt19937 option" where
  "seed_loop mt =
     (if mt_index mt < MT_N then do {
        x \<leftarrow> at_index (mt_words mt) (mt_index mt - 1);
        words \<leftarrow> set_index (mt_words mt) (mt_index mt)
          (1812433253 * (x XOR drop_bit 30 x) + word_of_int (mt_index mt));
        seed_loop \<lparr>mt_words = words, mt_index = mt_index mt + 1\<rparr> }
      else Some mt)"
  by pat_completeness auto
termination
  by (relation "measure (\<lambda>mt. nat (MT_N - mt_index mt))") auto

declare seed_loop.simps [simp del]

definition mt_seed :: "u32 \<Rightarrow> mt19937 \<Rightarrow> mt19937 option" where
  "mt_seed s mt = do {
     words \<leftarrow> set_index (mt_words mt) 0 s;
     seed_loop \<lparr>mt_words = words, mt_index = 1\<rparr> }"

text \<open>The index runs from 1; behind the last word it starts again after copying it to the front.\<close>

definition wrap_index :: "u32 list \<Rightarrow> int \<Rightarrow> (u32 list \<times> int) option" where
  "wrap_index words i =
     (if i \<ge> MT_N then do {
        x \<leftarrow> at_index words (MT_N - 1);
        words \<leftarrow> set_index words 0 x;
        Some (words, 1) }
      else Some (words, i))"

definition mixed :: "u32 list \<Rightarrow> int \<Rightarrow> u32 \<Rightarrow> u32 option" where
  "mixed words i factor = do {
     x \<leftarrow> at_index words i;
     y \<leftarrow> at_index words (i - 1);
     Some (x XOR ((y XOR drop_bit 30 y) * factor)) }"

fun key_loop :: "u32 list \<Rightarrow> nat \<Rightarrow> u32 list \<Rightarrow> int \<Rightarrow> int \<Rightarrow> (u32 list \<times> int) option" where
  "key_loop key 0 words i j = Some (words, i)"
| "key_loop key (Suc k) words i j = do {
     x \<leftarrow> mixed words i 1664525;
     y \<leftarrow> at_index key j;
     words \<leftarrow> set_index words i (x + y + word_of_int j);
     (words, i) \<leftarrow> wrap_index words (i + 1);
     let j = j + 1;
     let j = (if j \<ge> to_int32 (length key) then 0 else j);
     key_loop key k words i j }"

fun index_loop :: "nat \<Rightarrow> u32 list \<Rightarrow> int \<Rightarrow> (u32 list \<times> int) option" where
  "index_loop 0 words i = Some (words, i)"
| "index_loop (Suc k) words i = do {
     x \<leftarrow> mixed words i 1566083941;
     words \<leftarrow> set_index words i (x - word_of_int i);
     (words, i) \<leftarrow> wrap_index words (i + 1);
     index_loop k words i }"

definition mt_seed_key :: "u32 list \<Rightarrow> mt19937 \<Rightarrow> mt19937 option" where
  "mt_seed_key key mt = do {
     mt \<leftarrow> mt_seed 19650218 mt;
     let k = (if MT_N > to_int32 (length key) then MT_N else to_int32 (length key));
     (words, i) \<leftarrow> key_loop key (nat k) (mt_words mt) 1 0;
     (words, i) \<leftarrow> index_loop (nat (MT_N - 1)) words i;
     words \<leftarrow> set_index words 0 0x80000000;
     Some (mt\<lparr>mt_words := words\<rparr>) }"

text \<open>\<open>Random::Random\<close>: the seed from the clock.\<close>

definition random_new :: "timestamp \<Rightarrow> mt19937 \<Rightarrow> mt19937 option" where
  "random_new now mt =
     mt_seed (word_of_int (ts_second now + (if ts_second now AND 1 \<noteq> 0 then -1 else 1) * getMilliSecond now * 24 * 60 * 60)) mt"

section \<open>Generating\<close>

definition twisted :: "u32 \<Rightarrow> u32" where
  "twisted y = drop_bit 1 y XOR (if y AND 1 = 0 then 0 else MATRIX_A)"

definition joined :: "u32 \<Rightarrow> u32 \<Rightarrow> u32" where
  "joined a b = (a AND UPPER_MASK) OR (b AND LOWER_MASK)"

text \<open>One word of the new generation: \<open>i\<close>, its successor and the word it is mixed with.\<close>

definition regenerate :: "u32 list \<Rightarrow> int \<Rightarrow> int \<Rightarrow> int \<Rightarrow> u32 list option" where
  "regenerate words i next_i mix_i = do {
     a \<leftarrow> at_index words i;
     b \<leftarrow> at_index words next_i;
     x \<leftarrow> at_index words mix_i;
     set_index words i (x XOR twisted (joined a b)) }"

fun generate_loop :: "nat \<Rightarrow> int \<Rightarrow> int \<Rightarrow> u32 list \<Rightarrow> u32 list option" where
  "generate_loop 0 i offset words = Some words"
| "generate_loop (Suc n) i offset words = do {
     words \<leftarrow> regenerate words i (i + 1) (i + offset);
     generate_loop n (i + 1) offset words }"

definition generate :: "u32 list \<Rightarrow> u32 list option" where
  "generate words = do {
     words \<leftarrow> generate_loop (nat (MT_N - MT_M)) 0 MT_M words;
     words \<leftarrow> generate_loop (nat (MT_M - 1)) (MT_N - MT_M) (MT_M - MT_N) words;
     regenerate words (MT_N - 1) 0 (MT_M - 1) }"

definition temper :: "u32 \<Rightarrow> u32" where
  "temper y =
     (let y = y XOR drop_bit 11 y;
          y = y XOR (push_bit 7 y AND 0x9d2c5680);
          y = y XOR (push_bit 15 y AND 0xefc60000)
      in y XOR drop_bit 18 y)"

definition nextInt :: "mt19937 \<Rightarrow> (u32 \<times> mt19937) option" where
  "nextInt mt = do {
     mt \<leftarrow> (if mt_index mt \<ge> MT_N
            then do { words \<leftarrow> generate (mt_words mt); Some \<lparr>mt_words = words, mt_index = 0\<rparr> }
            else Some mt);
     y \<leftarrow> at_index (mt_words mt) (mt_index mt);
     Some (temper y, mt\<lparr>mt_index := mt_index mt + 1\<rparr>) }"

section \<open>Integers in a range, doubles\<close>

definition drop_threshold :: "u32 \<Rightarrow> u32" where
  "drop_threshold limit = (- limit) mod limit"

partial_function (option) sample_loop :: "u32 \<Rightarrow> mt19937 \<Rightarrow> (u32 \<times> mt19937) option" where
  "sample_loop limit mt = do {
     (r, mt) \<leftarrow> nextInt mt;
     if r < drop_threshold limit then sample_loop limit mt else Some (r mod limit, mt) }"

definition nextInt_below :: "u32 \<Rightarrow> mt19937 \<Rightarrow> (u32 \<times> mt19937) option" where
  "nextInt_below limit mt = (if limit \<le> 1 then Some (0, mt) else sample_loop limit mt)"

definition nextInt_between :: "u32 \<Rightarrow> u32 \<Rightarrow> mt19937 \<Rightarrow> (u32 \<times> mt19937) option" where
  "nextInt_between lower upper mt =
     (if lower \<ge> upper then Some (lower, mt)
      else
        let offset = upper - lower
        in if offset = -1 then nextInt mt
           else do {
             (r, mt) \<leftarrow> nextInt_below (offset + 1) mt;
             Some (lower + r, mt) })"

text \<open>The operands and the result have at most 53 significant bits, so that the arithmetic of \<open>double\<close> is exact.\<close>

definition nextDouble :: "mt19937 \<Rightarrow> (real \<times> mt19937) option" where
  "nextDouble mt = do {
     (a, mt) \<leftarrow> nextInt mt;
     (b, mt) \<leftarrow> nextInt mt;
     Some ((real (unat (drop_bit 5 a)) * 67108864 + real (unat (drop_bit 6 b))) * (1 / 9007199254740992), mt) }"

section \<open>Generation refines the recurrence\<close>

text \<open>The sequence of all words: the first 624 are given, every later one is made from three earlier ones.\<close>

function mt_seq :: "u32 list \<Rightarrow> nat \<Rightarrow> u32" where
  "mt_seq b n =
     (if n < 624 then b ! n
      else mt_seq b (n - 227) XOR twisted (joined (mt_seq b (n - 624)) (mt_seq b (n - 623))))"
  by pat_completeness auto
termination
  by (relation "measure snd") auto

declare mt_seq.simps [simp del]

lemma mt_seq_step: "mt_seq b (n + 624) = mt_seq b (n + 397) XOR twisted (joined (mt_seq b n) (mt_seq b (n + 1)))"
  by (subst mt_seq.simps) (simp add: add.commute)

text \<open>The array while a generation is made: the words below \<open>i\<close> are of the next generation.\<close>

definition mt_block :: "u32 list \<Rightarrow> nat \<Rightarrow> nat \<Rightarrow> u32 list" where
  "mt_block b s i = map (\<lambda>j. mt_seq b (if j < i then s + 624 + j else s + j)) [0..<624]"

lemma mt_block_length [simp]: "length (mt_block b s i) = 624"
  by (simp add: mt_block_def)

lemma mt_block_nth [simp]: "j < 624 \<Longrightarrow> mt_block b s i ! j = mt_seq b (if j < i then s + 624 + j else s + j)"
  by (simp add: mt_block_def)

lemma mt_block_step:
  assumes "i < 624"
  shows "(mt_block b s i)[i := mt_seq b (s + i + 397) XOR twisted (joined (mt_seq b (s + i)) (mt_seq b (s + i + 1)))]
    = mt_block b s (Suc i)"
  by (rule nth_equalityI) (use assms mt_seq_step [of b "s + i"] in \<open>auto simp: nth_list_update less_Suc_eq add_ac\<close>)

lemma mt_block_full: "mt_block b s 624 = mt_block b (s + 624) 0"
  by (rule nth_equalityI) auto

lemma mt_block_start: "length b = 624 \<Longrightarrow> mt_block b 0 0 = b"
  by (rule nth_equalityI) (simp_all add: mt_seq.simps)

lemma index_of_nat [simp]:
  "at_index m (int i) = (if i < length m then Some (m ! i) else None)"
  "set_index m (int i) v = (if i < length m then Some (m[i := v]) else None)"
  by (auto simp: at_index_def set_index_def)

lemma index_of_sum [simp]:
  "at_index m (int i + 1) = (if Suc i < length m then Some (m ! Suc i) else None)"
  "at_index m (1 + int i) = (if Suc i < length m then Some (m ! Suc i) else None)"
  "at_index m (int i + numeral k) = (if i + numeral k < length m then Some (m ! (i + numeral k)) else None)"
  "numeral k \<le> i \<Longrightarrow> at_index m (int i - numeral k) = (if i - numeral k < length m then Some (m ! (i - numeral k)) else None)"
  "0 < i \<Longrightarrow> at_index m (int i - 1) = (if i - 1 < length m then Some (m ! (i - 1)) else None)"
  using index_of_nat(1) [of m "Suc i"] index_of_nat(1) [of m "i + numeral k"] index_of_nat(1) [of m "i - numeral k"]
    index_of_nat(1) [of m "i - 1"] by (simp_all add: add.commute of_nat_diff)

lemma index_of_numeral [simp]:
  "at_index m 0 = (if 0 < length m then Some (m ! 0) else None)" "set_index m 0 v = (if 0 < length m then Some (m[0 := v]) else None)"
  "at_index m (numeral k) = (if numeral k < length m then Some (m ! numeral k) else None)"
  "set_index m (numeral k) v = (if numeral k < length m then Some (m[numeral k := v]) else None)"
  using index_of_nat(1) [of m 0] index_of_nat(2) [of m 0] index_of_nat(1) [of m "numeral k"] index_of_nat(2) [of m "numeral k"] by simp_all

lemma generate_front:
  assumes "i + n \<le> 227"
  shows "generate_loop n (int i) MT_M (mt_block b s i) = Some (mt_block b s (i + n))"
  using assms
proof (induction n arbitrary: i)
  case (Suc n)
  then have "regenerate (mt_block b s i) (int i) (int i + 1) (int i + MT_M) = Some (mt_block b s (Suc i))"
    using mt_block_step [of i b s]
    by (simp add: regenerate_def MT_M_def add_ac)
  then show ?case using Suc.IH [of "Suc i"] Suc.prems by (simp add: add_ac)
qed simp

lemma generate_back:
  assumes "227 \<le> i" "i + n \<le> 623"
  shows "generate_loop n (int i) (MT_M - MT_N) (mt_block b s i) = Some (mt_block b s (i + n))"
  using assms
proof (induction n arbitrary: i)
  case (Suc n)
  have "int i + (MT_M - MT_N) = int (i - 227)" using Suc.prems by (simp add: MT_M_def MT_N_def)
  moreover have "s + 624 + (i - 227) = s + i + 397" using Suc.prems by simp
  ultimately have "regenerate (mt_block b s i) (int i) (int i + 1) (int i + (MT_M - MT_N)) = Some (mt_block b s (Suc i))"
    using Suc.prems mt_block_step [of i b s] by (simp add: regenerate_def add_ac)
  then show ?case using Suc.IH [of "Suc i"] Suc.prems by (simp add: add_ac)
qed simp

lemma generate_block: "generate (mt_block b s 0) = Some (mt_block b (s + 624) 0)"
proof -
  have "generate_loop (nat (MT_N - MT_M)) 0 MT_M (mt_block b s 0) = Some (mt_block b s 227)"
    using generate_front [of 0 227] by (simp add: MT_M_def MT_N_def)
  moreover have "generate_loop (nat (MT_M - 1)) (MT_N - MT_M) (MT_M - MT_N) (mt_block b s 227) = Some (mt_block b s 623)"
    using generate_back [of 227 396] by (simp add: MT_M_def MT_N_def)
  moreover have "regenerate (mt_block b s 623) (MT_N - 1) 0 (MT_M - 1) = Some (mt_block b s 624)"
    using mt_block_step [of 623 b s]
    by (simp add: regenerate_def MT_M_def MT_N_def add_ac)
  ultimately show ?thesis by (simp add: generate_def mt_block_full)
qed

text \<open>The generator stands before word \<open>n\<close> of the sequence.\<close>

definition stands :: "u32 list \<Rightarrow> nat \<Rightarrow> mt19937 \<Rightarrow> bool" where
  "stands b n mt \<longleftrightarrow> (\<exists>s i. n = s + i \<and> i \<le> 624 \<and> mt = \<lparr>mt_words = mt_block b s 0, mt_index = int i\<rparr>)"

lemma nextInt_stands:
  assumes "stands b n mt"
  obtains mt' where "nextInt mt = Some (temper (mt_seq b n), mt')" "stands b (Suc n) mt'"
proof -
  obtain s i where s: "n = s + i" "i \<le> 624" "mt = \<lparr>mt_words = mt_block b s 0, mt_index = int i\<rparr>"
    using assms by (auto simp: stands_def)
  show thesis
  proof (cases "i = 624")
    case True
    have "nextInt mt = Some (temper (mt_seq b n), \<lparr>mt_words = mt_block b (s + 624) 0, mt_index = 1\<rparr>)"
      using s True by (simp add: nextInt_def MT_N_def generate_block)
    moreover have "stands b (Suc n) \<lparr>mt_words = mt_block b (s + 624) 0, mt_index = 1\<rparr>"
      unfolding stands_def by (rule exI [of _ "s + 624"], rule exI [of _ 1]) (use s True in simp)
    ultimately show thesis by (rule that)
  next
    case False
    then have "nextInt mt = Some (temper (mt_seq b n), \<lparr>mt_words = mt_block b s 0, mt_index = int (Suc i)\<rparr>)"
      using s by (simp add: nextInt_def MT_N_def)
    moreover have "stands b (Suc n) \<lparr>mt_words = mt_block b s 0, mt_index = int (Suc i)\<rparr>"
      unfolding stands_def by (rule exI [of _ s], rule exI [of _ "Suc i"]) (use s False in simp)
    ultimately show thesis by (rule that)
  qed
qed



section \<open>Seeding\<close>

primrec init_seq :: "u32 \<Rightarrow> nat \<Rightarrow> u32" where
  "init_seq s 0 = s"
| "init_seq s (Suc n) = 1812433253 * (init_seq s n XOR drop_bit 30 (init_seq s n)) + word_of_nat (Suc n)"

text \<open>A seeded generator: all words are there and a new generation is due.\<close>

definition seeded :: "mt19937 \<Rightarrow> bool" where
  "seeded mt \<longleftrightarrow> length (mt_words mt) = 624 \<and> mt_index mt = 624"


lemma seed_loop_spec:
  assumes "length words = 624" "0 < i" "i \<le> 624" "\<forall>j < i. words ! j = init_seq s j"
  shows "seed_loop \<lparr>mt_words = words, mt_index = int i\<rparr> = Some \<lparr>mt_words = map (init_seq s) [0..<624], mt_index = 624\<rparr>"
  using assms
proof (induction "624 - i" arbitrary: words i)
  case 0
  then have "words = map (init_seq s) [0..<624]" by (intro nth_equalityI) auto
  with 0 show ?case by (simp add: seed_loop.simps MT_N_def)
next
  case (Suc d)
  have i: "i < 624" "int i - 1 = int (i - 1)" "i - 1 < i" using Suc by auto
  let ?words = "words[i := init_seq s i]"
  have step: "init_seq s i = 1812433253 * (words ! (i - 1) XOR drop_bit 30 (words ! (i - 1))) + word_of_int (int i)"
    using Suc.prems i by (cases i) auto
  have "seed_loop \<lparr>mt_words = words, mt_index = int i\<rparr> = seed_loop \<lparr>mt_words = ?words, mt_index = int (Suc i)\<rparr>"
    unfolding step using Suc.prems i by (subst seed_loop.simps) (simp add: MT_N_def add_ac)
  also have "\<dots> = Some \<lparr>mt_words = map (init_seq s) [0..<624], mt_index = 624\<rparr>"
    by (rule Suc.hyps(1)) (use Suc i in \<open>auto simp: nth_list_update less_Suc_eq\<close>)
  finally show ?case .
qed

lemma mt_seed_spec:
  assumes "length (mt_words mt) = 624"
  shows "mt_seed s mt = Some \<lparr>mt_words = map (init_seq s) [0..<624], mt_index = 624\<rparr>"
  using seed_loop_spec [of "(mt_words mt)[0 := s]" 1 s] assms by (simp add: mt_seed_def)

lemma wrap_index_spec:
  assumes "length words = 624" "0 < i" "i \<le> 624"
  obtains words' i' where "wrap_index words (int i) = Some (words', int i')" "length words' = 624" "0 < i'" "i' < 624"
proof (cases "i < 624")
  case True
  with assms that [of words i] show thesis by (simp add: wrap_index_def MT_N_def)
next
  case False
  with assms have "wrap_index words (int i) = Some (words[0 := words ! 623], int 1)"
    by (simp add: wrap_index_def MT_N_def)
  from that [OF this] assms show thesis by simp
qed

lemma mixed_spec:
  assumes "length words = 624" "0 < i" "i < 624"
  obtains x where "mixed words (int i) f = Some x"
  using assms that by (cases i) (simp_all add: mixed_def)

lemma key_loop_spec:
  assumes "key \<noteq> []" "length key < 2 ^ 31" "length words = 624" "0 < i" "i < 624" "j < length key"
  shows "\<exists>words' i'. key_loop key k words (int i) (int j) = Some (words', int i') \<and> length words' = 624 \<and> 0 < i' \<and> i' < 624"
  using assms(3-)
proof (induction k arbitrary: words i j)
  case (Suc k)
  obtain x where x: "mixed words (int i) 1664525 = Some x" by (rule mixed_spec [OF Suc.prems(1-3)])
  let ?words = "words[i := x + key ! j + word_of_int (int j)]"
  obtain words' i' where w: "wrap_index ?words (int (Suc i)) = Some (words', int i')" "length words' = 624" "0 < i'" "i' < 624"
    by (rule wrap_index_spec [of ?words "Suc i"]) (use Suc.prems in auto)
  let ?j = "if Suc j \<ge> length key then 0 else Suc j"
  have j: "to_int32 (length key) = int (length key)" "?j < length key" using assms(1,2) by (auto simp: to_int32_small)
  obtain words'' i'' where "key_loop key k words' (int i') (int ?j) = Some (words'', int i'')" "length words'' = 624" "0 < i''" "i'' < 624"
    using Suc.IH [OF w(2-4) j(2)] by blast
  moreover have "key_loop key (Suc k) words (int i) (int j) = key_loop key k words' (int i') (int ?j)"
    using x w(1) Suc.prems j(1) by (auto simp: Let_def add_ac)
  ultimately show ?case by metis
qed auto

lemma index_loop_spec:
  assumes "length words = 624" "0 < i" "i < 624"
  shows "\<exists>words' i'. index_loop k words (int i) = Some (words', int i') \<and> length words' = 624"
  using assms
proof (induction k arbitrary: words i)
  case (Suc k)
  obtain x where x: "mixed words (int i) 1566083941 = Some x" by (rule mixed_spec [OF Suc.prems])
  let ?words = "words[i := x - word_of_int (int i)]"
  obtain words' i' where w: "wrap_index ?words (int (Suc i)) = Some (words', int i')" "length words' = 624" "0 < i'" "i' < 624"
    by (rule wrap_index_spec [of ?words "Suc i"]) (use Suc.prems in auto)
  moreover have "index_loop (Suc k) words (int i) = index_loop k words' (int i')"
    using x w(1) Suc.prems by (simp add: add_ac)
  ultimately show ?case using Suc.IH [OF w(2-4)] by simp
qed auto

section \<open>Rejection sampling\<close>

lemma card_residue_block:
  assumes "v < (m::nat)"
  shows "card {r \<in> {a..<a + m}. r mod m = v} = 1"
proof -
  define q w where "q = a div m" and "w = a mod m"
  then have a: "a = q * m + w" "w < m" using assms by simp_all
  define r0 where "r0 = q * m + v + (if w \<le> v then 0 else m)"
  have "r0 mod m = v" using assms by (simp add: r0_def)
  moreover have "a \<le> r0" "r0 < a + m" using assms a by (simp_all add: r0_def)
  ultimately have r0: "r0 mod m = v" "a \<le> r0" "r0 < a + m" by blast+
  have "r = r0" if r: "a \<le> r" "r < a + m" "r mod m = v" for r
  proof (rule ccontr)
    assume ne: "r \<noteq> r0"
    consider "r < r0" | "r0 < r" using ne by linarith
    then show False
    proof cases
      case 1
      with mod_eq_dvd_iff_nat [of r r0 m] r(3) r0(1) have "m dvd r0 - r" by simp
      moreover have "0 < r0 - r" "r0 - r < m" using 1 r r0 by linarith+
      ultimately show False using nat_dvd_not_less by blast
    next
      case 2
      with mod_eq_dvd_iff_nat [of r0 r m] r(3) r0(1) have "m dvd r - r0" by simp
      moreover have "0 < r - r0" "r - r0 < m" using 2 r r0 by linarith+
      ultimately show False using nat_dvd_not_less by blast
    qed
  qed
  then have "{r \<in> {a..<a + m}. r mod m = v} \<subseteq> {r0}" by (intro subsetI) (simp only: mem_Collect_eq atLeastLessThan_iff singleton_iff)
  moreover have "{r0} \<subseteq> {r \<in> {a..<a + m}. r mod m = v}" using r0 by simp
  ultimately have "{r \<in> {a..<a + m}. r mod m = v} = {r0}" by (rule equalityI)
  then show ?thesis by simp
qed

lemma card_residue:
  assumes "v < (m::nat)"
  shows "card {r \<in> {a..<a + q * m}. r mod m = v} = q"
proof (induction q)
  case (Suc q)
  let ?r = "\<lambda>S. {r \<in> S. r mod m = v}"
  have "{a..<a + Suc q * m} = {a..<a + q * m} \<union> {a + q * m..<a + q * m + m}"
    using ivl_disj_un_two(3) [of a "a + q * m" "a + q * m + m"] by (simp add: algebra_simps)
  then have "?r {a..<a + Suc q * m} = ?r {a..<a + q * m} \<union> ?r {a + q * m..<a + q * m + m}" by blast
  then have "card (?r {a..<a + Suc q * m}) = card (?r {a..<a + q * m}) + card (?r {a + q * m..<a + q * m + m})"
    by (simp only:) (rule card_Un_disjoint, simp_all, fastforce)
  then show ?case using Suc card_residue_block [OF assms, of "a + q * m"] by simp
qed simp

lemma unat_drop_threshold:
  assumes "0 < limit"
  shows "unat (drop_threshold limit) = 2 ^ 32 mod unat limit"
proof -
  have "unat limit < 2 ^ 32" using unsigned_less [of limit] by simp
  moreover have "unat (- limit) = 2 ^ 32 - unat limit"
    using assms unat_sub_if' [of 0 limit] by (simp add: word_less_nat_alt)
  ultimately show ?thesis by (simp add: drop_threshold_def unat_mod le_mod_geq)
qed

lemma card_accepted:
  assumes "v < limit"
  shows "card {r. drop_threshold limit \<le> r \<and> r mod limit = v} = 2 ^ 32 div unat limit"
proof -
  let ?m = "unat limit" and ?t = "unat (drop_threshold limit)"
  have pos: "0 < limit" using assms by (metis word_gt_0_no word_greater_zero_iff word_not_simps(1))
  have "?t + 2 ^ 32 div ?m * ?m = 2 ^ 32" using unat_drop_threshold [OF pos] by simp
  then have split: "{?t..<?t + 2 ^ 32 div ?m * ?m} = {?t..<2 ^ 32}" by simp
  have "unat ` {r. drop_threshold limit \<le> r \<and> r mod limit = v} = {r \<in> {?t..<2 ^ 32}. r mod ?m = unat v}"
  proof (intro equalityI subsetI)
    fix x assume "x \<in> {r \<in> {?t..<2 ^ 32}. r mod ?m = unat v}"
    then have x: "?t \<le> x" "x < 2 ^ 32" "x mod ?m = unat v" by simp_all
    then have u: "unat (word_of_nat x :: u32) = x" by (simp add: unat_of_nat)
    then have "drop_threshold limit \<le> word_of_nat x" using x(1) by (simp only: word_le_nat_alt)
    moreover have "word_of_nat x mod limit = v" using x(3) u by (simp only: word_unat_eq_iff unat_mod)
    ultimately show "x \<in> unat ` {r. drop_threshold limit \<le> r \<and> r mod limit = v}"
      by (intro image_eqI [where f = unat, OF u [symmetric]] CollectI conjI)
  next
    fix x assume "x \<in> unat ` {r. drop_threshold limit \<le> r \<and> r mod limit = v}"
    then obtain r where r: "x = unat r" "drop_threshold limit \<le> r" "r mod limit = v" by blast
    have "unat r < 2 ^ 32" using unsigned_less [of r] by simp
    then show "x \<in> {r \<in> {?t..<2 ^ 32}. r mod ?m = unat v}"
      using r by (simp add: word_le_nat_alt unat_mod [symmetric])
  qed
  moreover have "card (unat ` {r. drop_threshold limit \<le> r \<and> r mod limit = v}) = card {r. drop_threshold limit \<le> r \<and> r mod limit = v}"
    by (rule card_image) (simp add: inj_on_def word_unat_eq_iff)
  moreover have "card {r \<in> {?t..<2 ^ 32}. r mod ?m = unat v} = 2 ^ 32 div ?m"
    using card_residue [of "unat v" ?m ?t "2 ^ 32 div ?m"] assms unfolding split by (simp only: word_less_nat_alt)
  ultimately show ?thesis by simp
qed

text \<open>The first output from \<open>n\<close> on that is accepted is the one behind \<open>k\<close> outputs that are not.\<close>

definition accepted :: "u32 \<Rightarrow> (nat \<Rightarrow> u32) \<Rightarrow> nat \<Rightarrow> bool" where
  "accepted limit x k \<longleftrightarrow> drop_threshold limit \<le> x k \<and> (\<forall>i < k. x i < drop_threshold limit)"

lemma sample_stands:
  assumes "stands b n mt" "accepted limit (\<lambda>i. temper (mt_seq b (n + i))) k"
  shows "\<exists>mt'. sample_loop limit mt = Some (temper (mt_seq b (n + k)) mod limit, mt') \<and> stands b (n + k + 1) mt'"
  using assms
proof (induction k arbitrary: n mt)
  case 0
  obtain mt' where "nextInt mt = Some (temper (mt_seq b n), mt')" "stands b (Suc n) mt'" by (rule nextInt_stands [OF 0(1)])
  with 0 show ?case by (subst sample_loop.simps) (simp add: accepted_def leD)
next
  case (Suc k)
  obtain mt1 where mt1: "nextInt mt = Some (temper (mt_seq b n), mt1)" "stands b (Suc n) mt1"
    by (rule nextInt_stands [OF Suc.prems(1)])
  have "temper (mt_seq b n) < drop_threshold limit" using Suc.prems(2) by (auto simp: accepted_def)
  moreover have "accepted limit (\<lambda>i. temper (mt_seq b (Suc n + i))) k" using Suc.prems(2) by (auto simp: accepted_def)
  ultimately show ?case using Suc.IH [OF mt1(2)] mt1(1) by (subst sample_loop.simps) simp
qed

section \<open>Properties\<close>



text \<open>
  Seeding with a number fills the array with the linear congruential sequence of the number; seeding with a key fills it
  within its bounds for every key that is not empty, makes the state non-zero and leaves a new generation due; an empty key
  is read outside of its bounds.
\<close>

lemma mt_seeding:
  assumes "length (mt_words mt) = 624"
  shows "mt_seed s mt = Some \<lparr>mt_words = map (init_seq s) [0..<624], mt_index = 624\<rparr> \<and>
    (key \<noteq> [] \<and> length key < 2 ^ 31 \<longrightarrow> (\<exists>mt'. mt_seed_key key mt = Some mt' \<and> seeded mt' \<and> mt_words mt' ! 0 = 0x80000000)) \<and>
    mt_seed_key [] mt = None"
proof (intro conjI impI)
  show seed: "mt_seed s mt = Some \<lparr>mt_words = map (init_seq s) [0..<624], mt_index = 624\<rparr>" for s by (rule mt_seed_spec [OF assms])
  let ?k = "if MT_N > to_int32 (length key) then MT_N else to_int32 (length key)"
  let ?words = "map (init_seq 19650218) [0..<624]"
  assume "key \<noteq> [] \<and> length key < 2 ^ 31"
  then obtain w i where w: "key_loop key (nat ?k) ?words 1 0 = Some (w, int i)" "length w = 624" "0 < i" "i < 624"
    using key_loop_spec [of key ?words 1 0 "nat ?k"] by auto
  obtain w' i' where "index_loop (nat (MT_N - 1)) w (int i) = Some (w', int i')" "length w' = 624"
    using index_loop_spec [OF w(2-4)] by blast
  moreover from this(2) have "w' \<noteq> []" by auto
  ultimately show "\<exists>mt'. mt_seed_key key mt = Some mt' \<and> seeded mt' \<and> mt_words mt' ! 0 = 0x80000000"
    using w seed by (simp add: mt_seed_key_def seeded_def Let_def)
next
  let ?words = "map (init_seq 19650218) [0..<624]"
  obtain x where x: "mixed ?words 1 1664525 = Some x" using mixed_spec [of ?words 1] by auto
  have "to_int32 0 = 0" by (simp add: to_int32_small)
  moreover have "key_loop [] (Suc k) ?words 1 0 = None" for k using x by simp
  from this [of 623] have "key_loop [] 624 ?words 1 0 = None" by simp
  ultimately show "mt_seed_key [] mt = None" by (simp add: mt_seed_key_def mt_seed_spec [OF assms] Let_def MT_N_def)
qed

text \<open>
  C36 (functional): a number below \<open>limit\<close> is the first output that is not rejected, modulo \<open>limit\<close>, and the outputs in between are used up; of
  the accepted outputs exactly \<open>2 ^ 32 div limit\<close> give each value, so no value is favoured.
\<close>

theorem mt_below_uniform:
  assumes "stands b n mt" "1 < limit"
  shows "(accepted limit (\<lambda>i. temper (mt_seq b (n + i))) k \<longrightarrow>
      (\<exists>mt'. nextInt_below limit mt = Some (temper (mt_seq b (n + k)) mod limit, mt') \<and> stands b (n + k + 1) mt')) \<and>
    (\<forall>v < limit. card {r. drop_threshold limit \<le> r \<and> r mod limit = v} = 2 ^ 32 div unat limit)"
  using sample_stands [OF assms(1), of limit k] card_accepted assms(2) by (simp add: nextInt_below_def linorder_not_le [symmetric])

theorem mt_below_uniform_witness:
  "(\<exists>mt'. nextInt_below 6 \<lparr>mt_words = replicate 624 1, mt_index = 3\<rparr> = Some (temper 1 mod 6, mt')) \<and>
    card {r. drop_threshold 6 \<le> r \<and> r mod 6 = 5} = 715827882"
proof -
  let ?b = "replicate 624 1 :: u32 list"
  have "stands ?b 3 \<lparr>mt_words = ?b, mt_index = 3\<rparr>"
    unfolding stands_def by (rule exI [of _ 0], rule exI [of _ 3]) (simp add: mt_block_start)
  moreover have "accepted 6 (\<lambda>i. temper (mt_seq ?b (3 + i))) 0"
    by (simp add: accepted_def drop_threshold_def mt_seq.simps temper_def)
  ultimately show ?thesis using mt_below_uniform [of ?b 3 "\<lparr>mt_words = ?b, mt_index = 3\<rparr>" 6 0] by (auto simp: mt_seq.simps)
qed

text \<open>
  A number between two bounds lies between them, both included, whatever they are, the whole range of 32 bits
  among them; a double has 53 random bits and lies in \<open>[0, 1)\<close>.
\<close>

lemma mt_ranges:
  assumes "stands b n mt" "lower \<le> upper"
  shows "(accepted (upper - lower + 1) (\<lambda>i. temper (mt_seq b (n + i))) k \<longrightarrow>
      (\<exists>r mt'. nextInt_between lower upper mt = Some (r, mt') \<and> lower \<le> r \<and> r \<le> upper)) \<and>
    (\<exists>m mt'. nextDouble mt = Some (real m / 2 ^ 53, mt') \<and> m < 2 ^ 53)"
proof (intro conjI impI)
  have unat_upper: "unat (upper - lower) = unat upper - unat lower"
    using assms(2) by (simp add: unat_sub_if' word_le_nat_alt)
  have less: "unat upper < 2 ^ 32" using unsigned_less [of upper] by simp
  assume acc: "accepted (upper - lower + 1) (\<lambda>i. temper (mt_seq b (n + i))) k"
  show "\<exists>r mt'. nextInt_between lower upper mt = Some (r, mt') \<and> lower \<le> r \<and> r \<le> upper"
  proof (cases "lower = upper \<or> upper - lower = -1")
    case True
    then show ?thesis
    proof
      assume "upper - lower = -1"
      then have "upper = -1 + lower" by (metis add.commute diff_add_cancel)
      then have "unat upper - unat lower = 2 ^ 32 - 1" using unat_upper by (simp add: unsigned_minus_1_eq_mask mask_eq_exp_minus_1)
      then have "lower = 0" "upper = -1"
        using less by (simp_all add: word_unat_eq_iff unsigned_minus_1_eq_mask mask_eq_exp_minus_1)
      moreover obtain r mt' where "nextInt mt = Some (r, mt')" using nextInt_stands [OF assms(1)] by metis
      ultimately show ?thesis by (simp add: nextInt_between_def)
    qed (simp add: nextInt_between_def)
  next
    case False
    define m where "m = upper - lower + 1"
    have "unat (upper - lower) \<noteq> 2 ^ 32 - 1" "0 < unat upper - unat lower"
      using False assms(2) by (auto simp: word_unat_eq_iff word_le_nat_alt unsigned_minus_1_eq_mask mask_eq_exp_minus_1)
    then have m: "unat m = unat upper - unat lower + 1" using less unat_upper by (simp add: m_def unat_plus_if')
    then have "1 < m" using \<open>0 < unat upper - unat lower\<close> by (simp add: word_less_nat_alt)
    obtain mt' where mt': "nextInt_below m mt = Some (temper (mt_seq b (n + k)) mod m, mt')"
      using sample_stands [OF assms(1) acc] \<open>1 < m\<close> by (auto simp: nextInt_below_def m_def linorder_not_le [symmetric])
    let ?r = "temper (mt_seq b (n + k)) mod m"
    have "unat ?r < unat m" using \<open>1 < m\<close> by (simp add: unat_mod word_less_nat_alt)
    then have "unat (lower + ?r) = unat lower + unat ?r" "unat lower + unat ?r \<le> unat upper"
      using m less assms(2) by (simp_all add: unat_plus_if' word_le_nat_alt)
    then have "lower \<le> lower + ?r" "lower + ?r \<le> upper" by (simp_all add: word_le_nat_alt)
    moreover have "nextInt_between lower upper mt = Some (lower + ?r, mt')"
      using False assms(2) mt' by (auto simp: nextInt_between_def m_def)
    ultimately show ?thesis by blast
  qed
next
  obtain mt1 where mt1: "nextInt mt = Some (temper (mt_seq b n), mt1)" "stands b (Suc n) mt1" by (rule nextInt_stands [OF assms(1)])
  obtain mt2 where mt2: "nextInt mt1 = Some (temper (mt_seq b (Suc n)), mt2)" by (rule nextInt_stands [OF mt1(2)])
  define x y where "x = unat (drop_bit 5 (temper (mt_seq b n)))" and "y = unat (drop_bit 6 (temper (mt_seq b (Suc n))))"
  have "unat w < 2 ^ 32" for w :: u32 using unsigned_less [of w] by simp
  then have "x < 2 ^ 27" "y < 2 ^ 26" by (simp_all add: x_def y_def drop_bit_eq_div unat_div less_mult_imp_div_less)
  then have "x * 67108864 + y < 2 ^ 53" by simp
  moreover have "nextDouble mt = Some (real (x * 67108864 + y) / 2 ^ 53, mt2)"
    using mt1(1) mt2 by (simp add: nextDouble_def x_def y_def)
  ultimately show "\<exists>m mt'. nextDouble mt = Some (real m / 2 ^ 53, mt') \<and> m < 2 ^ 53" by blast
qed

end
