(* ===== verification/ConcurrentQueue.thy ===== *)
theory ConcurrentQueue
  imports Prelude
begin

text \<open>
  Model of \<open>src/brickred/concurrent_queue.h\<close>: the queue and its operations as they run with the mutex
  held, and any number of threads that call them, as a step relation: taking and releasing the mutex, waiting on a condition
  and waking from it, also without a reason, and notifying one waiting thread are steps of their own. The
  contract of the queue for its clients is the locale \<open>fifo\<close>.
\<close>

section \<open>Runs\<close>

text \<open>The runs of a labelled step relation.\<close>

inductive run :: "('s \<Rightarrow> 'l \<Rightarrow> 's \<Rightarrow> bool) \<Rightarrow> 's \<Rightarrow> 'l list \<Rightarrow> 's \<Rightarrow> bool" for step where
  run_nil: "run step s [] s"
| run_snoc: "run step s ls s1 \<Longrightarrow> step s1 l s2 \<Longrightarrow> run step s (ls @ [l]) s2"

inductive_cases run_nilE: "run step s [] s'"

lemma run_snoc_iff: "run step s (ls @ [l]) s2 \<longleftrightarrow> (\<exists>s1. run step s ls s1 \<and> step s1 l s2)"
  by (auto elim: run.cases intro: run_snoc)

lemma run_nil_iff [simp]: "run step s [] s' \<longleftrightarrow> s' = s"
  by (auto elim: run.cases intro: run_nil)

lemma run_append: "run step s1 ls' s2 \<Longrightarrow> run step s ls s1 \<Longrightarrow> run step s (ls @ ls') s2"
  by (induction rule: run.induct) (auto simp flip: append_assoc intro: run_snoc)

lemma run_cons: "step s l s1 \<Longrightarrow> run step s1 ls s2 \<Longrightarrow> run step s (l # ls) s2"
  using run_append [of step s1 ls s2 s "[l]"] run_snoc [OF run_nil, of step s l s1] by simp

lemma run_invariant:
  assumes "run step s ls s'" "P s" "\<And>s1 l s2. step s1 l s2 \<Longrightarrow> P s1 \<Longrightarrow> P s2"
  shows "P s'"
  using assms by induction auto

section \<open>The contract of a queue\<close>

text \<open>\<open>put\<close> and \<open>take\<close> are \<open>None\<close> where the caller has to wait.\<close>

locale fifo =
  fixes content :: "'q \<Rightarrow> 'a list" and put :: "'a \<Rightarrow> 'q \<Rightarrow> 'q option" and take :: "'q \<Rightarrow> ('a \<times> 'q) option"
  assumes put_content: "put x q = Some q' \<Longrightarrow> content q' = content q @ [x]"
    and take_content: "take q = Some (x, q') \<Longrightarrow> content q = x # content q'"
    and take_none: "take q = None \<longleftrightarrow> content q = []"
begin

text \<open>What was put in is what was taken out, followed by what is inside, whatever the order of the calls.\<close>

lemma put_history: "ins = outs @ content q \<Longrightarrow> put x q = Some q' \<Longrightarrow> ins @ [x] = outs @ content q'"
  by (simp add: put_content)

lemma take_history: "ins = outs @ content q \<Longrightarrow> take q = Some (x, q') \<Longrightarrow> ins = (outs @ [x]) @ content q'"
  using take_content [of q x q'] by simp

lemma take_some: "content q \<noteq> [] \<Longrightarrow> \<exists>x q'. take q = Some (x, q')"
  using take_none [of q] by (cases "take q") auto

lemma take_mem: "take q = Some (x, q') \<Longrightarrow> x \<in> set (content q)"
  by (simp add: take_content)

end

section \<open>The queue\<close>

record 'a cq =
  cq_queue :: "'a list"
  cq_max_size :: nat
  cq_is_bounded :: bool

definition cq_new :: "nat \<Rightarrow> 'a cq" where
  "cq_new max_size = \<lparr>cq_queue = [], cq_max_size = max_size, cq_is_bounded = (max_size \<noteq> 0)\<rparr>"

definition fullNoLock :: "'a cq \<Rightarrow> bool" where
  "fullNoLock q = (if \<not> cq_is_bounded q then False else length (cq_queue q) \<ge> cq_max_size q)"

text \<open>\<open>push\<close> and \<open>pop\<close> up to the notification; \<open>None\<close>: the condition of the loop holds.\<close>

definition cq_push :: "'a \<Rightarrow> 'a cq \<Rightarrow> 'a cq option" where
  "cq_push item q = (if fullNoLock q then None else Some (q\<lparr>cq_queue := cq_queue q @ [item]\<rparr>))"

definition cq_pop :: "'a cq \<Rightarrow> ('a \<times> 'a cq) option" where
  "cq_pop q = (case cq_queue q of [] \<Rightarrow> None | front # rest \<Rightarrow> Some (front, q\<lparr>cq_queue := rest\<rparr>))"

definition cq_pushIfNotFull :: "'a \<Rightarrow> 'a cq \<Rightarrow> bool \<times> 'a cq" where
  "cq_pushIfNotFull item q = (if fullNoLock q then (False, q) else (True, q\<lparr>cq_queue := cq_queue q @ [item]\<rparr>))"

definition cq_popIfNotEmpty :: "'a cq \<Rightarrow> 'a option \<times> 'a cq" where
  "cq_popIfNotEmpty q = (case cq_queue q of [] \<Rightarrow> (None, q) | front # rest \<Rightarrow> (Some front, q\<lparr>cq_queue := rest\<rparr>))"

definition cq_peek :: "'a cq \<Rightarrow> 'a option" where
  "cq_peek q = (case cq_queue q of [] \<Rightarrow> None | front # rest \<Rightarrow> Some front)"

definition cq_size :: "'a cq \<Rightarrow> nat" where
  "cq_size q = length (cq_queue q)"

definition cq_empty :: "'a cq \<Rightarrow> bool" where
  "cq_empty q \<longleftrightarrow> cq_queue q = []"

interpretation cq: fifo cq_queue cq_push cq_pop
  by unfold_locales (auto simp: cq_push_def cq_pop_def split: if_splits list.splits)

section \<open>Threads\<close>

datatype 'a op = Push 'a | PushIfNotFull 'a | Pop | PopIfNotEmpty | Peek | QueueSize | QueueEmpty | QueueFull

datatype 'a ret = Nothing | Answer bool | Item 'a | Maybe "'a option" | Count nat

text \<open>One passage through the code of an operation with the mutex held; \<open>None\<close>: it goes to wait.\<close>

definition perform :: "'a op \<Rightarrow> 'a cq \<Rightarrow> ('a ret \<times> 'a cq) option" where
  "perform op q = (case op of
     Push item \<Rightarrow> map_option (Pair Nothing) (cq_push item q)
   | PushIfNotFull item \<Rightarrow> Some (map_prod Answer id (cq_pushIfNotFull item q))
   | Pop \<Rightarrow> map_option (map_prod Item id) (cq_pop q)
   | PopIfNotEmpty \<Rightarrow> Some (map_prod Maybe id (cq_popIfNotEmpty q))
   | Peek \<Rightarrow> Some (Maybe (cq_peek q), q)
   | QueueSize \<Rightarrow> Some (Count (cq_size q), q)
   | QueueEmpty \<Rightarrow> Some (Answer (cq_empty q), q)
   | QueueFull \<Rightarrow> Some (Answer (fullNoLock q), q))"

text \<open>\<open>not_full_cond_\<close> and \<open>not_empty_cond_\<close>: which one an operation waits on, and which one it notifies.\<close>

datatype condition = NotFull | NotEmpty

definition awaits :: "'a op \<Rightarrow> condition option" where
  "awaits op = (case op of Push item \<Rightarrow> Some NotFull | Pop \<Rightarrow> Some NotEmpty | _ \<Rightarrow> None)"

definition notifies :: "'a op \<Rightarrow> 'a ret \<Rightarrow> condition option" where
  "notifies op r = (case op of
     Push item \<Rightarrow> Some NotEmpty
   | PushIfNotFull item \<Rightarrow> if r = Answer True then Some NotEmpty else None
   | Pop \<Rightarrow> Some NotFull
   | PopIfNotEmpty \<Rightarrow> if r = Maybe None then None else Some NotFull
   | _ \<Rightarrow> None)"

text \<open>
  Where a thread is: outside, about to take the mutex (also after it was woken), with the mutex before its condition, in
  \<open>wait\<close>, before \<open>notifyOne\<close>, before the mutex is released.
\<close>

datatype 'a pc =
    Outside
  | Locking "'a op"
  | Holding "'a op"
  | Waiting "'a op"
  | Notifying condition "'a ret"
  | Leaving "'a ret"

record 'a threads =
  th_queue :: "'a cq"
  th_owner :: "nat option"
  th_pcs :: "'a pc list"

definition threads_new :: "nat \<Rightarrow> nat \<Rightarrow> 'a threads" where
  "threads_new max_size n = \<lparr>th_queue = cq_new max_size, th_owner = None, th_pcs = replicate n Outside\<rparr>"

datatype 'a label = Calls nat "'a op" | Effect nat "'a op" "'a ret" | Returns nat "'a ret" | Internal nat | Spurious nat

abbreviation at :: "'a threads \<Rightarrow> nat \<Rightarrow> 'a pc \<Rightarrow> bool" where
  "at s t p \<equiv> t < length (th_pcs s) \<and> th_pcs s ! t = p"

abbreviation goes :: "nat \<Rightarrow> 'a pc \<Rightarrow> 'a threads \<Rightarrow> 'a threads" where
  "goes t p s \<equiv> s\<lparr>th_pcs := (th_pcs s)[t := p]\<rparr>"

inductive queue_step :: "'a threads \<Rightarrow> 'a label \<Rightarrow> 'a threads \<Rightarrow> bool" where
  step_call: "at s t Outside \<Longrightarrow> queue_step s (Calls t op) (goes t (Locking op) s)"
| step_lock: "at s t (Locking op) \<Longrightarrow> th_owner s = None \<Longrightarrow>
    queue_step s (Internal t) (goes t (Holding op) (s\<lparr>th_owner := Some t\<rparr>))"
| step_wait: "at s t (Holding op) \<Longrightarrow> perform op (th_queue s) = None \<Longrightarrow>
    queue_step s (Internal t) (goes t (Waiting op) (s\<lparr>th_owner := None\<rparr>))"
| step_effect: "at s t (Holding op) \<Longrightarrow> perform op (th_queue s) = Some (r, q) \<Longrightarrow>
    queue_step s (Effect t op r)
      (goes t (case notifies op r of None \<Rightarrow> Leaving r | Some c \<Rightarrow> Notifying c r) (s\<lparr>th_queue := q\<rparr>))"
| step_notify: "at s t (Notifying c r) \<Longrightarrow> at s u (Waiting op) \<Longrightarrow> awaits op = Some c \<Longrightarrow>
    queue_step s (Internal t) (goes u (Locking op) (goes t (Leaving r) s))"
| step_notify_none: "at s t (Notifying c r) \<Longrightarrow> \<forall>u op. at s u (Waiting op) \<longrightarrow> awaits op \<noteq> Some c \<Longrightarrow>
    queue_step s (Internal t) (goes t (Leaving r) s)"
| step_return: "at s t (Leaving r) \<Longrightarrow> queue_step s (Returns t r) (goes t Outside (s\<lparr>th_owner := None\<rparr>))"
| step_spurious: "at s u (Waiting op) \<Longrightarrow> queue_step s (Spurious u) (goes u (Locking op) s)"

section \<open>Mutual exclusion\<close>

definition inside :: "'a pc \<Rightarrow> bool" where
  "inside p = (case p of Holding op \<Rightarrow> True | Notifying c r \<Rightarrow> True | Leaving r \<Rightarrow> True | _ \<Rightarrow> False)"

lemma inside_simps [simp]:
  "\<not> inside Outside" "\<not> inside (Locking op)" "\<not> inside (Waiting op)" "inside (Holding op)" "inside (Notifying c r)"
  "inside (Leaving r)" "inside (case x of None \<Rightarrow> Leaving r | Some c \<Rightarrow> Notifying c r)"
  by (simp_all add: inside_def split: option.splits)

definition exclusive :: "'a threads \<Rightarrow> bool" where
  "exclusive s \<longleftrightarrow> (\<forall>t < length (th_pcs s). inside (th_pcs s ! t) \<longleftrightarrow> th_owner s = Some t) \<and>
     (\<forall>t. th_owner s = Some t \<longrightarrow> t < length (th_pcs s))"

lemma exclusive_step: "queue_step s l s' \<Longrightarrow> exclusive s \<Longrightarrow> exclusive s'"
  by (induction rule: queue_step.induct) (auto simp: exclusive_def nth_list_update)

lemma step_threads: "queue_step s l s' \<Longrightarrow> length (th_pcs s') = length (th_pcs s)"
  by (induction rule: queue_step.induct) simp_all

section \<open>Linearisation\<close>

text \<open>What each thread does in a run: it calls, its operation takes effect once, and it returns the result of that effect.\<close>

datatype 'a phase = Free | Called "'a op" | Returning "'a ret"

fun watch :: "nat \<Rightarrow> 'a label \<Rightarrow> 'a phase \<Rightarrow> 'a phase option" where
  "watch t (Calls u op) p = (if u \<noteq> t then Some p else if p = Free then Some (Called op) else None)"
| "watch t (Effect u op r) p = (if u \<noteq> t then Some p else if p = Called op then Some (Returning r) else None)"
| "watch t (Returns u r) p = (if u \<noteq> t then Some p else if p = Returning r then Some Free else None)"
| "watch t (Internal u) p = Some p"
| "watch t (Spurious u) p = Some p"

definition monitor :: "nat \<Rightarrow> 'a label list \<Rightarrow> 'a phase option" where
  "monitor t ls = fold (\<lambda>l p. Option.bind p (watch t l)) ls (Some Free)"

definition phase_of :: "'a pc \<Rightarrow> 'a phase" where
  "phase_of p = (case p of Outside \<Rightarrow> Free | Locking op \<Rightarrow> Called op | Holding op \<Rightarrow> Called op | Waiting op \<Rightarrow> Called op
     | Notifying c r \<Rightarrow> Returning r | Leaving r \<Rightarrow> Returning r)"

lemma phase_of_simps [simp]:
  "phase_of Outside = Free" "phase_of (Locking op) = Called op" "phase_of (Holding op) = Called op"
  "phase_of (Waiting op) = Called op" "phase_of (Notifying c r) = Returning r" "phase_of (Leaving r) = Returning r"
  "phase_of (case x of None \<Rightarrow> Leaving r | Some c \<Rightarrow> Notifying c r) = Returning r"
  by (simp_all add: phase_of_def split: option.splits)

lemma watch_step:
  "queue_step s l s' \<Longrightarrow> t < length (th_pcs s) \<Longrightarrow> watch t l (phase_of (th_pcs s ! t)) = Some (phase_of (th_pcs s' ! t))"
  by (induction rule: queue_step.induct) (auto simp: nth_list_update)

lemma monitor_run:
  "run queue_step s ls s' \<Longrightarrow> th_pcs s = replicate n Outside \<Longrightarrow>
     length (th_pcs s') = n \<and> (\<forall>t < n. monitor t ls = Some (phase_of (th_pcs s' ! t)))"
  by (induction rule: run.induct) (auto simp: monitor_def watch_step step_threads)

text \<open>The effects in their order, run on a queue one after the other.\<close>

fun replay :: "'a label list \<Rightarrow> 'a cq \<Rightarrow> 'a cq option" where
  "replay [] q = Some q"
| "replay (Effect t op r # ls) q = (case perform op q of
     None \<Rightarrow> None
   | Some (r', q') \<Rightarrow> if r' = r then replay ls q' else None)"
| "replay (_ # ls) q = replay ls q"

lemma replay_append: "replay (ls @ ls') q = Option.bind (replay ls q) (replay ls')"
  by (induction ls q rule: replay.induct) (auto split: option.splits prod.splits)

lemma replay_run: "run queue_step s ls s' \<Longrightarrow> replay ls (th_queue s) = Some (th_queue s')"
  by (induction rule: run.induct) (auto simp: replay_append elim!: queue_step.cases)

text \<open>The items that went in and that came out.\<close>

fun ins :: "'a label list \<Rightarrow> 'a list" where
  "ins [] = []"
| "ins (Effect t (Push x) r # ls) = x # ins ls"
| "ins (Effect t (PushIfNotFull x) (Answer True) # ls) = x # ins ls"
| "ins (_ # ls) = ins ls"

fun outs :: "'a label list \<Rightarrow> 'a list" where
  "outs [] = []"
| "outs (Effect t Pop (Item x) # ls) = x # outs ls"
| "outs (Effect t PopIfNotEmpty (Maybe (Some x)) # ls) = x # outs ls"
| "outs (_ # ls) = outs ls"

lemma ins_append: "ins (ls @ ls') = ins ls @ ins ls'"
  by (induction ls rule: ins.induct) simp_all

lemma outs_append: "outs (ls @ ls') = outs ls @ outs ls'"
  by (induction ls rule: outs.induct) simp_all

lemma perform_history:
  assumes "perform op q = Some (r, q')" "xs = ys @ cq_queue q"
  shows "xs @ ins [Effect t op r] = (ys @ outs [Effect t op r]) @ cq_queue q'"
  using assms by (cases op)
    (auto simp: perform_def cq_push_def cq_pop_def cq_pushIfNotFull_def cq_popIfNotEmpty_def split: if_splits list.splits)

lemma step_history:
  "queue_step s l s' \<Longrightarrow> xs = ys @ cq_queue (th_queue s) \<Longrightarrow> xs @ ins [l] = (ys @ outs [l]) @ cq_queue (th_queue s')"
  by (induction rule: queue_step.induct) (auto dest: perform_history)

lemma run_history:
  "run queue_step s ls s' \<Longrightarrow> cq_queue (th_queue s) = [] \<Longrightarrow> ins ls = outs ls @ cq_queue (th_queue s')"
  by (induction rule: run.induct) (auto simp: ins_append outs_append dest: step_history)

lemma perform_shape:
  assumes "perform op q = Some (r, q')"
  shows "cq_max_size q' = cq_max_size q" "cq_is_bounded q' = cq_is_bounded q"
    "cq_is_bounded q \<Longrightarrow> length (cq_queue q) \<le> cq_max_size q \<Longrightarrow> length (cq_queue q') \<le> cq_max_size q"
  using assms by (cases op;
    auto simp: perform_def cq_push_def cq_pop_def cq_pushIfNotFull_def cq_popIfNotEmpty_def fullNoLock_def split: if_splits list.splits)+

definition within :: "nat \<Rightarrow> 'a cq \<Rightarrow> bool" where
  "within max_size q \<longleftrightarrow> cq_max_size q = max_size \<and> (cq_is_bounded q \<longleftrightarrow> max_size \<noteq> 0) \<and>
     (max_size \<noteq> 0 \<longrightarrow> length (cq_queue q) \<le> max_size)"

lemma within_step: "queue_step s l s' \<Longrightarrow> within m (th_queue s) \<Longrightarrow> within m (th_queue s')"
  by (induction rule: queue_step.induct) (auto simp: within_def dest: perform_shape)

lemma within_new [simp]: "within m (th_queue (threads_new m n))"
  by (simp add: within_def threads_new_def cq_new_def)

section \<open>No lost wake-up\<close>

text \<open>What can be had of a condition: items for \<open>NotEmpty\<close>, free places for \<open>NotFull\<close>.\<close>

definition avail :: "condition \<Rightarrow> 'a cq \<Rightarrow> nat" where
  "avail c q = (case c of NotEmpty \<Rightarrow> length (cq_queue q) | NotFull \<Rightarrow> cq_max_size q - length (cq_queue q))"

lemma perform_avail:
  assumes "perform op q = Some (r, q')" "within m q"
  shows "avail c q' \<le> avail c q + (if notifies op r = Some c then 1 else 0)"
    "awaits op = Some c \<Longrightarrow> avail c q' \<le> avail c q - 1"
  using assms by (cases op; cases c;
    auto simp: perform_def avail_def notifies_def awaits_def cq_push_def cq_pop_def cq_pushIfNotFull_def cq_popIfNotEmpty_def
      fullNoLock_def within_def split: if_splits list.splits)+

lemma perform_none:
  assumes "within m q"
  shows "perform op q = None \<longleftrightarrow> (\<exists>c. awaits op = Some c \<and> avail c q = 0 \<and> (c = NotFull \<longrightarrow> m \<noteq> 0))"
  using assms by (cases op)
    (auto simp: perform_def avail_def awaits_def cq_push_def cq_pop_def fullNoLock_def within_def split: if_splits list.splits)

text \<open>The threads that are on their way to an operation that may wait on \<open>c\<close>, and those that are about to notify it.\<close>

fun contends :: "condition \<Rightarrow> 'a pc \<Rightarrow> bool" where
  "contends c (Locking op) \<longleftrightarrow> awaits op = Some c"
| "contends c (Holding op) \<longleftrightarrow> awaits op = Some c"
| "contends c (Notifying c' r) \<longleftrightarrow> c' = c"
| "contends c p \<longleftrightarrow> False"

definition how_many :: "('a pc \<Rightarrow> bool) \<Rightarrow> 'a threads \<Rightarrow> nat" where
  "how_many P s = length (filter P (th_pcs s))"

lemma how_many_update:
  assumes "t < length ts"
  shows "length (filter P (ts[t := y])) + (if P (ts ! t) then 1 else 0) = length (filter P ts) + (if P y then 1 else 0)"
  using assms
proof (induction ts arbitrary: t)
  case (Cons x ts)
  then show ?case by (cases t) auto
qed simp

lemma how_many_goes:
  "t < length (th_pcs s) \<Longrightarrow> how_many P (goes t y s) + (if P (th_pcs s ! t) then 1 else 0) = how_many P s + (if P y then 1 else 0)"
  by (simp add: how_many_def how_many_update)

lemma how_many_fields [simp]:
  "how_many P (s\<lparr>th_owner := x\<rparr>) = how_many P s" "how_many P (s\<lparr>th_queue := q\<rparr>) = how_many P s"
  "how_many P (s\<lparr>th_pcs := ts, th_owner := x\<rparr>) = how_many P (s\<lparr>th_pcs := ts\<rparr>)"
  "how_many P (s\<lparr>th_owner := x, th_pcs := ts\<rparr>) = how_many P (s\<lparr>th_pcs := ts\<rparr>)"
  "how_many P (s\<lparr>th_queue := q, th_pcs := ts\<rparr>) = how_many P (s\<lparr>th_pcs := ts\<rparr>)"
  by (simp_all add: how_many_def)

definition waits :: "condition \<Rightarrow> 'a threads \<Rightarrow> bool" where
  "waits c s \<longleftrightarrow> (\<exists>t op. at s t (Waiting op) \<and> awaits op = Some c)"

lemma waits_goes:
  "waits c (goes t p s) \<Longrightarrow> t < length (th_pcs s) \<Longrightarrow> waits c s \<or> (\<exists>op. p = Waiting op \<and> awaits op = Some c)"
  by (auto simp: waits_def nth_list_update split: if_splits)

lemma waits_fields [simp]:
  "waits c (s\<lparr>th_owner := x\<rparr>) = waits c s" "waits c (s\<lparr>th_queue := q\<rparr>) = waits c s"
  "waits c (s\<lparr>th_pcs := ts, th_owner := x\<rparr>) = waits c (s\<lparr>th_pcs := ts\<rparr>)"
  "waits c (s\<lparr>th_owner := x, th_pcs := ts\<rparr>) = waits c (s\<lparr>th_pcs := ts\<rparr>)"
  "waits c (s\<lparr>th_queue := q, th_pcs := ts\<rparr>) = waits c (s\<lparr>th_pcs := ts\<rparr>)"
  by (simp_all add: waits_def)

definition short :: "condition \<Rightarrow> 'a threads \<Rightarrow> bool" where
  "short c s \<longleftrightarrow> avail c (th_queue s) \<le> how_many (contends c) s"

lemma short_step:
  assumes "queue_step s l s'" "within m (th_queue s)" "waits c s'" "waits c s \<Longrightarrow> short c s"
  shows "short c s'"
  using assms
proof (induction rule: queue_step.induct)
  case (step_call s t op)
  then have "waits c s" using waits_goes [of c s t "Locking op"] by auto
  with step_call show ?case using how_many_goes [of t s "contends c" "Locking op"] by (auto simp: short_def split: if_splits)
next
  case (step_lock s t op)
  then have "waits c s" using waits_goes [of c s t "Holding op"] by auto
  with step_lock show ?case using how_many_goes [of t s "contends c" "Holding op"] by (auto simp: short_def split: if_splits)
next
  case (step_wait s t op)
  show ?case
  proof (cases "awaits op = Some c")
    case True
    then show ?thesis using perform_none [OF step_wait(3), of op] step_wait(2) by (auto simp: short_def)
  next
    case False
    then have "waits c s" using step_wait waits_goes [of c s t "Waiting op"] by auto
    with step_wait False show ?thesis using how_many_goes [of t s "contends c" "Waiting op"] by (auto simp: short_def split: if_splits)
  qed
next
  case (step_effect s t op r q)
  let ?p = "case notifies op r of None \<Rightarrow> Leaving r | Some c \<Rightarrow> Notifying c r"
  have "waits c s" using step_effect waits_goes [of c s t ?p] by (auto split: option.splits)
  then have "avail c (th_queue s) \<le> how_many (contends c) s" using step_effect by (simp add: short_def)
  moreover have "contends c ?p \<longleftrightarrow> notifies op r = Some c" by (auto split: option.splits)
  ultimately show ?case
    using how_many_goes [of t s "contends c" ?p] perform_avail [OF step_effect(2,3), of c] step_effect(1)
    by (auto simp: short_def split: if_splits)
next
  case (step_notify s t c' r u op)
  let ?s = "goes t (Leaving r) s"
  have "u \<noteq> t" using step_notify by auto
  then have ne: "u \<noteq> t" "at ?s u (Waiting op)" using step_notify by simp_all
  have "waits c ?s" using step_notify ne waits_goes [of c ?s u "Locking op"] by auto
  then have "waits c s" using step_notify waits_goes [of c s t "Leaving r"] by auto
  with step_notify ne show ?case
    using how_many_goes [of t s "contends c" "Leaving r"] how_many_goes [of u ?s "contends c" "Locking op"]
    by (auto simp: short_def split: if_splits)
next
  case (step_notify_none s t c' r)
  then have w: "waits c s" using waits_goes [of c s t "Leaving r"] by auto
  then have "c' \<noteq> c" using step_notify_none by (auto simp: waits_def)
  with step_notify_none w show ?case
    using how_many_goes [of t s "contends c" "Leaving r"] by (auto simp: short_def split: if_splits)
next
  case (step_return s t r)
  then have "waits c s" using waits_goes [of c s t Outside] by auto
  with step_return show ?case using how_many_goes [of t s "contends c" Outside] by (auto simp: short_def split: if_splits)
next
  case (step_spurious s u op)
  then have "waits c s" using waits_goes [of c s u "Locking op"] by auto
  with step_spurious show ?case using how_many_goes [of u s "contends c" "Locking op"] by (auto simp: short_def split: if_splits)
qed

text \<open>Threads wait only on conditions that can fail.\<close>

definition proper :: "nat \<Rightarrow> 'a threads \<Rightarrow> bool" where
  "proper m s \<longleftrightarrow> (\<forall>t op. at s t (Waiting op) \<longrightarrow> (\<exists>c. awaits op = Some c \<and> (c = NotFull \<longrightarrow> m \<noteq> 0)))"

lemma proper_step: "queue_step s l s' \<Longrightarrow> within m (th_queue s) \<Longrightarrow> proper m s \<Longrightarrow> proper m s'"
  by (induction rule: queue_step.induct)
    (auto simp: proper_def nth_list_update perform_none split: if_splits option.splits)

text \<open>The invariant of the threads over a queue made with \<open>max_size\<close>.\<close>

definition queue_inv :: "nat \<Rightarrow> 'a threads \<Rightarrow> bool" where
  "queue_inv m s \<longleftrightarrow> within m (th_queue s) \<and> exclusive s \<and> proper m s \<and> (\<forall>c. waits c s \<longrightarrow> short c s)"

lemma queue_inv_step: "queue_step s l s' \<Longrightarrow> queue_inv m s \<Longrightarrow> queue_inv m s'"
  by (auto simp: queue_inv_def intro: within_step exclusive_step proper_step short_step)

lemma queue_inv_new: "queue_inv m (threads_new m n)"
  by (auto simp: queue_inv_def exclusive_def proper_def waits_def threads_new_def cq_new_def within_def)

lemma queue_inv_run: "run queue_step (threads_new m n) ls s \<Longrightarrow> queue_inv m s"
  using run_invariant [of queue_step "threads_new m n" ls s "queue_inv m"] queue_inv_step queue_inv_new by blast

text \<open>A thread that holds the mutex can go on, and so can one that is to take a free mutex.\<close>

lemma queue_progress:
  assumes "queue_inv m s" "at s t p" "p \<noteq> Outside" "\<forall>op. p \<noteq> Waiting op"
  shows "\<exists>l s'. queue_step s l s' \<and> (\<forall>u op. l \<noteq> Calls u op) \<and> (\<forall>u. l \<noteq> Spurious u)"
proof -
  have go: ?thesis if "at s u p'" "inside p'" for u p'
  proof (cases p')
    case (Holding op)
    then show ?thesis
      using that queue_step.step_wait [of u s op] queue_step.step_effect [of u s op] by (cases "perform op (th_queue s)") fastforce+
  next
    case (Notifying c r)
    then show ?thesis
      using that queue_step.step_notify [of u s c r] queue_step.step_notify_none [of u s c r] by blast
  next
    case (Leaving r)
    then show ?thesis using that queue_step.step_return [of u s r] by blast
  qed (use that in simp_all)
  show ?thesis
  proof (cases "th_owner s")
    case None
    then have "\<not> inside p" using assms(1,2) by (auto simp: queue_inv_def exclusive_def)
    then obtain op where "p = Locking op" using assms(3,4) by (cases p) auto
    then show ?thesis using queue_step.step_lock [of t s op] assms(2) None by blast
  next
    case (Some u)
    then have "at s u (th_pcs s ! u)" "inside (th_pcs s ! u)" using assms(1) by (auto simp: queue_inv_def exclusive_def)
    then show ?thesis by (rule go)
  qed
qed

section \<open>Properties\<close>

lemma threads_new_simps [simp]:
  "th_pcs (threads_new m n) = replicate n Outside" "th_queue (threads_new m n) = cq_new m" "cq_queue (cq_new m) = []"
  by (simp_all add: threads_new_def cq_new_def)

lemma step_eq: "queue_step s l s1 \<Longrightarrow> s1 = s2 \<Longrightarrow> queue_step s l s2"
  by simp

text \<open>
  C13 (refinement): however the threads interleave, the queue behaves like a sequential one: every call takes effect once, between its start
  and its return, with the result it returns; the effects in their order are a run of the sequential queue; the items that came out, followed
  by those inside, are the items that went in, so nothing is lost, doubled or overtaken; a bounded queue stays within its
  bound; and at most one thread is inside the mutex.
\<close>

theorem concurrent_queue_linearisable:
  assumes "run queue_step (threads_new m n) ls s"
  shows "(\<forall>t < n. monitor t ls \<noteq> None) \<and> replay ls (cq_new m) = Some (th_queue s) \<and>
    ins ls = outs ls @ cq_queue (th_queue s) \<and> (m \<noteq> 0 \<longrightarrow> length (cq_queue (th_queue s)) \<le> m) \<and>
    (\<forall>t u. t < n \<and> u < n \<and> inside (th_pcs s ! t) \<and> inside (th_pcs s ! u) \<longrightarrow> t = u)"
  using monitor_run [OF assms, of n] replay_run [OF assms] run_history [OF assms] queue_inv_run [OF assms]
  by (auto simp: queue_inv_def within_def exclusive_def)

theorem concurrent_queue_linearisable_witness:
  "monitor 0 [Calls 0 (Push (7::nat)), Internal 0, Effect 0 (Push 7) Nothing] \<noteq> None \<and>
    ins [Calls 0 (Push (7::nat)), Internal 0, Effect 0 (Push 7) Nothing] = [7]"
proof -
  let ?q = "\<lambda>xs. \<lparr>cq_queue = xs, cq_max_size = 1, cq_is_bounded = True\<rparr>"
  let ?s = "\<lambda>xs owner p. \<lparr>th_queue = ?q xs, th_owner = owner, th_pcs = [p]\<rparr> :: nat threads"
  have "queue_step (?s [] None Outside) (Calls 0 (Push 7)) (?s [] None (Locking (Push 7)))"
    by (rule step_eq [OF queue_step.step_call]) simp_all
  moreover have "queue_step (?s [] None (Locking (Push 7))) (Internal 0) (?s [] (Some 0) (Holding (Push 7)))"
    by (rule step_eq [OF queue_step.step_lock [where op = "Push 7"]]) simp_all
  moreover have "queue_step (?s [] (Some 0) (Holding (Push 7))) (Effect 0 (Push 7) Nothing) (?s [7] (Some 0) (Notifying NotEmpty Nothing))"
    by (rule step_eq [OF queue_step.step_effect [where op = "Push 7"]]) (simp_all add: perform_def cq_push_def fullNoLock_def notifies_def)
  ultimately have "run queue_step (?s [] None Outside) [Calls 0 (Push (7::nat)), Internal 0, Effect 0 (Push 7) Nothing]
      (?s [7] (Some 0) (Notifying NotEmpty Nothing))"
    by (meson run_cons run_nil)
  then have "run queue_step (threads_new 1 1) [Calls 0 (Push (7::nat)), Internal 0, Effect 0 (Push 7) Nothing]
      (?s [7] (Some 0) (Notifying NotEmpty Nothing))"
    by (simp add: threads_new_def cq_new_def)
  from concurrent_queue_linearisable [OF this] show ?thesis by simp
qed

text \<open>
  C14 (liveness): no wake-up is lost: at any time some thread can go on, without a new call and without a spurious wake-up, or every thread
  is outside or waits for a condition that indeed does not hold: no consumer sleeps on a queue with items, no producer on one with room.
\<close>

theorem concurrent_queue_no_lost_wakeup:
  assumes "run queue_step (threads_new m n) ls s"
  shows "(\<exists>l s'. queue_step s l s' \<and> (\<forall>t op. l \<noteq> Calls t op) \<and> (\<forall>t. l \<noteq> Spurious t)) \<or>
    (\<forall>t < n. th_pcs s ! t = Outside \<or> (\<exists>op. th_pcs s ! t = Waiting op \<and> perform op (th_queue s) = None))"
proof (cases "\<exists>t < n. th_pcs s ! t \<noteq> Outside \<and> (\<forall>op. th_pcs s ! t \<noteq> Waiting op)")
  case True
  then show ?thesis
    using queue_progress [OF queue_inv_run [OF assms]] monitor_run [OF assms, of n] by auto
next
  case False
  have inv: "queue_inv m s" and n: "length (th_pcs s) = n"
    using queue_inv_run [OF assms] monitor_run [OF assms, of n] by simp_all
  have "\<not> contends c (th_pcs s ! t)" if "t < n" for c t using False that by (cases "th_pcs s ! t") auto
  then have "how_many (contends c) s = 0" for c using n by (auto simp: how_many_def filter_empty_conv in_set_conv_nth)
  then have avail: "avail c (th_queue s) = 0" if "waits c s" for c using inv that by (simp add: queue_inv_def short_def)
  have "perform op (th_queue s) = None" if w: "at s t (Waiting op)" for t op
  proof -
    obtain c where c: "awaits op = Some c" "c = NotFull \<longrightarrow> m \<noteq> 0" using inv w unfolding queue_inv_def proper_def by blast
    then have "waits c s" using w by (auto simp: waits_def)
    then show ?thesis using avail c inv perform_none [of m "th_queue s" op] by (auto simp: queue_inv_def)
  qed
  then show ?thesis using False n by blast
qed

theorem concurrent_queue_no_lost_wakeup_witness:
  "\<exists>s. run queue_step (threads_new 1 1) [Calls 0 Pop, Internal 0, Internal 0] (s :: nat threads) \<and> th_pcs s ! 0 = Waiting Pop \<and>
    ((\<exists>l s'. queue_step s l s' \<and> (\<forall>t op. l \<noteq> Calls t op) \<and> (\<forall>t. l \<noteq> Spurious t)) \<or> perform Pop (th_queue s) = None)"
proof -
  let ?s = "\<lambda>owner p. \<lparr>th_queue = \<lparr>cq_queue = [], cq_max_size = 1, cq_is_bounded = True\<rparr>, th_owner = owner, th_pcs = [p]\<rparr> :: nat threads"
  have "queue_step (?s None Outside) (Calls 0 Pop) (?s None (Locking Pop))"
    by (rule step_eq [OF queue_step.step_call]) simp_all
  moreover have "queue_step (?s None (Locking Pop)) (Internal 0) (?s (Some 0) (Holding Pop))"
    by (rule step_eq [OF queue_step.step_lock [where op = Pop]]) simp_all
  moreover have "queue_step (?s (Some 0) (Holding Pop)) (Internal 0) (?s None (Waiting Pop))"
    by (rule step_eq [OF queue_step.step_wait [where op = Pop]]) (simp_all add: perform_def cq_pop_def)
  ultimately have "run queue_step (?s None Outside) [Calls 0 Pop, Internal 0, Internal 0] (?s None (Waiting Pop))"
    by (meson run_cons run_nil)
  then have *: "run queue_step (threads_new 1 1) [Calls 0 Pop, Internal 0, Internal 0] (?s None (Waiting Pop))"
    by (simp add: threads_new_def cq_new_def)
  with concurrent_queue_no_lost_wakeup [OF *] show ?thesis by (intro exI [of _ "?s None (Waiting Pop)"]) auto
qed

end
