(* ===== verification/LogAsyncSink.thy ===== *)
theory LogAsyncSink
  imports ConcurrentQueue DynamicBuffer "HOL-Library.Multiset"
begin

text \<open>
  Model of \<open>src/brickred/log_async_sink.cc\<close> with \<open>object_pool.h\<close>: threads that log copy their message into a buffer from the
  pool and push the pointer into the queue, one thread pops the pointers, hands the contents to the adapted sink and returns the
  buffers, and the destructor pushes a null pointer and joins that thread. The operations of the queue are
  one step each, as the queue is linearisable; so are those of the pool, which run under \<open>pool_mutex_\<close>.
\<close>

section \<open>Object pool\<close>

text \<open>The pool holds pointers; \<open>fresh\<close> is what \<open>new\<close> returns.\<close>

definition getObject :: "nat \<Rightarrow> nat list \<Rightarrow> (nat \<rightharpoonup> dynamic_buffer) \<Rightarrow> nat \<times> nat list \<times> (nat \<rightharpoonup> dynamic_buffer)" where
  "getObject fresh pool heap =
     (if pool \<noteq> [] then (last pool, butlast pool, heap) else (fresh, pool, heap(fresh \<mapsto> db_new 1024 1024)))"

definition returnObject :: "nat \<Rightarrow> nat list \<Rightarrow> nat list" where
  "returnObject p pool = pool @ [p]"

text \<open>\<open>delete\<close> of the pointers of a list; deleting what is not there is \<open>None\<close>.\<close>

fun delete_all :: "nat list \<Rightarrow> (nat \<rightharpoonup> dynamic_buffer) \<Rightarrow> (nat \<rightharpoonup> dynamic_buffer) option" where
  "delete_all [] heap = Some heap"
| "delete_all (p # ps) heap = (if heap p = None then None else delete_all ps (heap(p := None)))"

section \<open>Threads\<close>

text \<open>A thread in \<open>log\<close>: outside, with a buffer for its message, with the message in it.\<close>

datatype caller = Away | Has nat bytes | Filled nat bytes

text \<open>The log thread: before \<open>pop\<close>, with a buffer, with a buffer that was written out, returned from its function.\<close>

datatype log_thread = Popping | Writing nat | Recycling nat | Finished

datatype destructor = Alive | Joining | Destroyed

record async =
  as_queue :: "nat option cq"
  as_pool :: "nat list"
  as_heap :: "nat \<rightharpoonup> dynamic_buffer"
  as_callers :: "caller list"
  as_thread :: log_thread
  as_destructor :: destructor
  as_sink :: "bytes list option"

text \<open>The adapted sink holds what it was given; \<open>None\<close> after it was deleted.\<close>

definition async_new :: "nat \<Rightarrow> nat \<Rightarrow> async" where
  "async_new queue_size n =
     \<lparr>as_queue = cq_new queue_size, as_pool = [], as_heap = Map.empty, as_callers = replicate n Away,
      as_thread = Popping, as_destructor = Alive, as_sink = Some []\<rparr>"

definition log_get :: "nat \<Rightarrow> nat \<Rightarrow> bytes \<Rightarrow> async \<Rightarrow> async" where
  "log_get t fresh msg s = (case getObject fresh (as_pool s) (as_heap s) of (p, pool, heap) \<Rightarrow>
     s\<lparr>as_pool := pool, as_heap := heap, as_callers := (as_callers s)[t := Has p msg]\<rparr>)"

definition log_fill :: "nat \<Rightarrow> nat \<Rightarrow> bytes \<Rightarrow> async \<Rightarrow> async option" where
  "log_fill t p msg s = do {
     b \<leftarrow> as_heap s p;
     b \<leftarrow> db_append b msg;
     Some (s\<lparr>as_heap := (as_heap s)(p \<mapsto> b), as_callers := (as_callers s)[t := Filled p msg]\<rparr>) }"

definition log_push :: "nat \<Rightarrow> nat \<Rightarrow> async \<Rightarrow> async option" where
  "log_push t p s = do {
     q \<leftarrow> cq_push (Some p) (as_queue s);
     Some (s\<lparr>as_queue := q, as_callers := (as_callers s)[t := Away]\<rparr>) }"

definition thread_pop :: "async \<Rightarrow> async option" where
  "thread_pop s = do {
     (x, q) \<leftarrow> cq_pop (as_queue s);
     Some (s\<lparr>as_queue := q, as_thread := (case x of None \<Rightarrow> Finished | Some p \<Rightarrow> Writing p)\<rparr>) }"

definition thread_write :: "nat \<Rightarrow> async \<Rightarrow> (bytes \<times> async) option" where
  "thread_write p s = do {
     b \<leftarrow> as_heap s p;
     bs \<leftarrow> db_readBegin b 0 (db_readableBytes b);
     sink \<leftarrow> as_sink s;
     Some (bs, s\<lparr>as_sink := Some (sink @ [bs]), as_heap := (as_heap s)(p \<mapsto> db_read b (db_readableBytes b)),
       as_thread := Recycling p\<rparr>) }"

definition thread_recycle :: "nat \<Rightarrow> async \<Rightarrow> async" where
  "thread_recycle p s = s\<lparr>as_pool := returnObject p (as_pool s), as_thread := Popping\<rparr>"

definition destroy_push :: "async \<Rightarrow> async option" where
  "destroy_push s = do {
     q \<leftarrow> cq_push None (as_queue s);
     Some (s\<lparr>as_queue := q, as_destructor := Joining\<rparr>) }"

text \<open>After \<open>join\<close>: the adapted sink, then the members in the reverse order of their declaration: the pool, the queue.\<close>

definition destroy_members :: "async \<Rightarrow> async option" where
  "destroy_members s = do {
     _ \<leftarrow> as_sink s;
     heap \<leftarrow> delete_all (as_pool s) (as_heap s);
     heap \<leftarrow> delete_all (List.map_filter id (cq_queue (as_queue s))) heap;
     Some (s\<lparr>as_sink := None, as_pool := [], as_queue := (as_queue s)\<lparr>cq_queue := []\<rparr>, as_heap := heap,
       as_destructor := Destroyed\<rparr>) }"

text \<open>The steps; a log message is as long as an \<open>int\<close> can say, and the destructor runs when no thread is in \<open>log\<close>.\<close>

datatype event = Starts nat | Fills nat | Queues nat bytes | Pops | Writes bytes | Recycles | PushesNull | Joins

inductive async_step :: "async \<Rightarrow> event \<Rightarrow> async \<Rightarrow> bool" where
  async_start: "t < length (as_callers s) \<Longrightarrow> as_callers s ! t = Away \<Longrightarrow> as_destructor s = Alive \<Longrightarrow> length msg < 2 ^ 31 \<Longrightarrow>
    as_heap s fresh = None \<Longrightarrow> async_step s (Starts t) (log_get t fresh msg s)"
| async_fill: "t < length (as_callers s) \<Longrightarrow> as_callers s ! t = Has p msg \<Longrightarrow> log_fill t p msg s = Some s' \<Longrightarrow>
    async_step s (Fills t) s'"
| async_push: "t < length (as_callers s) \<Longrightarrow> as_callers s ! t = Filled p msg \<Longrightarrow> log_push t p s = Some s' \<Longrightarrow>
    async_step s (Queues t msg) s'"
| async_pop: "as_thread s = Popping \<Longrightarrow> thread_pop s = Some s' \<Longrightarrow> async_step s Pops s'"
| async_write: "as_thread s = Writing p \<Longrightarrow> thread_write p s = Some (bs, s') \<Longrightarrow> async_step s (Writes bs) s'"
| async_recycle: "as_thread s = Recycling p \<Longrightarrow> async_step s Recycles (thread_recycle p s)"
| async_destroy: "as_destructor s = Alive \<Longrightarrow> \<forall>t < length (as_callers s). as_callers s ! t = Away \<Longrightarrow> destroy_push s = Some s' \<Longrightarrow>
    async_step s PushesNull s'"
| async_join: "as_destructor s = Joining \<Longrightarrow> as_thread s = Finished \<Longrightarrow> destroy_members s = Some s' \<Longrightarrow> async_step s Joins s'"

fun queued :: "event list \<Rightarrow> bytes list" where
  "queued [] = []"
| "queued (Queues t msg # ls) = msg # queued ls"
| "queued (_ # ls) = queued ls"

fun written :: "event list \<Rightarrow> bytes list" where
  "written [] = []"
| "written (Writes bs # ls) = bs # written ls"
| "written (_ # ls) = written ls"

lemma queued_append: "queued (ls @ ls') = queued ls @ queued ls'"
  by (induction ls rule: queued.induct) simp_all

lemma written_append: "written (ls @ ls') = written ls @ written ls'"
  by (induction ls rule: written.induct) simp_all

section \<open>Ownership\<close>

text \<open>
  Every buffer belongs to one owner, who expects certain contents: \<open>owns H heap\<close> for the multiset \<open>H\<close> of pointers and
  contents says that the pointers are distinct, that they are all of the heap, and that the contents are as expected.
\<close>

definition pooled :: "dynamic_buffer \<Rightarrow> bool" where
  "pooled b \<longleftrightarrow> db_wf b \<and> db_expand_size b = 1024 \<and> length (db_buffer b) \<le> 2 ^ 32"

definition owns :: "(nat \<times> bytes) multiset \<Rightarrow> (nat \<rightharpoonup> dynamic_buffer) \<Rightarrow> bool" where
  "owns H heap \<longleftrightarrow> finite (dom heap) \<and> image_mset fst H = mset_set (dom heap) \<and>
     (\<forall>(p, bs) \<in># H. \<exists>b. heap p = Some b \<and> pooled b \<and> db_data b = bs)"

lemma owns_buffer: "owns (add_mset (p, bs) H) heap \<Longrightarrow> \<exists>b. heap p = Some b \<and> pooled b \<and> db_data b = bs"
  by (simp add: owns_def)

lemma owns_distinct:
  assumes "owns (add_mset (p, bs) H) heap"
  shows "\<forall>(p', bs') \<in># H. p' \<noteq> p"
proof -
  have "add_mset p (image_mset fst H) = mset_set (dom heap)" "finite (dom heap)" using assms by (simp_all add: owns_def)
  then have "count (add_mset p (image_mset fst H)) p \<le> 1" by (metis count_mset_set(1,3) le_refl zero_le)
  then have "p \<notin># image_mset fst H" by (simp add: count_eq_zero_iff)
  then show ?thesis by force
qed

lemma owns_new:
  assumes "owns H heap" "heap p = None" "pooled b" "db_data b = bs"
  shows "owns (add_mset (p, bs) H) (heap(p \<mapsto> b))"
proof -
  have "p' \<noteq> p" if "(p', bs') \<in># H" for p' bs' using assms(1,2) that by (fastforce simp: owns_def)
  then show ?thesis using assms by (auto simp: owns_def mset_set.insert_remove domIff)
qed

lemma owns_drop:
  assumes "owns (add_mset (p, bs) H) heap"
  shows "owns H (heap(p := None))"
proof -
  have d: "add_mset p (image_mset fst H) = mset_set (dom heap)" "finite (dom heap)" using assms by (simp_all add: owns_def)
  then have "p \<in> dom heap" by (metis finite_set_mset_mset_set union_single_eq_member add_mset_add_single union_commute)
  then have "image_mset fst H = mset_set (dom heap - {p})" using d by (simp add: mset_set.remove)
  then show ?thesis using assms owns_distinct [OF assms] by (fastforce simp: owns_def)
qed

lemma owns_write:
  assumes "owns (add_mset (p, bs) H) heap" "pooled b" "db_data b = bs'"
  shows "owns (add_mset (p, bs') H) (heap(p \<mapsto> b))"
  using owns_new [OF owns_drop [OF assms(1)] _ assms(2,3), of p] by simp

lemma owns_delete_all:
  "owns (mset (zip ps ms) + H) heap \<Longrightarrow> length ms = length ps \<Longrightarrow> \<exists>heap'. delete_all ps heap = Some heap' \<and> owns H heap'"
proof (induction ps arbitrary: ms heap)
  case (Cons p ps)
  then obtain m ms' where ms: "ms = m # ms'" by (cases ms) auto
  then have "owns (add_mset (p, m) (mset (zip ps ms') + H)) heap" using Cons.prems by simp
  then have d: "heap p \<noteq> None" "owns (mset (zip ps ms') + H) (heap(p := None))" using owns_buffer owns_drop by fastforce+
  have "length ms' = length ps" using Cons.prems(2) ms by simp
  from Cons.IH [OF d(2) this] d(1) show ?case by (simp only: delete_all.simps if_False)
qed simp

lemma owns_empty: "owns {#} heap \<Longrightarrow> heap = Map.empty"
  by (simp add: owns_def) (metis mset_set_empty_iff dom_eq_empty_conv)

lemma pooled_new: "pooled (db_new 1024 1024)"
  by (simp add: pooled_def db_wf_new) (simp add: db_new_def)

lemma pooled_append:
  assumes "pooled b" "db_data b = []" "length msg < 2 ^ 31"
  obtains b' where "db_append b msg = Some b'" "pooled b'" "db_data b' = msg"
proof -
  have "db_readableBytes b = 0" using assms(1,2) length_db_data [of b] by (simp add: pooled_def)
  then have room: "db_room b (length msg)" using assms by (auto simp: pooled_def db_room_def)
  then obtain b' where b': "db_append b msg = Some b'" "db_wf b'" "db_data b' = db_data b @ msg"
    using db_append_spec [of b msg 0] assms(1) by (auto simp: pooled_def)
  have "pooled b'" using db_append_length [OF _ room b'(1)] assms b'(2) \<open>db_readableBytes b = 0\<close> by (auto simp: pooled_def)
  then show thesis using that b' assms(2) by simp
qed

lemma pooled_read:
  assumes "pooled b"
  shows "pooled (db_read b n)" "db_readBegin b 0 (db_readableBytes b) = Some (db_data b)" "db_data (db_read b (db_readableBytes b)) = []"
proof -
  have wf: "db_wf b" using assms by (simp add: pooled_def)
  show "db_readBegin b 0 (db_readableBytes b) = Some (db_data b)" using db_readBegin_data [OF wf, of 0] length_db_data [OF wf] by simp
  show "db_data (db_read b (db_readableBytes b)) = []" using db_read_spec(2) [OF wf] length_db_data [OF wf] by simp
  show "pooled (db_read b n)" using db_read_spec(1) [OF wf] assms by (simp add: pooled_def db_read_def db_clear_def Let_def)
qed

section \<open>Invariant\<close>

fun caller_owns :: "caller \<Rightarrow> (nat \<times> bytes) multiset" where
  "caller_owns Away = {#}"
| "caller_owns (Has p msg) = {#(p, [])#}"
| "caller_owns (Filled p msg) = {#(p, msg)#}"

text \<open>\<open>hand\<close>: the message the log thread has taken from the queue and not written yet.\<close>

fun thread_owns :: "log_thread \<Rightarrow> bytes list \<Rightarrow> (nat \<times> bytes) multiset" where
  "thread_owns (Writing p) hand = {#(p, hd hand)#}"
| "thread_owns (Recycling p) hand = {#(p, [])#}"
| "thread_owns _ hand = {#}"

definition in_hand :: "log_thread \<Rightarrow> bytes list \<Rightarrow> bool" where
  "in_hand th hand \<longleftrightarrow> (if \<exists>p. th = Writing p then length hand = 1 else hand = [])"

definition callers_own :: "async \<Rightarrow> (nat \<times> bytes) multiset" where
  "callers_own s = (\<Sum>c \<in># mset (as_callers s). caller_owns c)"

text \<open>The queue holds the pointers \<open>ps\<close>, and at the end a null pointer while the destructor waits for the log thread.\<close>

definition queue_shape :: "async \<Rightarrow> nat list \<Rightarrow> bool" where
  "queue_shape s ps \<longleftrightarrow> (case as_destructor s of
     Alive \<Rightarrow> cq_queue (as_queue s) = map Some ps \<and> as_thread s \<noteq> Finished
   | Joining \<Rightarrow> (\<forall>c \<in> set (as_callers s). c = Away) \<and>
       (if as_thread s = Finished then cq_queue (as_queue s) = [] \<and> ps = [] else cq_queue (as_queue s) = map Some ps @ [None])
   | Destroyed \<Rightarrow> False)"

definition messages_ok :: "async \<Rightarrow> bool" where
  "messages_ok s \<longleftrightarrow> (\<forall>p msg. Has p msg \<in> set (as_callers s) \<longrightarrow> length msg < 2 ^ 31)"

lemma messages_ok_update:
  "messages_ok s \<Longrightarrow> as_callers s' = (as_callers s)[t := c] \<Longrightarrow> (\<And>p msg. c = Has p msg \<Longrightarrow> length msg < 2 ^ 31) \<Longrightarrow> messages_ok s'"
  by (auto simp: messages_ok_def dest!: set_update_subset_insert [THEN subsetD])

definition async_holds :: "bytes list \<Rightarrow> async \<Rightarrow> bool" where
  "async_holds msgs s \<longleftrightarrow> (\<exists>ps ms hand sink. queue_shape s ps \<and> length ms = length ps \<and> in_hand (as_thread s) hand \<and>
     owns ({#(p, []). p \<in># mset (as_pool s)#} + mset (zip ps ms) + callers_own s + thread_owns (as_thread s) hand) (as_heap s) \<and>
     as_sink s = Some sink \<and> sink @ hand @ ms = msgs \<and>
     messages_ok s)"

definition async_inv :: "bytes list \<Rightarrow> bytes list \<Rightarrow> async \<Rightarrow> bool" where
  "async_inv msgs ws s \<longleftrightarrow>
     (if as_destructor s = Destroyed
      then as_heap s = Map.empty \<and> as_sink s = None \<and> ws = msgs \<and> (\<forall>c \<in> set (as_callers s). c = Away) \<and> as_thread s = Finished
      else async_holds msgs s \<and> as_sink s = Some ws)"

lemma callers_update:
  assumes "t < length (as_callers s)"
  shows "\<exists>H. callers_own s = caller_owns (as_callers s ! t) + H \<and>
    (\<forall>c s'. as_callers s' = (as_callers s)[t := c] \<longrightarrow> callers_own s' = caller_owns c + H)"
proof (intro exI conjI allI impI)
  let ?H = "\<Sum>c \<in># mset (as_callers s) - {#as_callers s ! t#}. caller_owns c"
  have m: "as_callers s ! t \<in># mset (as_callers s)" using assms by simp
  show "callers_own s = caller_owns (as_callers s ! t) + ?H"
    unfolding callers_own_def using insert_DiffM [OF m] by (metis image_mset_add_mset sum_mset.insert)
  show "callers_own s' = caller_owns c + ?H" if "as_callers s' = (as_callers s)[t := c]" for c s'
    using that assms by (simp add: callers_own_def mset_update)
qed

text \<open>The parts of the invariant when thread \<open>t\<close> is in \<open>log\<close>, and when the log thread is to go on.\<close>

definition others :: "async \<Rightarrow> nat list \<Rightarrow> bytes list \<Rightarrow> (nat \<times> bytes) multiset \<Rightarrow> bytes list \<Rightarrow> (nat \<times> bytes) multiset" where
  "others s ps ms H hand = {#(p, []). p \<in># mset (as_pool s)#} + mset (zip ps ms) + H + thread_owns (as_thread s) hand"

lemma caller_turn:
  assumes "async_holds msgs s" "t < length (as_callers s)"
  obtains ps ms hand sink H where "queue_shape s ps" "length ms = length ps" "in_hand (as_thread s) hand"
    "owns (caller_owns (as_callers s ! t) + others s ps ms H hand) (as_heap s)"
    "as_sink s = Some sink" "sink @ hand @ ms = msgs" "messages_ok s"
    "\<forall>c s'. as_callers s' = (as_callers s)[t := c] \<longrightarrow> callers_own s' = caller_owns c + H"
proof -
  obtain ps ms hand sink where h: "queue_shape s ps" "length ms = length ps" "in_hand (as_thread s) hand"
    "owns (others s ps ms (callers_own s) hand) (as_heap s)" "as_sink s = Some sink" "sink @ hand @ ms = msgs" "messages_ok s"
    using assms(1) unfolding async_holds_def others_def by blast
  obtain H where H: "callers_own s = caller_owns (as_callers s ! t) + H"
    "\<forall>c s'. as_callers s' = (as_callers s)[t := c] \<longrightarrow> callers_own s' = caller_owns c + H"
    using callers_update [OF assms(2)] by blast
  have "others s ps ms (callers_own s) hand = caller_owns (as_callers s ! t) + others s ps ms H hand"
    using H(1) by (simp add: others_def ac_simps)
  with that h H(2) show thesis by metis
qed

lemma getObject_spec:
  assumes "owns ({#(p, []). p \<in># mset pool#} + H) heap" "heap fresh = None"
  obtains p pool' heap' where "getObject fresh pool heap = (p, pool', heap')"
    "owns (add_mset (p, []) ({#(p, []). p \<in># mset pool'#} + H)) heap'"
proof (cases "pool = []")
  case True
  with assms that show thesis using owns_new [OF assms pooled_new db_data_new] by (simp add: getObject_def)
next
  case False
  then have "mset pool = add_mset (last pool) (mset (butlast pool))"
    by (metis append_butlast_last_id mset_append mset_single_iff_right union_mset_add_mset_right mset.simps empty_neutral(2))
  with False assms(1) that show thesis by (simp add: getObject_def)
qed

lemma holds_start:
  assumes "async_holds msgs s" "t < length (as_callers s)" "as_callers s ! t = Away" "as_destructor s = Alive"
    "length msg < 2 ^ 31" "as_heap s fresh = None"
  shows "async_holds msgs (log_get t fresh msg s)"
proof -
  obtain ps ms hand sink H where h: "queue_shape s ps" "length ms = length ps" "in_hand (as_thread s) hand"
    "owns (caller_owns (as_callers s ! t) + (others s ps ms H hand)) (as_heap s)"
    "as_sink s = Some sink" "sink @ hand @ ms = msgs" "messages_ok s"
    and H: "\<forall>c s'. as_callers s' = (as_callers s)[t := c] \<longrightarrow> callers_own s' = caller_owns c + H"
    by (rule caller_turn [OF assms(1,2)])
  have "owns ({#(p, []). p \<in># mset (as_pool s)#} + (mset (zip ps ms) + H + thread_owns (as_thread s) hand)) (as_heap s)"
    using h(4) assms(3) by (simp add: others_def ac_simps)
  from getObject_spec [OF this assms(6)] obtain p pool' heap' where g: "getObject fresh (as_pool s) (as_heap s) = (p, pool', heap')"
    "owns (add_mset (p, []) ({#(p, []). p \<in># mset pool'#} + (mset (zip ps ms) + H + thread_owns (as_thread s) hand))) heap'"
    by blast
  let ?s = "log_get t fresh msg s"
  have s: "?s = s\<lparr>as_pool := pool', as_heap := heap', as_callers := (as_callers s)[t := Has p msg]\<rparr>" using g(1) by (simp add: log_get_def)
  have own: "callers_own ?s = {#(p, [])#} + H" using H [rule_format, of ?s "Has p msg"] s by simp
  have m: "messages_ok ?s" by (rule messages_ok_update [OF h(7), of _ t "Has p msg"]) (use s assms(5) in simp_all)
  have "queue_shape ?s ps" using h(1) assms(4) s by (simp add: queue_shape_def)
  with own g(2) h m show ?thesis
    unfolding async_holds_def by (intro exI [of _ ps] exI [of _ ms] exI [of _ hand] exI [of _ sink]) (simp add: s ac_simps)
qed

lemma holds_fill:
  assumes "async_holds msgs s" "t < length (as_callers s)" "as_callers s ! t = Has p msg"
  obtains s' where "log_fill t p msg s = Some s'" "async_holds msgs s'" "as_sink s' = as_sink s" "as_destructor s' = as_destructor s"
proof -
  obtain ps ms hand sink H where h: "queue_shape s ps" "length ms = length ps" "in_hand (as_thread s) hand"
    "owns (caller_owns (as_callers s ! t) + (others s ps ms H hand)) (as_heap s)"
    "as_sink s = Some sink" "sink @ hand @ ms = msgs" "messages_ok s"
    and H: "\<forall>c s'. as_callers s' = (as_callers s)[t := c] \<longrightarrow> callers_own s' = caller_owns c + H"
    by (rule caller_turn [OF assms(1,2)])
  have mem: "Has p msg \<in> set (as_callers s)" using assms(2,3) by (metis nth_mem)
  have own: "owns (add_mset (p, []) (others s ps ms H hand)) (as_heap s)" using h(4) assms(3) by simp
  obtain b b' where b: "as_heap s p = Some b" "db_append b msg = Some b'" "pooled b'" "db_data b' = msg"
    using owns_buffer [OF own] pooled_append h(7) mem unfolding messages_ok_def by metis
  let ?s = "s\<lparr>as_heap := (as_heap s)(p \<mapsto> b'), as_callers := (as_callers s)[t := Filled p msg]\<rparr>"
  have c: "callers_own ?s = {#(p, msg)#} + H" using H [rule_format, of ?s "Filled p msg"] by simp
  have m: "messages_ok ?s" by (rule messages_ok_update [OF h(7), of _ t "Filled p msg"]) simp_all
  have "queue_shape ?s ps" using h(1) mem by (auto simp: queue_shape_def split: destructor.splits)
  with c owns_write [OF own b(3,4)] h m have "async_holds msgs ?s"
    unfolding async_holds_def by (intro exI [of _ ps] exI [of _ ms] exI [of _ hand] exI [of _ sink]) (simp add: others_def ac_simps)
  with b that [of ?s] show thesis by (simp add: log_fill_def)
qed

lemma holds_push:
  assumes "async_holds msgs s" "t < length (as_callers s)" "as_callers s ! t = Filled p msg" "log_push t p s = Some s'"
  shows "async_holds (msgs @ [msg]) s'" "as_sink s' = as_sink s" "as_destructor s' = as_destructor s"
proof -
  obtain ps ms hand sink H where h: "queue_shape s ps" "length ms = length ps" "in_hand (as_thread s) hand"
    "owns (caller_owns (as_callers s ! t) + (others s ps ms H hand)) (as_heap s)"
    "as_sink s = Some sink" "sink @ hand @ ms = msgs" "messages_ok s"
    and H: "\<forall>c s'. as_callers s' = (as_callers s)[t := c] \<longrightarrow> callers_own s' = caller_owns c + H"
    by (rule caller_turn [OF assms(1,2)])
  have mem: "Filled p msg \<in> set (as_callers s)" using assms(2,3) by (metis nth_mem)
  obtain q where q: "cq_push (Some p) (as_queue s) = Some q" "s' = s\<lparr>as_queue := q, as_callers := (as_callers s)[t := Away]\<rparr>"
    using assms(4) by (auto simp: log_push_def split: option.splits bind_splits)
  have c: "callers_own s' = H" using H [rule_format, of s' Away] q(2) by simp
  have m: "messages_ok s'" by (rule messages_ok_update [OF h(7), of _ t Away]) (use q(2) in simp_all)
  have "queue_shape s' (ps @ [p])"
    using h(1) mem q(2) cq.put_content [OF q(1)] by (auto simp: queue_shape_def split: destructor.splits)
  then show "async_holds (msgs @ [msg]) s'"
    unfolding async_holds_def
    by (intro exI [of _ "ps @ [p]"] exI [of _ "ms @ [msg]"] exI [of _ hand] exI [of _ sink])
      (use h c m assms(3) q(2) in \<open>auto simp: others_def ac_simps\<close>)
  show "as_sink s' = as_sink s" "as_destructor s' = as_destructor s" using q(2) by simp_all
qed

lemma thread_turn:
  assumes "async_holds msgs s"
  obtains ps ms hand sink where "queue_shape s ps" "length ms = length ps" "in_hand (as_thread s) hand"
    "owns (thread_owns (as_thread s) hand + ({#(p, []). p \<in># mset (as_pool s)#} + mset (zip ps ms) + callers_own s)) (as_heap s)"
    "as_sink s = Some sink" "sink @ hand @ ms = msgs" "messages_ok s"
  using assms unfolding async_holds_def by (auto simp: ac_simps)

lemma callers_own_fields [simp]:
  "callers_own (s\<lparr>as_queue := q\<rparr>) = callers_own s" "messages_ok (s\<lparr>as_queue := q\<rparr>) = messages_ok s"
  "callers_own (s\<lparr>as_pool := ps\<rparr>) = callers_own s" "messages_ok (s\<lparr>as_pool := ps\<rparr>) = messages_ok s"
  "callers_own (s\<lparr>as_heap := h\<rparr>) = callers_own s" "messages_ok (s\<lparr>as_heap := h\<rparr>) = messages_ok s"
  "callers_own (s\<lparr>as_thread := th\<rparr>) = callers_own s" "messages_ok (s\<lparr>as_thread := th\<rparr>) = messages_ok s"
  "callers_own (s\<lparr>as_destructor := d\<rparr>) = callers_own s" "messages_ok (s\<lparr>as_destructor := d\<rparr>) = messages_ok s"
  "callers_own (s\<lparr>as_sink := x\<rparr>) = callers_own s" "messages_ok (s\<lparr>as_sink := x\<rparr>) = messages_ok s"
  by (simp_all add: callers_own_def messages_ok_def)

lemma holds_pop:
  assumes "async_holds msgs s" "as_thread s = Popping" "thread_pop s = Some s'"
  shows "async_holds msgs s'" "as_sink s' = as_sink s" "as_destructor s' = as_destructor s"
proof -
  obtain ps ms hand sink where h: "queue_shape s ps" "length ms = length ps" "in_hand (as_thread s) hand"
    "owns (thread_owns (as_thread s) hand + ({#(p, []). p \<in># mset (as_pool s)#} + mset (zip ps ms) + callers_own s)) (as_heap s)"
    "as_sink s = Some sink" "sink @ hand @ ms = msgs" "messages_ok s"
    by (rule thread_turn [OF assms(1)])
  obtain x q where q: "cq_pop (as_queue s) = Some (x, q)"
    "s' = s\<lparr>as_queue := q, as_thread := (case x of None \<Rightarrow> Finished | Some p \<Rightarrow> Writing p)\<rparr>"
    using assms(3) by (auto simp: thread_pop_def bind_eq_Some_conv)
  have cont: "cq_queue (as_queue s) = x # cq_queue q" using cq.take_content [OF q(1)] .
  have hand: "hand = []" using h(3) assms(2) by (simp add: in_hand_def)
  have own: "callers_own s' = callers_own s" "messages_ok s'" using q(2) h(7) by simp_all
  show "async_holds msgs s'"
  proof (cases ps)
    case Nil
    with h(1) cont assms(2) have "as_destructor s = Joining" "x = None" "cq_queue q = []" "\<forall>c \<in> set (as_callers s). c = Away"
      by (auto simp: queue_shape_def split: destructor.splits)
    with h Nil hand own assms(2) q(2) show ?thesis
      unfolding async_holds_def by (intro exI [of _ "[]"] exI [of _ sink]) (auto simp: queue_shape_def in_hand_def)
  next
    case (Cons p ps')
    then obtain m ms' where ms: "ms = m # ms'" using h(2) by (cases ms) auto
    from h(1) cont assms(2) Cons have x: "x = Some p" and shape: "queue_shape s' ps'"
      using q(2) by (auto simp: queue_shape_def split: destructor.splits)
    then show ?thesis
      unfolding async_holds_def
      by (intro exI [of _ ps'] exI [of _ ms'] exI [of _ "[m]"] exI [of _ sink])
        (use h Cons ms hand own assms(2) q(2) in \<open>auto simp: in_hand_def ac_simps\<close>)
  qed
  show "as_sink s' = as_sink s" "as_destructor s' = as_destructor s" using q(2) by simp_all
qed

lemma holds_write:
  assumes "async_holds msgs s" "as_thread s = Writing p"
  obtains bs s' sink where "thread_write p s = Some (bs, s')" "async_holds msgs s'" "as_sink s = Some sink" "as_sink s' = Some (sink @ [bs])"
    "as_destructor s' = as_destructor s"
proof -
  obtain ps ms hand sink where h: "queue_shape s ps" "length ms = length ps" "in_hand (as_thread s) hand"
    "owns (thread_owns (as_thread s) hand + ({#(p, []). p \<in># mset (as_pool s)#} + mset (zip ps ms) + callers_own s)) (as_heap s)"
    "as_sink s = Some sink" "sink @ hand @ ms = msgs" "messages_ok s"
    by (rule thread_turn [OF assms(1)])
  obtain m where hand: "hand = [m]" using h(3) assms(2) by (auto simp: in_hand_def length_Suc_conv)
  have own: "owns (add_mset (p, m) ({#(p, []). p \<in># mset (as_pool s)#} + mset (zip ps ms) + callers_own s)) (as_heap s)"
    using h(4) assms(2) hand by simp
  obtain b where b: "as_heap s p = Some b" "pooled b" "db_data b = m" using owns_buffer [OF own] by blast
  let ?s = "s\<lparr>as_sink := Some (sink @ [m]), as_heap := (as_heap s)(p \<mapsto> db_read b (db_readableBytes b)), as_thread := Recycling p\<rparr>"
  have w: "thread_write p s = Some (m, ?s)" using b h(5) pooled_read(2) [OF b(2)] by (simp add: thread_write_def)
  have "queue_shape ?s ps" using h(1) assms(2) by (auto simp: queue_shape_def split: destructor.splits)
  with owns_write [OF own pooled_read(1,3) [OF b(2)]] have "async_holds msgs ?s"
    unfolding async_holds_def
    by (intro exI [of _ ps] exI [of _ ms] exI [of _ "[]"] exI [of _ "sink @ [m]"])
      (use h hand in \<open>auto simp: in_hand_def ac_simps\<close>)
  with w h(5) that show thesis by simp
qed

lemma holds_recycle:
  assumes "async_holds msgs s" "as_thread s = Recycling p"
  shows "async_holds msgs (thread_recycle p s)"
proof -
  obtain ps ms hand sink where h: "queue_shape s ps" "length ms = length ps" "in_hand (as_thread s) hand"
    "owns (thread_owns (as_thread s) hand + ({#(p, []). p \<in># mset (as_pool s)#} + mset (zip ps ms) + callers_own s)) (as_heap s)"
    "as_sink s = Some sink" "sink @ hand @ ms = msgs" "messages_ok s"
    by (rule thread_turn [OF assms(1)])
  have "queue_shape (thread_recycle p s) ps" using h(1) assms(2) by (auto simp: queue_shape_def thread_recycle_def split: destructor.splits)
  then show ?thesis
    unfolding async_holds_def
    by (intro exI [of _ ps] exI [of _ ms] exI [of _ "[]"] exI [of _ sink])
      (use h assms(2) in \<open>auto simp: in_hand_def thread_recycle_def returnObject_def ac_simps\<close>)
qed

lemma holds_destroy:
  assumes "async_holds msgs s" "as_destructor s = Alive" "\<forall>t < length (as_callers s). as_callers s ! t = Away" "destroy_push s = Some s'"
  shows "async_holds msgs s'" "as_sink s' = as_sink s" "as_destructor s' = Joining"
proof -
  obtain ps ms hand sink where h: "queue_shape s ps" "length ms = length ps" "in_hand (as_thread s) hand"
    "owns (thread_owns (as_thread s) hand + ({#(p, []). p \<in># mset (as_pool s)#} + mset (zip ps ms) + callers_own s)) (as_heap s)"
    "as_sink s = Some sink" "sink @ hand @ ms = msgs" "messages_ok s"
    by (rule thread_turn [OF assms(1)])
  obtain q where q: "cq_push None (as_queue s) = Some q" "s' = s\<lparr>as_queue := q, as_destructor := Joining\<rparr>"
    using assms(4) by (auto simp: destroy_push_def bind_eq_Some_conv)
  have "queue_shape s' ps"
    using h(1) assms(2,3) q(2) cq.put_content [OF q(1)] by (auto simp: queue_shape_def in_set_conv_nth)
  then show "async_holds msgs s'"
    unfolding async_holds_def
    by (intro exI [of _ ps] exI [of _ ms] exI [of _ hand] exI [of _ sink]) (use h q(2) in \<open>auto simp: ac_simps\<close>)
  show "as_sink s' = as_sink s" "as_destructor s' = Joining" using q(2) by simp_all
qed

lemma zip_empty: "mset (zip ps (map (\<lambda>p. []) ps)) = {#(p, []). p \<in># mset ps#}"
  by (induction ps) simp_all

lemma holds_join:
  assumes "async_holds msgs s" "as_destructor s = Joining" "as_thread s = Finished"
  obtains s' where "destroy_members s = Some s'" "as_heap s' = Map.empty" "as_sink s' = None" "as_sink s = Some msgs"
    "as_destructor s' = Destroyed" "as_thread s' = Finished" "\<forall>c \<in> set (as_callers s'). c = Away"
proof -
  obtain ps ms hand sink where h: "queue_shape s ps" "length ms = length ps" "in_hand (as_thread s) hand"
    "owns (thread_owns (as_thread s) hand + ({#(p, []). p \<in># mset (as_pool s)#} + mset (zip ps ms) + callers_own s)) (as_heap s)"
    "as_sink s = Some sink" "sink @ hand @ ms = msgs" "messages_ok s"
    by (rule thread_turn [OF assms(1)])
  have q: "cq_queue (as_queue s) = []" "ps = []" "\<forall>c \<in> set (as_callers s). c = Away"
    using h(1) assms(2,3) by (simp_all add: queue_shape_def)
  have "callers_own s = {#}" using q(3) by (auto simp: callers_own_def sum_mset_0_iff)
  then have "owns (mset (zip (as_pool s) (map (\<lambda>p. []) (as_pool s))) + {#}) (as_heap s)"
    using h(2,4) q(2) assms(3) by (simp add: zip_empty)
  then obtain heap where heap: "delete_all (as_pool s) (as_heap s) = Some heap" "owns {#} heap"
    using owns_delete_all by fastforce
  have "hand = []" using h(3) assms(3) by (simp add: in_hand_def)
  with h(2,5,6) q(2) have "as_sink s = Some msgs" by simp
  then show thesis
    using that [of "s\<lparr>as_sink := None, as_pool := [], as_queue := (as_queue s)\<lparr>cq_queue := []\<rparr>, as_heap := heap, as_destructor := Destroyed\<rparr>"]
      heap(1) owns_empty [OF heap(2)] q assms(3) by (simp add: destroy_members_def map_filter_simps)
qed

lemma async_inv_alive:
  assumes "async_inv msgs ws s"
  shows "as_destructor s \<noteq> Destroyed \<Longrightarrow> async_holds msgs s \<and> as_sink s = Some ws"
    "as_thread s \<noteq> Finished \<Longrightarrow> as_destructor s \<noteq> Destroyed"
    "t < length (as_callers s) \<Longrightarrow> as_callers s ! t \<noteq> Away \<Longrightarrow> as_destructor s \<noteq> Destroyed"
  using assms by (auto simp: async_inv_def split: if_splits)

lemma async_invI:
  "async_holds msgs s \<Longrightarrow> as_sink s = Some ws \<Longrightarrow> as_destructor s \<noteq> Destroyed \<Longrightarrow> async_inv msgs ws s"
  by (simp add: async_inv_def)

lemma async_inv_step:
  assumes "async_step s l s'" "async_inv msgs ws s"
  shows "async_inv (msgs @ queued [l]) (ws @ written [l]) s'"
  using assms
proof (induction rule: async_step.induct)
  case (async_start t s msg fresh)
  note h = async_inv_alive(1) [OF async_start(6)]
  have "async_holds msgs (log_get t fresh msg s)" by (rule holds_start) (use async_start h in simp_all)
  then show ?case using async_start(3) h by (intro async_invI) (simp_all add: log_get_def split: prod.splits)
next
  case (async_fill t s p msg s')
  have d: "as_destructor s \<noteq> Destroyed" using async_inv_alive(3) [OF async_fill(4,1)] async_fill(2) by simp
  note h = async_inv_alive(1) [OF async_fill(4) d]
  obtain s1 where "log_fill t p msg s = Some s1" "async_holds msgs s1" "as_sink s1 = as_sink s" "as_destructor s1 = as_destructor s"
    by (rule holds_fill [OF _ async_fill(1,2)]) (use h in blast)+
  then show ?case using async_fill(3) h d by (intro async_invI) simp_all
next
  case (async_push t s p msg s')
  have d: "as_destructor s \<noteq> Destroyed" using async_inv_alive(3) [OF async_push(4,1)] async_push(2) by simp
  note h = async_inv_alive(1) [OF async_push(4) d]
  then show ?case using holds_push [OF conjunct1 [OF h] async_push(1,2,3)] d by (intro async_invI) simp_all
next
  case (async_pop s s')
  have d: "as_destructor s \<noteq> Destroyed" using async_inv_alive(2) [OF async_pop(3)] async_pop(1) by simp
  note h = async_inv_alive(1) [OF async_pop(3) d]
  then show ?case using holds_pop [OF conjunct1 [OF h] async_pop(1,2)] d by (intro async_invI) simp_all
next
  case (async_write s p bs s')
  have d: "as_destructor s \<noteq> Destroyed" using async_inv_alive(2) [OF async_write(3)] async_write(1) by simp
  note h = async_inv_alive(1) [OF async_write(3) d]
  obtain b1 s1 sink where "thread_write p s = Some (b1, s1)" "async_holds msgs s1" "as_sink s = Some sink" "as_sink s1 = Some (sink @ [b1])"
    "as_destructor s1 = as_destructor s"
    by (rule holds_write [OF _ async_write(1)]) (use h in blast)+
  then show ?case using async_write(2) h d by (intro async_invI) simp_all
next
  case (async_recycle s p)
  have d: "as_destructor s \<noteq> Destroyed" using async_inv_alive(2) [OF async_recycle(2)] async_recycle(1) by simp
  note h = async_inv_alive(1) [OF async_recycle(2) d]
  then show ?case using holds_recycle [OF conjunct1 [OF h] async_recycle(1)] d by (intro async_invI) (simp_all add: thread_recycle_def)
next
  case (async_destroy s s')
  have d: "as_destructor s \<noteq> Destroyed" using async_destroy(1) by simp
  note h = async_inv_alive(1) [OF async_destroy(4) d]
  show ?case using holds_destroy [OF conjunct1 [OF h] async_destroy(1,2,3)] h by (intro async_invI) simp_all
next
  case (async_join s s')
  note h = async_inv_alive(1) [OF async_join(4)]
  obtain s1 where "destroy_members s = Some s1" "as_heap s1 = Map.empty" "as_sink s1 = None" "as_sink s = Some msgs"
    "as_destructor s1 = Destroyed" "as_thread s1 = Finished" "\<forall>c \<in> set (as_callers s1). c = Away"
    by (rule holds_join [OF _ async_join(1,2)]) (use h async_join(1) in auto)
  then show ?case using async_join(1,3) h by (simp add: async_inv_def)
qed

lemma async_inv_new: "async_inv [] [] (async_new m n)"
proof -
  have "callers_own (async_new m n) = {#}" "messages_ok (async_new m n)" "owns {#} Map.empty"
    by (auto simp: callers_own_def messages_ok_def async_new_def owns_def sum_mset_0_iff)
  then have "async_holds [] (async_new m n)"
    unfolding async_holds_def by (intro exI [of _ "[]"]) (simp add: queue_shape_def in_hand_def async_new_def cq_new_def)
  then show ?thesis by (simp add: async_inv_def async_new_def)
qed

lemma async_inv_run: "run async_step (async_new m n) ls s \<Longrightarrow> async_inv (queued ls) (written ls) s"
  by (induction "async_new m n" ls s rule: run.induct)
    (auto simp: queued_append written_append async_inv_new dest: async_inv_step)

section \<open>Shutdown\<close>

definition async_left :: "async \<Rightarrow> nat" where
  "async_left s = 3 * length (cq_queue (as_queue s)) +
     (case as_thread s of Writing p \<Rightarrow> 2 | Recycling p \<Rightarrow> 1 | _ \<Rightarrow> 0) + (if as_destructor s = Joining then 1 else 0)"

definition closing :: "async \<Rightarrow> bool" where
  "closing s \<longleftrightarrow> as_destructor s \<noteq> Alive \<and> (\<forall>c \<in> set (as_callers s). c = Away)"

lemma closing_step:
  assumes "async_step s l s'" "closing s"
  shows "closing s' \<and> async_left s' < async_left s"
  using assms
proof (induction rule: async_step.induct)
  case (async_fill t s p msg s')
  then show ?case by (fastforce simp: closing_def dest: nth_mem)
next
  case (async_push t s p msg s')
  then show ?case by (fastforce simp: closing_def dest: nth_mem)
next
  case (async_pop s s')
  then show ?case
    by (auto simp: closing_def async_left_def thread_pop_def cq_pop_def bind_eq_Some_conv split: list.splits option.splits)
next
  case (async_write s p bs s')
  then show ?case by (auto simp: closing_def async_left_def thread_write_def bind_eq_Some_conv)
next
  case (async_recycle s p)
  then show ?case by (simp add: closing_def async_left_def thread_recycle_def)
next
  case (async_join s s')
  then show ?case by (auto simp: closing_def async_left_def destroy_members_def bind_eq_Some_conv)
qed (simp_all add: closing_def)

lemma closing_run: "run async_step s ls s' \<Longrightarrow> closing s \<Longrightarrow> closing s' \<and> length ls + async_left s' \<le> async_left s"
  by (induction rule: run.induct) (auto dest: closing_step)

lemma closing_progress:
  assumes "async_inv msgs ws s" "as_destructor s = Joining"
  shows "\<exists>l s'. async_step s l s'"
proof -
  have h: "async_holds msgs s" using assms by (simp add: async_inv_def)
  show ?thesis
  proof (cases "as_thread s")
    case Popping
    then obtain ps where "cq_queue (as_queue s) = map Some ps @ [None]"
      using h assms(2) by (auto simp: async_holds_def queue_shape_def)
    then obtain x q where "cq_pop (as_queue s) = Some (x, q)" using cq.take_some [of "as_queue s"] by auto
    then show ?thesis using async_pop [OF Popping] by (auto simp: thread_pop_def)
  next
    case (Writing p)
    then show ?thesis using holds_write [OF h Writing] async_write [OF Writing] by metis
  next
    case (Recycling p)
    then show ?thesis using async_recycle by blast
  next
    case Finished
    then show ?thesis using holds_join [OF h assms(2) Finished] async_join [OF assms(2) Finished] by metis
  qed
qed

section \<open>Properties\<close>

text \<open>
  C15 (functional): asynchronous logging loses nothing: whatever threads log at the same time, the messages that the adapted sink got are the
  ones that were queued, whole and in the order of the queue, up to those still waiting; when the destructor has returned all of
  them were written, and every buffer was deleted exactly once, and so was the sink.
\<close>

theorem async_log_delivers:
  assumes "run async_step (async_new m n) ls s"
  shows "(\<exists>rest. queued ls = written ls @ rest) \<and>
    (if as_destructor s = Destroyed then written ls = queued ls \<and> as_heap s = Map.empty \<and> as_sink s = None
     else as_sink s = Some (written ls))"
proof -
  have inv: "async_inv (queued ls) (written ls) s" by (rule async_inv_run [OF assms])
  show ?thesis
  proof (cases "as_destructor s = Destroyed")
    case True
    then show ?thesis using inv by (simp add: async_inv_def)
  next
    case False
    then have h: "async_holds (queued ls) s" "as_sink s = Some (written ls)" using inv by (simp_all add: async_inv_def)
    obtain hand sink ms where "as_sink s = Some sink" "sink @ hand @ ms = queued ls" by (rule thread_turn [OF h(1)])
    with h(2) False show ?thesis by (intro conjI exI [of _ "hand @ ms"]) simp_all
  qed
qed

text \<open>A run with one message, from its start to the end of the destructor.\<close>

abbreviation sample_async :: "nat option list \<Rightarrow> nat list \<Rightarrow> (nat \<rightharpoonup> dynamic_buffer) \<Rightarrow> caller \<Rightarrow> log_thread \<Rightarrow> destructor \<Rightarrow>
    bytes list option \<Rightarrow> async" where
  "sample_async q pool heap c th d sink \<equiv>
     \<lparr>as_queue = \<lparr>cq_queue = q, cq_max_size = 0, cq_is_bounded = False\<rparr>, as_pool = pool, as_heap = heap, as_callers = [c],
      as_thread = th, as_destructor = d, as_sink = sink\<rparr>"

lemma async_step_eq: "async_step s l s1 \<Longrightarrow> s1 = s2 \<Longrightarrow> async_step s l s2"
  by simp

abbreviation sample_events :: "bytes \<Rightarrow> event list" where
  "sample_events msg \<equiv> [Starts 0, Fills 0, Queues 0 msg, Pops, Writes msg]"

lemma sample_async_run:
  assumes "length msg < 2 ^ 31"
  obtains s s' where "run async_step (async_new 0 1) (sample_events msg) s" "as_destructor s = Alive"
    "run async_step s [Recycles, PushesNull] s'" "as_destructor s' = Joining" "length (cq_queue (as_queue s')) = 1"
    "\<exists>s2. run async_step s' [Pops, Joins] s2 \<and> as_destructor s2 = Destroyed"
proof -
  obtain b where b: "db_append (db_new 1024 1024) msg = Some b" "pooled b" "db_data b = msg"
    by (rule pooled_append [OF pooled_new db_data_new assms])
  let ?b = "db_read b (db_readableBytes b)"
  let ?s1 = "sample_async [] [] [0 \<mapsto> db_new 1024 1024] (Has 0 msg) Popping Alive (Some [])"
  let ?s2 = "sample_async [] [] [0 \<mapsto> b] (Filled 0 msg) Popping Alive (Some [])"
  let ?s3 = "sample_async [Some 0] [] [0 \<mapsto> b] Away Popping Alive (Some [])"
  let ?s4 = "sample_async [] [] [0 \<mapsto> b] Away (Writing 0) Alive (Some [])"
  let ?s5 = "sample_async [] [] [0 \<mapsto> ?b] Away (Recycling 0) Alive (Some [msg])"
  let ?s6 = "sample_async [] [0] [0 \<mapsto> ?b] Away Popping Alive (Some [msg])"
  let ?s7 = "sample_async [None] [0] [0 \<mapsto> ?b] Away Popping Joining (Some [msg])"
  let ?s8 = "sample_async [] [0] [0 \<mapsto> ?b] Away Finished Joining (Some [msg])"
  let ?s9 = "sample_async [] [] Map.empty Away Finished Destroyed None"
  have "async_step (async_new 0 1) (Starts 0) ?s1"
    by (rule async_step_eq [OF async_start [where msg = msg and fresh = 0]])
      (use assms in \<open>simp_all add: async_new_def log_get_def getObject_def cq_new_def\<close>)
  moreover have "async_step ?s1 (Fills 0) ?s2" by (rule async_fill [where p = 0 and msg = msg]) (use b in \<open>simp_all add: log_fill_def\<close>)
  moreover have "async_step ?s2 (Queues 0 msg) ?s3"
    by (rule async_push [where p = 0]) (simp_all add: log_push_def cq_push_def fullNoLock_def)
  moreover have "async_step ?s3 Pops ?s4" by (rule async_pop) (simp_all add: thread_pop_def cq_pop_def)
  moreover have "async_step ?s4 (Writes msg) ?s5"
    by (rule async_write [where p = 0]) (use b(3) pooled_read(2) [OF b(2)] in \<open>simp_all add: thread_write_def\<close>)
  ultimately have 1: "run async_step (async_new 0 1) (sample_events msg) ?s5" by (meson run_cons run_nil)
  have "async_step ?s5 Recycles ?s6"
    by (rule async_step_eq [OF async_recycle [where p = 0]]) (simp_all add: thread_recycle_def returnObject_def)
  moreover have "async_step ?s6 PushesNull ?s7" by (rule async_destroy) (simp_all add: destroy_push_def cq_push_def fullNoLock_def)
  ultimately have 2: "run async_step ?s5 [Recycles, PushesNull] ?s7" by (meson run_cons run_nil)
  have "async_step ?s7 Pops ?s8" by (rule async_pop) (simp_all add: thread_pop_def cq_pop_def)
  moreover have "async_step ?s8 Joins ?s9" by (rule async_join) (simp_all add: destroy_members_def map_filter_simps)
  ultimately have 3: "run async_step ?s7 [Pops, Joins] ?s9" by (meson run_cons run_nil)
  show thesis by (rule that [OF 1 _ 2]) (use 3 in \<open>auto intro!: exI [of _ ?s9]\<close>)
qed

theorem async_log_delivers_witness:
  "\<exists>s. run async_step (async_new 0 1) (sample_events [104, 105]) s \<and> as_sink s = Some [[104, 105]]"
proof -
  obtain s where s: "run async_step (async_new 0 1) (sample_events [104, 105]) s" "as_destructor s = Alive"
    by (rule sample_async_run [of "[104, 105]"]) simp_all
  then show ?thesis using async_log_delivers [OF s(1)] by auto
qed

text \<open>
  C16 (safety): no thread ever uses a buffer that is not there, although pointers go from thread to thread and back to the pool; and the
  destructor always ends: once it has pushed the null pointer a step is possible until everything is deleted, and at most
  three steps for each waiting message and three more are taken.
\<close>

theorem async_log_safe:
  assumes "run async_step (async_new m n) ls s"
  shows "(\<forall>t p msg. t < length (as_callers s) \<and> as_callers s ! t = Has p msg \<longrightarrow> log_fill t p msg s \<noteq> None) \<and>
    (\<forall>p. as_thread s = Writing p \<longrightarrow> thread_write p s \<noteq> None) \<and>
    (as_destructor s = Joining \<longrightarrow> (\<exists>l s'. async_step s l s') \<and>
      (\<forall>ls' s'. run async_step s ls' s' \<longrightarrow> length ls' \<le> 3 * length (cq_queue (as_queue s)) + 3))"
proof (intro conjI allI impI)
  have inv: "async_inv (queued ls) (written ls) s" by (rule async_inv_run [OF assms])
  show "log_fill t p msg s \<noteq> None" if t: "t < length (as_callers s) \<and> as_callers s ! t = Has p msg" for t p msg
  proof -
    have "async_holds (queued ls) s" using async_inv_alive(1,3) [OF inv] t by auto
    from holds_fill [OF this] t show ?thesis by (metis option.distinct(1))
  qed
  show "thread_write p s \<noteq> None" if th: "as_thread s = Writing p" for p
  proof -
    have "async_holds (queued ls) s" using async_inv_alive(1,2) [OF inv] th by auto
    from holds_write [OF this th] show ?thesis by (metis option.distinct(1))
  qed
  assume j: "as_destructor s = Joining"
  then show "\<exists>l s'. async_step s l s'" by (rule closing_progress [OF inv])
  have "closing s" using inv j by (auto simp: closing_def async_inv_def async_holds_def queue_shape_def)
  then have "length ls' \<le> async_left s" if "run async_step s ls' s'" for ls' s' using closing_run [OF that] by simp
  moreover have "async_left s \<le> 3 * length (cq_queue (as_queue s)) + 3" by (simp add: async_left_def split: log_thread.splits)
  ultimately show "length ls' \<le> 3 * length (cq_queue (as_queue s)) + 3" if "run async_step s ls' s'" for ls' s'
    using that le_trans by blast
qed

theorem async_log_safe_witness:
  "\<exists>s. as_destructor s = Joining \<and> (\<forall>ls' s'. run async_step s ls' s' \<longrightarrow> length ls' \<le> 6)"
proof -
  obtain s s' where s: "run async_step (async_new 0 1) (sample_events [104, 105]) s" "run async_step s [Recycles, PushesNull] s'"
    "as_destructor s' = Joining" "length (cq_queue (as_queue s')) = 1"
    by (rule sample_async_run [of "[104, 105]"]) simp_all
  have "run async_step (async_new 0 1) (sample_events [104, 105] @ [Recycles, PushesNull]) s'" by (rule run_append [OF s(2,1)])
  from async_log_safe [OF this] s(3,4) show ?thesis by (intro exI [of _ s']) simp
qed

end
