(* ===== verification/MessageQueue.thy ===== *)
theory MessageQueue
  imports ConcurrentQueue
begin

text \<open>
  Model of \<open>src/brickred/message_queue.h\<close> over \<open>self_pipe.cc\<close>: threads push messages into a concurrent queue and then write a
  byte into a pipe; the event loop sees the pipe readable, drains it and calls the receiver, which pops messages. The pipe holds at most
  \<open>room\<close> bytes and both ends are non-blocking: writing into a full pipe and reading from an empty one fail with \<open>EAGAIN\<close>.
\<close>

section \<open>The pipe\<close>

definition pipe_write :: "nat \<Rightarrow> nat \<Rightarrow> int \<times> nat" where
  "pipe_write room held = (if held < room then (1, held + 1) else (-1, held))"

definition pipe_read :: "nat \<Rightarrow> nat \<Rightarrow> int \<times> nat" where
  "pipe_read k held = (if held = 0 then (-1, held) else (int (min k held), held - min k held))"

section \<open>Threads\<close>

text \<open>A thread outside of \<open>push\<close>, or between the push into the queue and the write into the pipe.\<close>

datatype pusher = Off | Pushed

text \<open>The event loop: in \<open>epoll_wait\<close>, in the loop of \<open>pipeReadCallback\<close>, in the callback of the receiver.\<close>

datatype receiver = Polling | Draining | Receiving

record 'a mq =
  mq_queue :: "'a cq"
  mq_pipe :: nat
  mq_pushers :: "pusher list"
  mq_receiver :: receiver
  mq_has_callback :: bool

definition mq_new :: "nat \<Rightarrow> nat \<Rightarrow> bool \<Rightarrow> 'a mq" where
  "mq_new max_size n has_callback =
     \<lparr>mq_queue = cq_new max_size, mq_pipe = 0, mq_pushers = replicate n Off, mq_receiver = Polling, mq_has_callback = has_callback\<rparr>"

definition mq_push :: "nat \<Rightarrow> 'a \<Rightarrow> 'a mq \<Rightarrow> 'a mq option" where
  "mq_push t item s = map_option (\<lambda>q. s\<lparr>mq_queue := q, mq_pushers := (mq_pushers s)[t := Pushed]\<rparr>) (cq_push item (mq_queue s))"

definition mq_signal :: "nat \<Rightarrow> nat \<Rightarrow> 'a mq \<Rightarrow> 'a mq" where
  "mq_signal room t s = s\<lparr>mq_pipe := snd (pipe_write room (mq_pipe s)), mq_pushers := (mq_pushers s)[t := Off]\<rparr>"

definition mq_yield :: "nat \<Rightarrow> 'a mq \<Rightarrow> 'a mq" where
  "mq_yield room s = s\<lparr>mq_pipe := snd (pipe_write room (mq_pipe s))\<rparr>"

definition mq_pop :: "'a mq \<Rightarrow> 'a option \<times> 'a mq" where
  "mq_pop s = (case cq_popIfNotEmpty (mq_queue s) of (x, q) \<Rightarrow> (x, s\<lparr>mq_queue := q\<rparr>))"

text \<open>One turn of the loop of \<open>pipeReadCallback\<close>; behind it the callback is called when there is one.\<close>

definition mq_read :: "'a mq \<Rightarrow> 'a mq" where
  "mq_read s = (case pipe_read 1024 (mq_pipe s) of (n, held) \<Rightarrow>
     if n > 0 then s\<lparr>mq_pipe := held\<rparr>
     else s\<lparr>mq_receiver := (if mq_has_callback s then Receiving else Polling)\<rparr>)"

datatype 'a mq_event = Puts nat 'a | Signals nat | Yields | Wakes | Reads | Begins | Gets "'a option" | Ends

text \<open>
  \<open>room\<close> is the size of the pipe, \<open>ends\<close> what the receiver leaves in the queue when it returns.
\<close>

inductive mq_step :: "nat \<Rightarrow> ('a list \<Rightarrow> bool) \<Rightarrow> 'a mq \<Rightarrow> 'a mq_event \<Rightarrow> 'a mq \<Rightarrow> bool" for room ends where
  mq_put: "t < length (mq_pushers s) \<Longrightarrow> mq_pushers s ! t = Off \<Longrightarrow> mq_push t x s = Some s' \<Longrightarrow> mq_step room ends s (Puts t x) s'"
| mq_signal: "t < length (mq_pushers s) \<Longrightarrow> mq_pushers s ! t = Pushed \<Longrightarrow> mq_step room ends s (Signals t) (mq_signal room t s)"
| mq_yield: "mq_step room ends s Yields (mq_yield room s)"
| mq_wake: "mq_receiver s = Polling \<Longrightarrow> mq_pipe s > 0 \<Longrightarrow> mq_step room ends s Wakes (s\<lparr>mq_receiver := Draining\<rparr>)"
| mq_read: "mq_receiver s = Draining \<Longrightarrow> mq_receiver (mq_read s) \<noteq> Receiving \<Longrightarrow> mq_step room ends s Reads (mq_read s)"
| mq_begin: "mq_receiver s = Draining \<Longrightarrow> mq_receiver (mq_read s) = Receiving \<Longrightarrow> mq_step room ends s Begins (mq_read s)"
| mq_get: "mq_receiver s = Receiving \<Longrightarrow> mq_pop s = (x, s') \<Longrightarrow> mq_step room ends s (Gets x) s'"
| mq_end: "mq_receiver s = Receiving \<Longrightarrow> ends (cq_queue (mq_queue s)) \<Longrightarrow>
    mq_step room ends s Ends (s\<lparr>mq_receiver := Polling\<rparr>)"

section \<open>Histories\<close>

fun puts :: "'a mq_event list \<Rightarrow> 'a list" where
  "puts [] = []"
| "puts (Puts t x # ls) = x # puts ls"
| "puts (_ # ls) = puts ls"

fun gets :: "'a mq_event list \<Rightarrow> 'a list" where
  "gets [] = []"
| "gets (Gets (Some x) # ls) = x # gets ls"
| "gets (_ # ls) = gets ls"

text \<open>Whether a message was pushed since the receiver was called for the last time.\<close>

definition unseen :: "'a mq_event list \<Rightarrow> bool" where
  "unseen ls = fold (\<lambda>l b. case l of Puts t x \<Rightarrow> True | Begins \<Rightarrow> False | _ \<Rightarrow> b) ls False"

lemma puts_append: "puts (ls @ ls') = puts ls @ puts ls'"
  by (induction ls rule: puts.induct) simp_all

lemma gets_append: "gets (ls @ ls') = gets ls @ gets ls'"
  by (induction ls rule: gets.induct) simp_all

lemma unseen_snoc: "unseen (ls @ [l]) = (case l of Puts t x \<Rightarrow> True | Begins \<Rightarrow> False | _ \<Rightarrow> unseen ls)"
  by (cases l) (simp_all add: unseen_def)

lemma mq_step_history:
  assumes "mq_step room ends s l s'"
  shows "cq_queue (mq_queue s) @ puts [l] = gets [l] @ cq_queue (mq_queue s')"
  using assms
proof (induction rule: mq_step.induct)
  case (mq_put t s x s')
  then show ?case by (auto simp: mq_push_def dest: cq.put_content)
next
  case (mq_get s x s')
  then show ?case by (auto simp: mq_pop_def cq_popIfNotEmpty_def split: list.splits)
qed (simp_all add: mq_signal_def mq_yield_def mq_read_def split: prod.splits)

lemma mq_run_history:
  "run (mq_step room ends) s ls s' \<Longrightarrow> cq_queue (mq_queue s) = [] \<Longrightarrow> puts ls = gets ls @ cq_queue (mq_queue s')"
proof (induction rule: run.induct)
  case (run_snoc s ls s1 l s2)
  then show ?case using mq_step_history [OF run_snoc(2)] by (simp add: puts_append gets_append)
qed simp

text \<open>While a message is unseen, a byte is in the pipe or about to be written, or the loop is before the call of the receiver.\<close>

definition announced :: "'a mq \<Rightarrow> bool" where
  "announced s \<longleftrightarrow> mq_pipe s > 0 \<or> Pushed \<in> set (mq_pushers s) \<or> mq_receiver s = Draining"

definition mq_inv :: "('a list \<Rightarrow> bool) \<Rightarrow> bool \<Rightarrow> 'a mq \<Rightarrow> bool" where
  "mq_inv ends new s \<longleftrightarrow> mq_has_callback s \<and> (new \<longrightarrow> announced s) \<and>
     (announced s \<or> mq_receiver s = Receiving \<or> cq_queue (mq_queue s) = [] \<or> ends (cq_queue (mq_queue s)))"

lemma announced_update:
  "t < length (mq_pushers s) \<Longrightarrow> announced (s\<lparr>mq_queue := q, mq_pushers := (mq_pushers s)[t := Pushed]\<rparr>)"
  by (auto simp: announced_def set_update_memI)

lemma mq_inv_step:
  assumes "mq_step room ends s l s'" "0 < room" "mq_inv ends (unseen ls) s"
  shows "mq_inv ends (unseen (ls @ [l])) s'"
  using assms
proof (induction rule: mq_step.induct)
  case (mq_put t s x s')
  then show ?case by (auto simp: mq_inv_def unseen_snoc mq_push_def announced_update)
next
  case (mq_signal t s)
  then have "announced (mq_signal room t s)" by (simp add: announced_def mq_signal_def pipe_write_def)
  with mq_signal show ?case by (simp add: mq_inv_def unseen_snoc) (simp add: mq_signal_def)
next
  case (mq_yield s)
  then have "announced (mq_yield room s)" by (simp add: announced_def mq_yield_def pipe_write_def)
  with mq_yield show ?case by (simp add: mq_inv_def unseen_snoc) (simp add: mq_yield_def)
next
  case (mq_read s)
  then have "mq_receiver (mq_read s) = Draining" "mq_has_callback (mq_read s)"
    by (auto simp: mq_inv_def mq_read_def split: prod.splits if_splits)
  with mq_read show ?case by (simp add: mq_inv_def unseen_snoc announced_def)
next
  case (mq_begin s)
  then have "mq_has_callback (mq_read s)" by (auto simp: mq_inv_def mq_read_def split: prod.splits if_splits)
  with mq_begin show ?case by (simp add: mq_inv_def unseen_snoc)
next
  case (mq_get s x s')
  then show ?case by (auto simp: mq_inv_def unseen_snoc mq_pop_def announced_def split: prod.splits)
qed (auto simp: mq_inv_def unseen_snoc announced_def)

lemma mq_inv_run:
  fixes s :: "'a mq"
  assumes "run (mq_step room ends) (mq_new m n True) ls s" "0 < room"
  shows "mq_inv ends (unseen ls) s"
  using assms
proof (induction "mq_new m n True :: 'a mq" ls s rule: run.induct)
  case run_nil
  show ?case by (simp add: mq_inv_def mq_new_def unseen_def cq_new_def)
next
  case (run_snoc ls s1 l s2)
  then show ?case using mq_inv_step [of room ends s1 l s2 ls] by simp
qed

section \<open>Properties\<close>

text \<open>
  C17 (liveness): no message is stuck in the queue: however the threads interleave with the event loop, and although bytes of the pipe are
  dropped when it is full and drained many at a time, at rest, with the loop in \<open>epoll_wait\<close> on an empty pipe and no thread inside \<open>push\<close>, the receiver was
  called after the last push; so when it empties the queue before it returns, all messages were delivered, in their order.
\<close>

theorem message_queue_delivers:
  assumes "run (mq_step room ends) (mq_new m n True) ls s" "0 < room"
    "mq_receiver s = Polling" "mq_pipe s = 0" "\<forall>p \<in> set (mq_pushers s). p = Off"
  shows "\<not> unseen ls \<and> puts ls = gets ls @ cq_queue (mq_queue s) \<and> ((\<forall>xs. ends xs \<longrightarrow> xs = []) \<longrightarrow> gets ls = puts ls)"
proof -
  have "puts ls = gets ls @ cq_queue (mq_queue s)" using mq_run_history [OF assms(1)] by (simp add: mq_new_def cq_new_def)
  moreover have "\<not> announced s" using assms(3-5) by (auto simp: announced_def)
  ultimately show ?thesis using mq_inv_run [OF assms(1,2)] assms(3) by (auto simp: mq_inv_def)
qed

lemma mq_step_eq: "mq_step room ends s l s1 \<Longrightarrow> s1 = s2 \<Longrightarrow> mq_step room ends s l s2"
  by simp

abbreviation sample_mq :: "nat list \<Rightarrow> nat \<Rightarrow> pusher \<Rightarrow> receiver \<Rightarrow> nat mq" where
  "sample_mq q held p r \<equiv> \<lparr>mq_queue = \<lparr>cq_queue = q, cq_max_size = 0, cq_is_bounded = False\<rparr>, mq_pipe = held, mq_pushers = [p],
     mq_receiver = r, mq_has_callback = True\<rparr>"

theorem message_queue_delivers_witness:
  "gets [Puts 0 7, Signals 0, Wakes, Reads, Begins, Gets (Some (7::nat)), Ends] = [7] \<and>
    \<not> unseen [Puts 0 7, Signals 0, Wakes, Reads, Begins, Gets (Some (7::nat)), Ends]"
proof -
  let ?step = "mq_step 1 (\<lambda>xs. xs = ([] :: nat list))"
  have "?step (mq_new 0 1 True) (Puts 0 7) (sample_mq [7] 0 Pushed Polling)"
    by (rule mq_put) (simp_all add: mq_new_def cq_new_def mq_push_def cq_push_def fullNoLock_def)
  moreover have "?step (sample_mq [7] 0 Pushed Polling) (Signals 0) (sample_mq [7] 1 Off Polling)"
    by (rule mq_step_eq [OF mq_step.mq_signal]) (simp_all add: mq_signal_def pipe_write_def)
  moreover have "?step (sample_mq [7] 1 Off Polling) Wakes (sample_mq [7] 1 Off Draining)"
    by (rule mq_step_eq [OF mq_wake]) simp_all
  moreover have "?step (sample_mq [7] 1 Off Draining) Reads (sample_mq [7] 0 Off Draining)"
    by (rule mq_step_eq [OF mq_step.mq_read]) (simp_all add: mq_read_def pipe_read_def)
  moreover have "?step (sample_mq [7] 0 Off Draining) Begins (sample_mq [7] 0 Off Receiving)"
    by (rule mq_step_eq [OF mq_begin]) (simp_all add: mq_read_def pipe_read_def)
  moreover have "?step (sample_mq [7] 0 Off Receiving) (Gets (Some 7)) (sample_mq [] 0 Off Receiving)"
    by (rule mq_get) (simp_all add: mq_pop_def cq_popIfNotEmpty_def)
  moreover have "?step (sample_mq [] 0 Off Receiving) Ends (sample_mq [] 0 Off Polling)"
    by (rule mq_step_eq [OF mq_end]) simp_all
  ultimately have "run ?step (mq_new 0 1 True) [Puts 0 7, Signals 0, Wakes, Reads, Begins, Gets (Some 7), Ends] (sample_mq [] 0 Off Polling)"
    by (meson run_cons run_nil)
  from message_queue_delivers [OF this] show ?thesis by simp
qed

end
