(* ===== verification/LogCore.thy ===== *)
theory LogCore
  imports Prelude "HOL-Library.Multiset"
begin

text \<open>
  Model of \<open>src/brickred/log_core.cc\<close>: loggers in slots, each with a filter, an optional formatter and sinks with filters of their own. A
  message is formatted once, for the first sink that wants it, into a buffer of limited size. Sinks are pointers that
  the loggers own; the functions return which sinks are called, with the bytes they read, and which are deleted.
\<close>

section \<open>Formatting\<close>

text \<open>
  \<open>vsnprintf\<close> into a buffer: the result is the length of the whole text, negative on an error (\<open>None\<close>) and when it is
  no \<open>int\<close>; the buffer gets as much as fits before a terminating zero.
\<close>

definition vsnprintf :: "bytes option \<Rightarrow> bytes \<Rightarrow> int \<times> bytes" where
  "vsnprintf formatted buffer = (case formatted of
     None \<Rightarrow> (-1, buffer)
   | Some t \<Rightarrow>
       if length t \<ge> 2 ^ 31 then (-1, buffer)
       else let k = min (length t) (length buffer - 1)
            in (int (length t), take k t @ [0] @ drop (k + 1) buffer))"

section \<open>Loggers\<close>

text \<open>
  \<open>'f\<close> are the values of a \<open>LogFormatter\<close>; \<open>call\<close> is what they do: they fill the buffer and return a size. \<open>'h\<close> stands for level, file, line
  and function, \<open>'m\<close> for format and arguments, and \<open>text\<close> gives the formatted text.
\<close>

record 'f logger =
  lg_formatter :: "'f option"
  lg_level_filter :: int
  lg_max_log_size :: int
  lg_sinks :: "nat list"
  lg_sink_level_filters :: "int list"

record ('f, 'h, 'm) formatting =
  fm_call :: "'f \<Rightarrow> bytes \<Rightarrow> 'h \<Rightarrow> 'm \<Rightarrow> nat \<times> bytes"
  fm_text :: "'m \<Rightarrow> bytes option"
  fm_fresh :: "nat \<Rightarrow> bytes"

definition logger_new :: "'f option \<Rightarrow> int \<Rightarrow> int \<Rightarrow> 'f logger" where
  "logger_new formatter level_filter max_log_size =
     \<lparr>lg_formatter = formatter, lg_level_filter = level_filter, lg_max_log_size = (if max_log_size \<le> 0 then 1 else max_log_size),
      lg_sinks = [], lg_sink_level_filters = []\<rparr>"

text \<open>\<open>~Logger\<close>: the sinks that are deleted.\<close>

definition logger_delete :: "'f logger \<Rightarrow> nat list" where
  "logger_delete lg = lg_sinks lg"

definition logger_addSink :: "nat \<Rightarrow> int \<Rightarrow> 'f logger \<Rightarrow> bool \<times> 'f logger" where
  "logger_addSink sink level_filter lg =
     (True, lg\<lparr>lg_sinks := lg_sinks lg @ [sink], lg_sink_level_filters := lg_sink_level_filters lg @ [level_filter]\<rparr>)"

text \<open>
  The loop over the sinks; \<open>lazy\<close> formats the buffer and returns the count, \<open>None\<close> stands for a buffer that is not ready. A sink reads the count,
  taken as a \<open>size_t\<close>, from the buffer.
\<close>

fun sink_loop :: "int \<Rightarrow> int \<Rightarrow> (bytes \<Rightarrow> int \<times> bytes) \<Rightarrow> nat list \<Rightarrow> int list \<Rightarrow> bytes \<Rightarrow> int option \<Rightarrow>
    (nat \<times> bytes) list option" where
  "sink_loop level max_log_size lazy [] fs buffer ready = Some []"
| "sink_loop level max_log_size lazy (s # ss) [] buffer ready = None"
| "sink_loop level max_log_size lazy (s # ss) (f # fs) buffer ready =
     (if level < f then sink_loop level max_log_size lazy ss fs buffer ready
      else
        let (n, buffer) = (case ready of
              Some n \<Rightarrow> (n, buffer)
            | None \<Rightarrow> (case lazy buffer of (n, buffer) \<Rightarrow> (min n (max_log_size - 1), buffer)))
        in do {
          bs \<leftarrow> mem_read buffer 0 (nat (n mod 2 ^ 64));
          calls \<leftarrow> sink_loop level max_log_size lazy ss fs buffer (Some n);
          Some ((s, bs) # calls) })"

definition printed :: "('f, 'h, 'm) formatting \<Rightarrow> 'm \<Rightarrow> bytes \<Rightarrow> int \<times> bytes" where
  "printed fm msg buffer = (case vsnprintf (fm_text fm msg) buffer of (n, buffer) \<Rightarrow> (if n < 0 then 0 else n, buffer))"

definition logger_log :: "('f, 'h, 'm) formatting \<Rightarrow> int \<Rightarrow> 'h \<Rightarrow> 'm \<Rightarrow> 'f logger \<Rightarrow> (nat \<times> bytes) list option" where
  "logger_log fm level where_from msg lg =
     (if level < lg_level_filter lg then Some []
      else
        let lazy = (case lg_formatter lg of
              None \<Rightarrow> printed fm msg
            | Some f \<Rightarrow> (\<lambda>buffer. case fm_call fm f buffer where_from msg of (n, buffer) \<Rightarrow> (to_int32 n, buffer)))
        in sink_loop level (lg_max_log_size lg) lazy (lg_sinks lg) (lg_sink_level_filters lg)
             (fm_fresh fm (nat (lg_max_log_size lg))) None)"

definition logger_plainLog :: "('f, 'h, 'm) formatting \<Rightarrow> int \<Rightarrow> 'm \<Rightarrow> 'f logger \<Rightarrow> (nat \<times> bytes) list option" where
  "logger_plainLog fm level msg lg =
     (if level < lg_level_filter lg then Some []
      else sink_loop level (lg_max_log_size lg) (printed fm msg) (lg_sinks lg) (lg_sink_level_filters lg)
             (fm_fresh fm (nat (lg_max_log_size lg))) None)"

section \<open>The core\<close>

record 'f log_core =
  lc_loggers :: "'f logger option list"
  lc_max_log_size :: int

definition resize :: "nat \<Rightarrow> 'a \<Rightarrow> 'a list \<Rightarrow> 'a list" where
  "resize n x xs = take n xs @ replicate (n - length xs) x"

definition sinks_of :: "'f logger option \<Rightarrow> nat list" where
  "sinks_of slot = (case slot of None \<Rightarrow> [] | Some lg \<Rightarrow> logger_delete lg)"

text \<open>The functions that delete sinks return them.\<close>

definition setMaxLoggerCount :: "int \<Rightarrow> 'f log_core \<Rightarrow> nat list \<times> 'f log_core" where
  "setMaxLoggerCount k lc =
     (if k < 0 then ([], lc)
      else (if k < int (length (lc_loggers lc)) then concat (map sinks_of (drop (nat k) (lc_loggers lc))) else [],
            lc\<lparr>lc_loggers := resize (nat k) None (lc_loggers lc)\<rparr>))"

definition setMaxLogSize :: "int \<Rightarrow> 'f log_core \<Rightarrow> 'f log_core" where
  "setMaxLogSize n lc = (if n \<le> 0 then lc else lc\<lparr>lc_max_log_size := n\<rparr>)"

definition log_core_new :: "'f log_core" where
  "log_core_new = setMaxLogSize 4096 (snd (setMaxLoggerCount 1 \<lparr>lc_loggers = [], lc_max_log_size = 0\<rparr>))"

text \<open>The check of the identifier: the slot, when there is one.\<close>

definition slot :: "int \<Rightarrow> 'f log_core \<Rightarrow> 'f logger option option" where
  "slot logger_id lc =
     (if logger_id < 0 \<or> logger_id \<ge> int (length (lc_loggers lc)) then None else Some (lc_loggers lc ! nat logger_id))"

definition put_slot :: "int \<Rightarrow> 'f logger option \<Rightarrow> 'f log_core \<Rightarrow> 'f log_core" where
  "put_slot logger_id x lc = lc\<lparr>lc_loggers := (lc_loggers lc)[nat logger_id := x]\<rparr>"

definition registerLogger :: "int \<Rightarrow> 'f option \<Rightarrow> int \<Rightarrow> 'f log_core \<Rightarrow> bool \<times> 'f log_core" where
  "registerLogger logger_id formatter level_filter lc = (case slot logger_id lc of
     None \<Rightarrow> (False, lc)
   | Some (Some lg) \<Rightarrow> (False, lc)
   | Some None \<Rightarrow> (True, put_slot logger_id (Some (logger_new formatter level_filter (lc_max_log_size lc))) lc))"

definition removeLogger :: "int \<Rightarrow> 'f log_core \<Rightarrow> nat list \<times> 'f log_core" where
  "removeLogger logger_id lc = (case slot logger_id lc of
     None \<Rightarrow> ([], lc)
   | Some None \<Rightarrow> ([], lc)
   | Some (Some lg) \<Rightarrow> (logger_delete lg, put_slot logger_id None lc))"

definition addSink :: "int \<Rightarrow> nat \<Rightarrow> int \<Rightarrow> 'f log_core \<Rightarrow> bool \<times> 'f log_core" where
  "addSink logger_id sink level_filter lc = (case slot logger_id lc of
     None \<Rightarrow> (False, lc)
   | Some None \<Rightarrow> (False, lc)
   | Some (Some lg) \<Rightarrow> (case logger_addSink sink level_filter lg of (ok, lg) \<Rightarrow> (ok, put_slot logger_id (Some lg) lc)))"

definition core_log :: "('f, 'h, 'm) formatting \<Rightarrow> int \<Rightarrow> int \<Rightarrow> 'h \<Rightarrow> 'm \<Rightarrow> 'f log_core \<Rightarrow> (nat \<times> bytes) list option" where
  "core_log fm logger_id level where_from msg lc = (case slot logger_id lc of
     None \<Rightarrow> Some []
   | Some None \<Rightarrow> Some []
   | Some (Some lg) \<Rightarrow> logger_log fm level where_from msg lg)"

definition core_plainLog :: "('f, 'h, 'm) formatting \<Rightarrow> int \<Rightarrow> int \<Rightarrow> 'm \<Rightarrow> 'f log_core \<Rightarrow> (nat \<times> bytes) list option" where
  "core_plainLog fm logger_id level msg lc = (case slot logger_id lc of
     None \<Rightarrow> Some []
   | Some None \<Rightarrow> Some []
   | Some (Some lg) \<Rightarrow> logger_plainLog fm level msg lg)"

definition setLevelFilter :: "int \<Rightarrow> int \<Rightarrow> 'f log_core \<Rightarrow> 'f log_core" where
  "setLevelFilter logger_id level_filter lc = (case slot logger_id lc of
     None \<Rightarrow> lc
   | Some None \<Rightarrow> lc
   | Some (Some lg) \<Rightarrow> put_slot logger_id (Some (lg\<lparr>lg_level_filter := level_filter\<rparr>)) lc)"

definition core_delete :: "'f log_core \<Rightarrow> nat list" where
  "core_delete lc = concat (map sinks_of (lc_loggers lc))"

section \<open>What the sinks get\<close>

text \<open>A logger has a filter for every sink and room for the terminating zero.\<close>

definition logger_ok :: "'f logger \<Rightarrow> bool" where
  "logger_ok lg \<longleftrightarrow> length (lg_sinks lg) = length (lg_sink_level_filters lg) \<and> 0 < lg_max_log_size lg \<and> lg_max_log_size lg < 2 ^ 31"

text \<open>The sinks that want a message of a level, in order, with duplicates.\<close>

definition wanting :: "int \<Rightarrow> 'f logger \<Rightarrow> nat list" where
  "wanting level lg = (if level < lg_level_filter lg then []
     else map fst (filter (\<lambda>(s, f). f \<le> level) (zip (lg_sinks lg) (lg_sink_level_filters lg))))"

text \<open>
  What is taken for granted of a formatter: it keeps to its buffer and its result is an \<open>int\<close>. The documented result is the
  number of bytes, which may be more than the buffer has.
\<close>

definition formatter_ok :: "('f, 'h, 'm) formatting \<Rightarrow> bool" where
  "formatter_ok fm \<longleftrightarrow> (\<forall>n. length (fm_fresh fm n) = n) \<and>
     (\<forall>f buffer h msg. length (snd (fm_call fm f buffer h msg)) = length buffer \<and> fst (fm_call fm f buffer h msg) < 2 ^ 31)"

lemma sink_loop_ready:
  assumes "length ss = length fs" "0 \<le> n" "n < int (length buffer)" "length buffer < 2 ^ 31"
  shows "sink_loop level k lazy ss fs buffer (Some n) =
    Some (map (\<lambda>(s, f). (s, take (nat n) buffer)) (filter (\<lambda>(s, f). f \<le> level) (zip ss fs)))"
  using assms by (induction ss fs rule: list_induct2) (auto simp: mem_read_def)

lemma sink_loop_lazy:
  assumes "length ss = length fs" "lazy buffer = (n, buffer')" "0 \<le> n" "length buffer' = nat k" "0 < k" "k < 2 ^ 31"
  shows "sink_loop level k lazy ss fs buffer None =
    Some (map (\<lambda>(s, f). (s, take (nat (min n (k - 1))) buffer')) (filter (\<lambda>(s, f). f \<le> level) (zip ss fs)))"
  using assms(1)
proof (induction ss fs rule: list_induct2)
  case (Cons s ss f fs)
  have m: "0 \<le> min n (k - 1)" "min n (k - 1) < int (length buffer')" "length buffer' < 2 ^ 31" using assms by (auto simp: nat_less_iff)
  then have "mem_read buffer' 0 (nat (min n (k - 1) mod 2 ^ 64)) = Some (take (nat (min n (k - 1))) buffer')"
    by (simp add: mem_read_def)
  then show ?case
    using Cons sink_loop_ready [OF Cons.hyps m, of level k lazy] assms(2) by (simp add: Let_def)
qed simp

section \<open>Ownership of the sinks\<close>

definition live :: "'f log_core \<Rightarrow> nat multiset" where
  "live lc = (\<Sum>x \<in># mset (lc_loggers lc). mset (sinks_of x))"

definition core_ok :: "'f log_core \<Rightarrow> bool" where
  "core_ok lc \<longleftrightarrow> 0 \<le> lc_max_log_size lc \<and> lc_max_log_size lc < 2 ^ 31 \<and> (\<forall>lg. Some lg \<in> set (lc_loggers lc) \<longrightarrow> logger_ok lg)"

lemma live_concat: "live lc = mset (concat (map sinks_of (lc_loggers lc)))"
  by (simp add: live_def mset_concat image_mset.compositionality o_def sum_mset_sum_list flip: mset_map)

lemma live_put:
  assumes "slot i lc = Some x"
  shows "live (put_slot i y lc) + mset (sinks_of x) = live lc + mset (sinks_of y)"
proof -
  have i: "nat i < length (lc_loggers lc)" "x = lc_loggers lc ! nat i" using assms by (auto simp: slot_def split: if_splits)
  then have "mset (lc_loggers lc) = add_mset x (mset (lc_loggers lc) - {#x#})" by simp
  then have "live lc = mset (sinks_of x) + (\<Sum>x \<in># mset (lc_loggers lc) - {#x#}. mset (sinks_of x))"
    unfolding live_def by (metis image_mset_add_mset sum_mset.insert)
  then show ?thesis using i by (simp add: live_def put_slot_def mset_update ac_simps)
qed

lemma core_ok_put: "core_ok lc \<Longrightarrow> (\<And>lg. y = Some lg \<Longrightarrow> logger_ok lg) \<Longrightarrow> core_ok (put_slot i y lc)"
  by (auto simp: core_ok_def put_slot_def dest!: set_update_subset_insert [THEN subsetD])

lemma slot_ok: "core_ok lc \<Longrightarrow> slot i lc = Some (Some lg) \<Longrightarrow> logger_ok lg"
  by (auto simp: core_ok_def slot_def split: if_splits) (metis nat_less_iff not_le nth_mem)

text \<open>The calls that change the core; \<open>core_do\<close> returns the sinks that are taken over and those that are deleted as well.\<close>

datatype 'f core_call =
    SetMaxLoggerCount int
  | SetMaxLogSize int
  | RegisterLogger int "'f option" int
  | RemoveLogger int
  | AddSink int nat int
  | SetLevelFilter int int

fun core_do :: "'f core_call \<Rightarrow> 'f log_core \<Rightarrow> nat list \<times> nat list \<times> 'f log_core" where
  "core_do (SetMaxLoggerCount k) lc = (case setMaxLoggerCount k lc of (gone, lc) \<Rightarrow> ([], gone, lc))"
| "core_do (SetMaxLogSize n) lc = ([], [], setMaxLogSize n lc)"
| "core_do (RegisterLogger i f l) lc = ([], [], snd (registerLogger i f l lc))"
| "core_do (RemoveLogger i) lc = (case removeLogger i lc of (gone, lc) \<Rightarrow> ([], gone, lc))"
| "core_do (AddSink i sink l) lc = (case addSink i sink l lc of (ok, lc) \<Rightarrow> (if ok then [sink] else [], [], lc))"
| "core_do (SetLevelFilter i l) lc = ([], [], setLevelFilter i l lc)"

fun core_run :: "'f core_call list \<Rightarrow> 'f log_core \<Rightarrow> nat list \<times> nat list \<times> 'f log_core" where
  "core_run [] lc = ([], [], lc)"
| "core_run (c # cs) lc = (case core_do c lc of (taken, gone, lc) \<Rightarrow>
     (case core_run cs lc of (taken', gone', lc) \<Rightarrow> (taken @ taken', gone @ gone', lc)))"

text \<open>Sizes are \<open>int\<close> values.\<close>

definition call_ok :: "'f core_call \<Rightarrow> bool" where
  "call_ok c \<longleftrightarrow> (case c of SetMaxLogSize n \<Rightarrow> n < 2 ^ 31 | _ \<Rightarrow> True)"

lemma live_resize: "mset (concat (map sinks_of (resize k None xs))) = mset (concat (map sinks_of (take k xs)))"
  by (induction "k - length xs") (simp_all add: resize_def sinks_of_def mset_concat)

lemma setMaxLoggerCount_spec:
  assumes "core_ok lc" "setMaxLoggerCount k lc = (gone, lc')"
  shows "core_ok lc'" "live lc = live lc' + mset gone"
proof -
  have "live lc = live lc' + mset gone \<and> core_ok lc'"
  proof (cases "k < 0")
    case False
    then have lc': "lc' = lc\<lparr>lc_loggers := resize (nat k) None (lc_loggers lc)\<rparr>"
      and gone: "gone = (if k < int (length (lc_loggers lc)) then concat (map sinks_of (drop (nat k) (lc_loggers lc))) else [])"
      using assms(2) by (auto simp: setMaxLoggerCount_def)
    have "mset (concat (map sinks_of (lc_loggers lc))) =
      mset (concat (map sinks_of (take (nat k) (lc_loggers lc)))) + mset (concat (map sinks_of (drop (nat k) (lc_loggers lc))))"
      by (metis append_take_drop_id concat_append map_append mset_append)
    then have "live lc = live lc' + mset gone" using False lc' gone by (auto simp: live_concat live_resize)
    moreover have "core_ok lc'" using assms(1) lc' by (auto simp: core_ok_def resize_def dest: in_set_takeD)
    ultimately show ?thesis by blast
  qed (use assms in \<open>auto simp: setMaxLoggerCount_def\<close>)
  then show "core_ok lc'" "live lc = live lc' + mset gone" by blast+
qed

lemma core_do_spec:
  assumes "core_ok lc" "call_ok c" "core_do c lc = (taken, gone, lc')"
  shows "core_ok lc' \<and> live lc + mset taken = live lc' + mset gone"
proof (cases c)
  case (SetMaxLoggerCount k)
  then show ?thesis using assms(3) setMaxLoggerCount_spec [OF assms(1), of k] by (auto split: prod.splits)
next
  case (SetMaxLogSize n)
  then show ?thesis using assms by (auto simp: setMaxLogSize_def core_ok_def call_ok_def live_def split: if_splits)
next
  case (RegisterLogger i f l)
  have new: "logger_ok (logger_new f l (lc_max_log_size lc))" "sinks_of (Some (logger_new f l (lc_max_log_size lc))) = []"
    using assms(1) by (auto simp: logger_ok_def logger_new_def core_ok_def sinks_of_def logger_delete_def)
  show ?thesis
  proof (cases "slot i lc = Some None")
    case True
    then show ?thesis
      using RegisterLogger assms new core_ok_put [of lc] live_put [OF True] by (auto simp: registerLogger_def sinks_of_def)
  next
    case False
    then show ?thesis using RegisterLogger assms by (auto simp: registerLogger_def split: option.splits)
  qed
next
  case (RemoveLogger i)
  show ?thesis
  proof (cases "\<exists>lg. slot i lc = Some (Some lg)")
    case True
    then obtain lg where s: "slot i lc = Some (Some lg)" by blast
    then show ?thesis
      using RemoveLogger assms core_ok_put [of lc None] live_put [OF s, of None] by (auto simp: removeLogger_def sinks_of_def)
  next
    case False
    then show ?thesis using RemoveLogger assms by (auto simp: removeLogger_def split: option.splits)
  qed
next
  case (AddSink i sink l)
  show ?thesis
  proof (cases "\<exists>lg. slot i lc = Some (Some lg)")
    case True
    then obtain lg where s: "slot i lc = Some (Some lg)" by blast
    let ?lg = "snd (logger_addSink sink l lg)"
    have "logger_ok ?lg" "sinks_of (Some ?lg) = sinks_of (Some lg) @ [sink]"
      using slot_ok [OF assms(1) s] by (simp_all add: logger_ok_def logger_addSink_def sinks_of_def logger_delete_def)
    then show ?thesis
      using AddSink assms s core_ok_put [of lc "Some ?lg"] live_put [OF s, of "Some ?lg"] by (auto simp: addSink_def logger_addSink_def)
  next
    case False
    then show ?thesis using AddSink assms by (auto simp: addSink_def split: option.splits)
  qed
next
  case (SetLevelFilter i l)
  show ?thesis
  proof (cases "\<exists>lg. slot i lc = Some (Some lg)")
    case True
    then obtain lg where s: "slot i lc = Some (Some lg)" by blast
    let ?lg = "lg\<lparr>lg_level_filter := l\<rparr>"
    have "logger_ok ?lg" "sinks_of (Some ?lg) = sinks_of (Some lg)"
      using slot_ok [OF assms(1) s] by (simp_all add: logger_ok_def sinks_of_def logger_delete_def)
    then show ?thesis
      using SetLevelFilter assms s core_ok_put [of lc "Some ?lg"] live_put [OF s, of "Some ?lg"] by (auto simp: setLevelFilter_def)
  next
    case False
    then show ?thesis using SetLevelFilter assms by (auto simp: setLevelFilter_def split: option.splits)
  qed
qed

lemma core_run_spec:
  "core_ok lc \<Longrightarrow> \<forall>c \<in> set cs. call_ok c \<Longrightarrow> core_run cs lc = (taken, gone, lc') \<Longrightarrow> core_ok lc' \<and> live lc + mset taken = live lc' + mset gone"
proof (induction cs arbitrary: lc taken gone lc')
  case (Cons c cs)
  obtain t1 g1 lc1 where 1: "core_do c lc = (t1, g1, lc1)" by (metis prod_cases3)
  obtain t2 g2 lc2 where 2: "core_run cs lc1 = (t2, g2, lc2)" by (metis prod_cases3)
  have "core_ok lc1 \<and> live lc + mset t1 = live lc1 + mset g1" using core_do_spec [OF Cons.prems(1) _ 1] Cons.prems(2) by simp
  moreover have "core_ok lc1 \<Longrightarrow> core_ok lc2 \<and> live lc1 + mset t2 = live lc2 + mset g2" using Cons.IH [OF _ _ 2] Cons.prems(2) by simp
  moreover have "lc' = lc2" "taken = t1 @ t2" "gone = g1 @ g2" using Cons.prems(3) 1 2 by simp_all
  ultimately show ?case by (auto simp: ac_simps) (metis add.assoc add.commute)
qed simp

lemma core_new_ok: "core_ok log_core_new" "live log_core_new = {#}"
  by (auto simp: log_core_new_def setMaxLoggerCount_def setMaxLogSize_def core_ok_def live_def resize_def sinks_of_def)

section \<open>Properties\<close>

lemma printed_spec:
  assumes "length buffer = nat k" "0 < k"
  obtains n buffer' where "printed fm msg buffer = (n, buffer')" "0 \<le> n" "length buffer' = nat k"
    "\<forall>full. fm_text fm msg = Some full \<and> length full < 2 ^ 31 \<longrightarrow> take (nat (min n (k - 1))) buffer' = take (nat (k - 1)) full"
proof (cases "\<exists>full. fm_text fm msg = Some full \<and> length full < 2 ^ 31")
  case True
  then obtain full where full: "fm_text fm msg = Some full" "length full < 2 ^ 31" by blast
  let ?k = "min (length full) (length buffer - 1)"
  let ?b = "take ?k full @ [0] @ drop (?k + 1) buffer"
  have k: "nat (min (int (length full)) (k - 1)) = ?k" "?k \<le> length full" "nat (k - 1) = length buffer - 1" using assms by auto
  have "printed fm msg buffer = (int (length full), ?b)" using full by (simp add: printed_def vsnprintf_def Let_def)
  moreover have "length ?b = nat k" using assms by auto
  moreover have "take (nat (min (int (length full)) (k - 1))) ?b = take (nat (k - 1)) full" unfolding k by (simp add: min_def)
  ultimately show thesis using that [of "int (length full)" ?b] full by simp
next
  case False
  then have "printed fm msg buffer = (0, buffer)" by (auto simp: printed_def vsnprintf_def not_less split: option.splits)
  with that [of 0 buffer] assms False show thesis by auto
qed

lemma delivered:
  assumes "logger_ok lg" "lazy buffer = (n, buffer')" "0 \<le> n" "length buffer' = nat (lg_max_log_size lg)" "\<not> level < lg_level_filter lg"
  shows "sink_loop level (lg_max_log_size lg) lazy (lg_sinks lg) (lg_sink_level_filters lg) buffer None =
    Some (map (\<lambda>s. (s, take (nat (min n (lg_max_log_size lg - 1))) buffer')) (wanting level lg))"
  using sink_loop_lazy [of "lg_sinks lg" "lg_sink_level_filters lg" lazy buffer n buffer' "lg_max_log_size lg" level] assms
  by (simp add: logger_ok_def wanting_def o_def case_prod_unfold)

text \<open>
  C37 (functional): a message goes to exactly the sinks of its logger that want its level, in the order they were added, and only when the logger
  wants it; all of them get the same text, formatted once and cut to the size of the buffer less one, without the formatter when it is
  logged plainly; no access is outside the buffer, whatever length the formatter announces.
\<close>

theorem log_delivery:
  assumes "core_ok lc" "formatter_ok fm" "slot i lc = Some (Some lg)"
  shows "(\<exists>t. core_log fm i level h msg lc = Some (map (\<lambda>s. (s, t)) (wanting level lg)) \<and> int (length t) < lg_max_log_size lg \<and>
      (\<forall>full. lg_formatter lg = None \<and> fm_text fm msg = Some full \<and> length full < 2 ^ 31 \<longrightarrow> t = take (nat (lg_max_log_size lg - 1)) full)) \<and>
    (\<exists>t. core_plainLog fm i level msg lc = Some (map (\<lambda>s. (s, t)) (wanting level lg)) \<and> int (length t) < lg_max_log_size lg \<and>
      (\<forall>full. fm_text fm msg = Some full \<and> length full < 2 ^ 31 \<longrightarrow> t = take (nat (lg_max_log_size lg - 1)) full))"
proof -
  let ?k = "lg_max_log_size lg"
  let ?buffer = "fm_fresh fm (nat ?k)"
  have ok: "logger_ok lg" by (rule slot_ok [OF assms(1,3)])
  then have k: "0 < ?k" "?k < 2 ^ 31" by (simp_all add: logger_ok_def)
  have b: "length ?buffer = nat ?k" using assms(2) by (simp add: formatter_ok_def)
  obtain n buffer' where p: "printed fm msg ?buffer = (n, buffer')" "0 \<le> n" "length buffer' = nat ?k"
    "\<forall>full. fm_text fm msg = Some full \<and> length full < 2 ^ 31 \<longrightarrow> take (nat (min n (?k - 1))) buffer' = take (nat (?k - 1)) full"
    by (rule printed_spec [OF b k(1)]) blast
  let ?t = "take (nat (min n (?k - 1))) buffer'"
  have short: "int (length (take (nat (min m (?k - 1))) bs)) < ?k" for m bs using k(1) by (auto simp: min_def)
  have plain: "logger_plainLog fm level msg lg = Some (map (\<lambda>s. (s, ?t)) (wanting level lg))"
    using delivered [where lazy = "printed fm msg", OF ok p(1-3), of level] by (auto simp: logger_plainLog_def wanting_def)
  have "\<exists>t. logger_log fm level h msg lg = Some (map (\<lambda>s. (s, t)) (wanting level lg)) \<and> int (length t) < ?k \<and>
      (\<forall>full. lg_formatter lg = None \<and> fm_text fm msg = Some full \<and> length full < 2 ^ 31 \<longrightarrow> t = take (nat (?k - 1)) full)"
  proof (cases "lg_formatter lg")
    case None
    then have "logger_log fm level h msg lg = logger_plainLog fm level msg lg" by (simp add: logger_log_def logger_plainLog_def)
    with plain p(4) short show ?thesis by (intro exI [of _ ?t]) auto
  next
    case (Some f)
    obtain m bs where c: "fm_call fm f ?buffer h msg = (m, bs)" by (metis surj_pair)
    have m: "m < 2 ^ 31" "length bs = nat ?k"
      using assms(2) b c unfolding formatter_ok_def by (metis fst_conv, metis snd_conv)
    let ?lazy = "\<lambda>buffer. case fm_call fm f buffer h msg of (n, buffer) \<Rightarrow> (to_int32 n, buffer)"
    have "?lazy ?buffer = (int m, bs)" using c m(1) by (simp add: to_int32_small)
    from delivered [where lazy = ?lazy, OF ok this, of level] m(2)
    have "logger_log fm level h msg lg = Some (map (\<lambda>s. (s, take (nat (min (int m) (?k - 1))) bs)) (wanting level lg))"
      using Some by (auto simp: logger_log_def wanting_def)
    then show ?thesis using short Some by (intro exI [of _ "take (nat (min (int m) (?k - 1))) bs"]) auto
  qed
  with plain p(4) short show ?thesis using assms(3) by (auto simp: core_log_def core_plainLog_def)
qed

text \<open>A core with one logger and two sinks, the second for errors only, and a text that is cut.\<close>

definition sample_core :: "unit log_core" where
  "sample_core = snd (snd (core_run [SetMaxLogSize 4, RegisterLogger 0 None 0, AddSink 0 7 (-1), AddSink 0 8 3] log_core_new))"

definition sample_formatting :: "(unit, unit, bytes) formatting" where
  "sample_formatting = \<lparr>fm_call = (\<lambda>f buffer h msg. (0, buffer)), fm_text = Some, fm_fresh = (\<lambda>n. replicate n 0)\<rparr>"

theorem log_delivery_witness:
  "core_log sample_formatting 0 2 () (str ''hello'') sample_core = Some [(7, str ''hel'')] \<and>
    core_plainLog sample_formatting 0 3 (str ''hi'') sample_core = Some [(7, str ''hi''), (8, str ''hi'')]"
proof -
  let ?lg = "\<lparr>lg_formatter = None, lg_level_filter = 0, lg_max_log_size = 4, lg_sinks = [7, 8], lg_sink_level_filters = [-1, 3]\<rparr> :: unit logger"
  have c: "sample_core = \<lparr>lc_loggers = [Some ?lg], lc_max_log_size = 4\<rparr>"
    by (simp add: sample_core_def log_core_new_def setMaxLoggerCount_def setMaxLogSize_def resize_def registerLogger_def slot_def
        put_slot_def logger_new_def addSink_def logger_addSink_def)
  have "core_ok sample_core" "formatter_ok sample_formatting" "slot 0 sample_core = Some (Some ?lg)"
    by (simp_all add: c core_ok_def logger_ok_def formatter_ok_def sample_formatting_def slot_def)
  note d = log_delivery [OF this]
  have "wanting 2 ?lg = [7]" "wanting 3 ?lg = [7, 8]" by (simp_all add: wanting_def)
  with d [of 2 "()" "str ''hello''"] d [of 3 "()" "str ''hi''"] show ?thesis
    by (auto simp: sample_formatting_def str_def)
qed

lemma sink_loop_calls: "sink_loop level k lazy ss fs buffer ready = Some calls \<Longrightarrow> set (map fst calls) \<subseteq> set ss"
  by (induction level k lazy ss fs buffer ready arbitrary: calls rule: sink_loop.induct)
    (fastforce simp: bind_eq_Some_conv Let_def split: if_splits option.splits prod.splits)+

lemma live_slot: "slot i lc = Some (Some lg) \<Longrightarrow> set (lg_sinks lg) \<subseteq> set_mset (live lc)"
  by (auto simp: slot_def live_concat sinks_of_def logger_delete_def split: if_splits)
    (metis nat_less_iff not_le nth_mem option.case(2))

lemma logged_live:
  "core_log fm i level h msg lc = Some calls \<Longrightarrow> set (map fst calls) \<subseteq> set_mset (live lc)"
  "core_plainLog fm i level msg lc = Some calls \<Longrightarrow> set (map fst calls) \<subseteq> set_mset (live lc)"
  using live_slot [of i lc] sink_loop_calls
  by (fastforce simp: core_log_def core_plainLog_def logger_log_def logger_plainLog_def Let_def split: option.splits if_splits)+

text \<open>
  C38 (invariant): the core owns its sinks: over any sequence of calls, with any identifiers and sizes, the sinks that were taken over are those that
  are still there and those that were deleted, each once; the destructor deletes the rest; loggers keep a filter for every sink; and what is logged goes to sinks that are still there only.
\<close>

theorem log_core_owns_sinks:
  assumes "\<forall>c \<in> set cs. call_ok c" "core_run cs log_core_new = (taken, gone, lc)"
  shows "mset taken = live lc + mset gone \<and> mset (gone @ core_delete lc) = mset taken \<and> core_ok lc \<and>
    (\<forall>calls. core_log fm i level h msg lc = Some calls \<or> core_plainLog fm i level msg lc = Some calls \<longrightarrow>
      set (map fst calls) \<subseteq> set_mset (live lc))"
proof -
  have "core_ok lc \<and> mset taken = live lc + mset gone"
    using core_run_spec [OF core_new_ok(1) assms] by (simp add: core_new_ok(2))
  moreover have "mset (core_delete lc) = live lc" by (simp add: core_delete_def live_concat)
  ultimately show ?thesis using logged_live(1) [of fm i level h msg lc] logged_live(2) [of fm i level msg lc] by auto
qed

theorem log_core_owns_sinks_witness:
  "core_run [RegisterLogger 0 None 0, AddSink 0 7 0, AddSink 1 8 0, RemoveLogger 0, RegisterLogger 0 None 0, AddSink 0 9 0] (log_core_new :: unit log_core)
      = ([7, 9], [7], sample_core\<lparr>lc_loggers := [Some \<lparr>lg_formatter = None, lg_level_filter = 0, lg_max_log_size = 4096, lg_sinks = [9],
        lg_sink_level_filters = [0]\<rparr>], lc_max_log_size := 4096\<rparr>) \<and>
    core_ok (sample_core\<lparr>lc_loggers := [Some \<lparr>lg_formatter = None, lg_level_filter = 0, lg_max_log_size = 4096, lg_sinks = [9],
        lg_sink_level_filters = [0]\<rparr>], lc_max_log_size := 4096\<rparr>)"
proof -
  let ?cs = "[RegisterLogger 0 None 0, AddSink 0 7 0, AddSink 1 8 0, RemoveLogger 0, RegisterLogger 0 None 0, AddSink 0 9 0] :: unit core_call list"
  have r: "core_run ?cs log_core_new = ([7, 9], [7], sample_core\<lparr>lc_loggers := [Some \<lparr>lg_formatter = None, lg_level_filter = 0,
      lg_max_log_size = 4096, lg_sinks = [9], lg_sink_level_filters = [0]\<rparr>], lc_max_log_size := 4096\<rparr>)"
    by (simp add: sample_core_def log_core_new_def setMaxLoggerCount_def setMaxLogSize_def resize_def registerLogger_def removeLogger_def slot_def
        put_slot_def logger_new_def addSink_def logger_addSink_def logger_delete_def)
  have "\<forall>c \<in> set ?cs. call_ok c" by (simp add: call_ok_def)
  from log_core_owns_sinks [OF this r, of sample_formatting 0 0 "()" "[]"] r show ?thesis by blast
qed

end
