(* ===== verification/SocketAddress.thy ===== *)
theory SocketAddress
  imports StringUtil DynamicBuffer
begin

text \<open>
  Model of \<open>src/brickred/socket_address.cc\<close>: an address as text and port, as a native structure, or both; each form is made from the other when
  it is asked for. The conversions of the C library, \<open>inet_pton\<close>, \<open>inet_ntop\<close> and \<open>getaddrinfo\<close>, are parameters. The getters change the
  cached members, so they return the object as well.
\<close>

section \<open>Native addresses\<close>

text \<open>
  A \<open>struct sockaddr\<close> by its family. \<open>Inet\<close> is \<open>sockaddr_in\<close>: the port in network byte order, the bytes of the address, and
  the 8 bytes of \<open>sin_zero\<close>. \<open>Inet6\<close> is \<open>sockaddr_in6\<close>: the port, \<open>sin6_flowinfo\<close>, the address, \<open>sin6_scope_id\<close>.
  Other families are kept as their number. \<open>Unspec\<close> is the union after \<open>memset\<close>.
\<close>

datatype sockaddr = Unspec | Inet bytes bytes bytes | Inet6 bytes bytes bytes bytes | OtherFamily nat

datatype protocol = UNKNOWN | IP_V4 | IP_V6

definition htons :: "u16 \<Rightarrow> bytes" where
  "htons p = [ucast (drop_bit 8 p), ucast p]"

definition ntohs :: "bytes \<Rightarrow> u16" where
  "ntohs bs = push_bit 8 (ucast (bs ! 0)) OR ucast (bs ! 1)"

definition htonl :: "u32 \<Rightarrow> bytes" where
  "htonl a = [ucast (drop_bit 24 a), ucast (drop_bit 16 a), ucast (drop_bit 8 a), ucast a]"

definition ntohl :: "bytes \<Rightarrow> u32" where
  "ntohl bs = push_bit 24 (ucast (bs ! 0)) OR push_bit 16 (ucast (bs ! 1)) OR push_bit 8 (ucast (bs ! 2)) OR ucast (bs ! 3)"

text \<open>\<open>inet_pton\<close> and \<open>inet_ntop\<close> for the two families, and \<open>getaddrinfo\<close>; \<open>None\<close> where they fail.\<close>

record inet =
  pton4 :: "bytes \<Rightarrow> bytes option"
  pton6 :: "bytes \<Rightarrow> bytes option"
  ntop4 :: "bytes \<Rightarrow> bytes option"
  ntop6 :: "bytes \<Rightarrow> bytes option"
  addrinfo :: "bytes \<Rightarrow> sockaddr list option"

section \<open>State\<close>

record socket_address =
  sa_has_addr :: bool
  sa_ip :: bytes
  sa_port :: u16
  sa_has_native_addr :: bool
  sa_protocol :: protocol
  sa_native_addr :: sockaddr
  sa_native_addr_size :: nat

text \<open>\<open>sizeof\<close> of the two structures.\<close>

definition INET_SIZE :: nat where "INET_SIZE = 16"
definition INET6_SIZE :: nat where "INET6_SIZE = 28"

definition sa_new :: socket_address where
  "sa_new = \<lparr>sa_has_addr = False, sa_ip = [], sa_port = 0, sa_has_native_addr = False, sa_protocol = UNKNOWN,
     sa_native_addr = Unspec, sa_native_addr_size = 0\<rparr>"

definition sa_of :: "bytes \<Rightarrow> u16 \<Rightarrow> socket_address" where
  "sa_of ip port = \<lparr>sa_has_addr = True, sa_ip = ip, sa_port = port, sa_has_native_addr = False, sa_protocol = UNKNOWN,
     sa_native_addr = Unspec, sa_native_addr_size = 0\<rparr>"

section \<open>Translation\<close>

definition translateNativeAddressToAddress :: "inet \<Rightarrow> socket_address \<Rightarrow> socket_address" where
  "translateNativeAddressToAddress net s =
     (let s = s\<lparr>sa_ip := [], sa_port := 0\<rparr>;
          done_with = (\<lambda>ip port. s\<lparr>sa_ip := cstr ip, sa_port := ntohs port, sa_has_addr := True\<rparr>)
      in case (sa_protocol s, sa_native_addr s) of
           (IP_V4, Inet port a z) \<Rightarrow> (case ntop4 net a of None \<Rightarrow> s | Some ip \<Rightarrow> done_with ip port)
         | (IP_V6, Inet6 port flow a scope) \<Rightarrow> (case ntop6 net a of None \<Rightarrow> s | Some ip \<Rightarrow> done_with ip port)
         | _ \<Rightarrow> s)"

text \<open>The structure is zeroed first, so the members that no text has are zero.\<close>

definition translateAddressToNativeAddress :: "inet \<Rightarrow> socket_address \<Rightarrow> socket_address" where
  "translateAddressToNativeAddress net s =
     (let s = s\<lparr>sa_native_addr := Unspec, sa_protocol := UNKNOWN, sa_native_addr_size := 0\<rparr>
      in if 58 \<in> set (sa_ip s) then
           (case pton6 net (cstr (sa_ip s)) of
              None \<Rightarrow> s
            | Some a \<Rightarrow> s\<lparr>sa_native_addr := Inet6 (htons (sa_port s)) (replicate 4 0) a (replicate 4 0), sa_protocol := IP_V6, sa_native_addr_size := INET6_SIZE,
                sa_has_native_addr := True\<rparr>)
         else if 46 \<in> set (sa_ip s) then
           (case pton4 net (cstr (sa_ip s)) of
              None \<Rightarrow> s
            | Some a \<Rightarrow> s\<lparr>sa_native_addr := Inet (htons (sa_port s)) a (replicate 8 0), sa_protocol := IP_V4, sa_native_addr_size := INET_SIZE,
                sa_has_native_addr := True\<rparr>)
         else s)"

definition need_addr :: "inet \<Rightarrow> socket_address \<Rightarrow> socket_address" where
  "need_addr net s = (if \<not> sa_has_addr s \<and> sa_has_native_addr s then translateNativeAddressToAddress net s else s)"

definition need_native :: "inet \<Rightarrow> socket_address \<Rightarrow> socket_address" where
  "need_native net s = (if \<not> sa_has_native_addr s \<and> sa_has_addr s then translateAddressToNativeAddress net s else s)"

section \<open>Operations\<close>

definition getIp :: "inet \<Rightarrow> socket_address \<Rightarrow> bytes \<times> socket_address" where
  "getIp net s = (let s = need_addr net s in (sa_ip s, s))"

definition getPort :: "inet \<Rightarrow> socket_address \<Rightarrow> u16 \<times> socket_address" where
  "getPort net s = (let s = need_addr net s in (sa_port s, s))"

definition getProtocol :: "inet \<Rightarrow> socket_address \<Rightarrow> protocol \<times> socket_address" where
  "getProtocol net s = (let s = need_native net s in (sa_protocol s, s))"

definition setAddress :: "bytes \<Rightarrow> u16 \<Rightarrow> socket_address \<Rightarrow> socket_address" where
  "setAddress ip port s = s\<lparr>sa_ip := ip, sa_port := port, sa_has_addr := True, sa_has_native_addr := False\<rparr>"

text \<open>\<open>None\<close> is the null pointer.\<close>

definition getNativeAddress :: "inet \<Rightarrow> socket_address \<Rightarrow> sockaddr option \<times> socket_address" where
  "getNativeAddress net s =
     (let s = need_native net s
      in (if sa_protocol s = IP_V4 \<or> sa_protocol s = IP_V6 then Some (sa_native_addr s) else None, s))"

definition getNativeAddressSize :: "inet \<Rightarrow> socket_address \<Rightarrow> nat \<times> socket_address" where
  "getNativeAddressSize net s = (let s = need_native net s in (sa_native_addr_size s, s))"

definition setNativeAddress :: "sockaddr \<Rightarrow> socket_address \<Rightarrow> bool \<times> socket_address" where
  "setNativeAddress native_addr s = (case native_addr of
     Inet port a z \<Rightarrow> (True, s\<lparr>sa_protocol := IP_V4, sa_native_addr_size := INET_SIZE, sa_native_addr := native_addr,
       sa_has_addr := False, sa_has_native_addr := True\<rparr>)
   | Inet6 port flow a scope \<Rightarrow> (True, s\<lparr>sa_protocol := IP_V6, sa_native_addr_size := INET6_SIZE, sa_native_addr := native_addr,
       sa_has_addr := False, sa_has_native_addr := True\<rparr>)
   | _ \<Rightarrow> (False, s))"

definition getAddressByDomain :: "inet \<Rightarrow> bytes \<Rightarrow> socket_address list \<Rightarrow> bool \<times> socket_address list" where
  "getAddressByDomain net domain addr_list = (case addrinfo net (cstr domain) of
     None \<Rightarrow> (False, addr_list)
   | Some res \<Rightarrow> (True, addr_list @ map snd (filter fst (map (\<lambda>p. setNativeAddress p sa_new) res))))"

definition ipV4TextToBin :: "inet \<Rightarrow> bytes \<Rightarrow> u32 option" where
  "ipV4TextToBin net t = map_option ntohl (pton4 net (cstr t))"

definition ipV4BinToText :: "inet \<Rightarrow> u32 \<Rightarrow> bytes" where
  "ipV4BinToText net binary = (case ntop4 net (htonl binary) of None \<Rightarrow> [] | Some ip \<Rightarrow> cstr ip)"

definition ipV6TextToBin :: "inet \<Rightarrow> bytes \<Rightarrow> bytes option" where
  "ipV6TextToBin net t = pton6 net (cstr t)"

definition ipV6BinToText :: "inet \<Rightarrow> bytes \<Rightarrow> bytes" where
  "ipV6BinToText net binary = (case ntop6 net binary of None \<Rightarrow> [] | Some ip \<Rightarrow> cstr ip)"

section \<open>The C library\<close>

text \<open>
  What the library documents: the text of an address is read back as that address; a text of version 4 has a dot and no colon, one of version 6 a
  colon; texts have no zero byte; an address has 4 or 16 bytes.
\<close>

definition inet_ok :: "inet \<Rightarrow> bool" where
  "inet_ok net \<longleftrightarrow>
     (\<forall>a. length a = 4 \<longrightarrow> (\<exists>t. ntop4 net a = Some t \<and> pton4 net t = Some a \<and> 46 \<in> set t \<and> 58 \<notin> set t \<and> 0 \<notin> set t)) \<and>
     (\<forall>a. length a = 16 \<longrightarrow> (\<exists>t. ntop6 net a = Some t \<and> pton6 net t = Some a \<and> 58 \<in> set t \<and> 0 \<notin> set t)) \<and>
     (\<forall>t a. pton4 net t = Some a \<longrightarrow> length a = 4) \<and> (\<forall>t a. pton6 net t = Some a \<longrightarrow> length a = 16)"

lemma ntohs_htons [simp]: "ntohs (htons p) = p"
  using int16_join [of p] by (simp add: ntohs_def htons_def or.commute)

lemma htons_ntohs: "length bs = 2 \<Longrightarrow> htons (ntohs bs) = bs"
proof -
  assume "length bs = 2"
  then obtain a b where "bs = [a, b]" by (auto simp: numeral_2_eq_2 length_Suc_conv)
  moreover have "(ucast (drop_bit 8 (push_bit 8 (ucast a) OR ucast b :: u16)) :: byte) = a"
    by (rule bit_word_eqI) (auto simp: bit_simps dest: bit_imp_le_length)
  moreover have "(ucast (push_bit 8 (ucast a) OR ucast b :: u16) :: byte) = b"
    by (rule bit_word_eqI) (auto simp: bit_simps)
  ultimately show ?thesis by (simp add: htons_def ntohs_def)
qed

lemma ntohl_htonl [simp]: "ntohl (htonl a) = a"
  using int32_join [of a] by (simp add: ntohl_def htonl_def or.commute or.left_commute or.assoc)

lemma length_htonl [simp]: "length (htonl a) = 4"
  by (simp add: htonl_def)

section \<open>Round trips\<close>

text \<open>The native form of a text and a port.\<close>

definition native_of :: "inet \<Rightarrow> bytes \<Rightarrow> u16 \<Rightarrow> sockaddr option" where
  "native_of net ip port =
     (if 58 \<in> set ip then map_option (\<lambda>a. Inet6 (htons port) (replicate 4 0) a (replicate 4 0)) (pton6 net (cstr ip))
      else if 46 \<in> set ip then map_option (\<lambda>a. Inet (htons port) a (replicate 8 0)) (pton4 net (cstr ip)) else None)"

fun sockaddr_ok :: "sockaddr \<Rightarrow> bool" where
  "sockaddr_ok (Inet port a z) \<longleftrightarrow> length port = 2 \<and> length a = 4 \<and> length z = 8"
| "sockaddr_ok (Inet6 port flow a scope) \<longleftrightarrow> length port = 2 \<and> length flow = 4 \<and> length a = 16 \<and> length scope = 4"
| "sockaddr_ok _ \<longleftrightarrow> False"

fun family :: "sockaddr option \<Rightarrow> protocol" where
  "family (Some (Inet port a z)) = IP_V4"
| "family (Some (Inet6 port flow a scope)) = IP_V6"
| "family _ = UNKNOWN"

fun size_of :: "sockaddr option \<Rightarrow> nat" where
  "size_of (Some (Inet port a z)) = INET_SIZE"
| "size_of (Some (Inet6 port flow a scope)) = INET6_SIZE"
| "size_of _ = 0"

text \<open>What of a native address its text and port tell: not the flow information and not the scope.\<close>

fun plain :: "sockaddr \<Rightarrow> sockaddr" where
  "plain (Inet port a z) = Inet port a (replicate 8 0)"
| "plain (Inet6 port flow a scope) = Inet6 port (replicate 4 0) a (replicate 4 0)"
| "plain x = x"

lemma need_native_set:
  "need_native net (setAddress ip port s) = (let s = setAddress ip port s in
     case native_of net ip port of
       None \<Rightarrow> s\<lparr>sa_native_addr := Unspec, sa_protocol := UNKNOWN, sa_native_addr_size := 0\<rparr>
     | Some x \<Rightarrow> s\<lparr>sa_native_addr := x, sa_protocol := family (Some x), sa_native_addr_size := size_of (Some x), sa_has_native_addr := True\<rparr>)"
  by (cases "pton6 net (cstr ip)"; cases "pton4 net (cstr ip)")
    (auto simp: need_native_def setAddress_def translateAddressToNativeAddress_def native_of_def Let_def)

lemma cstr_text: "0 \<notin> set t \<Longrightarrow> cstr t = t"
  by (auto simp: cstr_def takeWhile_eq_all_conv)

lemma translate_native_fields [simp]:
  "sa_has_native_addr (translateNativeAddressToAddress net s) = sa_has_native_addr s"
  "sa_native_addr (translateNativeAddressToAddress net s) = sa_native_addr s"
  "sa_protocol (translateNativeAddressToAddress net s) = sa_protocol s"
  "sa_native_addr_size (translateNativeAddressToAddress net s) = sa_native_addr_size s"
  by (simp_all add: translateNativeAddressToAddress_def Let_def split: protocol.splits sockaddr.splits option.splits)

lemma need_addr_idem [simp]: "need_addr net (need_addr net s) = need_addr net s"
  by (auto simp: need_addr_def translateNativeAddressToAddress_def Let_def split: protocol.splits sockaddr.splits option.splits)

text \<open>The getters, which may run in any order between other calls.\<close>

datatype getter = GetIp | GetPort | GetProtocol | GetNativeAddress | GetNativeAddressSize

fun run_getter :: "inet \<Rightarrow> getter \<Rightarrow> socket_address \<Rightarrow> socket_address" where
  "run_getter net GetIp s = snd (getIp net s)"
| "run_getter net GetPort s = snd (getPort net s)"
| "run_getter net GetProtocol s = snd (getProtocol net s)"
| "run_getter net GetNativeAddress s = snd (getNativeAddress net s)"
| "run_getter net GetNativeAddressSize s = snd (getNativeAddressSize net s)"

definition run_getters :: "inet \<Rightarrow> getter list \<Rightarrow> socket_address \<Rightarrow> socket_address" where
  "run_getters net gs s = fold (run_getter net) gs s"

lemmas getter_defs = getIp_def getPort_def getProtocol_def getNativeAddress_def getNativeAddressSize_def Let_def

lemma run_getter_cases: "run_getter net g s = need_addr net s \<or> run_getter net g s = need_native net s"
  by (cases g) (simp_all add: getter_defs)

lemma run_getters_stay:
  assumes "\<And>s. s \<in> A \<Longrightarrow> need_addr net s \<in> A \<and> need_native net s \<in> A"
  shows "s \<in> A \<Longrightarrow> run_getters net gs s \<in> A"
  unfolding run_getters_def
proof (induction gs arbitrary: s)
  case (Cons g gs)
  have "run_getter net g s \<in> A" using assms [OF Cons.prems] run_getter_cases [of net g s] by auto
  from Cons.IH [OF this] show ?case by simp
qed simp

lemma need_native_idem: "need_native net (need_native net (setAddress ip port s)) = need_native net (setAddress ip port s)"
  by (cases "native_of net ip port") (auto simp: need_native_set Let_def, auto simp: need_native_def translateAddressToNativeAddress_def native_of_def setAddress_def Let_def)

text \<open>After a text: in any order of getters the answers are those of the text.\<close>

lemma getters_of_text:
  assumes "t = run_getters net gs (setAddress ip port s)"
  shows "fst (getIp net t) = ip" "fst (getPort net t) = port" "fst (getNativeAddress net t) = native_of net ip port"
    "fst (getProtocol net t) = family (native_of net ip port)" "fst (getNativeAddressSize net t) = size_of (native_of net ip port)"
proof -
  let ?S = "setAddress ip port s"
  let ?N = "need_native net ?S"
  have addr: "need_addr net u = u" if "sa_has_addr u" for u using that by (simp add: need_addr_def)
  have has: "sa_has_addr ?S" "sa_has_addr ?N" "sa_ip ?N = ip" "sa_port ?N = port"
    unfolding need_native_set by (cases "native_of net ip port"; simp add: setAddress_def Let_def)+
  have "t \<in> {?S, ?N}" unfolding assms
    by (rule run_getters_stay) (use addr has need_native_idem in auto)
  then have t: "need_native net t = ?N" "sa_ip t = ip" "sa_port t = port" "need_addr net t = t"
    using need_native_idem [of net ip port s] addr has by (auto simp: setAddress_def)
  show "fst (getIp net t) = ip" "fst (getPort net t) = port" using t by (simp_all add: getter_defs)
  have n: "sa_protocol ?N = family (native_of net ip port)" "sa_native_addr_size ?N = size_of (native_of net ip port)"
    "native_of net ip port = Some x \<Longrightarrow> sa_native_addr ?N = x" for x
    unfolding need_native_set by (cases "native_of net ip port"; simp add: Let_def)+
  show "fst (getProtocol net t) = family (native_of net ip port)" "fst (getNativeAddressSize net t) = size_of (native_of net ip port)"
    using t(1) n by (simp_all add: getter_defs)
  have "family (native_of net ip port) = IP_V4 \<or> family (native_of net ip port) = IP_V6 \<longleftrightarrow> native_of net ip port \<noteq> None"
    by (cases "pton6 net (cstr ip)"; cases "pton4 net (cstr ip)") (auto simp: native_of_def)
  then show "fst (getNativeAddress net t) = native_of net ip port"
    using t(1) n by (cases "native_of net ip port") (auto simp: getter_defs)
qed

text \<open>After a native address: it is given back as it is, and its text and port are those that stand for its plain form.\<close>

lemma text_of_native:
  assumes "inet_ok net" "sockaddr_ok x"
  shows "native_of net (sa_ip (need_addr net (snd (setNativeAddress x s)))) (sa_port (need_addr net (snd (setNativeAddress x s)))) = Some (plain x)"
proof (cases x)
  case (Inet p a z)
  then have p: "length p = 2" "length a = 4" using assms(2) by simp_all
  then obtain t where "ntop4 net a = Some t" "pton4 net t = Some a" "46 \<in> set t" "58 \<notin> set t" "0 \<notin> set t"
    using assms(1) unfolding inet_ok_def by blast
  with Inet p show ?thesis
    by (simp add: need_addr_def setNativeAddress_def translateNativeAddressToAddress_def native_of_def cstr_text htons_ntohs Let_def)
next
  case (Inet6 p flow a scope)
  then have p: "length p = 2" "length a = 16" using assms(2) by simp_all
  then obtain t where "ntop6 net a = Some t" "pton6 net t = Some a" "58 \<in> set t" "0 \<notin> set t"
    using assms(1) unfolding inet_ok_def by blast
  with Inet6 p show ?thesis
    by (simp add: need_addr_def setNativeAddress_def translateNativeAddressToAddress_def native_of_def cstr_text htons_ntohs Let_def)
qed (use assms(2) in simp_all)

lemma getters_of_native:
  assumes "inet_ok net" "sockaddr_ok x" "t = run_getters net gs (snd (setNativeAddress x s))"
  shows "fst (getNativeAddress net t) = Some x" "fst (getProtocol net t) = family (Some x)" "fst (getNativeAddressSize net t) = size_of (Some x)"
    "native_of net (fst (getIp net t)) (fst (getPort net t)) = Some (plain x)"
proof -
  let ?S = "snd (setNativeAddress x s)"
  let ?A = "need_addr net ?S"
  have S: "sa_has_native_addr ?S" "sa_native_addr ?S = x" "sa_protocol ?S = family (Some x)" "sa_native_addr_size ?S = size_of (Some x)"
    using assms(2) by (cases x; simp add: setNativeAddress_def)+
  have A: "sa_has_native_addr ?A" "sa_native_addr ?A = x" "sa_protocol ?A = family (Some x)" "sa_native_addr_size ?A = size_of (Some x)"
    using S by (simp_all add: need_addr_def)
  have native: "need_native net u = u" if "sa_has_native_addr u" for u using that by (simp add: need_native_def)
  have "t \<in> {?S, ?A}" unfolding assms(3)
    by (rule run_getters_stay) (use native S(1) A(1) in auto)
  then have t: "need_native net t = t" "need_addr net t = ?A" "sa_native_addr t = x" "sa_protocol t = family (Some x)" "sa_native_addr_size t = size_of (Some x)"
    using S A native by auto
  show "fst (getProtocol net t) = family (Some x)" "fst (getNativeAddressSize net t) = size_of (Some x)"
    using t by (simp_all add: getter_defs)
  show "fst (getNativeAddress net t) = Some x" using t assms(2) by (cases x) (simp_all add: getter_defs)
  show "native_of net (fst (getIp net t)) (fst (getPort net t)) = Some (plain x)"
    using t(2) text_of_native [OF assms(1,2)] by (simp add: getter_defs)
qed

section \<open>Properties\<close>

text \<open>
  C39 (roundtrip): the two forms of an address agree, whatever was in the object before, and whichever getters ran in between, in
  any number and order. After a text, the native form is that of the text (with no flow information and no scope), with family and size, or the null
  pointer when the text is not an address. A native address that was set is given back with all its members, and its text and port, set in another
  object, give it back with the flow information and the scope zeroed: a text does not carry them, so a
  link-local address loses its scope on the way. The conversions of numbers are inverse for both versions.
\<close>

theorem socket_address_roundtrip:
  assumes "inet_ok net" "sockaddr_ok x"
  shows "(let t = run_getters net gs (setAddress ip port s)
      in fst (getIp net t) = ip \<and> fst (getPort net t) = port \<and> fst (getNativeAddress net t) = native_of net ip port \<and>
         fst (getProtocol net t) = family (native_of net ip port) \<and> fst (getNativeAddressSize net t) = size_of (native_of net ip port)) \<and>
    (let t = run_getters net gs (snd (setNativeAddress x s))
      in fst (getNativeAddress net t) = Some x \<and> fst (getProtocol net t) = family (Some x) \<and> fst (getNativeAddressSize net t) = size_of (Some x) \<and>
         fst (getNativeAddress net (run_getters net gs' (setAddress (fst (getIp net t)) (fst (getPort net t)) s'))) = Some (plain x)) \<and>
    ipV4TextToBin net (ipV4BinToText net n) = Some n \<and> (length bs = 16 \<longrightarrow> ipV6TextToBin net (ipV6BinToText net bs) = Some bs)"
proof -
  obtain t where t: "ntop4 net (htonl n) = Some t" "pton4 net t = Some (htonl n)" "0 \<notin> set t"
    using assms(1) length_htonl unfolding inet_ok_def by blast
  have v4: "ipV4TextToBin net (ipV4BinToText net n) = Some n" using t by (simp add: ipV4TextToBin_def ipV4BinToText_def cstr_text)
  have v6: "ipV6TextToBin net (ipV6BinToText net bs) = Some bs" if len: "length bs = 16"
  proof -
    obtain t where "ntop6 net bs = Some t" "pton6 net t = Some bs" "0 \<notin> set t"
      using assms(1) len unfolding inet_ok_def by blast
    then show ?thesis by (simp add: ipV6TextToBin_def ipV6BinToText_def cstr_text)
  qed
  show ?thesis
    using getters_of_text [OF refl, of net gs ip port s] getters_of_text(3) [OF refl, where net = net and gs = gs' and s = s']
      getters_of_native [OF assms refl, of gs s] v4 v6
    by (simp add: Let_def)
qed

text \<open>A library to run the code with: it writes an address as a mark for its version and two letters for every byte.\<close>

definition letters :: "byte \<Rightarrow> bytes" where
  "letters b = [65 + drop_bit 4 b, 65 + (b AND 15)]"

fun from_letters :: "bytes \<Rightarrow> bytes" where
  "from_letters (a # b # cs) = (push_bit 4 (a - 65) OR (b - 65)) # from_letters cs"
| "from_letters _ = []"

definition read_letters :: "byte \<Rightarrow> nat \<Rightarrow> bytes \<Rightarrow> bytes option" where
  "read_letters mark n t = (if t \<noteq> [] \<and> hd t = mark \<and> length (from_letters (tl t)) = n then Some (from_letters (tl t)) else None)"

definition write_letters :: "byte \<Rightarrow> bytes \<Rightarrow> bytes" where
  "write_letters mark a = mark # concat (map letters a)"

definition sample_inet :: inet where
  "sample_inet = \<lparr>pton4 = read_letters 46 4, pton6 = read_letters 58 16, ntop4 = (\<lambda>a. Some (write_letters 46 a)),
     ntop6 = (\<lambda>a. Some (write_letters 58 a)), addrinfo = (\<lambda>d. Some [Inet [0, 80] [127, 0, 0, 1] (replicate 8 0), OtherFamily 1])\<rparr>"

lemma from_letters_letters [simp]: "from_letters (concat (map letters a)) = a"
proof (induction a)
  case (Cons b a)
  have "push_bit 4 (drop_bit 4 b) OR (b AND 15) = b"
  proof (rule bit_word_eqI)
    fix n
    have m: "(15 :: byte) = mask 4" by (simp add: mask_eq_exp_minus_1)
    show "bit (push_bit 4 (drop_bit 4 b) OR (b AND 15)) n = bit b n"
      unfolding m by (cases "n < 4") (auto simp: bit_simps dest: bit_imp_le_length)
  qed
  with Cons show ?case by (simp add: letters_def)
qed simp

lemma letters_range: "c \<in> set (concat (map letters a)) \<Longrightarrow> c \<noteq> 0 \<and> c \<noteq> 46 \<and> c \<noteq> 58"
proof -
  assume "c \<in> set (concat (map letters a))"
  then obtain x where x: "c = 65 + x" "x \<le> 15"
  proof (clarsimp simp: letters_def)
    fix b :: byte
    have "unat b < 256" using unsigned_less [of b] by simp
    then have "drop_bit 4 b \<le> 15" by (simp add: word_le_nat_alt drop_bit_eq_div unat_div)
    moreover have "b AND 15 \<le> 15" by (rule word_and_le1)
    moreover assume "\<And>x. c = 65 + x \<Longrightarrow> x \<le> 15 \<Longrightarrow> thesis" "c = 65 + drop_bit 4 b \<or> c = 65 + (b AND 15)"
    ultimately show thesis by blast
  qed
  then have "x = c - 65" by simp
  then show ?thesis using x(2) by auto
qed

lemma sample_inet_ok: "inet_ok sample_inet"
proof -
  have "read_letters m n (write_letters m a) = Some a" if "length a = n" for m n a using that by (simp add: read_letters_def write_letters_def)
  then show ?thesis using letters_range
    by (auto simp: inet_ok_def sample_inet_def write_letters_def) (auto simp: read_letters_def split: if_splits)
qed

theorem socket_address_roundtrip_witness:
  "let x = Inet6 [0x1F, 0x90] [0, 0, 0, 7] (0xFE # 0x80 # replicate 13 0 @ [1]) [0, 0, 0, 2];
       t = run_getters sample_inet [GetPort, GetNativeAddress] (snd (setNativeAddress x sa_new))
   in fst (getNativeAddress sample_inet t) = Some x \<and>
      fst (getNativeAddress sample_inet (setAddress (fst (getIp sample_inet t)) (fst (getPort sample_inet t)) sa_new)) =
        Some (Inet6 [0x1F, 0x90] [0, 0, 0, 0] (0xFE # 0x80 # replicate 13 0 @ [1]) [0, 0, 0, 0])"
proof -
  have "run_getters sample_inet [] s = s" for s by (simp add: run_getters_def)
  then show ?thesis
    using socket_address_roundtrip [OF sample_inet_ok, of "Inet6 [0x1F, 0x90] [0, 0, 0, 7] (0xFE # 0x80 # replicate 13 0 @ [1]) [0, 0, 0, 2]"
        "[GetPort, GetNativeAddress]" "[]" 0 sa_new "[]" sa_new 0 "[]"]
    by (simp add: Let_def numeral_eq_Suc)
qed

end
