(* ===== verification/LogFileSink.thy ===== *)
theory LogFileSink
  imports Prelude
begin

text \<open>
  Model of \<open>src/brickred/log_file_sink.cc\<close> over a small model of \<open>stdio\<close>: open streams with their paths, and the contents of the files. The path of
  the moment, which the code makes with \<open>Timestamp::format\<close>, and whether \<open>fopen\<close> succeeds are inputs of each call.
\<close>

section \<open>Streams\<close>

record files =
  fs_streams :: "nat \<rightharpoonup> bytes"
  fs_data :: "bytes \<Rightarrow> bytes"

text \<open>\<open>fopen\<close> for appending returns the unused stream \<open>fp\<close>; closing or writing what is not open is \<open>None\<close>.\<close>

definition fopen :: "nat \<Rightarrow> bytes \<Rightarrow> files \<Rightarrow> files" where
  "fopen fp path fs = fs\<lparr>fs_streams := (fs_streams fs)(fp \<mapsto> path)\<rparr>"

definition fclose :: "nat \<Rightarrow> files \<Rightarrow> files option" where
  "fclose fp fs = (if fs_streams fs fp = None then None else Some (fs\<lparr>fs_streams := (fs_streams fs)(fp := None)\<rparr>))"

definition fwrite :: "bytes \<Rightarrow> nat option \<Rightarrow> files \<Rightarrow> files option" where
  "fwrite bs stream fs = do {
     fp \<leftarrow> stream;
     path \<leftarrow> fs_streams fs fp;
     Some (fs\<lparr>fs_data := (fs_data fs)(path := fs_data fs path @ bs)\<rparr>) }"

section \<open>The sink\<close>

record file_sink =
  lf_actual_file_path :: bytes
  lf_fp :: "nat option"

definition file_sink_new :: file_sink where
  "file_sink_new = \<lparr>lf_actual_file_path = [], lf_fp = None\<rparr>"

definition file_sink_delete :: "file_sink \<Rightarrow> files \<Rightarrow> files option" where
  "file_sink_delete s fs = (case lf_fp s of None \<Rightarrow> Some fs | Some fp \<Rightarrow> fclose fp fs)"

text \<open>\<open>opened\<close>: the stream that \<open>fopen\<close> returns, or \<open>None\<close>.\<close>

definition openFile :: "bytes \<Rightarrow> nat option \<Rightarrow> file_sink \<Rightarrow> files \<Rightarrow> (bool \<times> file_sink \<times> files) option" where
  "openFile path opened s fs =
     (if lf_actual_file_path s = path then Some (True, s, fs)
      else
        let s = s\<lparr>lf_actual_file_path := path\<rparr>
        in case opened of
             None \<Rightarrow> Some (False, s, fs)
           | Some fp \<Rightarrow> do {
               let fs = fopen fp path fs;
               fs \<leftarrow> (case lf_fp s of None \<Rightarrow> Some fs | Some old \<Rightarrow> fclose old fs);
               Some (True, s\<lparr>lf_fp := Some fp\<rparr>, fs) })"

definition file_log :: "bytes \<Rightarrow> nat option \<Rightarrow> bytes \<Rightarrow> file_sink \<times> files \<Rightarrow> (file_sink \<times> files) option" where
  "file_log path opened buffer = (\<lambda>(s, fs). do {
     (ok, s, fs) \<leftarrow> openFile path opened s fs;
     if \<not> ok then Some (s, fs)
     else do {
       fs \<leftarrow> fwrite buffer (lf_fp s) fs;
       Some (s, fs) } })"

text \<open>A sequence of messages with the paths of their moments.\<close>

fun file_logs :: "(bytes \<times> nat option \<times> bytes) list \<Rightarrow> file_sink \<times> files \<Rightarrow> (file_sink \<times> files) option" where
  "file_logs [] st = Some st"
| "file_logs ((path, opened, buffer) # ms) st = do { st \<leftarrow> file_log path opened buffer st; file_logs ms st }"

section \<open>One file at a time\<close>

text \<open>The sink has the stream of its path and no other stream of the given set is its own.\<close>

definition file_ok :: "(nat \<rightharpoonup> bytes) \<Rightarrow> file_sink \<Rightarrow> files \<Rightarrow> bool" where
  "file_ok others s fs \<longleftrightarrow> (case lf_fp s of
     None \<Rightarrow> fs_streams fs = others \<and> lf_actual_file_path s = []
   | Some fp \<Rightarrow> others fp = None \<and> fs_streams fs = others(fp \<mapsto> lf_actual_file_path s))"

text \<open>\<open>fopen\<close> succeeds with a stream that is not in use, whenever the path changes; no path is empty.\<close>

fun opens_ok :: "(nat \<rightharpoonup> bytes) \<Rightarrow> nat option \<Rightarrow> bytes \<Rightarrow> (bytes \<times> nat option \<times> bytes) list \<Rightarrow> bool" where
  "opens_ok others cur last_path [] \<longleftrightarrow> True"
| "opens_ok others cur last_path ((path, opened, buffer) # ms) \<longleftrightarrow> path \<noteq> [] \<and>
     (if path = last_path then opens_ok others cur path ms
      else (\<exists>fp. opened = Some fp \<and> others fp = None \<and> cur \<noteq> Some fp \<and> opens_ok others (Some fp) path ms))"

lemma file_log_ok:
  assumes "file_ok others s fs" "path \<noteq> []"
    "path \<noteq> lf_actual_file_path s \<Longrightarrow> \<exists>fp. opened = Some fp \<and> others fp = None \<and> lf_fp s \<noteq> Some fp"
  shows "\<exists>s' fs'. file_log path opened buffer (s, fs) = Some (s', fs') \<and> file_ok others s' fs' \<and> lf_actual_file_path s' = path \<and>
    fs_data fs' = (fs_data fs)(path := fs_data fs path @ buffer) \<and> lf_fp s' = (if path = lf_actual_file_path s then lf_fp s else opened)"
proof (cases "path = lf_actual_file_path s")
  case True
  then show ?thesis using assms(1,2)
    by (auto simp: file_log_def openFile_def fwrite_def file_ok_def split: option.splits)
next
  case False
  then obtain fp where fp: "opened = Some fp" "others fp = None" "lf_fp s \<noteq> Some fp" using assms(3) by blast
  show ?thesis
  proof (cases "lf_fp s")
    case None
    with False fp assms(1) show ?thesis
      by (auto simp: file_log_def openFile_def fwrite_def file_ok_def fopen_def Let_def)
  next
    case (Some old)
    with False fp assms(1) show ?thesis
      by (auto simp: file_log_def openFile_def fwrite_def file_ok_def fopen_def fclose_def Let_def fun_eq_iff)
  qed
qed

text \<open>What a path gets.\<close>

definition logged_to :: "bytes \<Rightarrow> (bytes \<times> nat option \<times> bytes) list \<Rightarrow> bytes" where
  "logged_to path ms = concat (map (snd \<circ> snd) (filter (\<lambda>m. fst m = path) ms))"

lemma file_logs_ok:
  "file_ok others s fs \<Longrightarrow> opens_ok others (lf_fp s) (lf_actual_file_path s) ms \<Longrightarrow>
     \<exists>s' fs'. file_logs ms (s, fs) = Some (s', fs') \<and> file_ok others s' fs' \<and> (\<forall>path. fs_data fs' path = fs_data fs path @ logged_to path ms)"
proof (induction ms arbitrary: s fs)
  case (Cons m ms)
  obtain path opened buffer where m: "m = (path, opened, buffer)" by (metis prod_cases3)
  obtain s1 fs1 where 1: "file_log path opened buffer (s, fs) = Some (s1, fs1)" "file_ok others s1 fs1" "lf_actual_file_path s1 = path"
    "fs_data fs1 = (fs_data fs)(path := fs_data fs path @ buffer)" "lf_fp s1 = (if path = lf_actual_file_path s then lf_fp s else opened)"
    using file_log_ok [OF Cons.prems(1), of path opened buffer] Cons.prems(2) m by (auto split: if_splits)
  moreover have "opens_ok others (lf_fp s1) (lf_actual_file_path s1) ms" using Cons.prems(2) m 1(3,5) by (auto split: if_splits)
  ultimately obtain s' fs' where "file_logs ms (s1, fs1) = Some (s', fs')" "file_ok others s' fs'"
    "\<forall>path. fs_data fs' path = fs_data fs1 path @ logged_to path ms"
    using Cons.IH by blast
  with 1 m show ?case by (auto simp: logged_to_def)
qed (simp add: logged_to_def)

section \<open>Properties\<close>

text \<open>
  C40 (functional): as long as files can be opened, every message is appended, whole and in order, to the file of its moment and to no other; one file is
  open at a time, and the destructor closes the last one, so that the other streams of the program are as before.
\<close>

theorem file_sink_appends:
  assumes "opens_ok (fs_streams fs) None [] ms"
  shows "\<exists>s' fs'. file_logs ms (file_sink_new, fs) = Some (s', fs') \<and> (\<forall>path. fs_data fs' path = fs_data fs path @ logged_to path ms) \<and>
    (\<exists>fs2. file_sink_delete s' fs' = Some fs2 \<and> fs_streams fs2 = fs_streams fs \<and> fs_data fs2 = fs_data fs')"
proof -
  have "file_ok (fs_streams fs) file_sink_new fs" by (simp add: file_ok_def file_sink_new_def)
  then obtain s' fs' where s: "file_logs ms (file_sink_new, fs) = Some (s', fs')" "file_ok (fs_streams fs) s' fs'"
    "\<forall>path. fs_data fs' path = fs_data fs path @ logged_to path ms"
    using file_logs_ok [of "fs_streams fs" file_sink_new fs ms] assms by (auto simp: file_sink_new_def)
  then have "\<exists>fs2. file_sink_delete s' fs' = Some fs2 \<and> fs_streams fs2 = fs_streams fs \<and> fs_data fs2 = fs_data fs'"
    by (auto simp: file_sink_delete_def file_ok_def fclose_def fun_eq_iff split: option.splits)
  with s show ?thesis by blast
qed

theorem file_sink_appends_witness:
  "\<exists>s' fs'. file_logs [([97], Some 1, [1, 2]), ([97], None, [3]), ([98], Some 2, [4])] (file_sink_new, \<lparr>fs_streams = Map.empty, fs_data = (\<lambda>p. [])\<rparr>)
      = Some (s', fs') \<and> fs_data fs' [97] = [1, 2, 3] \<and> fs_data fs' [98] = [4]"
  using file_sink_appends [of "\<lparr>fs_streams = Map.empty, fs_data = (\<lambda>p. [])\<rparr>" "[([97], Some 1, [1, 2]), ([97], None, [3]), ([98], Some 2, [4])]"]
  by (auto simp: logged_to_def)

text \<open>
  The path is remembered before the file is open: when \<open>fopen\<close> fails, the message is dropped, but the next message of the same moment is written to a null
  stream, or to the file of an earlier moment when there is one.
\<close>

lemma file_sink_reopen:
  assumes "path \<noteq> []"
  shows "file_logs [(path, None, m1), (path, opened, m2)] (file_sink_new, fs) = None"
    "old \<noteq> path \<Longrightarrow> fs_streams fs fp = Some old \<Longrightarrow>
       file_logs [(path, None, m1), (path, opened, m2)] (\<lparr>lf_actual_file_path = old, lf_fp = Some fp\<rparr>, fs)
         = Some (\<lparr>lf_actual_file_path = path, lf_fp = Some fp\<rparr>, fs\<lparr>fs_data := (fs_data fs)(old := fs_data fs old @ m2)\<rparr>)"
  using assms by (simp_all add: file_log_def openFile_def file_sink_new_def fwrite_def Let_def)

end
