(* ===== verification/SignalQueue.thy ===== *)
theory SignalQueue
  imports ConcurrentQueue DynamicBuffer
begin

text \<open>
  Model of \<open>src/brickred/signal_queue.cc\<close> over \<open>self_pipe.cc\<close>: signal handlers write the number of the signal into a pipe, and the event loop reads the numbers
  and calls the receiver. The pipe holds bytes; a write of up to \<open>PIPE_BUF\<close> bytes goes in whole or not at all, and both ends are
  non-blocking.
\<close>

section \<open>The pipe\<close>

definition pipe_put :: "nat \<Rightarrow> bytes \<Rightarrow> bytes \<Rightarrow> int \<times> bytes" where
  "pipe_put room bs held = (if length held + length bs \<le> room then (int (length bs), held @ bs) else (-1, held))"

definition pipe_get :: "nat \<Rightarrow> bytes \<Rightarrow> int \<times> bytes \<times> bytes" where
  "pipe_get k held = (if held = [] then (-1, [], held) else (int (min k (length held)), take k held, drop k held))"

section \<open>Signals\<close>

text \<open>The bytes of an \<open>int\<close> in memory, and back; the memory behind a short read keeps what it had.\<close>

definition int_bytes :: "u32 \<Rightarrow> bytes" where
  "int_bytes v = int32_bytes v True"

definition int_of_bytes :: "bytes \<Rightarrow> u32" where
  "int_of_bytes bs = ucast (bs ! 0) OR push_bit 8 (ucast (bs ! 1)) OR push_bit 16 (ucast (bs ! 2)) OR push_bit 24 (ucast (bs ! 3))"

record signal_queue =
  sq_pipe :: bytes
  sq_signum :: bytes
  sq_reading :: bool
  sq_has_callback :: bool

definition sq_new :: "bool \<Rightarrow> signal_queue" where
  "sq_new has_callback = \<lparr>sq_pipe = [], sq_signum = [0, 0, 0, 0], sq_reading = False, sq_has_callback = has_callback\<rparr>"

definition sq_push :: "nat \<Rightarrow> u32 \<Rightarrow> signal_queue \<Rightarrow> bool \<times> signal_queue" where
  "sq_push room signum s = (case pipe_put room (int_bytes signum) (sq_pipe s) of (n, held) \<Rightarrow> (n > 0, s\<lparr>sq_pipe := held\<rparr>))"

text \<open>One turn of the loop of \<open>pipeReadCallback\<close>: the number for the receiver, when one was read and there is a receiver.\<close>

definition sq_read :: "signal_queue \<Rightarrow> u32 option \<times> signal_queue" where
  "sq_read s = (case pipe_get 4 (sq_pipe s) of (n, bs, held) \<Rightarrow>
     if n > 0 then
       let signum = bs @ drop (length bs) (sq_signum s)
       in (if sq_has_callback s then Some (int_of_bytes signum) else None, s\<lparr>sq_pipe := held, sq_signum := signum\<rparr>)
     else (None, s\<lparr>sq_reading := False\<rparr>))"

datatype signal_event = Raises u32 bool | Wakeup | Receives "u32 option"

inductive signal_step :: "nat \<Rightarrow> signal_queue \<Rightarrow> signal_event \<Rightarrow> signal_queue \<Rightarrow> bool" for room where
  signal_raise: "sq_push room signum s = (ok, s') \<Longrightarrow> signal_step room s (Raises signum ok) s'"
| signal_wake: "\<not> sq_reading s \<Longrightarrow> sq_pipe s \<noteq> [] \<Longrightarrow>
    signal_step room s Wakeup (s\<lparr>sq_reading := True, sq_signum := [0, 0, 0, 0]\<rparr>)"
| signal_read: "sq_reading s \<Longrightarrow> sq_read s = (x, s') \<Longrightarrow> signal_step room s (Receives x) s'"

fun raised :: "signal_event list \<Rightarrow> u32 list" where
  "raised [] = []"
| "raised (Raises v True # ls) = v # raised ls"
| "raised (_ # ls) = raised ls"

fun received :: "signal_event list \<Rightarrow> u32 list" where
  "received [] = []"
| "received (Receives (Some v) # ls) = v # received ls"
| "received (_ # ls) = received ls"

lemma raised_append: "raised (ls @ ls') = raised ls @ raised ls'"
  by (induction ls rule: raised.induct) simp_all

lemma received_append: "received (ls @ ls') = received ls @ received ls'"
  by (induction ls rule: received.induct) simp_all

lemma length_int_bytes4 [simp]: "length (int_bytes v) = 4"
  by (simp add: int_bytes_def)

lemma int_of_int_bytes [simp]: "int_of_bytes (int_bytes v) = v"
  using int32_join [of v] by (simp add: int_of_bytes_def int_bytes_def int32_bytes_def upt_rec)

text \<open>The pipe holds whole numbers.\<close>

definition signal_inv :: "u32 list \<Rightarrow> u32 list \<Rightarrow> signal_queue \<Rightarrow> bool" where
  "signal_inv xs ys s \<longleftrightarrow> sq_has_callback s \<and> length (sq_signum s) = 4 \<and>
     (\<exists>vs. sq_pipe s = concat (map int_bytes vs) \<and> xs = ys @ vs)"

lemma signal_inv_step:
  assumes "signal_step room s l s'" "signal_inv xs ys s"
  shows "signal_inv (xs @ raised [l]) (ys @ received [l]) s'"
  using assms
proof (induction rule: signal_step.induct)
  case (signal_raise signum s ok s')
  then obtain vs where vs: "sq_pipe s = concat (map int_bytes vs)" "xs = ys @ vs" by (auto simp: signal_inv_def)
  show ?case
  proof (cases ok)
    case True
    then have "s' = s\<lparr>sq_pipe := concat (map int_bytes (vs @ [signum]))\<rparr>"
      using signal_raise(1) vs by (auto simp: sq_push_def pipe_put_def split: if_splits)
    with signal_raise(2) True vs show ?thesis by (auto simp: signal_inv_def intro!: exI [of _ "vs @ [signum]"])
  next
    case False
    then have "s' = s" using signal_raise(1) by (auto simp: sq_push_def pipe_put_def split: if_splits)
    with signal_raise(2) False show ?thesis by (simp add: signal_inv_def)
  qed
next
  case (signal_read s x s')
  then obtain vs where vs: "sq_pipe s = concat (map int_bytes vs)" "xs = ys @ vs" "sq_has_callback s" "length (sq_signum s) = 4"
    by (auto simp: signal_inv_def)
  show ?case
  proof (cases vs)
    case Nil
    with signal_read vs show ?thesis by (auto simp: sq_read_def pipe_get_def signal_inv_def)
  next
    case (Cons v ws)
    have "int_bytes v \<noteq> []" using length_int_bytes4 [of v] by (metis list.size(3) zero_neq_numeral)
    then have "sq_pipe s = int_bytes v @ concat (map int_bytes ws)" "sq_pipe s \<noteq> []" using vs(1) Cons by auto
    then have "pipe_get 4 (sq_pipe s) = (4, int_bytes v, concat (map int_bytes ws))"
      unfolding pipe_get_def by (simp only: if_False) simp
    then have "x = Some v" "s' = s\<lparr>sq_pipe := concat (map int_bytes ws), sq_signum := int_bytes v\<rparr>"
      using signal_read(2) vs(3,4) by (simp_all add: sq_read_def Let_def)
    with vs Cons show ?thesis by (auto simp: signal_inv_def)
  qed
qed (auto simp: signal_inv_def)

lemma signal_inv_run: "run (signal_step room) (sq_new True) ls s \<Longrightarrow> signal_inv (raised ls) (received ls) s"
proof (induction "sq_new True" ls s rule: run.induct)
  case run_nil
  show ?case by (simp add: signal_inv_def sq_new_def exI [of _ "[]"])
next
  case (run_snoc ls s1 l s2)
  then show ?case using signal_inv_step [of room s1 l s2] by (simp add: raised_append received_append)
qed

text \<open>
  The receiver gets exactly the signals that went into the pipe, each number whole and in order: nothing is split, although the pipe is a stream of bytes.
  A signal that finds the pipe full is dropped without notice.
\<close>

lemma signals_in_order:
  assumes "run (signal_step room) (sq_new True) ls s"
  shows "\<exists>vs. raised ls = received ls @ vs \<and> sq_pipe s = concat (map int_bytes vs)" "sq_pipe s = [] \<Longrightarrow> received ls = raised ls"
proof -
  obtain vs where vs: "raised ls = received ls @ vs" "sq_pipe s = concat (map int_bytes vs)"
    using signal_inv_run [OF assms] by (auto simp: signal_inv_def)
  then show "\<exists>vs. raised ls = received ls @ vs \<and> sq_pipe s = concat (map int_bytes vs)" by blast
  assume "sq_pipe s = []"
  then have "vs = []" using vs(2) length_int_bytes4 by (cases vs) (auto simp del: length_int_bytes4, metis length_int_bytes4 list.size(3) zero_neq_numeral)
  with vs(1) show "received ls = raised ls" by simp
qed

end
