(* ===== verification/Spec2Isabelle.thy ===== *)
theory Spec2Isabelle
  imports DynamicBuffer StringUtil OrderedMap HttpMessage HttpProtocol Codec Base64 Url StreamHash Md5 Sha1 Sha256 WebSocketHandshake TimerQueue RankCopy TcpProperties CommandLineOption Mt19937 LogAsyncSink MessageQueue LogCore SocketAddress LogFileSink SignalQueue
begin

text \<open>
  Verification library for brickred-server, an event-driven network server library in C++
  (\<open>src/brickred\<close>). The program is a set of classes used by one event loop: \<open>TcpService\<close> and
  \<open>IOService\<close> move bytes between sockets and a \<open>DynamicBuffer\<close> per connection; the protocol
  classes (\<open>HttpProtocol\<close>, \<open>WebSocketProtocol\<close>) read messages out of that buffer and write
  replies; \<open>TimerHeap\<close> supplies the timeout of the loop and runs what is due; \<open>string_util\<close> and
  the codecs (base64, url, md5, sha1, sha256) serve the protocols; \<open>RankSet\<close> is an ordered set
  with ranks for applications; \<open>CommandLineOption\<close> and \<open>Random\<close> over \<open>Mt19937\<close> are utilities of the
  programs. The development models these classes bottom up, and composes them for a whole server
  (\<open>test/echo_server.cc\<close>).

  Conventions. A class is a record with its members, a method a function that takes the record
  and returns it updated. Bytes are \<open>8 word\<close>, machine integers are words or have the wrap-around
  written out (\<open>sz\<close>); a raw memory access outside its block, a null or a dangling pointer is
  \<open>None\<close>, so a theorem that a function returns \<open>Some\<close> contains its memory safety. Return codes
  of the code are kept as integers. Callbacks, the clock, the random generator and the operating
  system are parameters. Loops that may not end are \<open>partial_function (option)\<close>: not returning is
  \<open>None\<close> too, so \<open>Some\<close> is termination as well.

  Theories and sources.
  \<^item> \<open>Prelude\<close>: machine types, raw memory, C string conversions, shared list and word lemmas.
  \<^item> \<open>DynamicBuffer\<close> (\<open>dynamic_buffer.cc\<close>): the byte queue between sockets and protocols. Its
    contract is the locale \<open>byte_stream\<close>, its abstraction \<open>db_data\<close>: writing appends, reading
    takes a prefix, growth and compaction lose nothing, integers in either byte order are read back.
  \<^item> \<open>StringUtil\<close> (\<open>string_util.cc\<close>): split, replace, trim, case folding, \<open>CaseInsensitiveLess\<close>,
    number formatting. \<open>OrderedMap\<close>: \<open>std::map\<close> over a strict weak order (locale \<open>strict_weak\<close>).
  \<^item> \<open>HttpMessage\<close>, \<open>HttpProtocol\<close> (\<open>protocol/http_*.cc\<close>): the messages and the incremental parser
    as a state machine over its status; parsing what the writer wrote gives it back; on any
    input the parser returns and stays in its buffers.
  \<^item> \<open>Codec\<close> with \<open>Base64\<close>, \<open>Url\<close> (\<open>codec/base64.cc\<close>, \<open>codec/url.cc\<close>): text codecs, a common
    contract (locale), decoder after encoder is the identity. \<open>StreamHash\<close> with \<open>Md5\<close>, \<open>Sha1\<close>,
    \<open>Sha256\<close>: streaming hashes refine the Merkle-Damgard hash of the whole message (locale \<open>md_hash\<close>).
  \<^item> \<open>WebSocketProtocol\<close>, \<open>WebSocketFrames\<close>, \<open>WebSocketHandshake\<close> (\<open>protocol/web_socket_protocol.cc\<close>):
    frames, masking, fragmentation, control frames, closing, and the handshake over \<open>HttpProtocol\<close>,
    \<open>Sha1\<close> and \<open>Base64\<close>.
  \<^item> \<open>Timestamp\<close> (\<open>timestamp.cc\<close>); \<open>MinHeap\<close>, \<open>TimerHeap\<close>, \<open>TimerQueue\<close> (\<open>timer_heap.cc\<close>): timers in
    a heap of pointers with back links; the invariant, the refinement to a set of timers, what a
    turn of \<open>checkTimeout\<close> does, when it returns and when it does not.
  \<^item> \<open>RankTree\<close>, \<open>RankSet\<close>, \<open>RankStore\<close>, \<open>RankInsert\<close>, \<open>RankQuery\<close>, \<open>RankUnlink\<close>, \<open>RankFixup\<close>,
    \<open>RankErase\<close>, \<open>RankCopy\<close> (\<open>rank_set.h\<close>): a red-black tree
    of linked nodes with subtree sizes. \<open>RankSet\<close> has the operations on the store, \<open>RankTree\<close> trees
    as values, \<open>RankStore\<close> the representation of one by the other; a set \<open>holds\<close> a sorted list of
    nodes and values, and insertion, erasure, iteration, ranks and searching are functions of that list.

  \<^item> \<open>IoDevice\<close> (\<open>io_device.cc\<close> and the registration in \<open>io_service.cc\<close>), \<open>TcpSocket\<close> (\<open>tcp_socket.cc\<close>):
    descriptors, flags and sockets over a record \<open>sys\<close> of system calls, with \<open>errno\<close> and a world.
  \<^item> \<open>IoService\<close>, \<open>EventLoop\<close> (\<open>io_service.cc\<close>): timers and the loop over \<open>epoll_wait\<close>. The contract with the
    owner of the callbacks is the locale \<open>event_handlers\<close>; a turn of the loop dispatches a batch of events
    without calling a device that was removed, and runs the timers that are due.
  \<^item> \<open>TcpService\<close> (\<open>tcp_service.cc\<close>): listening, connecting, sending, receiving, closing and the handlers of
    the events. \<open>TcpKernel\<close> has the laws of the system calls, \<open>kernel_ok\<close>: documented behaviour, with a measure of
    the connections that wait, so that the accept loop ends. \<open>TcpInvariant\<close> has the invariant \<open>tcp_inv\<close> of sockets,
    connections, contexts, timers and callbacks; \<open>TcpRegister\<close>, \<open>TcpClose\<close>, \<open>TcpSend\<close>, \<open>TcpTimers\<close>, \<open>TcpWrite\<close>,
    \<open>TcpAccept\<close>, \<open>TcpRead\<close> follow the operations and show that each returns and keeps it, for any
    application that does (\<open>good_app\<close>). \<open>TcpSafety\<close> interprets \<open>event_handlers\<close> on the service.
  \<^item> \<open>TcpStream\<close>: the bytes of a connection, taken by the kernel and waiting, in order. \<open>TcpDemo\<close>: a network for which
    the laws hold, for concrete runs. \<open>TcpEcho\<close>: the echo server is a good application. \<open>TcpProperties\<close>: what
    the service promises.
  \<^item> \<open>CommandLineOption\<close> (\<open>command_line_option.cc\<close>): the parser of \<open>argv\<close> over \<open>StringUtil\<close>; a grammar of command
    lines is its specification.
  \<^item> \<open>Mt19937\<close> (\<open>codec/mt19937.cc\<close>, \<open>random.cc\<close>): the generator, which refines the recurrence it is named
    after, its seeding, and numbers in a range without favoured values.
  \<^item> \<open>SocketAddress\<close> (\<open>socket_address.cc\<close>): text and native form of an address, each made from the other on demand.
  \<^item> \<open>ConcurrentQueue\<close> (\<open>concurrent_queue.h\<close>): any number of threads over the queue, its mutex and its conditions, as
    a step relation; it is linearisable and loses no wake-up. Its contract is the locale \<open>fifo\<close>.
    \<open>LogAsyncSink\<close> (\<open>log_async_sink.cc\<close>, \<open>object_pool.h\<close>): logging threads, log thread and destructor, with the ownership of
    every buffer. \<open>LogCore\<close> (\<open>log_core.cc\<close>): loggers, filters and the ownership of sinks;
    \<open>LogFileSink\<close> (\<open>log_file_sink.cc\<close>): the file of the moment. \<open>MessageQueue\<close> (\<open>message_queue.h\<close>, \<open>self_pipe.cc\<close>): no message is left unannounced to the event loop;
    \<open>SignalQueue\<close> (\<open>signal_queue.cc\<close>): signal numbers through a pipe.

  Bounds. No fuel is used: recursion is structural, has a measure, or is partial with a theorem
  that it returns. Sizes that a caller controls are taken below \<open>2 ^ 64\<close> where a theorem says so; the
  connections of \<open>TcpService\<close> have buffers of at most \<open>2 ^ 61\<close> bytes and messages below \<open>2 ^ 62\<close>.
  The subtree sizes and addresses of \<open>RankSet\<close> are unbounded numbers. A \<open>double\<close> is a real number, exact
  where it is used. The rejection loop of \<open>Mt19937\<close> returns when an output is accepted, which a
  theorem takes as its hypothesis.

  The sockets take an address as its protocol and its native bytes, the two observations of \<open>SocketAddress\<close> they make.

  Not modelled: \<open>UdpSocket\<close>, the set-up of
  \<open>SelfPipe\<close> and of the queues over it, threads, mutexes and \<open>System\<close> wrap operating system calls without logic of their own beyond
  error codes; of mutexes and conditions \<open>ConcurrentQueue\<close> models what POSIX says of them. The sink for \<open>stderr\<close>; calls of
  the internal logger are left out of the functions that make them. The class templates \<open>Function\<close> and
  \<open>UniquePtr\<close> reimplement the standard library. Tests other than the echo server. The manifest lists every part
  with its reason.
\<close>

end
